(* ===== verification/Cmu_Prelude.thy ===== *)
theory Cmu_Prelude
  imports Main "HOL-Library.Word"
begin

text \<open>
  What the components share: pointers, the allocator, C strings and the few functions of
  the C standard library that the sources call (\<open>strcmp\<close>, \<open>strchr\<close>, \<open>strstr\<close>,
  \<open>toupper\<close>, \<open>tolower\<close>, \<open>memmove\<close>, \<open>memcpy\<close>), and the capacity doubling loop that
  \<open>src/src/arrays.c\<close>, \<open>src/src/strings.c\<close> and the byte buffer have in common.

  Conventions.
  \<^item> A \<open>void*\<close> is \<open>'a ptr\<close>: \<open>NULL\<close> or a reference to some \<open>'a\<close>.
  \<^item> A \<open>const char*\<close> argument is the \<open>string\<close> of the bytes before its terminator; the bytes
    of a buffer read as a C string are \<open>cstr\<close> of them.
  \<^item> An allocator is a predicate on the number of bytes asked for: whether it grants them.
  \<^item> \<open>size_t\<close> and \<open>uint32_t\<close> values are \<open>nat\<close>, with the wrap-around written out
    wherever a caller's value can reach it.
\<close>

named_theorems buf_simps \<open>lengths and positions in memory cells\<close>

section \<open>Pointers, allocation, faults\<close>

type_synonym 'a ptr = "'a option"

abbreviation NULL :: "'a ptr" where
  "NULL \<equiv> None"

type_synonym alloc = "nat \<Rightarrow> bool"

text \<open>What a C program does when it leaves the defined behaviour of the language.\<close>

datatype fault = Null_Deref | Out_Of_Bounds | Div_By_Zero

section \<open>Memory cells\<close>

definition memmove :: "'a list \<Rightarrow> nat \<Rightarrow> nat \<Rightarrow> nat \<Rightarrow> 'a list" where
  "memmove cells dst src n = take dst cells @ take n (drop src cells) @ drop (dst + n) cells"

definition memcpy :: "'a list \<Rightarrow> nat \<Rightarrow> 'a list \<Rightarrow> 'a list" where
  "memcpy cells dst bytes = take dst cells @ bytes @ drop (dst + length bytes) cells"

text \<open>\<open>Realloc\<close> keeps the old cells and adds fresh ones; the fresh cells hold \<open>junk\<close>.\<close>

definition realloc :: "'a \<Rightarrow> 'a list \<Rightarrow> nat \<Rightarrow> 'a list" where
  "realloc junk cells n = take n cells @ replicate (n - length cells) junk"

lemma length_memmove [buf_simps]:
  "dst + n \<le> length cells \<Longrightarrow> src + n \<le> length cells \<Longrightarrow> length (memmove cells dst src n) = length cells"
  by (simp add: memmove_def)

lemma length_memcpy [buf_simps]:
  "dst + length bytes \<le> length cells \<Longrightarrow> length (memcpy cells dst bytes) = length cells"
  by (simp add: memcpy_def)

lemma length_realloc [buf_simps]: "length (realloc junk cells n) = n"
  by (simp add: realloc_def)

lemma take_realloc [buf_simps]:
  "k \<le> length cells \<Longrightarrow> k \<le> n \<Longrightarrow> take k (realloc junk cells n) = take k cells"
  by (simp add: realloc_def)

lemma nth_realloc [buf_simps]:
  "k < length cells \<Longrightarrow> k < n \<Longrightarrow> realloc junk cells n ! k = cells ! k"
  by (simp add: realloc_def nth_append)

lemma take_update_last:
  "n < length cells \<Longrightarrow> take (Suc n) (cells[n := x]) = take n cells @ [x]"
  by (simp add: take_Suc_conv_app_nth)

lemma take_insert_cells:
  assumes "i \<le> n" "n < length cells"
  shows "take (Suc n) ((memmove cells (i + 1) i (n - i))[i := x])
    = take i (take n cells) @ [x] @ drop i (take n cells)"
proof -
  have "memmove cells (i + 1) i (n - i)
      = take i cells @ cells ! i # drop i (take n cells) @ drop (Suc n) cells"
    using assms by (simp add: memmove_def drop_take take_Suc_conv_app_nth)
  then show ?thesis using assms by (simp add: list_update_append Suc_diff_le)
qed

lemma take_remove_cells:
  assumes "i < n" "n \<le> length cells"
  shows "take (n - 1) (memmove cells i (i + 1) (n - i - 1))
    = take i (take n cells) @ drop (Suc i) (take n cells)"
proof -
  have "memmove cells i (i + 1) (n - i - 1)
      = take i cells @ drop (Suc i) (take n cells) @ drop (n - 1) cells"
    using assms by (simp add: memmove_def drop_take)
  then show ?thesis using assms by simp
qed

section \<open>The capacity doubling loop\<close>

text \<open>
  \<open>while (newcap < reqsz) newcap *= 2;\<close> on 64-bit unsigned integers. \<open>None\<close> is a loop
  that does not return: once the product wraps to 0 it stays there.
\<close>

partial_function (option) grow64 :: "nat \<Rightarrow> nat \<Rightarrow> nat option" where
  "grow64 newcap reqsz =
     (if newcap < reqsz then grow64 (newcap * 2 mod 2 ^ 64) reqsz else Some newcap)"

text \<open>
  The same loop for requests no object can exceed (\<open>reqsz \<le> 2 ^ 63\<close>), where the product
  never wraps; \<open>grow64_eq_grow\<close> says the two agree there.
\<close>

function grow :: "nat \<Rightarrow> nat \<Rightarrow> nat" where
  "grow newcap reqsz = (if 0 < newcap \<and> newcap < reqsz then grow (newcap * 2) reqsz else newcap)"
  by pat_completeness auto
termination
  by (relation "measure (\<lambda>(c, r). r - c)") auto

declare grow.simps [simp del]

lemma grow_ge: "0 < c \<Longrightarrow> r \<le> grow c r"
proof (induction c r rule: grow.induct)
  case (1 c r)
  then show ?case by (subst grow.simps) auto
qed

lemma grow_mono: "c \<le> grow c r"
proof (induction c r rule: grow.induct)
  case (1 c r)
  show ?case
  proof (cases "0 < c \<and> c < r")
    case True
    with 1 have "c * 2 \<le> grow (c * 2) r" by simp
    with True show ?thesis by (simp add: grow.simps [of c r])
  next
    case False
    then show ?thesis by (auto simp: grow.simps [of c r])
  qed
qed

lemma grow_less: "0 < c \<Longrightarrow> c < r \<Longrightarrow> grow c r < 2 * r"
proof (induction c r rule: grow.induct)
  case (1 c r)
  show ?case
  proof (cases "c * 2 < r")
    case True
    with 1 show ?thesis by (subst grow.simps) simp
  next
    case False
    with 1 show ?thesis by (simp add: grow.simps [of c r] grow.simps [of "c * 2" r])
  qed
qed

lemma grow_pos: "0 < c \<Longrightarrow> 0 < grow c r"
  using grow_mono [of c r] by simp

lemma grow64_eq_grow: "0 < c \<Longrightarrow> c < 2 ^ 64 \<Longrightarrow> r \<le> 2 ^ 63 \<Longrightarrow> grow64 c r = Some (grow c r)"
proof (induction c r rule: grow.induct)
  case (1 c r)
  show ?case
  proof (cases "c < r")
    case True
    with "1.prems" have "c * 2 < 2 ^ 64" by simp
    with True 1 show ?thesis
      by (simp add: grow64.simps [of c r] grow.simps [of c r])
  next
    case False
    then show ?thesis by (simp add: grow64.simps [of c r] grow.simps [of c r])
  qed
qed

section \<open>Repeated removal\<close>

text \<open>\<open>n\<close> calls of a remove operation, with what they returned.\<close>

fun remove_n :: "('s \<Rightarrow> 'd \<times> 's) \<Rightarrow> nat \<Rightarrow> 's \<Rightarrow> 'd list \<times> 's" where
  "remove_n rm 0 s = ([], s)"
| "remove_n rm (Suc n) s =
     (case rm s of (d, s') \<Rightarrow> case remove_n rm n s' of (ds, s'') \<Rightarrow> (d # ds, s''))"

section \<open>C strings\<close>

abbreviation NUL :: char where
  "NUL \<equiv> CHR 0x00"

definition cstr :: "string \<Rightarrow> string" where
  "cstr s = takeWhile (\<lambda>c. c \<noteq> NUL) s"

lemma cstr_id [simp]: "NUL \<notin> set s \<Longrightarrow> cstr s = s"
  unfolding cstr_def by (simp only: takeWhile_eq_all_conv) auto

lemma NUL_not_in_cstr [simp]: "NUL \<notin> set (cstr s)"
  by (auto simp: cstr_def dest: set_takeWhileD)

lemma cstr_append_NUL: "NUL \<notin> set s \<Longrightarrow> cstr (s @ NUL # t) = s"
  unfolding cstr_def by (subst takeWhile_append2) auto

text \<open>\<open>strchr(s, c) != NULL\<close>: the search includes the terminator of \<open>s\<close>.\<close>

definition strchr :: "string \<Rightarrow> char \<Rightarrow> bool" where
  "strchr s c \<longleftrightarrow> c = NUL \<or> c \<in> set s"

text \<open>The conversion of a \<open>long\<close> to \<open>int\<close>.\<close>

definition to_int :: "int \<Rightarrow> int" where
  "to_int x = (x + 2 ^ 31) mod 2 ^ 32 - 2 ^ 31"

lemma to_int_id: "- (2 ^ 31) \<le> x \<Longrightarrow> x < 2 ^ 31 \<Longrightarrow> to_int x = x"
  by (simp add: to_int_def)

definition code :: "char \<Rightarrow> int" where
  "code c = of_char c"

fun strcmp :: "string \<Rightarrow> string \<Rightarrow> int" where
  "strcmp [] [] = 0"
| "strcmp [] (y # ys) = - code y"
| "strcmp (x # xs) [] = code x"
| "strcmp (x # xs) (y # ys) = (if x = y then strcmp xs ys else code x - code y)"

text \<open>\<open>strstr\<close> as the offset of the first occurrence.\<close>

fun prefixb :: "string \<Rightarrow> string \<Rightarrow> bool" where
  "prefixb [] ys = True"
| "prefixb (x # xs) [] = False"
| "prefixb (x # xs) (y # ys) = (x = y \<and> prefixb xs ys)"

fun strstr :: "string \<Rightarrow> string \<Rightarrow> nat option" where
  "strstr [] needle = (if needle = [] then Some 0 else None)"
| "strstr (c # cs) needle =
     (if prefixb needle (c # cs) then Some 0 else map_option Suc (strstr cs needle))"

definition toupper :: "char \<Rightarrow> char" where
  "toupper c = (if 97 \<le> code c \<and> code c \<le> 122 then char_of (code c - 32) else c)"

definition tolower :: "char \<Rightarrow> char" where
  "tolower c = (if 65 \<le> code c \<and> code c \<le> 90 then char_of (code c + 32) else c)"

lemma length_filter_one:
  "distinct xs \<Longrightarrow> i \<in> set xs \<Longrightarrow> length (filter (\<lambda>x. x \<noteq> i) xs) + 1 = length xs"
proof (induction xs)
  case (Cons x xs)
  show ?case
  proof (cases "x = i")
    case True
    with Cons.prems have "filter (\<lambda>x. x \<noteq> i) xs = xs" by (intro filter_True) auto
    with True show ?thesis by simp
  next
    case False
    with Cons show ?thesis by simp
  qed
qed simp

lemma find_unique:
  assumes "y \<in> set xs" "P y" "\<And>z. z \<in> set xs \<Longrightarrow> P z \<Longrightarrow> z = y"
  shows "List.find P xs = Some y"
proof (cases "List.find P xs")
  case None
  with assms(1,2) show ?thesis by (simp add: find_None_iff)
next
  case (Some z)
  then have "z \<in> set xs" "P z" by (auto simp: find_Some_iff)
  with Some assms(3) show ?thesis by simp
qed

subsection \<open>Laws of \<open>strcmp\<close>\<close>

lemma code_ge_0 [simp]: "0 \<le> code c"
  by (simp add: code_def of_char_def)

lemma code_inj [simp]: "code c = code d \<longleftrightarrow> c = d"
  by (simp add: code_def)

lemma code_NUL [simp]: "code c = 0 \<longleftrightarrow> c = NUL"
  using code_inj [of c NUL] by (simp add: code_def del: code_inj)

lemma code_pos: "c \<noteq> NUL \<Longrightarrow> 0 < code c"
  using code_ge_0 [of c] code_NUL [of c] by linarith

lemma code_less: "code c < 256"
proof -
  have "code c mod 256 = code c" by (simp add: code_def)
  then show ?thesis using pos_mod_bound [of 256 "code c"] by linarith
qed

lemma code_char_of [simp]: "code (char_of (n :: int)) = n mod 256"
  by (simp add: code_def)

lemma toupper_idem [simp]: "toupper (toupper c) = toupper c"
  by (auto simp: toupper_def)

lemma toupper_NUL [simp]: "toupper c = NUL \<longleftrightarrow> c = NUL"
proof -
  have "code (toupper c) = 0 \<longleftrightarrow> code c = 0"
    by (auto simp: toupper_def simp del: code_NUL)
  then show ?thesis by (simp only: code_NUL)
qed

lemma strcmp_refl [simp]: "strcmp xs xs = 0"
  by (induction xs) auto

lemma strcmp_antisym: "strcmp xs ys = - strcmp ys xs"
  by (induction xs ys rule: strcmp.induct) auto

lemma strcmp_eq_0: "NUL \<notin> set xs \<Longrightarrow> NUL \<notin> set ys \<Longrightarrow> strcmp xs ys = 0 \<longleftrightarrow> xs = ys"
  by (induction xs ys rule: strcmp.induct) auto

lemma strcmp_Nil: "0 \<le> strcmp xs []" "strcmp [] xs \<le> 0"
  by (cases xs; simp)+

lemma strcmp_trans:
  "NUL \<notin> set xs \<Longrightarrow> NUL \<notin> set ys \<Longrightarrow> strcmp xs ys \<le> 0 \<Longrightarrow> strcmp ys zs \<le> 0 \<Longrightarrow> strcmp xs zs \<le> 0"
proof (induction xs zs arbitrary: ys rule: strcmp.induct)
  case (3 x xs)
  then show ?case using code_pos [of x] by (cases ys) (auto split: if_splits dest: code_pos)
next
  case (4 x xs z zs)
  from "4.prems" code_pos [of x] obtain y ys' where ys: "ys = y # ys'"
    by (cases ys) auto
  have le: "code x \<le> code y" "code y \<le> code z"
    using "4.prems"(3,4) by (auto simp: ys split: if_splits)
  show ?case
  proof (cases "x = z")
    case True
    with le have "code x = code y" by simp
    then have "x = y" by (simp only: code_inj)
    with True "4.prems" "4.IH" [OF True, of ys'] show ?thesis by (simp add: ys)
  next
    case False
    with le show ?thesis by simp
  qed
qed simp_all

subsection \<open>Laws of \<open>strstr\<close>\<close>

lemma prefixb_iff: "prefixb xs ys \<longleftrightarrow> (\<exists>zs. ys = xs @ zs)"
  by (induction xs ys rule: prefixb.induct) auto

lemma strstr_SomeD:
  "strstr s n = Some k \<Longrightarrow>
     k + length n \<le> length s \<and> prefixb n (drop k s) \<and> (\<forall>j<k. \<not> prefixb n (drop j s))"
proof (induction s n arbitrary: k rule: strstr.induct)
  case (1 needle)
  then show ?case by (auto split: if_splits)
next
  case (2 c cs needle)
  show ?case
  proof (cases "prefixb needle (c # cs)")
    case True
    then obtain zs where "c # cs = needle @ zs" by (auto simp: prefixb_iff)
    then have "length (c # cs) = length needle + length zs" by (metis length_append)
    with True 2 show ?thesis by auto
  next
    case False
    with 2 obtain j where j: "strstr cs needle = Some j" "k = Suc j" by auto
    with 2 False show ?thesis by (auto simp: less_Suc_eq_0_disj)
  qed
qed

lemma strstr_drop_less:
  "strstr s n = Some k \<Longrightarrow> n \<noteq> [] \<Longrightarrow> length s - (k + length n) < length s"
  by (cases n) (auto dest!: strstr_SomeD)

lemma strstr_NoneD: "strstr s n = None \<Longrightarrow> \<not> prefixb n (drop j s)"
proof (induction s n arbitrary: j rule: strstr.induct)
  case (1 needle)
  then show ?case by (cases needle) auto
next
  case (2 c cs needle)
  then show ?case by (cases j) (auto split: if_splits)
qed

lemma strstr_NoneI: "(\<And>j. j \<le> length s \<Longrightarrow> \<not> prefixb n (drop j s)) \<Longrightarrow> strstr s n = None"
proof (cases "strstr s n")
  case (Some k)
  assume *: "\<And>j. j \<le> length s \<Longrightarrow> \<not> prefixb n (drop j s)"
  from strstr_SomeD [OF Some] * [of k] show ?thesis by simp
qed simp

lemma strstr_take: "strstr s n = Some k \<Longrightarrow> n \<noteq> [] \<Longrightarrow> strstr (take k s) n = None"
proof (rule strstr_NoneI)
  fix j assume s: "strstr s n = Some k" "n \<noteq> []" "j \<le> length (take k s)"
  show "\<not> prefixb n (drop j (take k s))"
  proof
    assume "prefixb n (drop j (take k s))"
    then obtain zs where z: "drop j (take k s) = n @ zs" by (auto simp: prefixb_iff)
    then have "j < k" using s by (metis append_is_Nil_conv drop_eq_Nil length_take min.cobounded2 not_le order.trans)
    moreover have "drop j s = n @ zs @ drop k s"
      using z \<open>j < k\<close> by (metis append.assoc append_take_drop_id drop_append drop_take less_imp_le_nat s(3) drop_eq_Nil2 diff_is_0_eq length_take drop0)
    ultimately show False using strstr_SomeD [OF s(1)] by (auto simp: prefixb_iff)
  qed
qed

section \<open>The contract of a growing sequence\<close>

text \<open>
  What the clients of a growable string or byte buffer use: an append either fails or adds
  exactly what it was given at the end.
\<close>

locale appender =
  fixes inv :: "'s \<Rightarrow> bool" and seq :: "'s \<Rightarrow> 'e list" and add :: "'s \<Rightarrow> 'e list \<Rightarrow> 's option"
  assumes add_seq: "inv s \<Longrightarrow> add s xs = Some s' \<Longrightarrow> inv s' \<and> seq s' = seq s @ xs"
begin

fun add_all :: "'s \<Rightarrow> 'e list list \<Rightarrow> 's option" where
  "add_all s [] = Some s"
| "add_all s (xs # xss) = (case add s xs of None \<Rightarrow> None | Some s' \<Rightarrow> add_all s' xss)"

lemma add_all_seq: "inv s \<Longrightarrow> add_all s xss = Some s' \<Longrightarrow> inv s' \<and> seq s' = seq s @ concat xss"
proof (induction xss arbitrary: s)
  case (Cons xs xss)
  then obtain u where "add s xs = Some u" "add_all u xss = Some s'" by (auto split: option.splits)
  with Cons.IH [of u] add_seq [of s xs u] Cons.prems(1) show ?case by simp
qed simp

end

end
