(* ===== verification/Cmu_List.thy ===== *)
theory Cmu_List
  imports Cmu_Prelude
begin

text \<open>
  \<open>src/src/lists.c\<close>: the doubly linked list, at the level of its pointers. The heap maps
  addresses to \<open>CMUTIL_ListItem\<close>s; an operation takes the heap and the list header and
  returns both. Where an operation calls \<open>Alloc\<close>, its first argument is what the allocator
  answered: \<open>NULL\<close> or the address of a fresh block. \<open>lrep\<close> says that a heap and a header
  hold a given sequence; every operation is shown to do to the heap what the corresponding
  operation on sequences does (\<open>fifo\<close>, \<open>deque\<close> and their interpretations).
\<close>

section \<open>Data and operations\<close>

type_synonym addr = nat

record 'a list_item =
  it_prev :: "addr ptr"
  it_next :: "addr ptr"
  it_data :: "'a ptr"

type_synonym 'a heap = "addr \<rightharpoonup> 'a list_item"

record clist =
  l_head :: "addr ptr"
  l_tail :: "addr ptr"
  l_size :: nat
  l_freecb :: bool

text \<open>A write through a pointer to an item (a dangling pointer has no cell to write).\<close>

definition set_item :: "'a heap \<Rightarrow> addr \<Rightarrow> ('a list_item \<Rightarrow> 'a list_item) \<Rightarrow> 'a heap" where
  "set_item h p f = (case h p of None \<Rightarrow> h | Some it \<Rightarrow> h(p \<mapsto> f it))"

definition ListAddFront :: "addr ptr \<Rightarrow> 'a heap \<times> clist \<Rightarrow> 'a ptr \<Rightarrow> 'a heap \<times> clist" where
  "ListAddFront alloc s d = (case s of (h, l) \<Rightarrow>
     (case alloc of
        None \<Rightarrow> (h, l)
      | Some p \<Rightarrow>
          (let h1 = h(p \<mapsto> \<lparr>it_prev = NULL, it_next = l_head l, it_data = d\<rparr>);
               h2 = (case l_head l of
                       None \<Rightarrow> h1
                     | Some q \<Rightarrow> set_item h1 q (it_prev_update (\<lambda>_. Some p)))
           in (h2, l\<lparr>l_head := Some p,
                    l_tail := (if l_tail l = NULL then Some p else l_tail l),
                    l_size := l_size l + 1\<rparr>))))"

definition ListAddTail :: "addr ptr \<Rightarrow> 'a heap \<times> clist \<Rightarrow> 'a ptr \<Rightarrow> 'a heap \<times> clist" where
  "ListAddTail alloc s d = (case s of (h, l) \<Rightarrow>
     (case alloc of
        None \<Rightarrow> (h, l)
      | Some p \<Rightarrow>
          (let h1 = h(p \<mapsto> \<lparr>it_prev = l_tail l, it_next = NULL, it_data = d\<rparr>);
               h2 = (case l_tail l of
                       None \<Rightarrow> h1
                     | Some q \<Rightarrow> set_item h1 q (it_next_update (\<lambda>_. Some p)))
           in (h2, l\<lparr>l_tail := Some p,
                    l_head := (if l_head l = NULL then Some p else l_head l),
                    l_size := l_size l + 1\<rparr>))))"

definition item_data :: "'a heap \<Rightarrow> addr ptr \<Rightarrow> 'a ptr" where
  "item_data h p = (case p of None \<Rightarrow> NULL
     | Some a \<Rightarrow> (case h a of None \<Rightarrow> NULL | Some it \<Rightarrow> it_data it))"

definition ListGetFront :: "'a heap \<times> clist \<Rightarrow> 'a ptr" where
  "ListGetFront s = (case s of (h, l) \<Rightarrow> item_data h (l_head l))"

definition ListGetTail :: "'a heap \<times> clist \<Rightarrow> 'a ptr" where
  "ListGetTail s = (case s of (h, l) \<Rightarrow> item_data h (l_tail l))"

definition ListRemoveFront :: "'a heap \<times> clist \<Rightarrow> 'a ptr \<times> 'a heap \<times> clist" where
  "ListRemoveFront s = (case s of (h, l) \<Rightarrow>
     (case l_head l of
        None \<Rightarrow> (NULL, h, l)
      | Some p \<Rightarrow>
          (case h p of
             None \<Rightarrow> (NULL, h, l)
           | Some it \<Rightarrow>
               (let h1 = (case it_next it of
                            None \<Rightarrow> h
                          | Some q \<Rightarrow> set_item h q (it_prev_update (\<lambda>_. NULL)));
                    n = l_size l - 1
                in (it_data it, h1(p := None),
                    l\<lparr>l_head := it_next it, l_size := n,
                      l_tail := (if n = 0 then NULL else l_tail l)\<rparr>)))))"

definition ListRemoveTail :: "'a heap \<times> clist \<Rightarrow> 'a ptr \<times> 'a heap \<times> clist" where
  "ListRemoveTail s = (case s of (h, l) \<Rightarrow>
     (case l_tail l of
        None \<Rightarrow> (NULL, h, l)
      | Some p \<Rightarrow>
          (case h p of
             None \<Rightarrow> (NULL, h, l)
           | Some it \<Rightarrow>
               (let h1 = (case it_prev it of
                            None \<Rightarrow> h
                          | Some q \<Rightarrow> set_item h q (it_next_update (\<lambda>_. NULL)));
                    n = l_size l - 1
                in (it_data it, h1(p := None),
                    l\<lparr>l_tail := it_prev it, l_size := n,
                      l_head := (if n = 0 then NULL else l_head l)\<rparr>)))))"

text \<open>
  The search loop of \<open>CMUTIL_ListRemove\<close>: the first item whose data pointer is the one
  given. \<open>None\<close> is a loop that does not return (a cyclic chain).
\<close>

partial_function (option) find_item :: "'a heap \<Rightarrow> 'a ptr \<Rightarrow> addr ptr \<Rightarrow> addr ptr option" where
  "find_item h d item =
     (case item of
        None \<Rightarrow> Some NULL
      | Some p \<Rightarrow>
          (case h p of
             None \<Rightarrow> Some NULL
           | Some it \<Rightarrow> if it_data it = d then Some (Some p) else find_item h d (it_next it)))"

definition ListRemove ::
  "'a heap \<times> clist \<Rightarrow> 'a ptr \<Rightarrow> ('a ptr \<times> 'a heap \<times> clist) option" where
  "ListRemove s d = (case s of (h, l) \<Rightarrow>
     (case find_item h d (l_head l) of
        None \<Rightarrow> None
      | Some None \<Rightarrow> Some (NULL, h, l)
      | Some (Some p) \<Rightarrow>
          Some (if Some p = l_head l then ListRemoveFront (h, l)
                else if Some p = l_tail l then ListRemoveTail (h, l)
                else
                  (case h p of
                     None \<Rightarrow> (NULL, h, l)
                   | Some it \<Rightarrow>
                       (let h1 = (case it_prev it of None \<Rightarrow> h
                                  | Some a \<Rightarrow> set_item h a (it_next_update (\<lambda>_. it_next it)));
                            h2 = (case it_next it of None \<Rightarrow> h1
                                  | Some b \<Rightarrow> set_item h1 b (it_prev_update (\<lambda>_. it_prev it)))
                        in (d, h2(p := None), l\<lparr>l_size := l_size l - 1\<rparr>))))))"

definition ListGetSize :: "clist \<Rightarrow> nat" where
  "ListGetSize l = l_size l"

text \<open>The iterator: its state is the current item.\<close>

definition ListIterator :: "clist \<Rightarrow> addr ptr" where
  "ListIterator l = l_head l"

definition ListIterHasNext :: "addr ptr \<Rightarrow> bool" where
  "ListIterHasNext cur \<longleftrightarrow> cur \<noteq> NULL"

definition ListIterNext :: "'a heap \<Rightarrow> addr ptr \<Rightarrow> 'a ptr \<times> addr ptr" where
  "ListIterNext h cur =
     (let res = item_data h cur
      in (res,
          if res \<noteq> NULL
          then (case cur of None \<Rightarrow> NULL
                | Some p \<Rightarrow> (case h p of None \<Rightarrow> NULL | Some it \<Rightarrow> it_next it))
          else cur))"

text \<open>\<open>CMUTIL_ListDestroy\<close>: the data handed to the free callback, in order, and the heap left.\<close>

partial_function (option) destroy_items ::
  "bool \<Rightarrow> 'a heap \<Rightarrow> addr ptr \<Rightarrow> 'a ptr list \<Rightarrow> ('a ptr list \<times> 'a heap) option" where
  "destroy_items freecb h cur freed =
     (case cur of
        None \<Rightarrow> Some (freed, h)
      | Some p \<Rightarrow>
          (case h p of
             None \<Rightarrow> Some (freed, h)
           | Some it \<Rightarrow>
               destroy_items freecb (h(p := None)) (it_next it)
                 (if freecb then freed @ [it_data it] else freed)))"

definition ListDestroy :: "'a heap \<times> clist \<Rightarrow> ('a ptr list \<times> 'a heap) option" where
  "ListDestroy s = (case s of (h, l) \<Rightarrow> destroy_items (l_freecb l) h (l_head l) [])"

definition ListMoveAll :: "'a heap \<Rightarrow> clist \<Rightarrow> clist \<Rightarrow> 'a heap \<times> clist \<times> clist" where
  "ListMoveAll h dest src =
     (case l_head src of
        None \<Rightarrow> (h, dest, src)
      | Some sh \<Rightarrow>
          (let src' = src\<lparr>l_head := NULL, l_tail := NULL, l_size := 0\<rparr>;
               dsize = l_size dest + l_size src
           in (case l_tail dest of
                 Some dt \<Rightarrow>
                   (set_item (set_item h dt (it_next_update (\<lambda>_. Some sh)))
                      sh (it_prev_update (\<lambda>_. Some dt)),
                    dest\<lparr>l_tail := l_tail src, l_size := dsize\<rparr>, src')
               | None \<Rightarrow>
                   (h, dest\<lparr>l_head := l_head src, l_tail := l_tail src, l_size := dsize\<rparr>, src'))))"

definition ListCreateInternal :: "bool \<Rightarrow> bool \<Rightarrow> clist ptr" where
  "ListCreateInternal granted freecb =
     (if granted then Some \<lparr>l_head = NULL, l_tail = NULL, l_size = 0, l_freecb = freecb\<rparr>
      else NULL)"


section \<open>List segments in the heap\<close>

fun first :: "(addr \<times> 'a ptr) list \<Rightarrow> addr ptr \<Rightarrow> addr ptr" where
  "first [] nx = nx"
| "first ((p, d) # xs) nx = Some p"

fun lastp :: "(addr \<times> 'a ptr) list \<Rightarrow> addr ptr \<Rightarrow> addr ptr" where
  "lastp [] pv = pv"
| "lastp ((p, d) # xs) pv = lastp xs (Some p)"

fun seg :: "'a heap \<Rightarrow> addr ptr \<Rightarrow> (addr \<times> 'a ptr) list \<Rightarrow> addr ptr \<Rightarrow> bool" where
  "seg h pv [] nx = True"
| "seg h pv ((p, d) # xs) nx =
     (h p = Some \<lparr>it_prev = pv, it_next = first xs nx, it_data = d\<rparr> \<and> seg h (Some p) xs nx)"

definition lrep :: "'a heap \<times> clist \<Rightarrow> (addr \<times> 'a ptr) list \<Rightarrow> bool" where
  "lrep s pds \<longleftrightarrow> (case s of (h, l) \<Rightarrow>
     seg h NULL pds NULL \<and> distinct (map fst pds) \<and>
     l_head l = first pds NULL \<and> l_tail l = lastp pds NULL \<and> l_size l = length pds)"

text \<open>The list holds the sequence \<open>xs\<close>; an address is fresh when the heap has no cell there.\<close>

definition contents :: "'a heap \<times> clist \<Rightarrow> 'a ptr list \<Rightarrow> bool" where
  "contents s xs \<longleftrightarrow> (\<exists>pds. lrep s pds \<and> map snd pds = xs)"

definition fresh :: "'a heap \<times> clist \<Rightarrow> addr ptr \<Rightarrow> bool" where
  "fresh s p \<longleftrightarrow> (\<exists>a. p = Some a \<and> fst s a = None)"

lemma first_append [simp]: "first (xs @ ys) nx = first xs (first ys nx)"
  by (cases xs) auto

lemma lastp_append [simp]: "lastp (xs @ ys) pv = lastp ys (lastp xs pv)"
  by (induction xs arbitrary: pv) auto

lemma lastp_Some [simp]: "lastp xs (Some a) \<noteq> NULL" "\<exists>y. lastp xs (Some a) = Some y"
  by (induction xs arbitrary: a) auto

lemma seg_append [simp]:
  "seg h pv (xs @ ys) nx \<longleftrightarrow> seg h pv xs (first ys nx) \<and> seg h (lastp xs pv) ys nx"
  by (induction xs arbitrary: pv) auto

lemma seg_upd_other [simp]:
  "p \<notin> fst ` set xs \<Longrightarrow> seg (h(p := v)) pv xs nx = seg h pv xs nx"
  by (induction xs arbitrary: pv) auto

lemma seg_dom: "seg h pv xs nx \<Longrightarrow> (p, d) \<in> set xs \<Longrightarrow> \<exists>it. h p = Some it"
  by (induction xs arbitrary: pv) auto

lemma seg_fresh: "seg h pv xs nx \<Longrightarrow> h p = None \<Longrightarrow> p \<notin> fst ` set xs"
  using seg_dom [of h pv xs nx p] by fastforce

lemma set_item_Some [simp]: "h p = Some it \<Longrightarrow> set_item h p f = h(p \<mapsto> f it)"
  by (simp add: set_item_def)

lemmas list_defs = ListAddFront_def ListAddTail_def ListRemoveFront_def ListRemoveTail_def
  ListGetFront_def ListGetTail_def ListGetSize_def item_data_def Let_def

subsection \<open>Each operation on segments\<close>

lemma lrep_AddFront:
  assumes "lrep (h, l) pds" "h p = None"
  shows "lrep (ListAddFront (Some p) (h, l) d) ((p, d) # pds)"
proof -
  have f: "p \<notin> fst ` set pds" using assms by (auto simp: lrep_def dest: seg_fresh)
  show ?thesis
  proof (cases pds)
    case Nil
    with assms show ?thesis by (simp add: lrep_def list_defs)
  next
    case (Cons x xs)
    with assms f show ?thesis by (cases x) (auto simp: lrep_def list_defs)
  qed
qed

lemma lrep_AddTail:
  assumes "lrep (h, l) pds" "h p = None"
  shows "lrep (ListAddTail (Some p) (h, l) d) (pds @ [(p, d)])"
proof -
  have f: "p \<notin> fst ` set pds" using assms by (auto simp: lrep_def dest: seg_fresh)
  show ?thesis
  proof (cases pds rule: rev_cases)
    case Nil
    with assms show ?thesis by (simp add: lrep_def list_defs)
  next
    case (snoc xs x)
    with assms f show ?thesis
      by (cases x; cases xs) (auto simp: lrep_def list_defs)
  qed
qed

lemma lrep_RemoveFront:
  assumes "lrep (h, l) ((p, d) # pds)"
  shows "fst (ListRemoveFront (h, l)) = d" "lrep (snd (ListRemoveFront (h, l))) pds"
  using assms by (cases pds; force simp: lrep_def list_defs)+

lemma lrep_RemoveTail:
  assumes "lrep (h, l) (pds @ [(p, d)])"
  shows "fst (ListRemoveTail (h, l)) = d" "lrep (snd (ListRemoveTail (h, l))) pds"
  using assms by (cases pds rule: rev_cases; force simp: lrep_def list_defs)+

lemma lrep_MoveAll:
  assumes "lrep (h, dest) ds" "lrep (h, src) ss" "fst ` set ds \<inter> fst ` set ss = {}"
  shows "case ListMoveAll h dest src of (h', dest', src') \<Rightarrow>
    lrep (h', dest') (ds @ ss) \<and> lrep (h', src') []"
proof (cases ss)
  case Nil
  with assms show ?thesis by (simp add: lrep_def ListMoveAll_def)
next
  case (Cons s ss')
  show ?thesis
  proof (cases ds rule: rev_cases)
    case Nil
    with assms Cons show ?thesis by (cases s) (auto simp: lrep_def ListMoveAll_def)
  next
    case (snoc xs x)
    with assms Cons show ?thesis
      by (cases s; cases x; cases xs) (auto simp: lrep_def ListMoveAll_def)
  qed
qed


lemma find_item_seg:
  "seg h pv (ys @ (p, d) # zs) NULL \<Longrightarrow> d \<notin> snd ` set ys \<Longrightarrow>
    find_item h d (first (ys @ (p, d) # zs) NULL) = Some (Some p)"
  by (induction ys arbitrary: pv) (auto simp: find_item.simps)

lemma find_item_absent:
  "seg h pv pds NULL \<Longrightarrow> d \<notin> snd ` set pds \<Longrightarrow> find_item h d (first pds NULL) = Some NULL"
  by (induction pds arbitrary: pv) (auto simp: find_item.simps)

lemma lrep_unlink:
  assumes "lrep (h, l) (ys @ (a, x) # (p, d) # (b, y) # zs)" "d \<notin> snd ` set ys" "d \<noteq> x"
  shows "\<exists>s'. ListRemove (h, l) d = Some (d, s') \<and> lrep s' (ys @ (a, x) # (b, y) # zs)"
proof -
  have f: "find_item h d (first (ys @ (a, x) # (p, d) # (b, y) # zs) NULL) = Some (Some p)"
    using assms find_item_seg [of h NULL "ys @ [(a, x)]" p d "(b, y) # zs"]
    by (simp add: lrep_def)
  have nh: "Some p \<noteq> first ys (Some a)" using assms(1) by (cases ys) (auto simp: lrep_def)
  have "lastp zs (Some b) \<noteq> Some p"
    using assms(1) by (cases zs rule: rev_cases) (auto simp: lrep_def)
  then show ?thesis
    using assms f nh by (auto simp: ListRemove_def lrep_def Let_def)
qed

lemma lrep_Remove:
  assumes "lrep s (ys @ (p, d) # zs)" "d \<notin> snd ` set ys"
  shows "\<exists>s'. ListRemove s d = Some (d, s') \<and> lrep s' (ys @ zs)"
proof -
  obtain h l where s: "s = (h, l)" by (cases s)
  have f: "find_item h d (l_head l) = Some (Some p)"
    using assms find_item_seg [of h NULL ys p d zs] by (simp add: s lrep_def)
  show ?thesis
  proof (cases ys rule: rev_cases)
    case Nil
    with assms f lrep_RemoveFront [of h l p d zs] show ?thesis
      by (cases "ListRemoveFront (h, l)") (auto simp: s ListRemove_def lrep_def)
  next
    case (snoc ys' ax)
    then obtain a x where ax: "ax = (a, x)" by (cases ax)
    show ?thesis
    proof (cases zs)
      case Nil
      have "l_head l \<noteq> Some p" "l_tail l = Some p"
        using assms snoc ax Nil by (cases ys'; auto simp: s lrep_def)+
      with f assms Nil lrep_RemoveTail [of h l ys p d] show ?thesis
        by (cases "ListRemoveTail (h, l)") (auto simp: s ListRemove_def)
    next
      case (Cons by' zs')
      with assms snoc ax lrep_unlink [of h l ys' a x p d] show ?thesis
        by (cases by') (auto simp: s)
    qed
  qed
qed

lemma destroy_items_seg:
  "seg h pv pds NULL \<Longrightarrow> distinct (map fst pds) \<Longrightarrow>
    destroy_items fr h (first pds NULL) acc
      = Some (acc @ (if fr then map snd pds else []), h |` (- fst ` set pds))"
proof (induction pds arbitrary: h pv acc)
  case Nil
  then show ?case by (simp add: destroy_items.simps)
next
  case (Cons x xs)
  obtain p d where x: "x = (p, d)" by (cases x)
  from Cons.prems have "seg (h(p := None)) (Some p) xs NULL" "distinct (map fst xs)"
    by (auto simp: x)
  note IH = Cons.IH [OF this]
  have r: "h(p := None) |` (- fst ` set xs) = h |` (- fst ` set (x # xs))"
    by (auto simp: x restrict_map_def fun_eq_iff)
  show ?case
    using IH [of "if fr then acc @ [d] else acc"] r Cons.prems
    by (cases fr) (simp_all add: x destroy_items.simps [of _ h "Some p" acc] del: fun_upd_apply)
qed

section \<open>The contract: a double-ended queue\<close>

locale fifo =
  fixes rep :: "'s \<Rightarrow> 'd list \<Rightarrow> bool"
    and unused :: "'s \<Rightarrow> 'p \<Rightarrow> bool"
    and add_tail :: "'p \<Rightarrow> 's \<Rightarrow> 'd \<Rightarrow> 's"
    and remove_front :: "'s \<Rightarrow> 'd \<times> 's"
  assumes rep_add_tail: "rep s xs \<Longrightarrow> unused s p \<Longrightarrow> rep (add_tail p s d) (xs @ [d])"
    and rep_remove_front:
      "rep s (d # xs) \<Longrightarrow> fst (remove_front s) = d \<and> rep (snd (remove_front s)) xs"
begin

lemma remove_all:
  "rep s (xs @ ys) \<Longrightarrow>
    fst (remove_n remove_front (length xs) s) = xs \<and>
    rep (snd (remove_n remove_front (length xs) s)) ys"
proof (induction xs arbitrary: s)
  case Nil
  then show ?case by simp
next
  case (Cons x xs)
  from Cons.prems have "fst (remove_front s) = x" "rep (snd (remove_front s)) (xs @ ys)"
    using rep_remove_front [of s x "xs @ ys"] by auto
  with Cons.IH [of "snd (remove_front s)"] show ?case by (auto split: prod.splits)
qed

lemma queued_behind:
  assumes "rep s xs" "unused s p"
  shows "fst (remove_n remove_front (Suc (length xs)) (add_tail p s d)) = xs @ [d]"
  using remove_all [of "add_tail p s d" "xs @ [d]" "[]"] rep_add_tail [OF assms] by simp

end

locale deque = fifo rep unused add_tail remove_front
  for rep :: "'s \<Rightarrow> 'd list \<Rightarrow> bool" and unused :: "'s \<Rightarrow> 'p \<Rightarrow> bool"
    and add_tail and remove_front +
  fixes add_front :: "'p \<Rightarrow> 's \<Rightarrow> 'd \<Rightarrow> 's"
    and remove_tail :: "'s \<Rightarrow> 'd \<times> 's"
  assumes rep_add_front: "rep s xs \<Longrightarrow> unused s p \<Longrightarrow> rep (add_front p s d) (d # xs)"
    and rep_remove_tail:
      "rep s (xs @ [d]) \<Longrightarrow> fst (remove_tail s) = d \<and> rep (snd (remove_tail s)) xs"
begin

lemma push_pop:
  "rep s xs \<Longrightarrow> unused s p \<Longrightarrow>
    fst (remove_front (add_front p s d)) = d \<and> rep (snd (remove_front (add_front p s d))) xs"
  by (blast dest: rep_add_front rep_remove_front)

lemma remove_all_tail:
  "rep s (ys @ xs) \<Longrightarrow>
    fst (remove_n remove_tail (length xs) s) = rev xs \<and>
    rep (snd (remove_n remove_tail (length xs) s)) ys"
proof (induction xs arbitrary: s rule: rev_induct)
  case Nil
  then show ?case by simp
next
  case (snoc x xs)
  from snoc.prems have "fst (remove_tail s) = x" "rep (snd (remove_tail s)) (ys @ xs)"
    using rep_remove_tail [of s "ys @ xs" x] by auto
  with snoc.IH [of "snd (remove_tail s)"] show ?case by (auto split: prod.splits)
qed

end

lemma contents_AddTail:
  "contents s xs \<Longrightarrow> fresh s p \<Longrightarrow> contents (ListAddTail p s d) (xs @ [d])"
  by (cases s) (fastforce simp: contents_def fresh_def dest: lrep_AddTail)

lemma contents_AddFront:
  "contents s xs \<Longrightarrow> fresh s p \<Longrightarrow> contents (ListAddFront p s d) (d # xs)"
  by (cases s) (fastforce simp: contents_def fresh_def dest: lrep_AddFront)

lemma contents_RemoveFront:
  "contents s (d # xs) \<Longrightarrow>
    fst (ListRemoveFront s) = d \<and> contents (snd (ListRemoveFront s)) xs"
  by (cases s) (fastforce simp: contents_def dest: lrep_RemoveFront)

lemma contents_RemoveTail:
  assumes "contents s (xs @ [d])"
  shows "fst (ListRemoveTail s) = d \<and> contents (snd (ListRemoveTail s)) xs"
proof -
  from assms obtain pds where p: "lrep s pds" "map snd pds = xs @ [d]" by (auto simp: contents_def)
  then obtain ys a where "pds = ys @ [(a, d)]" "map snd ys = xs"
    by (cases pds rule: rev_cases) auto
  with p show ?thesis
    by (cases s) (auto simp: contents_def dest: lrep_RemoveTail)
qed

interpretation lq: deque contents fresh ListAddTail ListRemoveFront ListAddFront ListRemoveTail
  by unfold_locales
    (auto intro: contents_AddTail contents_AddFront dest: contents_RemoveFront contents_RemoveTail)


section \<open>Properties\<close>

text \<open>C21: First in, first out: after any sequence is in the list, a new item appended to its tail comes
  out of the head after exactly the items queued before it, each once and in order.\<close>

theorem list_fifo:
  assumes "contents s xs" "fresh s p"
  shows "fst (remove_n ListRemoveFront (Suc (length xs)) (ListAddTail p s d)) = xs @ [d]"
  using assms by (rule lq.queued_behind)

text \<open>The list with one item, used by the witnesses.\<close>

definition empty_list :: "'a heap \<times> clist" where
  "empty_list = (Map.empty, \<lparr>l_head = NULL, l_tail = NULL, l_size = 0, l_freecb = True\<rparr>)"

lemma contents_empty: "contents empty_list []"
  by (simp add: contents_def lrep_def empty_list_def)

lemma contents_one: "contents (ListAddTail (Some 0) empty_list d) [d]"
  using contents_AddTail [OF contents_empty, of "Some 0" d] by (simp add: fresh_def empty_list_def)

theorem list_fifo_witness:
  "fst (remove_n ListRemoveFront (Suc (length [Some True]))
     (ListAddTail (Some 1) (ListAddTail (Some 0) empty_list (Some True)) (Some False)))
   = [Some True, Some False]"
  using list_fifo [OF contents_one [of "Some True"], of "Some 1" "Some False"]
  by (simp add: fresh_def empty_list_def list_defs)

text \<open>\<open>Remove\<close> returns, whether the item is first, last, inside or absent: it unlinks the first
  occurrence of the pointer, returns it (NULL when absent) and leaves the other items in order,
  with both pointer chains, head, tail and size consistent.\<close>

theorem list_remove_first_occurrence:
  assumes "contents s xs"
  shows "\<exists>s'. ListRemove s d = Some (if d \<in> set xs then d else NULL, s') \<and> contents s' (remove1 d xs)"
proof -
  from assms obtain pds where p: "lrep s pds" "map snd pds = xs" by (auto simp: contents_def)
  show ?thesis
  proof (cases "d \<in> set xs")
    case True
    then obtain us vs where uv: "xs = us @ d # vs" "d \<notin> set us"
      by (blast dest: split_list_first)
    from p(2) uv(1) obtain ys a zs where
      pds: "pds = ys @ (a, d) # zs" "map snd ys = us" "map snd zs = vs"
      by (auto simp: map_eq_append_conv map_eq_Cons_conv)
    from uv(2) pds(2) have "d \<notin> snd ` set ys" by force
    from lrep_Remove [OF _ this] p(1) pds(1) obtain s' where
      "ListRemove s d = Some (d, s')" "lrep s' (ys @ zs)" by blast
    with True uv pds show ?thesis by (auto simp: contents_def remove1_append)
  next
    case False
    obtain h l where s: "s = (h, l)" by (cases s)
    from p(2) False have "d \<notin> snd ` set pds" by force
    with p(1) find_item_absent [of h NULL pds d] have "find_item h d (l_head l) = Some NULL"
      by (simp add: s lrep_def)
    with False assms show ?thesis by (simp add: s ListRemove_def remove1_idem)
  qed
qed

theorem list_remove_witness:
  "\<exists>s'. ListRemove (ListAddTail (Some 0) empty_list (Some True)) (Some True)
      = Some (if Some True \<in> set [Some True] then Some True else NULL, s') \<and>
    contents s' (remove1 (Some True) [Some True])"
  by (rule list_remove_first_occurrence [OF contents_one])

text \<open>\<open>MoveAll\<close> appends the whole source to the destination and leaves the source empty, both
  again well-formed lists of the same heap.\<close>

theorem list_move_all:
  assumes "lrep (h, dest) ds" "lrep (h, src) ss" "fst ` set ds \<inter> fst ` set ss = {}"
  shows "case ListMoveAll h dest src of (h', dest', src') \<Rightarrow>
    contents (h', dest') (map snd ds @ map snd ss) \<and> contents (h', src') [] \<and>
    l_size src' = 0"
  using lrep_MoveAll [OF assms]
  by (auto simp: contents_def lrep_def intro!: exI [of _ "ds @ ss"] split: prod.splits)

text \<open>Two one-item lists in one heap.\<close>

definition two_lists :: "bool heap \<times> clist \<times> clist" where
  "two_lists =
     ([0 \<mapsto> \<lparr>it_prev = NULL, it_next = NULL, it_data = Some True\<rparr>,
       1 \<mapsto> \<lparr>it_prev = NULL, it_next = NULL, it_data = Some False\<rparr>],
      \<lparr>l_head = Some 0, l_tail = Some 0, l_size = 1, l_freecb = False\<rparr>,
      \<lparr>l_head = Some 1, l_tail = Some 1, l_size = 1, l_freecb = False\<rparr>)"

theorem list_move_all_witness:
  "case two_lists of (h, a, b) \<Rightarrow>
    (case ListMoveAll h a b of (h', dest', src') \<Rightarrow>
      contents (h', dest') [Some True, Some False] \<and> contents (h', src') [] \<and> l_size src' = 0)"
  using list_move_all [of "fst two_lists" "fst (snd two_lists)" "[(0, Some True)]"
      "snd (snd two_lists)" "[(1, Some False)]"]
  by (simp add: two_lists_def lrep_def)

text \<open>\<open>Destroy\<close> returns; it hands every item's data to the free callback exactly once, in list
  order (to none when there is no callback), and frees exactly the items' own blocks.\<close>

theorem list_destroy_frees_all:
  assumes "lrep (h, l) pds"
  shows "ListDestroy (h, l)
    = Some (if l_freecb l then map snd pds else [], h |` (- fst ` set pds))"
  using assms destroy_items_seg [of h NULL pds "l_freecb l" "[]"]
  by (simp add: ListDestroy_def lrep_def)

theorem list_destroy_witness:
  "ListDestroy (ListAddTail (Some 0) empty_list (Some True)) = Some ([Some True], Map.empty)"
proof -
  let ?s = "ListAddTail (Some 0) empty_list (Some True)"
  have r: "lrep (fst ?s, snd ?s) [(0, Some True)]"
    using lrep_AddTail [of Map.empty "snd empty_list" "[]" 0 "Some True"]
    by (simp add: lrep_def empty_list_def)
  show ?thesis using list_destroy_frees_all [OF r] by (simp add: list_defs empty_list_def)
qed

text \<open>\<open>n\<close> calls of the iterator's \<open>Next\<close>: what they returned and the iterator left.\<close>

fun iter_n :: "'a heap \<Rightarrow> nat \<Rightarrow> addr ptr \<Rightarrow> 'a ptr list \<times> addr ptr" where
  "iter_n h 0 cur = ([], cur)"
| "iter_n h (Suc n) cur =
     (case ListIterNext h cur of (d, cur') \<Rightarrow>
        case iter_n h n cur' of (ds, cur'') \<Rightarrow> (d # ds, cur''))"

lemma iter_n_seg:
  "seg h pv pds NULL \<Longrightarrow> NULL \<notin> snd ` set pds \<Longrightarrow>
    iter_n h (length pds) (first pds NULL) = (map snd pds, NULL)"
  by (induction pds arbitrary: pv) (auto simp: ListIterNext_def item_data_def)

text \<open>The iterator of a list that holds no NULL returns every item once, in order, and then has
  no next; at an item whose data is NULL it returns NULL without advancing, so it never gets past
  that item although \<open>HasNext\<close> stays true.\<close>

theorem list_iterator:
  assumes "lrep (h, l) pds"
  shows "(NULL \<notin> snd ` set pds \<longrightarrow>
      fst (iter_n h (length pds) (ListIterator l)) = map snd pds \<and>
      \<not> ListIterHasNext (snd (iter_n h (length pds) (ListIterator l)))) \<and>
    (\<forall>p. (p, NULL) \<in> set pds \<longrightarrow>
      ListIterNext h (Some p) = (NULL, Some p) \<and> ListIterHasNext (Some p))"
proof (intro conjI impI allI)
  from assms have s: "seg h NULL pds NULL" "l_head l = first pds NULL" by (auto simp: lrep_def)
  {
    assume "NULL \<notin> snd ` set pds"
    from iter_n_seg [OF s(1) this] s(2)
    have "iter_n h (length pds) (ListIterator l) = (map snd pds, NULL)"
      by (simp add: ListIterator_def)
    then show "fst (iter_n h (length pds) (ListIterator l)) = map snd pds"
      "\<not> ListIterHasNext (snd (iter_n h (length pds) (ListIterator l)))"
      by (simp_all add: ListIterHasNext_def)
  }
  fix p
  assume "(p, NULL) \<in> set pds"
  then obtain ys zs where "pds = ys @ (p, NULL) # zs" by (auto dest: split_list)
  with s(1) show "ListIterNext h (Some p) = (NULL, Some p)"
    by (simp add: ListIterNext_def item_data_def)
  show "ListIterHasNext (Some p)" by (simp add: ListIterHasNext_def)
qed

theorem list_iterator_witness:
  "iter_n (fst two_lists) 1 (ListIterator (fst (snd two_lists))) = ([Some True], NULL)"
proof -
  have "lrep (fst two_lists, fst (snd two_lists)) [(0, Some True)]"
    by (simp add: two_lists_def lrep_def)
  from list_iterator [OF this] show ?thesis
    by (cases "iter_n (fst two_lists) 1 (ListIterator (fst (snd two_lists)))")
      (auto simp: ListIterHasNext_def)
qed

end
