(* ===== verification/Cmu_Array.thy ===== *)
theory Cmu_Array
  imports Cmu_Prelude
begin

text \<open>
  \<open>src/src/arrays.c\<close>: the growable array of pointers, sorted or not. \<open>a_data\<close> is the block
  of \<open>a_capacity\<close> cells of which the first \<open>a_size\<close> are in use; \<open>items\<close> is the sequence the
  array stands for and \<open>arr_inv\<close> its well-formedness. A sorted array is searched by
  bisection with the caller's comparator, whose laws are the locale \<open>comparator\<close>.

  The result of an operation lists what the C function returns, what it writes through its
  out-parameters and which pointers it hands to the free callback.
\<close>

section \<open>Data and operations\<close>

type_synonym 'a cmp = "'a ptr \<Rightarrow> 'a ptr \<Rightarrow> int"

record 'a arr =
  a_data :: "'a ptr list"
  a_capacity :: nat
  a_size :: nat
  a_comparator :: "'a cmp option"
  a_freecb :: bool
  a_sorted :: bool

text \<open>\<open>sizeof(void*)\<close> and the sizes of the structs on a 64-bit target.\<close>

definition sizeof_ptr :: nat where
  "sizeof_ptr = 8"

definition sizeof_Array_Internal :: nat where
  "sizeof_Array_Internal = 176"

definition ArrayCheckSize :: "alloc \<Rightarrow> 'a arr \<Rightarrow> nat \<Rightarrow> bool \<times> 'a arr" where
  "ArrayCheckSize mem a insize =
     (let reqsz = a_size a + insize
      in if a_capacity a < reqsz then
           (let newcap = grow (if a_capacity a \<noteq> 0 then a_capacity a * 2 else 4) reqsz
            in if mem (newcap * sizeof_ptr)
               then (True, a\<lparr>a_data := realloc NULL (a_data a) newcap, a_capacity := newcap\<rparr>)
               else (False, a))
         else (True, a))"

text \<open>
  The bisection loop: 1 with the position of an equal item, or 2 with the position where the
  object belongs. The first branch is only there to make the function total: the code enters
  the loop with \<open>stpos < edpos\<close> and keeps it so.
\<close>

function search_loop :: "('a ptr \<Rightarrow> int) \<Rightarrow> 'a ptr list \<Rightarrow> nat \<Rightarrow> nat \<Rightarrow> nat \<times> nat" where
  "search_loop cmp d stpos edpos =
     (if \<not> stpos < edpos then (0, 0)
      else
        (let mid = (edpos + stpos) div 2; c = cmp (d ! mid)
         in if c = 0 then (1, mid)
            else if c < 0 then
              (if mid = stpos then (2, mid) else search_loop cmp d stpos mid)
            else
              (if mid = edpos - 1 then (2, edpos) else search_loop cmp d mid edpos)))"
  by pat_completeness auto
termination
  by (relation "measure (\<lambda>(cmp, d, st, ed). ed - st)") auto

declare search_loop.simps [simp del]

definition ArraySearchPrivate :: "'a arr \<Rightarrow> 'a ptr \<Rightarrow> 'a cmp \<Rightarrow> nat \<times> nat" where
  "ArraySearchPrivate a obj cb_cmp =
     (let (found, idx) = (if 0 < a_size a then search_loop (cb_cmp obj) (a_data a) 0 (a_size a) else (2, 0))
      in (found, idx mod 2 ^ 32))"

definition ArrayInsertAtPrivate :: "alloc \<Rightarrow> 'a arr \<Rightarrow> 'a ptr \<Rightarrow> nat \<Rightarrow> 'a ptr \<times> 'a arr" where
  "ArrayInsertAtPrivate mem a item index =
     (case ArrayCheckSize mem a 1 of
        (False, a1) \<Rightarrow> (NULL, a1)
      | (True, a1) \<Rightarrow>
          if index > a_size a1 then (NULL, a1)
          else
            (let d = (if index < a_size a1
                      then memmove (a_data a1) (index + 1) index (a_size a1 - index)
                      else a_data a1)
             in (item, a1\<lparr>a_data := d[index := item], a_size := a_size a1 + 1\<rparr>)))"

definition ArrayInsertAt :: "alloc \<Rightarrow> 'a arr \<Rightarrow> 'a ptr \<Rightarrow> nat \<Rightarrow> 'a ptr \<times> 'a arr" where
  "ArrayInsertAt mem a item index =
     (if \<not> a_sorted a then ArrayInsertAtPrivate mem a item index else (NULL, a))"

definition ArraySetAtPrivate :: "'a arr \<Rightarrow> 'a ptr \<Rightarrow> nat \<Rightarrow> 'a ptr \<times> 'a arr" where
  "ArraySetAtPrivate a item index =
     (if index < a_size a
      then (a_data a ! index, a\<lparr>a_data := (a_data a)[index := item]\<rparr>)
      else (NULL, a))"

definition ArraySetAt :: "'a arr \<Rightarrow> 'a ptr \<Rightarrow> nat \<Rightarrow> 'a ptr \<times> 'a arr" where
  "ArraySetAt a item index =
     (if \<not> a_sorted a then ArraySetAtPrivate a item index else (NULL, a))"

text \<open>What \<open>Add\<close> answers: success, the value written to \<open>*ret\<close> (if any) and the pointers freed.\<close>

record 'a added =
  add_ok :: bool
  add_ret :: "'a ptr option"
  add_freed :: "'a ptr list"

definition ArrayAdd :: "alloc \<Rightarrow> 'a arr \<Rightarrow> 'a ptr \<Rightarrow> bool \<Rightarrow> 'a added \<times> 'a arr" where
  "ArrayAdd mem a item want_ret =
     (if a_sorted a then
        (let (found, index) = ArraySearchPrivate a item (the (a_comparator a))
         in if found = 1 then
              (\<lparr>add_ok = True,
                add_ret = (if want_ret then Some (a_data a ! index) else None),
                add_freed = (if \<not> want_ret \<and> a_freecb a \<and> a_data a ! index \<noteq> item
                             then [a_data a ! index] else [])\<rparr>,
               a\<lparr>a_data := (a_data a)[index := item]\<rparr>)
            else if found \<noteq> 0 then
              (let (res, a') = ArrayInsertAtPrivate mem a item index
               in (\<lparr>add_ok = (res \<noteq> NULL), add_ret = None, add_freed = []\<rparr>, a'))
            else (\<lparr>add_ok = True, add_ret = None, add_freed = []\<rparr>, a))
      else
        (case ArrayCheckSize mem a 1 of
           (False, a1) \<Rightarrow> (\<lparr>add_ok = False, add_ret = None, add_freed = []\<rparr>, a1)
         | (True, a1) \<Rightarrow>
             (\<lparr>add_ok = True, add_ret = None, add_freed = []\<rparr>,
              a1\<lparr>a_data := (a_data a1)[a_size a1 := item], a_size := a_size a1 + 1\<rparr>)))"

definition ArrayRemoveAt :: "'a arr \<Rightarrow> nat \<Rightarrow> 'a ptr \<times> 'a arr" where
  "ArrayRemoveAt a index =
     (if index < a_size a
      then (a_data a ! index,
            a\<lparr>a_data := memmove (a_data a) index (index + 1) (a_size a - index - 1),
              a_size := a_size a - 1\<rparr>)
      else (NULL, a))"

definition ArrayGetAt :: "'a arr \<Rightarrow> nat \<Rightarrow> 'a ptr" where
  "ArrayGetAt a index = (if index < a_size a then a_data a ! index else NULL)"

text \<open>The scan of an unsorted array, from index \<open>i\<close> with \<open>n\<close> items left.\<close>

fun find_scan :: "('a ptr \<Rightarrow> bool) \<Rightarrow> 'a ptr list \<Rightarrow> nat \<Rightarrow> nat \<Rightarrow> ('a ptr \<times> nat) option" where
  "find_scan eq d i 0 = None"
| "find_scan eq d i (Suc n) = (if eq (d ! i) then Some (d ! i, i) else find_scan eq d (Suc i) n)"

text \<open>\<open>CMUTIL_ArrayFind\<close>: the item and the index written to \<open>*index\<close> when it is.\<close>

definition ArrayFind :: "'a arr \<Rightarrow> 'a ptr \<Rightarrow> 'a ptr \<times> nat option" where
  "ArrayFind a compval =
     (if a_sorted a then
        (let (found, idx) = ArraySearchPrivate a compval (the (a_comparator a))
         in if found = 1 then (a_data a ! idx, Some idx) else (NULL, None))
      else
        (let eq = (case a_comparator a of
                     Some cmp \<Rightarrow> (\<lambda>x. cmp compval x = 0)
                   | None \<Rightarrow> (\<lambda>x. x = compval))
         in case find_scan eq (a_data a) 0 (a_size a) of
              None \<Rightarrow> (NULL, None)
            | Some (x, i) \<Rightarrow> (x, Some i)))"

text \<open>\<open>index\<close> starts as \<open>(uint32_t)-1\<close>.\<close>

definition ArrayRemove :: "'a arr \<Rightarrow> 'a ptr \<Rightarrow> 'a ptr \<times> 'a arr" where
  "ArrayRemove a compval =
     (case ArrayFind a compval of
        (res, oidx) \<Rightarrow>
          if res \<noteq> NULL
          then ArrayRemoveAt a (case oidx of None \<Rightarrow> 2 ^ 32 - 1 | Some i \<Rightarrow> i)
          else (res, a))"

definition ArrayGetSize :: "'a arr \<Rightarrow> nat" where
  "ArrayGetSize a = a_size a"

definition ArrayPush :: "alloc \<Rightarrow> 'a arr \<Rightarrow> 'a ptr \<Rightarrow> bool \<times> 'a arr" where
  "ArrayPush mem a item =
     (if a_sorted a then (False, a)
      else (case ArrayAdd mem a item False of (r, a') \<Rightarrow> (add_ok r, a')))"

definition ArrayPop :: "'a arr \<Rightarrow> 'a ptr \<times> 'a arr" where
  "ArrayPop a = (if 0 < a_size a then ArrayRemoveAt a ((a_size a - 1) mod 2 ^ 32) else (NULL, a))"

definition ArrayTop :: "'a arr \<Rightarrow> 'a ptr" where
  "ArrayTop a = (if 0 < a_size a then ArrayGetAt a ((a_size a - 1) mod 2 ^ 32) else NULL)"

definition ArrayBottom :: "'a arr \<Rightarrow> 'a ptr" where
  "ArrayBottom a = (if 0 < a_size a then ArrayGetAt a 0 else NULL)"

text \<open>The iterator: the index of the next item, a \<open>uint32_t\<close>.\<close>

definition sizeof_ArrayIterator :: nat where
  "sizeof_ArrayIterator = 48"

definition ArrayIterator :: "alloc \<Rightarrow> nat ptr" where
  "ArrayIterator mem = (if mem sizeof_ArrayIterator then Some 0 else NULL)"

definition ArrayIterHasNext :: "'a arr \<Rightarrow> nat \<Rightarrow> bool" where
  "ArrayIterHasNext a index \<longleftrightarrow> a_size a > index"

definition ArrayIterNext :: "'a arr \<Rightarrow> nat \<Rightarrow> 'a ptr \<times> nat" where
  "ArrayIterNext a index =
     (if a_size a > index then (ArrayGetAt a index, (index + 1) mod 2 ^ 32) else (NULL, index))"

definition ArrayClear :: "'a arr \<Rightarrow> 'a ptr list \<times> 'a arr" where
  "ArrayClear a =
     (if a_freecb a then take (a_size a) (a_data a) else [],
      a\<lparr>a_data := replicate (a_capacity a) NULL, a_size := 0\<rparr>)"

definition ArrayDestroy :: "'a arr \<Rightarrow> 'a ptr list" where
  "ArrayDestroy a = (if a_freecb a then take (a_size a) (a_data a) else [])"

definition ArrayCreateInternal ::
  "alloc \<Rightarrow> nat \<Rightarrow> 'a cmp option \<Rightarrow> bool \<Rightarrow> bool \<Rightarrow> 'a arr ptr" where
  "ArrayCreateInternal mem initcapacity cmp freecb issorted =
     (if \<not> mem sizeof_Array_Internal then NULL
      else if \<not> mem (sizeof_ptr * initcapacity) then NULL
      else Some \<lparr>a_data = replicate initcapacity NULL, a_capacity = initcapacity, a_size = 0,
                 a_comparator = cmp, a_freecb = freecb, a_sorted = issorted\<rparr>)"

definition ArrayCreateEx ::
  "alloc \<Rightarrow> nat \<Rightarrow> 'a cmp option \<Rightarrow> bool \<Rightarrow> 'a arr ptr" where
  "ArrayCreateEx mem initcapacity cmp freecb =
     ArrayCreateInternal mem initcapacity cmp freecb (cmp \<noteq> None)"

section \<open>Well-formedness and the unsorted operations\<close>

definition items :: "'a arr \<Rightarrow> 'a ptr list" where
  "items a = take (a_size a) (a_data a)"

definition arr_inv :: "'a arr \<Rightarrow> bool" where
  "arr_inv a \<longleftrightarrow> length (a_data a) = a_capacity a \<and> a_size a \<le> a_capacity a"

text \<open>Two arrays with the same comparator, callback and mode.\<close>

definition same_kind :: "'a arr \<Rightarrow> 'a arr \<Rightarrow> bool" where
  "same_kind a b \<longleftrightarrow> a_comparator a = a_comparator b \<and> a_freecb a = a_freecb b \<and> a_sorted a = a_sorted b"

lemma same_kind_refl [simp]: "same_kind a a"
  by (simp add: same_kind_def)

lemma same_kindD:
  "same_kind a b \<Longrightarrow> a_comparator b = a_comparator a"
  "same_kind a b \<Longrightarrow> a_freecb b = a_freecb a"
  "same_kind a b \<Longrightarrow> a_sorted b = a_sorted a"
  by (simp_all add: same_kind_def)

lemma length_items [simp]: "arr_inv a \<Longrightarrow> length (items a) = a_size a"
  by (simp add: arr_inv_def items_def)

lemma nth_items: "i < a_size a \<Longrightarrow> items a ! i = a_data a ! i"
  by (simp add: items_def)

lemma CheckSize_spec:
  assumes "arr_inv a" "ArrayCheckSize mem a n = (ok, a')"
  shows "arr_inv a'" "items a' = items a" "a_size a' = a_size a" "same_kind a a'"
    "ok \<Longrightarrow> a_size a + n \<le> a_capacity a'"
    "\<not> ok \<longleftrightarrow> a_capacity a < a_size a + n \<and>
      \<not> mem (grow (if a_capacity a \<noteq> 0 then a_capacity a * 2 else 4) (a_size a + n) * sizeof_ptr)"
proof -
  let ?c = "grow (if a_capacity a \<noteq> 0 then a_capacity a * 2 else 4) (a_size a + n)"
  have g: "a_size a + n \<le> ?c" by (rule grow_ge) simp
  show "arr_inv a'" "items a' = items a" "a_size a' = a_size a" "same_kind a a'"
    "ok \<Longrightarrow> a_size a + n \<le> a_capacity a'"
    using assms g
    by (auto simp: ArrayCheckSize_def arr_inv_def items_def Let_def same_kind_def buf_simps
        split: if_splits)
  show "\<not> ok \<longleftrightarrow> a_capacity a < a_size a + n \<and> \<not> mem (?c * sizeof_ptr)"
    using assms(2) by (auto simp: ArrayCheckSize_def Let_def split: if_splits)
qed

lemma InsertAtPrivate_ok:
  assumes "arr_inv a" "index \<le> a_size a" "ArrayCheckSize mem a 1 = (True, a1)"
  shows "fst (ArrayInsertAtPrivate mem a x index) = x"
    "arr_inv (snd (ArrayInsertAtPrivate mem a x index))"
    "items (snd (ArrayInsertAtPrivate mem a x index))
      = take index (items a) @ [x] @ drop index (items a)"
    "same_kind a (snd (ArrayInsertAtPrivate mem a x index))"
proof -
  note c = CheckSize_spec [OF assms(1,3)]
  have len: "a_size a < length (a_data a1)" "index \<le> a_size a1"
    using c assms by (auto simp: arr_inv_def)
  show "fst (ArrayInsertAtPrivate mem a x index) = x"
    using assms c by (simp add: ArrayInsertAtPrivate_def Let_def)
  show "arr_inv (snd (ArrayInsertAtPrivate mem a x index))"
    using assms c len by (auto simp: ArrayInsertAtPrivate_def Let_def arr_inv_def buf_simps)
  show "same_kind a (snd (ArrayInsertAtPrivate mem a x index))"
    using assms c by (simp add: ArrayInsertAtPrivate_def Let_def same_kind_def)
  show "items (snd (ArrayInsertAtPrivate mem a x index))
      = take index (items a) @ [x] @ drop index (items a)"
  proof (cases "index < a_size a")
    case True
    with assms c len take_insert_cells [of index "a_size a" "a_data a1" x] show ?thesis
      by (simp add: ArrayInsertAtPrivate_def Let_def items_def)
  next
    case False
    with assms c len take_update_last [of "a_size a" "a_data a1" x] show ?thesis
      by (simp add: ArrayInsertAtPrivate_def Let_def items_def)
  qed
qed

lemma InsertAtPrivate_fail:
  assumes "arr_inv a" "index > a_size a \<or> ArrayCheckSize mem a 1 = (False, a1)"
  shows "fst (ArrayInsertAtPrivate mem a x index) = NULL"
    "arr_inv (snd (ArrayInsertAtPrivate mem a x index))"
    "items (snd (ArrayInsertAtPrivate mem a x index)) = items a"
    "same_kind a (snd (ArrayInsertAtPrivate mem a x index))"
  using assms
  by (cases "ArrayCheckSize mem a 1"; cases "fst (ArrayCheckSize mem a 1)";
      auto simp: ArrayInsertAtPrivate_def dest: CheckSize_spec)+

lemma RemoveAt_spec:
  assumes "arr_inv a" "i < a_size a"
  shows "fst (ArrayRemoveAt a i) = items a ! i" "arr_inv (snd (ArrayRemoveAt a i))"
    "items (snd (ArrayRemoveAt a i)) = take i (items a) @ drop (Suc i) (items a)"
    "same_kind a (snd (ArrayRemoveAt a i))"
proof -
  have len: "a_size a \<le> length (a_data a)" using assms by (simp add: arr_inv_def)
  show "fst (ArrayRemoveAt a i) = items a ! i" using assms by (simp add: ArrayRemoveAt_def nth_items)
  show "arr_inv (snd (ArrayRemoveAt a i))"
    using assms len by (auto simp: ArrayRemoveAt_def arr_inv_def buf_simps)
  show "items (snd (ArrayRemoveAt a i)) = take i (items a) @ drop (Suc i) (items a)"
    using assms take_remove_cells [OF assms(2) len]
    by (simp add: ArrayRemoveAt_def items_def)
  show "same_kind a (snd (ArrayRemoveAt a i))" by (simp add: ArrayRemoveAt_def same_kind_def)
qed

lemma Add_unsorted:
  assumes "arr_inv a" "\<not> a_sorted a"
  shows "arr_inv (snd (ArrayAdd mem a x w))"
    "items (snd (ArrayAdd mem a x w))
      = (if add_ok (fst (ArrayAdd mem a x w)) then items a @ [x] else items a)"
    "same_kind a (snd (ArrayAdd mem a x w))"
    "add_ok (fst (ArrayAdd mem a x w)) = fst (ArrayCheckSize mem a 1)"
proof -
  obtain ok a1 where c: "ArrayCheckSize mem a 1 = (ok, a1)" by (cases "ArrayCheckSize mem a 1")
  note s = CheckSize_spec [OF assms(1) c]
  show "arr_inv (snd (ArrayAdd mem a x w))"
    "items (snd (ArrayAdd mem a x w))
      = (if add_ok (fst (ArrayAdd mem a x w)) then items a @ [x] else items a)"
    "same_kind a (snd (ArrayAdd mem a x w))"
    "add_ok (fst (ArrayAdd mem a x w)) = fst (ArrayCheckSize mem a 1)"
    using assms s c take_update_last [of "a_size a" "a_data a1" x]
    by (cases ok; auto simp: ArrayAdd_def arr_inv_def items_def same_kind_def)+
qed

lemma GetAt_items: "arr_inv a \<Longrightarrow> ArrayGetAt a i = (if i < length (items a) then items a ! i else NULL)"
  by (simp add: ArrayGetAt_def nth_items)

lemma SetAtPrivate_spec:
  assumes "arr_inv a"
  shows "arr_inv (snd (ArraySetAtPrivate a x i))"
    "items (snd (ArraySetAtPrivate a x i)) = (items a)[i := x]"
    "fst (ArraySetAtPrivate a x i) = (if i < length (items a) then items a ! i else NULL)"
  using assms by (auto simp: ArraySetAtPrivate_def arr_inv_def items_def take_update_swap
      intro!: list_update_beyond [symmetric])

text \<open>The scan finds the first match.\<close>

lemma find_scan_None:
  "find_scan eq d i n = None \<longleftrightarrow> (\<forall>j. i \<le> j \<and> j < i + n \<longrightarrow> \<not> eq (d ! j))"
proof (induction n arbitrary: i)
  case 0
  then show ?case by auto
next
  case (Suc n)
  have "(\<forall>j. i \<le> j \<and> j < i + Suc n \<longrightarrow> \<not> eq (d ! j)) \<longleftrightarrow>
      \<not> eq (d ! i) \<and> (\<forall>j. Suc i \<le> j \<and> j < Suc i + n \<longrightarrow> \<not> eq (d ! j))"
    by (auto simp: Suc_le_eq) (metis le_neq_implies_less)
  with Suc.IH [of "Suc i"] show ?case by simp
qed

lemma find_scan_Some:
  "find_scan eq d i n = Some (x, j) \<Longrightarrow>
    i \<le> j \<and> j < i + n \<and> x = d ! j \<and> eq x \<and> (\<forall>k. i \<le> k \<and> k < j \<longrightarrow> \<not> eq (d ! k))"
proof (induction n arbitrary: i)
  case 0
  then show ?case by simp
next
  case (Suc n)
  show ?case
  proof (cases "eq (d ! i)")
    case True
    with Suc.prems show ?thesis by auto
  next
    case False
    with Suc.prems have "find_scan eq d (Suc i) n = Some (x, j)" by simp
    from Suc.IH [OF this] have r:
      "Suc i \<le> j" "j < Suc i + n" "x = d ! j" "eq x" "\<forall>k. Suc i \<le> k \<and> k < j \<longrightarrow> \<not> eq (d ! k)"
      by blast+
    have "\<not> eq (d ! k)" if "i \<le> k" "k < j" for k
      using that r(5) False by (cases "k = i") auto
    with r(1-4) show ?thesis by force
  qed
qed


section \<open>Sorted arrays\<close>

text \<open>Ascending in the comparator, so no two items compare equal.\<close>

definition ascending :: "'a cmp \<Rightarrow> 'a ptr list \<Rightarrow> bool" where
  "ascending cmp xs \<longleftrightarrow> sorted_wrt (\<lambda>x y. cmp x y < 0) xs"

text \<open>What a sorted array holds after \<open>x\<close> is added: the smaller items, \<open>x\<close>, the larger items.\<close>

definition sorted_put :: "'a cmp \<Rightarrow> 'a ptr \<Rightarrow> 'a ptr list \<Rightarrow> 'a ptr list" where
  "sorted_put cmp x xs = filter (\<lambda>y. 0 < cmp x y) xs @ [x] @ filter (\<lambda>y. cmp x y < 0) xs"

text \<open>
  The bisection on any sequence of comparison results that falls from positive to negative:
  the position where it is 0, or the position where it changes sign.
\<close>

definition falling :: "(nat \<Rightarrow> int) \<Rightarrow> nat \<Rightarrow> bool" where
  "falling f n \<longleftrightarrow> (\<forall>j k. j < k \<and> k < n \<and> f j \<le> 0 \<longrightarrow> f k < 0)"

definition search_result :: "(nat \<Rightarrow> int) \<Rightarrow> nat \<Rightarrow> nat \<times> nat \<Rightarrow> bool" where
  "search_result f n r \<longleftrightarrow>
     (case r of (found, i) \<Rightarrow>
       (\<forall>j < i. 0 < f j) \<and>
       (if found = 1 then i < n \<and> f i = 0 \<and> (\<forall>j. i < j \<and> j < n \<longrightarrow> f j < 0)
        else found = 2 \<and> i \<le> n \<and> (\<forall>j. i \<le> j \<and> j < n \<longrightarrow> f j < 0)))"

lemma search_loop_result:
  assumes "falling (\<lambda>j. cmp (d ! j)) n" "st < ed" "ed \<le> n"
    "\<forall>j < st. 0 < cmp (d ! j)" "\<forall>j. ed \<le> j \<and> j < n \<longrightarrow> cmp (d ! j) < 0"
  shows "search_result (\<lambda>j. cmp (d ! j)) n (search_loop cmp d st ed)"
  using assms
proof (induction cmp d st ed rule: search_loop.induct)
  case (1 cmp d st ed)
  let ?f = "\<lambda>j. cmp (d ! j)"
  let ?mid = "(ed + st) div 2"
  have mid: "st \<le> ?mid" "?mid < ed" using "1.prems" by auto
  have low: "0 < ?f j" if "j < ?mid" "0 \<le> ?f ?mid" for j
    using "1.prems"(1,3) that mid by (force simp: falling_def)
  have high: "?f j < 0" if "?mid < j" "j < n" "?f ?mid \<le> 0" for j
    using "1.prems"(1) that by (force simp: falling_def)
  show ?case
  proof (cases "?f ?mid = 0")
    case True
    with mid "1.prems" low high show ?thesis
      by (subst search_loop.simps) (auto simp: search_result_def Let_def)
  next
    case ne: False
    show ?thesis
    proof (cases "?f ?mid < 0")
      case True
      show ?thesis
      proof (cases "?mid = st")
        case eq: True
        with True have "\<forall>j. st \<le> j \<and> j < n \<longrightarrow> ?f j < 0"
          using high by (metis le_neq_implies_less less_imp_le)
        with eq True mid "1.prems" show ?thesis
          by (subst search_loop.simps) (auto simp: search_result_def Let_def)
      next
        case False
        have "\<forall>j. ?mid \<le> j \<and> j < n \<longrightarrow> ?f j < 0"
          using high True by (metis le_neq_implies_less less_imp_le)
        with False True ne mid "1.prems" 1(1) show ?thesis
          by (subst search_loop.simps) (simp add: Let_def)
      qed
    next
      case False
      with ne have pos: "0 < ?f ?mid" by simp
      have "\<forall>j \<le> ?mid. 0 < ?f j" using low pos by (metis le_neq_implies_less less_imp_le)
      then show ?thesis
        using False ne mid "1.prems" 1(2) pos
        by (subst search_loop.simps) (auto simp: Let_def search_result_def)
    qed
  qed
qed


lemma filter_take:
  "(\<forall>j < i. P (xs ! j)) \<Longrightarrow> (\<forall>j. i \<le> j \<and> j < length xs \<longrightarrow> \<not> P (xs ! j)) \<Longrightarrow> i \<le> length xs
    \<Longrightarrow> filter P xs = take i xs"
proof -
  assume a: "\<forall>j < i. P (xs ! j)" "\<forall>j. i \<le> j \<and> j < length xs \<longrightarrow> \<not> P (xs ! j)" "i \<le> length xs"
  have "filter P (take i xs) = take i xs"
    using a(1,3) by (auto simp: filter_id_conv in_set_conv_nth)
  moreover have "filter P (drop i xs) = []"
    using a(2,3) by (auto simp: filter_empty_conv in_set_conv_nth)
  ultimately have "filter P (take i xs @ drop i xs) = take i xs" by (simp del: append_take_drop_id)
  then show ?thesis by simp
qed

lemma filter_drop:
  "(\<forall>j < i. \<not> P (xs ! j)) \<Longrightarrow> (\<forall>j. i \<le> j \<and> j < length xs \<longrightarrow> P (xs ! j)) \<Longrightarrow> i \<le> length xs
    \<Longrightarrow> filter P xs = drop i xs"
proof -
  assume a: "\<forall>j < i. \<not> P (xs ! j)" "\<forall>j. i \<le> j \<and> j < length xs \<longrightarrow> P (xs ! j)" "i \<le> length xs"
  have "filter P (take i xs) = []"
    using a(1,3) by (auto simp: filter_empty_conv in_set_conv_nth)
  moreover have "filter P (drop i xs) = drop i xs"
    using a(2,3) by (auto simp: filter_id_conv in_set_conv_nth)
  ultimately have "filter P (take i xs @ drop i xs) = drop i xs" by (simp del: append_take_drop_id)
  then show ?thesis by simp
qed

text \<open>What a search result says about the items themselves.\<close>

lemma search_result_absent:
  assumes "search_result (\<lambda>j. g (xs ! j)) (length xs) (found, i)" "found \<noteq> 1"
  shows "found = 2" "i \<le> length xs"
    "filter (\<lambda>y. 0 < g y) xs = take i xs" "filter (\<lambda>y. g y < 0) xs = drop i xs"
    "filter (\<lambda>y. g y \<noteq> 0) xs = xs" "List.find (\<lambda>y. g y = 0) xs = None"
proof -
  from assms have r: "found = 2" "i \<le> length xs" "\<forall>j < i. 0 < g (xs ! j)"
    "\<forall>j. i \<le> j \<and> j < length xs \<longrightarrow> g (xs ! j) < 0"
    by (auto simp: search_result_def)
  then show "found = 2" "i \<le> length xs" by auto
  show "filter (\<lambda>y. 0 < g y) xs = take i xs" using r by (intro filter_take) force+
  show "filter (\<lambda>y. g y < 0) xs = drop i xs" using r by (intro filter_drop) force+
  have "\<forall>y \<in> set xs. g y \<noteq> 0"
    using r(3,4) by (metis in_set_conv_nth linorder_not_less order_less_irrefl)
  then show "filter (\<lambda>y. g y \<noteq> 0) xs = xs" "List.find (\<lambda>y. g y = 0) xs = None"
    by (simp_all add: find_None_iff)
qed

lemma search_result_present:
  assumes "search_result (\<lambda>j. g (xs ! j)) (length xs) (1, i)"
  shows "i < length xs" "g (xs ! i) = 0"
    "filter (\<lambda>y. 0 < g y) xs = take i xs" "filter (\<lambda>y. g y < 0) xs = drop (Suc i) xs"
    "filter (\<lambda>y. g y \<noteq> 0) xs = take i xs @ drop (Suc i) xs"
    "List.find (\<lambda>y. g y = 0) xs = Some (xs ! i)"
proof -
  from assms have r: "i < length xs" "g (xs ! i) = 0" "\<forall>j < i. 0 < g (xs ! j)"
    "\<forall>j. i < j \<and> j < length xs \<longrightarrow> g (xs ! j) < 0"
    by (auto simp: search_result_def)
  then show "i < length xs" "g (xs ! i) = 0" by auto
  have r4: "\<not> 0 < g (xs ! j)" if "i \<le> j" "j < length xs" for j
    using r(2,4) that by (metis le_neq_implies_less less_asym less_irrefl)
  show t: "filter (\<lambda>y. 0 < g y) xs = take i xs" using r r4 by (intro filter_take) auto
  have r3: "\<not> g (xs ! j) < 0" if "j < Suc i" for j
    using r(2,3) that by (metis less_antisym less_asym less_irrefl)
  show d: "filter (\<lambda>y. g y < 0) xs = drop (Suc i) xs" using r r3 by (intro filter_drop) auto
  have xs: "xs = take i xs @ xs ! i # drop (Suc i) xs" using r(1) by (rule id_take_nth_drop)
  have tn: "\<forall>y \<in> set (take i xs). g y \<noteq> 0" by (auto simp flip: t)
  have dn: "\<forall>y \<in> set (drop (Suc i) xs). g y \<noteq> 0" by (auto simp flip: d)
  show "filter (\<lambda>y. g y \<noteq> 0) xs = take i xs @ drop (Suc i) xs"
  proof -
    have "filter (\<lambda>y. g y \<noteq> 0) (take i xs @ xs ! i # drop (Suc i) xs) = take i xs @ drop (Suc i) xs"
      using tn dn r(2) by simp
    then show ?thesis by (simp flip: xs)
  qed
  show "List.find (\<lambda>y. g y = 0) xs = Some (xs ! i)"
    unfolding find_Some_iff using r(1,2,3) by (intro exI [of _ i]) auto
qed

text \<open>A sorted array: ascending in its comparator, every item valid for it.\<close>

definition sorted_inv :: "'a cmp \<Rightarrow> ('a ptr \<Rightarrow> bool) \<Rightarrow> 'a arr \<Rightarrow> bool" where
  "sorted_inv cmp valid a \<longleftrightarrow> arr_inv a \<and> a_sorted a \<and> a_comparator a = Some cmp \<and>
     ascending cmp (items a) \<and> (\<forall>x \<in> set (items a). valid x)"

text \<open>The laws a comparator must obey on the items it is used on.\<close>

locale comparator =
  fixes cmp :: "'a cmp" and valid :: "'a ptr \<Rightarrow> bool"
  assumes cmp_refl: "valid x \<Longrightarrow> cmp x x = 0"
    and cmp_antisym: "valid x \<Longrightarrow> valid y \<Longrightarrow> cmp x y < 0 \<longleftrightarrow> 0 < cmp y x"
    and cmp_trans:
      "valid x \<Longrightarrow> valid y \<Longrightarrow> valid z \<Longrightarrow> cmp x y \<le> 0 \<Longrightarrow> cmp y z \<le> 0 \<Longrightarrow> cmp x z \<le> 0"
    and not_NULL: "valid x \<Longrightarrow> x \<noteq> NULL"
begin

lemma le_less:
  assumes "valid x" "valid y" "valid z" "cmp x y \<le> 0" "cmp y z < 0"
  shows "cmp x z < 0"
proof -
  have "cmp x z \<le> 0" using assms cmp_trans [of x y z] by simp
  moreover have "cmp x z \<noteq> 0"
  proof
    assume "cmp x z = 0"
    then have "cmp z x \<le> 0" using cmp_antisym [of x z] assms by simp
    then have "cmp z y \<le> 0" using assms cmp_trans [of z x y] by simp
    then show False using assms cmp_antisym [of y z] by simp
  qed
  ultimately show ?thesis by simp
qed

lemma less_le:
  assumes "valid x" "valid y" "valid z" "cmp x y < 0" "cmp y z \<le> 0"
  shows "cmp x z < 0"
proof -
  have "cmp x z \<le> 0" using assms cmp_trans [of x y z] by simp
  moreover have "cmp x z \<noteq> 0"
  proof
    assume "cmp x z = 0"
    then have "cmp z x \<le> 0" using cmp_antisym [of x z] assms by simp
    then have "cmp y x \<le> 0" using assms cmp_trans [of y z x] by simp
    then show False using assms cmp_antisym [of x y] by simp
  qed
  ultimately show ?thesis by simp
qed

lemma falling_cmp:
  assumes "ascending cmp xs" "\<forall>y \<in> set xs. valid y" "valid x"
  shows "falling (\<lambda>j. cmp x (xs ! j)) (length xs)"
  unfolding falling_def
proof (intro allI impI)
  fix j k
  assume jk: "j < k \<and> k < length xs \<and> cmp x (xs ! j) \<le> 0"
  then have "cmp (xs ! j) (xs ! k) < 0"
    using assms(1) by (auto simp: ascending_def dest: sorted_wrt_nth_less)
  with jk assms(2,3) show "cmp x (xs ! k) < 0"
    by (intro le_less [of x "xs ! j"]) auto
qed

lemma search_private:
  assumes "sorted_inv cmp valid a" "valid x" "a_size a < 2 ^ 32"
  shows "search_result (\<lambda>j. cmp x (items a ! j)) (length (items a)) (ArraySearchPrivate a x cmp)"
proof (cases "a_size a = 0")
  case True
  with assms show ?thesis
    by (simp add: ArraySearchPrivate_def search_result_def sorted_inv_def)
next
  case False
  from assms have inv: "arr_inv a" by (simp add: sorted_inv_def)
  have eq: "items a ! j = a_data a ! j" if "j < a_size a" for j using that by (simp add: nth_items)
  have "falling (\<lambda>j. cmp x (items a ! j)) (length (items a))"
    using assms by (intro falling_cmp) (auto simp: sorted_inv_def)
  then have f: "falling (\<lambda>j. cmp x (a_data a ! j)) (a_size a)"
    unfolding falling_def length_items [OF inv] by (metis eq less_trans)
  have r: "search_result (\<lambda>j. cmp x (a_data a ! j)) (a_size a)
      (search_loop (cmp x) (a_data a) 0 (a_size a))"
    using False by (intro search_loop_result [OF f]) auto
  obtain found i where s: "search_loop (cmp x) (a_data a) 0 (a_size a) = (found, i)" by fastforce
  with r assms(3) have "i < 2 ^ 32" by (auto simp: search_result_def split: if_splits)
  with r s inv eq False show ?thesis
    by (auto simp: ArraySearchPrivate_def search_result_def split: if_splits)
qed

lemma ascending_sorted_put:
  assumes "ascending cmp xs" "\<forall>y \<in> set xs. valid y" "valid x"
  shows "ascending cmp (sorted_put cmp x xs)"
proof -
  have "cmp y x < 0" if "y \<in> set xs" "0 < cmp x y" for y
    using that assms cmp_antisym [of y x] by auto
  moreover have "cmp y z < 0" if "y \<in> set xs" "0 < cmp x y" "z \<in> set xs" "cmp x z < 0" for y z
    using that assms(2,3) cmp_antisym [of y x] by (intro less_le [of y x z]) auto
  ultimately show ?thesis
    using assms(1)
    by (auto simp: ascending_def sorted_put_def sorted_wrt_append sorted_wrt_filter)
qed

lemma sorted_invD:
  "sorted_inv cmp valid a \<Longrightarrow> arr_inv a" "sorted_inv cmp valid a \<Longrightarrow> a_sorted a" "sorted_inv cmp valid a \<Longrightarrow> a_comparator a = Some cmp"
  "sorted_inv cmp valid a \<Longrightarrow> ascending cmp (items a)" "sorted_inv cmp valid a \<Longrightarrow> y \<in> set (items a) \<Longrightarrow> valid y"
  by (simp_all add: sorted_inv_def)

lemma set_sorted_put:
  "set (sorted_put cmp x xs) = insert x {y \<in> set xs. cmp x y \<noteq> 0}"
  by (auto simp: sorted_put_def)

lemma sorted_invI:
  assumes "sorted_inv cmp valid a" "valid x" "arr_inv b" "same_kind a b" "items b = sorted_put cmp x (items a)"
  shows "sorted_inv cmp valid b"
  using assms ascending_sorted_put [of "items a" x]
  by (auto simp: sorted_inv_def same_kind_def set_sorted_put)

lemma Add_sorted:
  assumes "sorted_inv cmp valid a" "valid x" "a_size a < 2 ^ 32"
  shows "sorted_inv cmp valid (snd (ArrayAdd mem a x w))"
    "items (snd (ArrayAdd mem a x w))
      = (if add_ok (fst (ArrayAdd mem a x w)) then sorted_put cmp x (items a) else items a)"
    "same_kind a (snd (ArrayAdd mem a x w))"
    "add_ok (fst (ArrayAdd mem a x w)) \<longleftrightarrow>
      List.find (\<lambda>y. cmp x y = 0) (items a) \<noteq> None \<or> fst (ArrayCheckSize mem a 1)"
    "add_ret (fst (ArrayAdd mem a x w))
      = (if w then List.find (\<lambda>y. cmp x y = 0) (items a) else None)"
proof -
  obtain found i where s: "ArraySearchPrivate a x cmp = (found, i)" by fastforce
  note inv = sorted_invD(1-3) [OF assms(1)]
  from search_private [OF assms] s
  have r: "search_result (\<lambda>j. cmp x (items a ! j)) (length (items a)) (found, i)" by simp
  have "sorted_inv cmp valid (snd (ArrayAdd mem a x w)) \<and>
    items (snd (ArrayAdd mem a x w))
      = (if add_ok (fst (ArrayAdd mem a x w)) then sorted_put cmp x (items a) else items a) \<and>
    same_kind a (snd (ArrayAdd mem a x w)) \<and>
    (add_ok (fst (ArrayAdd mem a x w)) \<longleftrightarrow>
      List.find (\<lambda>y. cmp x y = 0) (items a) \<noteq> None \<or> fst (ArrayCheckSize mem a 1)) \<and>
    add_ret (fst (ArrayAdd mem a x w))
      = (if w then List.find (\<lambda>y. cmp x y = 0) (items a) else None)"
  proof (cases "found = 1")
    case True
    note p = search_result_present [OF r [unfolded True]]
    let ?b = "a\<lparr>a_data := (a_data a)[i := x]\<rparr>"
    have i: "i < a_size a" using p(1) inv by simp
    have "items ?b = (items a)[i := x]" by (simp add: items_def take_update_swap)
    then have b: "items ?b = sorted_put cmp x (items a)" "arr_inv ?b" "same_kind a ?b"
      using p inv(1) by (auto simp: sorted_put_def upd_conv_take_nth_drop arr_inv_def same_kind_def)
    moreover have "sorted_inv cmp valid ?b" by (rule sorted_invI [OF assms(1,2) b(2,3,1)])
    ultimately show ?thesis
      using True s inv p i by (auto simp: ArrayAdd_def nth_items)
  next
    case False
    note p = search_result_absent [OF r False]
    have i: "i \<le> a_size a" using p(2) inv by simp
    obtain res b where ib: "ArrayInsertAtPrivate mem a x i = (res, b)" by fastforce
    have add: "ArrayAdd mem a x w = (\<lparr>add_ok = (res \<noteq> NULL), add_ret = None, add_freed = []\<rparr>, b)"
      using s inv p ib by (simp add: ArrayAdd_def)
    show ?thesis
    proof (cases "ArrayCheckSize mem a 1")
      case (Pair ok a1)
      show ?thesis
      proof (cases ok)
        case True
        with Pair have c: "ArrayCheckSize mem a 1 = (True, a1)" by simp
        note q = InsertAtPrivate_ok [OF inv(1) i c, of x]
        have b: "items b = sorted_put cmp x (items a)"
          using q(3) p ib by (simp add: sorted_put_def)
        with q ib add c p not_NULL [OF assms(2)] sorted_invI [OF assms(1,2), of b]
        show ?thesis by simp
      next
        case False
        note q = InsertAtPrivate_fail [OF inv(1), of i mem a1 x]
        with ib add Pair False p assms(1) show ?thesis
          by (simp add: sorted_inv_def same_kind_def)
      qed
    qed
  qed
  then show "sorted_inv cmp valid (snd (ArrayAdd mem a x w))"
    "items (snd (ArrayAdd mem a x w))
      = (if add_ok (fst (ArrayAdd mem a x w)) then sorted_put cmp x (items a) else items a)"
    "same_kind a (snd (ArrayAdd mem a x w))"
    "add_ok (fst (ArrayAdd mem a x w)) \<longleftrightarrow>
      List.find (\<lambda>y. cmp x y = 0) (items a) \<noteq> None \<or> fst (ArrayCheckSize mem a 1)"
    "add_ret (fst (ArrayAdd mem a x w))
      = (if w then List.find (\<lambda>y. cmp x y = 0) (items a) else None)"
    by blast+
qed

lemma distinct_items: "sorted_inv cmp valid a \<Longrightarrow> distinct (items a)"
proof -
  assume a: "sorted_inv cmp valid a"
  have "distinct xs" if "ascending cmp xs" "\<forall>x \<in> set xs. valid x" for xs
    using that cmp_refl by (induction xs) (force simp: ascending_def)+
  with sorted_invD(4,5) [OF a] show ?thesis by blast
qed

lemma cmp_0_iff:
  assumes "sorted_inv cmp valid a" "x \<in> set (items a)" "y \<in> set (items a)"
  shows "cmp x y = 0 \<longleftrightarrow> x = y"
proof
  assume eq: "cmp x y = 0"
  obtain i j where ij: "i < length (items a)" "x = items a ! i" "j < length (items a)" "y = items a ! j"
    using assms(2,3) by (auto simp: in_set_conv_nth)
  have lt: "cmp (items a ! p) (items a ! q) < 0" if "p < q" "q < length (items a)" for p q
    using sorted_invD(4) [OF assms(1)] that unfolding ascending_def by (rule sorted_wrt_nth_less [where P = "\<lambda>x y. cmp x y < 0"])
  have "cmp y x = 0"
    using eq cmp_antisym [of x y] cmp_antisym [of y x] sorted_invD(5) [OF assms(1)] assms(2,3) by force
  with eq ij lt [of i j] lt [of j i] have "\<not> i < j" "\<not> j < i" by auto
  then show "x = y" using ij by simp
next
  assume "x = y"
  then show "cmp x y = 0" using cmp_refl sorted_invD(5) [OF assms(1,2)] by simp
qed

lemma Find_sorted:
  assumes "sorted_inv cmp valid a" "valid x" "a_size a < 2 ^ 32"
  shows "fst (ArrayFind a x) = (case List.find (\<lambda>y. cmp x y = 0) (items a) of None \<Rightarrow> NULL | Some y \<Rightarrow> y)"
proof -
  obtain found i where s: "ArraySearchPrivate a x cmp = (found, i)" by fastforce
  note inv = sorted_invD(1-3) [OF assms(1)]
  from search_private [OF assms] s
  have r: "search_result (\<lambda>j. cmp x (items a ! j)) (length (items a)) (found, i)" by simp
  show ?thesis
  proof (cases "found = 1")
    case True
    with search_result_present [OF r [unfolded True]] s inv show ?thesis
      by (simp add: ArrayFind_def nth_items)
  next
    case False
    with search_result_absent [OF r] s inv show ?thesis by (simp add: ArrayFind_def)
  qed
qed

lemma Remove_sorted:
  assumes "sorted_inv cmp valid a" "valid x" "a_size a < 2 ^ 32"
  shows "fst (ArrayRemove a x) = (case List.find (\<lambda>y. cmp x y = 0) (items a) of None \<Rightarrow> NULL | Some y \<Rightarrow> y)"
    "items (snd (ArrayRemove a x)) = filter (\<lambda>y. cmp x y \<noteq> 0) (items a)"
    "sorted_inv cmp valid (snd (ArrayRemove a x))" "same_kind a (snd (ArrayRemove a x))"
proof -
  obtain found i where s: "ArraySearchPrivate a x cmp = (found, i)" by fastforce
  note inv = sorted_invD [OF assms(1)]
  from search_private [OF assms] s
  have r: "search_result (\<lambda>j. cmp x (items a ! j)) (length (items a)) (found, i)" by simp
  have main: "fst (ArrayRemove a x)
        = (case List.find (\<lambda>y. cmp x y = 0) (items a) of None \<Rightarrow> NULL | Some y \<Rightarrow> y) \<and>
      items (snd (ArrayRemove a x)) = filter (\<lambda>y. cmp x y \<noteq> 0) (items a) \<and>
      arr_inv (snd (ArrayRemove a x)) \<and> same_kind a (snd (ArrayRemove a x))"
  proof (cases "found = 1")
    case True
    note p = search_result_present [OF r [unfolded True]]
    have i: "i < a_size a" using p(1) inv by simp
    have "items a ! i \<noteq> NULL" using p(1) inv(5) not_NULL by auto
    with True s inv p i RemoveAt_spec [OF inv(1) i] show ?thesis
      by (simp add: ArrayRemove_def ArrayFind_def nth_items)
  next
    case False
    with search_result_absent [OF r] s inv show ?thesis
      by (simp add: ArrayRemove_def ArrayFind_def)
  qed
  then show "fst (ArrayRemove a x) = (case List.find (\<lambda>y. cmp x y = 0) (items a) of None \<Rightarrow> NULL | Some y \<Rightarrow> y)"
    "items (snd (ArrayRemove a x)) = filter (\<lambda>y. cmp x y \<noteq> 0) (items a)"
    "same_kind a (snd (ArrayRemove a x))" by blast+
  from main inv show "sorted_inv cmp valid (snd (ArrayRemove a x))"
    by (auto simp: sorted_inv_def same_kind_def ascending_def sorted_wrt_filter)
qed

end


section \<open>The contract of an unsorted array\<close>

locale vector =
  fixes inv :: "'v \<Rightarrow> bool" and seq :: "'v \<Rightarrow> 'e list"
    and push :: "'v \<Rightarrow> 'e \<Rightarrow> 'v option" and pop :: "'v \<Rightarrow> 'e \<times> 'v"
  assumes inv_push: "inv v \<Longrightarrow> push v x = Some v' \<Longrightarrow> inv v' \<and> seq v' = seq v @ [x]"
    and inv_pop:
      "inv v \<Longrightarrow> seq v = xs @ [x] \<Longrightarrow> length xs < 2 ^ 32 \<Longrightarrow>
        fst (pop v) = x \<and> inv (snd (pop v)) \<and> seq (snd (pop v)) = xs"
begin

fun push_all :: "'v \<Rightarrow> 'e list \<Rightarrow> 'v option" where
  "push_all v [] = Some v"
| "push_all v (x # xs) = (case push v x of None \<Rightarrow> None | Some v' \<Rightarrow> push_all v' xs)"

lemma push_all_seq: "inv v \<Longrightarrow> push_all v xs = Some v' \<Longrightarrow> inv v' \<and> seq v' = seq v @ xs"
proof (induction xs arbitrary: v)
  case Nil
  then show ?case by simp
next
  case (Cons x xs)
  then obtain u where u: "push v x = Some u" "push_all u xs = Some v'"
    by (auto split: option.splits)
  from inv_push [OF Cons.prems(1) u(1)] Cons.IH [of u] u(2) show ?case by simp
qed

lemma pop_all:
  "inv v \<Longrightarrow> seq v = ys @ xs \<Longrightarrow> length (ys @ xs) \<le> 2 ^ 32 \<Longrightarrow>
    fst (remove_n pop (length xs) v) = rev xs \<and>
    inv (snd (remove_n pop (length xs) v)) \<and> seq (snd (remove_n pop (length xs) v)) = ys"
proof (induction xs arbitrary: v rule: rev_induct)
  case Nil
  then show ?case by simp
next
  case (snoc x xs)
  have "length (ys @ xs) < 2 ^ 32" using snoc.prems(3) by simp
  with snoc.prems inv_pop [of v "ys @ xs" x]
  have p: "fst (pop v) = x" "inv (snd (pop v))" "seq (snd (pop v)) = ys @ xs" by auto
  from snoc.IH [OF p(2,3)] snoc.prems(3) p show ?case by (auto split: prod.splits)
qed

lemma push_all_pop_all:
  assumes "inv v" "seq v = []" "push_all v xs = Some v'" "length xs \<le> 2 ^ 32"
  shows "fst (remove_n pop (length xs) v') = rev xs"
  using push_all_seq [OF assms(1,3)] pop_all [of v' "[]" xs] assms by simp

end

definition unsorted_inv :: "'a arr \<Rightarrow> bool" where
  "unsorted_inv a \<longleftrightarrow> arr_inv a \<and> \<not> a_sorted a"

text \<open>\<open>Push\<close> with its outcome as an option.\<close>

definition push_opt :: "alloc \<Rightarrow> 'a arr \<Rightarrow> 'a ptr \<Rightarrow> 'a arr option" where
  "push_opt mem a x = (case ArrayPush mem a x of (ok, a') \<Rightarrow> if ok then Some a' else None)"

lemma push_opt_spec:
  "unsorted_inv a \<Longrightarrow> push_opt mem a x = Some a' \<Longrightarrow> unsorted_inv a' \<and> items a' = items a @ [x]"
  using Add_unsorted [of a mem x False]
  by (auto simp: push_opt_def ArrayPush_def unsorted_inv_def same_kind_def split: prod.splits if_splits)

lemma Pop_spec:
  assumes "unsorted_inv a" "items a = xs @ [x]" "length xs < 2 ^ 32"
  shows "fst (ArrayPop a) = x \<and> unsorted_inv (snd (ArrayPop a)) \<and> items (snd (ArrayPop a)) = xs"
proof -
  from assms have a: "arr_inv a" "\<not> a_sorted a" by (auto simp: unsorted_inv_def)
  with assms(2) have n: "a_size a = Suc (length xs)" using length_items [of a] by simp
  have "ArrayPop a = ArrayRemoveAt a (length xs)"
    using assms(3) by (simp add: ArrayPop_def n)
  moreover have "length xs < a_size a" by (simp add: n)
  ultimately show ?thesis
    using RemoveAt_spec [OF a(1), of "length xs"] a(2) assms(2)
    by (simp add: unsorted_inv_def same_kind_def)
qed

interpretation av: vector unsorted_inv items "push_opt mem" ArrayPop for mem
  by unfold_locales (use push_opt_spec Pop_spec in blast)+


section \<open>A comparator of the code: \<open>strcmp\<close> on C strings\<close>

text \<open>\<open>CMUTIL_JsonObjectCreateInternal\<close> passes \<open>strcmp\<close>; a NULL operand is outside its domain.\<close>

definition ptr_strcmp :: "string cmp" where
  "ptr_strcmp a b = (case (a, b) of (Some x, Some y) \<Rightarrow> strcmp x y | _ \<Rightarrow> 0)"

definition is_cstring :: "string ptr \<Rightarrow> bool" where
  "is_cstring p \<longleftrightarrow> (case p of None \<Rightarrow> False | Some s \<Rightarrow> NUL \<notin> set s)"

interpretation scmp: comparator ptr_strcmp is_cstring
proof
  fix x y z
  show "is_cstring x \<Longrightarrow> ptr_strcmp x x = 0" by (auto simp: ptr_strcmp_def is_cstring_def split: option.splits)
  show "is_cstring x \<Longrightarrow> is_cstring y \<Longrightarrow> ptr_strcmp x y < 0 \<longleftrightarrow> 0 < ptr_strcmp y x"
    using strcmp_antisym [of "the x" "the y"]
    by (auto simp: ptr_strcmp_def is_cstring_def split: option.splits)
  show "is_cstring x \<Longrightarrow> is_cstring y \<Longrightarrow> is_cstring z \<Longrightarrow> ptr_strcmp x y \<le> 0 \<Longrightarrow>
      ptr_strcmp y z \<le> 0 \<Longrightarrow> ptr_strcmp x z \<le> 0"
    by (auto simp: ptr_strcmp_def is_cstring_def split: option.splits intro: strcmp_trans)
  show "is_cstring x \<Longrightarrow> x \<noteq> NULL" by (auto simp: is_cstring_def split: option.splits)
qed

section \<open>Sorted arrays as their sequences\<close>

text \<open>
  What the components above use of a sorted array of pointers that are not NULL: the sequence of its items, and
  what \<open>Add\<close> makes of it.
\<close>

definition put_by :: "('a \<Rightarrow> 'a \<Rightarrow> int) \<Rightarrow> 'a \<Rightarrow> 'a list \<Rightarrow> 'a list" where
  "put_by cmp a xs = filter (\<lambda>b. 0 < cmp a b) xs @ [a] @ filter (\<lambda>b. cmp a b < 0) xs"

definition ref_cmp :: "('a \<Rightarrow> 'a \<Rightarrow> int) \<Rightarrow> 'a cmp" where
  "ref_cmp f x y = (case (x, y) of (Some a, Some b) \<Rightarrow> f a b | _ \<Rightarrow> 0)"

definition ref_ok :: "('a \<Rightarrow> bool) \<Rightarrow> 'a ptr \<Rightarrow> bool" where
  "ref_ok P x \<longleftrightarrow> (case x of Some a \<Rightarrow> P a | None \<Rightarrow> False)"

lemma put_by_sorted_put: "map Some (put_by f a xs) = sorted_put (ref_cmp f) (Some a) (map Some xs)"
  by (simp add: put_by_def sorted_put_def filter_map comp_def ref_cmp_def)

lemma ascending_refs: "ascending (ref_cmp f) (map Some xs) \<longleftrightarrow> sorted_wrt (\<lambda>a b. f a b < 0) xs"
  by (simp add: ascending_def sorted_wrt_map ref_cmp_def)

lemma set_put_by_sub: "set (put_by cmp a xs) \<subseteq> insert a (set xs)"
  by (auto simp: put_by_def)

lemma set_put_by:
  assumes "\<And>b. b \<in> set xs \<Longrightarrow> cmp a b = 0 \<Longrightarrow> b = a"
  shows "set (put_by cmp a xs) = insert a (set xs)"
  using assms by (fastforce simp: put_by_def not_less)

lemma distinct_put_by: "distinct xs \<Longrightarrow> a \<notin> set xs \<Longrightarrow> distinct (put_by cmp a xs)"
  by (auto simp: put_by_def)

section \<open>Properties\<close>

text \<open>A sorted array of two strings and an unsorted one, for the witnesses.\<close>

definition sorted_example :: "string arr" where
  "sorted_example = \<lparr>a_data = [Some ''b'', Some ''d'', NULL, NULL], a_capacity = 4, a_size = 2,
     a_comparator = Some ptr_strcmp, a_freecb = False, a_sorted = True\<rparr>"

definition unsorted_example :: "nat arr" where
  "unsorted_example = \<lparr>a_data = [Some 5, Some 3, Some 5, NULL], a_capacity = 4, a_size = 3,
     a_comparator = None, a_freecb = False, a_sorted = False\<rparr>"

lemma sorted_example_inv: "sorted_inv ptr_strcmp is_cstring sorted_example"
  by (simp add: sorted_inv_def sorted_example_def arr_inv_def items_def ascending_def
      is_cstring_def ptr_strcmp_def code_def)

lemma unsorted_example_inv: "arr_inv unsorted_example" "unsorted_inv unsorted_example"
  by (simp_all add: unsorted_example_def arr_inv_def unsorted_inv_def)

text \<open>C19: Adding to a sorted array keeps it sorted in its comparator and free of equal items, whatever the
  allocator answers: on success it holds the smaller items, the new one, the larger ones, an
  equal item being replaced and reported through \<open>*ret\<close>; on failure nothing changed.\<close>

theorem array_sorted_add:
  assumes "comparator cmp valid" "sorted_inv cmp valid a" "valid x" "a_size a < 2 ^ 32"
  shows "sorted_inv cmp valid (snd (ArrayAdd mem a x w)) \<and>
    items (snd (ArrayAdd mem a x w))
      = (if add_ok (fst (ArrayAdd mem a x w)) then sorted_put cmp x (items a) else items a) \<and>
    add_ret (fst (ArrayAdd mem a x w))
      = (if w then List.find (\<lambda>y. cmp x y = 0) (items a) else None) \<and>
    (add_ok (fst (ArrayAdd mem a x w)) \<longleftrightarrow>
      List.find (\<lambda>y. cmp x y = 0) (items a) \<noteq> None \<or> fst (ArrayCheckSize mem a 1))"
  using comparator.Add_sorted [OF assms] by blast

theorem array_sorted_add_witness:
  "items (snd (ArrayAdd (\<lambda>_. True) sorted_example (Some ''c'') True))
    = (if add_ok (fst (ArrayAdd (\<lambda>_. True) sorted_example (Some ''c'') True))
       then sorted_put ptr_strcmp (Some ''c'') (items sorted_example) else items sorted_example)"
  using array_sorted_add [OF scmp.comparator_axioms sorted_example_inv, of "Some ''c''"]
  by (simp add: is_cstring_def sorted_example_def)

text \<open>Bisection finds what is there: in a sorted array \<open>Find\<close> returns the item the comparator calls
  equal, or NULL when there is none, and \<open>Remove\<close> returns that item and removes exactly it.\<close>

theorem array_sorted_find_remove:
  assumes "comparator cmp valid" "sorted_inv cmp valid a" "valid x" "a_size a < 2 ^ 32"
  shows "fst (ArrayFind a x) = (case List.find (\<lambda>y. cmp x y = 0) (items a) of None \<Rightarrow> NULL | Some y \<Rightarrow> y) \<and>
    fst (ArrayRemove a x) = fst (ArrayFind a x) \<and>
    items (snd (ArrayRemove a x)) = filter (\<lambda>y. cmp x y \<noteq> 0) (items a) \<and>
    sorted_inv cmp valid (snd (ArrayRemove a x))"
  using comparator.Find_sorted [OF assms] comparator.Remove_sorted [OF assms] by simp

theorem array_sorted_find_remove_witness:
  "fst (ArrayRemove sorted_example (Some ''d'')) = fst (ArrayFind sorted_example (Some ''d'')) \<and>
    items (snd (ArrayRemove sorted_example (Some ''d''))) = [Some ''b'']"
  using array_sorted_find_remove [OF scmp.comparator_axioms sorted_example_inv, of "Some ''d''"]
  by (simp add: is_cstring_def sorted_example_def items_def ptr_strcmp_def code_def)

text \<open>Insertion by index into an unsorted array: inside the bounds it succeeds exactly when the capacity
  suffices or the allocator grants the doubled block, and then the item stands at the index with
  the others shifted; otherwise the contents are unchanged and NULL is returned. A sorted array
  always refuses.\<close>

theorem array_insert_at:
  assumes "arr_inv a"
  shows "case ArrayInsertAt mem a x index of (res, a') \<Rightarrow>
    arr_inv a' \<and>
    (if \<not> a_sorted a \<and> index \<le> length (items a) \<and> fst (ArrayCheckSize mem a 1)
     then res = x \<and> items a' = take index (items a) @ [x] @ drop index (items a)
     else res = NULL \<and> items a' = items a)"
proof (cases "ArrayCheckSize mem a 1")
  case (Pair ok a1)
  show ?thesis
  proof (cases "a_sorted a \<or> index > a_size a \<or> \<not> ok")
    case True
    with Pair assms InsertAtPrivate_fail [OF assms, of index mem a1 x] show ?thesis
      by (auto simp: ArrayInsertAt_def split: prod.splits)
  next
    case False
    with Pair have "ArrayCheckSize mem a 1 = (True, a1)" "index \<le> a_size a" by auto
    with False assms InsertAtPrivate_ok [OF assms this(2,1), of x] show ?thesis
      by (auto simp: ArrayInsertAt_def split: prod.splits)
  qed
qed

theorem array_insert_at_witness:
  "items (snd (ArrayInsertAt (\<lambda>_. False) unsorted_example (Some 9) 1))
    = [Some 5, Some 9, Some 3, Some 5]"
  using array_insert_at [OF unsorted_example_inv(1), where mem = "\<lambda>_. False" and x = "Some 9" and index = 1]
  by (simp add: ArrayCheckSize_def unsorted_example_def items_def split: prod.splits)

text \<open>Removing, reading and writing by index: in bounds they act on that position alone, out of bounds
  they return NULL and change nothing.\<close>

theorem array_index_ops:
  assumes "arr_inv a"
  shows "(if i < length (items a)
     then fst (ArrayRemoveAt a i) = items a ! i \<and>
       items (snd (ArrayRemoveAt a i)) = take i (items a) @ drop (Suc i) (items a) \<and>
       ArrayGetAt a i = items a ! i
     else ArrayRemoveAt a i = (NULL, a) \<and> ArrayGetAt a i = NULL) \<and>
    arr_inv (snd (ArrayRemoveAt a i)) \<and>
    (let r = ArraySetAt a x i in
      arr_inv (snd r) \<and>
      (if i < length (items a) \<and> \<not> a_sorted a
       then fst r = items a ! i \<and> items (snd r) = (items a)[i := x]
       else r = (NULL, a)))"
  using RemoveAt_spec [OF assms, of i] GetAt_items [OF assms, of i]
    SetAtPrivate_spec [OF assms, of x i] assms
  by (auto simp: ArrayRemoveAt_def ArraySetAt_def ArraySetAtPrivate_def Let_def)

theorem array_index_ops_witness:
  "ArrayRemoveAt unsorted_example 7 = (NULL, unsorted_example)"
  using array_index_ops [OF unsorted_example_inv(1), of 7]
  by (simp add: unsorted_example_def items_def)

text \<open>When an item matches in an unsorted array: by the comparator, or by identity without one.\<close>

definition matching :: "'a arr \<Rightarrow> 'a ptr \<Rightarrow> 'a ptr \<Rightarrow> bool" where
  "matching a x y = (case a_comparator a of Some cmp \<Rightarrow> cmp x y = 0 | None \<Rightarrow> y = x)"

text \<open>\<open>Find\<close> in an unsorted array returns the first item that matches (pointer equality without a
  comparator) and its index, and NULL with the index untouched when none does.\<close>

theorem array_find_first:
  assumes "arr_inv a" "\<not> a_sorted a"
  shows "case ArrayFind a x of
      (y, Some i) \<Rightarrow> i < length (items a) \<and> y = items a ! i \<and> matching a x y \<and>
        (\<forall>j < i. \<not> matching a x (items a ! j))
    | (y, None) \<Rightarrow> y = NULL \<and> (\<forall>z \<in> set (items a). \<not> matching a x z)"
proof -
  let ?eq = "matching a x"
  have eq: "?eq = (case a_comparator a of Some cmp \<Rightarrow> (\<lambda>y. cmp x y = 0) | None \<Rightarrow> (\<lambda>y. y = x))"
    by (simp add: matching_def fun_eq_iff split: option.splits)
  show ?thesis
proof (cases "find_scan ?eq (a_data a) 0 (a_size a)")
  case None
  then have "\<not> ?eq (a_data a ! j)" if "j < a_size a" for j
    using that find_scan_None [of ?eq "a_data a" 0 "a_size a"] by simp
  then have "\<forall>z \<in> set (items a). \<not> ?eq z"
    using assms(1) by (auto simp: in_set_conv_nth nth_items)
  with None assms(2) show ?thesis by (simp add: ArrayFind_def eq [symmetric])
next
  case (Some yi)
  obtain y i where yi: "yi = (y, i)" by (cases yi)
  with Some find_scan_Some [of ?eq "a_data a" 0 "a_size a" y i]
  have "i < a_size a" "y = a_data a ! i" "?eq y" "\<forall>k < i. \<not> ?eq (a_data a ! k)" by auto
  with Some yi assms(1,2) show ?thesis by (simp add: ArrayFind_def eq [symmetric] nth_items)
qed
qed

theorem array_find_first_witness:
  "ArrayFind unsorted_example (Some 5) = (Some 5, Some 0)"
  using array_find_first [OF unsorted_example_inv(1), of "Some 5"]
  by (simp add: unsorted_example_def ArrayFind_def numeral_3_eq_3)

text \<open>Last in, first out: whatever is pushed on an empty unsorted array comes back from as many calls
  of \<open>Pop\<close>, in reverse order.\<close>

theorem array_push_pop:
  assumes "unsorted_inv a" "items a = []" "av.push_all mem a xs = Some a'" "length xs \<le> 2 ^ 32"
  shows "fst (remove_n ArrayPop (length xs) a') = rev xs"
  using assms by (rule av.push_all_pop_all)


theorem array_push_pop_witness:
  "fst (remove_n ArrayPop (length [Some True, Some False])
     (the (av.push_all (\<lambda>_. True)
        (the (ArrayCreateEx (\<lambda>_. True) 0 None False)) [Some True, Some False])))
   = [Some False, Some True]"
proof -
  let ?a = "the (ArrayCreateEx (\<lambda>_. True) 0 None False) :: bool arr"
  have "av.push_all (\<lambda>_. True) ?a [Some True, Some False] \<noteq> None"
    by (simp add: push_opt_def ArrayPush_def ArrayAdd_def ArrayCheckSize_def
        ArrayCreateEx_def ArrayCreateInternal_def Let_def split: prod.splits)
  then have "av.push_all (\<lambda>_. True) ?a [Some True, Some False]
      = Some (the (av.push_all (\<lambda>_. True) ?a [Some True, Some False]))" by simp
  from array_push_pop [OF _ _ this] show ?thesis
    by (simp add: ArrayCreateEx_def ArrayCreateInternal_def unsorted_inv_def arr_inv_def items_def)
qed

end
