(* ===== verification/Cmu_String.thy ===== *)
theory Cmu_String
  imports Cmu_Prelude
begin

text \<open>
  \<open>src/src/strings.c\<close>, the growable string \<open>CMUTIL_String\<close>. \<open>s_data\<close> is the block of
  \<open>s_capacity\<close> bytes, of which the first \<open>s_size\<close> are the content and the next one is the
  terminator (\<open>str_inv\<close>). \<open>content\<close> is what the string stands for; the refinement lemmas say
  what every operation does to it. \<open>ssize_t\<close> results are \<open>int\<close> with -1 for an error. A source
  operand with a length is the list of the bytes readable from its pointer.

  Sizes are those of objects that exist, so \<open>size + insize\<close> cannot wrap; the one length that
  comes unchecked from a caller, that of \<open>Substring\<close>, keeps its 64-bit wrap-around and its
  result type says when the copy leaves the source buffer.
\<close>

section \<open>Data and operations\<close>

record cstring =
  s_data :: "char list"
  s_capacity :: nat
  s_size :: nat

definition SPACES :: string where
  "SPACES = [CHR '' '', CHR 0x0D, CHR 0x0A, CHR 0x09]"

definition sizeof_String_Internal :: nat where
  "sizeof_String_Internal = 232"

definition StringCheckSize :: "alloc \<Rightarrow> cstring \<Rightarrow> nat \<Rightarrow> bool \<times> cstring" where
  "StringCheckSize mem s insize =
     (let reqsz = s_size s + insize + 1
      in if s_capacity s < reqsz then
           (let newcap = grow (s_capacity s * 2) reqsz
            in if mem newcap
               then (True, s\<lparr>s_data := realloc NUL (s_data s) newcap, s_capacity := newcap\<rparr>)
               else (False, s))
         else (True, s))"

definition StringAddNString :: "alloc \<Rightarrow> cstring \<Rightarrow> string ptr \<Rightarrow> nat \<Rightarrow> int \<times> cstring" where
  "StringAddNString mem s tobeadded len =
     (case tobeadded of
        None \<Rightarrow> (-1, s)
      | Some src \<Rightarrow>
          if len = 0 then (int (s_size s), s)
          else
            (case StringCheckSize mem s len of
               (False, s1) \<Rightarrow> (-1, s1)
             | (True, s1) \<Rightarrow>
                 (let d = memcpy (s_data s1) (s_size s1) (take len src);
                      n = s_size s1 + len
                  in (int n, s1\<lparr>s_data := d[n := NUL], s_size := n\<rparr>))))"

definition StringAddString :: "alloc \<Rightarrow> cstring \<Rightarrow> string ptr \<Rightarrow> int \<times> cstring" where
  "StringAddString mem s tobeadded =
     (case tobeadded of
        None \<Rightarrow> (-1, s)
      | Some src \<Rightarrow> StringAddNString mem s (Some src) (length src))"

definition StringAddChar :: "alloc \<Rightarrow> cstring \<Rightarrow> char \<Rightarrow> int \<times> cstring" where
  "StringAddChar mem s c =
     (case StringCheckSize mem s 1 of
        (False, s1) \<Rightarrow> (-1, s1)
      | (True, s1) \<Rightarrow>
          (let n = s_size s1 + 1
           in (int n, s1\<lparr>s_data := ((s_data s1)[s_size s1 := c])[n := NUL], s_size := n\<rparr>)))"

text \<open>
  The formatting of \<open>vsnprintf\<close> is the argument: \<open>NULL\<close> for a NULL format, \<open>Some None\<close> when
  \<open>vsnprintf\<close> reports an error, else the formatted text. The intermediate buffer comes from
  \<open>malloc\<close>, the allocator \<open>heap\<close>.
\<close>

definition StringAddVPrint ::
  "alloc \<Rightarrow> alloc \<Rightarrow> cstring \<Rightarrow> string option ptr \<Rightarrow> int \<times> cstring" where
  "StringAddVPrint heap mem s fmt =
     (case fmt of
        None \<Rightarrow> (-1, s)
      | Some None \<Rightarrow> (-1, s)
      | Some (Some txt) \<Rightarrow>
          if \<not> heap (length txt + 1) then (-1, s)
          else StringAddNString mem s (Some txt) (length txt))"

definition StringAddPrint ::
  "alloc \<Rightarrow> alloc \<Rightarrow> cstring \<Rightarrow> string option ptr \<Rightarrow> int \<times> cstring" where
  "StringAddPrint heap mem s fmt = StringAddVPrint heap mem s fmt"

definition StringAddAnother :: "alloc \<Rightarrow> cstring \<Rightarrow> cstring ptr \<Rightarrow> int \<times> cstring" where
  "StringAddAnother mem s tobeadded =
     (case tobeadded of
        None \<Rightarrow> (-1, s)
      | Some t \<Rightarrow> StringAddNString mem s (Some (s_data t)) (s_size t))"

definition StringInsertNString ::
  "alloc \<Rightarrow> cstring \<Rightarrow> string ptr \<Rightarrow> nat \<Rightarrow> nat \<Rightarrow> int \<times> cstring" where
  "StringInsertNString mem s tobeadded at len =
     (case tobeadded of
        None \<Rightarrow> (-1, s)
      | Some src \<Rightarrow>
          if at > s_size s then (-1, s)
          else if len = 0 then (int (s_size s), s)
          else
            (case StringCheckSize mem s len of
               (False, s1) \<Rightarrow> (-1, s1)
             | (True, s1) \<Rightarrow>
                 (let d1 = memmove (s_data s1) (at + len) at (s_size s1 - at + 1);
                      d2 = memcpy d1 at (take len src);
                      n = s_size s1 + len
                  in (int n, s1\<lparr>s_data := d2, s_size := n\<rparr>))))"

definition StringInsertString :: "alloc \<Rightarrow> cstring \<Rightarrow> string ptr \<Rightarrow> nat \<Rightarrow> int \<times> cstring" where
  "StringInsertString mem s tobeadded at =
     (case tobeadded of
        None \<Rightarrow> (-1, s)
      | Some src \<Rightarrow> StringInsertNString mem s (Some src) at (length src))"

definition StringInsertVPrint ::
  "alloc \<Rightarrow> alloc \<Rightarrow> cstring \<Rightarrow> nat \<Rightarrow> string option ptr \<Rightarrow> int \<times> cstring" where
  "StringInsertVPrint heap mem s idx fmt =
     (case fmt of
        None \<Rightarrow> (-1, s)
      | Some None \<Rightarrow> (-1, s)
      | Some (Some txt) \<Rightarrow>
          if \<not> heap (length txt + 1) then (-1, s)
          else StringInsertNString mem s (Some txt) idx (length txt))"

definition StringInsertPrint ::
  "alloc \<Rightarrow> alloc \<Rightarrow> cstring \<Rightarrow> nat \<Rightarrow> string option ptr \<Rightarrow> int \<times> cstring" where
  "StringInsertPrint heap mem s idx fmt = StringInsertVPrint heap mem s idx fmt"

definition StringInsertAnother :: "alloc \<Rightarrow> cstring \<Rightarrow> nat \<Rightarrow> cstring ptr \<Rightarrow> int \<times> cstring" where
  "StringInsertAnother mem s idx tobeadded =
     (case tobeadded of
        None \<Rightarrow> (-1, s)
      | Some t \<Rightarrow> StringInsertNString mem s (Some (s_data t)) idx (s_size t))"

definition StringCutTailOff :: "cstring \<Rightarrow> nat \<Rightarrow> cstring" where
  "StringCutTailOff s len =
     (let n = (if s_size s > len then s_size s - len else 0)
      in s\<lparr>s_size := n, s_data := (s_data s)[n := NUL]\<rparr>)"

definition StringGetSize :: "cstring \<Rightarrow> nat" where
  "StringGetSize s = s_size s"

definition StringGetCString :: "cstring \<Rightarrow> char list" where
  "StringGetCString s = s_data s"

text \<open>A byte read as a (signed) \<open>char\<close> and widened to \<open>int\<close>.\<close>

definition schar :: "char \<Rightarrow> int" where
  "schar c = (if code c < 128 then code c else code c - 256)"

definition StringGetChar :: "cstring \<Rightarrow> nat \<Rightarrow> int" where
  "StringGetChar s idx = (if idx < s_size s then schar (s_data s ! idx) else -1)"

definition StringClear :: "cstring \<Rightarrow> cstring" where
  "StringClear s = s\<lparr>s_data := (s_data s)[0 := NUL], s_size := 0\<rparr>"

definition StringCreateInternal :: "alloc \<Rightarrow> nat \<Rightarrow> string ptr \<Rightarrow> cstring ptr" where
  "StringCreateInternal mem initcapacity initcontent =
     (let len = (case initcontent of None \<Rightarrow> 0 | Some t \<Rightarrow> length t)
      in if \<not> mem sizeof_String_Internal then NULL
         else if initcapacity = 0 \<and> initcontent = NULL then NULL
         else
           (let capacity = (if initcapacity = 0 then len else initcapacity)
            in if \<not> mem (capacity + 1) then NULL
               else
                 (let s = \<lparr>s_data = replicate (capacity + 1) NUL, s_capacity = capacity + 1, s_size = 0\<rparr>
                  in if 0 < len then
                       (case StringAddNString mem s initcontent len of
                          (r, s') \<Rightarrow> if r < 0 then NULL else Some s')
                     else Some s)))"

definition StringCreateEx :: "alloc \<Rightarrow> nat \<Rightarrow> string ptr \<Rightarrow> cstring ptr" where
  "StringCreateEx mem initcapacity initcontent = StringCreateInternal mem initcapacity initcontent"

text \<open>
  \<open>Substring\<close>. The sum \<open>offset + length\<close> is a \<open>size_t\<close> and wraps; then the length kept is the
  caller's. The block asked for has \<open>len + 1\<close> bytes, again modulo \<open>2 ^ 64\<close>, and the copy reads
  \<open>len\<close> bytes from \<open>offset\<close>: a fault when that leaves the buffer.
\<close>

definition StringSubstring :: "alloc \<Rightarrow> cstring \<Rightarrow> nat \<Rightarrow> nat \<Rightarrow> fault + cstring ptr" where
  "StringSubstring mem s offset len =
     (if offset < s_size s then
        (let len' = (if (offset + len) mod 2 ^ 64 > s_size s then s_size s - offset else len)
         in if len' \<le> s_size s - offset then
              (case StringCreateInternal mem (if 0 < len' then len' else 1) NULL of
                 None \<Rightarrow> Inr NULL
               | Some r \<Rightarrow>
                   Inr (Some (if 0 < len'
                              then snd (StringAddNString mem r (Some (drop offset (s_data s))) len')
                              else r)))
            else if mem sizeof_String_Internal \<and> mem ((len' + 1) mod 2 ^ 64)
            then Inl Out_Of_Bounds
            else Inr NULL)
      else Inr NULL)"

definition map_bytes :: "(char \<Rightarrow> char) \<Rightarrow> cstring \<Rightarrow> cstring \<Rightarrow> cstring" where
  "map_bytes f s r =
     r\<lparr>s_data := (memcpy (s_data r) 0 (map f (take (s_size s) (s_data s))))[s_size s := NUL],
       s_size := s_size s\<rparr>"

definition StringToLower :: "alloc \<Rightarrow> cstring \<Rightarrow> cstring ptr" where
  "StringToLower mem s = map_option (map_bytes tolower s) (StringCreateInternal mem (s_size s) NULL)"

definition StringToUpper :: "alloc \<Rightarrow> cstring \<Rightarrow> cstring ptr" where
  "StringToUpper mem s = map_option (map_bytes toupper s) (StringCreateInternal mem (s_size s) NULL)"

text \<open>\<open>while (*p) { *p = f(*p); p++; }\<close> on a buffer.\<close>

fun map_until_NUL :: "(char \<Rightarrow> char) \<Rightarrow> char list \<Rightarrow> char list" where
  "map_until_NUL f [] = []"
| "map_until_NUL f (c # cs) = (if c = NUL then c # cs else f c # map_until_NUL f cs)"

definition StringSelfToUpper :: "cstring \<Rightarrow> cstring" where
  "StringSelfToUpper s = s\<lparr>s_data := map_until_NUL toupper (s_data s)\<rparr>"

definition StringSelfToLower :: "cstring \<Rightarrow> cstring" where
  "StringSelfToLower s = s\<lparr>s_data := map_until_NUL tolower (s_data s)\<rparr>"

text \<open>
  The loop of \<open>Replace\<close>: \<open>prv\<close> is the rest of the source as a C string, \<open>res\<close> the result built so
  far. The outer \<open>None\<close> is a loop that does not return, \<open>Some NULL\<close> the failure of an append.
\<close>

partial_function (option) replace_loop ::
  "alloc \<Rightarrow> string \<Rightarrow> string \<Rightarrow> cstring \<Rightarrow> string \<Rightarrow> cstring ptr option" where
  "replace_loop mem needle alter res prv =
     (case strstr prv needle of
        None \<Rightarrow>
          (case StringAddString mem res (Some prv) of
             (r, res') \<Rightarrow> Some (if r < 0 then NULL else Some res'))
      | Some k \<Rightarrow>
          (case (if 0 < k then StringAddNString mem res (Some prv) k else (0, res)) of
             (r1, res1) \<Rightarrow>
               if r1 < 0 then Some NULL
               else
                 (case StringAddString mem res1 (Some alter) of
                    (r2, res2) \<Rightarrow>
                      if r2 < 0 then Some NULL
                      else replace_loop mem needle alter res2 (drop (k + length needle) prv))))"

definition StringReplace :: "alloc \<Rightarrow> cstring \<Rightarrow> string ptr \<Rightarrow> string ptr \<Rightarrow> cstring ptr option" where
  "StringReplace mem s needle alter =
     (case (needle, alter) of
        (Some n, Some a) \<Rightarrow>
          (case StringCreateInternal mem (s_capacity s) NULL of
             None \<Rightarrow> Some NULL
           | Some res \<Rightarrow> replace_loop mem n a res (cstr (s_data s)))
      | _ \<Rightarrow> Some NULL)"

definition StringClone :: "alloc \<Rightarrow> cstring \<Rightarrow> cstring ptr" where
  "StringClone mem s =
     (case StringCreateInternal mem (if s_size s \<noteq> 0 then s_size s else 1) NULL of
        None \<Rightarrow> NULL
      | Some r \<Rightarrow>
          Some (if 0 < s_size s
                then snd (StringAddNString mem r (Some (s_data s)) (s_size s)) else r))"

text \<open>What \<open>Destroy\<close> hands to \<open>Free\<close>: the sizes of the blocks.\<close>

definition StringDestroy :: "cstring ptr \<Rightarrow> nat list" where
  "StringDestroy str =
     (case str of None \<Rightarrow> [] | Some s \<Rightarrow> [length (s_data s), sizeof_String_Internal])"

text \<open>
  \<open>SelfTrim\<close>: the right scan stops at the first byte of the buffer at the latest, the left scan
  at the terminator just written.
\<close>

fun rtrim_len :: "char list \<Rightarrow> nat \<Rightarrow> nat" where
  "rtrim_len d 0 = 0"
| "rtrim_len d (Suc k) = (if strchr SPACES (d ! k) \<and> 0 < k then rtrim_len d k else Suc k)"

fun skip_len :: "string \<Rightarrow> char list \<Rightarrow> nat" where
  "skip_len spaces [] = 0"
| "skip_len spaces (c # cs) = (if strchr spaces c \<and> c \<noteq> NUL then Suc (skip_len spaces cs) else 0)"

definition StringSelfTrim :: "cstring \<Rightarrow> cstring" where
  "StringSelfTrim s =
     (if s_size s = 0 then s
      else
        (let len = rtrim_len (s_data s) (s_size s);
             d = (s_data s)[len := NUL];
             p = skip_len SPACES d;
             len' = len - p
         in s\<lparr>s_data := (if 0 < p then memmove d 0 p (len' + 1) else d), s_size := len'\<rparr>))"

definition StringSetSizeInternal :: "alloc \<Rightarrow> cstring \<Rightarrow> nat \<Rightarrow> cstring" where
  "StringSetSizeInternal mem s newsize =
     (if newsize \<ge> s_capacity s then
        (if mem (newsize + 1)
         then s\<lparr>s_data := (realloc NUL (s_data s) (newsize + 1))[newsize := NUL],
                s_capacity := newsize + 1, s_size := newsize\<rparr>
         else s)
      else s\<lparr>s_data := (s_data s)[newsize := NUL], s_size := newsize\<rparr>)"


section \<open>Invariant and content\<close>

definition str_inv :: "cstring \<Rightarrow> bool" where
  "str_inv s \<longleftrightarrow> length (s_data s) = s_capacity s \<and> s_size s < s_capacity s \<and> s_data s ! s_size s = NUL"

definition content :: "cstring \<Rightarrow> string" where
  "content s = take (s_size s) (s_data s)"

text \<open>Whether \<open>n\<close> more bytes fit, or can be allocated.\<close>

definition room :: "alloc \<Rightarrow> cstring \<Rightarrow> nat \<Rightarrow> bool" where
  "room mem s n \<longleftrightarrow> s_size s + n + 1 \<le> s_capacity s \<or> mem (grow (s_capacity s * 2) (s_size s + n + 1))"

lemma length_content [simp]: "str_inv s \<Longrightarrow> length (content s) = s_size s"
  by (simp add: str_inv_def content_def)

lemma content_Nil [simp]: "str_inv s \<Longrightarrow> content s = [] \<longleftrightarrow> s_size s = 0"
  using length_content [of s] by (metis length_0_conv)

lemma data_split: "str_inv s \<Longrightarrow> s_data s = content s @ NUL # drop (Suc (s_size s)) (s_data s)"
  unfolding str_inv_def content_def by (metis id_take_nth_drop)

lemma cstr_data: "str_inv s \<Longrightarrow> NUL \<notin> set (content s) \<Longrightarrow> cstr (s_data s) = content s"
  by (subst data_split) (simp_all add: cstr_append_NUL)

lemma str_invI:
  assumes "length d = c" "n < c" "d ! n = NUL"
  shows "str_inv (s\<lparr>s_data := d, s_capacity := c, s_size := n\<rparr>)"
  using assms by (simp add: str_inv_def)

lemma str_of_parts:
  assumes "length u + 1 + length v = s_capacity s"
  shows "str_inv (s\<lparr>s_data := u @ NUL # v, s_size := length u\<rparr>) \<and>
    content (s\<lparr>s_data := u @ NUL # v, s_size := length u\<rparr>) = u"
  using assms by (simp add: str_inv_def content_def)

lemma str_CheckSize_spec:
  assumes "str_inv s"
  obtains s' where "StringCheckSize mem s n = (room mem s n, s')" "str_inv s'" "content s' = content s"
    "s_size s' = s_size s" "room mem s n \<Longrightarrow> s_size s + n < s_capacity s'"
proof (cases "s_capacity s < s_size s + n + 1")
  case fits: False
  with assms that [of s] show ?thesis by (auto simp: StringCheckSize_def room_def)
next
  case full: True
  let ?c = "grow (s_capacity s * 2) (s_size s + n + 1)"
  have pos: "0 < s_capacity s * 2" using assms by (simp add: str_inv_def)
  have big: "s_size s + n + 1 \<le> ?c" "s_capacity s * 2 \<le> ?c"
    using grow_ge [OF pos] grow_mono by blast+
  show ?thesis
  proof (cases "mem ?c")
    case True
    let ?s = "s\<lparr>s_data := realloc NUL (s_data s) ?c, s_capacity := ?c\<rparr>"
    have "str_inv ?s" "content ?s = content s"
      using assms big pos by (auto simp: str_inv_def content_def buf_simps)
    with True full big show ?thesis by (intro that [of ?s]) (auto simp: StringCheckSize_def room_def Let_def)
  next
    case False
    with assms full that [of s] show ?thesis by (auto simp: StringCheckSize_def room_def)
  qed
qed

section \<open>What the operations do to the content\<close>

lemma AddNString_spec:
  assumes "str_inv s" "n \<le> length src"
  shows "case StringAddNString mem s (Some src) n of (r, s') \<Rightarrow> str_inv s' \<and>
    (if n = 0 \<or> room mem s n
     then r = int (s_size s + n) \<and> content s' = content s @ take n src
     else r = -1 \<and> content s' = content s)"
proof (cases "n = 0")
  case True
  with assms show ?thesis by (simp add: StringAddNString_def)
next
  case False
  obtain s1 where s1: "StringCheckSize mem s n = (room mem s n, s1)" "str_inv s1" "content s1 = content s"
      "s_size s1 = s_size s" "room mem s n \<Longrightarrow> s_size s + n < s_capacity s1"
    using str_CheckSize_spec [OF assms(1)] by blast
  show ?thesis
  proof (cases "room mem s n")
    case True
    with s1 False assms show ?thesis
      by (auto simp: StringAddNString_def Let_def str_inv_def content_def memcpy_def nth_append take_Cons')
  next
    case no: False
    with s1 False show ?thesis by (simp add: StringAddNString_def)
  qed
qed

lemma AddChar_spec:
  assumes "str_inv s"
  shows "case StringAddChar mem s c of (r, s') \<Rightarrow> str_inv s' \<and>
    (if room mem s 1 then r = int (s_size s + 1) \<and> content s' = content s @ [c]
     else r = -1 \<and> content s' = content s)"
proof -
  obtain s1 where s1: "StringCheckSize mem s 1 = (room mem s 1, s1)" "str_inv s1" "content s1 = content s"
      "s_size s1 = s_size s" "room mem s 1 \<Longrightarrow> s_size s + 1 < s_capacity s1"
    using str_CheckSize_spec [OF assms] by blast
  then show ?thesis
    by (auto simp: StringAddChar_def str_inv_def content_def take_update_last split: if_splits)
qed

lemma InsertNString_spec:
  assumes "str_inv s" "n \<le> length src" "i \<le> s_size s"
  shows "case StringInsertNString mem s (Some src) i n of (r, s') \<Rightarrow> str_inv s' \<and>
    (if n = 0 \<or> room mem s n
     then r = int (s_size s + n) \<and> content s' = take i (content s) @ take n src @ drop i (content s)
     else r = -1 \<and> content s' = content s)"
proof (cases "n = 0")
  case True
  with assms show ?thesis by (simp add: StringInsertNString_def)
next
  case False
  obtain s1 where s1: "StringCheckSize mem s n = (room mem s n, s1)" "str_inv s1" "content s1 = content s"
      "s_size s1 = s_size s" "room mem s n \<Longrightarrow> s_size s + n < s_capacity s1"
    using str_CheckSize_spec [OF assms(1)] by blast
  show ?thesis
  proof (cases "room mem s n")
    case True
    let ?d1 = "memmove (s_data s1) (i + n) i (s_size s - i + 1)"
    let ?d2 = "memcpy ?d1 i (take n src)"
    let ?rest = "drop (Suc (s_size s + n)) (s_data s1)"
    have data: "s_data s1 = content s @ NUL # drop (Suc (s_size s)) (s_data s1)"
      using data_split [OF s1(2)] s1 by simp
    have len: "length (s_data s1) = s_capacity s1" "s_size s + n < s_capacity s1"
      using s1 True by (auto simp: str_inv_def)
    have tail: "take (s_size s - i + 1) (drop i (s_data s1)) = drop i (content s) @ [NUL]"
      using assms by (subst data) (simp add: Suc_diff_le)
    have d1: "?d1 = take (i + n) (s_data s1) @ drop i (content s) @ NUL # ?rest"
      using assms by (simp only: memmove_def tail) (simp add: add.commute)
    have d2: "?d2 = take i (content s) @ take n src @ drop i (content s) @ NUL # ?rest"
    proof -
      have "take i (s_data s1) = take i (content s)"
        using assms by (subst data) simp
      then show ?thesis using assms len by (simp only: memcpy_def d1) simp
    qed
    have sz: "length (take i (content s) @ take n src @ drop i (content s)) = s_size s + n"
      using assms by simp
    have l2: "length ?d2 = s_capacity s1"
      using sz len assms unfolding d2 by simp
    have nul: "?d2 ! (s_size s + n) = NUL"
      using sz unfolding d2 by (metis append.assoc nth_append_length)
    have cont: "take (s_size s + n) ?d2 = take i (content s) @ take n src @ drop i (content s)"
      using sz unfolding d2 by (metis append.assoc append_eq_conv_conj)
    show ?thesis
      using True False s1 assms len l2 nul cont
      by (simp add: StringInsertNString_def Let_def str_inv_def content_def)
  next
    case no: False
    with s1 False assms show ?thesis by (simp add: StringInsertNString_def)
  qed
qed

lemma CutTailOff_spec:
  assumes "str_inv s"
  shows "str_inv (StringCutTailOff s len) \<and>
    content (StringCutTailOff s len) = take (s_size s - len) (content s)"
  using assms by (auto simp: StringCutTailOff_def Let_def str_inv_def content_def)

lemma Clear_spec:
  assumes "str_inv s"
  shows "str_inv (StringClear s) \<and> content (StringClear s) = []"
  using assms by (auto simp: StringClear_def str_inv_def content_def)

lemma Create_spec:
  assumes "0 < cap \<or> init \<noteq> NULL"
  shows "case StringCreateInternal mem cap init of
      None \<Rightarrow> \<exists>n. \<not> mem n
    | Some s \<Rightarrow> str_inv s \<and> content s = (case init of None \<Rightarrow> [] | Some t \<Rightarrow> t)"
proof (cases "mem sizeof_String_Internal")
  case False
  then show ?thesis by (auto simp: StringCreateInternal_def)
next
  case m1: True
  define len where "len = (case init of None \<Rightarrow> 0 | Some t \<Rightarrow> length t)"
  define c where "c = (if cap = 0 then len else cap)"
  define e where "e = \<lparr>s_data = replicate (c + 1) NUL, s_capacity = c + 1, s_size = 0\<rparr>"
  have inv: "str_inv e" "content e = []" by (simp_all add: e_def str_inv_def content_def nth_Cons')
  have def_eq: "StringCreateInternal mem cap init =
      (if \<not> mem (c + 1) then NULL else if 0 < len then
         (case StringAddNString mem e init len of (r, s') \<Rightarrow> if r < 0 then NULL else Some s') else Some e)"
    using m1 assms by (auto simp: StringCreateInternal_def Let_def len_def c_def e_def split: option.splits)
  show ?thesis
  proof (cases "mem (c + 1) \<and> 0 < len")
    case True
    then obtain t where t: "init = Some t" "len = length t" by (auto simp: len_def split: option.splits)
    show ?thesis
      using AddNString_spec [OF inv(1), of len t mem] True t inv unfolding def_eq
      by (auto simp: room_def split: prod.splits if_splits)
  next
    case False
    then show ?thesis using inv unfolding def_eq by (auto simp: len_def split: option.splits)
  qed
qed

lemma Create_granted:
  assumes "0 < cap \<or> init \<noteq> NULL" "\<forall>n. mem n"
  obtains s where "StringCreateInternal mem cap init = Some s" "str_inv s"
    "content s = (case init of None \<Rightarrow> [] | Some t \<Rightarrow> t)"
  using Create_spec [OF assms(1), of mem] assms(2) by (auto split: option.splits)

lemma Create_empty:
  assumes "0 < cap" "StringCreateInternal mem cap NULL = Some s"
  shows "str_inv s" "content s = []" "s_size s = 0" "s_capacity s = cap + 1"
  using assms
  by (auto simp: StringCreateInternal_def Let_def str_inv_def content_def nth_Cons' split: if_splits)


section \<open>Search and replace\<close>

lemma AddString_spec:
  assumes "str_inv s"
  shows "case StringAddString mem s (Some src) of (r, s') \<Rightarrow> str_inv s' \<and>
    (if src = [] \<or> room mem s (length src)
     then r = int (s_size s + length src) \<and> content s' = content s @ src
     else r = -1 \<and> content s' = content s)"
  using AddNString_spec [OF assms, of "length src" src mem]
  by (auto simp: StringAddString_def split: prod.splits if_splits)

fun join :: "'a list \<Rightarrow> 'a list list \<Rightarrow> 'a list" where
  "join sep [] = []"
| "join sep [x] = x"
| "join sep (x # y # ys) = x @ sep @ join sep (y # ys)"

lemma join_Cons: "ys \<noteq> [] \<Longrightarrow> join sep (x # ys) = x @ sep @ join sep ys"
  by (cases ys) auto

text \<open>The reference: the pieces of a string between the leftmost occurrences of the needle.\<close>

function pieces :: "string \<Rightarrow> string \<Rightarrow> string list" where
  "pieces needle s =
     (case strstr s needle of
        None \<Rightarrow> [s]
      | Some k \<Rightarrow> if needle = [] then [s] else take k s # pieces needle (drop (k + length needle) s))"
  by pat_completeness auto
termination
  by (relation "measure (\<lambda>(n, s). length s)") (auto dest: strstr_drop_less)

declare pieces.simps [simp del]

lemma pieces_not_Nil [simp]: "pieces n s \<noteq> []"
  by (subst pieces.simps) (simp split: option.split)

lemma join_pieces: "join needle (pieces needle s) = s"
proof (induction needle s rule: pieces.induct)
  case (1 needle s)
  show ?case
  proof (cases "strstr s needle")
    case None
    then show ?thesis by (simp add: pieces.simps [of needle s])
  next
    case (Some k)
    show ?thesis
    proof (cases "needle = []")
      case True
      with Some show ?thesis by (simp add: pieces.simps [of "[]" s])
    next
      case False
      from strstr_SomeD [OF Some] obtain t where "drop k s = needle @ t" "k + length needle \<le> length s"
        by (auto simp: prefixb_iff)
      then have "s = take k s @ needle @ drop (k + length needle) s"
        by (metis append_eq_conv_conj append_take_drop_id drop_drop add.commute)
      with 1 Some False show ?thesis by (simp add: pieces.simps [of needle s] join_Cons)
    qed
  qed
qed

lemma pieces_free: "needle \<noteq> [] \<Longrightarrow> p \<in> set (pieces needle s) \<Longrightarrow> strstr p needle = None"
proof (induction needle s rule: pieces.induct)
  case (1 needle s)
  show ?case
  proof (cases "strstr s needle")
    case None
    with 1 show ?thesis by (simp add: pieces.simps [of needle s])
  next
    case (Some k)
    with 1 have "p = take k s \<or> p \<in> set (pieces needle (drop (k + length needle) s))"
      by (simp add: pieces.simps [of needle s])
    with 1 Some strstr_take [OF Some] show ?thesis by auto
  qed
qed

lemma replace_loop_spec:
  "needle \<noteq> [] \<Longrightarrow> str_inv res \<Longrightarrow>
   \<exists>r. replace_loop mem needle alter res prv = Some r \<and>
     (case r of None \<Rightarrow> \<exists>n. \<not> mem n
      | Some t \<Rightarrow> str_inv t \<and> content t = content res @ join alter (pieces needle prv))"
proof (induction needle prv arbitrary: res rule: pieces.induct)
  case (1 needle prv)
  show ?case
  proof (cases "strstr prv needle")
    case None
    then show ?thesis
      using AddString_spec [OF "1.prems"(2), of prv mem]
      by (subst replace_loop.simps)
        (auto simp: pieces.simps [of needle prv] room_def split: prod.splits if_splits)
  next
    case (Some k)
    have k: "k \<le> length prv" using strstr_SomeD [OF Some] by simp
    define a1 where "a1 = (if 0 < k then StringAddNString mem res (Some prv) k else (0, res))"
    obtain r1 res1 where a1: "a1 = (r1, res1)" by fastforce
    obtain r2 res2 where a2: "StringAddString mem res1 (Some alter) = (r2, res2)" by fastforce
    have step: "replace_loop mem needle alter res prv =
        (if r1 < 0 then Some NULL else if r2 < 0 then Some NULL
         else replace_loop mem needle alter res2 (drop (k + length needle) prv))"
      using Some a1 a2 by (subst replace_loop.simps) (simp add: a1_def)
    have s1: "str_inv res1" "r1 < 0 \<Longrightarrow> \<exists>n. \<not> mem n" "\<not> r1 < 0 \<Longrightarrow> content res1 = content res @ take k prv"
      using AddNString_spec [OF "1.prems"(2) k, of mem] a1 "1.prems"(2)
      by (auto simp: a1_def room_def split: if_splits)
    have s2: "str_inv res2" "r2 < 0 \<Longrightarrow> \<exists>n. \<not> mem n" "\<not> r2 < 0 \<Longrightarrow> content res2 = content res1 @ alter"
      using AddString_spec [OF s1(1), of alter mem] a2 by (auto simp: room_def split: if_splits)
    show ?thesis
    proof (cases "r1 < 0 \<or> r2 < 0")
      case True
      with step s1 s2 show ?thesis by auto
    next
      case False
      from "1.IH" [OF Some "1.prems"(1) "1.prems"(1) s2(1)] obtain r where
        r: "replace_loop mem needle alter res2 (drop (k + length needle) prv) = Some r"
        "case r of None \<Rightarrow> \<exists>n. \<not> mem n
         | Some t \<Rightarrow> str_inv t \<and> content t = content res2 @ join alter (pieces needle (drop (k + length needle) prv))"
        by blast
      with False step s1 s2 Some "1.prems" show ?thesis
        by (auto simp: pieces.simps [of needle prv] join_Cons split: option.splits)
    qed
  qed
qed

lemma replace_loop_empty:
  assumes "replace_loop mem needle alter res prv = Some r"
  shows "needle = [] \<longrightarrow> (\<forall>n. mem n) \<longrightarrow> str_inv res \<longrightarrow> False"
proof (rule replace_loop.raw_induct [where
      P = "\<lambda>mem needle alter res prv r. needle = [] \<longrightarrow> (\<forall>n. mem n) \<longrightarrow> str_inv res \<longrightarrow> False",
      OF _ assms], intro impI)
  fix loop mem and needle alter prv :: string and res r
  assume IH: "\<And>mem needle alter res prv y. loop mem needle alter res prv = Some y \<Longrightarrow>
      needle = [] \<longrightarrow> (\<forall>n. mem n) \<longrightarrow> str_inv res \<longrightarrow> False"
    and body: "(case strstr prv needle of
        None \<Rightarrow> (case StringAddString mem res (Some prv) of
             (r, res') \<Rightarrow> Some (if r < 0 then NULL else Some res'))
      | Some k \<Rightarrow>
          (case (if 0 < k then StringAddNString mem res (Some prv) k else (0, res)) of
             (r1, res1) \<Rightarrow> if r1 < 0 then Some NULL
               else (case StringAddString mem res1 (Some alter) of
                    (r2, res2) \<Rightarrow> if r2 < 0 then Some NULL
                      else loop mem needle alter res2 (drop (k + length needle) prv)))) = Some r"
    and H: "needle = []" "\<forall>n. mem n" "str_inv res"
  obtain r2 res2 where a: "StringAddString mem res (Some alter) = (r2, res2)" by fastforce
  with AddString_spec [OF H(3), of alter mem] H have ok: "0 \<le> r2" "str_inv res2" by (auto simp: room_def)
  have "strstr prv needle = Some 0" using H by (cases prv) auto
  with body a ok H have "loop mem [] alter res2 prv = Some r" by simp
  with IH H ok show False by blast
qed

section \<open>Trimming\<close>

abbreviation blank :: "char \<Rightarrow> bool" where
  "blank c \<equiv> c \<in> set SPACES"

definition rtrim :: "string \<Rightarrow> string" where
  "rtrim t = rev (dropWhile blank (rev t))"

definition trim :: "string \<Rightarrow> string" where
  "trim t = dropWhile blank (rtrim t)"

lemma rtrim_snoc: "rtrim (t @ [c]) = (if blank c then rtrim t else t @ [c])"
  by (simp add: rtrim_def)

lemma rtrim_le: "length (rtrim t) \<le> length t"
  by (simp add: rtrim_def) (metis length_dropWhile_le length_rev)

lemma rtrim_prefix: "rtrim t = take (length (rtrim t)) t"
  using rtrim_le by (induction t rule: rev_induct) (auto simp: rtrim_snoc, simp add: rtrim_def)

lemma rtrim_Nil: "rtrim t = [] \<longleftrightarrow> (\<forall>c\<in>set t. blank c)"
  by (simp add: rtrim_def)

lemma strchr_SPACES: "c \<noteq> NUL \<Longrightarrow> strchr SPACES c = blank c"
  by (auto simp: strchr_def)

lemma rtrim_len_spec:
  "0 < k \<Longrightarrow> k \<le> length d \<Longrightarrow> NUL \<notin> set (take k d) \<Longrightarrow> rtrim_len d k = max 1 (length (rtrim (take k d)))"
proof (induction k)
  case (Suc k)
  have last: "take (Suc k) d = take k d @ [d ! k]" using Suc.prems by (simp add: take_Suc_conv_app_nth)
  with Suc.prems have c: "d ! k \<noteq> NUL" "NUL \<notin> set (take k d)" by auto
  show ?case
  proof (cases "k = 0")
    case True
    with Suc.prems last c show ?thesis by (auto simp: rtrim_snoc rtrim_def)
  next
    case False
    with Suc last c strchr_SPACES [OF c(1)] show ?thesis by (simp add: rtrim_snoc)
  qed
qed simp

lemma skip_len_spec: "skip_len SPACES cs = length (takeWhile blank cs)"
  by (induction cs) (auto simp: strchr_def SPACES_def)

lemma takeWhile_blank_NUL: "takeWhile blank (t @ NUL # u) = takeWhile blank t"
  by (induction t) (auto simp: SPACES_def)

text \<open>The right scan keeps a first byte even if it is blank; the left scan then removes it.\<close>

lemma trim_take: "dropWhile blank (take (max 1 (length (rtrim t))) t) = trim t"
proof (cases "rtrim t = []")
  case True
  then have "\<forall>c\<in>set (take 1 t). blank c" by (auto simp: rtrim_Nil dest: in_set_takeD)
  with True show ?thesis by (simp add: trim_def)
next
  case False
  then have "max 1 (length (rtrim t)) = length (rtrim t)" by (simp add: max_def Suc_le_eq)
  then show ?thesis using rtrim_prefix [of t] by (simp add: trim_def)
qed

lemma SelfTrim_spec:
  assumes "str_inv s" "NUL \<notin> set (content s)"
  shows "str_inv (StringSelfTrim s) \<and> content (StringSelfTrim s) = trim (content s)"
proof (cases "s_size s = 0")
  case True
  with assms show ?thesis by (auto simp: StringSelfTrim_def content_def trim_def rtrim_def)
next
  case False
  define len where "len = rtrim_len (s_data s) (s_size s)"
  define d where "d = (s_data s)[len := NUL]"
  define t where "t = take len (content s)"
  define p where "p = skip_len SPACES d"
  have len: "len = max 1 (length (rtrim (content s)))"
    using rtrim_len_spec [of "s_size s" "s_data s"] False assms by (simp add: len_def str_inv_def content_def)
  have le: "len \<le> s_size s" "length (s_data s) = s_capacity s" "s_size s < s_capacity s"
    using rtrim_prefix [of "content s"] assms False len
    by (auto simp: str_inv_def) (metis assms(1) length_content length_take min.cobounded1 min.commute)
  have d: "d = t @ NUL # drop (Suc len) (s_data s)"
    using le by (simp add: d_def t_def content_def upd_conv_take_nth_drop)
  have lt: "length t = len" using le assms by (simp add: t_def)
  have p: "p = length (takeWhile blank t)"
    unfolding p_def skip_len_spec d by (simp only: takeWhile_blank_NUL)
  have trim: "dropWhile blank t = trim (content s)"
    unfolding t_def len by (rule trim_take)
  have dw: "drop p t = trim (content s)"
    using trim by (simp add: p dropWhile_eq_drop)
  have pl: "p \<le> len" using lt by (metis length_takeWhile_le p)
  have res: "StringSelfTrim s = s\<lparr>s_data := (if 0 < p then memmove d 0 p (len - p + 1) else d), s_size := len - p\<rparr>"
    using False by (simp add: StringSelfTrim_def Let_def len_def d_def p_def)
  have "drop p d = drop p t @ NUL # drop (Suc len) (s_data s)" using pl lt by (simp add: d)
  then have mv: "memmove d 0 p (len - p + 1) = drop p t @ NUL # drop (len - p + 1) d"
    using lt by (simp add: memmove_def)
  have ld: "length d = s_capacity s" using le by (simp add: d_def)
  define u where "u = trim (content s)"
  have lu: "length u = len - p" using dw lt unfolding u_def by (metis length_drop)
  show ?thesis
  proof (cases "p = 0")
    case True
    with dw d have "d = u @ NUL # drop (Suc len) (s_data s)" by (simp add: u_def)
    with True ld lu str_of_parts [of u "drop (Suc len) (s_data s)" s] show ?thesis
      by (simp add: res u_def)
  next
    case False
    have "memmove d 0 p (len - p + 1) = u @ NUL # drop (len - p + 1) d"
      using mv dw by (simp add: u_def)
    with False ld lu pl le str_of_parts [of u "drop (len - p + 1) d" s] show ?thesis
      by (simp add: res u_def)
  qed
qed


section \<open>Properties\<close>

lemma Substring_spec:
  assumes "str_inv s" "off < s_size s" "off + len < 2 ^ 64"
  shows "\<exists>r. StringSubstring mem s off len = Inr r \<and>
    (case r of None \<Rightarrow> \<exists>n. \<not> mem n
     | Some t \<Rightarrow> str_inv t \<and> content t = take len (drop off (content s)))"
proof -
  define l where "l = (if off + len > s_size s then s_size s - off else len)"
  have l: "l \<le> s_size s - off" "take l (drop off (s_data s)) = take len (drop off (content s))"
    using assms by (auto simp: l_def content_def take_drop min_def)
  have eq: "StringSubstring mem s off len =
      (case StringCreateInternal mem (if 0 < l then l else 1) NULL of
         None \<Rightarrow> Inr NULL
       | Some r \<Rightarrow> Inr (Some (if 0 < l then snd (StringAddNString mem r (Some (drop off (s_data s))) l) else r)))"
  proof -
    have "(if (off + len) mod 2 ^ 64 > s_size s then s_size s - off else len) = l"
      using assms by (simp add: l_def)
    then show ?thesis using assms l(1) by (simp add: StringSubstring_def Let_def)
  qed
  show ?thesis
  proof (cases "StringCreateInternal mem (if 0 < l then l else 1) NULL")
    case None
    with Create_spec [of "if 0 < l then l else 1" NULL mem] eq show ?thesis by auto
  next
    case (Some r)
    have pos: "0 < (if 0 < l then l else 1)" by simp
    note r = Create_empty [OF pos Some]
    have "l \<le> length (drop off (s_data s))" using l(1) assms by (auto simp: str_inv_def)
    from AddNString_spec [OF r(1) this, of mem] Some r l(2) eq show ?thesis
      by (auto simp: room_def split: prod.splits if_splits)
  qed
qed

lemma Clone_spec:
  assumes "str_inv s"
  shows "case StringClone mem s of None \<Rightarrow> \<exists>n. \<not> mem n | Some t \<Rightarrow> str_inv t \<and> content t = content s"
proof (cases "StringCreateInternal mem (if s_size s \<noteq> 0 then s_size s else 1) NULL")
  case None
  with Create_spec [of "if s_size s \<noteq> 0 then s_size s else 1" NULL mem] show ?thesis
    by (auto simp: StringClone_def)
next
  case (Some r)
  have pos: "0 < (if s_size s \<noteq> 0 then s_size s else 1)" by simp
  note r = Create_empty [OF pos Some]
  have "s_size s \<le> length (s_data s)" using assms by (simp add: str_inv_def)
  from AddNString_spec [OF r(1) this, of mem] Some r assms show ?thesis
    by (auto simp: StringClone_def room_def content_def split: prod.splits if_splits)
qed

lemma map_bytes_spec:
  assumes "str_inv s" "str_inv r" "s_size s < s_capacity r"
  shows "str_inv (map_bytes f s r) \<and> content (map_bytes f s r) = map f (content s)"
  using assms by (auto simp: map_bytes_def str_inv_def content_def memcpy_def min_absorb2 nth_append)

text \<open>
  inserting \<open>n\<close> bytes at \<open>i\<close> (\<open>InsertNString\<close>). An index past the end is an error that
  changes nothing; inside, the string becomes the old content with exactly the first \<open>n\<close> source
  bytes spliced in at \<open>i\<close> and the new size is returned, unless the buffer has to grow and cannot:
  then the result is -1 and the content is as before. The invariant (terminated, inside its
  block) holds in every case.
\<close>

theorem string_insert:
  assumes "str_inv s" "n \<le> length src"
  shows "case StringInsertNString mem s (Some src) i n of (r, s') \<Rightarrow>
    str_inv s' \<and>
    (if i \<le> s_size s \<and> (n = 0 \<or> room mem s n)
     then r = int (s_size s') \<and> content s' = take i (content s) @ take n src @ drop i (content s)
     else r = -1 \<and> content s' = content s)"
proof (cases "i \<le> s_size s")
  case True
  have "str_inv s' \<Longrightarrow> content s' = take i (content s) @ take n src @ drop i (content s) \<Longrightarrow>
      s_size s' = s_size s + n" for s'
    using True assms length_content [of s'] by simp
  with InsertNString_spec [OF assms True, of mem] True show ?thesis by (auto split: prod.splits if_splits)
next
  case False
  with assms show ?thesis by (simp add: StringInsertNString_def)
qed

definition abc :: cstring where
  "abc = \<lparr>s_data = [CHR ''a'', CHR ''b'', CHR ''c'', NUL], s_capacity = 4, s_size = 3\<rparr>"

lemma abc_inv: "str_inv abc" "content abc = ''abc''" "s_size abc = 3"
  by (simp_all add: abc_def str_inv_def content_def)

lemma string_insert_witness:
  "str_inv (snd (StringInsertNString (\<lambda>_. True) abc (Some ''xyz'') 1 2)) \<and>
   content (snd (StringInsertNString (\<lambda>_. True) abc (Some ''xyz'') 1 2)) = ''axybc''"
  using string_insert [where s = abc and n = 2 and src = "''xyz''" and mem = "\<lambda>_. True" and i = 1]
  by (auto simp: abc_inv room_def split: prod.splits)

text \<open>
  C20: \<open>Replace\<close> is the textbook substitution. For a needle that is not empty the loop returns, and
  its result is NULL only if an allocation was refused; otherwise it is the alternative put
  between the pieces of the source, the pieces put together with the needle give the source back,
  and no piece contains the needle: every leftmost non-overlapping occurrence is replaced and
  nothing else is touched.
\<close>

theorem string_replace:
  assumes "str_inv s" "NUL \<notin> set (content s)" "needle \<noteq> []"
  shows "\<exists>r. StringReplace mem s (Some needle) (Some alter) = Some r \<and>
    (case r of None \<Rightarrow> \<exists>n. \<not> mem n
     | Some t \<Rightarrow> str_inv t \<and> content t = join alter (pieces needle (content s))) \<and>
    join needle (pieces needle (content s)) = content s \<and>
    (\<forall>p\<in>set (pieces needle (content s)). strstr p needle = None)"
proof (cases "StringCreateInternal mem (s_capacity s) NULL")
  case None
  have "0 < s_capacity s" using assms by (simp add: str_inv_def)
  with None Create_spec [of "s_capacity s" NULL mem] assms pieces_free show ?thesis
    by (simp add: StringReplace_def join_pieces)
next
  case (Some res)
  have "0 < s_capacity s" using assms by (simp add: str_inv_def)
  note r = Create_empty [OF this Some]
  from replace_loop_spec [OF assms(3) r(1), of mem alter "content s"] Some r(2) assms pieces_free
  show ?thesis by (auto simp: StringReplace_def join_pieces cstr_data split: option.splits)
qed

lemma string_replace_witness:
  "join ''bc'' (pieces ''bc'' (content abc)) = content abc"
  using string_replace [of abc "''bc''" "\<lambda>_. True" "''-''"] by (auto simp: abc_inv)

text \<open>
  \<open>Replace\<close> with an empty needle never returns when memory is granted: \<open>strstr\<close> finds the
  empty string at every position without moving forward, whatever the alternative is.
\<close>

theorem string_replace_empty_needle:
  assumes "str_inv s" "\<forall>n. mem n"
  shows "StringReplace mem s (Some []) (Some alter) = None"
proof -
  have "0 < s_capacity s" using assms by (simp add: str_inv_def)
  then have "0 < s_capacity s \<or> NULL \<noteq> (NULL :: string ptr)" by simp
  from Create_granted [OF this assms(2)] obtain res
    where res: "StringCreateInternal mem (s_capacity s) NULL = Some res" "str_inv res" by blast
  then have "replace_loop mem [] alter res (cstr (s_data s)) \<noteq> Some r" for r
    using replace_loop_empty assms(2) by blast
  then have "replace_loop mem [] alter res (cstr (s_data s)) = None" by (meson option.exhaust)
  with res show ?thesis by (simp add: StringReplace_def)
qed

lemma string_replace_empty_needle_witness:
  "StringReplace (\<lambda>_. True) abc (Some []) (Some ''x'') = None"
  by (rule string_replace_empty_needle) (simp_all add: abc_inv)

text \<open>
  \<open>SelfTrim\<close> removes exactly the blanks (space, tab, CR, LF) at both ends, in place: the
  result is \<open>trim\<close> of the content, empty when everything is blank, and the invariant is kept.
\<close>

theorem string_self_trim:
  assumes "str_inv s" "NUL \<notin> set (content s)"
  shows "str_inv (StringSelfTrim s) \<and> content (StringSelfTrim s) = trim (content s)"
  using assms by (rule SelfTrim_spec)

lemma string_self_trim_witness:
  "content (StringSelfTrim \<lparr>s_data = '' a b '' @ [NUL], s_capacity = 6, s_size = 5\<rparr>) = ''a b''"
  using string_self_trim [of "\<lparr>s_data = '' a b '' @ [NUL], s_capacity = 6, s_size = 5\<rparr>"]
  by (simp add: str_inv_def content_def trim_def rtrim_def SPACES_def)

text \<open>
  \<open>Substring\<close> from an offset inside the string. When \<open>offset + length\<close> does not wrap, the
  result is the substring cut at the end of the source, or NULL if an allocation is refused. When
  the sum wraps (\<open>length = SIZE_MAX\<close> and \<open>offset > 0\<close>) the length is not cut: the block asked for
  has 0 bytes and, if that is granted, the copy leaves both buffers.
\<close>

theorem string_substring:
  assumes "str_inv s" "off < s_size s" "s_size s < 2 ^ 63"
  shows "(off + len < 2 ^ 64 \<longrightarrow>
      (\<exists>r. StringSubstring mem s off len = Inr r \<and>
        (case r of None \<Rightarrow> \<exists>n. \<not> mem n
         | Some t \<Rightarrow> str_inv t \<and> content t = take len (drop off (content s))))) \<and>
    (0 < off \<and> len = 2 ^ 64 - 1 \<and> mem 0 \<and> mem sizeof_String_Internal \<longrightarrow>
      StringSubstring mem s off len = Inl Out_Of_Bounds)"
proof (intro conjI impI)
  assume "off + len < 2 ^ 64"
  then show "\<exists>r. StringSubstring mem s off len = Inr r \<and>
      (case r of None \<Rightarrow> \<exists>n. \<not> mem n
       | Some t \<Rightarrow> str_inv t \<and> content t = take len (drop off (content s)))"
    using assms by (intro Substring_spec)
next
  assume H: "0 < off \<and> len = 2 ^ 64 - 1 \<and> mem 0 \<and> mem sizeof_String_Internal"
  have "(off + (2 ^ 64 - 1)) mod 2 ^ 64 = off - 1"
    using H assms by (simp add: mod_if)
  then show "StringSubstring mem s off len = Inl Out_Of_Bounds"
    using H assms by (auto simp: StringSubstring_def)
qed

lemma string_substring_witness:
  "StringSubstring (\<lambda>_. True) abc 1 (2 ^ 64 - 1) = Inl Out_Of_Bounds"
  using string_substring [of abc 1 "2 ^ 64 - 1" "\<lambda>_. True"] by (simp add: abc_inv)

text \<open>
  \<open>ToLower\<close>, \<open>ToUpper\<close> and \<open>Clone\<close> of one string. With memory granted, \<open>Clone\<close> always gives a
  string with the same content; the two case conversions give the mapped content for a string
  that is not empty, but NULL for an empty one, because a capacity of 0 without content is
  refused by the constructor.
\<close>

theorem string_copies:
  assumes "str_inv s" "\<forall>n. mem n"
  shows "(\<exists>t. StringClone mem s = Some t \<and> str_inv t \<and> content t = content s) \<and>
    (if s_size s = 0 then StringToLower mem s = NULL \<and> StringToUpper mem s = NULL
     else (\<exists>t. StringToLower mem s = Some t \<and> str_inv t \<and> content t = map tolower (content s)) \<and>
       (\<exists>t. StringToUpper mem s = Some t \<and> str_inv t \<and> content t = map toupper (content s)))"
proof (intro conjI)
  show "\<exists>t. StringClone mem s = Some t \<and> str_inv t \<and> content t = content s"
    using Clone_spec [OF assms(1), of mem] assms(2) by (auto split: option.splits)
  show "if s_size s = 0 then StringToLower mem s = NULL \<and> StringToUpper mem s = NULL
     else (\<exists>t. StringToLower mem s = Some t \<and> str_inv t \<and> content t = map tolower (content s)) \<and>
       (\<exists>t. StringToUpper mem s = Some t \<and> str_inv t \<and> content t = map toupper (content s))"
  proof (cases "s_size s = 0")
    case True
    then show ?thesis by (simp add: StringToLower_def StringToUpper_def StringCreateInternal_def)
  next
    case False
    then have pos: "0 < s_size s" and "0 < s_size s \<or> NULL \<noteq> (NULL :: string ptr)" by simp_all
    from Create_granted [OF this(2) assms(2)] obtain r
      where r: "StringCreateInternal mem (s_size s) NULL = Some r" by blast
    from Create_empty [OF pos r] have "str_inv r" "s_size s < s_capacity r" by simp_all
    with map_bytes_spec [OF assms(1)] r False show ?thesis
      by (simp add: StringToLower_def StringToUpper_def)
  qed
qed

lemma string_copies_witness:
  "\<exists>t. StringToUpper (\<lambda>_. True) abc = Some t \<and> str_inv t \<and> content t = ''ABC''"
  using string_copies [of abc "\<lambda>_. True"] by (simp add: abc_inv toupper_def code_def char_of_def)

end
