(* ===== verification/Cmu_Bytes.thy ===== *)
theory Cmu_Bytes
  imports Cmu_Prelude
begin

text \<open>
  \<open>CMUTIL_ByteBuffer\<close> of \<open>src/src/strings.c\<close>. \<open>b_buffer\<close> is the block of \<open>b_capacity\<close> bytes, or NULL
  when the allocation in the constructor, which is not checked, was refused; an access to a NULL
  block is the fault \<open>Null_Deref\<close>. An operation that returns the buffer or NULL is modelled with
  a truth value for the two.
\<close>

section \<open>Data and operations\<close>

type_synonym byte = "8 word"

record bytebuf =
  b_buffer :: "byte list ptr"
  b_size :: nat
  b_capacity :: nat

definition sizeof_ByteBuffer_Internal :: nat where
  "sizeof_ByteBuffer_Internal = 128"

text \<open>\<open>Realloc\<close> of a NULL block is an allocation. Fresh bytes hold 0 here; no result depends on it.\<close>

definition ByteBufferCheckSize :: "alloc \<Rightarrow> bytebuf \<Rightarrow> nat \<Rightarrow> bool \<times> bytebuf" where
  "ByteBufferCheckSize mem bb insize =
     (let reqsz = b_size bb + insize
      in if b_capacity bb < reqsz then
           (let ncapa = grow (if 0 < b_capacity bb then b_capacity bb * 2 else 16) reqsz
            in if \<not> mem ncapa then (False, bb)
               else (True, bb\<lparr>b_buffer := Some (realloc 0 (case b_buffer bb of None \<Rightarrow> [] | Some d \<Rightarrow> d) ncapa),
                              b_capacity := ncapa\<rparr>))
         else (True, bb))"

definition ByteBufferAddByte :: "alloc \<Rightarrow> bytebuf \<Rightarrow> byte \<Rightarrow> fault + (bool \<times> bytebuf)" where
  "ByteBufferAddByte mem buffer b =
     (case ByteBufferCheckSize mem buffer 1 of
        (False, bb) \<Rightarrow> Inr (False, bb)
      | (True, bb) \<Rightarrow>
          (case b_buffer bb of
             None \<Rightarrow> Inl Null_Deref
           | Some d \<Rightarrow> Inr (True, bb\<lparr>b_buffer := Some (d[b_size bb := b]), b_size := b_size bb + 1\<rparr>)))"

definition ByteBufferAddBytesPart ::
  "alloc \<Rightarrow> bytebuf \<Rightarrow> byte list ptr \<Rightarrow> nat \<Rightarrow> nat \<Rightarrow> fault + (bool \<times> bytebuf)" where
  "ByteBufferAddBytesPart mem buffer bytes offset len =
     (case bytes of
        None \<Rightarrow> Inr (False, buffer)
      | Some src \<Rightarrow>
          if 0 < len then
            (case ByteBufferCheckSize mem buffer len of
               (False, bb) \<Rightarrow> Inr (False, bb)
             | (True, bb) \<Rightarrow>
                 (case b_buffer bb of
                    None \<Rightarrow> Inl Null_Deref
                  | Some d \<Rightarrow>
                      Inr (True, bb\<lparr>b_buffer := Some (memcpy d (b_size bb) (take len (drop offset src))),
                                    b_size := b_size bb + len\<rparr>)))
          else Inr (False, buffer))"

definition ByteBufferAddBytes ::
  "alloc \<Rightarrow> bytebuf \<Rightarrow> byte list ptr \<Rightarrow> nat \<Rightarrow> fault + (bool \<times> bytebuf)" where
  "ByteBufferAddBytes mem buffer bytes len = ByteBufferAddBytesPart mem buffer bytes 0 len"

definition ByteBufferInsertBytesAt ::
  "alloc \<Rightarrow> bytebuf \<Rightarrow> nat \<Rightarrow> byte list ptr \<Rightarrow> nat \<Rightarrow> fault + (bool \<times> bytebuf)" where
  "ByteBufferInsertBytesAt mem buffer index bytes len =
     (case bytes of
        None \<Rightarrow> Inr (False, buffer)
      | Some src \<Rightarrow>
          if 0 < len then
            if index > b_size buffer then Inr (False, buffer)
            else if index = b_size buffer then ByteBufferAddBytes mem buffer bytes len
            else
              (case ByteBufferCheckSize mem buffer len of
                 (False, bb) \<Rightarrow> Inr (False, bb)
               | (True, bb) \<Rightarrow>
                   (case b_buffer bb of
                      None \<Rightarrow> Inl Null_Deref
                    | Some d \<Rightarrow>
                        (let d1 = memmove d (index + len) index (b_size bb - index);
                             d2 = memcpy d1 index (take len src)
                         in Inr (True, bb\<lparr>b_buffer := Some d2, b_size := b_size bb + len\<rparr>))))
          else Inr (False, buffer))"

definition ByteBufferInsertByteAt :: "alloc \<Rightarrow> bytebuf \<Rightarrow> nat \<Rightarrow> byte \<Rightarrow> fault + (bool \<times> bytebuf)" where
  "ByteBufferInsertByteAt mem buffer index b = ByteBufferInsertBytesAt mem buffer index (Some [b]) 1"

definition ByteBufferGetAt :: "bytebuf \<Rightarrow> nat \<Rightarrow> fault + int" where
  "ByteBufferGetAt bb index =
     (if index \<ge> b_size bb then Inr (-1)
      else (case b_buffer bb of None \<Rightarrow> Inl Null_Deref | Some d \<Rightarrow> Inr (uint (d ! index))))"

definition ByteBufferGetSize :: "bytebuf \<Rightarrow> nat" where
  "ByteBufferGetSize bb = b_size bb"

definition ByteBufferGetBytes :: "bytebuf \<Rightarrow> byte list ptr" where
  "ByteBufferGetBytes bb = b_buffer bb"

definition ByteBufferShrinkTo :: "bytebuf \<Rightarrow> nat \<Rightarrow> bool \<times> bytebuf" where
  "ByteBufferShrinkTo bb n = (if b_capacity bb < n then (False, bb) else (True, bb\<lparr>b_size := n\<rparr>))"

definition ByteBufferGetCapacity :: "bytebuf \<Rightarrow> nat" where
  "ByteBufferGetCapacity bb = b_capacity bb"

text \<open>What \<open>Destroy\<close> hands to \<open>Free\<close>: the sizes of the blocks.\<close>

definition ByteBufferDestroy :: "bytebuf ptr \<Rightarrow> nat list" where
  "ByteBufferDestroy buffer =
     (case buffer of
        None \<Rightarrow> []
      | Some bb \<Rightarrow>
          (case b_buffer bb of None \<Rightarrow> [] | Some d \<Rightarrow> [length d]) @ [sizeof_ByteBuffer_Internal])"

definition ByteBufferClear :: "bytebuf \<Rightarrow> bytebuf" where
  "ByteBufferClear bb = bb\<lparr>b_size := 0\<rparr>"

definition ByteBufferCreateInternal :: "alloc \<Rightarrow> nat \<Rightarrow> fault + bytebuf" where
  "ByteBufferCreateInternal mem initcapacity =
     (if \<not> mem sizeof_ByteBuffer_Internal then Inl Null_Deref
      else Inr \<lparr>b_buffer = (if mem initcapacity then Some (replicate initcapacity 0) else NULL),
                b_size = 0, b_capacity = initcapacity\<rparr>)"

definition ByteBufferCreateEx :: "alloc \<Rightarrow> nat \<Rightarrow> fault + bytebuf" where
  "ByteBufferCreateEx mem initcapacity = ByteBufferCreateInternal mem initcapacity"

section \<open>Invariant and refinement\<close>

definition bb_inv :: "bytebuf \<Rightarrow> bool" where
  "bb_inv bb \<longleftrightarrow>
     (case b_buffer bb of None \<Rightarrow> False | Some d \<Rightarrow> length d = b_capacity bb) \<and> b_size bb \<le> b_capacity bb"

definition bytes_of :: "bytebuf \<Rightarrow> byte list" where
  "bytes_of bb = take (b_size bb) (case b_buffer bb of None \<Rightarrow> [] | Some d \<Rightarrow> d)"

definition bb_room :: "alloc \<Rightarrow> bytebuf \<Rightarrow> nat \<Rightarrow> bool" where
  "bb_room mem bb n \<longleftrightarrow> b_size bb + n \<le> b_capacity bb \<or>
     mem (grow (if 0 < b_capacity bb then b_capacity bb * 2 else 16) (b_size bb + n))"

lemma bb_invE:
  assumes "bb_inv bb"
  obtains d where "b_buffer bb = Some d" "length d = b_capacity bb" "b_size bb \<le> b_capacity bb"
    "bytes_of bb = take (b_size bb) d"
  using assms by (auto simp: bb_inv_def bytes_of_def split: option.splits)

lemma length_bytes_of [simp]: "bb_inv bb \<Longrightarrow> length (bytes_of bb) = b_size bb"
  by (auto elim!: bb_invE)

lemma bb_CheckSize_spec:
  assumes "bb_inv bb"
  obtains bb' d where "ByteBufferCheckSize mem bb n = (bb_room mem bb n, bb')" "bb_inv bb'"
    "bytes_of bb' = bytes_of bb" "b_size bb' = b_size bb" "b_buffer bb' = Some d"
    "length d = b_capacity bb'" "take (b_size bb) d = bytes_of bb"
    "bb_room mem bb n \<longrightarrow> b_size bb + n \<le> b_capacity bb'"
proof -
  from assms obtain d where d: "b_buffer bb = Some d" "length d = b_capacity bb" "b_size bb \<le> b_capacity bb"
      "bytes_of bb = take (b_size bb) d" by (rule bb_invE)
  define c where "c = grow (if 0 < b_capacity bb then b_capacity bb * 2 else 16) (b_size bb + n)"
  have c: "b_size bb + n \<le> c" unfolding c_def by (rule grow_ge) simp
  show ?thesis
  proof (cases "b_capacity bb < b_size bb + n \<and> mem c")
    case True
    let ?bb = "bb\<lparr>b_buffer := Some (realloc 0 d c), b_capacity := c\<rparr>"
    have eq: "ByteBufferCheckSize mem bb n = (bb_room mem bb n, ?bb)"
      using True d(1) unfolding ByteBufferCheckSize_def bb_room_def Let_def c_def [symmetric] by simp
    show ?thesis
      by (rule that [OF eq, of "realloc 0 d c"]) (use True c d in \<open>simp_all add: bb_inv_def bytes_of_def buf_simps\<close>)
  next
    case False
    then have eq: "ByteBufferCheckSize mem bb n = (bb_room mem bb n, bb)"
      by (auto simp: ByteBufferCheckSize_def bb_room_def Let_def simp flip: c_def)
    show ?thesis
      by (rule that [OF eq assms, of d]) (use False d in \<open>auto simp: bb_room_def simp flip: c_def\<close>)
  qed
qed

text \<open>The state an operation leaves, read back.\<close>

lemma bb_after [simp]:
  "bytes_of (bb\<lparr>b_buffer := Some d, b_size := n\<rparr>) = take n d"
  "bb_inv (bb\<lparr>b_buffer := Some d, b_size := n\<rparr>) \<longleftrightarrow> length d = b_capacity bb \<and> n \<le> b_capacity bb"
  by (simp_all add: bytes_of_def bb_inv_def)

lemma bb_AddByte_spec:
  assumes "bb_inv bb"
  shows "\<exists>ok bb'. ByteBufferAddByte mem bb b = Inr (ok, bb') \<and> bb_inv bb' \<and> ok = bb_room mem bb 1 \<and>
    bytes_of bb' = (if ok then bytes_of bb @ [b] else bytes_of bb)"
proof -
  obtain bb' d where c: "ByteBufferCheckSize mem bb 1 = (bb_room mem bb 1, bb')" "bb_inv bb'"
      "bytes_of bb' = bytes_of bb" "b_size bb' = b_size bb" "b_buffer bb' = Some d"
      "length d = b_capacity bb'" "take (b_size bb) d = bytes_of bb"
      "bb_room mem bb 1 \<longrightarrow> b_size bb + 1 \<le> b_capacity bb'"
    by (rule bb_CheckSize_spec [OF assms, of mem 1])
  then show ?thesis
    by (cases "bb_room mem bb 1") (auto simp: ByteBufferAddByte_def take_update_last)
qed

lemma bb_AddBytesPart_spec:
  assumes "bb_inv bb" "0 < len" "off + len \<le> length src"
  shows "\<exists>ok bb'. ByteBufferAddBytesPart mem bb (Some src) off len = Inr (ok, bb') \<and> bb_inv bb' \<and>
    ok = bb_room mem bb len \<and>
    bytes_of bb' = (if ok then bytes_of bb @ take len (drop off src) else bytes_of bb)"
proof -
  obtain bb' d where c: "ByteBufferCheckSize mem bb len = (bb_room mem bb len, bb')" "bb_inv bb'"
      "bytes_of bb' = bytes_of bb" "b_size bb' = b_size bb" "b_buffer bb' = Some d"
      "length d = b_capacity bb'" "take (b_size bb) d = bytes_of bb"
      "bb_room mem bb len \<longrightarrow> b_size bb + len \<le> b_capacity bb'"
    by (rule bb_CheckSize_spec [OF assms(1), of mem len])
  then show ?thesis using assms
    by (cases "bb_room mem bb len") (auto simp: ByteBufferAddBytesPart_def memcpy_def)
qed

text \<open>
  inserting \<open>len\<close> bytes at \<open>index\<close> (\<open>InsertBytesAt\<close>, which is also \<open>InsertByteAt\<close> and, at the end,
  \<open>AddBytes\<close>). A well-formed buffer never faults and stays well-formed. It is refused for a NULL
  source, no bytes, an index past the end or a refused growth, and then the bytes are unchanged;
  otherwise exactly those bytes stand at the index and the others are shifted.
\<close>

theorem bytes_insert:
  assumes "bb_inv bb" "len \<le> length src"
  shows "\<exists>ok bb'. ByteBufferInsertBytesAt mem bb index (Some src) len = Inr (ok, bb') \<and> bb_inv bb' \<and>
    ok = (0 < len \<and> index \<le> b_size bb \<and> bb_room mem bb len) \<and>
    bytes_of bb' =
      (if ok then take index (bytes_of bb) @ take len src @ drop index (bytes_of bb) else bytes_of bb)"
proof (cases "0 < len \<and> index < b_size bb")
  case False
  then show ?thesis
    using bb_AddBytesPart_spec [OF assms(1), of len 0 src mem] assms
    by (cases "0 < len \<and> index = b_size bb") (auto simp: ByteBufferInsertBytesAt_def ByteBufferAddBytes_def)
next
  case in_range: True
  obtain bb' d where c: "ByteBufferCheckSize mem bb len = (bb_room mem bb len, bb')" "bb_inv bb'"
      "bytes_of bb' = bytes_of bb" "b_size bb' = b_size bb" "b_buffer bb' = Some d"
      "length d = b_capacity bb'" "take (b_size bb) d = bytes_of bb"
      "bb_room mem bb len \<longrightarrow> b_size bb + len \<le> b_capacity bb'"
    by (rule bb_CheckSize_spec [OF assms(1), of mem len])
  show ?thesis
  proof (cases "bb_room mem bb len")
    case True
    let ?n = "b_size bb"
    have room: "?n + len \<le> length d" using c True by simp
    have seg: "take (?n - index) (drop index d) = drop index (bytes_of bb)"
      using c(7) by (simp add: drop_take [symmetric])
    have pre: "take index d = take index (bytes_of bb)"
      using c(7) in_range by (metis less_imp_le min.absorb1 take_take)
    let ?mid = "take index (bytes_of bb) @ take len src @ drop index (bytes_of bb)"
    have d2: "memcpy (memmove d (index + len) index (?n - index)) index (take len src)
        = ?mid @ drop (?n + len) d"
      using in_range room assms seg pre by (simp add: memcpy_def memmove_def add.commute)
    let ?b = "bb'\<lparr>b_buffer := Some (?mid @ drop (?n + len) d), b_size := ?n + len\<rparr>"
    have len: "length ?mid = ?n + len" using in_range assms by simp
    have "take (?n + len) (?mid @ drop (?n + len) d) = ?mid" 
      using len by (metis append_eq_conv_conj)
    moreover have "length (?mid @ drop (?n + len) d) = length d" using len room by (simp only: length_append length_drop)
    ultimately have b: "bytes_of ?b = ?mid" "bb_inv ?b"
      using c(6) room by (simp_all only: bb_after)
    have "ByteBufferInsertBytesAt mem bb index (Some src) len = Inr (True, ?b)"
      using True c in_range by (simp add: ByteBufferInsertBytesAt_def Let_def d2)
    with b True in_range show ?thesis
      by (intro exI [of _ True] exI [of _ ?b]) (simp only: simp_thms if_True less_imp_le)
  next
    case no: False
    with c in_range show ?thesis by (auto simp: ByteBufferInsertBytesAt_def)
  qed
qed

definition buf3 :: bytebuf where
  "buf3 = \<lparr>b_buffer = Some [1, 2, 3, 0], b_size = 3, b_capacity = 4\<rparr>"

lemma buf3_inv: "bb_inv buf3" "bytes_of buf3 = [1, 2, 3]" "b_size buf3 = 3" "b_capacity buf3 = 4"
  by (simp_all add: buf3_def bb_inv_def bytes_of_def)

lemma bytes_insert_witness:
  "\<exists>bb'. ByteBufferInsertBytesAt (\<lambda>_. True) buf3 1 (Some [7, 8]) 2 = Inr (True, bb') \<and>
     bytes_of bb' = [1, 7, 8, 2, 3]"
  using bytes_insert [OF buf3_inv(1), where len = 2 and src = "[7, 8]" and mem = "\<lambda>_. True" and index = 1]
  by (auto simp: buf3_inv bb_room_def)

section \<open>A buffer as a sequence of appends\<close>

definition bb_append :: "alloc \<Rightarrow> bytebuf \<Rightarrow> byte list \<Rightarrow> bytebuf option" where
  "bb_append mem bb bs =
     (if bs = [] then Some bb
      else (case ByteBufferAddBytes mem bb (Some bs) (length bs) of
              Inr (True, bb') \<Rightarrow> Some bb'
            | _ \<Rightarrow> None))"

interpretation bb: appender bb_inv bytes_of "bb_append mem" for mem
proof
  fix bb xs bb'
  assume "bb_inv bb" "bb_append mem bb xs = Some bb'"
  then show "bb_inv bb' \<and> bytes_of bb' = bytes_of bb @ xs"
    using bb_AddBytesPart_spec [of bb "length xs" 0 xs mem]
    by (auto simp: bb_append_def ByteBufferAddBytes_def split: if_splits sum.splits bool.splits)
qed

text \<open>
  a byte buffer is the concatenation of what is added: from an empty buffer, any sequence of
  \<open>AddBytes\<close> that all succeed leaves exactly the added bytes in order, \<open>GetAt\<close> reads each of them
  back and answers -1 past the end, and \<open>ShrinkTo\<close> a smaller size keeps the prefix.
\<close>

theorem bytes_append_read:
  assumes "ByteBufferCreateEx mem cap = Inr bb0" "mem cap" "bb.add_all mem bb0 xss = Some bb"
  shows "bb_inv bb \<and> bytes_of bb = concat xss \<and>
    ByteBufferGetAt bb i = Inr (if i < length (concat xss) then uint (concat xss ! i) else -1) \<and>
    (n \<le> length (concat xss) \<longrightarrow> bytes_of (snd (ByteBufferShrinkTo bb n)) = take n (concat xss))"
proof -
  have "bb_inv bb0" "bytes_of bb0 = []"
    using assms(1,2)
    by (auto simp: ByteBufferCreateEx_def ByteBufferCreateInternal_def bb_inv_def bytes_of_def split: if_splits)
  with bb.add_all_seq [OF this(1) assms(3)] have bb: "bb_inv bb" "bytes_of bb = concat xss" by auto
  from bb(1) obtain d where d: "b_buffer bb = Some d" "length d = b_capacity bb" "b_size bb \<le> b_capacity bb"
      "bytes_of bb = take (b_size bb) d" by (rule bb_invE)
  have len: "length (concat xss) = b_size bb" using bb length_bytes_of by metis
  have "ByteBufferGetAt bb i = Inr (if i < length (concat xss) then uint (concat xss ! i) else -1)"
    using d(1) len by (simp add: ByteBufferGetAt_def flip: bb(2)) (simp add: d)
  moreover have "n \<le> length (concat xss) \<longrightarrow> bytes_of (snd (ByteBufferShrinkTo bb n)) = take n (concat xss)"
    using d len by (auto simp: ByteBufferShrinkTo_def bytes_of_def min_absorb1 simp flip: bb(2))
  ultimately show ?thesis using bb by blast
qed

lemma bytes_append_read_witness:
  "bytes_of (the (bb.add_all (\<lambda>_. True) \<lparr>b_buffer = Some [], b_size = 0, b_capacity = 0\<rparr> [[1, 2], [3]])) = [1, 2, 3]"
proof -
  let ?b = "\<lparr>b_buffer = Some [], b_size = 0, b_capacity = 0\<rparr>"
  have "ByteBufferCreateEx (\<lambda>_. True) 0 = Inr ?b"
    by (simp add: ByteBufferCreateEx_def ByteBufferCreateInternal_def)
  moreover have "bb.add_all (\<lambda>_. True) ?b [[1, 2], [3]] = Some (the (bb.add_all (\<lambda>_. True) ?b [[1, 2], [3]]))"
    by (simp add: bb_append_def ByteBufferAddBytes_def ByteBufferAddBytesPart_def
        ByteBufferCheckSize_def Let_def split: prod.splits)
  ultimately show ?thesis using bytes_append_read [of "\<lambda>_. True" 0 ?b "[[1, 2], [3]]"] by simp
qed

end
