(* ===== verification/Cmu_Text.thy ===== *)
theory Cmu_Text
  imports Cmu_Array Cmu_String
begin

text \<open>
  The rest of \<open>src/src/strings.c\<close>: \<open>CMUTIL_StringArray\<close> over an unsorted array of strings, and the
  stand-alone text functions (trimming in place, splitting, tokens, hexadecimal digits). A
  \<open>char*\<close> that a function writes through is the list of its cells, the terminator included. A call
  through a NULL object is the fault \<open>Null_Deref\<close>.
\<close>

unbundle bit_operations_syntax

section \<open>Arrays of strings\<close>

type_synonym string_array = "cstring arr"

definition sizeof_StringArray_Internal :: nat where
  "sizeof_StringArray_Internal = 120"

definition StringArrayAdd :: "alloc \<Rightarrow> string_array \<Rightarrow> cstring ptr \<Rightarrow> string_array" where
  "StringArrayAdd mem a str = snd (ArrayAdd mem a str False)"

definition StringArrayAddCString :: "alloc \<Rightarrow> string_array \<Rightarrow> string ptr \<Rightarrow> string_array" where
  "StringArrayAddCString mem a str = StringArrayAdd mem a (StringCreateEx mem 0 str)"

definition StringArrayInsertAt :: "alloc \<Rightarrow> string_array \<Rightarrow> cstring ptr \<Rightarrow> nat \<Rightarrow> bool \<times> string_array" where
  "StringArrayInsertAt mem a str index =
     (case ArrayInsertAt mem a str index of (r, a') \<Rightarrow> (r \<noteq> NULL, a'))"

text \<open>When the insertion is refused the new string is destroyed, through NULL if it was not created.\<close>

definition StringArrayInsertAtCString ::
  "alloc \<Rightarrow> string_array \<Rightarrow> string ptr \<Rightarrow> nat \<Rightarrow> fault + (bool \<times> string_array)" where
  "StringArrayInsertAtCString mem a str index =
     (let data = StringCreateEx mem 0 str
      in case StringArrayInsertAt mem a data index of
           (True, a') \<Rightarrow> Inr (True, a')
         | (False, a') \<Rightarrow> if data = NULL then Inl Null_Deref else Inr (False, a'))"

definition StringArrayRemoveAt :: "string_array \<Rightarrow> nat \<Rightarrow> cstring ptr \<times> string_array" where
  "StringArrayRemoveAt a index = ArrayRemoveAt a index"

definition StringArraySetAt :: "string_array \<Rightarrow> cstring ptr \<Rightarrow> nat \<Rightarrow> cstring ptr \<times> string_array" where
  "StringArraySetAt a str index = ArraySetAt a str index"

definition StringArraySetAtCString ::
  "alloc \<Rightarrow> string_array \<Rightarrow> string ptr \<Rightarrow> nat \<Rightarrow> fault + (cstring ptr \<times> string_array)" where
  "StringArraySetAtCString mem a str index =
     (let data = StringCreateEx mem 0 str
      in case StringArraySetAt a data index of
           (res, a') \<Rightarrow> if res = NULL \<and> data = NULL then Inl Null_Deref else Inr (res, a'))"

definition StringArrayGetAt :: "string_array \<Rightarrow> nat \<Rightarrow> cstring ptr" where
  "StringArrayGetAt a index = ArrayGetAt a index"

definition StringArrayGetCString :: "string_array \<Rightarrow> nat \<Rightarrow> char list ptr" where
  "StringArrayGetCString a index = map_option StringGetCString (StringArrayGetAt a index)"

definition StringArrayGetSize :: "string_array \<Rightarrow> nat" where
  "StringArrayGetSize a = ArrayGetSize a"

definition StringArrayIterator :: "string_array \<Rightarrow> string_array \<times> nat" where
  "StringArrayIterator a = (a, 0)"

text \<open>\<open>Destroy\<close>: the strings destroyed, last to first.\<close>

function StringArrayDestroy :: "string_array \<Rightarrow> fault + cstring list" where
  "StringArrayDestroy a =
     (if 0 < ArrayGetSize a then
        (case ArrayPop a of
           (None, a') \<Rightarrow> Inl Null_Deref
         | (Some item, a') \<Rightarrow> map_sum id (\<lambda>rest. item # rest) (StringArrayDestroy a'))
      else Inr [])"
  by pat_completeness auto
termination
  by (relation "measure a_size") (auto simp: ArrayGetSize_def ArrayPop_def ArrayRemoveAt_def split: if_splits)

declare StringArrayDestroy.simps [simp del]

text \<open>\<open>PrintTo\<close>: the loop from index \<open>i\<close> with \<open>n\<close> items left; the results of the appends are ignored.\<close>

fun print_items :: "alloc \<Rightarrow> string_array \<Rightarrow> nat \<Rightarrow> nat \<Rightarrow> cstring \<Rightarrow> cstring" where
  "print_items mem a i 0 out = out"
| "print_items mem a i (Suc n) out =
     (let out1 = (if 0 < i then snd (StringAddString mem out (Some '', '')) else out);
          out2 = snd (StringAddAnother mem out1 (StringArrayGetAt a i))
      in print_items mem a (Suc i) n out2)"

definition StringArrayPrintTo :: "alloc \<Rightarrow> string_array \<Rightarrow> cstring \<Rightarrow> cstring" where
  "StringArrayPrintTo mem a out =
     (let out1 = snd (StringAddString mem out (Some ''[''));
          out2 = print_items mem a 0 (ArrayGetSize a) out1
      in snd (StringAddChar mem out2 (CHR '']'')))"

text \<open>
  Neither allocation is checked: a refused struct is a write through NULL here, a refused array a
  call through NULL in whatever operation comes next.
\<close>

definition StringArrayCreateInternal :: "alloc \<Rightarrow> nat \<Rightarrow> fault + string_array ptr" where
  "StringArrayCreateInternal mem initcapacity =
     (if \<not> mem sizeof_StringArray_Internal then Inl Null_Deref
      else Inr (ArrayCreateInternal mem initcapacity None False False))"

definition StringArrayCreateEx :: "alloc \<Rightarrow> nat \<Rightarrow> fault + string_array ptr" where
  "StringArrayCreateEx mem initcapacity = StringArrayCreateInternal mem initcapacity"

definition StringArrayCreateWithEx :: "alloc \<Rightarrow> string list \<Rightarrow> fault + string_array ptr" where
  "StringArrayCreateWithEx mem strs =
     (case StringArrayCreateInternal mem 5 of
        Inl e \<Rightarrow> Inl e
      | Inr None \<Rightarrow> if strs = [] then Inr NULL else Inl Null_Deref
      | Inr (Some a) \<Rightarrow> Inr (Some (fold (\<lambda>str a. StringArrayAddCString mem a (Some str)) strs a)))"

section \<open>Trimming a buffer in place\<close>

definition StrRTrim :: "char list ptr \<Rightarrow> char list ptr" where
  "StrRTrim inp =
     (case inp of
        None \<Rightarrow> NULL
      | Some d \<Rightarrow>
          (let len = length (cstr d)
           in if len = 0 then Some d else Some (d[rtrim_len d len := NUL])))"

text \<open>\<open>while (*q) *p++ = *q++; *p = 0\<close>.\<close>

function copy_down :: "char list \<Rightarrow> nat \<Rightarrow> nat \<Rightarrow> char list" where
  "copy_down d p q =
     (if q < length d \<and> d ! q \<noteq> NUL then copy_down (d[p := d ! q]) (Suc p) (Suc q) else d[p := NUL])"
  by pat_completeness auto
termination
  by (relation "measure (\<lambda>(d, p, q). length d - q)") auto

declare copy_down.simps [simp del]

definition StrLTrim :: "char list ptr \<Rightarrow> char list ptr" where
  "StrLTrim inp =
     (case inp of None \<Rightarrow> NULL | Some d \<Rightarrow> Some (copy_down d 0 (skip_len SPACES d)))"

definition StrTrim :: "char list ptr \<Rightarrow> char list ptr" where
  "StrTrim inp = StrLTrim (StrRTrim inp)"

section \<open>Splitting and tokens\<close>

text \<open>
  One token: a fresh string with the \<open>len\<close> bytes at \<open>p\<close>, trimmed. \<open>q\<close> of the code is the result of
  the search, done only for a needle that is not empty.
\<close>

definition split_token :: "alloc \<Rightarrow> string \<Rightarrow> nat \<Rightarrow> cstring ptr" where
  "split_token mem p len =
     (case StringCreateInternal mem (len + 1) NULL of
        None \<Rightarrow> NULL
      | Some str \<Rightarrow>
          Some (StringSelfTrim (if 0 < len then snd (StringAddNString mem str (Some p) len) else str)))"

function split_loop :: "alloc \<Rightarrow> string \<Rightarrow> string \<Rightarrow> string_array \<Rightarrow> string_array ptr" where
  "split_loop mem needle p res =
     (case (if 0 < length needle then strstr p needle else None) of
        Some len \<Rightarrow>
          (case split_token mem p len of
             None \<Rightarrow> NULL
           | Some str \<Rightarrow>
               split_loop mem needle (drop (len + length needle) p) (StringArrayAdd mem res (Some str)))
      | None \<Rightarrow>
          (case split_token mem p (length p) of
             None \<Rightarrow> NULL
           | Some str \<Rightarrow> Some (StringArrayAdd mem res (Some str))))"
  by pat_completeness auto
termination
  by (relation "measure (\<lambda>(mem, needle, p, res). length p)")
    (auto split: if_splits dest: strstr_drop_less)

declare split_loop.simps [simp del]

definition StringSplitInternal :: "alloc \<Rightarrow> string ptr \<Rightarrow> string ptr \<Rightarrow> fault + string_array ptr" where
  "StringSplitInternal mem haystack needle =
     (case (haystack, needle) of
        (Some h, Some n) \<Rightarrow>
          (case StringArrayCreateInternal mem 5 of
             Inl e \<Rightarrow> Inl e
           | Inr None \<Rightarrow> Inl Null_Deref
           | Inr (Some res) \<Rightarrow> Inr (split_loop mem n h res))
      | _ \<Rightarrow> Inr NULL)"

definition StringSplit :: "alloc \<Rightarrow> string ptr \<Rightarrow> string ptr \<Rightarrow> fault + string_array ptr" where
  "StringSplit mem haystack needle = StringSplitInternal mem haystack needle"

text \<open>The token and the rest of the source; \<open>room\<close> counts the free bytes before the terminator's.\<close>

fun token_loop :: "string \<Rightarrow> nat \<Rightarrow> string \<Rightarrow> string \<times> string" where
  "token_loop delim n [] = ([], [])"
| "token_loop delim n (c # cs) =
     (if \<not> strchr delim c \<and> 0 < n
      then (case token_loop delim (n - 1) cs of (tok, rest) \<Rightarrow> (c # tok, rest))
      else ([], c # cs))"

definition StrNextToken ::
  "char list ptr \<Rightarrow> nat \<Rightarrow> string ptr \<Rightarrow> string ptr \<Rightarrow> string ptr \<times> char list ptr" where
  "StrNextToken dest buflen src delim =
     (case (dest, src, delim) of
        (Some d, Some s, Some dl) \<Rightarrow>
          if 0 < buflen then
            (case token_loop dl (buflen - 1) s of (tok, rest) \<Rightarrow> (Some rest, Some (memcpy d 0 (tok @ [NUL]))))
          else (NULL, dest)
      | _ \<Rightarrow> (NULL, dest))"

fun StrSkipSpaces :: "string \<Rightarrow> string \<Rightarrow> string" where
  "StrSkipSpaces [] spaces = []"
| "StrSkipSpaces (c # cs) spaces = (if strchr spaces c then StrSkipSpaces cs spaces else c # cs)"

section \<open>Hexadecimal digits\<close>

definition StringHexChar :: "char \<Rightarrow> int" where
  "StringHexChar inp =
     (let ic = code (toupper inp)
      in if code (CHR ''A'') \<le> ic \<and> ic \<le> code (CHR ''F'') then 10 + (ic - code (CHR ''A''))
         else if code (CHR ''0'') \<le> ic \<and> ic \<le> code (CHR ''9'') then ic - code (CHR ''0'')
         else -1)"

text \<open>
  The loop over pairs, from the rest of the source (a C string: reading past its last character
  reads the terminator, which is no digit) with \<open>len\<close> characters left. \<open>w\<close> are the bytes written.
\<close>

fun hd_or_NUL :: "string \<Rightarrow> char" where
  "hd_or_NUL [] = NUL"
| "hd_or_NUL (c # cs) = c"

function hex_loop :: "string \<Rightarrow> int \<Rightarrow> 8 word list \<Rightarrow> int \<times> 8 word list" where
  "hex_loop src len w =
     (if 0 < len then
        (if hd_or_NUL src \<noteq> NUL then
           (let c1 = StringHexChar (hd_or_NUL src)
            in if c1 < 0 then (-1, w)
               else
                 (let hi = push_bit 4 (word_of_int c1 AND 0xF);
                      c2 = StringHexChar (hd_or_NUL (tl src))
                  in if c2 < 0 then (-1, w @ [hi])
                     else hex_loop (tl (tl src)) (len - 2) (w @ [hi OR (word_of_int c2 AND 0xF)])))
         else hex_loop src (len - 2) (w @ [0xFF]))
      else (int (length w), w))"
  by pat_completeness auto
termination
  by (relation "measure (\<lambda>(src, len, w). nat len)") auto

declare hex_loop.simps [simp del]

text \<open>The result and the bytes written to the front of \<open>dest\<close>.\<close>

definition StringHexToBytes :: "string \<Rightarrow> int \<Rightarrow> int \<times> 8 word list" where
  "StringHexToBytes src len =
     (if len mod 2 \<noteq> 0 then
        (let ctob = StringHexChar (hd_or_NUL src)
         in if ctob < 0 then (-1, [])
            else hex_loop (tl src) (len - 1) [word_of_int ctob AND 0xF])
      else hex_loop src len [])"

section \<open>Lemmas\<close>

lemma copy_down_spec:
  "p \<le> q \<Longrightarrow> NUL \<in> set (drop q d) \<Longrightarrow>
    \<exists>rest. copy_down d p q = take p d @ cstr (drop q d) @ NUL # rest"
proof (induction d p q rule: copy_down.induct)
  case (1 d p q)
  have q: "q < length d" using "1.prems" by (cases "q < length d") auto
  then have dq: "drop q d = d ! q # drop (Suc q) d" by (simp add: Cons_nth_drop_Suc)
  show ?case
  proof (cases "d ! q = NUL")
    case True
    with dq have "cstr (drop q d) = []" by (simp add: cstr_def)
    with True q "1.prems" show ?thesis
      by (subst copy_down.simps) (simp add: upd_conv_take_nth_drop)
  next
    case False
    with dq "1.prems" 1(1) [of] q obtain rest where
      "copy_down (d[p := d ! q]) (Suc p) (Suc q)
        = take (Suc p) (d[p := d ! q]) @ cstr (drop (Suc q) (d[p := d ! q])) @ NUL # rest"
      by auto
    with False q dq "1.prems" show ?thesis
      by (subst copy_down.simps) (simp add: cstr_def take_update_last)
  qed
qed

lemma drop_blanks: "cstr (drop (skip_len SPACES d) d) = dropWhile blank (cstr d)"
  unfolding skip_len_spec by (induction d) (auto simp: cstr_def SPACES_def)

lemma NUL_after_blanks: "NUL \<in> set d \<Longrightarrow> NUL \<in> set (drop (skip_len SPACES d) d)"
  unfolding skip_len_spec by (induction d) (auto simp: SPACES_def)

lemma LTrim_spec: "NUL \<in> set d \<Longrightarrow> \<exists>d'. StrLTrim (Some d) = Some d' \<and> cstr d' = dropWhile blank (cstr d)"
  using copy_down_spec [OF _ NUL_after_blanks, of 0 d]
  by (auto simp: StrLTrim_def drop_blanks cstr_append_NUL simp del: skip_len.simps)
    (metis NUL_not_in_cstr cstr_append_NUL drop_blanks)

lemma length_cstr: "NUL \<in> set d \<Longrightarrow> length (cstr d) < length d"
  by (induction d) (auto simp: cstr_def)

lemma RTrim_spec:
  assumes "NUL \<in> set d"
  shows "\<exists>d'. StrRTrim (Some d) = Some d' \<and> NUL \<in> set d' \<and>
    cstr d' = take (max 1 (length (rtrim (cstr d)))) (cstr d)"
proof (cases "cstr d = []")
  case True
  with assms show ?thesis by (simp add: StrRTrim_def)
next
  case False
  define n where "n = length (cstr d)"
  have pre: "cstr d = take n d"
    by (simp add: n_def cstr_def) (metis takeWhile_eq_take)
  have n: "0 < n" "n < length d"
    using False length_cstr [OF assms] by (auto simp: n_def)
  define r where "r = rtrim_len d n"
  have r: "r = max 1 (length (rtrim (cstr d)))"
    using rtrim_len_spec [of n d] n NUL_not_in_cstr [of d] by (simp add: r_def pre)
  have "r \<le> n" using r n(1) rtrim_le [of "cstr d"] by (simp add: n_def Suc_le_eq)
  then have d': "d[r := NUL] = take r (cstr d) @ NUL # drop (Suc r) d"
    using n by (simp add: upd_conv_take_nth_drop pre min_absorb1)
  have "NUL \<notin> set (take r (cstr d))" using NUL_not_in_cstr [of d] by (auto dest: in_set_takeD)
  then have "cstr (d[r := NUL]) = take r (cstr d)" unfolding d' by (rule cstr_append_NUL)
  moreover have "NUL \<in> set (d[r := NUL])" unfolding d' by simp
  ultimately show ?thesis
    using False r n(1) by (simp add: StrRTrim_def Let_def flip: n_def) (simp add: flip: r_def r)
qed

lemma token_loop_spec:
  "token_loop delim n s = (tok, rest) \<Longrightarrow>
    s = tok @ rest \<and> length tok \<le> n \<and> (\<forall>c\<in>set tok. \<not> strchr delim c) \<and>
    (rest = [] \<or> strchr delim (hd rest) \<or> length tok = n)"
  by (induction delim n s arbitrary: tok rest rule: token_loop.induct)
    (auto split: if_splits prod.splits)

text \<open>Splitting with memory granted.\<close>

lemma StringArrayAdd_granted:
  assumes "unsorted_inv a" "\<forall>n. mem n"
  shows "unsorted_inv (StringArrayAdd mem a str) \<and> items (StringArrayAdd mem a str) = items a @ [str]"
proof -
  have a: "arr_inv a" "\<not> a_sorted a" using assms by (simp_all add: unsorted_inv_def)
  have "fst (ArrayCheckSize mem a 1)" using assms(2) by (simp add: ArrayCheckSize_def Let_def)
  with Add_unsorted [OF a, of mem str False] a show ?thesis
    by (simp add: StringArrayAdd_def unsorted_inv_def same_kind_def)
qed

lemma split_token_granted:
  assumes "\<forall>n. mem n" "len \<le> length p" "NUL \<notin> set p"
  shows "\<exists>str. split_token mem p len = Some str \<and> str_inv str \<and> content str = trim (take len p)"
proof -
  have "0 < len + 1 \<or> NULL \<noteq> (NULL :: string ptr)" by simp
  from Create_granted [OF this assms(1)] obtain str where
    s: "StringCreateInternal mem (len + 1) NULL = Some str" "str_inv str" "content str = []"
    by auto
  define str' where "str' = (if 0 < len then snd (StringAddNString mem str (Some p) len) else str)"
  have "str_inv str' \<and> content str' = take len p"
    using AddNString_spec [OF s(2) assms(2), of mem] s assms(1)
    by (auto simp: str'_def room_def split: prod.splits)
  moreover have "NUL \<notin> set (take len p)" using assms(3) by (meson in_set_takeD)
  ultimately have "str_inv (StringSelfTrim str') \<and> content (StringSelfTrim str') = trim (take len p)"
    using SelfTrim_spec [of str'] by simp
  with s(1) show ?thesis by (simp add: split_token_def str'_def)
qed

lemma split_loop_granted:
  "\<forall>n. mem n \<Longrightarrow> NUL \<notin> set p \<Longrightarrow> unsorted_inv res \<Longrightarrow>
    \<exists>a strs. split_loop mem needle p res = Some a \<and> unsorted_inv a \<and>
      items a = items res @ map Some strs \<and> (\<forall>s\<in>set strs. str_inv s) \<and>
      map content strs = map trim (pieces needle p)"
proof (induction mem needle p res rule: split_loop.induct)
  case (1 mem needle p res)
  define q where "q = (if 0 < length needle then strstr p needle else None)"
  show ?case
  proof (cases q)
    case None
    then have pc: "pieces needle p = [p]"
      by (subst pieces.simps) (auto simp: q_def split: if_splits option.splits)
    obtain str where "split_token mem p (length p) = Some str" "str_inv str" "content str = trim p"
      using split_token_granted [of mem "length p" p] "1.prems" by auto
    with None pc StringArrayAdd_granted [OF "1.prems"(3,1), of "Some str"] show ?thesis
      by (subst split_loop.simps, intro exI [of _ "StringArrayAdd mem res (Some str)"] exI [of _ "[str]"])
        (simp add: q_def)
  next
    case (Some len)
    then have ne: "0 < length needle" and st: "strstr p needle = Some len" by (auto simp: q_def split: if_splits)
    then have le: "len \<le> length p" using strstr_SomeD [OF st] by simp
    obtain str where s: "split_token mem p len = Some str" "str_inv str" "content str = trim (take len p)"
      using split_token_granted [OF "1.prems"(1) le "1.prems"(2)] by auto
    let ?p = "drop (len + length needle) p"
    have "NUL \<notin> set ?p" using "1.prems"(2) by (meson in_set_dropD)
    from "1.IH" [OF _ s(1) "1.prems"(1) this, of] Some StringArrayAdd_granted [OF "1.prems"(3,1), of "Some str"]
    obtain a strs where r: "split_loop mem needle ?p (StringArrayAdd mem res (Some str)) = Some a"
      "unsorted_inv a" "items a = items res @ map Some (str # strs)" "\<forall>s\<in>set strs. str_inv s"
      "map content strs = map trim (pieces needle ?p)"
      by (auto simp: q_def)
    have "pieces needle p = take len p # pieces needle ?p"
      using st ne by (subst pieces.simps) simp
    moreover have "split_loop mem needle p res = Some a"
      using st ne s(1) r(1) by (subst split_loop.simps) simp
    ultimately show ?thesis
      using r s by (intro exI [of _ a] exI [of _ "str # strs"]) simp
  qed
qed

definition hex_digit :: "nat \<Rightarrow> char" where
  "hex_digit n = ''0123456789ABCDEF'' ! n"

definition hex_encode :: "8 word list \<Rightarrow> string" where
  "hex_encode bs = concat (map (\<lambda>b. [hex_digit (unat b div 16), hex_digit (unat b mod 16)]) bs)"

lemma hex_digit_value: "n < 16 \<Longrightarrow> StringHexChar (hex_digit n) = int n \<and> hex_digit n \<noteq> NUL"
proof -
  have "\<forall>n\<in>set [0..<16]. StringHexChar (hex_digit n) = int n \<and> hex_digit n \<noteq> NUL"
    by code_simp
  then show "n < 16 \<Longrightarrow> ?thesis" by simp
qed

lemma nibbles:
  "push_bit 4 (word_of_int (int (unat b div 16)) AND 0xF) OR (word_of_int (int (unat b mod 16)) AND 0xF) = (b :: 8 word)"
proof -
  have small: "unat b div 16 < 256" "unat b mod 16 < 256"
    using unsigned_less [where w = b and ?'a = nat] by auto
  have hi: "word_of_int (int (unat b div 16)) = drop_bit 4 b"
  proof (subst word_unat_eq_iff)
    have "unat (drop_bit 4 b) = unat b div 16"
      by (rule trans [OF unat_drop_bit_eq]) (simp add: drop_bit_eq_div)
    with small show "unat (word_of_int (int (unat b div 16)) :: 8 word) = unat (drop_bit 4 b)"
      by (simp only: of_int_of_nat_eq unsigned_of_nat) (simp add: take_bit_nat_eq_self)
  qed
  have lo: "word_of_int (int (unat b mod 16)) = take_bit 4 b"
  proof (subst word_unat_eq_iff)
    have "unat (take_bit 4 b) = unat b mod 16"
      by (rule trans [OF unsigned_take_bit_eq]) (simp add: take_bit_eq_mod)
    with small show "unat (word_of_int (int (unat b mod 16)) :: 8 word) = unat (take_bit 4 b)"
      by (simp only: of_int_of_nat_eq unsigned_of_nat) (simp add: take_bit_nat_eq_self)
  qed
  have m: "(0xF :: 8 word) = mask 4" by (simp add: mask_eq_exp_minus_1)
  show ?thesis
    unfolding hi lo m by (rule bit_word_eqI) (auto simp: bit_simps)
qed

lemma hex_loop_encode: "hex_loop (hex_encode bs @ t) (2 * int (length bs)) w = (int (length (w @ bs)), w @ bs)"
proof (induction bs arbitrary: w)
  case Nil
  then show ?case by (simp add: hex_loop.simps)
next
  case (Cons b bs)
  have lt: "unat b div 16 < 16" "unat b mod 16 < 16" using unsigned_less [where w = b and ?'a = nat] by auto
  note d = hex_digit_value [OF lt(1)] hex_digit_value [OF lt(2)]
  have enc: "hex_encode (b # bs) = hex_digit (unat b div 16) # hex_digit (unat b mod 16) # hex_encode bs"
    by (simp add: hex_encode_def)
  show ?case
    using d Cons [of "w @ [b]"] nibbles [of b] unfolding enc
    by (subst hex_loop.simps) (simp add: Let_def)
qed

section \<open>The text left by the trimming functions\<close>

text \<open>The text of \<open>CMUTIL_StrRTrim\<close> and \<open>CMUTIL_StrTrim\<close> on a buffer that holds \<open>s\<close>.\<close>

definition rtrimmed :: "string \<Rightarrow> string" where
  "rtrimmed s = (case StrRTrim (Some (s @ [NUL])) of None \<Rightarrow> [] | Some d \<Rightarrow> cstr d)"

definition trimmed :: "string \<Rightarrow> string" where
  "trimmed s = (case StrTrim (Some (s @ [NUL])) of None \<Rightarrow> [] | Some d \<Rightarrow> cstr d)"

lemma rtrimmed_eq: "NUL \<notin> set s \<Longrightarrow> rtrim s \<noteq> [] \<Longrightarrow> rtrimmed s = rtrim s"
proof -
  assume s: "NUL \<notin> set s" "rtrim s \<noteq> []"
  have "NUL \<in> set (s @ [NUL])" by simp
  from RTrim_spec [OF this] obtain d where "StrRTrim (Some (s @ [NUL])) = Some d"
      "cstr d = take (max 1 (length (rtrim s))) s"
    using s(1) by (auto simp: cstr_append_NUL)
  moreover have "max 1 (length (rtrim s)) = length (rtrim s)" using s(2) by (simp add: max_def Suc_le_eq)
  then have "take (max 1 (length (rtrim s))) s = rtrim s" using rtrim_prefix [of s] by metis
  ultimately show ?thesis by (simp add: rtrimmed_def)
qed

lemma trimmed_eq: "NUL \<notin> set s \<Longrightarrow> trimmed s = trim s"
proof -
  assume s: "NUL \<notin> set s"
  have "NUL \<in> set (s @ [NUL])" by simp
  from RTrim_spec [OF this] obtain r where r: "StrRTrim (Some (s @ [NUL])) = Some r" "NUL \<in> set r"
      "cstr r = take (max 1 (length (rtrim s))) s"
    using s by (auto simp: cstr_append_NUL)
  from LTrim_spec [OF r(2)] obtain t where "StrLTrim (Some r) = Some t" "cstr t = dropWhile blank (cstr r)"
    by blast
  then show ?thesis using r by (simp only: trimmed_def StrTrim_def option.case trim_take)
qed

section \<open>Properties\<close>

text \<open>
  splitting a text, memory granted: one string per piece between the leftmost occurrences of
  the needle (the whole text for an empty needle), in order, each one trimmed. The pieces put
  together with the needle are the text, so no part of it is lost but the blanks.
\<close>

theorem string_split:
  assumes "\<forall>n. mem n" "NUL \<notin> set haystack"
  shows "\<exists>a strs. StringSplit mem (Some haystack) (Some needle) = Inr (Some a) \<and>
    items a = map Some strs \<and> (\<forall>s\<in>set strs. str_inv s) \<and>
    map content strs = map trim (pieces needle haystack) \<and>
    join needle (pieces needle haystack) = haystack"
proof -
  obtain res where res: "ArrayCreateInternal mem 5 None False False = Some res"
      "unsorted_inv (res :: string_array)" "items res = []"
    using assms(1) by (simp add: ArrayCreateInternal_def unsorted_inv_def arr_inv_def items_def)
  from split_loop_granted [OF assms res(2), of needle] obtain a strs where
    "split_loop mem needle haystack res = Some a" "items a = map Some strs" "\<forall>s\<in>set strs. str_inv s"
    "map content strs = map trim (pieces needle haystack)"
    using res(3) by auto
  moreover have "StringSplit mem (Some haystack) (Some needle) = Inr (split_loop mem needle haystack res)"
    using assms(1) res(1) by (simp add: StringSplit_def StringSplitInternal_def StringArrayCreateInternal_def)
  ultimately show ?thesis by (auto simp: join_pieces)
qed

lemma string_split_witness:
  "\<exists>a x y. StringSplit (\<lambda>_. True) (Some ''a, b'') (Some '','') = Inr (Some a) \<and>
     items a = [Some x, Some y] \<and> content x = ''a'' \<and> content y = ''b''"
proof -
  have "pieces '','' ''a, b'' = [''a'', '' b'']" by (simp add: pieces.simps [of "'',''"])
  then show ?thesis
    using string_split [of "\<lambda>_. True" "''a, b''" "'',''"]
    by (auto simp: trim_def rtrim_def SPACES_def)
qed

text \<open>
  trimming a character buffer in place. \<open>StrTrim\<close> leaves the text without its leading and trailing
  blanks and \<open>StrLTrim\<close> without the leading ones; \<open>StrRTrim\<close> removes the trailing blanks except
  that a text of blanks only keeps its first one.
\<close>

theorem str_trim_in_place:
  assumes "NUL \<in> set d"
  shows "\<exists>t l r. StrTrim (Some d) = Some t \<and> cstr t = trim (cstr d) \<and>
    StrLTrim (Some d) = Some l \<and> cstr l = dropWhile blank (cstr d) \<and>
    StrRTrim (Some d) = Some r \<and>
    cstr r = (if rtrim (cstr d) = [] then take 1 (cstr d) else rtrim (cstr d))"
proof -
  obtain r where r: "StrRTrim (Some d) = Some r" "NUL \<in> set r"
      "cstr r = take (max 1 (length (rtrim (cstr d)))) (cstr d)"
    using RTrim_spec [OF assms] by blast
  obtain t where "StrLTrim (Some r) = Some t" "cstr t = dropWhile blank (cstr r)"
    using LTrim_spec [OF r(2)] by blast
  moreover have "cstr t = trim (cstr d)" using calculation r(3) by (simp only: trim_take)
  moreover have "cstr r = (if rtrim (cstr d) = [] then take 1 (cstr d) else rtrim (cstr d))"
    using r(3) rtrim_prefix [of "cstr d"] by (auto simp: max_def Suc_le_eq)
  ultimately show ?thesis
    using r LTrim_spec [OF assms] by (auto simp: StrTrim_def)
qed

lemma str_trim_in_place_witness:
  "cstr (the (StrTrim (Some ('' a '' @ [NUL])))) = ''a''"
  using str_trim_in_place [of "'' a '' @ [NUL]"] by (auto simp: trim_def rtrim_def SPACES_def cstr_def)

text \<open>
  \<open>StrNextToken\<close> splits the source without loss: what it copies to the buffer and what it
  returns are the source put together; the token fits the buffer with its terminator, holds no
  delimiter, and is as long as that allows.
\<close>

theorem next_token:
  assumes "0 < buflen" "buflen \<le> length d" "NUL \<notin> set src"
  shows "\<exists>rest d'. StrNextToken (Some d) buflen (Some src) (Some delim) = (Some rest, Some d') \<and>
    length d' = length d \<and> src = cstr d' @ rest \<and> length (cstr d') < buflen \<and>
    (\<forall>c\<in>set (cstr d'). \<not> strchr delim c) \<and>
    (rest = [] \<or> strchr delim (hd rest) \<or> length (cstr d') = buflen - 1)"
proof -
  obtain tok rest where tr: "token_loop delim (buflen - 1) src = (tok, rest)" by fastforce
  note s = token_loop_spec [OF tr]
  have "NUL \<notin> set tok" using assms(3) s by auto
  then have "cstr (memcpy d 0 (tok @ [NUL])) = tok" by (simp add: memcpy_def cstr_append_NUL)
  with tr s assms show ?thesis by (auto simp: StrNextToken_def length_memcpy)
qed

lemma next_token_witness:
  "\<exists>d'. StrNextToken (Some (replicate 8 NUL)) 8 (Some ''ab c'') (Some '' '') = (Some '' c'', Some d') \<and> cstr d' = ''ab''"
  using next_token [of 8 "replicate 8 NUL" "''ab c''" "'' ''"]
  by (simp add: StrNextToken_def strchr_def memcpy_def cstr_def)

text \<open>
  hexadecimal decoding inverts encoding: the digits of any byte sequence, read with twice its
  length, give back the bytes and their number, after a first odd digit too.
\<close>

theorem hex_roundtrip:
  assumes "n < 16"
  shows "StringHexToBytes (hex_encode bs) (2 * int (length bs)) = (int (length bs), bs) \<and>
    StringHexToBytes (hex_digit n # hex_encode bs) (2 * int (length bs) + 1)
      = (int (length bs) + 1, word_of_nat n # bs)"
proof
  show "StringHexToBytes (hex_encode bs) (2 * int (length bs)) = (int (length bs), bs)"
    using hex_loop_encode [of bs "[]" "[]"] by (simp add: StringHexToBytes_def)
  have "word_of_nat n AND 0xF = (word_of_nat n :: 8 word)"
  proof -
    have "\<forall>n\<in>set [0..<16]. word_of_nat n AND 0xF = (word_of_nat n :: 8 word)" by code_simp
    with assms show ?thesis by simp
  qed
  then show "StringHexToBytes (hex_digit n # hex_encode bs) (2 * int (length bs) + 1)
      = (int (length bs) + 1, word_of_nat n # bs)"
    using hex_digit_value [OF assms] hex_loop_encode [of bs "[]" "[word_of_nat n]"]
    by (simp add: StringHexToBytes_def Let_def)
qed

lemma hex_roundtrip_witness: "StringHexToBytes (hex_encode [0x1F, 0xA0]) 4 = (2, [0x1F, 0xA0])"
  using hex_roundtrip [of 0 "[0x1F, 0xA0]"] by simp

end
