(* ===== verification/Cmu_Map.thy ===== *)
theory Cmu_Map
  imports Cmu_Text "HOL-Library.Multiset"
begin

text \<open>
  \<open>src/src/maps.c\<close>: the hash map of strings that keeps its entries in the order of their last
  \<open>Put\<close>. An entry (\<open>map_item\<close>) is never changed once it is stored, so the pointer that a bucket and
  \<open>keyset\<close> share is modelled by its value; the unique \<open>order\<close> tells entries apart where the code
  compares pointers. A bucket that was not created yet is \<open>None\<close>.

  Allocations that the code does not check are the fault \<open>Null_Deref\<close> when refused. A map
  without buckets divides by zero. The load factor is the fraction \<open>(numerator, denominator)\<close> a
  \<open>float\<close> is, compared exactly.
\<close>

section \<open>Data and hashing\<close>

record 'v map_item =
  mi_key :: string
  mi_value :: "'v ptr"
  mi_hash :: "32 word"
  mi_order :: int

record 'v cmap =
  m_buckets :: "'v map_item arr option list"
  m_size :: nat
  m_keyset :: "'v map_item arr"
  m_freecb :: bool
  m_is_ucase :: bool
  m_bucket_size :: nat
  m_use_count :: nat
  m_order_seq :: int
  m_load_factor :: "int \<times> nat"

definition sizeof_MapItem :: nat where
  "sizeof_MapItem = 40"

definition sizeof_Map_Internal :: nat where
  "sizeof_Map_Internal = 176"

text \<open>One round of the hash; \<open>h\<close> is an \<open>unsigned\<close> of 32 bits.\<close>

definition hash_step :: "32 word \<Rightarrow> int \<Rightarrow> 32 word" where
  "hash_step h c =
     (let h1 = push_bit 4 h + word_of_int c;
          g = h1 AND 0xF0000000
      in if g \<noteq> 0 then (h1 XOR drop_bit 24 g) XOR g else h1)"

definition MapHash :: "string \<Rightarrow> 32 word" where
  "MapHash s = foldl (\<lambda>h c. hash_step h (schar c)) 0 s"

definition MapHashUpper :: "string \<Rightarrow> 32 word" where
  "MapHashUpper s = foldl (\<lambda>h c. hash_step h (code (toupper c))) 0 s"

definition MapToUpper :: "string \<Rightarrow> string" where
  "MapToUpper s = map toupper s"

definition MapComparator :: "'v map_item cmp" where
  "MapComparator a b =
     (case (a, b) of (Some ia, Some ib) \<Rightarrow> strcmp (mi_key ia) (mi_key ib) | _ \<Rightarrow> 0)"

definition MapCompareOrder :: "'v map_item cmp" where
  "MapCompareOrder a b = (case (a, b) of (Some ia, Some ib) \<Rightarrow> mi_order ia - mi_order ib | _ \<Rightarrow> 0)"

text \<open>The form in which a key is stored and compared, and its hash.\<close>

definition norm_key :: "bool \<Rightarrow> string \<Rightarrow> string" where
  "norm_key ucase key = (if ucase then MapToUpper key else key)"

definition map_hash :: "bool \<Rightarrow> string \<Rightarrow> 32 word" where
  "map_hash ucase key = (if ucase then MapHashUpper key else MapHash key)"

section \<open>Operations\<close>

definition new_bucket :: "alloc \<Rightarrow> 'v map_item arr ptr" where
  "new_bucket mem = ArrayCreateInternal mem 5 (Some MapComparator) False True"

text \<open>The first loop of \<open>MapRebuild\<close>, over the items of the key set.\<close>

fun rebuild_items ::
  "alloc \<Rightarrow> nat \<Rightarrow> 'v map_item ptr list \<Rightarrow> 'v map_item arr option list \<Rightarrow> nat \<Rightarrow>
   fault + ('v map_item arr option list \<times> nat)" where
  "rebuild_items mem n [] newbuckets usecount = Inr (newbuckets, usecount)"
| "rebuild_items mem n (None # rest) newbuckets usecount = Inl Null_Deref"
| "rebuild_items mem n (Some item # rest) newbuckets usecount =
     (let index = unat (mi_hash item) mod n
      in case (case newbuckets ! index of Some b \<Rightarrow> Some (b, usecount)
               | None \<Rightarrow> (case new_bucket mem of None \<Rightarrow> None | Some b \<Rightarrow> Some (b, usecount + 1))) of
           None \<Rightarrow> Inl Null_Deref
         | Some (bucket, uc) \<Rightarrow>
             rebuild_items mem n rest
               (newbuckets[index := Some (snd (ArrayAdd mem bucket (Some item) False))]) uc)"

definition MapRebuild :: "alloc \<Rightarrow> 'v cmap \<Rightarrow> fault + 'v cmap" where
  "MapRebuild mem m =
     (let newbucketsize = m_bucket_size m * 2 mod 2 ^ 32
      in if \<not> mem (sizeof_ptr * newbucketsize) then Inl Null_Deref
         else if newbucketsize = 0 \<and> 0 < ArrayGetSize (m_keyset m) then Inl Div_By_Zero
         else
           (case rebuild_items mem newbucketsize (items (m_keyset m)) (replicate newbucketsize None) 0 of
              Inl e \<Rightarrow> Inl e
            | Inr (newbuckets, usecount) \<Rightarrow>
                Inr (m\<lparr>m_buckets := newbuckets, m_bucket_size := newbucketsize, m_use_count := usecount\<rparr>)))"

text \<open>
  The part of \<open>MapPutBase\<close> that finds or makes the bucket of a hash: the index, the bucket and the
  map with that bucket in place.
\<close>

definition too_full :: "'v cmap \<Rightarrow> bool" where
  "too_full m \<longleftrightarrow>
     (case m_load_factor m of
        (num, den) \<Rightarrow> int (m_use_count m + 1) * int den > num * int (m_bucket_size m))"

definition add_bucket ::
  "alloc \<Rightarrow> 'v cmap \<Rightarrow> nat \<Rightarrow> fault + (nat \<times> 'v map_item arr \<times> 'v cmap)" where
  "add_bucket mem m index =
     (case new_bucket mem of
        None \<Rightarrow> Inl Null_Deref
      | Some b \<Rightarrow>
          Inr (index, b, m\<lparr>m_buckets := (m_buckets m)[index := Some b], m_use_count := m_use_count m + 1\<rparr>))"

definition find_bucket ::
  "alloc \<Rightarrow> 'v cmap \<Rightarrow> 32 word \<Rightarrow> fault + (nat \<times> 'v map_item arr \<times> 'v cmap)" where
  "find_bucket mem m hash =
     (let index = unat hash mod m_bucket_size m
      in case m_buckets m ! index of
           Some b \<Rightarrow> Inr (index, b, m)
         | None \<Rightarrow>
             if too_full m then
               (case MapRebuild mem m of
                  Inl e \<Rightarrow> Inl e
                | Inr m' \<Rightarrow>
                    if m_bucket_size m' = 0 then Inl Div_By_Zero
                    else
                      (let index' = unat hash mod m_bucket_size m'
                       in case m_buckets m' ! index' of
                            Some b \<Rightarrow> Inr (index', b, m')
                          | None \<Rightarrow> add_bucket mem m' index'))
             else add_bucket mem m index)"

text \<open>
  The result: the new item (NULL when the bucket refused it), what is written to \<open>*prev\<close> and the
  map. \<open>prev\<close> itself may be NULL; the value is then lost.
\<close>

definition MapPutBase ::
  "alloc \<Rightarrow> 'v cmap \<Rightarrow> string \<Rightarrow> 'v ptr \<Rightarrow> fault + ('v map_item ptr \<times> 'v ptr \<times> 'v cmap)" where
  "MapPutBase mem m key value =
     (if m_bucket_size m = 0 then Inl Div_By_Zero
      else if \<not> mem sizeof_MapItem then Inl Null_Deref
      else
        (let hash = map_hash (m_is_ucase m) key
         in case find_bucket mem m hash of
              Inl e \<Rightarrow> Inl e
            | Inr (index, bucket, m1) \<Rightarrow>
                if \<not> mem (length key + 1) then Inl Null_Deref
                else
                  (let item = \<lparr>mi_key = norm_key (m_is_ucase m1) key, mi_value = value,
                               mi_hash = hash, mi_order = m_order_seq m1\<rparr>;
                       m2 = m1\<lparr>m_order_seq := m_order_seq m1 + 1\<rparr>;
                       (r, bucket') = ArrayAdd mem bucket (Some item) True;
                       m3 = m2\<lparr>m_buckets := (m_buckets m2)[index := Some bucket']\<rparr>
                   in if \<not> add_ok r then Inr (NULL, NULL, m3)
                      else
                        (case add_ret r of
                           Some (Some ires) \<Rightarrow>
                             Inr (Some item, mi_value ires,
                                  m3\<lparr>m_keyset := snd (ArrayRemove (m_keyset m3) (Some ires))\<rparr>)
                         | _ \<Rightarrow> Inr (Some item, NULL, m3\<lparr>m_size := m_size m3 + 1\<rparr>)))))"

text \<open>The key a lookup compares with: a copy in upper case, or the argument itself.\<close>

definition probe_item :: "string \<Rightarrow> 'v map_item" where
  "probe_item key = \<lparr>mi_key = key, mi_value = NULL, mi_hash = 0, mi_order = 0\<rparr>"

definition MapGet :: "alloc \<Rightarrow> 'v cmap \<Rightarrow> string \<Rightarrow> fault + 'v ptr" where
  "MapGet mem m key =
     (if m_bucket_size m = 0 then Inl Div_By_Zero
      else
        (let hash = map_hash (m_is_ucase m) key; index = unat hash mod m_bucket_size m
         in case m_buckets m ! index of
              None \<Rightarrow> Inr NULL
            | Some bucket \<Rightarrow>
                if m_is_ucase m \<and> \<not> mem (length key + 1) then Inl Null_Deref
                else
                  (let skey = norm_key (m_is_ucase m) key
                   in case fst (ArrayFind bucket (Some (probe_item skey))) of
                        None \<Rightarrow> Inr NULL
                      | Some ires \<Rightarrow> Inr (mi_value ires))))"

definition MapRemove :: "alloc \<Rightarrow> 'v cmap \<Rightarrow> string \<Rightarrow> fault + ('v ptr \<times> 'v cmap)" where
  "MapRemove mem m key =
     (if m_bucket_size m = 0 then Inl Div_By_Zero
      else
        (let hash = map_hash (m_is_ucase m) key; index = unat hash mod m_bucket_size m
         in case m_buckets m ! index of
              None \<Rightarrow> Inr (NULL, m)
            | Some bucket \<Rightarrow>
                if m_is_ucase m \<and> \<not> mem (length key + 1) then Inl Null_Deref
                else
                  (let skey = norm_key (m_is_ucase m) key;
                       (ires, bucket') = ArrayRemove bucket (Some (probe_item skey));
                       m1 = m\<lparr>m_buckets := (m_buckets m)[index := Some bucket']\<rparr>
                   in case ires of
                        None \<Rightarrow> Inr (NULL, m1)
                      | Some item \<Rightarrow>
                          (let m2 = m1\<lparr>m_keyset := snd (ArrayRemove (m_keyset m1) (Some item))\<rparr>;
                               res = mi_value item
                           in Inr (res, if res \<noteq> NULL then m2\<lparr>m_size := m_size m2 - 1\<rparr> else m2)))))"

text \<open>\<open>Put\<close>: success, \<open>*prev\<close> and the map.\<close>

definition MapPut :: "alloc \<Rightarrow> 'v cmap \<Rightarrow> string \<Rightarrow> 'v ptr \<Rightarrow> fault + (bool \<times> 'v ptr \<times> 'v cmap)" where
  "MapPut mem m key value =
     (case MapPutBase mem m key value of
        Inl e \<Rightarrow> Inl e
      | Inr (None, prev, m') \<Rightarrow> Inr (False, prev, m')
      | Inr (Some item, prev, m') \<Rightarrow>
          (case ArrayAdd mem (m_keyset m') (Some item) False of
             (r, ks) \<Rightarrow>
               (let m'' = m'\<lparr>m_keyset := ks\<rparr>
                in if add_ok r then Inr (True, prev, m'')
                   else map_sum id (\<lambda>(_, m3). (False, prev, m3)) (MapRemove mem m'' key))))"

text \<open>\<open>PutAll\<close> from another map, item by item: the replaced values given to the free callback.\<close>

fun put_all :: "alloc \<Rightarrow> 'v map_item ptr list \<Rightarrow> 'v cmap \<Rightarrow> 'v ptr list \<Rightarrow> fault + ('v ptr list \<times> 'v cmap)" where
  "put_all mem [] m freed = Inr (freed, m)"
| "put_all mem (None # rest) m freed = Inl Null_Deref"
| "put_all mem (Some item # rest) m freed =
     (case MapPut mem m (mi_key item) (mi_value item) of
        Inl e \<Rightarrow> Inl e
      | Inr (ok, prev, m') \<Rightarrow>
          put_all mem rest m' (if prev \<noteq> NULL \<and> m_freecb m' then freed @ [prev] else freed))"

definition MapPutAll :: "alloc \<Rightarrow> 'v cmap \<Rightarrow> 'v cmap \<Rightarrow> fault + ('v ptr list \<times> 'v cmap)" where
  "MapPutAll mem m src = put_all mem (items (m_keyset src)) m []"

text \<open>The key set only ever holds items, but the code reads it through pointers.\<close>

fun add_keys :: "alloc \<Rightarrow> 'v map_item ptr list \<Rightarrow> string_array \<Rightarrow> fault + string_array" where
  "add_keys mem [] res = Inr res"
| "add_keys mem (None # rest) res = Inl Null_Deref"
| "add_keys mem (Some item # rest) res =
     add_keys mem rest (StringArrayAddCString mem res (Some (mi_key item)))"

definition MapGetKeys :: "alloc \<Rightarrow> 'v cmap \<Rightarrow> fault + string_array ptr" where
  "MapGetKeys mem m =
     (case StringArrayCreateInternal mem (ArrayGetSize (m_keyset m)) of
        Inl e \<Rightarrow> Inl e
      | Inr None \<Rightarrow> if items (m_keyset m) = [] then Inr NULL else Inl Null_Deref
      | Inr (Some res) \<Rightarrow> map_sum id Some (add_keys mem (items (m_keyset m)) res))"

definition MapGetPairs :: "'v cmap \<Rightarrow> 'v map_item arr" where
  "MapGetPairs m = m_keyset m"

definition MapPairGetKey :: "'v map_item \<Rightarrow> string" where
  "MapPairGetKey pair = mi_key pair"

definition MapPairGetValue :: "'v map_item \<Rightarrow> 'v ptr" where
  "MapPairGetValue pair = mi_value pair"

definition MapGetSize :: "'v cmap \<Rightarrow> nat" where
  "MapGetSize m = m_size m"

text \<open>The iterator: the index of the next item.\<close>

definition MapIterHasNext :: "'v cmap \<Rightarrow> nat \<Rightarrow> bool" where
  "MapIterHasNext m index \<longleftrightarrow> index < ArrayGetSize (m_keyset m)"

definition MapIterNext :: "'v cmap \<Rightarrow> nat \<Rightarrow> 'v ptr \<times> nat" where
  "MapIterNext m index =
     (case ArrayGetAt (m_keyset m) index of
        Some item \<Rightarrow> (mi_value item, (index + 1) mod 2 ^ 32)
      | None \<Rightarrow> (NULL, index))"

text \<open>The values handed to the free callback, bucket by bucket.\<close>

definition bucket_values :: "'v map_item arr option list \<Rightarrow> 'v ptr list" where
  "bucket_values bs =
     concat (map (\<lambda>b. case b of None \<Rightarrow> []
                      | Some a \<Rightarrow> map (\<lambda>p. case p of None \<Rightarrow> NULL | Some i \<Rightarrow> mi_value i) (items a)) bs)"

definition MapClearBase :: "'v cmap \<Rightarrow> bool \<Rightarrow> 'v ptr list \<times> 'v cmap" where
  "MapClearBase m freedata =
     (if m_freecb m \<and> freedata then bucket_values (m_buckets m) else [],
      m\<lparr>m_buckets := map (map_option (\<lambda>b. snd (ArrayClear b))) (m_buckets m),
        m_keyset := snd (ArrayClear (m_keyset m)), m_size := 0\<rparr>)"

definition MapClear :: "'v cmap \<Rightarrow> 'v ptr list \<times> 'v cmap" where
  "MapClear m = MapClearBase m True"

definition MapClearLink :: "'v cmap \<Rightarrow> 'v ptr list \<times> 'v cmap" where
  "MapClearLink m = MapClearBase m False"

definition MapDestroy :: "'v cmap \<Rightarrow> 'v ptr list" where
  "MapDestroy m = (if m_freecb m then bucket_values (m_buckets m) else [])"

text \<open>\<open>to_str\<close> is the caller's callback, or the cast of the value to a C string when it gives none.\<close>

fun print_pairs ::
  "alloc \<Rightarrow> 'v cmap \<Rightarrow> ('v ptr \<Rightarrow> string ptr) \<Rightarrow> nat \<Rightarrow> 'v map_item ptr list \<Rightarrow> cstring \<Rightarrow> fault + cstring" where
  "print_pairs mem m to_str i [] out = Inr out"
| "print_pairs mem m to_str i (None # rest) out = Inl Null_Deref"
| "print_pairs mem m to_str i (Some item # rest) out =
     (let out1 = (if 0 < i then snd (StringAddString mem out (Some '', '')) else out);
          out2 = snd (StringAddString mem out1 (Some (mi_key item)));
          out3 = snd (StringAddChar mem out2 (CHR ''=''))
      in case MapGet mem m (mi_key item) of
           Inl e \<Rightarrow> Inl e
         | Inr val \<Rightarrow>
             print_pairs mem m to_str (Suc i) rest (snd (StringAddString mem out3 (to_str val))))"

definition MapPrintTo :: "alloc \<Rightarrow> 'v cmap \<Rightarrow> cstring \<Rightarrow> ('v ptr \<Rightarrow> string ptr) \<Rightarrow> fault + cstring" where
  "MapPrintTo mem m out to_str =
     (let out1 = snd (StringAddChar mem out (CHR ''{''))
      in map_sum id (\<lambda>out2. snd (StringAddChar mem out2 (CHR ''}'')))
           (print_pairs mem m to_str 0 (items (m_keyset m)) out1))"

definition MapGetAt :: "alloc \<Rightarrow> 'v cmap \<Rightarrow> nat \<Rightarrow> fault + 'v ptr" where
  "MapGetAt mem m index =
     (if index < m_size m then
        (case ArrayGetAt (m_keyset m) index of
           None \<Rightarrow> Inl Null_Deref
         | Some item \<Rightarrow> MapGet mem m (mi_key item))
      else Inr NULL)"

definition MapRemoveAt :: "alloc \<Rightarrow> 'v cmap \<Rightarrow> nat \<Rightarrow> fault + ('v ptr \<times> 'v cmap)" where
  "MapRemoveAt mem m index =
     (if index < m_size m then
        (case ArrayGetAt (m_keyset m) index of
           None \<Rightarrow> Inl Null_Deref
         | Some item \<Rightarrow> MapRemove mem m (mi_key item))
      else Inr (NULL, m))"

text \<open>
  \<open>Inr NULL\<close> is a map without key set, when the array could not be created; the first operation on
  it calls through NULL.
\<close>

definition MapCreateInternal :: "alloc \<Rightarrow> nat \<Rightarrow> bool \<Rightarrow> bool \<Rightarrow> int \<times> nat \<Rightarrow> fault + 'v cmap ptr" where
  "MapCreateInternal mem bucketsize isucase freecb load_factor =
     (if \<not> mem sizeof_Map_Internal then Inl Null_Deref
      else if \<not> mem (sizeof_ptr * bucketsize) then Inl Null_Deref
      else
        Inr (case ArrayCreateInternal mem bucketsize (Some MapCompareOrder) False True of
               None \<Rightarrow> NULL
             | Some ks \<Rightarrow>
                 Some \<lparr>m_buckets = replicate bucketsize None, m_size = 0, m_keyset = ks, m_freecb = freecb,
                       m_is_ucase = isucase, m_bucket_size = bucketsize, m_use_count = 0,
                       m_order_seq = 0, m_load_factor = load_factor\<rparr>))"

definition MapCreateEx :: "alloc \<Rightarrow> nat \<Rightarrow> bool \<Rightarrow> bool \<Rightarrow> int \<times> nat \<Rightarrow> fault + 'v cmap ptr" where
  "MapCreateEx mem bucketsize isucase freecb load_factor =
     MapCreateInternal mem bucketsize isucase freecb load_factor"

section \<open>Keys, entries and buckets\<close>

definition valid_item :: "'v map_item ptr \<Rightarrow> bool" where
  "valid_item p \<longleftrightarrow> (case p of None \<Rightarrow> False | Some i \<Rightarrow> NUL \<notin> set (mi_key i))"

lemma valid_itemE: "valid_item p \<Longrightarrow> (\<And>i. p = Some i \<Longrightarrow> NUL \<notin> set (mi_key i) \<Longrightarrow> P) \<Longrightarrow> P"
  by (auto simp: valid_item_def split: option.splits)

lemma valid_item_Some [simp]: "valid_item (Some i) \<longleftrightarrow> NUL \<notin> set (mi_key i)"
  by (simp add: valid_item_def)

interpretation mcmp: comparator MapComparator valid_item
proof
  fix x y z :: "'v map_item ptr"
  show "valid_item x \<Longrightarrow> MapComparator x x = 0" by (auto simp: MapComparator_def elim!: valid_itemE)
  show "valid_item x \<Longrightarrow> valid_item y \<Longrightarrow> MapComparator x y < 0 \<longleftrightarrow> 0 < MapComparator y x"
    using strcmp_antisym [of "mi_key (the x)" "mi_key (the y)"]
    by (auto simp: MapComparator_def elim!: valid_itemE)
  show "valid_item x \<Longrightarrow> valid_item y \<Longrightarrow> valid_item z \<Longrightarrow> MapComparator x y \<le> 0 \<Longrightarrow>
      MapComparator y z \<le> 0 \<Longrightarrow> MapComparator x z \<le> 0"
    by (auto simp: MapComparator_def elim!: valid_itemE intro: strcmp_trans)
  show "valid_item x \<Longrightarrow> x \<noteq> NULL" by (auto elim!: valid_itemE)
qed

interpretation ocmp: comparator MapCompareOrder valid_item
  by unfold_locales (auto simp: MapCompareOrder_def elim!: valid_itemE)

lemma MapComparator_0:
  "NUL \<notin> set (mi_key x) \<Longrightarrow> NUL \<notin> set (mi_key y) \<Longrightarrow> MapComparator (Some x) (Some y) = 0 \<longleftrightarrow> mi_key x = mi_key y"
  by (simp add: MapComparator_def strcmp_eq_0)

lemma norm_key_idem [simp]: "norm_key u (norm_key u k) = norm_key u k"
  by (simp add: norm_key_def MapToUpper_def)

lemma norm_key_NUL [simp]: "NUL \<in> set (norm_key u k) \<longleftrightarrow> NUL \<in> set k"
proof -
  have "NUL \<in> toupper ` set k \<longleftrightarrow> NUL \<in> set k" by (metis image_iff toupper_NUL)
  then show ?thesis by (simp add: norm_key_def MapToUpper_def)
qed

lemma map_hash_norm [simp]: "map_hash u (norm_key u k) = map_hash u k"
  by (simp add: map_hash_def norm_key_def MapToUpper_def MapHashUpper_def foldl_map)

text \<open>The bucket of an entry, and when the buckets hold exactly a set of entries.\<close>

definition bidx :: "nat \<Rightarrow> 'v map_item \<Rightarrow> nat" where
  "bidx n i = unat (mi_hash i) mod n"

definition bucket_ok :: "'v map_item arr option \<Rightarrow> 'v map_item set \<Rightarrow> bool" where
  "bucket_ok b S \<longleftrightarrow>
     (case b of None \<Rightarrow> S = {} | Some a \<Rightarrow> sorted_inv MapComparator valid_item a \<and> set (items a) = Some ` S)"

definition buckets_ok :: "'v map_item arr option list \<Rightarrow> 'v map_item set \<Rightarrow> bool" where
  "buckets_ok bs S \<longleftrightarrow> (\<forall>j < length bs. bucket_ok (bs ! j) {i \<in> S. bidx (length bs) i = j})"

text \<open>Entries with their hash, and no two with the same key.\<close>

definition keyed :: "bool \<Rightarrow> 'v map_item set \<Rightarrow> bool" where
  "keyed u S \<longleftrightarrow> finite S \<and> card S < 2 ^ 32 \<and> inj_on mi_key S \<and>
     (\<forall>i \<in> S. NUL \<notin> set (mi_key i) \<and> mi_hash i = map_hash u (mi_key i))"

lemma keyed_subset: "keyed u S \<Longrightarrow> T \<subseteq> S \<Longrightarrow> keyed u T"
  unfolding keyed_def by (meson card_mono finite_subset inj_on_subset order.strict_trans1 subsetD)

lemma bucket_size_bound:
  assumes "bucket_ok (Some a) T" "keyed u S" "T \<subseteq> S"
  shows "a_size a < 2 ^ 32"
proof -
  have a: "sorted_inv MapComparator valid_item a" "set (items a) = Some ` T"
    using assms(1) by (simp_all add: bucket_ok_def)
  have "a_size a = card (set (items a))"
    using mcmp.distinct_items [OF a(1)] mcmp.sorted_invD(1) [OF a(1)] by (simp add: distinct_card)
  also have "\<dots> = card T" unfolding a(2) by (rule card_image) simp
  also have "\<dots> \<le> card S" using assms(2,3) by (auto simp: keyed_def intro: card_mono)
  finally show ?thesis using assms(2) by (simp add: keyed_def)
qed

text \<open>A search in the right bucket sees every entry with that key.\<close>

lemma bucket_find:
  assumes "bucket_ok (Some a) {i \<in> S. bidx n i = j}" "keyed u S"
    "NUL \<notin> set (mi_key x)" "j = unat (map_hash u (mi_key x)) mod n"
  shows "i \<in> S \<Longrightarrow> mi_key i = mi_key x \<Longrightarrow> List.find (\<lambda>y. MapComparator (Some x) y = 0) (items a) = Some (Some i)"
    "mi_key x \<notin> mi_key ` S \<Longrightarrow> List.find (\<lambda>y. MapComparator (Some x) y = 0) (items a) = None"
proof -
  have set_a: "set (items a) = Some ` {i \<in> S. bidx n i = j}" using assms(1) by (simp add: bucket_ok_def)
  have eq: "MapComparator (Some x) (Some i) = 0 \<longleftrightarrow> mi_key x = mi_key i" if "i \<in> S" for i
    using assms(2,3) that by (intro MapComparator_0) (auto simp: keyed_def)
  show "List.find (\<lambda>y. MapComparator (Some x) y = 0) (items a) = Some (Some i)" if "i \<in> S" "mi_key i = mi_key x"
  proof (rule find_unique)
    show "Some i \<in> set (items a)"
      using that assms(2,4) by (auto simp: set_a bidx_def keyed_def)
    show "MapComparator (Some x) (Some i) = 0" using eq that by simp
    show "z = Some i" if "z \<in> set (items a)" "MapComparator (Some x) z = 0" for z
      using that eq \<open>i \<in> S\<close> \<open>mi_key i = mi_key x\<close> assms(2)
      by (auto simp: set_a keyed_def inj_on_def)
  qed
  show "List.find (\<lambda>y. MapComparator (Some x) y = 0) (items a) = None" if "mi_key x \<notin> mi_key ` S"
    using that eq by (auto simp: find_None_iff set_a image_iff)
qed

lemma buckets_update:
  assumes "buckets_ok bs S" "j < length bs" "bucket_ok b {i \<in> T. bidx (length bs) i = j}"
    "\<And>i. bidx (length bs) i \<noteq> j \<Longrightarrow> i \<in> T \<longleftrightarrow> i \<in> S"
  shows "buckets_ok (bs[j := b]) T"
  unfolding buckets_ok_def length_list_update
proof (intro allI impI)
  fix k assume k: "k < length bs"
  show "bucket_ok (bs[j := b] ! k) {i \<in> T. bidx (length bs) i = k}"
  proof (cases "k = j")
    case True
    with k assms(3) show ?thesis by simp
  next
    case False
    then have "{i \<in> T. bidx (length bs) i = k} = {i \<in> S. bidx (length bs) i = k}"
      using assms(4) by blast
    with False k assms(1) show ?thesis by (simp add: buckets_ok_def)
  qed
qed

lemma buckets_okD:
  assumes "buckets_ok bs S" "j < length bs"
  shows "bs ! j = None \<Longrightarrow> {i \<in> S. bidx (length bs) i = j} = {}"
    "bs ! j = Some a \<Longrightarrow> sorted_inv MapComparator valid_item a"
    "bs ! j = Some a \<Longrightarrow> set (items a) = Some ` {i \<in> S. bidx (length bs) i = j}"
  using assms by (force simp: buckets_ok_def bucket_ok_def)+

lemma bucket_put:
  fixes S :: "'v map_item set"
  assumes "buckets_ok bs S" "keyed u S" "j < length bs" "bs ! j = Some a"
    "NUL \<notin> set (mi_key x)" "mi_hash x = map_hash u (mi_key x)" "bidx (length bs) x = j" "\<forall>n. mem n"
  shows "add_ok (fst (ArrayAdd mem a (Some x) w))"
    "buckets_ok (bs[j := Some (snd (ArrayAdd mem a (Some x) w))]) (insert x {i \<in> S. mi_key i \<noteq> mi_key x})"
    "i \<in> S \<Longrightarrow> mi_key i = mi_key x \<Longrightarrow> add_ret (fst (ArrayAdd mem a (Some x) True)) = Some (Some i)"
    "mi_key x \<notin> mi_key ` S \<Longrightarrow> add_ret (fst (ArrayAdd mem a (Some x) True)) = None"
proof -
  have ok: "bucket_ok (Some a) {i \<in> S. bidx (length bs) i = j}"
    using assms(1,3,4) by (auto simp: buckets_ok_def)
  have a: "sorted_inv MapComparator valid_item a" "set (items a) = Some ` {i \<in> S. bidx (length bs) i = j}"
    using ok by (simp_all add: bucket_ok_def)
  have sz: "a_size a < 2 ^ 32" using bucket_size_bound [OF ok assms(2)] by blast
  have v: "valid_item (Some x)" using assms(5) by simp
  have "fst (ArrayCheckSize mem a 1)" using assms(8) by (simp add: ArrayCheckSize_def Let_def)
  then show aok: "add_ok (fst (ArrayAdd mem a (Some x) w))" for w
    using mcmp.Add_sorted(4) [OF a(1) v sz, of mem w] by simp
  have eq: "MapComparator (Some x) (Some i) \<noteq> 0 \<longleftrightarrow> mi_key i \<noteq> mi_key x" if "i \<in> S" for i
    using MapComparator_0 [OF assms(5)] assms(2) that by (auto simp: keyed_def)
  have items: "items (snd (ArrayAdd mem a (Some x) w)) = sorted_put MapComparator (Some x) (items a)"
    using mcmp.Add_sorted(2) [OF a(1) v sz, of mem w] aok by simp
  have "set (items (snd (ArrayAdd mem a (Some x) w)))
      = Some ` {i \<in> insert x {i \<in> S. mi_key i \<noteq> mi_key x}. bidx (length bs) i = j}"
    using assms(7) eq by (auto simp: items mcmp.set_sorted_put a(2))
  then have "bucket_ok (Some (snd (ArrayAdd mem a (Some x) w)))
      {i \<in> insert x {i \<in> S. mi_key i \<noteq> mi_key x}. bidx (length bs) i = j}"
    using mcmp.Add_sorted(1) [OF a(1) v sz] by (simp add: bucket_ok_def)
  then show "buckets_ok (bs[j := Some (snd (ArrayAdd mem a (Some x) w))]) (insert x {i \<in> S. mi_key i \<noteq> mi_key x})"
  proof (rule buckets_update [OF assms(1,3)])
    fix i :: "'v map_item"
    assume i: "bidx (length bs) i \<noteq> j"
    have "mi_key i \<noteq> mi_key x" if "i \<in> S"
    proof
      assume "mi_key i = mi_key x"
      with that assms(2,6) have "mi_hash i = mi_hash x" by (simp add: keyed_def)
      with i assms(7) show False by (simp add: bidx_def)
    qed
    with i assms(7) show "i \<in> insert x {i \<in> S. mi_key i \<noteq> mi_key x} \<longleftrightarrow> i \<in> S" by auto
  qed
  have j: "j = unat (map_hash u (mi_key x)) mod length bs" using assms(6,7) by (simp add: bidx_def)
  note f = bucket_find [OF ok assms(2,5) j]
  show "add_ret (fst (ArrayAdd mem a (Some x) True)) = Some (Some i)" if "i \<in> S" "mi_key i = mi_key x"
    using mcmp.Add_sorted(5) [OF a(1) v sz, of mem True] f(1) [OF that] by simp
  show "add_ret (fst (ArrayAdd mem a (Some x) True)) = None" if "mi_key x \<notin> mi_key ` S"
    using mcmp.Add_sorted(5) [OF a(1) v sz, of mem True] f(2) [OF that] by simp
qed

lemma bucket_remove:
  fixes S :: "'v map_item set"
  assumes "buckets_ok bs S" "keyed u S" "j < length bs" "bs ! j = Some a"
    "NUL \<notin> set k" "j = unat (map_hash u k) mod length bs"
  shows "buckets_ok (bs[j := Some (snd (ArrayRemove a (Some (probe_item k))))]) {i \<in> S. mi_key i \<noteq> k}"
    "i \<in> S \<Longrightarrow> mi_key i = k \<Longrightarrow> fst (ArrayRemove a (Some (probe_item k))) = Some i"
    "k \<notin> mi_key ` S \<Longrightarrow> fst (ArrayRemove a (Some (probe_item k))) = NULL"
    "i \<in> S \<Longrightarrow> mi_key i = k \<Longrightarrow> fst (ArrayFind a (Some (probe_item k))) = Some i"
    "k \<notin> mi_key ` S \<Longrightarrow> fst (ArrayFind a (Some (probe_item k))) = NULL"
proof -
  have ok: "bucket_ok (Some a) {i \<in> S. bidx (length bs) i = j}"
    using assms(1,3,4) by (auto simp: buckets_ok_def)
  have a: "sorted_inv MapComparator valid_item a" "set (items a) = Some ` {i \<in> S. bidx (length bs) i = j}"
    using ok by (simp_all add: bucket_ok_def)
  have sz: "a_size a < 2 ^ 32" using bucket_size_bound [OF ok assms(2)] by blast
  let ?x = "probe_item k :: 'v map_item"
  have x: "NUL \<notin> set (mi_key ?x)" "mi_key ?x = k" using assms(5) by (simp_all add: probe_item_def)
  then have v: "valid_item (Some ?x)" by simp
  have eq: "MapComparator (Some ?x) (Some i) \<noteq> 0 \<longleftrightarrow> mi_key i \<noteq> k" if "i \<in> S" for i
    using MapComparator_0 [OF x(1)] x(2) assms(2) that by (auto simp: keyed_def)
  note rm = mcmp.Remove_sorted [OF a(1) v sz]
  have "set (items (snd (ArrayRemove a (Some ?x)))) = Some ` {i \<in> {i \<in> S. mi_key i \<noteq> k}. bidx (length bs) i = j}"
    using eq by (auto simp: rm(2) a(2))
  then have "bucket_ok (Some (snd (ArrayRemove a (Some ?x)))) {i \<in> {i \<in> S. mi_key i \<noteq> k}. bidx (length bs) i = j}"
    using rm(3) by (simp add: bucket_ok_def)
  then show "buckets_ok (bs[j := Some (snd (ArrayRemove a (Some ?x)))]) {i \<in> S. mi_key i \<noteq> k}"
  proof (rule buckets_update [OF assms(1,3)])
    fix i :: "'v map_item"
    assume "bidx (length bs) i \<noteq> j"
    then show "i \<in> {i \<in> S. mi_key i \<noteq> k} \<longleftrightarrow> i \<in> S"
      using assms(2,6) by (auto simp: keyed_def bidx_def)
  qed
  have j: "j = unat (map_hash u (mi_key ?x)) mod length bs" using assms(6) x(2) by simp
  note f = bucket_find [OF ok assms(2) x(1) j, unfolded x(2)]
  note fd = mcmp.Find_sorted [OF a(1) v sz]
  show "fst (ArrayRemove a (Some ?x)) = Some i" "fst (ArrayFind a (Some ?x)) = Some i" if "i \<in> S" "mi_key i = k"
    using rm(1) fd f(1) [OF that] by simp_all
  show "fst (ArrayRemove a (Some ?x)) = NULL" "fst (ArrayFind a (Some ?x)) = NULL" if "k \<notin> mi_key ` S"
    using rm(1) fd f(2) [OF that] by simp_all
qed

lemma new_bucket_granted:
  assumes "\<forall>n. mem n"
  obtains b where "new_bucket mem = Some b" "sorted_inv MapComparator valid_item b" "items b = []"
  using assms by (simp add: new_bucket_def ArrayCreateInternal_def sorted_inv_def arr_inv_def items_def ascending_def)

lemma buckets_new:
  assumes "buckets_ok bs S" "j < length bs" "bs ! j = None" "sorted_inv MapComparator valid_item b" "items b = []"
  shows "buckets_ok (bs[j := Some b]) S"
proof (rule buckets_update [OF assms(1,2)])
  have "bucket_ok (bs ! j) {i \<in> S. bidx (length bs) i = j}" using assms(1,2) by (simp add: buckets_ok_def)
  with assms(3) have "{i \<in> S. bidx (length bs) i = j} = {}" by (simp add: bucket_ok_def)
  with assms(4,5) show "bucket_ok (Some b) {i \<in> S. bidx (length bs) i = j}" by (simp add: bucket_ok_def)
qed simp

lemma buckets_empty: "buckets_ok (replicate n None) {}"
  by (simp add: buckets_ok_def bucket_ok_def)

lemma rebuild_items_granted:
  fixes xs :: "'v map_item list"
  assumes "\<forall>n. mem n"
  shows "0 < length bs \<Longrightarrow> buckets_ok bs S \<Longrightarrow> keyed u (S \<union> set xs) \<Longrightarrow> distinct xs \<Longrightarrow> S \<inter> set xs = {} \<Longrightarrow>
    \<exists>bs' uc'. rebuild_items mem (length bs) (map Some xs) bs uc = Inr (bs', uc') \<and>
      length bs' = length bs \<and> buckets_ok bs' (S \<union> set xs)"
proof (induction xs arbitrary: bs S uc)
  case Nil
  then show ?case by simp
next
  case (Cons x xs)
  define j where "j = unat (mi_hash x) mod length bs"
  have j: "j < length bs" using Cons.prems(1) by (simp add: j_def)
  have x: "NUL \<notin> set (mi_key x)" "mi_hash x = map_hash u (mi_key x)"
    using Cons.prems(3) by (auto simp: keyed_def)
  have S: "keyed u S" using Cons.prems(3) by (rule keyed_subset) auto
  obtain nb :: "'v map_item arr" where nb: "new_bucket mem = Some nb" "sorted_inv MapComparator valid_item nb" "items nb = []"
    using new_bucket_granted [OF assms] .
  obtain b uc1 where b: "(case bs ! j of Some b \<Rightarrow> Some (b, uc)
      | None \<Rightarrow> (case new_bucket mem of None \<Rightarrow> None | Some b \<Rightarrow> Some (b, uc + 1))) = Some (b, uc1)"
    "buckets_ok (bs[j := Some b]) S"
  proof (cases "bs ! j")
    case None
    with that nb buckets_new [OF Cons.prems(2) j None nb(2,3)] show ?thesis by auto
  next
    case (Some b)
    with that Cons.prems(2) show ?thesis by (metis list_update_id option.simps(5))
  qed
  let ?bs = "bs[j := Some b]"
  let ?bs' = "bs[j := Some (snd (ArrayAdd mem b (Some x) False))]"
  have "buckets_ok (?bs[j := Some (snd (ArrayAdd mem b (Some x) False))]) (insert x {i \<in> S. mi_key i \<noteq> mi_key x})"
    using j x S b(2) assms by (intro bucket_put(2) [of ?bs S u]) (simp_all add: bidx_def j_def)
  moreover have "{i \<in> S. mi_key i \<noteq> mi_key x} = S"
    using Cons.prems(3,5) by (auto simp: keyed_def inj_on_def)
  ultimately have put: "buckets_ok ?bs' (insert x S)" by simp
  have "\<exists>bs' uc'. rebuild_items mem (length ?bs') (map Some xs) ?bs' uc1 = Inr (bs', uc') \<and>
      length bs' = length ?bs' \<and> buckets_ok bs' (insert x S \<union> set xs)"
    using Cons.prems put by (intro Cons.IH) auto
  then show ?case using b(1) by (simp add: j_def [symmetric] Let_def)
qed

section \<open>The invariant of a map and what it stands for\<close>

definition entries :: "'v cmap \<Rightarrow> 'v map_item list" where
  "entries m = map the (items (m_keyset m))"

text \<open>The association list in the order of the last \<open>Put\<close> of each key.\<close>

definition alist :: "'v cmap \<Rightarrow> (string \<times> 'v ptr) list" where
  "alist m = map (\<lambda>i. (mi_key i, mi_value i)) (entries m)"

definition map_inv :: "'v cmap \<Rightarrow> bool" where
  "map_inv m \<longleftrightarrow>
     sorted_inv MapCompareOrder valid_item (m_keyset m) \<and>
     keyed (m_is_ucase m) (set (entries m)) \<and>
     buckets_ok (m_buckets m) (set (entries m)) \<and>
     length (m_buckets m) = m_bucket_size m \<and> 0 < m_bucket_size m \<and>
     (\<forall>i \<in> set (entries m). norm_key (m_is_ucase m) (mi_key i) = mi_key i \<and>
        0 \<le> mi_order i \<and> mi_order i < m_order_seq m) \<and>
     m_size m = length (entries m) \<and> int (length (entries m)) \<le> m_order_seq m"

lemma items_entries:
  assumes "sorted_inv MapCompareOrder valid_item (m_keyset m)"
  shows "items (m_keyset m) = map Some (entries m)"
proof -
  have "Some (the x) = x" if "x \<in> set (items (m_keyset m))" for x
    using ocmp.sorted_invD(5) [OF assms that] by (auto elim: valid_itemE)
  then have "map (\<lambda>x. Some (the x)) (items (m_keyset m)) = items (m_keyset m)" by (rule map_idI)
  then show ?thesis by (simp add: entries_def comp_def)
qed

lemma entries_upd [simp]:
  "entries (m\<lparr>m_size := s\<rparr>) = entries m" "entries (m\<lparr>m_buckets := bs\<rparr>) = entries m"
  "alist (m\<lparr>m_size := s\<rparr>) = alist m" "alist (m\<lparr>m_buckets := bs\<rparr>) = alist m"
  by (simp_all add: entries_def alist_def)

lemma map_invD:
  assumes "map_inv m"
  shows "sorted_inv MapCompareOrder valid_item (m_keyset m)" "keyed (m_is_ucase m) (set (entries m))"
    "buckets_ok (m_buckets m) (set (entries m))" "length (m_buckets m) = m_bucket_size m" "0 < m_bucket_size m"
    "m_size m = length (entries m)" "int (length (entries m)) \<le> m_order_seq m"
    "items (m_keyset m) = map Some (entries m)" "distinct (entries m)" "a_size (m_keyset m) = length (entries m)"
    "length (entries m) < 2 ^ 32"
proof -
  show a: "sorted_inv MapCompareOrder valid_item (m_keyset m)" "keyed (m_is_ucase m) (set (entries m))"
    "buckets_ok (m_buckets m) (set (entries m))" "length (m_buckets m) = m_bucket_size m" "0 < m_bucket_size m"
    "m_size m = length (entries m)" "int (length (entries m)) \<le> m_order_seq m"
    using assms by (simp_all add: map_inv_def)
  show i: "items (m_keyset m) = map Some (entries m)" by (rule items_entries [OF a(1)])
  show d: "distinct (entries m)"
    using ocmp.distinct_items [OF a(1)] unfolding i by (simp add: distinct_map)
  show "a_size (m_keyset m) = length (entries m)"
    using length_items [OF ocmp.sorted_invD(1) [OF a(1)]] unfolding i by simp
  show "length (entries m) < 2 ^ 32"
    using a(2) distinct_card [OF d] by (simp add: keyed_def)
qed

lemma map_inv_size: "map_inv m \<Longrightarrow> map_inv (m\<lparr>m_size := length (entries m)\<rparr>)"
  using map_invD(6) [of m] by (simp add: map_inv_def)

text \<open>The map laws on an association list, which the abstract side of the refinement uses.\<close>

definition al_put :: "string \<Rightarrow> 'v \<Rightarrow> (string \<times> 'v) list \<Rightarrow> (string \<times> 'v) list" where
  "al_put k v kvs = filter (\<lambda>kv. fst kv \<noteq> k) kvs @ [(k, v)]"

definition al_remove :: "string \<Rightarrow> (string \<times> 'v) list \<Rightarrow> (string \<times> 'v) list" where
  "al_remove k kvs = filter (\<lambda>kv. fst kv \<noteq> k) kvs"

text \<open>What a lookup of a C pointer map returns: NULL stands for absent too.\<close>

definition al_get :: "(string \<times> 'v ptr) list \<Rightarrow> string \<Rightarrow> 'v ptr" where
  "al_get kvs k = (case map_of kvs k of None \<Rightarrow> NULL | Some v \<Rightarrow> v)"

lemma map_of_entries:
  assumes "map_inv m"
  shows "i \<in> set (entries m) \<Longrightarrow> al_get (alist m) (mi_key i) = mi_value i"
    "k \<notin> mi_key ` set (entries m) \<Longrightarrow> al_get (alist m) k = NULL"
proof -
  have d: "distinct (map fst (alist m))"
    using map_invD(2,9) [OF assms] by (simp add: alist_def comp_def distinct_map keyed_def)
  show "al_get (alist m) (mi_key i) = mi_value i" if "i \<in> set (entries m)"
    using map_of_is_SomeI [OF d, of "mi_key i" "mi_value i"] that by (force simp: alist_def al_get_def)
  show "al_get (alist m) k = NULL" if "k \<notin> mi_key ` set (entries m)"
  proof -
    have "map_of (alist m) k = None" using that by (auto simp: map_of_eq_None_iff alist_def image_image)
    then show ?thesis by (simp add: al_get_def)
  qed
qed

section \<open>Put\<close>

lemma keyset_remove:
  assumes "sorted_inv MapCompareOrder valid_item ks" "items ks = map Some es" "i \<in> set es" "length es < 2 ^ 32"
  shows "items (snd (ArrayRemove ks (Some i))) = map Some (filter (\<lambda>x. x \<noteq> i) es)"
    "sorted_inv MapCompareOrder valid_item (snd (ArrayRemove ks (Some i)))"
proof -
  have mem: "Some i \<in> set (items ks)" using assms(2,3) by simp
  have "valid_item (Some i)" using ocmp.sorted_invD(5) [OF assms(1) mem] .
  moreover have "a_size ks = length es"
    using length_items [OF ocmp.sorted_invD(1) [OF assms(1)]] assms(2) by simp
  then have "a_size ks < 2 ^ 32" using assms(4) by simp
  ultimately have rm: "items (snd (ArrayRemove ks (Some i))) = filter (\<lambda>y. MapCompareOrder (Some i) y \<noteq> 0) (items ks)"
    "sorted_inv MapCompareOrder valid_item (snd (ArrayRemove ks (Some i)))"
    using ocmp.Remove_sorted [OF assms(1)] by blast+
  have "filter (\<lambda>y. MapCompareOrder (Some i) y \<noteq> 0) (items ks) = filter (\<lambda>y. y \<noteq> Some i) (items ks)"
    using ocmp.cmp_0_iff [OF assms(1) mem] by (intro filter_cong) auto
  also have "\<dots> = map Some (filter (\<lambda>x. x \<noteq> i) es)"
    unfolding assms(2) by (simp add: filter_map comp_def)
  finally show "items (snd (ArrayRemove ks (Some i))) = map Some (filter (\<lambda>x. x \<noteq> i) es)" using rm(1) by simp
  show "sorted_inv MapCompareOrder valid_item (snd (ArrayRemove ks (Some i)))" by (rule rm(2))
qed

lemma keyset_add:
  assumes "sorted_inv MapCompareOrder valid_item ks" "items ks = map Some es" "length es < 2 ^ 32"
    "\<forall>i \<in> set es. mi_order i < mi_order x" "NUL \<notin> set (mi_key x)" "\<forall>n. mem n"
  shows "add_ok (fst (ArrayAdd mem ks (Some x) False))"
    "items (snd (ArrayAdd mem ks (Some x) False)) = map Some (es @ [x])"
    "sorted_inv MapCompareOrder valid_item (snd (ArrayAdd mem ks (Some x) False))"
proof -
  have v: "valid_item (Some x)" using assms(5) by simp
  have "a_size ks = length es"
    using length_items [OF ocmp.sorted_invD(1) [OF assms(1)]] assms(2) by simp
  then have sz: "a_size ks < 2 ^ 32" using assms(3) by simp
  note add = ocmp.Add_sorted [OF assms(1) v sz, of mem False]
  show ok: "add_ok (fst (ArrayAdd mem ks (Some x) False))"
    using add(4) assms(6) by (simp add: ArrayCheckSize_def Let_def)
  have "filter (\<lambda>y. 0 < MapCompareOrder (Some x) y) (map Some es) = map Some es"
    "filter (\<lambda>y. MapCompareOrder (Some x) y < 0) (map Some es) = []"
    using assms(4) by (auto simp: MapCompareOrder_def filter_id_conv filter_empty_conv)
  then show "items (snd (ArrayAdd mem ks (Some x) False)) = map Some (es @ [x])"
    using add(2) ok assms(2) by (simp add: sorted_put_def)
  show "sorted_inv MapCompareOrder valid_item (snd (ArrayAdd mem ks (Some x) False))" by (rule add(1))
qed

lemma entries_keyset: "m_keyset m' = m_keyset m \<Longrightarrow> entries m' = entries m"
  by (simp add: entries_def)

text \<open>What the preparation of a bucket leaves alone.\<close>

definition same_map :: "'v cmap \<Rightarrow> 'v cmap \<Rightarrow> bool" where
  "same_map m m' \<longleftrightarrow> m_keyset m' = m_keyset m \<and> m_size m' = m_size m \<and> m_order_seq m' = m_order_seq m \<and>
     m_is_ucase m' = m_is_ucase m \<and> m_freecb m' = m_freecb m"

lemma map_inv_same:
  assumes "map_inv m" "same_map m m'" "buckets_ok (m_buckets m') (set (entries m))"
    "length (m_buckets m') = m_bucket_size m'" "0 < m_bucket_size m'"
  shows "map_inv m'"
proof -
  have e: "entries m' = entries m" using assms(2) by (simp add: same_map_def entries_def)
  show ?thesis
    using assms(1-5) unfolding map_inv_def e by (simp add: same_map_def)
qed

lemma MapRebuild_granted:
  assumes "map_inv m" "\<forall>n. mem n" "m_bucket_size m < 2 ^ 31"
  shows "\<exists>m'. MapRebuild mem m = Inr m' \<and> map_inv m' \<and> same_map m m'"
proof -
  note inv = map_invD [OF assms(1)]
  let ?n = "m_bucket_size m * 2 mod 2 ^ 32"
  have n: "?n = m_bucket_size m * 2" "0 < ?n" using assms(3) inv(5) by simp_all
  have "\<exists>bs' uc'. rebuild_items mem (length (replicate ?n (None :: 'a map_item arr option)))
        (map Some (entries m)) (replicate ?n None) 0 = Inr (bs', uc') \<and>
      length bs' = length (replicate ?n (None :: 'a map_item arr option)) \<and> buckets_ok bs' ({} \<union> set (entries m))"
    using n(2) inv(2,9) buckets_empty by (intro rebuild_items_granted [OF assms(2)]) simp_all
  then obtain bs' uc' where r: "rebuild_items mem ?n (map Some (entries m)) (replicate ?n None) 0 = Inr (bs', uc')"
    "length bs' = ?n" "buckets_ok bs' (set (entries m))" by (auto simp only: length_replicate Un_empty_left)
  let ?m = "m\<lparr>m_buckets := bs', m_bucket_size := ?n, m_use_count := uc'\<rparr>"
  have eq: "MapRebuild mem m = Inr ?m"
    using assms(2) n(2) r(1) by (simp add: MapRebuild_def Let_def inv(8))
  have same: "same_map m ?m" by (simp add: same_map_def)
  have "map_inv ?m" using r n(2) by (intro map_inv_same [OF assms(1) same]) simp_all
  with eq same show ?thesis by blast
qed

lemma find_bucket_granted:
  assumes "map_inv m" "\<forall>n. mem n" "m_bucket_size m < 2 ^ 31"
  shows "\<exists>j b m'. find_bucket mem m h = Inr (j, b, m') \<and> map_inv m' \<and> same_map m m' \<and>
    j = unat h mod m_bucket_size m' \<and> m_buckets m' ! j = Some b"
proof -
  obtain nb :: "'a map_item arr" where nb: "new_bucket mem = Some nb" "sorted_inv MapComparator valid_item nb" "items nb = []"
    using new_bucket_granted [OF assms(2)] .
  have add: "\<exists>m'. add_bucket mem m1 j = Inr (j, nb, m') \<and> map_inv m' \<and> same_map m1 m' \<and>
      m_bucket_size m' = m_bucket_size m1 \<and> m_buckets m' ! j = Some nb"
    if m1: "map_inv m1" "j < m_bucket_size m1" "m_buckets m1 ! j = None" for m1 :: "'a cmap" and j
  proof -
    let ?m = "m1\<lparr>m_buckets := (m_buckets m1)[j := Some nb], m_use_count := m_use_count m1 + 1\<rparr>"
    note inv = map_invD [OF m1(1)]
    have same: "same_map m1 ?m" by (simp add: same_map_def)
    have "buckets_ok (m_buckets ?m) (set (entries m1))"
      using buckets_new [OF inv(3) _ m1(3) nb(2,3)] m1(2) inv(4) by simp
    then have "map_inv ?m" using inv(4,5) by (intro map_inv_same [OF m1(1) same]) simp_all
    with same nb(1) m1(2) inv(4) show ?thesis by (simp add: add_bucket_def)
  qed
  note inv = map_invD [OF assms(1)]
  let ?j = "unat h mod m_bucket_size m"
  have j: "?j < m_bucket_size m" using inv(5) by simp
  show ?thesis
  proof (cases "m_buckets m ! ?j")
    case (Some b)
    with assms(1) show ?thesis by (auto simp: find_bucket_def same_map_def)
  next
    case None
    show ?thesis
    proof (cases "too_full m")
      case False
      with add [OF assms(1) j None] None show ?thesis by (auto simp: find_bucket_def)
    next
      case True
      obtain m1 where m1: "MapRebuild mem m = Inr m1" "map_inv m1" "same_map m m1"
        using MapRebuild_granted [OF assms] by blast
      let ?j1 = "unat h mod m_bucket_size m1"
      have pos: "0 < m_bucket_size m1" using map_invD(5) [OF m1(2)] .
      then have j1: "?j1 < m_bucket_size m1" by simp
      show ?thesis
      proof (cases "m_buckets m1 ! ?j1")
        case None': None
        with add [OF m1(2) j1 None'] None True m1 pos show ?thesis
          by (fastforce simp: find_bucket_def same_map_def)
      next
        case (Some b)
        with None True m1 pos show ?thesis by (auto simp: find_bucket_def)
      qed
    qed
  qed
qed

text \<open>The entry a \<open>Put\<close> makes, and the entries it keeps.\<close>

definition put_item :: "'v cmap \<Rightarrow> string \<Rightarrow> 'v ptr \<Rightarrow> 'v map_item" where
  "put_item m key v =
     \<lparr>mi_key = norm_key (m_is_ucase m) key, mi_value = v, mi_hash = map_hash (m_is_ucase m) key,
       mi_order = m_order_seq m\<rparr>"

definition others :: "'v cmap \<Rightarrow> string \<Rightarrow> 'v map_item list" where
  "others m k = filter (\<lambda>i. mi_key i \<noteq> k) (entries m)"

lemma entry_unique:
  assumes "map_inv m" "i \<in> set (entries m)"
  shows "filter (\<lambda>x. x \<noteq> i) (entries m) = others m (mi_key i)"
    "length (others m (mi_key i)) + 1 = length (entries m)"
proof -
  note inv = map_invD [OF assms(1)]
  show flt: "filter (\<lambda>x. x \<noteq> i) (entries m) = others m (mi_key i)"
    using assms(2) inv(2) unfolding others_def by (intro filter_cong) (auto simp: keyed_def inj_on_def)
  show "length (others m (mi_key i)) + 1 = length (entries m)"
    using length_filter_one [OF inv(9) assms(2)] by (simp only: flt)
qed

lemma others_absent: "k \<notin> mi_key ` set (entries m) \<Longrightarrow> others m k = entries m"
  by (auto simp: others_def filter_id_conv)

text \<open>Removing the entry of a key from the key set.\<close>

lemma keyset_others:
  assumes "map_inv m" "i \<in> set (entries m)"
  shows "items (snd (ArrayRemove (m_keyset m) (Some i))) = map Some (others m (mi_key i))"
    "sorted_inv MapCompareOrder valid_item (snd (ArrayRemove (m_keyset m) (Some i)))"
  using keyset_remove [OF map_invD(1,8) [OF assms(1)] assms(2) map_invD(11) [OF assms(1)]]
    entry_unique(1) [OF assms] by simp_all

lemma PutBase_granted:
  fixes v :: "'v ptr"
  assumes "map_inv m" "\<forall>n. mem n" "m_bucket_size m < 2 ^ 31" "NUL \<notin> set key"
  defines "x \<equiv> put_item m key v" and "k \<equiv> norm_key (m_is_ucase m) key"
  shows "\<exists>m'. MapPutBase mem m key v = Inr (Some x, al_get (alist m) k, m') \<and>
    sorted_inv MapCompareOrder valid_item (m_keyset m') \<and> items (m_keyset m') = map Some (others m k) \<and>
    m_size m' = length (others m k) + 1 \<and>
    buckets_ok (m_buckets m') (set (others m k @ [x])) \<and>
    length (m_buckets m') = m_bucket_size m' \<and> 0 < m_bucket_size m' \<and>
    m_order_seq m' = m_order_seq m + 1 \<and> m_is_ucase m' = m_is_ucase m"
proof -
  define u where "u = m_is_ucase m"
  obtain j b m1 where fb: "find_bucket mem m (map_hash u key) = Inr (j, b, m1)" "map_inv m1" "same_map m m1"
    "j = unat (map_hash u key) mod m_bucket_size m1" "m_buckets m1 ! j = Some b"
    using find_bucket_granted [OF assms(1-3)] by blast
  note inv = map_invD [OF fb(2)]
  have same: "entries m1 = entries m" "m_is_ucase m1 = u" "m_order_seq m1 = m_order_seq m"
    "m_keyset m1 = m_keyset m" "others m1 = others m" "m_size m1 = m_size m"
    using fb(3) by (auto simp: same_map_def entries_def others_def u_def)
  have x: "NUL \<notin> set (mi_key x)" "mi_hash x = map_hash u (mi_key x)" "mi_key x = k"
    using assms(4) by (simp_all add: x_def k_def put_item_def u_def)
  have j: "j < length (m_buckets m1)" "bidx (length (m_buckets m1)) x = j"
    using inv(4,5) fb(4) by (simp_all add: bidx_def x_def put_item_def u_def)
  obtain r b' where add: "ArrayAdd mem b (Some x) True = (r, b')" by fastforce
  note put0 = bucket_put [OF inv(3) [unfolded same(1)] inv(2) [unfolded same(1,2)] j(1) fb(5) x(1,2) j(2) assms(2)]
  note put = put0(1,2) [where w = True, unfolded add fst_conv snd_conv] put0(3,4) [unfolded add fst_conv snd_conv]
  have bs: "buckets_ok ((m_buckets m1)[j := Some b']) (set (others m k @ [x]))"
    using put(2) by (simp add: same others_def x(3))
  define m3 where "m3 = (m1\<lparr>m_order_seq := m_order_seq m + 1\<rparr>)\<lparr>m_buckets := (m_buckets m1)[j := Some b']\<rparr>"
  have base: "MapPutBase mem m key v =
      (case add_ret r of
         Some (Some i) \<Rightarrow> Inr (Some x, mi_value i, m3\<lparr>m_keyset := snd (ArrayRemove (m_keyset m3) (Some i))\<rparr>)
       | _ \<Rightarrow> Inr (Some x, NULL, m3\<lparr>m_size := m_size m3 + 1\<rparr>))"
  proof -
    have item: "\<lparr>mi_key = norm_key u key, mi_value = v, mi_hash = map_hash u key, mi_order = m_order_seq m\<rparr> = x"
      by (simp add: x_def put_item_def u_def)
    show ?thesis
      using assms(2) map_invD(5) [OF assms(1)] fb(1) put(1)
      unfolding MapPutBase_def Let_def u_def [symmetric]
      by (cases "add_ret r"; cases "the (add_ret r)") (simp_all add: item add m3_def same)
  qed
  show ?thesis
  proof (cases "k \<in> mi_key ` set (entries m)")
    case True
    then obtain i where i: "i \<in> set (entries m)" "mi_key i = k" by auto
    have "add_ret r = Some (Some i)" using put(3) [of i] i by (simp add: same x(3))
    then have eq: "MapPutBase mem m key v = Inr (Some x, al_get (alist m) k,
        m3\<lparr>m_keyset := snd (ArrayRemove (m_keyset m) (Some i))\<rparr>)"
      using map_of_entries(1) [OF assms(1) i(1)] i(2) by (simp add: base m3_def same)
    show ?thesis
      using keyset_others [OF assms(1) i(1)] entry_unique(2) [OF assms(1) i(1)] i(2) bs inv(4,5,6) eq
      by (intro exI [of _ "m3\<lparr>m_keyset := snd (ArrayRemove (m_keyset m) (Some i))\<rparr>"])
        (simp add: m3_def same u_def)
  next
    case False
    have "add_ret r = None" using put(4) False by (simp add: same x(3))
    then have eq: "MapPutBase mem m key v = Inr (Some x, al_get (alist m) k, m3\<lparr>m_size := m_size m + 1\<rparr>)"
      using map_of_entries(2) [OF assms(1) False] by (simp add: base m3_def same)
    show ?thesis
      using others_absent [OF False] bs inv(1,4,5,6,8) eq
      by (intro exI [of _ "m3\<lparr>m_size := m_size m + 1\<rparr>"]) (simp add: m3_def same u_def)
  qed
qed

lemma keyed_put:
  assumes "map_inv m" "m_order_seq m < 2 ^ 31 - 1" "NUL \<notin> set key"
  shows "keyed (m_is_ucase m) (set (others m (norm_key (m_is_ucase m) key) @ [put_item m key v]))"
    (is "keyed _ (set ?es)")
proof -
  note inv = map_invD [OF assms(1)]
  have "card (set ?es) \<le> length ?es" by (rule card_length)
  also have "\<dots> \<le> length (entries m) + 1" by (simp add: others_def)
  finally have "int (card (set ?es)) < 2 ^ 31" using inv(7) assms(2) by linarith
  then have "card (set ?es) < 2 ^ 32" by simp
  moreover have "inj_on mi_key (set ?es)"
    using inv(2) by (auto simp: inj_on_def keyed_def others_def put_item_def)
  moreover have "NUL \<notin> set (mi_key i) \<and> mi_hash i = map_hash (m_is_ucase m) (mi_key i)" if "i \<in> set ?es" for i
    using that inv(2) assms(3) by (auto simp: keyed_def others_def put_item_def)
  ultimately show ?thesis by (simp add: keyed_def)
qed

lemma Put_granted:
  assumes "map_inv m" "\<forall>n. mem n" "m_bucket_size m < 2 ^ 31" "m_order_seq m < 2 ^ 31 - 1" "NUL \<notin> set key"
  defines "k \<equiv> norm_key (m_is_ucase m) key"
  shows "\<exists>m'. MapPut mem m key v = Inr (True, al_get (alist m) k, m') \<and> map_inv m' \<and>
    alist m' = al_put k v (alist m) \<and> m_order_seq m' = m_order_seq m + 1 \<and> m_is_ucase m' = m_is_ucase m"
proof -
  define x where "x = put_item m key v"
  let ?es = "others m k @ [x]"
  obtain m1 where b: "MapPutBase mem m key v = Inr (Some x, al_get (alist m) k, m1)"
    "sorted_inv MapCompareOrder valid_item (m_keyset m1)" "items (m_keyset m1) = map Some (others m k)"
    "m_size m1 = length (others m k) + 1" "buckets_ok (m_buckets m1) (set ?es)"
    "length (m_buckets m1) = m_bucket_size m1" "0 < m_bucket_size m1"
    "m_order_seq m1 = m_order_seq m + 1" "m_is_ucase m1 = m_is_ucase m"
    using PutBase_granted [OF assms(1,2,3,5), of v] unfolding x_def k_def by blast
  note inv = map_invD [OF assms(1)]
  have old: "norm_key (m_is_ucase m) (mi_key i) = mi_key i \<and> 0 \<le> mi_order i \<and> mi_order i < m_order_seq m"
    if "i \<in> set (others m k)" for i
    using assms(1) that by (auto simp: map_inv_def others_def)
  have len: "length (others m k) \<le> length (entries m)" by (simp add: others_def)
  have x: "NUL \<notin> set (mi_key x)" "mi_order x = m_order_seq m" "mi_key x = k"
    "norm_key (m_is_ucase m) (mi_key x) = mi_key x"
    using assms(5) by (simp_all add: x_def put_item_def k_def)
  obtain r ks where a: "ArrayAdd mem (m_keyset m1) (Some x) False = (r, ks)" by fastforce
  have ks: "add_ok r" "items ks = map Some ?es" "sorted_inv MapCompareOrder valid_item ks"
    using keyset_add [OF b(2,3) _ _ x(1) assms(2)] old x(2) len inv(11) a by auto
  let ?m = "m1\<lparr>m_keyset := ks\<rparr>"
  have eq: "MapPut mem m key v = Inr (True, al_get (alist m) k, ?m)"
    using b(1) a ks(1) by (simp add: MapPut_def)
  have ent: "entries ?m = ?es" using ks(2) by (simp add: entries_def comp_def)
  have ord: "norm_key (m_is_ucase m) (mi_key i) = mi_key i \<and> 0 \<le> mi_order i \<and> mi_order i < m_order_seq m + 1"
    if "i \<in> set ?es" for i
    using that old x inv(7) by fastforce
  have "int (length ?es) \<le> m_order_seq m + 1" using len inv(7) by simp
  then have "map_inv ?m"
    using ks(3) b(4-9) ord keyed_put [OF assms(1,4,5), of v]
    unfolding map_inv_def ent by (simp add: x_def [symmetric] k_def [symmetric])
  moreover have "alist ?m = al_put k v (alist m)"
    using x(3) by (simp add: alist_def ent al_put_def others_def filter_map comp_def x_def put_item_def)
  ultimately show ?thesis using eq b(8,9) by (intro exI [of _ ?m]) simp
qed

section \<open>Get, Remove, access by index\<close>

lemma Get_granted:
  assumes "map_inv m" "\<forall>n. mem n" "NUL \<notin> set key"
  shows "MapGet mem m key = Inr (al_get (alist m) (norm_key (m_is_ucase m) key))"
proof -
  note inv = map_invD [OF assms(1)]
  define k where "k = norm_key (m_is_ucase m) key"
  define j where "j = unat (map_hash (m_is_ucase m) key) mod m_bucket_size m"
  have j: "j < length (m_buckets m)" "j = unat (map_hash (m_is_ucase m) k) mod length (m_buckets m)"
    using inv(4,5) by (simp_all add: j_def k_def)
  have k: "NUL \<notin> set k" using assms(3) by (simp add: k_def)
  show ?thesis
  proof (cases "m_buckets m ! j")
    case None
    have "k \<notin> mi_key ` set (entries m)"
    proof
      assume "k \<in> mi_key ` set (entries m)"
      then obtain i where "i \<in> set (entries m)" "mi_key i = k" by auto
      then have "i \<in> {i \<in> set (entries m). bidx (length (m_buckets m)) i = j}"
        using inv(2) j(2) by (auto simp: keyed_def bidx_def)
      with buckets_okD(1) [OF inv(3) j(1) None] show False by blast
    qed
    with None map_of_entries(2) [OF assms(1)] inv(5) show ?thesis
      by (simp add: MapGet_def Let_def j_def [symmetric] k_def [symmetric])
  next
    case (Some a)
    note f = bucket_remove(4,5) [OF inv(3,2) j(1) Some k j(2)]
    show ?thesis
    proof (cases "k \<in> mi_key ` set (entries m)")
      case True
      then obtain i where i: "i \<in> set (entries m)" "mi_key i = k" by auto
      with Some f(1) [OF i] map_of_entries(1) [OF assms(1) i(1)] inv(5) assms(2) show ?thesis
        by (simp add: MapGet_def Let_def j_def [symmetric] k_def [symmetric])
    next
      case False
      with Some f(2) [OF False] map_of_entries(2) [OF assms(1) False] inv(5) assms(2) show ?thesis
        by (simp add: MapGet_def Let_def j_def [symmetric] k_def [symmetric])
    qed
  qed
qed

text \<open>
  \<open>Remove\<close> does not count down for an entry whose value is NULL; with the size put right the map is
  well-formed in every case.
\<close>

lemma map_inv_remove:
  assumes "map_inv m" "sorted_inv MapCompareOrder valid_item ks" "items ks = map Some (others m k)"
    "buckets_ok bs {i \<in> set (entries m). mi_key i \<noteq> k}" "length bs = m_bucket_size m"
  shows "map_inv (m\<lparr>m_buckets := bs, m_keyset := ks, m_size := length (others m k)\<rparr>)"
proof -
  let ?m = "m\<lparr>m_buckets := bs, m_keyset := ks, m_size := length (others m k)\<rparr>"
  note inv = map_invD [OF assms(1)]
  have e: "entries ?m = others m k" using assms(3) by (simp add: entries_def comp_def)
  have s: "set (others m k) = {i \<in> set (entries m). mi_key i \<noteq> k}" by (auto simp: others_def)
  have "keyed (m_is_ucase m) (set (others m k))" using inv(2) by (rule keyed_subset) (auto simp: others_def)
  moreover have "length (others m k) \<le> length (entries m)" by (simp add: others_def)
  then have "int (length (others m k)) \<le> m_order_seq m" using inv(7) by linarith
  moreover have "\<forall>i \<in> set (others m k). norm_key (m_is_ucase m) (mi_key i) = mi_key i \<and>
      0 \<le> mi_order i \<and> mi_order i < m_order_seq m"
    using assms(1) by (auto simp: map_inv_def others_def)
  ultimately show ?thesis
    using assms(2,4,5) inv(5) unfolding map_inv_def e by (simp add: s)
qed

lemma Remove_granted:
  assumes "map_inv m" "\<forall>n. mem n" "NUL \<notin> set key"
  defines "k \<equiv> norm_key (m_is_ucase m) key"
  shows "\<exists>m'. MapRemove mem m key = Inr (al_get (alist m) k, m') \<and> alist m' = al_remove k (alist m) \<and>
    m_size m' = length (alist m') + (if map_of (alist m) k = Some NULL then 1 else 0) \<and>
    map_inv (m'\<lparr>m_size := length (alist m')\<rparr>) \<and> m_order_seq m' = m_order_seq m \<and>
    m_is_ucase m' = m_is_ucase m"
proof -
  note inv = map_invD [OF assms(1)]
  define j where "j = unat (map_hash (m_is_ucase m) key) mod m_bucket_size m"
  have j: "j < length (m_buckets m)" "j = unat (map_hash (m_is_ucase m) k) mod length (m_buckets m)"
    using inv(4,5) by (simp_all add: j_def k_def)
  have k: "NUL \<notin> set k" using assms(3) by (simp add: k_def)
  have al: "map (\<lambda>i. (mi_key i, mi_value i)) (others m k) = al_remove k (alist m)"
    by (simp add: al_remove_def alist_def others_def filter_map comp_def)
  have d: "distinct (map fst (alist m))"
    using inv(2,9) by (simp add: alist_def comp_def distinct_map keyed_def)
  show ?thesis
  proof (cases "k \<in> mi_key ` set (entries m)")
    case False
    have kn: "map_of (alist m) k = None" using False by (auto simp: map_of_eq_None_iff alist_def image_image)
    have keep: "al_remove k (alist m) = alist m" using others_absent [OF False] al by (simp add: alist_def)
    show ?thesis
    proof (cases "m_buckets m ! j")
      case None
      with inv(5,6) kn keep assms(1) show ?thesis
        by (intro exI [of _ m])
          (simp add: MapRemove_def Let_def j_def [symmetric] al_get_def alist_def map_inv_size)
    next
      case (Some a)
      note rm = bucket_remove(1,3) [OF inv(3,2) j(1) Some k j(2)]
      let ?bs = "(m_buckets m)[j := Some (snd (ArrayRemove a (Some (probe_item k))))]"
      let ?m = "m\<lparr>m_buckets := ?bs\<rparr>"
      have eq: "MapRemove mem m key = Inr (NULL, ?m)"
        using Some inv(5) assms(2) rm(2) [OF False]
        by (simp add: MapRemove_def Let_def j_def [symmetric] k_def [symmetric] split: prod.splits) auto
      have "{i \<in> set (entries m). mi_key i \<noteq> k} = set (entries m)" using False by auto
      then have "map_inv ?m"
        using rm(1) inv(4,5) by (intro map_inv_same [OF assms(1)]) (simp_all add: same_map_def)
      then have "map_inv (?m\<lparr>m_size := length (entries m)\<rparr>)" using inv(6) by (simp add: map_inv_def entries_def)
      with eq kn keep inv(6) show ?thesis by (simp add: al_get_def alist_def entries_def)
    qed
  next
    case True
    then obtain i where i: "i \<in> set (entries m)" "mi_key i = k" by auto
    then have "i \<in> {i \<in> set (entries m). bidx (length (m_buckets m)) i = j}"
      using inv(2) j(2) by (auto simp: keyed_def bidx_def)
    then obtain a where a: "m_buckets m ! j = Some a"
      using buckets_okD(1) [OF inv(3) j(1)] by (cases "m_buckets m ! j") auto
    note rm = bucket_remove(1,2) [OF inv(3,2) j(1) a k j(2)]
    let ?bs = "(m_buckets m)[j := Some (snd (ArrayRemove a (Some (probe_item k))))]"
    let ?ks = "snd (ArrayRemove (m_keyset m) (Some i))"
    let ?n = "if mi_value i = NULL then m_size m else m_size m - 1"
    let ?m = "m\<lparr>m_buckets := ?bs, m_keyset := ?ks, m_size := ?n\<rparr>"
    have eq: "MapRemove mem m key = Inr (mi_value i, ?m)"
      using a inv(5) assms(2) rm(2) [OF i]
      by (cases "ArrayRemove a (Some (probe_item k)) :: 'a map_item ptr \<times> 'a map_item arr")
        (auto simp: MapRemove_def Let_def j_def [symmetric] k_def [symmetric])
    have ks: "items ?ks = map Some (others m k)" "sorted_inv MapCompareOrder valid_item ?ks"
      using keyset_others [OF assms(1) i(1)] i(2) by simp_all
    have ent: "alist ?m = al_remove k (alist m)"
      using ks(1) al by (simp add: alist_def entries_def comp_def)
    have v: "map_of (alist m) k = Some (mi_value i)"
      using i d by (intro map_of_is_SomeI) (auto simp: alist_def)
    have len: "length (alist ?m) = length (others m k)" unfolding ent al [symmetric] by simp
    have "length (others m k) + 1 = m_size m" using entry_unique(2) [OF assms(1) i(1)] i(2) inv(6) by simp
    then have size: "?n = length (alist ?m) + (if map_of (alist m) k = Some NULL then 1 else 0)"
      unfolding len v by auto
    have "map_inv (m\<lparr>m_buckets := ?bs, m_keyset := ?ks, m_size := length (others m k)\<rparr>)"
      using rm(1) ks inv(4) by (intro map_inv_remove [OF assms(1)]) simp_all
    then have "map_inv (?m\<lparr>m_size := length (alist ?m)\<rparr>)" unfolding len by simp
    with eq ent size v show ?thesis by (intro exI [of _ ?m]) (simp add: al_get_def)
  qed
qed

lemma nth_alist: "i < length (entries m) \<Longrightarrow> alist m ! i = (mi_key (entries m ! i), mi_value (entries m ! i))"
  by (simp add: alist_def)

lemma keyset_at:
  assumes "map_inv m"
  shows "ArrayGetAt (m_keyset m) i = (if i < length (alist m) then Some (entries m ! i) else NULL)"
  using GetAt_items [OF ocmp.sorted_invD(1) [OF map_invD(1) [OF assms]], of i] map_invD(8) [OF assms]
  by (simp add: alist_def)

text \<open>The values in the buckets are those of the entries, each once.\<close>

lemma sum_partition:
  assumes "finite S" "\<forall>i \<in> S. f i < (n :: nat)"
  shows "(\<Sum>j<n. mset_set {i \<in> S. f i = j}) = mset_set S"
proof (rule multiset_eqI)
  fix x
  have "count (\<Sum>j<n. mset_set {i \<in> S. f i = j}) x = (\<Sum>j<n. if x \<in> S \<and> f x = j then 1 else 0)"
    using assms(1) by (simp add: count_sum count_mset_set')
  also have "\<dots> = (if x \<in> S then 1 else 0)"
  proof (cases "x \<in> S")
    case True
    then have "f x \<in> {..<n}" using assms(2) by simp
    then show ?thesis using True by (simp only: simp_thms if_True) (subst sum.delta', simp_all)
  qed simp
  also have "\<dots> = count (mset_set S) x" using assms(1) by (simp add: count_mset_set')
  finally show "count (\<Sum>j<n. mset_set {i \<in> S. f i = j}) x = count (mset_set S) x" .
qed

lemma sum_image_mset: "(\<Sum>j<(n::nat). image_mset f (g j)) = image_mset f (\<Sum>j<n. g j)"
  by (induction n) auto

lemma bucket_values_mset:
  assumes "map_inv m"
  shows "mset (bucket_values (m_buckets m)) = mset (map snd (alist m))"
proof -
  note inv = map_invD [OF assms]
  let ?S = "set (entries m)"
  let ?n = "m_bucket_size m"
  let ?val = "\<lambda>p. case p of None \<Rightarrow> NULL | Some i \<Rightarrow> mi_value i"
  let ?g = "\<lambda>b. case b of None \<Rightarrow> [] | Some a \<Rightarrow> map ?val (items a)"
  have one: "mset (?g (m_buckets m ! j)) = image_mset mi_value (mset_set {i \<in> ?S. bidx ?n i = j})" if "j < ?n" for j
  proof (cases "m_buckets m ! j")
    case None
    with buckets_okD(1) [OF inv(3), of j] inv(4) that have "{i \<in> ?S. bidx ?n i = j} = {}" by simp
    with None show ?thesis by (simp only: mset_set.empty) simp
  next
    case (Some a)
    with buckets_okD(2,3) [OF inv(3), of j a] inv(4) that
    have a: "sorted_inv MapComparator valid_item a" "set (items a) = Some ` {i \<in> ?S. bidx ?n i = j}"
      by simp_all
    have "mset (items a) = mset_set (Some ` {i \<in> ?S. bidx ?n i = j})"
      using mset_set_set [OF mcmp.distinct_items [OF a(1)]] a(2) by simp
    also have "\<dots> = image_mset Some (mset_set {i \<in> ?S. bidx ?n i = j})"
      by (rule image_mset_mset_set [symmetric]) simp
    finally have ms: "mset (items a) = image_mset Some (mset_set {i \<in> ?S. bidx ?n i = j})" .
    show ?thesis by (simp add: Some ms image_mset.compositionality comp_def)
  qed
  have "mset (bucket_values (m_buckets m)) = sum_list (map (\<lambda>b. mset (?g b)) (m_buckets m))"
    by (simp add: bucket_values_def mset_concat comp_def)
  also have "\<dots> = (\<Sum>j<?n. mset (?g (m_buckets m ! j)))"
    using inv(4) by (simp add: sum_list_sum_nth atLeast0LessThan)
  also have "\<dots> = (\<Sum>j<?n. image_mset mi_value (mset_set {i \<in> ?S. bidx ?n i = j}))"
    using one by (intro sum.cong) auto
  also have "\<dots> = image_mset mi_value (\<Sum>j<?n. mset_set {i \<in> ?S. bidx ?n i = j})"
    by (rule sum_image_mset)
  also have "\<dots> = image_mset mi_value (mset_set ?S)"
    using sum_partition [of ?S "bidx ?n" ?n] inv(5) by (simp add: bidx_def)
  also have "\<dots> = mset (map snd (alist m))"
    using inv(9) by (simp add: alist_def comp_def mset_set_set)
  finally show ?thesis .
qed

section \<open>The contract of a map of strings\<close>

lemma map_of_filter_key: "map_of (filter (\<lambda>kv. fst kv \<noteq> k) kvs) = (map_of kvs)(k := None)"
  by (induction kvs) auto

lemma map_of_al_put: "map_of (al_put k v kvs) = (map_of kvs)(k \<mapsto> v)"
  by (rule ext) (auto simp: al_put_def map_add_def map_of_filter_key split: option.splits)

lemma keys_al_put: "fst ` set (al_put k v kvs) = insert k (fst ` set kvs)"
  by (force simp: al_put_def)

locale string_map =
  fixes inv :: "'s \<Rightarrow> bool" and al :: "'s \<Rightarrow> (string \<times> 'v ptr) list" and norm :: "string \<Rightarrow> string"
    and put :: "'s \<Rightarrow> string \<Rightarrow> 'v ptr \<Rightarrow> 's option" and get :: "'s \<Rightarrow> string \<Rightarrow> 'v ptr"
  assumes put_al: "inv s \<Longrightarrow> put s k v = Some s' \<Longrightarrow> inv s' \<and> al s' = al_put (norm k) v (al s)"
    and get_al: "inv s \<Longrightarrow> NUL \<notin> set k \<Longrightarrow> get s k = al_get (al s) (norm k)"
begin

fun put_each :: "'s \<Rightarrow> (string \<times> 'v ptr) list \<Rightarrow> 's option" where
  "put_each s [] = Some s"
| "put_each s ((k, v) # kvs) = (case put s k v of None \<Rightarrow> None | Some s' \<Rightarrow> put_each s' kvs)"

lemma put_each_al:
  "inv s \<Longrightarrow> put_each s kvs = Some s' \<Longrightarrow>
    inv s' \<and> al s' = fold (\<lambda>(k, v). al_put (norm k) v) kvs (al s)"
proof (induction kvs arbitrary: s)
  case (Cons kv kvs)
  obtain k v where kv: "kv = (k, v)" by fastforce
  with Cons.prems obtain u where u: "put s k v = Some u" "put_each u kvs = Some s'"
    by (auto split: option.splits)
  from put_al [OF Cons.prems(1) u(1)] Cons.IH [of u] u(2) show ?case by (simp add: kv)
qed simp

lemma map_of_puts:
  "map_of (fold (\<lambda>(k, v). al_put (norm k) v) kvs l) =
    map_of l ++ map_of (map (\<lambda>(k, v). (norm k, v)) (rev kvs))"
proof (induction kvs arbitrary: l)
  case (Cons kv kvs)
  then show ?case
    by (cases kv) (auto simp: map_of_al_put map_add_def fun_eq_iff split: option.splits)
qed simp

lemma keys_puts:
  "fst ` set (fold (\<lambda>(k, v). al_put (norm k) v) kvs l) = fst ` set l \<union> norm ` fst ` set kvs"
proof (induction kvs arbitrary: l)
  case (Cons kv kvs)
  obtain k v where kv: "kv = (k, v)" by fastforce
  show ?case using Cons.IH [of "al_put (norm k) v l"] by (simp add: kv keys_al_put)
qed simp

lemma put_each_get:
  assumes "inv s" "al s = []" "put_each s kvs = Some s'" "NUL \<notin> set k"
  shows "get s' k = al_get (map (\<lambda>(k, v). (norm k, v)) (rev kvs)) (norm k)"
proof -
  from put_each_al [OF assms(1,3)] have s': "inv s'" "al s' = fold (\<lambda>(k, v). al_put (norm k) v) kvs []"
    using assms(2) by simp_all
  from get_al [OF s'(1) assms(4)] show ?thesis by (simp add: s'(2) al_get_def map_of_puts)
qed

end

text \<open>
  The map of the code under that contract, memory granted: \<open>Put\<close> is only asked for while the table
  can still double and the order counter can still count.
\<close>

definition map_put_opt :: "'v cmap \<Rightarrow> string \<Rightarrow> 'v ptr \<Rightarrow> 'v cmap option" where
  "map_put_opt m k v =
     (if NUL \<in> set k \<or> m_bucket_size m \<ge> 2 ^ 31 \<or> m_order_seq m \<ge> 2 ^ 31 - 1 then None
      else (case MapPut (\<lambda>_. True) m k v of Inr (True, _, m') \<Rightarrow> Some m' | _ \<Rightarrow> None))"

definition map_get_val :: "'v cmap \<Rightarrow> string \<Rightarrow> 'v ptr" where
  "map_get_val m k = (case MapGet (\<lambda>_. True) m k of Inr v \<Rightarrow> v | Inl _ \<Rightarrow> NULL)"

definition map_inv_u :: "bool \<Rightarrow> 'v cmap \<Rightarrow> bool" where
  "map_inv_u u m \<longleftrightarrow> map_inv m \<and> m_is_ucase m = u"

interpretation smap: string_map "map_inv_u u" alist "norm_key u" map_put_opt map_get_val for u
proof
  fix m k v m'
  show "map_inv_u u m' \<and> alist m' = al_put (norm_key u k) v (alist m)"
    if m: "map_inv_u u m" and put: "map_put_opt m k v = Some m'"
  proof -
    from put have "m_bucket_size m < 2 ^ 31" "m_order_seq m < 2 ^ 31 - 1" "NUL \<notin> set k"
      and p: "(case MapPut (\<lambda>_. True) m k v of Inr (True, _, m') \<Rightarrow> Some m' | _ \<Rightarrow> None) = Some m'"
      by (simp_all add: map_put_opt_def split: if_splits)
    with m Put_granted [of m "\<lambda>_. True" k v] obtain m1 prev where
      "MapPut (\<lambda>_. True) m k v = Inr (True, prev, m1)" "map_inv m1"
      "alist m1 = al_put (norm_key u k) v (alist m)" "m_is_ucase m1 = u"
      by (auto simp: map_inv_u_def)
    with p show ?thesis by (simp add: map_inv_u_def)
  qed
  show "map_inv_u u m \<Longrightarrow> NUL \<notin> set k \<Longrightarrow> map_get_val m k = al_get (alist m) (norm_key u k)"
    using Get_granted [of m "\<lambda>_. True" k] by (simp add: map_get_val_def map_inv_u_def)
qed

lemma Create_map_granted:
  assumes "0 < n" "\<forall>k. mem k" "MapCreateEx mem n u fr lf = Inr (Some m)"
  shows "map_inv_u u m" "alist m = []" "m_bucket_size m = n" "m_order_seq m = 0"
proof -
  have m: "m_keyset m = \<lparr>a_data = replicate n NULL,
      a_capacity = n, a_size = 0, a_comparator = Some MapCompareOrder, a_freecb = False, a_sorted = True\<rparr>"
      "m_buckets m = replicate n None" "m_bucket_size m = n" "m_order_seq m = 0" "m_size m = 0" "m_is_ucase m = u"
    using assms(2,3) by (auto simp: MapCreateEx_def MapCreateInternal_def ArrayCreateInternal_def)
  have e: "entries m = []" by (simp add: entries_def m(1) items_def)
  show "map_inv_u u m"
    using assms(1) m buckets_empty
    by (simp add: map_inv_u_def map_inv_def e sorted_inv_def arr_inv_def items_def ascending_def keyed_def)
  show "alist m = []" "m_bucket_size m = n" "m_order_seq m = 0" using m e by (simp_all add: alist_def)
qed

section \<open>Properties\<close>

text \<open>
  C17: \<open>Put\<close>. With memory granted, a table that can double and an order counter that can count, \<open>Put\<close>
  succeeds whether or not it has to rebuild the table; it hands out the value it replaces, the
  entry stands last in the order of the map, all other entries stay, and the invariant of the
  table (hash of every bucket, sorted buckets, unique keys, size) is kept.
\<close>

theorem map_put:
  assumes "map_inv m" "\<forall>n. mem n" "m_bucket_size m < 2 ^ 31" "m_order_seq m < 2 ^ 31 - 1" "NUL \<notin> set key"
  shows "\<exists>m'. MapPut mem m key v = Inr (True, al_get (alist m) (norm_key (m_is_ucase m) key), m') \<and>
    map_inv m' \<and> alist m' = al_put (norm_key (m_is_ucase m) key) v (alist m)"
  using Put_granted [OF assms] by blast

definition map0 :: "nat cmap" where
  "map0 = \<lparr>m_buckets = [None, None], m_size = 0,
     m_keyset = \<lparr>a_data = [NULL, NULL], a_capacity = 2, a_size = 0, a_comparator = Some MapCompareOrder,
                 a_freecb = False, a_sorted = True\<rparr>,
     m_freecb = True, m_is_ucase = False, m_bucket_size = 2, m_use_count = 0, m_order_seq = 0,
     m_load_factor = (3, 4)\<rparr>"

lemma map0_inv: "map_inv map0" "alist map0 = []" "m_is_ucase map0 = False"
  by (simp_all add: map0_def map_inv_def sorted_inv_def arr_inv_def items_def ascending_def entries_def
      alist_def keyed_def buckets_ok_def bucket_ok_def nth_Cons' less_Suc_eq numeral_2_eq_2)

lemma map_put_witness:
  "\<exists>m'. MapPut (\<lambda>_. True) map0 ''a'' (Some 7) = Inr (True, NULL, m') \<and> map_inv m' \<and> alist m' = [(''a'', Some 7)]"
  using map_put [OF map0_inv(1), of "\<lambda>_. True" "''a''" "Some 7"] map0_inv
  by (simp add: al_get_def al_put_def norm_key_def) (simp add: map0_def)

text \<open>
  C18: \<open>Get\<close> and \<open>Remove\<close>. \<open>Get\<close> is the lookup in the association list, by the key in upper case for
  a map that ignores case; \<open>Remove\<close> returns the same value and removes exactly that entry. The
  map stays well-formed unless the removed entry held NULL.
\<close>

theorem map_get_remove:
  assumes "map_inv m" "\<forall>n. mem n" "NUL \<notin> set key"
  shows "MapGet mem m key = Inr (al_get (alist m) (norm_key (m_is_ucase m) key)) \<and>
    (\<exists>m'. MapRemove mem m key = Inr (al_get (alist m) (norm_key (m_is_ucase m) key), m') \<and>
      alist m' = al_remove (norm_key (m_is_ucase m) key) (alist m) \<and>
      (map_of (alist m) (norm_key (m_is_ucase m) key) = Some NULL \<or> map_inv m'))"
proof -
  obtain m' where m': "MapRemove mem m key = Inr (al_get (alist m) (norm_key (m_is_ucase m) key), m')"
    "alist m' = al_remove (norm_key (m_is_ucase m) key) (alist m)"
    "m_size m' = length (alist m') + (if map_of (alist m) (norm_key (m_is_ucase m) key) = Some NULL then 1 else 0)"
    "map_inv (m'\<lparr>m_size := length (alist m')\<rparr>)"
    using Remove_granted [OF assms] by blast
  have "map_inv m'" if "map_of (alist m) (norm_key (m_is_ucase m) key) \<noteq> Some NULL"
  proof -
    have "m_size m' = length (alist m')" using m'(3) that by simp
    then have "m'\<lparr>m_size := length (alist m')\<rparr> = m'" by simp
    with m'(4) show ?thesis by simp
  qed
  with m' Get_granted [OF assms] show ?thesis by blast
qed

lemma map_get_remove_witness: "MapGet (\<lambda>_. True) map0 ''a'' = Inr NULL"
  using map_get_remove [OF map0_inv(1), of "\<lambda>_. True" "''a''"] map0_inv by (simp add: al_get_def)

text \<open>
  an entry that holds NULL. Removing it takes it out of the map but leaves the size as it was:
  \<open>GetSize\<close> counts one entry too many, and \<open>GetAt\<close> and \<open>RemoveAt\<close> at the index after the last
  entry pass their bound check and read through NULL.
\<close>

theorem map_remove_null_value:
  assumes "map_inv m" "\<forall>n. mem n" "NUL \<notin> set key"
    "map_of (alist m) (norm_key (m_is_ucase m) key) = Some NULL"
  shows "\<exists>m'. MapRemove mem m key = Inr (NULL, m') \<and> MapGetSize m' = length (alist m') + 1 \<and>
    MapGetAt mem m' (length (alist m')) = Inl Null_Deref \<and>
    MapRemoveAt mem m' (length (alist m')) = Inl Null_Deref"
proof -
  obtain m' where m': "MapRemove mem m key = Inr (NULL, m')" "m_size m' = length (alist m') + 1"
    "map_inv (m'\<lparr>m_size := length (alist m')\<rparr>)"
    using Remove_granted [OF assms(1-3)] assms(4) by (auto simp: al_get_def)
  have "ArrayGetAt (m_keyset m') (length (alist m')) = NULL"
    using keyset_at [OF m'(3), of "length (alist m')"] by simp
  with m' show ?thesis by (simp add: MapGetSize_def MapGetAt_def MapRemoveAt_def)
qed

lemma map_remove_null_value_witness:
  "\<exists>m m'. MapRemove (\<lambda>_. True) m ''a'' = Inr (NULL, m') \<and> alist m' = ([] :: (string \<times> nat ptr) list) \<and>
     MapGetSize m' = 1 \<and> MapGetAt (\<lambda>_. True) m' 0 = Inl Null_Deref"
proof -
  have "m_bucket_size map0 < 2 ^ 31" "m_order_seq map0 < 2 ^ 31 - 1" by (simp_all add: map0_def)
  with Put_granted [OF map0_inv(1), of "\<lambda>_. True" "''a''" NULL] map0_inv
  obtain m :: "nat cmap" where m: "map_inv m" "alist m = [(''a'', NULL)]" "m_is_ucase m = False"
    by (auto simp: al_put_def norm_key_def)
  then have k: "map_of (alist m) (norm_key (m_is_ucase m) ''a'') = Some NULL" by (simp add: norm_key_def)
  obtain m' where m': "MapRemove (\<lambda>_. True) m ''a'' = Inr (NULL, m')" "MapGetSize m' = length (alist m') + 1"
    "MapGetAt (\<lambda>_. True) m' (length (alist m')) = Inl Null_Deref"
    using map_remove_null_value [OF m(1) _ _ k, of "\<lambda>_. True"] by auto
  have "alist m' = al_remove (norm_key (m_is_ucase m) ''a'') (alist m)"
    using Remove_granted [OF m(1), of "\<lambda>_. True" "''a''"] m'(1) by auto
  with m(2,3) have "alist m' = []" by (simp add: al_remove_def norm_key_def)
  with m' show ?thesis by fastforce
qed

text \<open>
  \<open>Clear\<close> and \<open>Destroy\<close> hand every value of the map to the free callback exactly once, and none
  when there is no callback; a cleared map is a well-formed empty one.
\<close>

theorem map_clear_frees:
  assumes "map_inv m"
  shows "case MapClear m of (freed, m') \<Rightarrow>
    mset freed = (if m_freecb m then mset (map snd (alist m)) else {#}) \<and>
    MapDestroy m = freed \<and> map_inv m' \<and> alist m' = []"
proof -
  note inv = map_invD [OF assms]
  obtain freed m' where c: "MapClear m = (freed, m')" by fastforce
  have fr: "freed = (if m_freecb m then bucket_values (m_buckets m) else [])"
    and m': "m_buckets m' = map (map_option (\<lambda>b. snd (ArrayClear b))) (m_buckets m)"
      "m_keyset m' = snd (ArrayClear (m_keyset m))" "m_size m' = 0" "m_bucket_size m' = m_bucket_size m"
      "m_order_seq m' = m_order_seq m"
    using c by (auto simp: MapClear_def MapClearBase_def split: if_splits)
  have clear: "sorted_inv cmp valid_item (snd (ArrayClear a)) \<and> items (snd (ArrayClear a)) = []"
    if "sorted_inv cmp valid_item a" for cmp and a :: "'a map_item arr"
    using that by (simp add: sorted_inv_def ArrayClear_def arr_inv_def items_def ascending_def)
  have e: "entries m' = []" using clear [OF inv(1)] m'(2) by (simp add: entries_def)
  have "bucket_ok (m_buckets m' ! j) {}" if "j < length (m_buckets m')" for j
    using that buckets_okD(2) [OF inv(3), of j] clear
    by (cases "m_buckets m ! j") (auto simp: m'(1) bucket_ok_def)
  then have "map_inv m'"
    unfolding map_inv_def e
    using clear [OF inv(1)] m' inv(4,5,7) by (simp add: keyed_def buckets_ok_def)
  with c fr e bucket_values_mset [OF assms] show ?thesis by (simp add: MapDestroy_def alist_def)
qed

lemma map_clear_frees_witness: "MapDestroy map0 = fst (MapClear map0) \<and> alist (snd (MapClear map0)) = []"
  using map_clear_frees [OF map0_inv(1)] by (auto split: prod.splits)

text \<open>
  C16: a map after any history of \<open>Put\<close>s. Whatever the number of buckets, the load factor and the
  rebuilds in between, \<open>Get\<close> returns the value of the last pair with an equal key (equal in upper
  case for a map that ignores case) and \<open>GetSize\<close> is the number of different keys.
\<close>

theorem map_history:
  assumes "MapCreateEx mem n u fr lf = Inr (Some m0)" "0 < n" "\<forall>k. mem k"
    "smap.put_each m0 kvs = Some m" "NUL \<notin> set key"
  shows "MapGet mem m key = Inr (al_get (map (\<lambda>(k, v). (norm_key u k, v)) (rev kvs)) (norm_key u key)) \<and>
    MapGetSize m = card (norm_key u ` fst ` set kvs)"
proof -
  have m0: "map_inv_u u m0" "alist m0 = []"
    using Create_map_granted [OF assms(2,3,1)] by simp_all
  have m: "map_inv m" "m_is_ucase m = u" and al: "alist m = fold (\<lambda>(k, v). al_put (norm_key u k) v) kvs []"
    using smap.put_each_al [OF m0(1) assms(4)] m0(2) by (auto simp: map_inv_u_def)
  have "map_get_val m key = al_get (map (\<lambda>(k, v). (norm_key u k, v)) (rev kvs)) (norm_key u key)"
    by (rule smap.put_each_get [OF m0 assms(4,5)])
  then have get: "MapGet mem m key = Inr (al_get (map (\<lambda>(k, v). (norm_key u k, v)) (rev kvs)) (norm_key u key))"
    using Get_granted [OF m(1) assms(3,5)] Get_granted [OF m(1) _ assms(5), of "\<lambda>_. True"]
    by (simp add: map_get_val_def)
  have "distinct (map fst (alist m))"
    using map_invD(2,9) [OF m(1)] by (simp add: alist_def comp_def distinct_map keyed_def)
  then have "length (alist m) = card (fst ` set (alist m))" by (metis distinct_card length_map list.set_map)
  then have "length (alist m) = card (norm_key u ` fst ` set kvs)"
    using smap.keys_puts [of u kvs "[]"] by (simp add: al)
  moreover have "length (alist m) = m_size m" using map_invD(6) [OF m(1)] by (simp add: alist_def)
  ultimately have "MapGetSize m = card (norm_key u ` fst ` set kvs)" by (simp add: MapGetSize_def)
  with get show ?thesis by blast
qed

lemma map_history_witness:
  "\<exists>m0 m. MapCreateEx (\<lambda>_. True) 1 True False (3, 4) = Inr (Some m0) \<and>
     smap.put_each m0 [(''ab'', Some (1 :: nat))] = Some m \<and>
     MapGet (\<lambda>_. True) m ''Ab'' = Inr (Some 1) \<and> MapGetSize m = 1"
proof -
  obtain m0 :: "nat cmap" where m0: "MapCreateEx (\<lambda>_. True) 1 True False (3, 4) = Inr (Some m0)"
    by (simp add: MapCreateEx_def MapCreateInternal_def ArrayCreateInternal_def)
  note c = Create_map_granted [OF _ _ m0, simplified]
  then have inv: "map_inv m0" "m_bucket_size m0 < 2 ^ 31" "m_order_seq m0 < 2 ^ 31 - 1"
    by (simp_all add: map_inv_u_def)
  have up: "norm_key True ''ab'' = ''AB''" "norm_key True ''Ab'' = ''AB''"
    by (simp_all add: norm_key_def MapToUpper_def toupper_def code_def char_of_def)
  obtain m prev where "MapPut (\<lambda>_. True) m0 ''ab'' (Some 1) = Inr (True, prev, m)"
    using Put_granted [OF inv(1) _ inv(2,3), of "\<lambda>_. True" "''ab''" "Some 1"] by auto
  with inv have put: "smap.put_each m0 [(''ab'', Some 1)] = Some m"
    by (simp add: map_put_opt_def)
  show ?thesis
    using map_history [OF m0 _ _ put, of "''Ab''"] m0 put by (auto simp: up al_get_def)
qed

end
