(* ===== verification/Cmu_Pattern.thy ===== *)
theory Cmu_Pattern
  imports Cmu_Prelude
begin

text \<open>
  \<open>src/src/pattern.c\<close>, the wildcard patterns, as compiled outside Windows (\<open>UNIX\<close>: backslash
  quotes, no case folding) and with \<open>DELIM\<close> 0. A pattern and a name are the bytes before their
  terminators, so \<open>*p == 0\<close> is the empty rest. The reference semantics are the trees \<open>pat\<close> and
  their meaning \<open>means\<close>.
\<close>

section \<open>The code\<close>

definition QUOTE :: char where "QUOTE = CHR 0x5C"
definition SUBC :: char where "SUBC = CHR 0x1A"

text \<open>The (signed) value that a \<open>char\<close> has when it is widened to \<open>int\<close> for a comparison.\<close>

definition char_int :: "char \<Rightarrow> int" where
  "char_int c = (if code c < 128 then code c else code c - 256)"

definition unquote :: "string \<Rightarrow> string" where
  "unquote s = (case s of [] \<Rightarrow> [] | c # r \<Rightarrow> if c = QUOTE then r else s)"

text \<open>
  One character or range of a set, the same steps in the check and in the match: its bounds and the
  rest, or \<open>None\<close> when the pattern ends inside the set.
\<close>

definition set_range :: "string \<Rightarrow> (char \<times> char \<times> string) option" where
  "set_range s =
     (case unquote s of
        [] \<Rightarrow> None
      | lo # s1 \<Rightarrow>
          (case s1 of
             [] \<Rightarrow> None
           | c # s2 \<Rightarrow>
               if c = CHR ''-'' then
                 (case unquote s2 of
                    [] \<Rightarrow> None
                  | hi # s3 \<Rightarrow> if s3 = [] then None else Some (lo, hi, s3))
               else Some (lo, lo, s1)))"

lemma set_range_shorter: "set_range s = Some (lo, hi, r) \<Longrightarrow> length r < length s"
  by (auto simp: set_range_def unquote_def split: list.splits if_splits)

text \<open>The loop over a set in \<open>CMUTIL_PatternIsValid\<close>: the pattern behind the closing bracket.\<close>

function set_end :: "string \<Rightarrow> string option" where
  "set_end [] = None"
| "set_end (c # r) =
     (if c = CHR '']'' then Some r
      else (case set_range (c # r) of None \<Rightarrow> None | Some (lo, hi, rest) \<Rightarrow> set_end rest))"
  by pat_completeness auto
termination
  by (relation "measure length") (auto dest: set_range_shorter)

lemma set_end_shorter: "set_end s = Some r \<Longrightarrow> length r < length s"
  by (induction s rule: set_end.induct) (fastforce split: if_splits option.splits dest: set_range_shorter)+

definition skip_not :: "string \<Rightarrow> bool \<times> string" where
  "skip_not s = (case s of [] \<Rightarrow> (True, []) | c # r \<Rightarrow> if c = CHR ''!'' then (False, r) else (True, s))"

lemma skip_not_shorter: "length (snd (skip_not s)) \<le> length s"
  by (auto simp: skip_not_def split: list.split)

function valid_pat :: "string \<Rightarrow> bool" where
  "valid_pat [] = True"
| "valid_pat (c # r) =
     (if c = CHR ''['' then
        (case set_end (snd (skip_not r)) of None \<Rightarrow> False | Some rest \<Rightarrow> valid_pat rest)
      else if c = QUOTE then (case r of [] \<Rightarrow> False | _ # t \<Rightarrow> valid_pat t)
      else if c = CHR ''!'' then (case r of [] \<Rightarrow> False | _ # t \<Rightarrow> valid_pat t)
      else valid_pat r)"
  by pat_completeness auto
termination
proof (relation "measure length", goal_cases)
  case (2 c r rest)
  then show ?case using skip_not_shorter [of r] by (auto dest!: set_end_shorter)
qed auto

definition PatternIsValid :: "string ptr \<Rightarrow> bool" where
  "PatternIsValid pat = (case pat of None \<Rightarrow> False | Some p \<Rightarrow> valid_pat p)"

text \<open>
  The loop over a set in \<open>CMUTIL_PatternSubmatch\<close>: whether the set accepts \<open>fch\<close> and the pattern
  behind its bracket, or \<open>None\<close> when the pattern ends first.
\<close>

function set_scan :: "char \<Rightarrow> bool \<Rightarrow> bool \<Rightarrow> string \<Rightarrow> (bool \<times> string) option" where
  "set_scan fch yes mtch [] = None"
| "set_scan fch yes mtch (c # r) =
     (if c = CHR '']'' then Some (mtch, r)
      else
        (case set_range (c # r) of
           None \<Rightarrow> None
         | Some (lo, hi, rest) \<Rightarrow>
             set_scan fch yes
               (if char_int lo \<le> char_int fch \<and> char_int fch \<le> char_int hi then yes else mtch) rest))"
  by pat_completeness auto
termination
  by (relation "measure (\<lambda>(f, y, m, s). length s)") (auto dest: set_range_shorter)

lemma set_scan_shorter: "set_scan f y m s = Some (b, r) \<Longrightarrow> length r < length s"
  by (induction f y m s rule: set_scan.induct)
    (fastforce split: if_splits option.splits dest: set_range_shorter)+

text \<open>The ends of the name tried for a closure, longest match first.\<close>

definition closure_tails :: "(char \<Rightarrow> bool) \<Rightarrow> string \<Rightarrow> string list" where
  "closure_tails ok fname = rev (map (\<lambda>i. drop i fname) [0..<Suc (length (takeWhile ok fname))])"

function PatternSubmatch :: "string \<Rightarrow> string \<Rightarrow> bool" where
  "PatternSubmatch [] fname = (fname = [])"
| "PatternSubmatch (pch # pat) fname =
     (if pch = CHR ''?'' then (case fname of [] \<Rightarrow> False | _ # f \<Rightarrow> PatternSubmatch pat f)
      else if pch = CHR ''*'' then list_ex (\<lambda>f. PatternSubmatch pat f) (closure_tails (\<lambda>c. True) fname)
      else if pch = SUBC then
        list_ex (\<lambda>f. PatternSubmatch pat f) (closure_tails (\<lambda>c. c \<noteq> CHR ''.'') fname)
      else if pch = QUOTE then
        (case (pat, fname) of
           (p # pat', fch # f) \<Rightarrow> fch = p \<and> PatternSubmatch pat' f
         | _ \<Rightarrow> False)
      else if pch = CHR ''['' then
        (case fname of
           [] \<Rightarrow> False
         | fch # f \<Rightarrow>
             (case set_scan fch (fst (skip_not pat)) (\<not> fst (skip_not pat)) (snd (skip_not pat)) of
                None \<Rightarrow> False
              | Some (mtch, pat') \<Rightarrow> mtch \<and> PatternSubmatch pat' f))
      else if pch = CHR ''!'' then (if pat = [] then False else \<not> PatternSubmatch pat fname)
      else (case fname of [] \<Rightarrow> False | fch # f \<Rightarrow> fch = pch \<and> PatternSubmatch pat f))"
  by pat_completeness auto
termination
proof (relation "measure (\<lambda>(p, f). length p)", goal_cases)
  case (6 pch pat fname fch f y mtch pat')
  then show ?case using skip_not_shorter [of pat] by (auto dest!: set_scan_shorter)
qed auto

definition PatternMatch :: "string ptr \<Rightarrow> string ptr \<Rightarrow> bool" where
  "PatternMatch pat fname =
     (case (fname, pat) of
        (Some f, Some p) \<Rightarrow>
          if \<not> PatternIsValid pat then False
          else if f = [] then p = []
          else PatternSubmatch p f
      | _ \<Rightarrow> False)"

definition PatternMatchN :: "string ptr \<Rightarrow> string ptr \<Rightarrow> bool" where
  "PatternMatchN pat fname =
     (case (fname, pat) of (Some f, Some p) \<Rightarrow> PatternSubmatch p f | _ \<Rightarrow> False)"

section \<open>What a pattern means\<close>

datatype pat =
    PEnd
  | PAny pat
  | PStar pat
  | PSub pat
  | PLit char pat
  | PSet bool "(char \<times> char) list" pat
  | PNot pat

definition in_range :: "char \<Rightarrow> char \<times> char \<Rightarrow> bool" where
  "in_range c r \<longleftrightarrow> char_int (fst r) \<le> char_int c \<and> char_int c \<le> char_int (snd r)"

fun means :: "pat \<Rightarrow> string \<Rightarrow> bool" where
  "means PEnd s = (s = [])"
| "means (PAny p) s = (\<exists>c t. s = c # t \<and> means p t)"
| "means (PStar p) s = (\<exists>u t. s = u @ t \<and> means p t)"
| "means (PSub p) s = (\<exists>u t. s = u @ t \<and> CHR ''.'' \<notin> set u \<and> means p t)"
| "means (PLit c p) s = (\<exists>t. s = c # t \<and> means p t)"
| "means (PSet yes rs p) s = (\<exists>c t. s = c # t \<and> list_ex (in_range c) rs = yes \<and> means p t)"
| "means (PNot p) s = (\<not> means p s)"

text \<open>The tree a pattern text stands for, if it is well-formed throughout.\<close>

function parse_set :: "string \<Rightarrow> ((char \<times> char) list \<times> string) option" where
  "parse_set [] = None"
| "parse_set (c # r) =
     (if c = CHR '']'' then Some ([], r)
      else
        (case set_range (c # r) of
           None \<Rightarrow> None
         | Some (lo, hi, rest) \<Rightarrow> map_option (\<lambda>(rs, rest'). ((lo, hi) # rs, rest')) (parse_set rest)))"
  by pat_completeness auto
termination
  by (relation "measure length") (auto dest: set_range_shorter)

lemma parse_set_shorter: "parse_set s = Some (rs, r) \<Longrightarrow> length r < length s"
  by (induction s arbitrary: rs rule: parse_set.induct)
    (fastforce split: if_splits option.splits dest: set_range_shorter)+

function parse_pat :: "string \<Rightarrow> pat option" where
  "parse_pat [] = Some PEnd"
| "parse_pat (c # r) =
     (if c = CHR ''?'' then map_option PAny (parse_pat r)
      else if c = CHR ''*'' then map_option PStar (parse_pat r)
      else if c = SUBC then map_option PSub (parse_pat r)
      else if c = QUOTE then (case r of [] \<Rightarrow> None | q # r' \<Rightarrow> map_option (PLit q) (parse_pat r'))
      else if c = CHR ''['' then
        (case parse_set (snd (skip_not r)) of
           None \<Rightarrow> None
         | Some (rs, rest) \<Rightarrow> map_option (PSet (fst (skip_not r)) rs) (parse_pat rest))
      else if c = CHR ''!'' then (if r = [] then None else map_option PNot (parse_pat r))
      else map_option (PLit c) (parse_pat r))"
  by pat_completeness auto
termination
proof (relation "measure length", goal_cases)
  case (6 c r y rs rest)
  then show ?case using skip_not_shorter [of r] by (auto dest!: parse_set_shorter)
qed auto

section \<open>Lemmas\<close>

lemma set_scan_parse:
  "set_scan f yes m s = map_option (\<lambda>(rs, r). (if list_ex (in_range f) rs then yes else m, r)) (parse_set s)"
proof (induction f yes m s rule: set_scan.induct)
  case (2 f yes m c r)
  show ?case
  proof (cases "c = CHR '']'' \<or> set_range (c # r) = None")
    case True
    then show ?thesis by auto
  next
    case False
    then obtain lo hi rest where "set_range (c # r) = Some (lo, hi, rest)" by (metis option.exhaust prod_cases3)
    with False "2.IH" [of "(lo, hi, rest)" lo "(hi, rest)" hi rest] show ?thesis
      by (cases "parse_set rest") (auto simp: in_range_def split: prod.splits)
  qed
qed simp

lemma set_end_parse: "set_end s = map_option snd (parse_set s)"
proof (induction s rule: set_end.induct)
  case (2 c r)
  show ?case
  proof (cases "c = CHR '']'' \<or> set_range (c # r) = None")
    case True
    then show ?thesis by auto
  next
    case False
    then obtain lo hi rest where "set_range (c # r) = Some (lo, hi, rest)" by (metis option.exhaust prod_cases3)
    with False "2.IH" [of "(lo, hi, rest)" lo "(hi, rest)" hi rest] show ?thesis
      by (cases "parse_set rest") auto
  qed
qed simp

lemma closure_tails_ex:
  "list_ex P (closure_tails ok s) \<longleftrightarrow> (\<exists>u t. s = u @ t \<and> (\<forall>c\<in>set u. ok c) \<and> P t)"
proof
  assume "list_ex P (closure_tails ok s)"
  then obtain i where i: "i < Suc (length (takeWhile ok s))" "P (drop i s)"
    by (auto simp: closure_tails_def list_ex_iff simp del: upt_Suc)
  have "take i s = take i (takeWhile ok s)"
    using i(1) by (metis less_Suc_eq_le takeWhile_eq_take take_take min.absorb1)
  then have "\<forall>c\<in>set (take i s). ok c" by (metis in_set_takeD set_takeWhileD)
  with i show "\<exists>u t. s = u @ t \<and> (\<forall>c\<in>set u. ok c) \<and> P t" by (metis append_take_drop_id)
next
  assume "\<exists>u t. s = u @ t \<and> (\<forall>c\<in>set u. ok c) \<and> P t"
  then obtain u t where u: "s = u @ t" "\<forall>c\<in>set u. ok c" "P t" by blast
  then have "length u < Suc (length (takeWhile ok s))" by simp
  moreover have "P (drop (length u) s)" using u by simp
  ultimately show "list_ex P (closure_tails ok s)"
    by (auto simp: closure_tails_def list_ex_iff simp del: upt_Suc)
qed

lemma Submatch_means: "parse_pat p = Some t \<Longrightarrow> PatternSubmatch p s \<longleftrightarrow> means t s"
proof (induction p s arbitrary: t rule: PatternSubmatch.induct)
  case (1 s)
  then show ?case by simp
next
  case (2 c r s)
  consider (any) "c = CHR ''?''" | (star) "c = CHR ''*''" | (sub) "c = SUBC" | (quote) "c = QUOTE"
    | (set) "c = CHR ''[''" | (neg) "c = CHR ''!''"
    | (lit) "c \<notin> {CHR ''?'', CHR ''*'', SUBC, QUOTE, CHR ''['', CHR ''!''}"
    by blast
  then show ?case
  proof cases
    case any
    with "2.prems" obtain q where q: "parse_pat r = Some q" "t = PAny q" by auto
    with any "2.IH"(1) show ?thesis by (cases s) simp_all
  next
    case star
    with "2.prems" obtain q where q: "parse_pat r = Some q" "t = PStar q" by auto
    have "PatternSubmatch r f \<longleftrightarrow> means q f" if "f \<in> set (closure_tails (\<lambda>c. True) s)" for f
      using "2.IH"(2) star that q(1) by simp
    then have "list_ex (PatternSubmatch r) (closure_tails (\<lambda>c. True) s)
        = list_ex (means q) (closure_tails (\<lambda>c. True) s)"
      by (auto simp: list_ex_iff)
    with star q(2) show ?thesis by (simp add: closure_tails_ex)
  next
    case sub
    with "2.prems" obtain q where q: "parse_pat r = Some q" "t = PSub q" by (auto simp: SUBC_def)
    have "PatternSubmatch r f \<longleftrightarrow> means q f" if "f \<in> set (closure_tails (\<lambda>c. c \<noteq> CHR ''.'') s)" for f
      using "2.IH"(3) sub that q(1) by (simp add: SUBC_def)
    then have "list_ex (PatternSubmatch r) (closure_tails (\<lambda>c. c \<noteq> CHR ''.'') s)
        = list_ex (means q) (closure_tails (\<lambda>c. c \<noteq> CHR ''.'') s)"
      by (auto simp: list_ex_iff)
    moreover have "(\<forall>c\<in>set u. c \<noteq> CHR ''.'') = (CHR ''.'' \<notin> set u)" for u by auto
    ultimately show ?thesis using sub q(2) by (simp add: SUBC_def closure_tails_ex)
  next
    case quote
    with "2.prems" obtain x r' q where q: "r = x # r'" "parse_pat r' = Some q" "t = PLit x q"
      by (auto simp: QUOTE_def SUBC_def split: list.splits)
    with quote "2.IH"(4) show ?thesis by (cases s) (auto simp: QUOTE_def SUBC_def)
  next
    case set
    with "2.prems" obtain rs rest q where q: "parse_set (snd (skip_not r)) = Some (rs, rest)"
      "parse_pat rest = Some q" "t = PSet (fst (skip_not r)) rs q"
      by (auto simp: QUOTE_def SUBC_def split: option.splits)
    show ?thesis
    proof (cases s)
      case Nil
      with set q show ?thesis by (simp add: QUOTE_def SUBC_def)
    next
      case (Cons f s')
      have "PatternSubmatch rest s' \<longleftrightarrow> means q s'" if
        "(if list_ex (in_range f) rs then fst (skip_not r) else \<not> fst (skip_not r))"
        using "2.IH"(5) [OF _ _ _ _ set Cons] q that set
        by (simp add: set_scan_parse QUOTE_def SUBC_def)
      with set q Cons show ?thesis by (auto simp: set_scan_parse QUOTE_def SUBC_def split: if_splits)
    qed
  next
    case neg
    with "2.prems" obtain q where q: "r \<noteq> []" "parse_pat r = Some q" "t = PNot q"
      by (auto simp: QUOTE_def SUBC_def split: if_splits)
    with neg "2.IH"(6) show ?thesis by (simp add: QUOTE_def SUBC_def)
  next
    case lit
    with "2.prems" obtain q where q: "parse_pat r = Some q" "t = PLit c q" by auto
    with lit "2.IH"(7) show ?thesis by (cases s) auto
  qed
qed

fun not_free :: "pat \<Rightarrow> bool" where
  "not_free PEnd = True"
| "not_free (PAny p) = not_free p"
| "not_free (PStar p) = not_free p"
| "not_free (PSub p) = not_free p"
| "not_free (PLit c p) = not_free p"
| "not_free (PSet y rs p) = not_free p"
| "not_free (PNot p) = False"

lemma valid_parse: "parse_pat p = Some t \<Longrightarrow> not_free t \<Longrightarrow> valid_pat p"
proof (induction p arbitrary: t rule: valid_pat.induct)
  case (2 c r)
  consider (set) "c = CHR ''[''" | (quote) "c = QUOTE" | (neg) "c = CHR ''!''"
    | (other) "c \<notin> {CHR ''['', QUOTE, CHR ''!''}"
    by blast
  then show ?case
  proof cases
    case set
    with "2.prems" obtain rs rest q where "parse_set (snd (skip_not r)) = Some (rs, rest)"
      "parse_pat rest = Some q" "not_free q"
      by (auto simp: QUOTE_def SUBC_def split: option.splits)
    with set "2.IH"(1) show ?thesis by (simp add: set_end_parse)
  next
    case quote
    with "2.prems" obtain x r' q where "r = x # r'" "parse_pat r' = Some q" "not_free q"
      by (auto simp: QUOTE_def SUBC_def split: list.splits)
    with quote "2.IH"(2) show ?thesis by (simp add: QUOTE_def)
  next
    case neg
    with "2.prems" show ?thesis by (auto simp: QUOTE_def SUBC_def split: if_splits)
  next
    case other
    with "2.prems" obtain q where "parse_pat r = Some q" "not_free q" by (auto split: if_splits)
    with other "2.IH"(4) show ?thesis by simp
  qed
qed simp

lemma set_range_suffix: "set_range s = Some (lo, hi, r) \<Longrightarrow> set r \<subseteq> set s"
  by (auto simp: set_range_def unquote_def split: list.splits if_splits)

lemma parse_set_suffix: "parse_set s = Some (rs, r) \<Longrightarrow> set r \<subseteq> set s"
  by (induction s arbitrary: rs rule: parse_set.induct)
    (fastforce split: if_splits option.splits dest: set_range_suffix)+

lemma parse_valid: "valid_pat p \<Longrightarrow> CHR ''!'' \<notin> set p \<Longrightarrow> parse_pat p \<noteq> None"
proof (induction p rule: valid_pat.induct)
  case (2 c r)
  consider (set) "c = CHR ''[''" | (quote) "c = QUOTE" | (other) "c \<notin> {CHR ''['', QUOTE, CHR ''!''}"
    using "2.prems"(2) by auto
  then show ?case
  proof cases
    case set
    from "2.prems"(2) have "skip_not r = (True, r)" by (auto simp: skip_not_def split: list.split)
    with set "2.prems" obtain rs rest where *: "parse_set r = Some (rs, rest)" "valid_pat rest"
      by (auto simp: set_end_parse split: option.splits)
    from parse_set_suffix [OF *(1)] "2.prems"(2) have "CHR ''!'' \<notin> set rest" by auto
    with * set "2.IH"(1) \<open>skip_not r = (True, r)\<close> show ?thesis
      by (simp add: set_end_parse QUOTE_def SUBC_def)
  next
    case quote
    with "2.prems" obtain x r' where "r = x # r'" "valid_pat r'" "CHR ''!'' \<notin> set r'"
      by (auto simp: QUOTE_def split: list.splits)
    with quote "2.IH"(2) show ?thesis by (simp add: QUOTE_def SUBC_def)
  next
    case other
    with "2.prems" "2.IH"(4) show ?thesis by simp
  qed
qed simp

section \<open>Properties\<close>

text \<open>
  C22: The backtracking matcher is the declarative meaning of the pattern: for a pattern text that
  parses to the tree \<open>t\<close>, \<open>PatternMatchN\<close> accepts exactly the names \<open>t\<close> means; \<open>PatternMatch\<close>
  does the same for names that are not empty and a pattern the check accepts, and accepts the empty
  name for the empty pattern only. Both refuse NULL. A letter means itself exactly: the comments of both functions and
  of the interface say that upper and lower case are treated the same, but outside Windows, which is what is modelled,
  \<open>lowercase(c)\<close> is \<open>c\<close>, and the pattern of a letter does not match the other case of it.
\<close>

theorem pattern_match:
  assumes "parse_pat p = Some t"
  shows "(PatternMatchN (Some p) (Some f) \<longleftrightarrow> means t f)
    \<and> (PatternMatch (Some p) (Some f) \<longleftrightarrow>
      PatternIsValid (Some p) \<and> (if f = [] then p = [] else means t f))
    \<and> \<not> PatternMatch NULL fn \<and> \<not> PatternMatch pn NULL
    \<and> \<not> PatternMatchN NULL fn \<and> \<not> PatternMatchN pn NULL
    \<and> PatternMatch (Some ''a'') (Some ''a'') \<and> \<not> PatternMatch (Some ''a'') (Some ''A'')
    \<and> \<not> PatternMatchN (Some ''A'') (Some ''a'')"
proof -
  have ex: "PatternMatch (Some ''a'') (Some ''a'')" "\<not> PatternMatch (Some ''a'') (Some ''A'')" "\<not> PatternMatchN (Some ''A'') (Some ''a'')"
    by code_simp+
  have "PatternMatchN (Some p) (Some f) \<longleftrightarrow> means t f" "PatternMatch (Some p) (Some f) \<longleftrightarrow>
      PatternIsValid (Some p) \<and> (if f = [] then p = [] else means t f)"
    using Submatch_means [OF assms, of f] by (auto simp: PatternMatchN_def PatternMatch_def PatternIsValid_def)
  moreover have "\<not> PatternMatch NULL fn" "\<not> PatternMatch pn NULL" "\<not> PatternMatchN NULL fn" "\<not> PatternMatchN pn NULL"
    by (simp_all add: PatternMatchN_def PatternMatch_def split: option.split)
  ultimately show ?thesis using ex by blast
qed

theorem pattern_match_witness:
  "PatternMatchN (Some ''a[!x-z]*'') (Some ''abc'') \<and> means (PLit (CHR ''a'') (PSet False [(CHR ''x'', CHR ''z'')] (PStar PEnd))) ''abc''"
proof -
  have p: "parse_pat ''a[!x-z]*'' = Some (PLit (CHR ''a'') (PSet False [(CHR ''x'', CHR ''z'')] (PStar PEnd)))"
    by (simp add: QUOTE_def SUBC_def skip_not_def set_range_def unquote_def)
  have m: "means (PLit (CHR ''a'') (PSet False [(CHR ''x'', CHR ''z'')] (PStar PEnd))) ''abc''"
    by (simp add: in_range_def char_int_def code_def of_char_def)
  with pattern_match [OF p, of "''abc''" NULL NULL] show ?thesis by blast
qed

text \<open>
  \<open>PatternIsValid\<close> accepts every well-formed pattern without a negated subpattern and, where no
  exclamation mark occurs, only those. Behind an exclamation mark it is wrong both ways, because it
  skips the character there unread: it accepts the unclosed set in \<open>"![\<close> and refuses the quoted
  backslash after a \<open>!\<close>; NULL is not valid.
\<close>

theorem pattern_valid:
  "(parse_pat p = Some t \<and> not_free t \<longrightarrow> PatternIsValid (Some p))
   \<and> (PatternIsValid (Some p) \<and> CHR ''!'' \<notin> set p \<longrightarrow> parse_pat p \<noteq> None)
   \<and> PatternIsValid (Some ''![a'') \<and> parse_pat ''![a'' = None
   \<and> \<not> PatternIsValid (Some [CHR ''!'', QUOTE, QUOTE])
   \<and> parse_pat [CHR ''!'', QUOTE, QUOTE] = Some (PNot (PLit QUOTE PEnd))
   \<and> \<not> PatternIsValid NULL"
  by (auto simp: PatternIsValid_def QUOTE_def SUBC_def skip_not_def set_range_def unquote_def
      dest: valid_parse parse_valid)

theorem pattern_valid_witness:
  "PatternIsValid (Some ''a?[b-d]'') \<and> parse_pat ''a?[b-d]'' \<noteq> None"
proof -
  have p: "parse_pat ''a?[b-d]'' = Some (PLit (CHR ''a'') (PAny (PSet True [(CHR ''b'', CHR ''d'')] PEnd)))"
    by (simp add: QUOTE_def SUBC_def skip_not_def set_range_def unquote_def)
  let ?t = "PLit (CHR ''a'') (PAny (PSet True [(CHR ''b'', CHR ''d'')] PEnd))"
  from pattern_valid [of "''a?[b-d]''" ?t] p have v: "PatternIsValid (Some ''a?[b-d]'')" by simp
  moreover have "CHR ''!'' \<notin> set ''a?[b-d]''" by simp
  ultimately show ?thesis using pattern_valid [of "''a?[b-d]''" ?t] by blast
qed

end
