(* ===== verification/Cmu_Json.thy ===== *)
theory Cmu_Json
  imports Cmu_Text Cmu_Map
begin

text \<open>
  \<open>src/src/nanojson.c\<close>, the values and their printing. A \<open>CMUTIL_Json\<close> is a tree: nothing in the
  code shares a node between two owners. A scalar is its type and the text of its \<open>data\<close> string;
  an object is the association list its map stands for and the list of its \<open>keys\<close> array (the operations over the hash
  map and the array themselves are in \<open>Cmu_JsonObject\<close>, where they are shown to be these); an array is the list of its
  items. The memory these small containers ask for is granted. The printing runs on the growable string itself, with any allocator.

  \<open>double\<close> and its conversions are parameters (\<open>dlib\<close>): \<open>strtod\<close> gives the number and how many
  characters it read, \<open>fmt17\<close> is the text of \<open>"%.17g"\<close>.
\<close>

section \<open>The C library\<close>

record 'd dlib =
  strtod :: "string \<Rightarrow> 'd \<times> nat"
  fmt17 :: "'d \<Rightarrow> string"
  dzero :: 'd

definition dig :: "nat \<Rightarrow> char" where
  "dig n = char_of (48 + n)"

fun digits :: "nat \<Rightarrow> string" where
  "digits n = (if n < 10 then [dig n] else digits (n div 10) @ [dig (n mod 10)])"

declare digits.simps [simp del]

text \<open>\<open>"%"PRIi64\<close>\<close>

definition dec :: "int \<Rightarrow> string" where
  "dec v = (if v < 0 then CHR ''-'' # digits (nat (- v)) else digits (nat v))"

definition isspace :: "char \<Rightarrow> bool" where
  "isspace c \<longleftrightarrow> c = CHR '' '' \<or> (9 \<le> code c \<and> code c \<le> 13)"

definition isdigit :: "char \<Rightarrow> bool" where
  "isdigit c \<longleftrightarrow> 48 \<le> code c \<and> code c \<le> 57"

definition num :: "string \<Rightarrow> int" where
  "num ds = foldl (\<lambda>n c. n * 10 + (code c - 48)) 0 ds"

definition LLONG_MAX :: int where "LLONG_MAX = 2 ^ 63 - 1"
definition LLONG_MIN :: int where "LLONG_MIN = - (2 ^ 63)"

text \<open>\<open>strtoll(s, &end, 10)\<close>: the value, saturated, and \<open>end - s\<close>, 0 when there is no digit.\<close>

definition strtoll :: "string \<Rightarrow> int \<times> nat" where
  "strtoll s =
     (let r = dropWhile isspace s;
          neg = (r \<noteq> [] \<and> hd r = CHR ''-'');
          r' = (if r \<noteq> [] \<and> (hd r = CHR ''-'' \<or> hd r = CHR ''+'') then tl r else r);
          ds = takeWhile isdigit r';
          v = (if neg then - num ds else num ds)
      in if ds = [] then (0, 0)
         else (max LLONG_MIN (min LLONG_MAX v), length s - length (dropWhile isdigit r')))"

definition strcaseeq :: "string \<Rightarrow> string \<Rightarrow> bool" where
  "strcaseeq s t \<longleftrightarrow> map tolower s = map tolower t"

section \<open>Values\<close>

datatype jtype = JLong | JDouble | JString | JBoolean | JNull

datatype json =
    JValue jtype string
  | JObject "(string \<times> json) list" "string list"
  | JArray "json list"

datatype ctype = TValue | TObject | TArray

definition JsonGetType :: "json \<Rightarrow> ctype" where
  "JsonGetType j = (case j of JValue _ _ \<Rightarrow> TValue | JObject _ _ \<Rightarrow> TObject | JArray _ \<Rightarrow> TArray)"

definition JsonValueCreateInternal :: json where
  "JsonValueCreateInternal = JValue JLong []"

definition JsonValueSetBase :: "json \<Rightarrow> string \<Rightarrow> nat \<Rightarrow> jtype \<Rightarrow> json" where
  "JsonValueSetBase jval buf len type = (case jval of JValue _ _ \<Rightarrow> JValue type (take len buf) | j \<Rightarrow> j)"

definition JsonValueSetLong :: "json \<Rightarrow> int \<Rightarrow> json" where
  "JsonValueSetLong jval v = JsonValueSetBase jval (dec v) (length (dec v)) JLong"

definition JsonValueSetDouble :: "'d dlib \<Rightarrow> json \<Rightarrow> 'd \<Rightarrow> json" where
  "JsonValueSetDouble lib jval v =
     (let buf = take 49 (fmt17 lib v); len = length (fmt17 lib v)
      in JsonValueSetBase jval buf (if len < 50 then len else 49) JDouble)"

definition JsonValueSetString :: "json \<Rightarrow> string \<Rightarrow> json" where
  "JsonValueSetString jval v = JsonValueSetBase jval v (length v) JString"

definition JsonValueSetBoolean :: "json \<Rightarrow> bool \<Rightarrow> json" where
  "JsonValueSetBoolean jval b =
     (let s = (if b then ''true'' else ''false'') in JsonValueSetBase jval s (length s) JBoolean)"

definition JsonValueSetNull :: "json \<Rightarrow> json" where
  "JsonValueSetNull jval = JsonValueSetBase jval ''null'' 4 JNull"

definition value_text :: "json \<Rightarrow> string" where
  "value_text j = (case j of JValue _ d \<Rightarrow> d | _ \<Rightarrow> [])"

definition JsonValueGetValueType :: "json \<Rightarrow> jtype" where
  "JsonValueGetValueType j = (case j of JValue t _ \<Rightarrow> t | _ \<Rightarrow> JNull)"

definition JsonValueGetLong :: "json \<Rightarrow> int" where
  "JsonValueGetLong j = fst (strtoll (cstr (value_text j)))"

definition JsonValueGetDouble :: "'d dlib \<Rightarrow> json \<Rightarrow> 'd" where
  "JsonValueGetDouble lib j = fst (strtod lib (cstr (value_text j)))"

definition JsonValueGetString :: "json \<Rightarrow> string" where
  "JsonValueGetString j = value_text j"

definition JsonValueGetCString :: "json \<Rightarrow> string" where
  "JsonValueGetCString j = cstr (value_text j)"

text \<open>\<open>strchr\<close> also finds the terminator: the empty text counts as true.\<close>

definition JsonValueGetBoolean :: "json \<Rightarrow> bool" where
  "JsonValueGetBoolean j =
     strchr ''1tTyY'' (case cstr (value_text j) of [] \<Rightarrow> NUL | c # _ \<Rightarrow> c)"

section \<open>Objects\<close>

definition JsonObjectCreateInternal :: json where
  "JsonObjectCreateInternal = JObject [] []"

definition JsonObjectGetKeys :: "json \<Rightarrow> string list" where
  "JsonObjectGetKeys j = (case j of JObject es _ \<Rightarrow> map fst es | _ \<Rightarrow> [])"

definition JsonObjectGet :: "json \<Rightarrow> string \<Rightarrow> json ptr" where
  "JsonObjectGet j key = (case j of JObject es _ \<Rightarrow> map_of es key | _ \<Rightarrow> NULL)"

text \<open>The macro \<open>CMUTIL_JsonObjectGetBody\<close>: \<open>method\<close> of a scalar item, else the default.\<close>

definition JsonObjectGetBody :: "json \<Rightarrow> string \<Rightarrow> (json \<Rightarrow> 'r) \<Rightarrow> 'r \<Rightarrow> 'r" where
  "JsonObjectGetBody jobj key method v =
     (case JsonObjectGet jobj key of
        Some json \<Rightarrow> if JsonGetType json = TValue then method json else v
      | None \<Rightarrow> v)"

definition JsonObjectGetLong :: "json \<Rightarrow> string \<Rightarrow> int" where
  "JsonObjectGetLong jobj key = JsonObjectGetBody jobj key JsonValueGetLong 0"

definition JsonObjectGetDouble :: "'d dlib \<Rightarrow> json \<Rightarrow> string \<Rightarrow> 'd" where
  "JsonObjectGetDouble lib jobj key = JsonObjectGetBody jobj key (JsonValueGetDouble lib) (dzero lib)"

definition JsonObjectGetString :: "json \<Rightarrow> string \<Rightarrow> string ptr" where
  "JsonObjectGetString jobj key = JsonObjectGetBody jobj key (\<lambda>j. Some (JsonValueGetString j)) NULL"

definition JsonObjectGetCString :: "json \<Rightarrow> string \<Rightarrow> string ptr" where
  "JsonObjectGetCString jobj key = JsonObjectGetBody jobj key (\<lambda>j. Some (JsonValueGetCString j)) NULL"

definition JsonObjectGetBoolean :: "json \<Rightarrow> string \<Rightarrow> bool" where
  "JsonObjectGetBoolean jobj key = JsonObjectGetBody jobj key JsonValueGetBoolean False"

text \<open>
  \<open>Put\<close>: the value replaced, which the code destroys, and the object. The \<open>keys\<close> array gets the key
  when no value was replaced.
\<close>

definition JsonObjectPut :: "json \<Rightarrow> string \<Rightarrow> json \<Rightarrow> json ptr \<times> json" where
  "JsonObjectPut jobj key json =
     (case jobj of
        JObject es ks \<Rightarrow>
          (let prev = map_of es key
           in (prev, JObject (al_put key json es) (if prev \<noteq> NULL then ks else ks @ [key])))
      | j \<Rightarrow> (NULL, j))"

definition JsonObjectPutLong :: "json \<Rightarrow> string \<Rightarrow> int \<Rightarrow> json ptr \<times> json" where
  "JsonObjectPutLong jobj key v = JsonObjectPut jobj key (JsonValueSetLong JsonValueCreateInternal v)"

definition JsonObjectPutDouble :: "'d dlib \<Rightarrow> json \<Rightarrow> string \<Rightarrow> 'd \<Rightarrow> json ptr \<times> json" where
  "JsonObjectPutDouble lib jobj key v =
     JsonObjectPut jobj key (JsonValueSetDouble lib JsonValueCreateInternal v)"

definition JsonObjectPutString :: "json \<Rightarrow> string \<Rightarrow> string \<Rightarrow> json ptr \<times> json" where
  "JsonObjectPutString jobj key v = JsonObjectPut jobj key (JsonValueSetString JsonValueCreateInternal v)"

definition JsonObjectPutBoolean :: "json \<Rightarrow> string \<Rightarrow> bool \<Rightarrow> json ptr \<times> json" where
  "JsonObjectPutBoolean jobj key b = JsonObjectPut jobj key (JsonValueSetBoolean JsonValueCreateInternal b)"

definition JsonObjectPutNull :: "json \<Rightarrow> string \<Rightarrow> json ptr \<times> json" where
  "JsonObjectPutNull jobj key = JsonObjectPut jobj key (JsonValueSetNull JsonValueCreateInternal)"

text \<open>\<open>Remove\<close> takes the first equal key out of the unsorted \<open>keys\<close> array: \<open>remove1\<close>.\<close>

definition JsonObjectRemove :: "json \<Rightarrow> string \<Rightarrow> json ptr \<times> json" where
  "JsonObjectRemove jobj key =
     (case jobj of
        JObject es ks \<Rightarrow> (map_of es key, JObject (al_remove key es) (remove1 key ks))
      | j \<Rightarrow> (NULL, j))"

text \<open>\<open>Delete\<close>: what it destroys and the object.\<close>

definition JsonObjectDelete :: "json \<Rightarrow> string \<Rightarrow> json ptr \<times> json" where
  "JsonObjectDelete jobj key = JsonObjectRemove jobj key"

section \<open>Arrays\<close>

definition JsonArrayCreateInternal :: json where
  "JsonArrayCreateInternal = JArray []"

definition jitems :: "json \<Rightarrow> json list" where
  "jitems j = (case j of JArray xs \<Rightarrow> xs | _ \<Rightarrow> [])"

definition JsonArrayGetSize :: "json \<Rightarrow> nat" where
  "JsonArrayGetSize j = length (jitems j)"

definition JsonArrayGet :: "json \<Rightarrow> nat \<Rightarrow> json ptr" where
  "JsonArrayGet j index = (if index < JsonArrayGetSize j then Some (jitems j ! index) else NULL)"

definition JsonArrayGetBody :: "json \<Rightarrow> nat \<Rightarrow> (json \<Rightarrow> 'r) \<Rightarrow> 'r \<Rightarrow> 'r" where
  "JsonArrayGetBody jarr index method v =
     (case JsonArrayGet jarr index of
        Some json \<Rightarrow> if JsonGetType json = TValue then method json else v
      | None \<Rightarrow> v)"

definition JsonArrayGetLong :: "json \<Rightarrow> nat \<Rightarrow> int" where
  "JsonArrayGetLong jarr index = JsonArrayGetBody jarr index JsonValueGetLong 0"

definition JsonArrayGetDouble :: "'d dlib \<Rightarrow> json \<Rightarrow> nat \<Rightarrow> 'd" where
  "JsonArrayGetDouble lib jarr index = JsonArrayGetBody jarr index (JsonValueGetDouble lib) (dzero lib)"

definition JsonArrayGetString :: "json \<Rightarrow> nat \<Rightarrow> string ptr" where
  "JsonArrayGetString jarr index = JsonArrayGetBody jarr index (\<lambda>j. Some (JsonValueGetString j)) NULL"

definition JsonArrayGetCString :: "json \<Rightarrow> nat \<Rightarrow> string ptr" where
  "JsonArrayGetCString jarr index = JsonArrayGetBody jarr index (\<lambda>j. Some (JsonValueGetCString j)) NULL"

definition JsonArrayGetBoolean :: "json \<Rightarrow> nat \<Rightarrow> bool" where
  "JsonArrayGetBoolean jarr index = JsonArrayGetBody jarr index JsonValueGetBoolean False"

definition JsonArrayAdd :: "json \<Rightarrow> json \<Rightarrow> json" where
  "JsonArrayAdd jarr json = (case jarr of JArray xs \<Rightarrow> JArray (xs @ [json]) | j \<Rightarrow> j)"

definition JsonArrayAddLong :: "json \<Rightarrow> int \<Rightarrow> json" where
  "JsonArrayAddLong jarr v = JsonArrayAdd jarr (JsonValueSetLong JsonValueCreateInternal v)"

definition JsonArrayAddDouble :: "'d dlib \<Rightarrow> json \<Rightarrow> 'd \<Rightarrow> json" where
  "JsonArrayAddDouble lib jarr v = JsonArrayAdd jarr (JsonValueSetDouble lib JsonValueCreateInternal v)"

definition JsonArrayAddString :: "json \<Rightarrow> string \<Rightarrow> json" where
  "JsonArrayAddString jarr v = JsonArrayAdd jarr (JsonValueSetString JsonValueCreateInternal v)"

definition JsonArrayAddBoolean :: "json \<Rightarrow> bool \<Rightarrow> json" where
  "JsonArrayAddBoolean jarr b = JsonArrayAdd jarr (JsonValueSetBoolean JsonValueCreateInternal b)"

definition JsonArrayAddNull :: "json \<Rightarrow> json" where
  "JsonArrayAddNull jarr = JsonArrayAdd jarr (JsonValueSetNull JsonValueCreateInternal)"

definition JsonArrayRemove :: "json \<Rightarrow> nat \<Rightarrow> json ptr \<times> json" where
  "JsonArrayRemove jarr index =
     (if index < JsonArrayGetSize jarr
      then (Some (jitems jarr ! index), JArray (take index (jitems jarr) @ drop (Suc index) (jitems jarr)))
      else (NULL, jarr))"

text \<open>\<open>Delete\<close> destroys what \<open>Remove\<close> gave it without a look: behind the end that is NULL.\<close>

definition JsonArrayDelete :: "json \<Rightarrow> nat \<Rightarrow> fault + (json \<times> json)" where
  "JsonArrayDelete jarr index =
     (case JsonArrayRemove jarr index of
        (None, _) \<Rightarrow> Inl Null_Deref
      | (Some item, jarr') \<Rightarrow> Inr (item, jarr'))"

section \<open>Clone\<close>

fun JsonClone :: "json \<Rightarrow> json" where
  "JsonClone (JValue t d) = JValue t d"
| "JsonClone (JObject es ks) =
     foldl (\<lambda>res (skey, dup). snd (JsonObjectPut res skey dup)) JsonObjectCreateInternal
       (map (\<lambda>(skey, val). (skey, JsonClone val)) es)"
| "JsonClone (JArray xs) = foldl JsonArrayAdd JsonArrayCreateInternal (map JsonClone xs)"

section \<open>Printing\<close>

text \<open>The text \<open>CMUTIL_JsonValueStringToStr\<close> prints for one byte.\<close>

definition json_escape :: "char \<Rightarrow> string" where
  "json_escape c =
     (if c = CHR 0x08 then [CHR 0x5C, CHR ''b'']
      else if c = CHR 0x0C then [CHR 0x5C, CHR ''f'']
      else if c = CHR 0x0D then [CHR 0x5C, CHR ''r'']
      else if c = CHR 0x0A then [CHR 0x5C, CHR ''n'']
      else if c = CHR 0x09 then [CHR 0x5C, CHR ''t'']
      else if c = CHR 0x22 then [CHR 0x5C, CHR 0x22]
      else if c = CHR 0x5C then [CHR 0x5C, CHR 0x5C]
      else if code c < 32 then [CHR 0x5C, CHR ''u''] @ hex_encode [0, word_of_int (code c)]
      else [c])"

definition add_text :: "alloc \<Rightarrow> cstring \<Rightarrow> string \<Rightarrow> cstring" where
  "add_text mem buf s = snd (StringAddNString mem buf (Some s) (length s))"

definition add_char :: "alloc \<Rightarrow> cstring \<Rightarrow> char \<Rightarrow> cstring" where
  "add_char mem buf c = snd (StringAddChar mem buf c)"

definition JsonValueNumberToStr :: "alloc \<Rightarrow> string \<Rightarrow> cstring \<Rightarrow> cstring" where
  "JsonValueNumberToStr mem d buf = add_text mem buf d"

fun escape_loop :: "alloc \<Rightarrow> string \<Rightarrow> cstring \<Rightarrow> cstring" where
  "escape_loop mem [] buf = buf"
| "escape_loop mem (c # p) buf =
     escape_loop mem p (case json_escape c of [e] \<Rightarrow> add_char mem buf e | es \<Rightarrow> add_text mem buf es)"

definition JsonValueStringToStr :: "alloc \<Rightarrow> string \<Rightarrow> cstring \<Rightarrow> cstring" where
  "JsonValueStringToStr mem d buf =
     add_char mem (escape_loop mem (cstr d) (add_char mem buf (CHR 0x22))) (CHR 0x22)"

fun JsonIndent :: "alloc \<Rightarrow> cstring \<Rightarrow> nat \<Rightarrow> cstring" where
  "JsonIndent mem buf 0 = buf"
| "JsonIndent mem buf (Suc depth) = JsonIndent mem (add_text mem buf ''  '') depth"

definition JsonValueToStringInternal :: "alloc \<Rightarrow> jtype \<Rightarrow> string \<Rightarrow> cstring \<Rightarrow> cstring" where
  "JsonValueToStringInternal mem t d buf =
     (if t = JString then JsonValueStringToStr mem d buf else JsonValueNumberToStr mem d buf)"

text \<open>
  The printers of the three kinds of nodes and their loops. The loop over an object takes every key
  from \<open>GetKeys\<close> and its item from \<open>Get\<close>; with distinct keys that is the list of the entries.
\<close>

function JsonToStringInternal :: "alloc \<Rightarrow> json \<Rightarrow> cstring \<Rightarrow> bool \<Rightarrow> nat \<Rightarrow> cstring"
  and JsonObjectToString_loop :: "alloc \<Rightarrow> (string \<times> json) list \<Rightarrow> nat \<Rightarrow> cstring \<Rightarrow> bool \<Rightarrow> nat \<Rightarrow> cstring"
  and JsonArrayToString_loop :: "alloc \<Rightarrow> json list \<Rightarrow> nat \<Rightarrow> cstring \<Rightarrow> bool \<Rightarrow> nat \<Rightarrow> cstring" where
  "JsonToStringInternal mem (JValue t d) buf pretty depth = JsonValueToStringInternal mem t d buf"
| "JsonToStringInternal mem (JObject es ks) buf pretty depth =
     (let b1 = add_char mem buf (CHR ''{'');
          b2 = (if 0 < length es then
                  (let b = JsonObjectToString_loop mem es 0 b1 pretty depth
                   in if pretty then JsonIndent mem (add_char mem b (CHR 0x0A)) depth else b)
                else b1)
      in add_char mem b2 (CHR ''}''))"
| "JsonToStringInternal mem (JArray xs) buf pretty depth =
     (let b1 = add_char mem buf (CHR ''['');
          b2 = (if 0 < length xs then JsonArrayToString_loop mem xs 0 b1 pretty depth else b1)
      in add_char mem b2 (CHR '']''))"
| "JsonObjectToString_loop mem [] i buf pretty depth = buf"
| "JsonObjectToString_loop mem ((key, item) # es) i buf pretty depth =
     (let b1 = (if 0 < i then add_char mem buf (CHR '','') else buf);
          b2 = (if pretty then JsonIndent mem (add_char mem b1 (CHR 0x0A)) (depth + 1) else b1);
          b3 = JsonValueStringToStr mem key b2;
          b4 = (if pretty then add_text mem b3 '': '' else add_char mem b3 (CHR '':''))
      in JsonObjectToString_loop mem es (i + 1)
           (JsonToStringInternal mem item b4 pretty (depth + 1)) pretty depth)"
| "JsonArrayToString_loop mem [] i buf pretty depth = buf"
| "JsonArrayToString_loop mem (item # xs) i buf pretty depth =
     (let b1 = (if 0 < i then (if pretty then add_text mem buf '', '' else add_char mem buf (CHR '','')) else buf)
      in JsonArrayToString_loop mem xs (i + 1)
           (JsonToStringInternal mem item b1 pretty (depth + 1)) pretty depth)"
  by pat_completeness auto
termination
  by (relation "measure (\<lambda>x. case x of Inl (_, j, _) \<Rightarrow> size j
       | Inr (Inl (_, es, _)) \<Rightarrow> size_list (size_prod (\<lambda>_. 0) size) es
       | Inr (Inr (_, xs, _)) \<Rightarrow> size_list size xs)") auto

definition JsonToString :: "alloc \<Rightarrow> json \<Rightarrow> cstring \<Rightarrow> bool \<Rightarrow> cstring" where
  "JsonToString mem json buf pretty = JsonToStringInternal mem json buf pretty 0"

section \<open>The text printed\<close>

definition quoted :: "string \<Rightarrow> string" where
  "quoted d = CHR 0x22 # concat (map json_escape (cstr d)) @ [CHR 0x22]"

definition indent :: "nat \<Rightarrow> string" where
  "indent d = concat (replicate d ''  '')"

definition key_text :: "bool \<Rightarrow> nat \<Rightarrow> string \<Rightarrow> string" where
  "key_text pretty depth k =
     (if pretty then CHR 0x0A # indent (depth + 1) else []) @ quoted k @ (if pretty then '': '' else '':'')"

fun json_text :: "bool \<Rightarrow> nat \<Rightarrow> json \<Rightarrow> string" where
  "json_text pretty depth (JValue t d) = (if t = JString then quoted d else d)"
| "json_text pretty depth (JObject es ks) =
     ''{'' @ join '','' (map (\<lambda>(k, v). key_text pretty depth k @ json_text pretty (depth + 1) v) es)
       @ (if pretty \<and> es \<noteq> [] then CHR 0x0A # indent depth else []) @ ''}''"
| "json_text pretty depth (JArray xs) =
     ''['' @ join (if pretty then '', '' else '','') (map (json_text pretty (depth + 1)) xs) @ '']''"

text \<open>
  \<open>b\<close> is \<open>buf\<close> with \<open>t\<close> added: a string of its own block that begins with what was there, and with
  memory granted ends in exactly \<open>t\<close>.
\<close>

definition prints :: "alloc \<Rightarrow> cstring \<Rightarrow> string \<Rightarrow> cstring \<Rightarrow> bool" where
  "prints mem buf t b \<longleftrightarrow>
     (str_inv buf \<longrightarrow> str_inv b \<and> (\<exists>u. content b = content buf @ u \<and> ((\<forall>n. mem n) \<longrightarrow> u = t)))"

lemma prints_refl: "prints mem buf [] buf"
  by (simp add: prints_def)

lemma prints_trans: "prints mem b0 t b1 \<Longrightarrow> prints mem b1 u b2 \<Longrightarrow> prints mem b0 (t @ u) b2"
  unfolding prints_def by (metis append.assoc)

lemma prints_text: "prints mem buf s (add_text mem buf s)"
  using AddNString_spec [of buf "length s" s mem]
  by (auto simp: prints_def add_text_def room_def split: prod.splits if_splits)

lemma prints_char: "prints mem buf [c] (add_char mem buf c)"
  using AddChar_spec [of buf mem c]
  by (auto simp: prints_def add_char_def room_def split: prod.splits if_splits)

lemma prints_then:
  "prints mem b0 t b1 \<Longrightarrow> prints mem b0 (t @ s) (add_text mem b1 s)"
  "prints mem b0 t b1 \<Longrightarrow> prints mem b0 (t @ [c]) (add_char mem b1 c)"
  by (blast intro: prints_trans prints_text prints_char)+

lemma prints_escape: "prints mem buf (concat (map json_escape p)) (escape_loop mem p buf)"
proof (induction p arbitrary: buf)
  case (Cons c p)
  let ?b = "case json_escape c of [e] \<Rightarrow> add_char mem buf e | es \<Rightarrow> add_text mem buf es"
  have "prints mem buf (json_escape c) ?b"
    using prints_text prints_char by (auto split: list.split)
  with Cons [of ?b] show ?case by (simp add: prints_trans)
qed (simp add: prints_refl)

lemma prints_quoted: "prints mem buf (quoted d) (JsonValueStringToStr mem d buf)"
proof -
  have "prints mem buf ([CHR 0x22] @ concat (map json_escape (cstr d)))
      (escape_loop mem (cstr d) (add_char mem buf (CHR 0x22)))"
    by (rule prints_trans [OF prints_char prints_escape])
  from prints_then(2) [OF this, of "CHR 0x22"] show ?thesis
    by (simp add: JsonValueStringToStr_def quoted_def)
qed

lemma prints_indent: "prints mem buf (indent d) (JsonIndent mem buf d)"
proof (induction d arbitrary: buf)
  case (Suc d)
  from prints_trans [OF prints_text [of mem buf "''  ''"] Suc] show ?case by (simp add: indent_def)
qed (simp add: indent_def prints_refl)

lemma prints_newline: "prints mem buf (CHR 0x0A # indent d) (JsonIndent mem (add_char mem buf (CHR 0x0A)) d)"
  using prints_trans [OF prints_char prints_indent] by simp

lemma prints_key:
  "prints mem buf (key_text pretty d k)
     (let b2 = (if pretty then JsonIndent mem (add_char mem buf (CHR 0x0A)) (d + 1) else buf);
          b3 = JsonValueStringToStr mem k b2
      in if pretty then add_text mem b3 '': '' else add_char mem b3 (CHR '':''))"
proof (cases pretty)
  case True
  have "prints mem buf ((CHR 0x0A # indent (d + 1)) @ quoted k)
      (JsonValueStringToStr mem k (JsonIndent mem (add_char mem buf (CHR 0x0A)) (d + 1)))"
    by (rule prints_trans [OF prints_newline prints_quoted])
  from prints_then(1) [OF this, of "'': ''"] True show ?thesis by (simp add: key_text_def Let_def)
next
  case False
  from prints_then(2) [OF prints_quoted, of _ _ _ "CHR '':''"] False show ?thesis
    by (simp add: key_text_def)
qed

text \<open>The items of a list behind \<open>i\<close> others.\<close>

definition listed :: "string \<Rightarrow> nat \<Rightarrow> string list \<Rightarrow> string" where
  "listed sep i ts = (if 0 < i then concat (map ((@) sep) ts) else join sep ts)"

lemma join_concat: "join sep (x # xs) = x @ concat (map ((@) sep) xs)"
  by (induction xs arbitrary: x) auto

lemma listed_simps [simp]:
  "listed sep i [] = []"
  "listed sep i (t # ts) = (if 0 < i then sep else []) @ t @ listed sep (Suc i) ts"
  by (auto simp: listed_def join_concat)

lemma ToString_prints:
  "prints mem buf (json_text pretty depth j) (JsonToStringInternal mem j buf pretty depth)"
  "prints mem buf (listed '','' i (map (\<lambda>(k, v). key_text pretty depth k @ json_text pretty (depth + 1) v) es))
     (JsonObjectToString_loop mem es i buf pretty depth)"
  "prints mem buf (listed (if pretty then '', '' else '','') i (map (json_text pretty (depth + 1)) xs))
     (JsonArrayToString_loop mem xs i buf pretty depth)"
proof (induction mem j buf pretty depth and mem es i buf pretty depth and mem xs i buf pretty depth
    rule: JsonToStringInternal_JsonObjectToString_loop_JsonArrayToString_loop.induct)
  case (1 mem t d buf pretty depth)
  then show ?case
    using prints_text prints_quoted by (simp add: JsonValueToStringInternal_def JsonValueNumberToStr_def)
next
  case (2 mem es ks buf pretty depth)
  let ?b1 = "add_char mem buf (CHR ''{'')"
  let ?ms = "map (\<lambda>(k, v). key_text pretty depth k @ json_text pretty (depth + 1) v) es"
  let ?nl = "if pretty \<and> es \<noteq> [] then CHR 0x0A # indent depth else []"
  have "prints mem ?b1 (join '','' ?ms @ ?nl)
      (if 0 < length es then
         (let b = JsonObjectToString_loop mem es 0 ?b1 pretty depth
          in if pretty then JsonIndent mem (add_char mem b (CHR 0x0A)) depth else b)
       else ?b1)"
  proof (cases "es = []")
    case True
    then show ?thesis by (simp add: prints_refl)
  next
    case False
    then have loop: "prints mem ?b1 (join '','' ?ms) (JsonObjectToString_loop mem es 0 ?b1 pretty depth)"
      using "2.IH" by (simp add: listed_def)
    with False prints_trans [OF loop prints_newline] show ?thesis by (cases pretty) (simp_all add: Let_def)
  qed
  note all = prints_then(2) [OF prints_trans [OF prints_char this], of "CHR ''}''"]
  show ?case
  proof (cases "es = []")
    case True
    with all show ?thesis by simp
  next
    case False
    with all show ?thesis by (cases pretty) (simp_all add: Let_def)
  qed
next
  case (3 mem xs buf pretty depth)
  let ?b1 = "add_char mem buf (CHR ''['')"
  let ?ts = "map (json_text pretty (depth + 1)) xs"
  have "prints mem ?b1 (join (if pretty then '', '' else '','') ?ts)
      (if 0 < length xs then JsonArrayToString_loop mem xs 0 ?b1 pretty depth else ?b1)"
    using "3.IH" by (cases xs) (simp_all add: prints_refl listed_def del: listed_simps)
  note all = prints_then(2) [OF prints_trans [OF prints_char this], of "CHR '']''"]
  show ?case
  proof (cases "xs = []")
    case True
    with all show ?thesis by simp
  next
    case False
    with all show ?thesis by (cases pretty) (simp_all add: Let_def)
  qed
next
  case (4 mem i buf pretty depth)
  then show ?case by (simp add: prints_refl)
next
  case (5 mem key item es i buf pretty depth)
  define b1 where "b1 = (if 0 < i then add_char mem buf (CHR '','') else buf)"
  define b4 where "b4 = (let b2 = (if pretty then JsonIndent mem (add_char mem b1 (CHR 0x0A)) (depth + 1) else b1);
          b3 = JsonValueStringToStr mem key b2
      in if pretty then add_text mem b3 '': '' else add_char mem b3 (CHR '':''))"
  have 1: "prints mem buf (if 0 < i then '','' else []) b1"
    using prints_char by (simp add: b1_def prints_refl)
  have 2: "prints mem b1 (key_text pretty depth key) b4"
    unfolding b4_def by (rule prints_key)
  note 12 = prints_trans [OF 1 2]
  have eq: "JsonObjectToString_loop mem ((key, item) # es) i buf pretty depth
      = JsonObjectToString_loop mem es (i + 1) (JsonToStringInternal mem item b4 pretty (depth + 1)) pretty depth"
    by (simp add: b1_def b4_def Let_def)
  from "5.IH" [OF b1_def _ _ _] have
    "prints mem b4 (json_text pretty (depth + 1) item) (JsonToStringInternal mem item b4 pretty (depth + 1))"
    "prints mem (JsonToStringInternal mem item b4 pretty (depth + 1))
      (listed '','' (i + 1) (map (\<lambda>(k, v). key_text pretty depth k @ json_text pretty (depth + 1) v) es))
      (JsonObjectToString_loop mem es (i + 1) (JsonToStringInternal mem item b4 pretty (depth + 1)) pretty depth)"
    by (simp_all add: b4_def Let_def)
  from prints_trans [OF prints_trans [OF 12 this(1)] this(2)] show ?case unfolding eq by simp
next
  case (6 mem i buf pretty depth)
  then show ?case by (simp add: prints_refl)
next
  case (7 mem item xs i buf pretty depth)
  define b1 where "b1 = (if 0 < i then (if pretty then add_text mem buf '', '' else add_char mem buf (CHR '','')) else buf)"
  have 1: "prints mem buf (if 0 < i then (if pretty then '', '' else '','') else []) b1"
    using prints_char prints_text by (simp add: b1_def prints_refl)
  from prints_trans [OF prints_trans [OF 1 "7.IH"(1) [OF b1_def]] "7.IH"(2) [OF b1_def]]
  show ?case by (simp add: b1_def [symmetric] Let_def split del: if_split)
qed

section \<open>Well-formed trees\<close>

text \<open>Keys and texts are C strings, keys are distinct, the \<open>keys\<close> array holds each key once.\<close>

fun json_ok :: "json \<Rightarrow> bool" where
  "json_ok (JValue t d) = (NUL \<notin> set d)"
| "json_ok (JObject es ks) =
     (distinct (map fst es) \<and> distinct ks \<and> set ks = fst ` set es
       \<and> list_all (\<lambda>(k, v). NUL \<notin> set k \<and> json_ok v) es)"
| "json_ok (JArray xs) = list_all json_ok xs"

lemma fst_al_put: "map fst (al_put k v es) = filter (\<lambda>x. x \<noteq> k) (map fst es) @ [k]"
  by (simp add: al_put_def filter_map comp_def)

lemma fst_al_remove: "map fst (al_remove k es) = filter (\<lambda>x. x \<noteq> k) (map fst es)"
  by (simp add: al_remove_def filter_map comp_def)

lemma map_of_al_remove: "map_of (al_remove k es) k' = (if k' = k then None else map_of es k')"
  by (induction es) (auto simp: al_remove_def)

lemma ObjectPut_ok:
  assumes "json_ok (JObject es ks)" "NUL \<notin> set key" "json_ok v"
  shows "json_ok (snd (JsonObjectPut (JObject es ks) key v))"
proof -
  have "fst ` set (al_put key v es) = insert key (fst ` set es)"
    by (force simp: al_put_def)
  moreover have "map_of es key \<noteq> None \<longleftrightarrow> key \<in> fst ` set es"
    by (simp add: map_of_eq_None_iff)
  moreover have "distinct (map fst (al_put key v es))" using assms by (simp add: fst_al_put)
  moreover have "list_all (\<lambda>(k, v). NUL \<notin> set k \<and> json_ok v) (al_put key v es)"
    using assms by (auto simp: list_all_iff al_put_def)
  ultimately show ?thesis
    using assms by (auto simp: JsonObjectPut_def Let_def)
qed

lemma ObjectRemove_ok:
  assumes "json_ok (JObject es ks)"
  shows "json_ok (snd (JsonObjectRemove (JObject es ks) key))"
proof -
  have "fst ` set (al_remove key es) = fst ` set es - {key}" by (force simp: al_remove_def)
  moreover have "distinct (map fst (al_remove key es))" using assms by (simp add: fst_al_remove)
  moreover have "list_all (\<lambda>(k, v). NUL \<notin> set k \<and> json_ok v) (al_remove key es)"
    using assms by (auto simp: list_all_iff al_remove_def)
  ultimately show ?thesis using assms by (auto simp: JsonObjectRemove_def)
qed

text \<open>The tree with every \<open>keys\<close> array in the order of its entries.\<close>

fun reordered :: "json \<Rightarrow> json" where
  "reordered (JValue t d) = JValue t d"
| "reordered (JObject es ks) = JObject (map (\<lambda>(k, v). (k, reordered v)) es) (map fst es)"
| "reordered (JArray xs) = JArray (map reordered xs)"

lemma Put_fresh:
  assumes "k \<notin> fst ` set acc"
  shows "snd (JsonObjectPut (JObject acc (map fst acc)) k v) = JObject (acc @ [(k, v)]) (map fst (acc @ [(k, v)]))"
proof -
  have "filter (\<lambda>kv. fst kv \<noteq> k) acc = acc" using assms by (intro filter_True) auto
  moreover have "map_of acc k = None" using assms by (simp add: map_of_eq_None_iff)
  ultimately show ?thesis by (simp add: JsonObjectPut_def al_put_def)
qed

lemma foldl_Put:
  "distinct (map fst (acc @ es)) \<Longrightarrow>
    foldl (\<lambda>res (k, v). snd (JsonObjectPut res k v)) (JObject acc (map fst acc)) es
      = JObject (acc @ es) (map fst (acc @ es))"
proof (induction es arbitrary: acc)
  case (Cons e es)
  obtain k v where e: "e = (k, v)" by fastforce
  with Cons.prems have "k \<notin> fst ` set acc" by auto
  from Put_fresh [OF this, of v] Cons.IH [of "acc @ [e]"] Cons.prems show ?case by (simp add: e)
qed simp

lemma foldl_Add: "foldl JsonArrayAdd (JArray acc) xs = JArray (acc @ xs)"
  by (induction xs arbitrary: acc) (simp_all add: JsonArrayAdd_def)

lemma Clone_reordered: "json_ok j \<Longrightarrow> JsonClone j = reordered j"
proof (induction j rule: JsonClone.induct)
  case (2 es ks)
  let ?es = "map (\<lambda>(skey, val). (skey, JsonClone val)) es"
  have "JsonClone val = reordered val" if "(skey, val) \<in> set es" for skey val
    using 2 that by (force simp: list_all_iff)
  then have eq: "?es = map (\<lambda>(k, v). (k, reordered v)) es" by auto
  have keys: "map fst ?es = map fst es" by (auto simp: comp_def split_def)
  have "distinct (map fst es)" using 2(2) by simp
  then have "distinct (map fst ([] @ ?es))" by (simp only: append_Nil keys)
  from foldl_Put [OF this] have "JsonClone (JObject es ks) = JObject ?es (map fst ?es)"
    by (simp add: JsonObjectCreateInternal_def)
  then show ?case by (simp only: eq keys [unfolded eq] reordered.simps)
next
  case (3 xs)
  then have "map JsonClone xs = map reordered xs" by (auto simp: list_all_iff)
  then show ?case by (simp add: foldl_Add JsonArrayCreateInternal_def)
qed simp

lemma text_reordered: "json_text pretty depth (reordered j) = json_text pretty depth j"
proof (induction pretty depth j rule: json_text.induct)
  case (2 pretty depth es ks)
  have eq: "map (\<lambda>(k, v). key_text pretty depth k @ json_text pretty (depth + 1) v)
       (map (\<lambda>(k, v). (k, reordered v)) es)
     = map (\<lambda>(k, v). key_text pretty depth k @ json_text pretty (depth + 1) v) es"
    using 2 by force
  show ?case by (simp only: reordered.simps json_text.simps eq) simp
next
  case (3 pretty depth xs)
  then have "map (json_text pretty (depth + 1)) (map reordered xs) = map (json_text pretty (depth + 1)) xs"
    by simp
  then show ?case by (simp only: reordered.simps json_text.simps)
qed simp

lemma map_fst_second [simp]: "map fst (map (\<lambda>(k, v). (k, f v)) es) = map fst es"
  by (induction es) auto

lemma reordered_idem: "reordered (reordered j) = reordered j"
proof (induction j rule: reordered.induct)
  case (2 es ks)
  have eq: "map (\<lambda>(k, v). (k, reordered v)) (map (\<lambda>(k, v). (k, reordered v)) es)
      = map (\<lambda>(k, v). (k, reordered v)) es"
    using 2 by force
  show ?case by (simp only: reordered.simps eq map_fst_second)
qed simp_all

lemma reordered_ok: "json_ok j \<Longrightarrow> json_ok (reordered j)"
proof (induction j rule: reordered.induct)
  case (2 es ks)
  have "fst ` set (map (\<lambda>(k, v). (k, reordered v)) es) = fst ` set es" by force
  moreover have "list_all (\<lambda>(k, v). NUL \<notin> set k \<and> json_ok v) (map (\<lambda>(k, v). (k, reordered v)) es)"
    using 2 by (force simp: list_all_iff)
  ultimately show ?case using "2.prems" by (simp only: reordered.simps json_ok.simps map_fst_second) simp
next
  case (3 xs)
  then show ?case by (auto simp: list_all_iff)
qed simp

section \<open>Properties\<close>

text \<open>
  Printing. Whatever the allocator does, \<open>JsonToString\<close> keeps the buffer a terminated string
  inside its block and only adds to what it held; with memory granted it adds exactly the text of
  the value, compact or indented. A clone prints the same text.
\<close>

theorem json_print:
  assumes "str_inv buf"
  shows "str_inv (JsonToString mem j buf pretty) \<and>
    (\<exists>u. content (JsonToString mem j buf pretty) = content buf @ u) \<and>
    ((\<forall>n. mem n) \<longrightarrow> content (JsonToString mem j buf pretty) = content buf @ json_text pretty 0 j)"
  using ToString_prints(1) [of mem buf pretty 0 j] assms by (auto simp: prints_def JsonToString_def)

definition sample_json :: json where
  "sample_json = JObject [(''a'', JArray [JValue JLong ''1'', JValue JNull ''null'']),
     (''b'', JValue JString [CHR ''x'', CHR 0x22])] [''a'', ''b'']"

theorem json_print_witness:
  "\<exists>s. StringCreateInternal (\<lambda>_. True) 10 NULL = Some s \<and>
    content (JsonToString (\<lambda>_. True) sample_json s False)
      = ''{'' @ [CHR 0x22, CHR ''a'', CHR 0x22] @ '':[1,null],'' @ [CHR 0x22, CHR ''b'', CHR 0x22] @ '':''
        @ [CHR 0x22, CHR ''x'', CHR 0x5C, CHR 0x22, CHR 0x22] @ ''}''"
proof -
  obtain s where s: "StringCreateInternal (\<lambda>_. True) 10 NULL = Some s" "str_inv s" "content s = []"
    using Create_granted [of 10 NULL "\<lambda>_. True"] by auto
  have e: "json_escape c = [c]" if "c \<in> {CHR ''a'', CHR ''b'', CHR ''x''}" for c
    using that by (auto simp: json_escape_def code_def of_char_def)
  have q: "json_escape (CHR 0x22) = [CHR 0x5C, CHR 0x22]" by (simp add: json_escape_def)
  from json_print [OF s(2), of "\<lambda>_. True" sample_json False] s show ?thesis
    by (simp add: sample_json_def key_text_def quoted_def e q)
qed

text \<open>
  \<open>Clone\<close> of a well-formed tree is that tree with every \<open>keys\<close> array in the order of the entries:
  it is well-formed, prints the same text, answers the same lookups and is its own clone; a tree
  whose \<open>keys\<close> arrays already are in that order is copied exactly.
\<close>

theorem json_clone:
  assumes "json_ok j"
  shows "json_ok (JsonClone j) \<and> json_text pretty depth (JsonClone j) = json_text pretty depth j
    \<and> JsonClone (JsonClone j) = JsonClone j \<and> JsonGetType (JsonClone j) = JsonGetType j
    \<and> JsonObjectGet (JsonClone j) key = map_option JsonClone (JsonObjectGet j key)
    \<and> (reordered j = j \<longrightarrow> JsonClone j = j)"
proof (intro conjI impI)
  note r = Clone_reordered [OF assms]
  show ok: "json_ok (JsonClone j)" using reordered_ok [OF assms] by (simp only: r)
  show "JsonClone (JsonClone j) = JsonClone j"
    using Clone_reordered [OF ok] by (simp only: r reordered_idem)
  show "json_text pretty depth (JsonClone j) = json_text pretty depth j" by (simp only: r text_reordered)
  show "JsonGetType (JsonClone j) = JsonGetType j" unfolding r by (cases j) (simp_all add: JsonGetType_def)
  show "reordered j = j \<Longrightarrow> JsonClone j = j" by (simp only: r)
  show "JsonObjectGet (JsonClone j) key = map_option JsonClone (JsonObjectGet j key)"
  proof (cases j)
    case (JObject es ks)
    have sub: "JsonClone w = reordered w" if "(k, w) \<in> set es" for k w
      using assms that by (intro Clone_reordered) (auto simp: JObject list_all_iff)
    have "map_of (map (\<lambda>(k, v). (k, reordered v)) es) key = map_option reordered (map_of es key)"
      by (induction es) auto
    with sub show ?thesis unfolding r
      by (cases "map_of es key") (auto simp: JObject JsonObjectGet_def simp del: JsonClone.simps dest: map_of_SomeD)
  qed (unfold r, simp_all add: JsonObjectGet_def)
qed

theorem json_clone_witness: "JsonClone sample_json = sample_json"
proof -
  have "json_ok sample_json" "reordered sample_json = sample_json" by (auto simp: sample_json_def)
  with json_clone [of sample_json False 0 "''a''"] show ?thesis by blast
qed

end
