(* ===== verification/Cmu_JsonParse.thy ===== *)
theory Cmu_JsonParse
  imports Cmu_Json
begin

text \<open>
  \<open>src/src/nanojson.c\<close>, the parser. \<open>jp_rest\<close> are the bytes from \<open>curr\<close> on, so \<open>remain\<close> is their
  number; a read at or behind the end reads the terminator of the text. \<open>jp_line\<close> is \<open>linecnt\<close>. The
  nesting depth, which every \<open>CMUTIL_JsonParseBase\<close> restores when it returns, is an argument, the
  string being read an accumulator (memory granted). The three mutually recursive functions run on
  fuel; \<open>json_parse_total\<close> shows that the fuel \<open>JsonParse\<close> gives them is enough for any text.
\<close>

section \<open>The parser state\<close>

record jparser =
  jp_rest :: string
  jp_line :: nat

definition JSN_SPACES :: string where
  "JSN_SPACES = [CHR '' '', CHR 0x09, CHR 0x0D, CHR 0x0A]"

definition JSN_DELIMS :: string where
  "JSN_DELIMS = '':,[]{}''"

definition JSON_MAX_DEPTH :: nat where
  "JSON_MAX_DEPTH = 512"

definition remain :: "jparser \<Rightarrow> nat" where
  "remain p = length (jp_rest p)"

definition peek :: "nat \<Rightarrow> jparser \<Rightarrow> char" where
  "peek i p = (if i < length (jp_rest p) then jp_rest p ! i else NUL)"

definition JsonParseConsume :: "nat \<Rightarrow> jparser \<Rightarrow> jparser" where
  "JsonParseConsume n p =
     (let m = min (remain p) n
      in \<lparr>jp_rest = drop m (jp_rest p),
          jp_line = jp_line p + length (filter (\<lambda>c. c = CHR 0x0A) (take m (jp_rest p)))\<rparr>)"

lemma remain_consume [simp]: "remain (JsonParseConsume n p) = remain p - n"
  by (simp add: JsonParseConsume_def remain_def Let_def)

definition JsonStartsWith :: "jparser \<Rightarrow> string \<Rightarrow> bool" where
  "JsonStartsWith p str = prefixb str (jp_rest p)"

text \<open>\<open>while (go && remain > 0) JsonParseConsume(1);\<close>\<close>

function skip_while :: "(jparser \<Rightarrow> bool) \<Rightarrow> jparser \<Rightarrow> jparser" where
  "skip_while go p = (if 0 < remain p \<and> go p then skip_while go (JsonParseConsume 1 p) else p)"
  by pat_completeness auto
termination
  by (relation "measure (\<lambda>(g, p). remain p)") auto

declare skip_while.simps [simp del]

lemma remain_skip_while: "remain (skip_while go p) \<le> remain p"
proof (induction go p rule: skip_while.induct)
  case (1 go p)
  then show ?case by (subst skip_while.simps) auto
qed

definition skip_spaces_only :: "jparser \<Rightarrow> jparser" where
  "skip_spaces_only = skip_while (\<lambda>p. strchr JSN_SPACES (peek 0 p))"

definition skip_line_comment :: "jparser \<Rightarrow> jparser" where
  "skip_line_comment p =
     skip_while (\<lambda>p. \<not> strchr [CHR 0x0D, CHR 0x0A] (peek 0 p)) (JsonParseConsume 2 p)"

definition skip_block_comment :: "jparser \<Rightarrow> jparser" where
  "skip_block_comment p =
     (let q = skip_while (\<lambda>p. \<not> JsonStartsWith p ''*/'') (JsonParseConsume 2 p)
      in if 0 < remain q then JsonParseConsume 2 q else q)"

lemma remain_comments:
  "0 < remain p \<Longrightarrow> remain (skip_line_comment p) < remain p"
  "0 < remain p \<Longrightarrow> remain (skip_block_comment p) < remain p"
proof -
  have le: "remain (skip_while go (JsonParseConsume 2 p)) \<le> remain p - 2" for go
    using remain_skip_while [of go "JsonParseConsume 2 p"] by simp
  from le [of "\<lambda>p. \<not> strchr [CHR 0x0D, CHR 0x0A] (peek 0 p)"]
  show "0 < remain p \<Longrightarrow> remain (skip_line_comment p) < remain p"
    by (auto simp: skip_line_comment_def)
  from le [of "\<lambda>p. \<not> JsonStartsWith p ''*/''"]
  show "0 < remain p \<Longrightarrow> remain (skip_block_comment p) < remain p"
    by (auto simp: skip_block_comment_def Let_def)
qed

lemma remain_spaces_only: "remain (skip_spaces_only p) \<le> remain p"
  by (simp add: skip_spaces_only_def remain_skip_while)

text \<open>\<open>CMUTIL_JsonSkipSpaces\<close>: whether input is left, and the state behind blanks and comments.\<close>

function JsonSkipSpaces :: "jparser \<Rightarrow> bool \<times> jparser" where
  "JsonSkipSpaces p0 =
     (let p = skip_spaces_only p0
      in if 0 < remain p \<and> peek 0 p = CHR ''/'' \<and> peek 1 p = CHR ''/''
         then JsonSkipSpaces (skip_line_comment p)
         else if 0 < remain p \<and> peek 0 p = CHR ''/'' \<and> peek 1 p = CHR ''*''
         then JsonSkipSpaces (skip_block_comment p)
         else (0 < remain p, p))"
  by pat_completeness auto
termination
proof (relation "measure remain", goal_cases)
  case (2 p0 p)
  then show ?case using remain_spaces_only [of p0] remain_comments(1) [of p] by simp
next
  case (3 p0 p)
  then show ?case using remain_spaces_only [of p0] remain_comments(2) [of p] by simp
qed simp

declare JsonSkipSpaces.simps [simp del]

section \<open>Strings\<close>

text \<open>\<open>CMUTIL_JsonAppendUTF8\<close>: the bytes added.\<close>

definition JsonAppendUTF8 :: "nat \<Rightarrow> string" where
  "JsonAppendUTF8 cp =
     (if cp < 0x80 then [char_of cp]
      else if cp < 0x800 then [char_of (0xC0 + cp div 64), char_of (0x80 + cp mod 64)]
      else if cp < 0x10000 then
        [char_of (0xE0 + cp div 4096), char_of (0x80 + cp div 64 mod 64), char_of (0x80 + cp mod 64)]
      else [char_of (0xF0 + cp div 262144), char_of (0x80 + cp div 4096 mod 64),
        char_of (0x80 + cp div 64 mod 64), char_of (0x80 + cp mod 64)])"

text \<open>Four hexadecimal digits from offset \<open>i\<close>: \<open>CMUTIL_StringHexToBytes(buf, curr + i, 4)\<close>.\<close>

definition hex4 :: "nat \<Rightarrow> jparser \<Rightarrow> nat option" where
  "hex4 i p =
     (case StringHexToBytes (drop i (jp_rest p)) 4 of
        (r, buf) \<Rightarrow> if r < 0 then None else Some (256 * unat (buf ! 0) + unat (buf ! 1)))"

text \<open>
  \<open>CMUTIL_JsonParseEscape\<close>: the state, left at the last character of the escape, and the bytes
  added, or \<open>None\<close> on an error.
\<close>

definition JsonParseEscape :: "jparser \<Rightarrow> (jparser \<times> string) option" where
  "JsonParseEscape p0 =
     (let p = JsonParseConsume 1 p0
      in if remain p = 0 then None
         else if peek 0 p = CHR ''b'' then Some (p, [CHR 0x08])
         else if peek 0 p = CHR ''f'' then Some (p, [CHR 0x0C])
         else if peek 0 p = CHR ''t'' then Some (p, [CHR 0x09])
         else if peek 0 p = CHR ''r'' then Some (p, [CHR 0x0D])
         else if peek 0 p = CHR ''n'' then Some (p, [CHR 0x0A])
         else if peek 0 p = CHR ''u'' then
           (if remain p < 5 then None
            else
              (case hex4 1 p of
                 None \<Rightarrow> None
               | Some cp \<Rightarrow>
                   (let p1 = JsonParseConsume 4 p
                    in if 0xD800 \<le> cp \<and> cp \<le> 0xDBFF then
                         (if remain p1 < 7 \<or> peek 1 p1 \<noteq> CHR 0x5C \<or> peek 2 p1 \<noteq> CHR ''u'' then None
                          else
                            (case hex4 3 p1 of
                               None \<Rightarrow> None
                             | Some lo \<Rightarrow>
                                 if lo < 0xDC00 \<or> lo > 0xDFFF then None
                                 else Some (JsonParseConsume 6 p1,
                                   JsonAppendUTF8 (0x10000 + (cp - 0xD800) * 1024 + (lo - 0xDC00)))))
                       else if 0xDC00 \<le> cp \<and> cp \<le> 0xDFFF then None
                       else Some (p1, JsonAppendUTF8 cp))))
         else Some (p, [peek 0 p]))"

lemma escape_remain: "JsonParseEscape p = Some (p', s) \<Longrightarrow> 0 < remain p' \<and> remain p' < remain p"
  by (auto simp: JsonParseEscape_def Let_def split: if_splits option.splits)

text \<open>The loop of \<open>CMUTIL_JsonParseString\<close>; \<open>sbuf\<close> is the string read so far.\<close>

function string_loop :: "bool \<Rightarrow> jparser \<Rightarrow> string \<Rightarrow> (jparser \<times> string) option" where
  "string_loop isstquot p sbuf =
     (if 0 < remain p then
        (if peek 0 p = CHR 0x5C then
           (case JsonParseEscape p of
              None \<Rightarrow> None
            | Some (p', s) \<Rightarrow> string_loop isstquot (JsonParseConsume 1 p') (sbuf @ s))
         else if isstquot \<and> peek 0 p = CHR 0x22 then Some (JsonParseConsume 1 p, sbuf)
         else if \<not> isstquot \<and> strchr JSN_DELIMS (peek 0 p) then Some (p, sbuf)
         else string_loop isstquot (JsonParseConsume 1 p) (sbuf @ [peek 0 p]))
      else Some (p, sbuf))"
  by pat_completeness auto
termination
  by (relation "measure (\<lambda>(q, p, s). remain p)") (auto dest: escape_remain)

declare string_loop.simps [simp del]

text \<open>\<open>CMUTIL_JsonParseString\<close>: the state, the string, and \<open>isconst\<close> (no quote at its start).\<close>

definition JsonParseString :: "jparser \<Rightarrow> (jparser \<times> string \<times> bool) option" where
  "JsonParseString p0 =
     (case JsonSkipSpaces p0 of
        (False, _) \<Rightarrow> None
      | (True, p) \<Rightarrow>
          (let isstquot = (peek 0 p = CHR 0x22);
               p1 = (if isstquot then JsonParseConsume 1 p else p)
           in case string_loop isstquot p1 [] of
                None \<Rightarrow> None
              | Some (p2, sbuf) \<Rightarrow> Some (p2, sbuf, \<not> isstquot)))"

section \<open>Values\<close>

text \<open>The growable string that holds exactly \<open>s\<close>.\<close>

definition string_of :: "string \<Rightarrow> cstring" where
  "string_of s = \<lparr>s_data = s @ [NUL], s_capacity = length s + 1, s_size = length s\<rparr>"

definition JsonParseConst :: "'d dlib \<Rightarrow> json \<Rightarrow> string \<Rightarrow> json option" where
  "JsonParseConst lib jval s =
     (let str = StringSelfTrim (string_of s);
          cs = cstr (StringGetCString str);
          first = (case cs of [] \<Rightarrow> NUL | c # _ \<Rightarrow> c)
      in if StringGetSize str < 5 \<and> strcaseeq cs ''true'' then Some (JsonValueSetBoolean jval True)
         else if StringGetSize str < 5 \<and> strcaseeq cs ''false'' then Some (JsonValueSetBoolean jval False)
         else if StringGetSize str < 5 \<and> strcaseeq cs ''null'' then Some (JsonValueSetNull jval)
         else if strchr ''tTfF'' first then
           (if strcaseeq cs ''true'' then Some (JsonValueSetBoolean jval True)
            else if strcaseeq cs ''false'' then Some (JsonValueSetBoolean jval False)
            else None)
         else if strchr ''nN'' first then
           (if strcaseeq cs ''null'' then Some (JsonValueSetNull jval) else None)
         else if strchr cs (CHR ''.'') then
           (case strtod lib cs of (v, used) \<Rightarrow> if used = 0 then None else Some (JsonValueSetDouble lib jval v))
         else
           (case strtoll cs of (v, used) \<Rightarrow> if used = 0 then None else Some (JsonValueSetLong jval v)))"

definition JsonParseValue :: "'d dlib \<Rightarrow> jparser \<Rightarrow> json option \<times> jparser" where
  "JsonParseValue lib p0 =
     (case JsonSkipSpaces p0 of
        (False, p) \<Rightarrow> (None, p)
      | (True, p) \<Rightarrow>
          (case JsonParseString p of
             None \<Rightarrow> (None, p)
           | Some (p1, sbuf, isconst) \<Rightarrow>
               if isconst then (JsonParseConst lib JsonValueCreateInternal sbuf, p1)
               else (Some (JsonValueSetString JsonValueCreateInternal (cstr sbuf)), p1)))"

text \<open>
  The mutually recursive functions; \<open>None\<close> is fuel running out, \<open>Some (None, _)\<close> the failure of the
  code. After a failure nothing of the state is used but the depth, so failures keep the state at
  hand.
\<close>

fun JsonParseBase :: "nat \<Rightarrow> 'd dlib \<Rightarrow> nat \<Rightarrow> jparser \<Rightarrow> (json option \<times> jparser) option"
  and JsonParseObject_loop :: "nat \<Rightarrow> 'd dlib \<Rightarrow> nat \<Rightarrow> json \<Rightarrow> jparser \<Rightarrow> (json option \<times> jparser) option"
  and JsonParseArray_loop :: "nat \<Rightarrow> 'd dlib \<Rightarrow> nat \<Rightarrow> json \<Rightarrow> jparser \<Rightarrow> (json option \<times> jparser) option" where
  "JsonParseBase 0 lib depth p0 = None"
| "JsonParseBase (Suc n) lib depth p0 =
     (if JSON_MAX_DEPTH \<le> depth then Some (None, p0)
      else
        (case JsonSkipSpaces p0 of
           (False, p) \<Rightarrow> Some (None, p)
         | (True, p) \<Rightarrow>
             if peek 0 p = CHR ''{'' then
               JsonParseObject_loop n lib (depth + 1) JsonObjectCreateInternal (JsonParseConsume 1 p)
             else if peek 0 p = CHR ''['' then
               JsonParseArray_loop n lib (depth + 1) JsonArrayCreateInternal (JsonParseConsume 1 p)
             else Some (JsonParseValue lib p)))"
| "JsonParseObject_loop 0 lib depth res p0 = None"
| "JsonParseObject_loop (Suc n) lib depth res p0 =
     (if remain p0 = 0 then Some (Some res, p0)
      else
        (case JsonSkipSpaces p0 of
           (False, p) \<Rightarrow> Some (None, p)
         | (True, p) \<Rightarrow>
             if peek 0 p = CHR ''}'' then Some (Some res, JsonParseConsume 1 p)
             else
               (case JsonParseString p of
                  None \<Rightarrow> Some (None, p)
                | Some (p1, name, _) \<Rightarrow>
                    (case JsonSkipSpaces p1 of
                       (False, p2) \<Rightarrow> Some (None, p2)
                     | (True, p2) \<Rightarrow>
                         if peek 0 p2 \<noteq> CHR '':'' then Some (None, p2)
                         else
                           (case JsonParseBase n lib depth (JsonParseConsume 1 p2) of
                              None \<Rightarrow> None
                            | Some (None, p3) \<Rightarrow> Some (None, p3)
                            | Some (Some val, p3) \<Rightarrow>
                                (let res' = snd (JsonObjectPut res (cstr name) val)
                                 in case JsonSkipSpaces p3 of
                                      (False, p4) \<Rightarrow> Some (None, p4)
                                    | (True, p4) \<Rightarrow>
                                        if peek 0 p4 = CHR '','' then
                                          JsonParseObject_loop n lib depth res' (JsonParseConsume 1 p4)
                                        else if peek 0 p4 = CHR ''}'' then
                                          Some (Some res', JsonParseConsume 1 p4)
                                        else Some (None, p4)))))))"
| "JsonParseArray_loop 0 lib depth res p0 = None"
| "JsonParseArray_loop (Suc n) lib depth res p0 =
     (if remain p0 = 0 then Some (Some res, p0)
      else
        (case JsonSkipSpaces p0 of
           (False, p) \<Rightarrow> Some (None, p)
         | (True, p) \<Rightarrow>
             if peek 0 p = CHR '']'' then Some (Some res, JsonParseConsume 1 p)
             else
               (case JsonParseBase n lib depth p of
                  None \<Rightarrow> None
                | Some (None, p3) \<Rightarrow> Some (None, p3)
                | Some (Some item, p3) \<Rightarrow>
                    (let res' = JsonArrayAdd res item
                     in case JsonSkipSpaces p3 of
                          (False, p4) \<Rightarrow> Some (None, p4)
                        | (True, p4) \<Rightarrow>
                            if peek 0 p4 = CHR '']'' then Some (Some res', JsonParseConsume 1 p4)
                            else if peek 0 p4 = CHR '','' then
                              JsonParseArray_loop n lib depth res' (JsonParseConsume 1 p4)
                            else Some (None, p4)))))"

definition JsonParseInternal :: "'d dlib \<Rightarrow> string \<Rightarrow> (json option \<times> jparser) option" where
  "JsonParseInternal lib jsonstr =
     JsonParseBase (2 * length jsonstr + 2) lib 0 \<lparr>jp_rest = jsonstr, jp_line = 0\<rparr>"

definition JsonParse :: "'d dlib \<Rightarrow> string \<Rightarrow> json option" where
  "JsonParse lib jsonstr =
     (case JsonParseInternal lib jsonstr of Some (r, _) \<Rightarrow> r | None \<Rightarrow> None)"

section \<open>Moving forward\<close>

text \<open>\<open>q\<close> is \<open>p\<close> some bytes on, its line number that many newlines higher.\<close>

definition forward :: "jparser \<Rightarrow> jparser \<Rightarrow> bool" where
  "forward p q \<longleftrightarrow> (\<exists>u. jp_rest p = u @ jp_rest q \<and>
     jp_line q = jp_line p + length (filter (\<lambda>c. c = CHR 0x0A) u))"

lemma forward_refl [intro!]: "forward p p"
  by (simp add: forward_def)

lemma forward_trans: "forward p q \<Longrightarrow> forward q r \<Longrightarrow> forward p r"
  by (force simp: forward_def)

lemma forward_consume [intro!]: "forward p (JsonParseConsume n p)"
  unfolding forward_def JsonParseConsume_def
  by (rule exI [of _ "take (min (remain p) n) (jp_rest p)"]) (simp add: Let_def)

lemma forward_remain: "forward p q \<Longrightarrow> remain q \<le> remain p"
  by (auto simp: forward_def remain_def)

lemma forward_step: "forward (JsonParseConsume n p) q \<Longrightarrow> forward p q"
  by (rule forward_trans [OF forward_consume])

lemma forward_skip_while: "forward p (skip_while go p)"
proof (induction go p rule: skip_while.induct)
  case (1 go p)
  then show ?case by (subst skip_while.simps) (auto intro: forward_step)
qed

lemma forward_spaces: "JsonSkipSpaces p = (b, q) \<Longrightarrow> forward p q \<and> (b \<longleftrightarrow> 0 < remain q)"
proof (induction p arbitrary: b q rule: JsonSkipSpaces.induct)
  case (1 p0)
  define p where "p = skip_spaces_only p0"
  have p: "forward p0 p" by (simp add: p_def skip_spaces_only_def forward_skip_while)
  have c: "forward p (skip_line_comment p)" "forward p (skip_block_comment p)"
    using forward_step [OF forward_skip_while] forward_step [OF forward_trans [OF forward_skip_while forward_consume]]
    by (auto simp: skip_line_comment_def skip_block_comment_def Let_def)
  have eq: "JsonSkipSpaces p0 =
      (if 0 < remain p \<and> peek 0 p = CHR ''/'' \<and> peek 1 p = CHR ''/'' then JsonSkipSpaces (skip_line_comment p)
       else if 0 < remain p \<and> peek 0 p = CHR ''/'' \<and> peek 1 p = CHR ''*'' then JsonSkipSpaces (skip_block_comment p)
       else (0 < remain p, p))"
    unfolding p_def by (subst JsonSkipSpaces.simps) (simp only: Let_def)
  note IH = "1.IH" [OF p_def]
  show ?case
  proof (cases "0 < remain p \<and> peek 0 p = CHR ''/'' \<and> (peek 1 p = CHR ''/'' \<or> peek 1 p = CHR ''*'')")
    case True
    then consider (line) "peek 1 p = CHR ''/''" | (block) "peek 1 p = CHR ''*''" by blast
    then show ?thesis
    proof cases
      case line
      with True eq "1.prems" IH(1) [of b q] have "forward (skip_line_comment p) q" "b \<longleftrightarrow> 0 < remain q"
        by simp_all
      then show ?thesis using forward_trans [OF p forward_trans [OF c(1)]] by blast
    next
      case block
      with True eq "1.prems" IH(2) [of b q] have "forward (skip_block_comment p) q" "b \<longleftrightarrow> 0 < remain q"
        by simp_all
      then show ?thesis using forward_trans [OF p forward_trans [OF c(2)]] by blast
    qed
  next
    case False
    with eq "1.prems" p show ?thesis by (auto split: if_splits)
  qed
qed

lemma forward_consumes [simp]:
  "forward p (JsonParseConsume n p)"
  "forward p (JsonParseConsume n (JsonParseConsume m p))"
  "forward p (JsonParseConsume n (JsonParseConsume m (JsonParseConsume k p)))"
  by (blast intro: forward_trans)+

lemma forward_escape: "JsonParseEscape p = Some (q, s) \<Longrightarrow> forward p q"
  by (auto simp: JsonParseEscape_def Let_def split: if_splits option.splits)

lemma forward_string_loop: "string_loop b p s = Some (q, t) \<Longrightarrow> forward p q"
proof (induction b p s arbitrary: q t rule: string_loop.induct)
  case (1 b p s)
  show ?case
  proof (cases "0 < remain p \<and> peek 0 p = CHR 0x5C")
    case True
    with "1.prems" obtain p' u where e: "JsonParseEscape p = Some (p', u)"
        "string_loop b (JsonParseConsume 1 p') (s @ u) = Some (q, t)"
      by (subst (asm) string_loop.simps) (auto split: option.splits)
    with "1.IH"(1) [of "(p', u)" p' u q t] True have "forward (JsonParseConsume 1 p') q" by simp
    with forward_escape [OF e(1)] show ?thesis by (blast intro: forward_step forward_trans)
  next
    case False
    have eq: "string_loop b p s =
        (if 0 < remain p then
           if b \<and> peek 0 p = CHR 0x22 then Some (JsonParseConsume 1 p, s)
           else if \<not> b \<and> strchr JSN_DELIMS (peek 0 p) then Some (p, s)
           else string_loop b (JsonParseConsume 1 p) (s @ [peek 0 p])
         else Some (p, s))"
      using False by (subst string_loop.simps) auto
    show ?thesis
    proof (cases "0 < remain p \<and> \<not> (b \<and> peek 0 p = CHR 0x22) \<and> \<not> (\<not> b \<and> strchr JSN_DELIMS (peek 0 p))")
      case True
      with False eq "1.prems" "1.IH"(2) [of q t] have "forward (JsonParseConsume 1 p) q" by simp
      then show ?thesis by (rule forward_step)
    next
      case stop: False
      with eq "1.prems" show ?thesis by (auto split: if_splits)
    qed
  qed
qed

lemma forward_string: "JsonParseString p = Some (q, s, b) \<Longrightarrow> forward p q"
proof -
  assume a: "JsonParseString p = Some (q, s, b)"
  obtain ok p1 where p1: "JsonSkipSpaces p = (ok, p1)" by fastforce
  with a obtain p2 where "p2 = (if peek 0 p1 = CHR 0x22 then JsonParseConsume 1 p1 else p1)"
      "string_loop (peek 0 p1 = CHR 0x22) p2 [] = Some (q, s)"
    by (auto simp: JsonParseString_def Let_def split: bool.splits option.splits)
  then show "forward p q"
    using forward_spaces [OF p1] forward_string_loop forward_trans forward_consume
    by (metis (no_types, lifting))
qed

lemma forward_value: "JsonParseValue lib p = (r, q) \<Longrightarrow> forward p q"
  using forward_trans
  by (auto simp: JsonParseValue_def split: prod.splits bool.splits option.splits if_splits
      dest!: forward_spaces forward_string)

section \<open>Enough fuel\<close>

lemma parse_total:
  "(2 * remain p + 2 \<le> n \<longrightarrow> (\<exists>r q. JsonParseBase n lib depth p = Some (r, q) \<and> forward p q)) \<and>
   (2 * remain p + 3 \<le> n \<longrightarrow> (\<exists>r q. JsonParseObject_loop n lib depth res p = Some (r, q) \<and> forward p q)) \<and>
   (2 * remain p + 3 \<le> n \<longrightarrow> (\<exists>r q. JsonParseArray_loop n lib depth res p = Some (r, q) \<and> forward p q))"
proof (induction n arbitrary: p depth res)
  case (Suc n)
  obtain ok p1 where p1: "JsonSkipSpaces p = (ok, p1)" by fastforce
  note f1 = forward_spaces [OF p1]
  note r1 = forward_remain [OF conjunct1 [OF f1]]
  have base: "\<exists>r q. JsonParseBase (Suc n) lib depth p = Some (r, q) \<and> forward p q" if "2 * remain p + 2 \<le> Suc n"
  proof (cases "JSON_MAX_DEPTH \<le> depth \<or> \<not> ok \<or> peek 0 p1 \<notin> {CHR ''{'', CHR ''[''}")
    case True
    obtain r q where v: "JsonParseValue lib p1 = (r, q)" by fastforce
    from True show ?thesis using p1 f1 v forward_trans [OF conjunct1 [OF f1] forward_value [OF v]] by auto
  next
    case False
    with f1 have "0 < remain p1" by simp
    then have "2 * remain (JsonParseConsume 1 p1) + 3 \<le> n" using r1 that by simp
    then obtain r q r' q' where
        "JsonParseObject_loop n lib (depth + 1) JsonObjectCreateInternal (JsonParseConsume 1 p1) = Some (r, q)"
        "forward (JsonParseConsume 1 p1) q"
        "JsonParseArray_loop n lib (depth + 1) JsonArrayCreateInternal (JsonParseConsume 1 p1) = Some (r', q')"
        "forward (JsonParseConsume 1 p1) q'"
      using Suc.IH by blast
    with False p1 f1 show ?thesis by (auto intro: forward_trans forward_step)
  qed
  have arr: "\<exists>r q. JsonParseArray_loop (Suc n) lib depth res p = Some (r, q) \<and> forward p q"
    if le: "2 * remain p + 3 \<le> Suc n"
  proof (cases "remain p = 0 \<or> \<not> ok \<or> peek 0 p1 = CHR '']''")
    case True
    then show ?thesis using p1 f1 by (auto intro: forward_trans)
  next
    case False
    have "2 * remain p1 + 2 \<le> n" using r1 le by simp
    with Suc.IH [of p1 depth] obtain r p3 where p3: "JsonParseBase n lib depth p1 = Some (r, p3)" "forward p1 p3"
      by blast
    obtain ok4 p4 where p4: "JsonSkipSpaces p3 = (ok4, p4)" by fastforce
    note f4 = forward_spaces [OF p4]
    have f: "forward p p3" "forward p p4" using f1 p3(2) f4 by (blast intro: forward_trans)+
    show ?thesis
    proof (cases "r = None \<or> \<not> ok4 \<or> peek 0 p4 \<noteq> CHR '',''")
      case True
      with False p1 p3 p4 f show ?thesis by (cases r; cases ok4) (auto simp: Let_def intro: forward_trans)
    next
      case go: False
      then obtain item where item: "r = Some item" by (cases r) auto
      have "2 * remain (JsonParseConsume 1 p4) + 3 \<le> n"
        using go f4 le forward_remain [OF f(2)] by (simp, linarith)
      with Suc.IH obtain r' q where
          "JsonParseArray_loop n lib depth (JsonArrayAdd res item) (JsonParseConsume 1 p4) = Some (r', q)"
          "forward (JsonParseConsume 1 p4) q"
        by blast
      moreover from this(2) have "forward p q" using f(2) by (blast intro: forward_trans forward_step)
      ultimately show ?thesis using False go p1 p3 p4 item by (auto simp: Let_def)
    qed
  qed
  have obj: "\<exists>r q. JsonParseObject_loop (Suc n) lib depth res p = Some (r, q) \<and> forward p q"
    if le: "2 * remain p + 3 \<le> Suc n"
  proof (cases "remain p = 0 \<or> \<not> ok \<or> peek 0 p1 = CHR ''}'' \<or> JsonParseString p1 = None")
    case True
    then show ?thesis using p1 f1 by (auto intro: forward_trans)
  next
    case False
    then obtain ps name c where s: "JsonParseString p1 = Some (ps, name, c)" by auto
    obtain ok2 p2 where p2: "JsonSkipSpaces ps = (ok2, p2)" by fastforce
    note f2 = forward_spaces [OF p2]
    have fp2: "forward p p2" using f1 forward_string [OF s] f2 by (blast intro: forward_trans)
    show ?thesis
    proof (cases "\<not> ok2 \<or> peek 0 p2 \<noteq> CHR '':''")
      case True
      with False p1 s p2 fp2 show ?thesis by (cases ok2) auto
    next
      case colon: False
      have r2: "0 < remain p2" using colon f2 by blast
      have "2 * remain (JsonParseConsume 1 p2) + 2 \<le> n" using le r2 forward_remain [OF fp2] by simp
      with Suc.IH obtain r p3 where p3: "JsonParseBase n lib depth (JsonParseConsume 1 p2) = Some (r, p3)"
          "forward (JsonParseConsume 1 p2) p3"
        by blast
      obtain ok4 p4 where p4: "JsonSkipSpaces p3 = (ok4, p4)" by fastforce
      note f4 = forward_spaces [OF p4]
      have f: "forward p p3" "forward p p4" using fp2 p3(2) f4 by (blast intro: forward_trans forward_step)+
      show ?thesis
      proof (cases "r = None \<or> \<not> ok4 \<or> peek 0 p4 \<noteq> CHR '',''")
        case True
        with False colon p1 s p2 p3 p4 f show ?thesis
          by (cases r; cases ok4) (auto simp: Let_def intro: forward_trans)
      next
        case go: False
        then obtain item where item: "r = Some item" by (cases r) auto
        have "2 * remain (JsonParseConsume 1 p4) + 3 \<le> n"
          using go f4 le forward_remain [OF f(2)] by (simp, linarith)
        with Suc.IH obtain r' q where
            "JsonParseObject_loop n lib depth (snd (JsonObjectPut res (cstr name) item)) (JsonParseConsume 1 p4) = Some (r', q)"
            "forward (JsonParseConsume 1 p4) q"
          by blast
        moreover from this(2) have "forward p q" using f(2) by (blast intro: forward_trans forward_step)
        ultimately show ?thesis using False colon go p1 s p2 p3 p4 item by (auto simp: Let_def)
      qed
    qed
  qed
  show ?case using base obj arr by blast
qed simp

section \<open>Properties\<close>

text \<open>
  C24: The parser is total. The fuel \<open>JsonParse\<close> hands to the three mutually recursive functions is
  enough for any text, so every call returns; the bytes it has consumed are a prefix of the text,
  nothing behind the end is consumed, and the line number is the number of newlines in that prefix.
\<close>

theorem json_parse_total:
  "\<exists>r q u. JsonParseInternal lib jsonstr = Some (r, q) \<and> jsonstr = u @ jp_rest q \<and>
     jp_line q = length (filter (\<lambda>c. c = CHR 0x0A) u)"
proof -
  let ?p = "\<lparr>jp_rest = jsonstr, jp_line = 0\<rparr>"
  have "2 * remain ?p + 2 \<le> 2 * length jsonstr + 2" by (simp add: remain_def)
  with parse_total obtain r q where "JsonParseInternal lib jsonstr = Some (r, q)" "forward ?p q"
    unfolding JsonParseInternal_def by blast
  then show ?thesis by (auto simp: forward_def)
qed

end
