(* ===== verification/Cmu_JsonRound.thy ===== *)
theory Cmu_JsonRound
  imports Cmu_JsonParse
begin

text \<open>
  The parser of \<open>src/src/nanojson.c\<close> on the texts its printer writes: strings, constants and trees
  come back, compact or indented.
\<close>

section \<open>Reading back what was printed\<close>

abbreviation jblank :: "char \<Rightarrow> bool" where
  "jblank c \<equiv> c \<in> set JSN_SPACES"

lemma rest_consume [simp]: "jp_rest (JsonParseConsume n p) = drop n (jp_rest p)"
proof -
  have "drop (min (length (jp_rest p)) n) (jp_rest p) = drop n (jp_rest p)"
    by (cases "n \<le> length (jp_rest p)") (simp_all add: min_def)
  then show ?thesis by (simp add: JsonParseConsume_def remain_def Let_def)
qed

lemma peek_Cons [simp]: "jp_rest p = c # t \<Longrightarrow> peek 0 p = c" "jp_rest p = c # t \<Longrightarrow> 0 < remain p"
  by (simp_all add: peek_def remain_def)

lemma spaces_only:
  "jp_rest p = w @ c # t \<Longrightarrow> set w \<subseteq> set JSN_SPACES \<Longrightarrow> \<not> strchr JSN_SPACES c \<Longrightarrow>
    jp_rest (skip_spaces_only p) = c # t"
proof (induction w arbitrary: p)
  case Nil
  then show ?case by (simp add: skip_spaces_only_def skip_while.simps)
next
  case (Cons x w)
  have "skip_spaces_only p = skip_spaces_only (JsonParseConsume 1 p)"
    using Cons.prems unfolding skip_spaces_only_def
    by (subst skip_while.simps) (simp add: strchr_def)
  with Cons show ?case by simp
qed

text \<open>A byte at which \<open>JsonSkipSpaces\<close> stops.\<close>

definition token :: "char \<Rightarrow> bool" where
  "token c \<longleftrightarrow> \<not> strchr JSN_SPACES c \<and> c \<noteq> CHR ''/''"

lemma skip_to:
  assumes "jp_rest p = w @ c # t" "set w \<subseteq> set JSN_SPACES" "token c"
  obtains q where "JsonSkipSpaces p = (True, q)" "jp_rest q = c # t"
proof -
  have "jp_rest (skip_spaces_only p) = c # t" using spaces_only assms by (simp add: token_def)
  then have "JsonSkipSpaces p = (True, skip_spaces_only p)"
    using assms(3) by (subst JsonSkipSpaces.simps) (simp add: token_def)
  with \<open>jp_rest (skip_spaces_only p) = c # t\<close> that show ?thesis by blast
qed

lemma token_simps [simp]:
  "token (CHR 0x22)" "token (CHR ''{'')" "token (CHR ''['')" "token (CHR ''}'')" "token (CHR '']'')"
  "token (CHR '','')" "token (CHR '':'')" "token (CHR ''t'')" "token (CHR ''f'')" "token (CHR ''n'')"
  by (simp_all add: token_def strchr_def JSN_SPACES_def)

lemma unat_code: "unat (word_of_int (code c) :: 8 word) = nat (code c)"
proof -
  have "take_bit 8 (code c) = code c" using code_less [of c] by (intro take_bit_int_eq_self) simp_all
  then show ?thesis by (simp only: unsigned_of_int) simp
qed

lemma char_of_nat_code: "char_of (nat (code c)) = c"
  by (simp add: code_def)

lemma hex4_encode:
  assumes "jp_rest p = x # hex_encode [0, word_of_int (code c)] @ t"
  shows "hex4 1 p = Some (nat (code c))"
  using assms hex_loop_encode [of "[0, word_of_int (code c)]" t "[]"]
  by (simp add: hex4_def StringHexToBytes_def unat_code)

lemma escape_back:
  assumes "jp_rest p = json_escape c @ t" "c \<noteq> NUL" "json_escape c \<noteq> [c]"
  obtains q where "JsonParseEscape p = Some (q, [c])" "jp_rest (JsonParseConsume 1 q) = t"
    "peek 0 p = CHR 0x5C" "0 < remain p"
proof (cases "c \<in> {CHR 0x08, CHR 0x0C, CHR 0x0D, CHR 0x0A, CHR 0x09, CHR 0x22, CHR 0x5C}")
  case True
  then obtain x where x: "json_escape c = [CHR 0x5C, x]"
      "(c, x) \<in> {(CHR 0x08, CHR ''b''), (CHR 0x0C, CHR ''f''), (CHR 0x0D, CHR ''r''), (CHR 0x0A, CHR ''n''),
        (CHR 0x09, CHR ''t''), (CHR 0x22, CHR 0x22), (CHR 0x5C, CHR 0x5C)}"
    by (auto simp: json_escape_def)
  with assms have p: "jp_rest p = CHR 0x5C # x # t" by simp
  then have q: "jp_rest (JsonParseConsume 1 p) = x # t" by simp
  have "JsonParseEscape p = Some (JsonParseConsume 1 p, [c])"
    using x(2) peek_Cons [OF q] by (auto simp: JsonParseEscape_def Let_def)
  with p q that show ?thesis by simp
next
  case False
  with assms(3) have e: "json_escape c = CHR 0x5C # CHR ''u'' # hex_encode [0, word_of_int (code c)]" "code c < 32"
    by (auto simp: json_escape_def split: if_splits)
  with assms have p: "jp_rest p = CHR 0x5C # CHR ''u'' # hex_encode [0, word_of_int (code c)] @ t" by simp
  then have q: "jp_rest (JsonParseConsume 1 p) = CHR ''u'' # hex_encode [0, word_of_int (code c)] @ t" by simp
  have len: "length (hex_encode [0, word_of_int (code c)]) = 4" by (simp add: hex_encode_def)
  have r5: "\<not> remain (JsonParseConsume 1 p) < 5" using len p by (simp add: remain_def)
  have "nat (code c) < 32" using e(2) by simp
  then have "JsonParseEscape p = Some (JsonParseConsume 4 (JsonParseConsume 1 p), JsonAppendUTF8 (nat (code c)))"
    using peek_Cons [OF q] r5 hex4_encode [OF q] by (simp add: JsonParseEscape_def Let_def)
  moreover have "JsonAppendUTF8 (nat (code c)) = [c]"
    using \<open>nat (code c) < 32\<close> by (simp add: JsonAppendUTF8_def char_of_nat_code)
  ultimately show ?thesis using that [of "JsonParseConsume 4 (JsonParseConsume 1 p)"] p len by simp
qed

lemma string_step:
  assumes "jp_rest p = json_escape c @ t" "c \<noteq> NUL"
  obtains q where "string_loop True p acc = string_loop True q (acc @ [c])" "jp_rest q = t"
proof (cases "json_escape c = [c]")
  case True
  then have "c \<noteq> CHR 0x5C" "c \<noteq> CHR 0x22" by (auto simp: json_escape_def split: if_splits)
  moreover have "jp_rest p = c # t" using assms(1) True by simp
  ultimately have "string_loop True p acc = string_loop True (JsonParseConsume 1 p) (acc @ [c])"
    by (subst string_loop.simps) simp
  with that assms(1) True show ?thesis by simp
next
  case False
  from escape_back [OF assms(1,2) False] obtain q where
    q: "JsonParseEscape p = Some (q, [c])" "jp_rest (JsonParseConsume 1 q) = t" "peek 0 p = CHR 0x5C" "0 < remain p"
    by auto
  then have "string_loop True p acc = string_loop True (JsonParseConsume 1 q) (acc @ [c])"
    by (subst string_loop.simps) simp
  with that q(2) show ?thesis by blast
qed

lemma quoted_back:
  "jp_rest p = concat (map json_escape s) @ CHR 0x22 # t \<Longrightarrow> NUL \<notin> set s \<Longrightarrow>
    \<exists>q. string_loop True p acc = Some (q, acc @ s) \<and> jp_rest q = t"
proof (induction s arbitrary: p acc)
  case Nil
  then show ?case by (subst string_loop.simps) simp
next
  case (Cons c s)
  then have r: "jp_rest p = json_escape c @ concat (map json_escape s) @ CHR 0x22 # t" by simp
  obtain q where q: "string_loop True p acc = string_loop True q (acc @ [c])"
      "jp_rest q = concat (map json_escape s) @ CHR 0x22 # t"
    using string_step [OF r, of acc] Cons.prems(2) by auto
  with Cons.IH [OF q(2), of "acc @ [c]"] Cons.prems(2) show ?case by simp
qed

lemma ParseString_quoted:
  assumes "jp_rest p = w @ quoted s @ t" "set w \<subseteq> set JSN_SPACES" "NUL \<notin> set s"
  obtains q where "JsonParseString p = Some (q, s, False)" "jp_rest q = t"
proof -
  have r: "jp_rest p = w @ CHR 0x22 # concat (map json_escape s) @ CHR 0x22 # t"
    using assms by (simp add: quoted_def)
  from skip_to [OF r assms(2)] obtain p1 where
    p1: "JsonSkipSpaces p = (True, p1)" "jp_rest p1 = CHR 0x22 # concat (map json_escape s) @ CHR 0x22 # t"
    by auto
  from quoted_back [of "JsonParseConsume 1 p1" s t "[]"] p1 assms obtain q where
    "string_loop True (JsonParseConsume 1 p1) [] = Some (q, s)" "jp_rest q = t"
    by auto
  with p1 that [of q] show ?thesis by (simp add: JsonParseString_def)
qed

text \<open>The same without the closing quote: the text ends inside the string.\<close>

lemma open_back:
  "jp_rest p = concat (map json_escape s) \<Longrightarrow> NUL \<notin> set s \<Longrightarrow>
    \<exists>q. string_loop True p acc = Some (q, acc @ s) \<and> jp_rest q = []"
proof (induction s arbitrary: p acc)
  case Nil
  then show ?case by (subst string_loop.simps) (simp add: remain_def)
next
  case (Cons c s)
  then have r: "jp_rest p = json_escape c @ concat (map json_escape s)" by simp
  obtain q where q: "string_loop True p acc = string_loop True q (acc @ [c])" "jp_rest q = concat (map json_escape s)"
    using string_step [OF r, of acc] Cons.prems(2) by auto
  with Cons.IH [OF q(2), of "acc @ [c]"] Cons.prems(2) show ?case by simp
qed

text \<open>An unquoted token ends at the end of the text or before a delimiter.\<close>

definition ended :: "string \<Rightarrow> bool" where
  "ended t \<longleftrightarrow> t = [] \<or> hd t \<in> set JSN_DELIMS"

lemma unquoted_back:
  "jp_rest p = s @ t \<Longrightarrow> \<forall>c\<in>set s. c \<noteq> CHR 0x5C \<and> \<not> strchr JSN_DELIMS c \<Longrightarrow> ended t \<Longrightarrow>
    \<exists>q. string_loop False p acc = Some (q, acc @ s) \<and> jp_rest q = t"
proof (induction s arbitrary: p acc)
  case Nil
  show ?case
  proof (cases t)
    case Nil
    with Nil.prems show ?thesis by (subst string_loop.simps) (simp add: remain_def)
  next
    case (Cons d t')
    with Nil.prems show ?thesis
      by (subst string_loop.simps) (auto simp: ended_def strchr_def JSN_DELIMS_def)
  qed
next
  case (Cons c s)
  then have "string_loop False p acc = string_loop False (JsonParseConsume 1 p) (acc @ [c])"
    by (subst string_loop.simps) simp
  with Cons.IH [of "JsonParseConsume 1 p" "acc @ [c]"] Cons.prems show ?case by simp
qed

subsection \<open>Constants\<close>

lemma dig_code: "n < 10 \<Longrightarrow> code (dig n) = 48 + int n"
proof -
  have "\<forall>n\<in>set [0..<10]. code (dig n) = 48 + int n" by code_simp
  then show "n < 10 \<Longrightarrow> ?thesis" by simp
qed

lemma digits_digit: "c \<in> set (digits n) \<Longrightarrow> isdigit c"
proof (induction n rule: digits.induct)
  case (1 n)
  show ?case
  proof (cases "n < 10")
    case True
    with "1.prems" dig_code [of n] show ?thesis by (simp add: digits.simps [of n] isdigit_def)
  next
    case False
    with 1 dig_code [of "n mod 10"] show ?thesis by (auto simp: digits.simps [of n] isdigit_def)
  qed
qed

lemma digits_not_Nil [simp]: "digits n \<noteq> []"
  by (subst digits.simps) simp

lemma num_snoc: "num (ds @ [c]) = num ds * 10 + (code c - 48)"
  by (simp add: num_def)

lemma num_digits: "num (digits n) = int n"
proof (induction n rule: digits.induct)
  case (1 n)
  show ?case
  proof (cases "n < 10")
    case True
    then show ?thesis by (simp add: digits.simps [of n] num_def dig_code)
  next
    case False
    have "n div 10 * 10 + n mod 10 = n" by simp
    then have "int (n div 10) * 10 + int (n mod 10) = int n" by (metis of_nat_add of_nat_mult of_nat_numeral)
    with False 1 show ?thesis by (simp add: digits.simps [of n] num_snoc dig_code del: of_nat_div of_nat_mod)
  qed
qed

lemma dec_chars: "c \<in> set (dec v) \<Longrightarrow> isdigit c \<or> c = CHR ''-''"
  by (auto simp: dec_def dest: digits_digit split: if_splits)

lemma dec_not_Nil [simp]: "dec v \<noteq> []"
  by (simp add: dec_def)

lemma digit_plain:
  "isdigit c \<Longrightarrow> \<not> isspace c \<and> c \<noteq> CHR ''-'' \<and> c \<noteq> CHR ''+'' \<and> c \<noteq> CHR ''.'' \<and> tolower c = c"
  by (auto simp: isdigit_def isspace_def tolower_def code_def of_char_def)

lemma strtoll_dec:
  assumes "LLONG_MIN \<le> v" "v \<le> LLONG_MAX"
  obtains n where "strtoll (dec v) = (v, n)" "0 < n"
proof -
  define ds where "ds = (if v < 0 then digits (nat (- v)) else digits (nat v))"
  have all: "\<forall>c\<in>set ds. isdigit c" "ds \<noteq> []" by (auto simp: ds_def dest: digits_digit)
  then have tw: "takeWhile isdigit ds = ds" "dropWhile isdigit ds = []" by simp_all
  obtain c r where cr: "ds = c # r" using all(2) by (cases ds) auto
  then have c: "\<not> isspace c" "c \<noteq> CHR ''-''" "c \<noteq> CHR ''+''" using all digit_plain by auto
  have m: "\<not> isspace (CHR ''-'')" by (simp add: isspace_def code_def of_char_def)
  have "(if v < 0 then - num ds else num ds) = v" by (simp add: ds_def num_digits)
  moreover have "strtoll (dec v) = (max LLONG_MIN (min LLONG_MAX (if v < 0 then - num ds else num ds)), length (dec v))"
  proof (cases "v < 0")
    case True
    then have "dec v = CHR ''-'' # ds" by (simp add: dec_def ds_def)
    with True m all(2) show ?thesis by (simp add: strtoll_def Let_def tw del: takeWhile_eq_all_conv)
  next
    case False
    then have "dec v = ds" by (simp add: dec_def ds_def)
    moreover have "dropWhile isspace ds = ds" "ds \<noteq> [] \<and> hd ds = CHR ''-'' \<longleftrightarrow> False"
        "ds \<noteq> [] \<and> (hd ds = CHR ''-'' \<or> hd ds = CHR ''+'') \<longleftrightarrow> False"
      using c by (simp_all add: cr)
    ultimately show ?thesis using False all(2)
      by (simp only: strtoll_def Let_def tw if_False) simp
  qed
  ultimately show ?thesis using that [of "length (dec v)"] assms by simp
qed

text \<open>The text a constant can have between blanks and delimiters.\<close>

definition bare :: "string \<Rightarrow> bool" where
  "bare s \<longleftrightarrow> s \<noteq> [] \<and> hd s \<notin> {CHR ''/'', CHR 0x22} \<and>
     (\<forall>c\<in>set s. c \<noteq> NUL \<and> c \<noteq> CHR 0x5C \<and> \<not> blank c \<and> \<not> strchr JSN_DELIMS c)"

lemma spaces_blank: "set JSN_SPACES = set SPACES"
  by (auto simp: JSN_SPACES_def SPACES_def)

lemma trim_bare: "\<forall>c\<in>set s. \<not> blank c \<Longrightarrow> set w \<subseteq> set JSN_SPACES \<Longrightarrow> trim (s @ w) = s"
proof -
  assume s: "\<forall>c\<in>set s. \<not> blank c" and "set w \<subseteq> set JSN_SPACES"
  then have "\<forall>c\<in>set (rev w). blank c" by (auto simp: spaces_blank)
  then have "dropWhile blank (rev w @ rev s) = dropWhile blank (rev s)" by (intro dropWhile_append2) blast
  moreover have none: "dropWhile blank xs = xs" if "\<forall>c\<in>set xs. \<not> blank c" for xs
    using that by (cases xs) auto
  moreover from s have "dropWhile blank (rev s) = rev s" by (intro none) simp
  ultimately show ?thesis using s by (simp add: trim_def rtrim_def)
qed

definition parse_const :: "'d dlib \<Rightarrow> string \<Rightarrow> json option" where
  "parse_const lib cs =
     (if strcaseeq cs ''true'' then Some (JValue JBoolean ''true'')
      else if strcaseeq cs ''false'' then Some (JValue JBoolean ''false'')
      else if strcaseeq cs ''null'' then Some (JValue JNull ''null'')
      else if cs = [] \<or> hd cs \<in> set ''tTfFnN'' then None
      else if CHR ''.'' \<in> set cs then
        (case strtod lib cs of (v, used) \<Rightarrow> if used = 0 then None else Some (JsonValueSetDouble lib JsonValueCreateInternal v))
      else (case strtoll cs of (v, used) \<Rightarrow> if used = 0 then None else Some (JValue JLong (dec v))))"

lemma strcaseeq_length: "strcaseeq s t \<Longrightarrow> length s = length t"
  by (auto simp: strcaseeq_def dest: map_eq_imp_length_eq)

lemma tolower_f: "tolower c = CHR ''f'' \<Longrightarrow> c = CHR ''f'' \<or> c = CHR ''F''"
proof -
  assume a: "tolower c = CHR ''f''"
  have f: "code (CHR ''f'') = 102" "code (CHR ''F'') = 70" by (simp_all add: code_def)
  show "c = CHR ''f'' \<or> c = CHR ''F''"
  proof (cases "65 \<le> code c \<and> code c \<le> 90")
    case True
    then have "tolower c = char_of (code c + 32)" by (simp only: tolower_def if_True simp_thms)
    moreover have "code (tolower c) = 102" by (simp only: a f)
    ultimately have "code c = 70" using True by simp
    with f(2) show ?thesis by (metis code_inj)
  next
    case False
    then have "tolower c = c" by (simp only: tolower_def) simp
    with a show ?thesis by simp
  qed
qed

lemma ParseConst_bare:
  assumes "\<forall>c\<in>set s. c \<noteq> NUL \<and> \<not> blank c" "set w \<subseteq> set JSN_SPACES"
  shows "JsonParseConst lib JsonValueCreateInternal (s @ w) = parse_const lib s"
proof -
  have inv: "str_inv (string_of (s @ w))" "content (string_of (s @ w)) = s @ w"
    by (simp_all add: string_of_def str_inv_def content_def nth_append)
  have nul: "NUL \<notin> set (content (string_of (s @ w)))"
    using assms by (auto simp: inv JSN_SPACES_def)
  from SelfTrim_spec [OF inv(1) nul] have t: "str_inv (StringSelfTrim (string_of (s @ w)))"
      "content (StringSelfTrim (string_of (s @ w))) = s"
    using trim_bare [of s w] assms by (auto simp: inv)
  with cstr_data [OF t(1)] assms(1) have cs: "cstr (s_data (StringSelfTrim (string_of (s @ w)))) = s" by auto
  from length_content [OF t(1)] t(2) have sz: "s_size (StringSelfTrim (string_of (s @ w))) = length s" by simp
  have tf: "tolower (CHR ''f'') = CHR ''f''" by code_simp
  have short: "strcaseeq s ''true'' \<Longrightarrow> length s < 5" "strcaseeq s ''null'' \<Longrightarrow> length s < 5"
    "strcaseeq s ''false'' \<Longrightarrow> \<not> length s < 5 \<and> s \<noteq> [] \<and> hd s \<in> set ''tTfF''"
    using strcaseeq_length [of s "''true''"] strcaseeq_length [of s "''null''"] strcaseeq_length [of s "''false''"]
    by (auto simp: strcaseeq_def tf dest: tolower_f)
  have first: "strchr cs' (case s of [] \<Rightarrow> NUL | c # _ \<Rightarrow> c) \<longleftrightarrow> s = [] \<or> hd s \<in> set cs'" for cs'
    using assms(1) by (cases s) (auto simp: strchr_def)
  show ?thesis
    unfolding JsonParseConst_def parse_const_def StringGetSize_def StringGetCString_def Let_def cs sz first
    using short
    by (auto simp: strchr_def JsonValueSetBoolean_def JsonValueSetNull_def JsonValueSetLong_def
        JsonValueSetBase_def JsonValueCreateInternal_def Let_def split: prod.split)
qed

subsection \<open>Values\<close>

text \<open>
  The text of a double that comes back: it has a decimal point, reads as a number whose 17 digits are
  that text again, and fits the print buffer.
\<close>

definition double_ok :: "'d dlib \<Rightarrow> string \<Rightarrow> bool" where
  "double_ok lib d \<longleftrightarrow> bare d \<and> CHR ''.'' \<in> set d \<and> (isdigit (hd d) \<or> hd d = CHR ''-'') \<and> length d < 50 \<and>
     (case strtod lib d of (v, used) \<Rightarrow> 0 < used \<and> fmt17 lib v = d)"

fun printable :: "'d dlib \<Rightarrow> json \<Rightarrow> bool" where
  "printable lib (JValue t d) =
     (case t of
        JLong \<Rightarrow> d = dec (fst (strtoll d))
      | JDouble \<Rightarrow> double_ok lib d
      | JString \<Rightarrow> NUL \<notin> set d
      | JBoolean \<Rightarrow> d = ''true'' \<or> d = ''false''
      | JNull \<Rightarrow> d = ''null'')"
| "printable lib (JObject es ks) =
     (ks = map fst es \<and> distinct ks \<and> list_all (\<lambda>(k, v). NUL \<notin> set k \<and> printable lib v) es)"
| "printable lib (JArray xs) = list_all (printable lib) xs"

text \<open>A value whose deepest node is parsed below the limit, itself at depth \<open>d\<close>.\<close>

fun fits :: "nat \<Rightarrow> json \<Rightarrow> bool" where
  "fits d (JValue t s) = (d < JSON_MAX_DEPTH)"
| "fits d (JObject es ks) = (d < JSON_MAX_DEPTH \<and> list_all (\<lambda>(k, v). fits (d + 1) v) es)"
| "fits d (JArray xs) = (d < JSON_MAX_DEPTH \<and> list_all (fits (d + 1)) xs)"

lemma strtoll_range: "LLONG_MIN \<le> fst (strtoll s)" "fst (strtoll s) \<le> LLONG_MAX"
  by (auto simp: strtoll_def Let_def LLONG_MIN_def LLONG_MAX_def)

lemma number_start:
  assumes "isdigit c \<or> c = CHR ''-''"
  shows "tolower c = c" "c \<notin> set ''tTfFnN''" "c \<notin> {CHR ''/'', CHR 0x22, NUL, CHR 0x5C}" "c \<notin> set SPACES"
    "\<not> strchr JSN_DELIMS c" "c \<noteq> CHR ''.''"
  using assms
  by (auto simp: isdigit_def tolower_def SPACES_def strchr_def JSN_DELIMS_def code_def)

lemma not_word: "isdigit (hd s) \<or> hd s = CHR ''-'' \<Longrightarrow> t \<in> {''true'', ''false'', ''null''} \<Longrightarrow> \<not> strcaseeq s t"
proof
  assume s: "isdigit (hd s) \<or> hd s = CHR ''-''" and t: "t \<in> {''true'', ''false'', ''null''}" and eq: "strcaseeq s t"
  have l: "tolower (CHR ''t'') = CHR ''t''" "tolower (CHR ''f'') = CHR ''f''" "tolower (CHR ''n'') = CHR ''n''"
    by code_simp+
  have "tolower (hd s) = tolower (hd t)" using eq t by (cases s) (auto simp: strcaseeq_def)
  with number_start [OF s] t l show False by auto
qed

lemma parse_const_number:
  assumes "d \<noteq> []" "isdigit (hd d) \<or> hd d = CHR ''-''"
  shows "parse_const lib d =
    (if CHR ''.'' \<in> set d then
       (case strtod lib d of (v, used) \<Rightarrow> if used = 0 then None else Some (JsonValueSetDouble lib JsonValueCreateInternal v))
     else (case strtoll d of (v, used) \<Rightarrow> if used = 0 then None else Some (JValue JLong (dec v))))"
proof -
  note n = not_word [OF assms(2), of "''true''"] not_word [OF assms(2), of "''false''"]
    not_word [OF assms(2), of "''null''"]
  show ?thesis
    unfolding parse_const_def using n number_start(2) [OF assms(2)] assms(1) by (simp only: insert_iff simp_thms if_False)
qed

lemma const_long:
  assumes "d = dec (fst (strtoll d))"
  shows "bare d \<and> parse_const lib d = Some (JValue JLong d)"
proof -
  define v where "v = fst (strtoll d)"
  have d: "d = dec v" using assms by (simp add: v_def)
  have all: "\<forall>c\<in>set d. isdigit c \<or> c = CHR ''-''" using dec_chars d by blast
  have ne: "d \<noteq> []" by (simp add: d)
  with all have hd: "isdigit (hd d) \<or> hd d = CHR ''-''" by simp
  have "bare d"
    unfolding bare_def
  proof (intro conjI ballI)
    show "d \<noteq> []" by (rule ne)
    show "hd d \<notin> {CHR ''/'', CHR 0x22}" using number_start(3) [OF hd] by simp
    fix c assume "c \<in> set d"
    with all have c: "isdigit c \<or> c = CHR ''-''" by blast
    show "c \<noteq> NUL" "c \<noteq> CHR 0x5C" "\<not> blank c" "\<not> strchr JSN_DELIMS c"
      using number_start(3,4,5) [OF c] by simp_all
  qed
  moreover have "CHR ''.'' \<notin> set d" using all number_start(6) by blast
  moreover obtain n where "strtoll (dec v) = (v, n)" "0 < n"
    using strtoll_dec [of v] strtoll_range [of d] unfolding v_def by metis
  then have "strtoll d = (v, n)" "0 < n" by (simp_all only: d [symmetric])
  moreover have "parse_const lib d = (if CHR ''.'' \<in> set d then
       (case strtod lib d of (v, used) \<Rightarrow> if used = 0 then None else Some (JsonValueSetDouble lib JsonValueCreateInternal v))
     else (case strtoll d of (v, used) \<Rightarrow> if used = 0 then None else Some (JValue JLong (dec v))))"
    by (rule parse_const_number [OF ne hd])
  ultimately have "parse_const lib d = Some (JValue JLong (dec v))" by simp
  with \<open>bare d\<close> show ?thesis by (simp only: d [symmetric] simp_thms)
qed

lemma const_double:
  assumes "double_ok lib d"
  shows "bare d \<and> parse_const lib d = Some (JValue JDouble d)"
proof -
  from assms obtain v n where d: "bare d" "CHR ''.'' \<in> set d" "isdigit (hd d) \<or> hd d = CHR ''-''" "length d < 50"
      "strtod lib d = (v, n)" "0 < n" "fmt17 lib v = d"
    by (auto simp: double_ok_def)
  have "JsonValueSetDouble lib JsonValueCreateInternal v = JValue JDouble d"
    using d(4,7) by (simp add: JsonValueSetDouble_def JsonValueSetBase_def JsonValueCreateInternal_def Let_def)
  moreover have ne: "d \<noteq> []" using d(1) by (auto simp: bare_def)
  ultimately show ?thesis using d by (simp add: parse_const_number [OF ne d(3)])
qed

lemma const_word:
  assumes "(t, d) \<in> {(JBoolean, ''true''), (JBoolean, ''false''), (JNull, ''null'')}"
  shows "bare d \<and> parse_const lib d = Some (JValue t d)"
proof -
  have e: "strcaseeq ''true'' ''true''" "\<not> strcaseeq ''false'' ''true''" "strcaseeq ''false'' ''false''"
    "\<not> strcaseeq ''null'' ''true''" "\<not> strcaseeq ''null'' ''false''" "strcaseeq ''null'' ''null''"
    by code_simp+
  have b: "bare ''true''" "bare ''false''" "bare ''null''"
    by (simp_all add: bare_def SPACES_def strchr_def JSN_DELIMS_def)
  from assms e b show ?thesis by (elim insertE emptyE) (simp_all add: parse_const_def)
qed

lemma const_back:
  assumes "printable lib (JValue t d)" "t \<noteq> JString"
  shows "bare d \<and> parse_const lib d = Some (JValue t d)"
  using assms const_long [of d lib] const_double [of lib d] const_word [of t d lib] by (cases t) auto

lemma bare_token: "bare s \<Longrightarrow> \<exists>c r. s = c # r \<and> token c \<and> c \<notin> {CHR ''{'', CHR ''['', CHR 0x22}"
  by (cases s) (auto simp: bare_def token_def strchr_def JSN_DELIMS_def spaces_blank)

lemma skip_here: "jp_rest p = c # t \<Longrightarrow> token c \<Longrightarrow> \<exists>q. JsonSkipSpaces p = (True, q) \<and> jp_rest q = c # t"
  using skip_to [of p "[]" c t] by auto

lemma value_const:
  assumes "jp_rest p = s @ w @ t" "bare s" "set w \<subseteq> set JSN_SPACES" "ended t"
  shows "\<exists>q. JsonParseValue lib p = (parse_const lib s, q) \<and> jp_rest q = t"
proof -
  from bare_token [OF assms(2)] obtain c r where c: "s = c # r" "token c" "c \<noteq> CHR 0x22" by auto
  with skip_here [of p c "r @ w @ t"] assms(1) obtain p1 where p1: "JsonSkipSpaces p = (True, p1)" "jp_rest p1 = s @ w @ t"
    by auto
  with skip_here [of p1 c "r @ w @ t"] c obtain p2 where p2: "JsonSkipSpaces p1 = (True, p2)" "jp_rest p2 = s @ w @ t"
    by auto
  have "\<forall>x\<in>set (s @ w). x \<noteq> CHR 0x5C \<and> \<not> strchr JSN_DELIMS x"
    using assms(2,3) by (auto simp: bare_def JSN_SPACES_def strchr_def JSN_DELIMS_def)
  with unquoted_back [of p2 "s @ w" t "[]"] p2 assms(4) obtain q where
    q: "string_loop False p2 [] = Some (q, s @ w)" "jp_rest q = t" by auto
  have "peek 0 p2 \<noteq> CHR 0x22" using p2 c peek_Cons(1) [of p2 c "r @ w @ t"] by simp
  with q p1 p2 ParseConst_bare [of s w lib] assms show ?thesis
    by (auto simp: JsonParseValue_def JsonParseString_def bare_def)
qed

lemma value_string:
  assumes "jp_rest p = quoted s @ t" "NUL \<notin> set s"
  shows "\<exists>q. JsonParseValue lib p = (Some (JValue JString s), q) \<and> jp_rest q = t"
proof -
  have "jp_rest p = CHR 0x22 # concat (map json_escape (cstr s)) @ CHR 0x22 # t" using assms by (simp add: quoted_def)
  from skip_here [OF this] obtain p1 where p1: "JsonSkipSpaces p = (True, p1)" "jp_rest p1 = [] @ quoted s @ t"
    using assms by (auto simp: quoted_def)
  from ParseString_quoted [OF p1(2) _ assms(2)] obtain q where "JsonParseString p1 = Some (q, s, False)" "jp_rest q = t"
    by auto
  with p1 assms(2) show ?thesis
    by (auto simp: JsonParseValue_def JsonValueSetString_def JsonValueSetBase_def JsonValueCreateInternal_def)
qed

subsection \<open>Trees\<close>

text \<open>
  Parsing the text of \<open>j\<close> between blanks, before the end or a delimiter, gives \<open>j\<close> and stops before
  the delimiter or before the blanks there.
\<close>

definition reads_back :: "'d dlib \<Rightarrow> bool \<Rightarrow> nat \<Rightarrow> json \<Rightarrow> bool" where
  "reads_back lib pretty e j \<longleftrightarrow>
     (\<forall>d p w0 w rest n. fits d j \<longrightarrow> jp_rest p = w0 @ json_text pretty e j @ w @ rest \<longrightarrow>
        set w0 \<subseteq> set JSN_SPACES \<longrightarrow> set w \<subseteq> set JSN_SPACES \<longrightarrow> ended rest \<longrightarrow> 2 * remain p + 2 \<le> n \<longrightarrow>
        (\<exists>q w'. JsonParseBase n lib d p = Some (Some j, q) \<and> jp_rest q = w' @ rest \<and> set w' \<subseteq> set JSN_SPACES))"

lemma reads_backD:
  assumes "reads_back lib pretty e j" "fits d j" "jp_rest p = w0 @ json_text pretty e j @ w @ rest"
    "set w0 \<subseteq> set JSN_SPACES" "set w \<subseteq> set JSN_SPACES" "ended rest" "2 * remain p + 2 \<le> n"
  obtains q w' where "JsonParseBase n lib d p = Some (Some j, q)" "jp_rest q = w' @ rest" "set w' \<subseteq> set JSN_SPACES"
  using assms unfolding reads_back_def by blast

lemma text_start:
  assumes "printable lib j"
  obtains c r where "json_text pretty e j = c # r" "token c" "c \<notin> {CHR '']'', CHR ''}''}"
proof (cases j)
  case (JValue t d)
  show ?thesis
  proof (cases "t = JString")
    case True
    with JValue that show ?thesis by (simp add: quoted_def)
  next
    case False
    with const_back [of lib t d] assms JValue have b: "bare d" by simp
    from bare_token [OF b] obtain c r where "d = c # r" "token c" by blast
    moreover from this b have "c \<notin> {CHR '']'', CHR ''}''}" by (auto simp: bare_def strchr_def JSN_DELIMS_def)
    ultimately show ?thesis using that False JValue by simp
  qed
qed (use that in simp_all)

definition gap :: "bool \<Rightarrow> string" where
  "gap pretty = (if pretty then '' '' else [])"

lemma gap_blank [simp]: "set (gap pretty) \<subseteq> set JSN_SPACES"
  by (auto simp: gap_def JSN_SPACES_def)

lemma ended_simps [simp]: "ended (CHR '','' # t)" "ended (CHR '']'' # t)" "ended (CHR ''}'' # t)" "ended []"
  by (simp_all add: ended_def JSN_DELIMS_def)

lemma array_back:
  "\<forall>x\<in>set xs. printable lib x \<and> reads_back lib pretty e x \<and> fits d x \<Longrightarrow>
    jp_rest p = w0 @ join (CHR '','' # gap pretty) (map (json_text pretty e) xs) @ CHR '']'' # t \<Longrightarrow>
    set w0 \<subseteq> set JSN_SPACES \<Longrightarrow> 2 * remain p + 3 \<le> n \<Longrightarrow>
    \<exists>q. JsonParseArray_loop n lib d (JArray acc) p = Some (Some (JArray (acc @ xs)), q) \<and> jp_rest q = t"
proof (induction xs arbitrary: p w0 n acc)
  case Nil
  from Nil.prems(2,3) obtain p1 where p1: "JsonSkipSpaces p = (True, p1)" "jp_rest p1 = CHR '']'' # t"
    using skip_to [of p w0 "CHR '']''" t] by auto
  obtain m where "n = Suc m" using Nil.prems(4) by (cases n) auto
  moreover have "remain p \<noteq> 0" using Nil.prems(2) by (simp add: remain_def)
  ultimately show ?case using p1 by (simp add: peek_Cons)
next
  case (Cons x xs)
  define more where "more = gap pretty @ join (CHR '','' # gap pretty) (map (json_text pretty e) xs) @ CHR '']'' # t"
  define rest where "rest = (if xs = [] then CHR '']'' # t else CHR '','' # more)"
  obtain c r where c: "json_text pretty e x = c # r" "token c" "c \<noteq> CHR '']''"
    by (rule text_start [of lib x pretty e]) (use Cons.prems(1) in auto)
  have p: "jp_rest p = w0 @ c # r @ rest"
    using Cons.prems(2) c(1) by (simp add: join_Cons rest_def more_def)
  from skip_to [OF p Cons.prems(3) c(2)] obtain p1 where
    p1: "JsonSkipSpaces p = (True, p1)" "jp_rest p1 = c # r @ rest" by auto
  obtain m where m: "n = Suc m" using Cons.prems(4) by (cases n) auto
  have le1: "remain p1 \<le> remain p" using p1(2) p by (simp add: remain_def)
  obtain p3 w' where
    p3: "JsonParseBase m lib d p1 = Some (Some x, p3)" "jp_rest p3 = w' @ rest" "set w' \<subseteq> set JSN_SPACES"
  proof (rule reads_backD [of lib pretty e x d p1 "[]" "[]" rest m])
    show "2 * remain p1 + 2 \<le> m" using le1 Cons.prems(4) m by simp
  qed (use Cons.prems(1) p1(2) c(1) in \<open>auto simp: rest_def\<close>)
  have go: "remain p \<noteq> 0" "peek 0 p1 \<noteq> CHR '']''"
    using p c(3) peek_Cons(1) [OF p1(2)] by (simp_all add: remain_def)
  show ?case
  proof (cases "xs = []")
    case True
    from skip_to [of p3 w' "CHR '']''" t] p3 True obtain p4 where
      p4: "JsonSkipSpaces p3 = (True, p4)" "jp_rest p4 = CHR '']'' # t" by (auto simp: rest_def)
    with True m p1(1) p3(1) go peek_Cons(1) [OF p4(2)] show ?thesis
      by (simp add: JsonArrayAdd_def Let_def)
  next
    case False
    from skip_to [of p3 w' "CHR '',''" more] p3 False obtain p4 where
      p4: "JsonSkipSpaces p3 = (True, p4)" "jp_rest p4 = CHR '','' # more" by (auto simp: rest_def)
    have "2 * remain (JsonParseConsume 1 p4) + 3 \<le> m"
    proof -
      have "remain p4 \<le> remain p1" using p4(2) p1(2) False by (simp add: remain_def rest_def)
      with le1 m Cons.prems(4) peek_Cons(2) [OF p4(2)] show ?thesis by (simp; linarith)
    qed
    with Cons.IH [of "JsonParseConsume 1 p4" "gap pretty" m "acc @ [x]"] Cons.prems(1) p4(2) obtain q where
      "JsonParseArray_loop m lib d (JArray (acc @ [x])) (JsonParseConsume 1 p4) = Some (Some (JArray ((acc @ [x]) @ xs)), q)"
      "jp_rest q = t"
      by (auto simp: more_def)
    with m p1(1) p3(1) p4 go peek_Cons(1) [OF p4(2)] show ?thesis by (simp add: JsonArrayAdd_def Let_def)
  qed
qed

lemma indent_blank: "set (indent d) \<subseteq> set JSN_SPACES"
  by (auto simp: indent_def JSN_SPACES_def)

definition lead :: "bool \<Rightarrow> nat \<Rightarrow> string" where
  "lead pretty d = (if pretty then CHR 0x0A # indent d else [])"

lemma lead_blank [simp]: "set (lead pretty d) \<subseteq> set JSN_SPACES"
  using indent_blank [of d] by (auto simp: lead_def JSN_SPACES_def)

lemma key_text_alt: "key_text pretty d k = lead pretty (d + 1) @ quoted k @ CHR '':'' # gap pretty"
  by (simp add: key_text_def lead_def gap_def)

abbreviation member_text :: "bool \<Rightarrow> nat \<Rightarrow> string \<times> json \<Rightarrow> string" where
  "member_text pretty e \<equiv> \<lambda>(k, v). key_text pretty e k @ json_text pretty (e + 1) v"

lemma object_back:
  "\<forall>(k, v)\<in>set es. NUL \<notin> set k \<and> printable lib v \<and> reads_back lib pretty (e + 1) v \<and> fits d v \<Longrightarrow>
    distinct (map fst (acc @ es)) \<Longrightarrow>
    jp_rest p = w0 @ join '','' (map (member_text pretty e) es) @ w1 @ CHR ''}'' # t \<Longrightarrow>
    set w0 \<subseteq> set JSN_SPACES \<Longrightarrow> set w1 \<subseteq> set JSN_SPACES \<Longrightarrow> 2 * remain p + 3 \<le> n \<Longrightarrow>
    \<exists>q. JsonParseObject_loop n lib d (JObject acc (map fst acc)) p
        = Some (Some (JObject (acc @ es) (map fst (acc @ es))), q) \<and> jp_rest q = t"
proof (induction es arbitrary: p w0 n acc)
  case Nil
  from Nil.prems have "jp_rest p = (w0 @ w1) @ CHR ''}'' # t" "set (w0 @ w1) \<subseteq> set JSN_SPACES" by simp_all
  from skip_to [OF this] obtain p1 where p1: "JsonSkipSpaces p = (True, p1)" "jp_rest p1 = CHR ''}'' # t"
    by auto
  obtain m where "n = Suc m" using Nil.prems(6) by (cases n) auto
  moreover have "remain p \<noteq> 0" using Nil.prems(3) by (simp add: remain_def)
  ultimately show ?case using p1 peek_Cons(1) [OF p1(2)] by simp
next
  case (Cons kv es)
  obtain k v where kv: "kv = (k, v)" by fastforce
  define more where "more = join '','' (map (member_text pretty e) es) @ w1 @ CHR ''}'' # t"
  define rest where "rest = (if es = [] then CHR ''}'' # t else CHR '','' # more)"
  define w where "w = (if es = [] then w1 else [])"
  have wb: "set w \<subseteq> set JSN_SPACES" using Cons.prems(5) by (auto simp: w_def)
  have v: "NUL \<notin> set k" "printable lib v" "reads_back lib pretty (e + 1) v" "fits d v"
    using Cons.prems(1) by (auto simp: kv)
  define body where "body = json_text pretty (e + 1) v @ w @ rest"
  have "jp_rest p = w0 @ lead pretty (e + 1) @ quoted k @ CHR '':'' # gap pretty @ body"
    using Cons.prems(3) by (simp add: kv key_text_alt join_Cons body_def rest_def more_def w_def)
  then have p: "jp_rest p = (w0 @ lead pretty (e + 1)) @ CHR 0x22 # concat (map json_escape k) @ CHR 0x22 # CHR '':'' # gap pretty @ body"
    using v(1) by (simp add: quoted_def)
  have "set (w0 @ lead pretty (e + 1)) \<subseteq> set JSN_SPACES" using Cons.prems(4) by simp
  from skip_to [OF p this] obtain p1 where p1: "JsonSkipSpaces p = (True, p1)"
      "jp_rest p1 = CHR 0x22 # concat (map json_escape k) @ CHR 0x22 # CHR '':'' # gap pretty @ body"
    by auto
  then have "jp_rest p1 = [] @ quoted k @ CHR '':'' # gap pretty @ body" using v(1) by (simp add: quoted_def)
  from ParseString_quoted [OF this _ v(1)] obtain ps where
    ps: "JsonParseString p1 = Some (ps, k, False)" "jp_rest ps = CHR '':'' # gap pretty @ body"
    by auto
  from skip_here [OF ps(2)] obtain p2 where
    p2: "JsonSkipSpaces ps = (True, p2)" "jp_rest p2 = CHR '':'' # gap pretty @ body" by auto
  obtain m where m: "n = Suc m" using Cons.prems(6) by (cases n) auto
  have le: "remain p2 \<le> remain p" using p2(2) p by (simp add: remain_def)
  have rc: "jp_rest (JsonParseConsume 1 p2) = gap pretty @ json_text pretty (e + 1) v @ w @ rest"
    using p2(2) by (simp add: body_def)
  obtain p3 w' where
    p3: "JsonParseBase m lib d (JsonParseConsume 1 p2) = Some (Some v, p3)" "jp_rest p3 = w' @ rest" "set w' \<subseteq> set JSN_SPACES"
  proof (rule reads_backD [OF v(3,4) rc])
    show "2 * remain (JsonParseConsume 1 p2) + 2 \<le> m" using le Cons.prems(6) m by (simp; linarith)
  qed (use wb in \<open>auto simp: rest_def\<close>)
  have go: "remain p \<noteq> 0" "peek 0 p1 \<noteq> CHR ''}''" "peek 0 p2 = CHR '':''"
    using p peek_Cons(1) [OF p1(2)] peek_Cons(1) [OF p2(2)] by (simp_all add: remain_def)
  have put: "snd (JsonObjectPut (JObject acc (map fst acc)) (cstr k) v) = JObject (acc @ [kv]) (map fst (acc @ [kv]))"
    using Put_fresh [of k acc v] v(1) Cons.prems(2) by (simp add: kv)
  note steps = m p1(1) ps(1) p2(1) p3(1) go put
  show ?case
  proof (cases "es = []")
    case True
    from skip_to [of p3 w' "CHR ''}''" t] p3 True obtain p4 where
      p4: "JsonSkipSpaces p3 = (True, p4)" "jp_rest p4 = CHR ''}'' # t" by (auto simp: rest_def)
    with True steps peek_Cons(1) [OF p4(2)] show ?thesis by (simp add: Let_def)
  next
    case False
    from skip_to [of p3 w' "CHR '',''" more] p3 False obtain p4 where
      p4: "JsonSkipSpaces p3 = (True, p4)" "jp_rest p4 = CHR '','' # more" by (auto simp: rest_def)
    have fuel: "2 * remain (JsonParseConsume 1 p4) + 3 \<le> m"
    proof -
      have "remain p4 \<le> remain p2" using p4(2) p2(2) False by (simp add: remain_def rest_def body_def)
      with le m Cons.prems(6) peek_Cons(2) [OF p4(2)] show ?thesis by (simp; linarith)
    qed
    have "jp_rest (JsonParseConsume 1 p4) = [] @ join '','' (map (member_text pretty e) es) @ w1 @ CHR ''}'' # t"
      using p4(2) by (simp add: more_def)
    from Cons.IH [OF _ _ this _ Cons.prems(5) fuel, of "acc @ [kv]"] Cons.prems(1,2) obtain q where
      "JsonParseObject_loop m lib d (JObject (acc @ [kv]) (map fst (acc @ [kv]))) (JsonParseConsume 1 p4)
         = Some (Some (JObject ((acc @ [kv]) @ es) (map fst ((acc @ [kv]) @ es))), q)"
      "jp_rest q = t"
      by auto
    with steps p4 peek_Cons(1) [OF p4(2)] show ?thesis by (simp add: Let_def)
  qed
qed

lemma printed_back: "printable lib j \<Longrightarrow> reads_back lib pretty e j"
proof (induction pretty e j rule: json_text.induct)
  case (1 pretty e t s)
  show ?case unfolding reads_back_def
  proof (intro allI impI)
    fix d p w0 w rest n
    assume a: "fits d (JValue t s)" "jp_rest p = w0 @ json_text pretty e (JValue t s) @ w @ rest"
      "set w0 \<subseteq> set JSN_SPACES" "set w \<subseteq> set JSN_SPACES" "ended rest" "2 * remain p + 2 \<le> (n :: nat)"
    obtain m where m: "n = Suc m" using a(6) by (cases n) auto
    obtain q w' where "\<exists>p1. JsonSkipSpaces p = (True, p1) \<and> peek 0 p1 \<notin> {CHR ''{'', CHR ''[''}
        \<and> JsonParseValue lib p1 = (Some (JValue t s), q)" "jp_rest q = w' @ rest" "set w' \<subseteq> set JSN_SPACES"
    proof (cases "t = JString")
      case True
      then have s: "NUL \<notin> set s" using 1 by simp
      have "jp_rest p = w0 @ CHR 0x22 # concat (map json_escape s) @ CHR 0x22 # w @ rest"
        using a(2) True s by (simp add: quoted_def)
      from skip_to [OF this a(3)] obtain p1 where p1: "JsonSkipSpaces p = (True, p1)"
          "jp_rest p1 = CHR 0x22 # concat (map json_escape s) @ CHR 0x22 # w @ rest" by auto
      then have "jp_rest p1 = quoted s @ w @ rest" using s by (simp add: quoted_def)
      from value_string [OF this s, of lib] obtain q where "JsonParseValue lib p1 = (Some (JValue t s), q)" "jp_rest q = w @ rest"
        using True by auto
      with p1 peek_Cons(1) [OF p1(2)] a(4) show ?thesis by (intro that [of q w]) auto
    next
      case False
      with 1 const_back [of lib t s] have b: "bare s" "parse_const lib s = Some (JValue t s)" by auto
      from bare_token [OF b(1)] obtain c r where c: "s = c # r" "token c" "c \<notin> {CHR ''{'', CHR ''['', CHR 0x22}"
        by blast
      have "jp_rest p = w0 @ c # r @ w @ rest" using a(2) False c by simp
      from skip_to [OF this a(3) c(2)] obtain p1 where p1: "JsonSkipSpaces p = (True, p1)" "jp_rest p1 = c # r @ w @ rest"
        by auto
      then have "jp_rest p1 = s @ w @ rest" by (simp add: c)
      from value_const [OF this b(1) a(4,5), of lib] obtain q where "JsonParseValue lib p1 = (Some (JValue t s), q)" "jp_rest q = rest"
        using b(2) by auto
      with p1 peek_Cons(1) [OF p1(2)] c(3) show ?thesis by (intro that [of q "[]"]) auto
    qed
    with a(1) m show "\<exists>q w'. JsonParseBase n lib d p = Some (Some (JValue t s), q) \<and> jp_rest q = w' @ rest \<and> set w' \<subseteq> set JSN_SPACES"
      by fastforce
  qed
next
  case (2 pretty e es ks)
  show ?case unfolding reads_back_def
  proof (intro allI impI)
    fix d p w0 w rest n
    assume a: "fits d (JObject es ks)" "jp_rest p = w0 @ json_text pretty e (JObject es ks) @ w @ rest"
      "set w0 \<subseteq> set JSN_SPACES" "set w \<subseteq> set JSN_SPACES" "ended rest" "2 * remain p + 2 \<le> (n :: nat)"
    let ?w1 = "if pretty \<and> es \<noteq> [] then CHR 0x0A # indent e else []"
    obtain m where m: "n = Suc m" using a(6) by (cases n) auto
    have w1: "set ?w1 \<subseteq> set JSN_SPACES" using indent_blank [of e] by (auto simp: JSN_SPACES_def)
    have "jp_rest p = w0 @ CHR ''{'' # join '','' (map (member_text pretty e) es) @ ?w1 @ CHR ''}'' # w @ rest"
      using a(2) by simp
    from skip_to [OF this a(3)] obtain p1 where p1: "JsonSkipSpaces p = (True, p1)"
        "jp_rest p1 = CHR ''{'' # join '','' (map (member_text pretty e) es) @ ?w1 @ CHR ''}'' # w @ rest"
      by auto
    have r: "jp_rest (JsonParseConsume 1 p1) = [] @ join '','' (map (member_text pretty e) es) @ ?w1 @ CHR ''}'' # w @ rest"
      using p1(2) by simp
    have "remain p1 \<le> remain p" using p1(2) \<open>jp_rest p = w0 @ CHR ''{'' # _\<close> by (simp add: remain_def)
    then have fuel: "2 * remain (JsonParseConsume 1 p1) + 3 \<le> m"
      using a(6) m peek_Cons(2) [OF p1(2)] by (simp; linarith)
    have all: "\<forall>(k, v)\<in>set es. NUL \<notin> set k \<and> printable lib v \<and> reads_back lib pretty (e + 1) v \<and> fits (d + 1) v"
      using 2 a(1) by (force simp: list_all_iff)
    have dist: "distinct (map fst ([] @ es))" "ks = map fst es" using "2.prems" by auto
    from object_back [OF all dist(1) r _ w1 fuel] obtain q where
      "JsonParseObject_loop m lib (d + 1) (JObject [] []) (JsonParseConsume 1 p1) = Some (Some (JObject es ks), q)"
      "jp_rest q = w @ rest"
      using dist(2) by auto
    with a(1,4) m p1(1) peek_Cons(1) [OF p1(2)]
    show "\<exists>q w'. JsonParseBase n lib d p = Some (Some (JObject es ks), q) \<and> jp_rest q = w' @ rest \<and> set w' \<subseteq> set JSN_SPACES"
      by (simp add: JsonObjectCreateInternal_def)
  qed
next
  case (3 pretty e xs)
  show ?case unfolding reads_back_def
  proof (intro allI impI)
    fix d p w0 w rest n
    assume a: "fits d (JArray xs)" "jp_rest p = w0 @ json_text pretty e (JArray xs) @ w @ rest"
      "set w0 \<subseteq> set JSN_SPACES" "set w \<subseteq> set JSN_SPACES" "ended rest" "2 * remain p + 2 \<le> (n :: nat)"
    obtain m where m: "n = Suc m" using a(6) by (cases n) auto
    have p: "jp_rest p = w0 @ CHR ''['' # join (CHR '','' # gap pretty) (map (json_text pretty (e + 1)) xs) @ CHR '']'' # w @ rest"
      using a(2) by (simp add: gap_def)
    from skip_to [OF p a(3)] obtain p1 where p1: "JsonSkipSpaces p = (True, p1)"
        "jp_rest p1 = CHR ''['' # join (CHR '','' # gap pretty) (map (json_text pretty (e + 1)) xs) @ CHR '']'' # w @ rest"
      by auto
    have r: "jp_rest (JsonParseConsume 1 p1)
        = [] @ join (CHR '','' # gap pretty) (map (json_text pretty (e + 1)) xs) @ CHR '']'' # w @ rest"
      using p1(2) by simp
    have "remain p1 \<le> remain p" using p1(2) p by (simp add: remain_def)
    then have fuel: "2 * remain (JsonParseConsume 1 p1) + 3 \<le> m"
      using a(6) m peek_Cons(2) [OF p1(2)] by (simp; linarith)
    have all: "\<forall>x\<in>set xs. printable lib x \<and> reads_back lib pretty (e + 1) x \<and> fits (d + 1) x"
      using 3 a(1) by (auto simp: list_all_iff)
    from array_back [OF all r _ fuel, of "[]"] obtain q where
      "JsonParseArray_loop m lib (d + 1) (JArray []) (JsonParseConsume 1 p1) = Some (Some (JArray xs), q)"
      "jp_rest q = w @ rest"
      by auto
    with a(1,4) m p1(1) peek_Cons(1) [OF p1(2)]
    show "\<exists>q w'. JsonParseBase n lib d p = Some (Some (JArray xs), q) \<and> jp_rest q = w' @ rest \<and> set w' \<subseteq> set JSN_SPACES"
      by (simp add: JsonArrayCreateInternal_def)
  qed
qed

lemma JsonParse_text:
  assumes "printable lib j" "fits 0 j" "set w0 \<subseteq> set JSN_SPACES" "set w \<subseteq> set JSN_SPACES" "ended rest"
  shows "JsonParse lib (w0 @ json_text pretty 0 j @ w @ rest) = Some j"
proof -
  let ?s = "w0 @ json_text pretty 0 j @ w @ rest"
  have "2 * remain \<lparr>jp_rest = ?s, jp_line = 0\<rparr> + 2 \<le> 2 * length ?s + 2" by (simp add: remain_def)
  from reads_backD [OF printed_back [OF assms(1)] assms(2) _ assms(3-5) this] obtain q where
    "JsonParseBase (2 * length ?s + 2) lib 0 \<lparr>jp_rest = ?s, jp_line = 0\<rparr> = Some (Some j, q)"
    by (metis jparser.select_convs(1))
  then show ?thesis by (simp only: JsonParse_def JsonParseInternal_def option.case prod.case)
qed

section \<open>Properties\<close>

text \<open>
  C25: Reading back. What \<open>JsonToString\<close> prints, compact or indented, behind the blanks that a buffer holds, is read back
  by \<open>JsonParse\<close> as exactly the value, with blanks behind it and whatever follows behind a delimiter: 64-bit
  integers, booleans, null, all strings of non-zero bytes with their escapes, objects with their order of keys,
  arrays, nested up to the limit. Of the doubles, those whose text has a decimal point. Memory is granted.
\<close>

theorem json_roundtrip:
  assumes "printable lib j" "fits 0 j" "\<forall>n. mem n" "str_inv buf" "set (content buf) \<subseteq> set JSN_SPACES"
    "set w \<subseteq> set JSN_SPACES" "ended rest"
  shows "JsonParse lib (content (JsonToString mem j buf pretty) @ w @ rest) = Some j"
proof -
  have "content (JsonToString mem j buf pretty) = content buf @ json_text pretty 0 j"
    using ToString_prints(1) [of mem buf pretty 0 j] assms(3,4) by (auto simp: prints_def JsonToString_def)
  then show ?thesis using JsonParse_text [OF assms(1,2,5-7), of pretty] by simp
qed

definition toy_lib :: "int dlib" where
  "toy_lib = \<lparr>strtod = (\<lambda>s. (num (filter isdigit s), length s)),
     fmt17 = (\<lambda>v. digits (nat (v div 10)) @ ''.'' @ digits (nat (v mod 10))), dzero = 0\<rparr>"

definition roundtrip_json :: json where
  "roundtrip_json = JObject [(''a'', JArray [JValue JLong ''-1'', JValue JDouble ''2.5'']),
     (''b'', JValue JString [CHR ''x'', CHR 0x22, CHR 0x01])] [''a'', ''b'']"

theorem json_roundtrip_witness:
  "\<exists>buf. StringCreateInternal (\<lambda>_. True) 10 NULL = Some buf \<and>
    JsonParse toy_lib (content (JsonToString (\<lambda>_. True) roundtrip_json buf True)) = Some roundtrip_json"
proof -
  have s: "strtoll ''-1'' = (-1, 2)" by code_simp
  have d: "dec (-1) = ''-1''" by code_simp
  have f: "double_ok toy_lib ''2.5''" by code_simp
  have "printable toy_lib roundtrip_json" by (simp add: roundtrip_json_def s d f)
  moreover have "fits 0 roundtrip_json" by (simp add: roundtrip_json_def JSON_MAX_DEPTH_def)
  moreover obtain buf where buf: "StringCreateInternal (\<lambda>_. True) 10 NULL = Some buf" "str_inv buf" "content buf = []"
    using Create_granted [of 10 NULL "\<lambda>_. True"] by auto
  moreover have "set (content buf) \<subseteq> set JSN_SPACES" unfolding buf(3) by simp
  ultimately show ?thesis using json_roundtrip [of toy_lib roundtrip_json "\<lambda>_. True" buf "[]" "[]" True] by (auto simp: ended_def)
qed

text \<open>
  What else the parser lets through or refuses, whatever the conversion of doubles: a string
  whose closing quote is missing, an array that ends behind a comma, anything behind the first value;
  of a number without a decimal point only its integer prefix
  counts, so the text that \<open>SetDouble\<close> gives 1e20 comes back as the integer 1. Commented-out input, a
  missing colon and nesting beyond the limit are refused.
\<close>

theorem json_parse_leniency:
  "(NUL \<notin> set s \<longrightarrow> JsonParse lib (CHR 0x22 # concat (map json_escape s)) = Some (JValue JString s))
   \<and> JsonParse lib ''[1,'' = Some (JArray [JValue JLong ''1''])
   \<and> JsonParse lib ''[1] x'' = Some (JArray [JValue JLong ''1''])
   \<and> JsonParse lib ''1e+20'' = Some (JValue JLong ''1'')
   \<and> JsonParse lib ''// c'' = None
   \<and> JsonParse lib ''{a}'' = None
   \<and> JsonParseBase (Suc n) lib (JSON_MAX_DEPTH + k) p = Some (None, p)"
proof (intro conjI impI)
  assume s: "NUL \<notin> set s"
  show "JsonParse lib (CHR 0x22 # concat (map json_escape s)) = Some (JValue JString s)"
  proof -
    define p where "p = \<lparr>jp_rest = CHR 0x22 # concat (map json_escape s), jp_line = 0\<rparr>"
    have r: "jp_rest p = CHR 0x22 # concat (map json_escape s)" by (simp add: p_def)
    from skip_here [OF r] obtain p1 where p1: "JsonSkipSpaces p = (True, p1)" "jp_rest p1 = CHR 0x22 # concat (map json_escape s)"
      by auto
    from skip_here [OF p1(2)] obtain p2 where p2: "JsonSkipSpaces p1 = (True, p2)" "jp_rest p2 = CHR 0x22 # concat (map json_escape s)"
      by auto
    from skip_here [OF p2(2)] obtain p3 where p3: "JsonSkipSpaces p2 = (True, p3)" "jp_rest p3 = CHR 0x22 # concat (map json_escape s)"
      by auto
    from open_back [of "JsonParseConsume 1 p3" s "[]"] p3 s obtain q where
      "string_loop True (JsonParseConsume 1 p3) [] = Some (q, s)" by auto
    with p1 p2 p3 s peek_Cons(1) [OF p1(2)] peek_Cons(1) [OF p3(2)] show ?thesis
      by (simp add: JsonParse_def JsonParseInternal_def p_def [symmetric] JsonParseValue_def JsonParseString_def
          JsonValueSetString_def JsonValueSetBase_def JsonValueCreateInternal_def JSON_MAX_DEPTH_def)
  qed
next
  show "JsonParse lib ''[1,'' = Some (JArray [JValue JLong ''1''])" by code_simp
  show "JsonParse lib ''[1] x'' = Some (JArray [JValue JLong ''1''])" by code_simp
  show "JsonParse lib ''1e+20'' = Some (JValue JLong ''1'')" by code_simp
  show "JsonParse lib ''// c'' = None" by code_simp
  show "JsonParse lib ''{a}'' = None" by code_simp
  show "JsonParseBase (Suc n) lib (JSON_MAX_DEPTH + k) p = Some (None, p)" by simp
qed

theorem json_parse_leniency_witness:
  "JsonParse toy_lib (CHR 0x22 # concat (map json_escape ''ab'')) = Some (JValue JString ''ab'')"
  by (rule mp [OF conjunct1 [OF json_parse_leniency]]) simp

end
