(* ===== verification/Cmu_JsonObject.thy ===== *)
theory Cmu_JsonObject
  imports Cmu_JsonRound
begin

text \<open>
  The object of \<open>src/src/nanojson.c\<close> as it is stored: a hash map (\<open>Cmu_Map\<close>) of the items and an unsorted array of
  copies of the keys (\<open>Cmu_Array\<close>), with its operations as calls of theirs. \<open>Cmu_Json\<close> and what is built on it
  take an object for the list of its entries and keys; here that is shown to be what the containers implement:
  \<open>obj_rel\<close> relates the two, and every operation keeps it and answers the same.
\<close>

section \<open>The object over its containers\<close>

record json_object =
  jo_map :: "json cmap ptr"
  jo_keys :: "string arr ptr"

definition sizeof_JsonObject_Internal :: nat where
  "sizeof_JsonObject_Internal = 176"

definition ObjectCreate :: "alloc \<Rightarrow> fault + json_object" where
  "ObjectCreate mem =
     (if \<not> mem sizeof_JsonObject_Internal then Inl Null_Deref
      else map_sum id
        (\<lambda>m. \<lparr>jo_map = m, jo_keys = ArrayCreateInternal mem 10 (Some ptr_strcmp) True False\<rparr>)
        (MapCreateInternal mem 256 False True (3, 4)))"

definition ObjectGetKeys :: "alloc \<Rightarrow> json_object \<Rightarrow> fault + string_array ptr" where
  "ObjectGetKeys mem jobj = (case jo_map jobj of NULL \<Rightarrow> Inl Null_Deref | Some m \<Rightarrow> MapGetKeys mem m)"

definition ObjectGet :: "alloc \<Rightarrow> json_object \<Rightarrow> string \<Rightarrow> fault + json ptr" where
  "ObjectGet mem jobj key = (case jo_map jobj of NULL \<Rightarrow> Inl Null_Deref | Some m \<Rightarrow> MapGet mem m key)"

definition ObjectGetBody :: "alloc \<Rightarrow> json_object \<Rightarrow> string \<Rightarrow> (json \<Rightarrow> 'r) \<Rightarrow> 'r \<Rightarrow> fault + 'r" where
  "ObjectGetBody mem jobj key method v =
     map_sum id
       (\<lambda>item. case item of
          Some json \<Rightarrow> if JsonGetType json = TValue then method json else v
        | NULL \<Rightarrow> v)
       (ObjectGet mem jobj key)"

definition ObjectGetLong :: "alloc \<Rightarrow> json_object \<Rightarrow> string \<Rightarrow> fault + int" where
  "ObjectGetLong mem jobj key = ObjectGetBody mem jobj key JsonValueGetLong 0"

definition ObjectGetDouble :: "'d dlib \<Rightarrow> alloc \<Rightarrow> json_object \<Rightarrow> string \<Rightarrow> fault + 'd" where
  "ObjectGetDouble lib mem jobj key = ObjectGetBody mem jobj key (JsonValueGetDouble lib) (dzero lib)"

definition ObjectGetString :: "alloc \<Rightarrow> json_object \<Rightarrow> string \<Rightarrow> fault + string ptr" where
  "ObjectGetString mem jobj key = ObjectGetBody mem jobj key (\<lambda>j. Some (JsonValueGetString j)) NULL"

definition ObjectGetCString :: "alloc \<Rightarrow> json_object \<Rightarrow> string \<Rightarrow> fault + string ptr" where
  "ObjectGetCString mem jobj key = ObjectGetBody mem jobj key (\<lambda>j. Some (JsonValueGetCString j)) NULL"

definition ObjectGetBoolean :: "alloc \<Rightarrow> json_object \<Rightarrow> string \<Rightarrow> fault + bool" where
  "ObjectGetBoolean mem jobj key = ObjectGetBody mem jobj key JsonValueGetBoolean False"

text \<open>
  \<open>Put\<close>: the value replaced, which the code destroys, and the object. Only a key that replaced nothing is copied into
  the array of keys; a copy that is refused goes in as NULL.
\<close>

definition ObjectPut :: "alloc \<Rightarrow> json_object \<Rightarrow> string \<Rightarrow> json \<Rightarrow> fault + (json ptr \<times> json_object)" where
  "ObjectPut mem jobj key json =
     (case jo_map jobj of
        NULL \<Rightarrow> Inl Null_Deref
      | Some m \<Rightarrow>
          (case MapPut mem m key (Some json) of
             Inl e \<Rightarrow> Inl e
           | Inr (_, prev, m') \<Rightarrow>
               (if prev \<noteq> NULL then Inr (prev, jobj\<lparr>jo_map := Some m'\<rparr>)
                else
                  (case jo_keys jobj of
                     NULL \<Rightarrow> Inl Null_Deref
                   | Some ks \<Rightarrow>
                       (let dup = (if mem (length key + 1) then Some key else NULL)
                        in Inr (NULL, jobj\<lparr>jo_map := Some m', jo_keys := Some (snd (ArrayAdd mem ks dup False))\<rparr>))))))"

definition ObjectRemove :: "alloc \<Rightarrow> json_object \<Rightarrow> string \<Rightarrow> fault + (json ptr \<times> json_object)" where
  "ObjectRemove mem jobj key =
     (case (jo_keys jobj, jo_map jobj) of
        (Some ks, Some m) \<Rightarrow>
          (let ks' = (case snd (ArrayFind ks (Some key)) of
                        Some idx \<Rightarrow> snd (ArrayRemoveAt ks idx)
                      | None \<Rightarrow> ks)
           in map_sum id (\<lambda>(item, m'). (item, \<lparr>jo_map = Some m', jo_keys = Some ks'\<rparr>)) (MapRemove mem m key))
      | _ \<Rightarrow> Inl Null_Deref)"

section \<open>The list of entries it stands for\<close>

definition obj_rel :: "json_object \<Rightarrow> json \<Rightarrow> bool" where
  "obj_rel ob j \<longleftrightarrow>
     (\<exists>m a es ks. ob = \<lparr>jo_map = Some m, jo_keys = Some a\<rparr> \<and> j = JObject es ks \<and>
        map_inv m \<and> \<not> m_is_ucase m \<and> alist m = map (\<lambda>(k, v). (k, Some v)) es \<and>
        unsorted_inv a \<and> a_comparator a = Some ptr_strcmp \<and> items a = map Some ks)"

text \<open>The table can double and the order counter can count.\<close>

definition obj_room :: "json_object \<Rightarrow> bool" where
  "obj_room ob \<longleftrightarrow>
     (case jo_map ob of NULL \<Rightarrow> False | Some m \<Rightarrow> m_bucket_size m < 2 ^ 31 \<and> m_order_seq m < 2 ^ 31 - 1)"

lemma al_get_entries: "al_get (map (\<lambda>(k, v). (k, Some v)) es) k = map_of es k"
  by (induction es) (auto simp: al_get_def)

lemma al_put_entries:
  "al_put k (Some v) (map (\<lambda>(k, v). (k, Some v)) es) = map (\<lambda>(k, v). (k, Some v)) (al_put k v es)"
  "al_remove k (map (\<lambda>(k, v). (k, Some v)) es) = map (\<lambda>(k, v). (k, Some v)) (al_remove k es)"
  by (simp_all add: al_put_def al_remove_def filter_map comp_def split_def)

lemma Add_granted:
  assumes "unsorted_inv a" "\<forall>n. mem n"
  shows "unsorted_inv (snd (ArrayAdd mem a x w))" "items (snd (ArrayAdd mem a x w)) = items a @ [x]"
    "a_comparator (snd (ArrayAdd mem a x w)) = a_comparator a"
proof -
  have a: "arr_inv a" "\<not> a_sorted a" using assms by (simp_all add: unsorted_inv_def)
  have "fst (ArrayCheckSize mem a 1)" using assms(2) by (simp add: ArrayCheckSize_def Let_def)
  with Add_unsorted [OF a, of mem x w] a
  show "unsorted_inv (snd (ArrayAdd mem a x w))" "items (snd (ArrayAdd mem a x w)) = items a @ [x]"
    "a_comparator (snd (ArrayAdd mem a x w)) = a_comparator a"
    by (simp_all add: unsorted_inv_def same_kind_def)
qed

text \<open>The first equal key is taken out of the array.\<close>

definition keys_without :: "string arr \<Rightarrow> string \<Rightarrow> string arr" where
  "keys_without a key =
     (case snd (ArrayFind a (Some key)) of Some idx \<Rightarrow> snd (ArrayRemoveAt a idx) | None \<Rightarrow> a)"

lemma remove1_nth:
  "i < length ks \<Longrightarrow> ks ! i = k \<Longrightarrow> (\<forall>j < i. ks ! j \<noteq> k) \<Longrightarrow> remove1 k ks = take i ks @ drop (Suc i) ks"
proof (induction ks arbitrary: i)
  case (Cons x ks)
  show ?case
  proof (cases i)
    case (Suc n)
    with Cons.prems have "x \<noteq> k" "n < length ks" "ks ! n = k" by (metis nth_Cons_0 zero_less_Suc, auto)
    moreover have "\<forall>j < n. ks ! j \<noteq> k" using Cons.prems(3) Suc by (metis Suc_less_eq nth_Cons_Suc)
    ultimately show ?thesis using Cons.IH [of n] Suc by simp
  qed (use Cons.prems in simp)
qed simp

lemma keys_without_remove1:
  assumes "unsorted_inv a" "a_comparator a = Some ptr_strcmp" "items a = map Some ks"
    "NUL \<notin> set key" "\<forall>k \<in> set ks. NUL \<notin> set k"
  shows "unsorted_inv (keys_without a key)" "a_comparator (keys_without a key) = Some ptr_strcmp"
    "items (keys_without a key) = map Some (remove1 key ks)"
proof -
  have a: "arr_inv a" "\<not> a_sorted a" using assms(1) by (simp_all add: unsorted_inv_def)
  have len: "length ks = a_size a" using length_items [OF a(1)] assms(3) by simp
  let ?eq = "\<lambda>x. ptr_strcmp (Some key) x = 0"
  have eq: "?eq (a_data a ! i) \<longleftrightarrow> ks ! i = key" if "i < a_size a" for i
  proof -
    have "a_data a ! i = Some (ks ! i)" using that nth_items [of i a] assms(3) len by (metis nth_map)
    moreover have "NUL \<notin> set (ks ! i)" using assms(5) that len by simp
    ultimately show ?thesis using strcmp_eq_0 [OF assms(4), of "ks ! i"] by (auto simp: ptr_strcmp_def)
  qed
  have f: "ArrayFind a (Some key) =
      (case find_scan ?eq (a_data a) 0 (a_size a) of None \<Rightarrow> (NULL, None) | Some (x, i) \<Rightarrow> (x, Some i))"
    using a(2) assms(2) by (simp add: ArrayFind_def)
  have "unsorted_inv (keys_without a key) \<and> a_comparator (keys_without a key) = Some ptr_strcmp \<and>
      items (keys_without a key) = map Some (remove1 key ks)"
  proof (cases "find_scan ?eq (a_data a) 0 (a_size a)")
    case None
    then have "\<forall>i < a_size a. ks ! i \<noteq> key" using eq by (simp add: find_scan_None)
    then have "key \<notin> set ks" using len by (auto simp: in_set_conv_nth)
    with f None assms(1-3) show ?thesis by (simp add: keys_without_def remove1_idem)
  next
    case (Some xi)
    obtain x i where xi: "xi = (x, i)" by fastforce
    with Some have s: "find_scan ?eq (a_data a) 0 (a_size a) = Some (x, i)" by simp
    from find_scan_Some [OF this]
    have i: "i < a_size a" "x = a_data a ! i" "?eq x" "\<forall>j < i. \<not> ?eq (a_data a ! j)" by auto
    have k: "ks ! i = key" "\<forall>j < i. ks ! j \<noteq> key" using eq i by auto
    have w: "keys_without a key = snd (ArrayRemoveAt a i)" using f s by (simp add: keys_without_def)
    have "remove1 key ks = take i ks @ drop (Suc i) ks" using remove1_nth [of i ks key] k i(1) len by simp
    with RemoveAt_spec(2-4) [OF a(1) i(1)] assms(2,3) a(2) show ?thesis
      unfolding w by (simp add: unsorted_inv_def same_kind_def take_map drop_map)
  qed
  then show "unsorted_inv (keys_without a key)" "a_comparator (keys_without a key) = Some ptr_strcmp"
    "items (keys_without a key) = map Some (remove1 key ks)" by blast+
qed

section \<open>The refinement\<close>

lemma ObjectCreate_rel:
  assumes "\<forall>n. mem n"
  shows "\<exists>ob. ObjectCreate mem = Inr ob \<and> obj_rel ob JsonObjectCreateInternal \<and> obj_room ob"
proof -
  obtain m :: "json cmap" where m: "MapCreateInternal mem 256 False True (3, 4) = Inr (Some m)"
    using assms by (simp add: MapCreateInternal_def ArrayCreateInternal_def)
  obtain a where a: "ArrayCreateInternal mem 10 (Some ptr_strcmp) True False = Some a" "unsorted_inv a"
    "a_comparator a = Some ptr_strcmp" "items a = []"
    using assms by (simp add: ArrayCreateInternal_def unsorted_inv_def arr_inv_def items_def)
  have "MapCreateEx mem 256 False True (3, 4) = Inr (Some m)" using m by (simp add: MapCreateEx_def)
  note c = Create_map_granted [OF _ assms this]
  have "mem sizeof_JsonObject_Internal" using assms by blast
  then have "ObjectCreate mem = Inr \<lparr>jo_map = Some m, jo_keys = Some a\<rparr>" using a(1) m by (simp add: ObjectCreate_def)
  moreover have "obj_room \<lparr>jo_map = Some m, jo_keys = Some a\<rparr>" using c by (simp add: obj_room_def)
  moreover have "obj_rel \<lparr>jo_map = Some m, jo_keys = Some a\<rparr> JsonObjectCreateInternal"
    using c a(2-4) by (simp add: obj_rel_def JsonObjectCreateInternal_def map_inv_u_def)
  ultimately show ?thesis by blast
qed

lemma ObjectGet_rel:
  assumes "obj_rel ob j" "\<forall>n. mem n" "NUL \<notin> set key"
  shows "ObjectGet mem ob key = Inr (JsonObjectGet j key)"
proof -
  obtain m a es ks where o: "ob = \<lparr>jo_map = Some m, jo_keys = Some a\<rparr>" "j = JObject es ks" "map_inv m" "\<not> m_is_ucase m"
    "alist m = map (\<lambda>(k, v). (k, Some v)) es"
    using assms(1) by (auto simp: obj_rel_def)
  have "norm_key (m_is_ucase m) key = key" using o(4) by (simp add: norm_key_def)
  with Get_granted [OF o(3) assms(2,3)] show ?thesis
    by (simp add: o(1,2,5) ObjectGet_def JsonObjectGet_def al_get_entries)
qed

lemma ObjectGetBody_rel:
  assumes "obj_rel ob j" "\<forall>n. mem n" "NUL \<notin> set key"
  shows "ObjectGetBody mem ob key method v = Inr (JsonObjectGetBody j key method v)"
  using ObjectGet_rel [OF assms] by (simp add: ObjectGetBody_def JsonObjectGetBody_def)

lemma ObjectPut_rel:
  assumes "obj_rel ob j" "\<forall>n. mem n" "obj_room ob" "NUL \<notin> set key"
  shows "\<exists>ob'. ObjectPut mem ob key v = Inr (JsonObjectGet j key, ob') \<and> obj_rel ob' (snd (JsonObjectPut j key v))"
proof -
  obtain m a es ks where o: "ob = \<lparr>jo_map = Some m, jo_keys = Some a\<rparr>" "j = JObject es ks" "map_inv m" "\<not> m_is_ucase m"
    "alist m = map (\<lambda>(k, v). (k, Some v)) es" "unsorted_inv a" "a_comparator a = Some ptr_strcmp" "items a = map Some ks"
    using assms(1) by (auto simp: obj_rel_def)
  have r: "m_bucket_size m < 2 ^ 31" "m_order_seq m < 2 ^ 31 - 1" using assms(3) o(1) by (simp_all add: obj_room_def)
  have k: "norm_key (m_is_ucase m) key = key" using o(4) by (simp add: norm_key_def)
  obtain m' where m': "MapPut mem m key (Some v) = Inr (True, map_of es key, m')" "map_inv m'" "m_is_ucase m' = m_is_ucase m"
    "alist m' = map (\<lambda>(k, v). (k, Some v)) (al_put key v es)"
    using Put_granted [OF o(3) assms(2) r assms(4), of "Some v"] unfolding k o(5) al_get_entries al_put_entries by blast
  have dup: "mem (length key + 1)" using assms(2) by blast
  note ad = Add_granted [OF o(6) assms(2), of "Some key" False]
  show ?thesis
    using o m' ad dup
    by (cases "map_of es key")
      (simp_all add: ObjectPut_def obj_rel_def JsonObjectPut_def JsonObjectGet_def Let_def)
qed

lemma ObjectRemove_rel:
  assumes "obj_rel ob j" "\<forall>n. mem n" "json_ok j" "NUL \<notin> set key"
  shows "\<exists>ob'. ObjectRemove mem ob key = Inr (JsonObjectGet j key, ob') \<and> obj_rel ob' (snd (JsonObjectRemove j key))"
proof -
  obtain m a es ks where o: "ob = \<lparr>jo_map = Some m, jo_keys = Some a\<rparr>" "j = JObject es ks" "map_inv m" "\<not> m_is_ucase m"
    "alist m = map (\<lambda>(k, v). (k, Some v)) es" "unsorted_inv a" "a_comparator a = Some ptr_strcmp" "items a = map Some ks"
    using assms(1) by (auto simp: obj_rel_def)
  have k: "norm_key (m_is_ucase m) key = key" using o(4) by (simp add: norm_key_def)
  obtain m' where m': "MapRemove mem m key = Inr (map_of es key, m')" "alist m' = map (\<lambda>(k, v). (k, Some v)) (al_remove key es)"
    "m_size m' = length (alist m') + (if map_of (alist m) key = Some NULL then 1 else 0)"
    "map_inv (m'\<lparr>m_size := length (alist m')\<rparr>)" "m_is_ucase m' = m_is_ucase m"
    using Remove_granted [OF o(3) assms(2,4)] unfolding k o(5) al_get_entries al_put_entries by blast
  have "map_of (alist m) key \<noteq> Some NULL" unfolding o(5) by (auto dest: map_of_SomeD)
  then have "m'\<lparr>m_size := length (alist m')\<rparr> = m'" using m'(3) by simp
  then have inv: "map_inv m'" using m'(4) by simp
  have "\<forall>k \<in> set ks. NUL \<notin> set k" using assms(3) by (force simp: o(2) list_all_iff)
  note w = keys_without_remove1 [OF o(6-8) assms(4) this, unfolded keys_without_def]
  show ?thesis using o m' inv w by (simp add: ObjectRemove_def obj_rel_def JsonObjectRemove_def JsonObjectGet_def)
qed

lemma add_keys_granted:
  assumes "unsorted_inv a" "\<forall>n. mem n"
  shows "\<exists>a'. add_keys mem (map Some xs) a = Inr a' \<and> unsorted_inv a' \<and>
    map (map_option content) (items a') = map (map_option content) (items a) @ map (\<lambda>i. Some (mi_key i)) xs"
  using assms(1)
proof (induction xs arbitrary: a)
  case (Cons x xs)
  obtain s where s: "StringCreateInternal mem 0 (Some (mi_key x)) = Some s" "content s = mi_key x"
    using Create_granted [of 0 "Some (mi_key x)" mem] assms(2) by auto
  note ad = StringArrayAdd_granted [OF Cons.prems assms(2), of "Some s"]
  obtain a' where "add_keys mem (map Some xs) (StringArrayAdd mem a (Some s)) = Inr a'" "unsorted_inv a'"
    "map (map_option content) (items a') =
      map (map_option content) (items (StringArrayAdd mem a (Some s))) @ map (\<lambda>i. Some (mi_key i)) xs"
    using Cons.IH [OF ad [THEN conjunct1]] by blast
  with s ad show ?case by (simp add: StringArrayAddCString_def StringCreateEx_def)
qed simp

lemma ObjectGetKeys_rel:
  assumes "obj_rel ob j" "\<forall>n. mem n"
  shows "\<exists>a. ObjectGetKeys mem ob = Inr (Some a) \<and> map (map_option content) (items a) = map Some (JsonObjectGetKeys j)"
proof -
  obtain m b es ks where o: "ob = \<lparr>jo_map = Some m, jo_keys = Some b\<rparr>" "j = JObject es ks" "map_inv m"
    "alist m = map (\<lambda>(k, v). (k, Some v)) es"
    using assms(1) by (auto simp: obj_rel_def)
  obtain a0 :: string_array where a0: "ArrayCreateInternal mem (ArrayGetSize (m_keyset m)) None False False = Some a0"
    "unsorted_inv a0" "items a0 = []"
    using assms(2) by (simp add: ArrayCreateInternal_def unsorted_inv_def arr_inv_def items_def)
  have "items (m_keyset m) = map Some (entries m)" using o(3) items_entries by (auto simp: map_inv_def)
  with add_keys_granted [OF a0(2) assms(2), of "entries m"] a0 obtain a where
    a: "add_keys mem (items (m_keyset m)) a0 = Inr a" "map (map_option content) (items a) = map (\<lambda>i. Some (mi_key i)) (entries m)"
    by auto
  have "map fst (alist m) = map mi_key (entries m)" by (simp add: alist_def comp_def)
  moreover have "map fst (alist m) = map fst es" by (simp add: o(4) comp_def split_def)
  moreover have "map (\<lambda>i. Some (mi_key i)) (entries m) = map Some (map mi_key (entries m))" by simp
  ultimately have "map (\<lambda>i. Some (mi_key i)) (entries m) = map Some (map fst es)" by simp
  with a a0 assms(2) o(1,2) show ?thesis
    by (simp add: ObjectGetKeys_def MapGetKeys_def StringArrayCreateInternal_def JsonObjectGetKeys_def)
qed

section \<open>Properties\<close>

text \<open>
  C23: Objects, over the hash map and the array of keys they are stored in. \<open>Put\<close> hands out the value it replaces; then \<open>Get\<close>
  answers the new value for the key and what it did for every other, the keys are those there were without that key and the
  key last, and each typed getter answers its reading of a scalar and its default for an object or an array: the
  number of its text, the text, whether it begins with one of \<open>1tTyY\<close> or is empty; a number put with \<open>PutLong\<close> is read
  back. \<open>Remove\<close> hands out the item, and then \<open>Get\<close> and the getters of that key answer NULL and the defaults, and \<open>Get\<close>
  of every other key what it did. Both keep map and keys in step (\<open>obj_rel\<close>, \<open>json_ok\<close>).
\<close>

theorem json_object_ops:
  assumes "obj_rel ob j" "json_ok j" "\<forall>n. mem n" "obj_room ob" "NUL \<notin> set key" "json_ok v"
  shows "(\<exists>ob' j' ks. ObjectPut mem ob key v = Inr (JsonObjectGet j key, ob') \<and> obj_rel ob' j' \<and> json_ok j' \<and>
      (\<forall>k. NUL \<notin> set k \<longrightarrow> ObjectGet mem ob' k = (if k = key then Inr (Some v) else ObjectGet mem ob k)) \<and>
      ObjectGetKeys mem ob' = Inr (Some ks) \<and>
      map (map_option content) (items ks) = map Some (filter (\<lambda>k. k \<noteq> key) (JsonObjectGetKeys j) @ [key]) \<and>
      ObjectGetLong mem ob' key = Inr (case v of JValue t d \<Rightarrow> fst (strtoll d) | _ \<Rightarrow> 0) \<and>
      ObjectGetDouble lib mem ob' key = Inr (case v of JValue t d \<Rightarrow> fst (strtod lib d) | _ \<Rightarrow> dzero lib) \<and>
      ObjectGetString mem ob' key = Inr (case v of JValue t d \<Rightarrow> Some d | _ \<Rightarrow> NULL) \<and>
      ObjectGetCString mem ob' key = Inr (case v of JValue t d \<Rightarrow> Some d | _ \<Rightarrow> NULL) \<and>
      ObjectGetBoolean mem ob' key = Inr (case v of JValue t d \<Rightarrow> d = [] \<or> hd d \<in> set ''1tTyY'' | _ \<Rightarrow> False) \<and>
      (\<forall>n. v = JsonValueSetLong JsonValueCreateInternal n \<and> LLONG_MIN \<le> n \<and> n \<le> LLONG_MAX \<longrightarrow>
        ObjectGetLong mem ob' key = Inr n)) \<and>
    (\<exists>ob' j'. ObjectRemove mem ob key = Inr (JsonObjectGet j key, ob') \<and> obj_rel ob' j' \<and> json_ok j' \<and>
      (\<forall>k. NUL \<notin> set k \<longrightarrow> ObjectGet mem ob' k = (if k = key then Inr NULL else ObjectGet mem ob k)) \<and>
      ObjectGetLong mem ob' key = Inr 0 \<and> ObjectGetDouble lib mem ob' key = Inr (dzero lib) \<and>
      ObjectGetString mem ob' key = Inr NULL \<and> ObjectGetCString mem ob' key = Inr NULL \<and>
      ObjectGetBoolean mem ob' key = Inr False)"
proof -
  obtain es ks0 where j: "j = JObject es ks0" using assms(1) by (auto simp: obj_rel_def)
  note getters = ObjectGetLong_def ObjectGetDouble_def ObjectGetString_def ObjectGetCString_def ObjectGetBoolean_def
  note read = JsonValueGetLong_def JsonValueGetDouble_def JsonValueGetString_def JsonValueGetCString_def
    JsonValueGetBoolean_def value_text_def JsonValueSetLong_def JsonValueSetBase_def JsonValueCreateInternal_def
  let ?p = "snd (JsonObjectPut j key v)" and ?r = "snd (JsonObjectRemove j key)"
  have lp: "JsonObjectGet ?p k = (if k = key then Some v else JsonObjectGet j k)" for k
    by (simp add: j JsonObjectPut_def JsonObjectGet_def Let_def map_of_al_put)
  have lr: "JsonObjectGet ?r k = (if k = key then NULL else JsonObjectGet j k)" for k
    by (simp add: j JsonObjectRemove_def JsonObjectGet_def map_of_al_remove)
  obtain ob1 where p: "ObjectPut mem ob key v = Inr (JsonObjectGet j key, ob1)" "obj_rel ob1 ?p"
    using ObjectPut_rel [OF assms(1,3,4,5)] by blast
  obtain ks where ks: "ObjectGetKeys mem ob1 = Inr (Some ks)" "map (map_option content) (items ks) = map Some (JsonObjectGetKeys ?p)"
    using ObjectGetKeys_rel [OF p(2) assms(3)] by blast
  have kp: "JsonObjectGetKeys ?p = filter (\<lambda>k. k \<noteq> key) (JsonObjectGetKeys j) @ [key]"
    by (simp add: j JsonObjectPut_def JsonObjectGetKeys_def Let_def fst_al_put)
  have l: "fst (strtoll (dec n)) = n" if "LLONG_MIN \<le> n" "n \<le> LLONG_MAX" for n
    using strtoll_dec [OF that] by (metis fst_conv)
  obtain ob2 where r: "ObjectRemove mem ob key = Inr (JsonObjectGet j key, ob2)" "obj_rel ob2 ?r"
    using ObjectRemove_rel [OF assms(1,3,2,5)] by blast
  have ok: "json_ok ?p" "json_ok ?r"
    using ObjectPut_ok [OF assms(2) [unfolded j] assms(5,6)] ObjectRemove_ok [OF assms(2) [unfolded j], of key] by (simp_all add: j)
  have gp: "ObjectGetBody mem ob1 key f d = Inr (case v of JValue _ _ \<Rightarrow> f v | _ \<Rightarrow> d)" for f :: "json \<Rightarrow> 'z" and d
    using ObjectGetBody_rel [OF p(2) assms(3,5), of f d]
    by (simp add: JsonObjectGetBody_def lp JsonGetType_def split: json.splits)
  have gr: "ObjectGetBody mem ob2 key f d = Inr d" for f :: "json \<Rightarrow> 'z" and d
    using ObjectGetBody_rel [OF r(2) assms(3,5), of f d] by (simp add: JsonObjectGetBody_def lr)
  note get = ObjectGet_rel [OF p(2) assms(3)] ObjectGet_rel [OF r(2) assms(3)] ObjectGet_rel [OF assms(1,3)]
  have typed: "ObjectGetLong mem ob1 key = Inr (case v of JValue t d \<Rightarrow> fst (strtoll d) | _ \<Rightarrow> 0)"
    "ObjectGetDouble lib mem ob1 key = Inr (case v of JValue t d \<Rightarrow> fst (strtod lib d) | _ \<Rightarrow> dzero lib)"
    "ObjectGetString mem ob1 key = Inr (case v of JValue t d \<Rightarrow> Some d | _ \<Rightarrow> NULL)"
    "ObjectGetCString mem ob1 key = Inr (case v of JValue t d \<Rightarrow> Some d | _ \<Rightarrow> NULL)"
    using assms(6) by (cases v; simp add: getters gp read)+
  have bool: "ObjectGetBoolean mem ob1 key = Inr (case v of JValue t d \<Rightarrow> d = [] \<or> hd d \<in> set ''1tTyY'' | _ \<Rightarrow> False)"
  proof (cases v)
    case (JValue t d)
    with assms(6) show ?thesis by (cases d) (auto simp: getters gp read strchr_def)
  qed (simp_all add: getters gp)
  have long: "\<forall>n. v = JsonValueSetLong JsonValueCreateInternal n \<and> LLONG_MIN \<le> n \<and> n \<le> LLONG_MAX \<longrightarrow>
      ObjectGetLong mem ob1 key = Inr n"
    using typed(1) l by (simp add: read)
  have keys: "map (map_option content) (items ks) = map Some (filter (\<lambda>k. k \<noteq> key) (JsonObjectGetKeys j) @ [key])"
    using ks(2) by (simp only: kp)
  have other: "\<forall>k. NUL \<notin> set k \<longrightarrow> ObjectGet mem ob1 k = (if k = key then Inr (Some v) else ObjectGet mem ob k)"
    "\<forall>k. NUL \<notin> set k \<longrightarrow> ObjectGet mem ob2 k = (if k = key then Inr NULL else ObjectGet mem ob k)"
    using get lp lr by simp_all
  have none: "ObjectGetLong mem ob2 key = Inr 0" "ObjectGetDouble lib mem ob2 key = Inr (dzero lib)"
    "ObjectGetString mem ob2 key = Inr NULL" "ObjectGetCString mem ob2 key = Inr NULL" "ObjectGetBoolean mem ob2 key = Inr False"
    by (simp_all add: getters gr)
  note put = p ok(1) other(1) ks(1) keys typed bool long and rem = r ok(2) other(2) none
  show ?thesis
    by (rule conjI; intro exI conjI; rule put rem)
qed

theorem json_object_ops_witness:
  "\<exists>ob ob' ob''. ObjectCreate (\<lambda>_. True) = Inr ob \<and>
    ObjectPut (\<lambda>_. True) ob ''a'' (JsonValueSetLong JsonValueCreateInternal 7) = Inr (NULL, ob') \<and>
    ObjectGetLong (\<lambda>_. True) ob' ''a'' = Inr 7 \<and> ObjectGet (\<lambda>_. True) ob' ''b'' = Inr NULL \<and>
    ObjectRemove (\<lambda>_. True) ob ''a'' = Inr (NULL, ob'')"
proof -
  obtain ob where ob: "ObjectCreate (\<lambda>_. True) = Inr ob" "obj_rel ob JsonObjectCreateInternal" "obj_room ob"
    using ObjectCreate_rel [of "\<lambda>_. True"] by blast
  have d: "dec 7 = ''7''" by code_simp
  have j: "json_ok JsonObjectCreateInternal" "json_ok (JsonValueSetLong JsonValueCreateInternal 7)"
    by (simp_all add: JsonObjectCreateInternal_def JsonValueSetLong_def JsonValueCreateInternal_def JsonValueSetBase_def d)
  have n: "JsonObjectGet JsonObjectCreateInternal k = NULL" for k by (simp add: JsonObjectCreateInternal_def JsonObjectGet_def)
  have b: "ObjectGet (\<lambda>_. True) ob ''b'' = Inr NULL" using ObjectGet_rel [OF ob(2), of "\<lambda>_. True" "''b''"] n by simp
  from json_object_ops [OF ob(2) j(1) _ ob(3) _ j(2), of "\<lambda>_. True" "''a''" toy_lib] ob(1) b
  show ?thesis unfolding n by (fastforce simp: LLONG_MIN_def LLONG_MAX_def)
qed

end
