(* ===== verification/Cmu_Config.thy ===== *)
theory Cmu_Config
  imports Cmu_JsonRound
begin

text \<open>
  \<open>src/src/config.c\<close>, configuration files. The map \<open>confs\<close> is the association list it stands for,
  the array \<open>sequence\<close> the list of its items, each with the address it was allocated at, and
  \<open>revconf\<close> maps keys to these addresses. A file is its bytes; opening and closing it, the log and
  the allocator (which grants) are left out. \<open>long\<close> has 64 bits.
\<close>

section \<open>Data\<close>

record conf_item =
  ci_key :: "string ptr"
  ci_comment :: "string ptr"
  ci_pair :: bool
  ci_index :: nat

record config =
  cf_confs :: "(string \<times> string) list"
  cf_seq :: "(nat \<times> conf_item) list"
  cf_rev :: "(string \<times> nat) list"
  cf_maxkeylen :: nat
  cf_next :: nat

definition ConfigCreateInternal :: config where
  "ConfigCreateInternal = \<lparr>cf_confs = [], cf_seq = [], cf_rev = [], cf_maxkeylen = 0, cf_next = 0\<rparr>"

section \<open>Reading and writing entries\<close>

definition ConfigGet :: "config \<Rightarrow> string \<Rightarrow> string ptr" where
  "ConfigGet conf key = map_of (cf_confs conf) key"

text \<open>An item that is new gets the next address; \<open>memset\<close> leaves its \<open>index\<close> 0.\<close>

definition ConfigSet :: "config \<Rightarrow> string \<Rightarrow> string \<Rightarrow> config" where
  "ConfigSet conf key val =
     (let prev = map_of (cf_confs conf) key;
          c1 = conf\<lparr>cf_confs := al_put key val (cf_confs conf),
                    cf_maxkeylen := max (cf_maxkeylen conf) (length key)\<rparr>
      in if prev \<noteq> NULL then c1
         else
           (let item = \<lparr>ci_key = Some key, ci_comment = NULL, ci_pair = True, ci_index = 0\<rparr>
            in c1\<lparr>cf_seq := cf_seq c1 @ [(cf_next c1, item)],
                  cf_rev := al_put key (cf_next c1) (cf_rev c1), cf_next := cf_next c1 + 1\<rparr>))"

definition ConfigGetLong :: "config \<Rightarrow> string \<Rightarrow> int" where
  "ConfigGetLong conf key = (case ConfigGet conf key of None \<Rightarrow> 0 | Some v \<Rightarrow> fst (strtoll v))"

text \<open>\<open>sprintf\<close> into a buffer of \<open>n\<close> bytes: a fault when text and terminator do not fit.\<close>

definition set_formatted :: "nat \<Rightarrow> config \<Rightarrow> string \<Rightarrow> string \<Rightarrow> fault + config" where
  "set_formatted n conf key txt =
     (if n < length txt + 1 then Inl Out_Of_Bounds else Inr (ConfigSet conf key txt))"

definition ConfigSetLong :: "config \<Rightarrow> string \<Rightarrow> int \<Rightarrow> fault + config" where
  "ConfigSetLong conf key v = set_formatted 20 conf key (dec v)"

definition ConfigGetDouble :: "'d dlib \<Rightarrow> config \<Rightarrow> string \<Rightarrow> 'd" where
  "ConfigGetDouble lib conf key =
     (case ConfigGet conf key of None \<Rightarrow> dzero lib | Some v \<Rightarrow> fst (strtod lib v))"

text \<open>\<open>fmtf\<close> is the text of \<open>"%f"\<close>.\<close>

definition ConfigSetDouble :: "('d \<Rightarrow> string) \<Rightarrow> config \<Rightarrow> string \<Rightarrow> 'd \<Rightarrow> fault + config" where
  "ConfigSetDouble fmtf conf key v = set_formatted 30 conf key (fmtf v)"

definition ConfigGetBoolean :: "config \<Rightarrow> string \<Rightarrow> bool" where
  "ConfigGetBoolean conf key =
     (case ConfigGet conf key of
        None \<Rightarrow> False
      | Some [] \<Rightarrow> False
      | Some (c # _) \<Rightarrow> strchr ''YyTt1'' c)"

definition ConfigSetBoolean :: "config \<Rightarrow> string \<Rightarrow> bool \<Rightarrow> config" where
  "ConfigSetBoolean conf key b = ConfigSet conf key (if b then ''True'' else ''False'')"

section \<open>Save\<close>

text \<open>\<open>"%Ns"\<close>\<close>

definition pad_left :: "nat \<Rightarrow> string \<Rightarrow> string" where
  "pad_left n s = replicate (n - length s) (CHR '' '') @ s"

definition save_item :: "config \<Rightarrow> conf_item \<Rightarrow> string" where
  "save_item conf item =
     (if ci_pair item then
        (let key = the (ci_key item);
             v = (case ConfigGet conf key of None \<Rightarrow> [] | Some v \<Rightarrow> v)
         in case ci_comment item of
              Some cm \<Rightarrow> pad_left (cf_maxkeylen conf) key @ '' = '' @ v @ '' '' @ cm @ [CHR 0x0A]
            | None \<Rightarrow> pad_left (cf_maxkeylen conf) key @ '' = '' @ v @ [CHR 0x0A])
      else
        (case ci_comment item of Some cm \<Rightarrow> cm @ [CHR 0x0A] | None \<Rightarrow> [CHR 0x0A]))"

definition ConfigSave :: "config \<Rightarrow> string" where
  "ConfigSave conf = concat (map (\<lambda>(_, item). save_item conf item) (cf_seq conf))"

section \<open>Load\<close>

text \<open>\<open>CMUTIL_NextTermBefore\<close>: the term and the rest; \<open>prev\<close> is the byte before, if any.\<close>

fun NextTermBefore :: "string \<Rightarrow> char \<Rightarrow> char option \<Rightarrow> nat \<Rightarrow> string \<Rightarrow> string \<times> string" where
  "NextTermBefore delim escapechar prev maxlen [] = ([], [])"
| "NextTermBefore delim escapechar prev maxlen (c # p) =
     (if (\<not> strchr delim c \<or> prev = Some escapechar) \<and> 0 < maxlen
      then (case NextTermBefore delim escapechar (Some c) (maxlen - 1) p of (q, r) \<Rightarrow> (c # q, r))
      else ([], c # p))"

definition rtrim_set :: "string \<Rightarrow> string \<Rightarrow> string" where
  "rtrim_set spaces s = rev (dropWhile (strchr spaces) (rev s))"

text \<open>
  \<open>CMUTIL_AppendTrimmedLine\<close> on the line \<open>inp\<close>: whether it goes on in the next line, and the string
  with the line added. \<open>rtrim_set\<close> ends at \<open>last\<close>, the byte behind the last one that is no blank.
\<close>

definition AppendTrimmedLine :: "string \<Rightarrow> string \<Rightarrow> string \<Rightarrow> bool \<times> string" where
  "AppendTrimmedLine rstr inp spaces =
     (let s = rtrim_set spaces inp
      in if s = [] then (False, rstr)
         else if List.last s = CHR 0x5C then (True, rstr @ butlast s)
         else (False, rstr @ s))"

text \<open>\<open>fgets(line, n, f)\<close>: at most \<open>n - 1\<close> bytes, up to and with the first newline.\<close>

fun fgets_loop :: "nat \<Rightarrow> string \<Rightarrow> string \<times> string" where
  "fgets_loop 0 s = ([], s)"
| "fgets_loop (Suc n) [] = ([], [])"
| "fgets_loop (Suc n) (c # s) =
     (if c = CHR 0x0A then ([c], s) else (case fgets_loop n s of (l, r) \<Rightarrow> (c # l, r)))"

definition fgets :: "nat \<Rightarrow> string \<Rightarrow> (string \<times> string) option" where
  "fgets n s = (if s = [] then None else Some (fgets_loop (n - 1) s))"

lemma fgets_loop_append: "fgets_loop n s = (l, r) \<Longrightarrow> s = l @ r"
  by (induction n s arbitrary: l rule: fgets_loop.induct) (auto split: if_splits prod.splits)

lemma fgets_shorter: "1 < n \<Longrightarrow> fgets n s = Some (l, r) \<Longrightarrow> length r < length s"
  by (cases s; cases "n - 1") (auto simp: fgets_def split: if_splits prod.splits dest: fgets_loop_append)

definition add_item :: "config \<Rightarrow> conf_item \<Rightarrow> config" where
  "add_item conf item =
     conf\<lparr>cf_seq := cf_seq conf @ [(cf_next conf, item\<lparr>ci_index := length (cf_seq conf)\<rparr>)],
          cf_next := cf_next conf + 1\<rparr>"

text \<open>One line of the file, trimmed and joined with the lines it continues.\<close>

definition load_line :: "config \<Rightarrow> string \<Rightarrow> config" where
  "load_line res str =
     (let p = StrSkipSpaces str SPACES
      in if p = [] then
           add_item res \<lparr>ci_key = NULL, ci_comment = NULL, ci_pair = False, ci_index = 0\<rparr>
         else if hd p = CHR ''#'' then
           add_item res \<lparr>ci_key = NULL, ci_comment = Some (rtrimmed p), ci_pair = False, ci_index = 0\<rparr>
         else
           (let (name, p1) = NextTermBefore [CHR '' '', CHR ''='', CHR 0x09] (CHR 0x5C) None 1024 p;
                p2 = StrSkipSpaces p1 [CHR '' '', CHR ''='', CHR 0x09];
                (val, p3) = NextTermBefore [CHR ''#'', CHR 0x0A] (CHR 0x5C) None 2048 p2;
                cm = (if p3 \<noteq> [] \<and> hd p3 = CHR ''#'' then Some (rtrimmed p3) else NULL);
                previtem = map_of (cf_rev res) name;
                r1 = res\<lparr>cf_confs := al_put name (trimmed val) (cf_confs res),
                         cf_maxkeylen := max (cf_maxkeylen res) (length name),
                         cf_rev := al_put name (cf_next res) (cf_rev res)\<rparr>;
                r2 = (case previtem of
                        None \<Rightarrow> r1
                      | Some i \<Rightarrow> r1\<lparr>cf_seq := filter (\<lambda>x. fst x \<noteq> i) (cf_seq r1)\<rparr>)
            in add_item r2 \<lparr>ci_key = Some name, ci_comment = cm, ci_pair = True, ci_index = 0\<rparr>))"

function load_loop :: "config \<Rightarrow> string \<Rightarrow> string \<Rightarrow> config" where
  "load_loop res str f =
     (case fgets 4096 f of
        None \<Rightarrow> res
      | Some (line, f') \<Rightarrow>
          (case AppendTrimmedLine str (cstr line) [CHR '' '', CHR 0x0D, CHR 0x09, CHR 0x0A] of
             (True, str') \<Rightarrow> load_loop res str' f'
           | (False, str') \<Rightarrow> load_loop (load_line res str') [] f'))"
  by pat_completeness auto
termination
proof (relation "measure (\<lambda>(r, s, f). length f)", goal_cases)
  case (2 res str f x line f')
  then have "fgets 4096 f = Some (line, f')" by simp
  then show ?case using fgets_shorter [of 4096 f] by simp
next
  case (3 res str f x line f')
  then have "fgets 4096 f = Some (line, f')" by simp
  then show ?case using fgets_shorter [of 4096 f] by simp
qed simp

declare load_loop.simps [simp del]

definition ConfigLoadInternal :: "string \<Rightarrow> config" where
  "ConfigLoadInternal f = load_loop ConfigCreateInternal [] f"

section \<open>The invariant\<close>

text \<open>
  Every key of \<open>confs\<close> has one item in the sequence, which \<open>revconf\<close> finds; the column width is at
  least the longest key.
\<close>

definition cfg_inv :: "config \<Rightarrow> bool" where
  "cfg_inv c \<longleftrightarrow>
     distinct (map fst (cf_confs c)) \<and> distinct (map fst (cf_seq c)) \<and>
     (\<forall>x\<in>set (cf_seq c). fst x < cf_next c \<and> (ci_pair (snd x) \<longleftrightarrow> ci_key (snd x) \<noteq> NULL)) \<and>
     (\<forall>k i. map_of (cf_rev c) k = Some i \<longleftrightarrow> (\<exists>it. (i, it) \<in> set (cf_seq c) \<and> ci_key it = Some k)) \<and>
     (\<forall>k. map_of (cf_confs c) k = None \<longleftrightarrow> map_of (cf_rev c) k = None) \<and>
     (\<forall>k\<in>fst ` set (cf_confs c). length k \<le> cf_maxkeylen c)"

lemma cfg_invD:
  assumes "cfg_inv c"
  shows "distinct (map fst (cf_confs c))" "distinct (map fst (cf_seq c))"
    "\<And>x. x \<in> set (cf_seq c) \<Longrightarrow> fst x < cf_next c"
    "\<And>x. x \<in> set (cf_seq c) \<Longrightarrow> ci_pair (snd x) \<longleftrightarrow> ci_key (snd x) \<noteq> NULL"
    "\<And>k i. map_of (cf_rev c) k = Some i \<longleftrightarrow> (\<exists>it. (i, it) \<in> set (cf_seq c) \<and> ci_key it = Some k)"
    "\<And>k. map_of (cf_confs c) k = None \<longleftrightarrow> map_of (cf_rev c) k = None"
    "\<And>k. k \<in> fst ` set (cf_confs c) \<Longrightarrow> length k \<le> cf_maxkeylen c"
  using assms unfolding cfg_inv_def by blast+

lemma distinct_al_put: "distinct (map fst l) \<Longrightarrow> distinct (map fst (al_put k v l))"
  by (simp add: fst_al_put)

text \<open>The three changes of a configuration: a value, an item, an item taken out.\<close>

lemma keylen_put:
  "(\<And>k'. k' \<in> fst ` set l \<Longrightarrow> length k' \<le> m) \<Longrightarrow>
    \<forall>k'\<in>fst ` set (al_put k v l). length k' \<le> max m (length k)"
  unfolding keys_al_put by (metis insertE le_max_iff_disj order_refl)

lemma cfg_inv_value:
  assumes "cfg_inv c" "map_of (cf_confs c) k \<noteq> None"
  shows "cfg_inv (c\<lparr>cf_confs := al_put k v (cf_confs c), cf_maxkeylen := max (cf_maxkeylen c) (length k)\<rparr>)"
proof -
  note d = cfg_invD [OF assms(1)]
  have "\<forall>k'. map_of (al_put k v (cf_confs c)) k' = None \<longleftrightarrow> map_of (cf_rev c) k' = None"
    using assms(2) d(6) by (auto simp: map_of_al_put)
  with d distinct_al_put [OF d(1)] keylen_put [OF d(7)] show ?thesis by (simp add: cfg_inv_def)
qed

text \<open>The item \<open>revconf\<close> finds for a key, taken out of the sequence.\<close>

definition without_key :: "config \<Rightarrow> string \<Rightarrow> (nat \<times> conf_item) list" where
  "without_key c k = filter (\<lambda>x. map_of (cf_rev c) k \<noteq> Some (fst x)) (cf_seq c)"

lemma set_without_key:
  assumes "cfg_inv c"
  shows "x \<in> set (without_key c k) \<longleftrightarrow> x \<in> set (cf_seq c) \<and> ci_key (snd x) \<noteq> Some k"
proof -
  note d = cfg_invD [OF assms]
  have "map_of (cf_rev c) k = Some (fst x) \<longleftrightarrow> ci_key (snd x) = Some k" if x: "x \<in> set (cf_seq c)"
  proof
    assume "map_of (cf_rev c) k = Some (fst x)"
    then obtain it where "(fst x, it) \<in> set (cf_seq c)" "ci_key it = Some k" using d(5) by auto
    with d(2) x show "ci_key (snd x) = Some k" by (metis eq_key_imp_eq_value prod.collapse)
  next
    assume "ci_key (snd x) = Some k"
    with x show "map_of (cf_rev c) k = Some (fst x)" using d(5) [of k "fst x"] by (metis prod.collapse)
  qed
  then show ?thesis by (auto simp: without_key_def)
qed

lemma cfg_inv_new:
  assumes "cfg_inv c"
  shows "cfg_inv (c\<lparr>cf_confs := al_put k v (cf_confs c), cf_maxkeylen := max (cf_maxkeylen c) (length k),
      cf_seq := without_key c k @ [(cf_next c, \<lparr>ci_key = Some k, ci_comment = cm, ci_pair = True, ci_index = n\<rparr>)],
      cf_rev := al_put k (cf_next c) (cf_rev c), cf_next := cf_next c + 1\<rparr>)" (is "cfg_inv ?c")
proof -
  note d = cfg_invD [OF assms] and w = set_without_key [OF assms]
  have seq: "x \<in> set (cf_seq ?c) \<longleftrightarrow> (x \<in> set (cf_seq c) \<and> ci_key (snd x) \<noteq> Some k) \<or>
      x = (cf_next c, \<lparr>ci_key = Some k, ci_comment = cm, ci_pair = True, ci_index = n\<rparr>)" for x
    using w by auto
  have found: "(\<exists>it. (i, it) \<in> set (cf_seq ?c) \<and> ci_key it = Some k') \<longleftrightarrow>
      (if k' = k then i = cf_next c else \<exists>it. (i, it) \<in> set (cf_seq c) \<and> ci_key it = Some k')" for k' i
  proof -
    let ?new = "\<lparr>ci_key = Some k, ci_comment = cm, ci_pair = True, ci_index = n\<rparr>"
    have "(\<exists>it. (i, it) \<in> set (cf_seq ?c) \<and> ci_key it = Some k') \<longleftrightarrow>
        (\<exists>it. (i, it) \<in> set (cf_seq c) \<and> ci_key it \<noteq> Some k \<and> ci_key it = Some k') \<or>
        i = cf_next c \<and> ci_key ?new = Some k'"
      unfolding seq by (auto simp only: snd_conv prod.inject)
    then show ?thesis by (cases "k' = k") (simp_all only: conf_item.select_convs if_True if_False option.inject, auto)
  qed
  have "\<forall>k' i. map_of (cf_rev ?c) k' = Some i \<longleftrightarrow> (\<exists>it. (i, it) \<in> set (cf_seq ?c) \<and> ci_key it = Some k')"
  proof (intro allI)
    fix k' i
    have r: "map_of (cf_rev ?c) k' = (if k' = k then Some (cf_next c) else map_of (cf_rev c) k')"
      by (simp add: map_of_al_put)
    show "map_of (cf_rev ?c) k' = Some i \<longleftrightarrow> (\<exists>it. (i, it) \<in> set (cf_seq ?c) \<and> ci_key it = Some k')"
      unfolding found r using d(5) [of k' i] by (cases "k' = k") auto
  qed
  moreover have "distinct (map fst (cf_seq ?c))"
  proof -
    have "cf_next c \<notin> fst ` set (cf_seq c)" using d(3) by fastforce
    then show ?thesis using distinct_map_filter [OF d(2)] by (auto simp: without_key_def)
  qed
  moreover have "\<forall>k'. map_of (cf_confs ?c) k' = None \<longleftrightarrow> map_of (cf_rev ?c) k' = None"
    using d(6) by (simp add: map_of_al_put)
  moreover have "\<forall>k'\<in>fst ` set (cf_confs ?c). length k' \<le> cf_maxkeylen ?c"
    using keylen_put [OF d(7)] by simp
  moreover have "\<forall>x\<in>set (cf_seq ?c). fst x < cf_next ?c \<and> (ci_pair (snd x) \<longleftrightarrow> ci_key (snd x) \<noteq> NULL)"
  proof
    fix x assume "x \<in> set (cf_seq ?c)"
    then show "fst x < cf_next ?c \<and> (ci_pair (snd x) \<longleftrightarrow> ci_key (snd x) \<noteq> NULL)"
      unfolding seq using d(3,4) [of x] by auto
  qed
  moreover have "distinct (map fst (cf_confs ?c))" using distinct_al_put [OF d(1)] by simp
  ultimately show ?thesis unfolding cfg_inv_def by blast
qed

lemma cfg_inv_comment:
  assumes "cfg_inv c"
  shows "cfg_inv (add_item c \<lparr>ci_key = NULL, ci_comment = cm, ci_pair = False, ci_index = n\<rparr>)"
proof -
  note d = cfg_invD [OF assms]
  have "cf_next c \<notin> fst ` set (cf_seq c)" using d(3) by fastforce
  moreover have "\<forall>k i. map_of (cf_rev c) k = Some i \<longleftrightarrow>
      (\<exists>it. (i, it) \<in> set (cf_seq (add_item c \<lparr>ci_key = NULL, ci_comment = cm, ci_pair = False, ci_index = n\<rparr>)) \<and> ci_key it = Some k)"
    using d(5) by (auto simp: add_item_def)
  ultimately show ?thesis using d unfolding cfg_inv_def by (auto simp: add_item_def less_Suc_eq)
qed

lemma Set_cases:
  "map_of (cf_confs c) k \<noteq> None \<Longrightarrow> ConfigSet c k v =
     c\<lparr>cf_confs := al_put k v (cf_confs c), cf_maxkeylen := max (cf_maxkeylen c) (length k)\<rparr>"
  "cfg_inv c \<Longrightarrow> map_of (cf_confs c) k = None \<Longrightarrow> ConfigSet c k v =
     c\<lparr>cf_confs := al_put k v (cf_confs c), cf_maxkeylen := max (cf_maxkeylen c) (length k),
      cf_seq := without_key c k @ [(cf_next c, \<lparr>ci_key = Some k, ci_comment = NULL, ci_pair = True, ci_index = 0\<rparr>)],
      cf_rev := al_put k (cf_next c) (cf_rev c), cf_next := cf_next c + 1\<rparr>"
  using cfg_invD(6) [of c k] by (auto simp: ConfigSet_def Let_def without_key_def)

lemma Set_inv: "cfg_inv c \<Longrightarrow> cfg_inv (ConfigSet c k v)"
  using Set_cases(1) [of c k v] Set_cases(2) [of c k v] cfg_inv_value [of c k v] cfg_inv_new [where c = c and k = k and v = v and cm = NULL and n = 0]
  by (cases "map_of (cf_confs c) k = None") (simp_all only: simp_thms not_not)

text \<open>A line that is an entry.\<close>

lemma load_line_pair:
  assumes "StrSkipSpaces s SPACES = p" "p \<noteq> []" "hd p \<noteq> CHR ''#''"
    "NextTermBefore [CHR '' '', CHR ''='', CHR 0x09] (CHR 0x5C) None 1024 p = (name, p1)"
    "NextTermBefore [CHR ''#'', CHR 0x0A] (CHR 0x5C) None 2048 (StrSkipSpaces p1 [CHR '' '', CHR ''='', CHR 0x09]) = (val, p3)"
  shows "load_line c s = c\<lparr>cf_confs := al_put name (trimmed val) (cf_confs c), cf_maxkeylen := max (cf_maxkeylen c) (length name),
      cf_seq := without_key c name
        @ [(cf_next c, \<lparr>ci_key = Some name, ci_comment = (if p3 \<noteq> [] \<and> hd p3 = CHR ''#'' then Some (rtrimmed p3) else NULL),
             ci_pair = True, ci_index = length (without_key c name)\<rparr>)],
      cf_rev := al_put name (cf_next c) (cf_rev c), cf_next := cf_next c + 1\<rparr>"
proof (cases "map_of (cf_rev c) name")
  case None
  then have "without_key c name = cf_seq c" by (simp add: without_key_def)
  with None assms show ?thesis by (simp add: load_line_def Let_def add_item_def)
next
  case (Some i)
  then have "filter (\<lambda>x. fst x \<noteq> i) (cf_seq c) = without_key c name" by (auto simp: without_key_def intro: filter_cong)
  with Some assms show ?thesis by (simp add: load_line_def Let_def add_item_def)
qed

lemma load_line_inv: "cfg_inv c \<Longrightarrow> cfg_inv (load_line c s)"
proof -
  assume inv: "cfg_inv c"
  define p where "p = StrSkipSpaces s SPACES"
  obtain name p1 where p1: "NextTermBefore [CHR '' '', CHR ''='', CHR 0x09] (CHR 0x5C) None 1024 p = (name, p1)" by fastforce
  obtain val p3 where p3: "NextTermBefore [CHR ''#'', CHR 0x0A] (CHR 0x5C) None 2048
      (StrSkipSpaces p1 [CHR '' '', CHR ''='', CHR 0x09]) = (val, p3)" by fastforce
  show ?thesis
  proof (cases "p = [] \<or> hd p = CHR ''#''")
    case True
    then show ?thesis using cfg_inv_comment [OF inv] by (auto simp: load_line_def Let_def p_def)
  next
    case False
    then show ?thesis
      using load_line_pair [OF p_def [symmetric] _ _ p1 p3, of c] cfg_inv_new [OF inv] by simp
  qed
qed

lemma load_loop_inv: "cfg_inv c \<Longrightarrow> cfg_inv (load_loop c s f)"
proof (induction c s f rule: load_loop.induct)
  case (1 c s f)
  show ?case
  proof (cases "fgets 4096 f")
    case None
    with 1 show ?thesis by (simp add: load_loop.simps [of c s f])
  next
    case (Some lf)
    obtain l f' where lf: "lf = (l, f')" by fastforce
    obtain b s' where a: "AppendTrimmedLine s (cstr l) [CHR '' '', CHR 0x0D, CHR 0x09, CHR 0x0A] = (b, s')" by fastforce
    show ?thesis
      using 1 Some lf a load_line_inv [OF "1.prems", of s']
      by (cases b) (simp_all add: load_loop.simps [of c s f])
  qed
qed

lemma Create_inv: "cfg_inv ConfigCreateInternal"
  by (simp add: cfg_inv_def ConfigCreateInternal_def)

section \<open>Reading back what was saved\<close>

lemma rtrim_set_rtrim: "NUL \<notin> set s \<Longrightarrow> rtrim_set [CHR '' '', CHR 0x0D, CHR 0x09, CHR 0x0A] s = rtrim s"
proof -
  assume "NUL \<notin> set s"
  then have "dropWhile (strchr [CHR '' '', CHR 0x0D, CHR 0x09, CHR 0x0A]) (rev s) = dropWhile blank (rev s)"
    by (intro dropWhile_cong) (auto simp: strchr_def SPACES_def)
  then show ?thesis by (simp add: rtrim_set_def rtrim_def)
qed

lemma skip_blanks:
  "\<forall>c\<in>set w. c \<in> set spaces \<Longrightarrow> (s = [] \<or> \<not> strchr spaces (hd s)) \<Longrightarrow> StrSkipSpaces (w @ s) spaces = s"
  by (induction w; cases s) (auto simp: strchr_def)

text \<open>A term without delimiter or escape is read up to the end or to a delimiter.\<close>

lemma term_before:
  "\<forall>c\<in>set k. \<not> strchr delim c \<and> c \<noteq> esc \<Longrightarrow> length k \<le> n \<Longrightarrow> prev \<noteq> Some esc \<Longrightarrow>
    (r = [] \<or> strchr delim (hd r)) \<Longrightarrow> NextTermBefore delim esc prev n (k @ r) = (k, r)"
proof (induction k arbitrary: prev n)
  case Nil
  then show ?case by (cases r) auto
next
  case (Cons c k)
  from Cons.IH [of "n - 1" "Some c"] Cons.prems have "NextTermBefore delim esc (Some c) (n - 1) (k @ r) = (k, r)"
    by auto
  with Cons.prems show ?case by auto
qed

text \<open>Keys, values and comments that survive the file format.\<close>

definition plain_key :: "string \<Rightarrow> bool" where
  "plain_key k \<longleftrightarrow> k \<noteq> [] \<and> length k \<le> 1024 \<and> hd k \<noteq> CHR ''#'' \<and>
     (\<forall>c\<in>set k. c \<notin> {NUL, CHR ''='', CHR 0x5C} \<and> \<not> blank c)"

definition plain_value :: "string \<Rightarrow> bool" where
  "plain_value v \<longleftrightarrow> length v < 2048 \<and> trim v = v \<and> (v \<noteq> [] \<longrightarrow> hd v \<noteq> CHR ''='') \<and>
     (\<forall>c\<in>set v. c \<notin> {NUL, CHR ''#'', CHR 0x5C, CHR 0x0A})"

definition plain_comment :: "string \<Rightarrow> bool" where
  "plain_comment cm \<longleftrightarrow> cm \<noteq> [] \<and> hd cm = CHR ''#'' \<and> rtrim cm = cm \<and> List.last cm \<noteq> CHR 0x5C \<and>
     (\<forall>c\<in>set cm. c \<notin> {NUL, CHR 0x0A})"

definition plain_item :: "config \<Rightarrow> conf_item \<Rightarrow> bool" where
  "plain_item c it \<longleftrightarrow>
     (case ci_comment it of None \<Rightarrow> True | Some cm \<Rightarrow> plain_comment cm) \<and>
     (ci_pair it \<longrightarrow> plain_key (the (ci_key it)) \<and>
        (case ConfigGet c (the (ci_key it)) of None \<Rightarrow> False | Some v \<Rightarrow> plain_value v)) \<and>
     length (save_item c it) \<le> 4095"

lemma fgets_line:
  "length l < n \<Longrightarrow> CHR 0x0A \<notin> set l \<Longrightarrow> fgets_loop n (l @ CHR 0x0A # r) = (l @ [CHR 0x0A], r)"
proof (induction l arbitrary: n)
  case Nil
  then show ?case by (cases n) auto
next
  case (Cons c l)
  then show ?case by (cases n) auto
qed

lemma trim_ends: "trim v = v \<Longrightarrow> v \<noteq> [] \<Longrightarrow> \<not> blank (hd v) \<and> \<not> blank (List.last v)"
proof -
  assume v: "trim v = v" "v \<noteq> []"
  have "dropWhile blank (rtrim v) = v" using v by (simp add: trim_def)
  then have "\<not> blank (hd v)" using v(2) by (metis hd_dropWhile)
  moreover have "rtrim v = v"
    using v(1) rtrim_le [of v] length_dropWhile_le [of blank "rtrim v"] rtrim_prefix [of v]
    by (metis order_antisym take_all_iff trim_def)
  then have "dropWhile blank (rev v) = rev v" by (simp add: rtrim_def) (metis rev_swap)
  then have "\<not> blank (List.last v)" using v(2) by (metis hd_dropWhile hd_rev rev_is_Nil_conv)
  ultimately show ?thesis by simp
qed

lemma rtrim_keep: "s \<noteq> [] \<Longrightarrow> \<not> blank (List.last s) \<Longrightarrow> rtrim (u @ s) = u @ s"
  by (cases s rule: rev_cases) (auto simp: rtrim_snoc simp flip: append_assoc)

lemma rtrim_blanks: "\<forall>c\<in>set w. blank c \<Longrightarrow> rtrim (u @ w) = rtrim u"
  unfolding rtrim_def rev_append by (subst dropWhile_append2) auto

lemma append_line:
  assumes "CHR 0x0A \<notin> set b" "NUL \<notin> set b" "length b < 4095" "rtrim b = t" "t \<noteq> [] \<longrightarrow> List.last t \<noteq> CHR 0x5C"
  shows "load_loop c [] (b @ CHR 0x0A # rest) = load_loop (load_line c t) [] rest"
proof -
  have f: "fgets 4096 (b @ CHR 0x0A # rest) = Some (b @ [CHR 0x0A], rest)"
    using fgets_line [of b 4095] assms(1,3) by (simp add: fgets_def)
  have "NUL \<notin> set (b @ [CHR 0x0A])" using assms(2) by simp
  moreover have "rtrim (b @ [CHR 0x0A]) = t" using assms(4) by (simp add: rtrim_snoc SPACES_def)
  ultimately have "AppendTrimmedLine [] (cstr (b @ [CHR 0x0A])) [CHR '' '', CHR 0x0D, CHR 0x09, CHR 0x0A] = (False, t)"
    using assms(5) by (simp add: AppendTrimmedLine_def rtrim_set_rtrim)
  with f show ?thesis by (simp add: load_loop.simps [of c "[]" "b @ CHR 0x0A # rest"])
qed

definition strip :: "conf_item \<Rightarrow> bool \<times> string ptr \<times> string ptr" where
  "strip it = (ci_pair it, ci_key it, ci_comment it)"

lemma rtrim_end: "rtrim s = s \<Longrightarrow> s \<noteq> [] \<Longrightarrow> \<not> blank (List.last s)"
proof -
  assume s: "rtrim s = s" "s \<noteq> []"
  then have "dropWhile blank (rev s) = rev s" by (simp add: rtrim_def) (metis rev_swap)
  then show ?thesis using s(2) by (metis hd_dropWhile hd_rev rev_is_Nil_conv)
qed

lemma plain_commentD:
  assumes "plain_comment cm"
  shows "cm \<noteq> []" "hd cm = CHR ''#''" "rtrimmed cm = cm" "rtrim (u @ cm) = u @ cm" "List.last cm \<noteq> CHR 0x5C"
    "NUL \<notin> set cm" "CHR 0x0A \<notin> set cm"
proof -
  from assms have cm: "cm \<noteq> []" "hd cm = CHR ''#''" "rtrim cm = cm" "List.last cm \<noteq> CHR 0x5C"
      "NUL \<notin> set cm" "CHR 0x0A \<notin> set cm"
    by (auto simp: plain_comment_def)
  then show "cm \<noteq> []" "hd cm = CHR ''#''" "List.last cm \<noteq> CHR 0x5C" "NUL \<notin> set cm" "CHR 0x0A \<notin> set cm"
    by blast+
  show "rtrimmed cm = cm" using cm rtrimmed_eq [of cm] by simp
  show "rtrim (u @ cm) = u @ cm" using rtrim_keep [OF cm(1) rtrim_end [OF cm(3,1)]] .
qed

text \<open>The entry line of a plain key and value: what is left of it when the loader has trimmed it.\<close>

definition entry_tail :: "string \<Rightarrow> string ptr \<Rightarrow> string" where
  "entry_tail v cmo =
     (case cmo of Some cm \<Rightarrow> CHR '' '' # v @ CHR '' '' # cm | None \<Rightarrow> if v = [] then [] else CHR '' '' # v)"

lemma load_entry:
  assumes k: "plain_key k" and v: "plain_value v"
    and cmo: "case cmo of None \<Rightarrow> True | Some cm \<Rightarrow> plain_comment cm" and new: "map_of (cf_rev r) k = None"
  shows "load_line r (replicate n (CHR '' '') @ k @ '' ='' @ entry_tail v cmo) =
    r\<lparr>cf_confs := al_put k v (cf_confs r), cf_maxkeylen := max (cf_maxkeylen r) (length k),
      cf_seq := cf_seq r @ [(cf_next r, \<lparr>ci_key = Some k, ci_comment = cmo, ci_pair = True, ci_index = length (cf_seq r)\<rparr>)],
      cf_rev := al_put k (cf_next r) (cf_rev r), cf_next := cf_next r + 1\<rparr>"
proof -
  let ?D = "[CHR '' '', CHR ''='', CHR 0x09]" and ?V = "[CHR ''#'', CHR 0x0A]"
  let ?s = "replicate n (CHR '' '') @ k @ '' ='' @ entry_tail v cmo"
  from k have kk: "k \<noteq> []" "length k \<le> 1024" "hd k \<noteq> CHR ''#''" "\<not> strchr SPACES (hd k)"
      "\<forall>c\<in>set k. \<not> strchr ?D c \<and> c \<noteq> CHR 0x5C"
    by (auto simp: plain_key_def strchr_def SPACES_def)
  have p: "StrSkipSpaces ?s SPACES = k @ '' ='' @ entry_tail v cmo"
    using kk(1,4) by (intro skip_blanks) (auto simp: SPACES_def)
  have name: "NextTermBefore ?D (CHR 0x5C) None 1024 (k @ '' ='' @ entry_tail v cmo) = (k, '' ='' @ entry_tail v cmo)"
    using kk by (intro term_before) (auto simp: strchr_def)
  from v have vv: "length v < 2048" "trim v = v" "NUL \<notin> set v" "\<forall>c\<in>set v. \<not> strchr ?V c \<and> c \<noteq> CHR 0x5C"
      "v \<noteq> [] \<longrightarrow> hd v \<noteq> CHR ''=''"
    by (auto simp: plain_value_def strchr_def)
  have vhd: "\<not> strchr ?D (hd v)" if "v \<noteq> []"
    using trim_ends [OF vv(2) that] vv(3,5) that by (cases v) (auto simp: strchr_def SPACES_def)
  obtain x p3 where x: "StrSkipSpaces ('' ='' @ entry_tail v cmo) ?D = x @ p3" "trimmed x = v" "length x \<le> 2048"
      "\<forall>c\<in>set x. \<not> strchr ?V c \<and> c \<noteq> CHR 0x5C" "p3 = (case cmo of None \<Rightarrow> [] | Some cm \<Rightarrow> cm)"
  proof (cases cmo)
    case None
    have "StrSkipSpaces ((if v = [] then '' ='' else '' = '') @ v) ?D = v"
      using vhd by (intro skip_blanks) (auto split: if_splits)
    then have "StrSkipSpaces ('' ='' @ entry_tail v cmo) ?D = v @ []"
      by (cases "v = []") (simp_all add: entry_tail_def None)
    with that [of v "[]"] None vv trimmed_eq [OF vv(3)] show ?thesis by simp
  next
    case (Some cm)
    note c = plain_commentD [of cm]
    have pc: "plain_comment cm" using cmo Some by simp
    have chd: "\<not> strchr ?D (hd cm)" using c(2) [OF pc] by (simp add: strchr_def)
    show ?thesis
    proof (cases "v = []")
      case True
      have "StrSkipSpaces ('' =  '' @ cm) ?D = cm" using chd by (intro skip_blanks) auto
      then have "StrSkipSpaces ('' ='' @ entry_tail v cmo) ?D = [] @ cm" by (simp add: entry_tail_def True Some)
      moreover have "trimmed [] = v" using trimmed_eq [of "[]"] by (simp add: trim_def rtrim_def True)
      ultimately show ?thesis by (rule that) (simp_all add: Some)
    next
      case False
      have "StrSkipSpaces ('' = '' @ v @ CHR '' '' # cm) ?D = v @ CHR '' '' # cm"
        using vhd False by (intro skip_blanks) auto
      moreover have "trim (v @ '' '') = v"
        using vv(2) rtrim_blanks [of "'' ''" v] by (simp add: trim_def SPACES_def)
      then have tr: "trimmed (v @ '' '') = v" using trimmed_eq [of "v @ '' ''"] vv(3) by simp
      show ?thesis
      proof (rule that)
        show "StrSkipSpaces ('' ='' @ entry_tail v cmo) ?D = (v @ '' '') @ cm"
          using calculation by (simp add: entry_tail_def Some)
        show "\<forall>c\<in>set (v @ '' ''). \<not> strchr ?V c \<and> c \<noteq> CHR 0x5C" using vv(4) by (auto simp: strchr_def)
      qed (use tr vv(1) Some in simp_all)
    qed
  qed
  have val: "NextTermBefore ?V (CHR 0x5C) None 2048 (x @ p3) = (x, p3)"
    using x(3-5) cmo by (intro term_before) (auto simp: strchr_def plain_comment_def split: option.splits)
  have hdp: "k @ '' ='' @ entry_tail v cmo \<noteq> []" "hd (k @ '' ='' @ entry_tail v cmo) \<noteq> CHR ''#''" using kk by auto
  have cm: "(if p3 \<noteq> [] \<and> hd p3 = CHR ''#'' then Some (rtrimmed p3) else NULL) = cmo"
    using x(5) cmo plain_commentD(1-3) by (auto split: option.splits)
  have "without_key r k = cf_seq r" using new by (simp add: without_key_def)
  then show ?thesis
    using load_line_pair [OF p hdp name, of x p3 r] val x(1,2) cm by simp
qed

lemma saved_entry:
  assumes "plain_key k" "plain_value v" "case cmo of None \<Rightarrow> True | Some cm \<Rightarrow> plain_comment cm"
    and b: "b = replicate n (CHR '' '') @ k @ '' = '' @ v @ (case cmo of None \<Rightarrow> [] | Some cm \<Rightarrow> CHR '' '' # cm)"
    and t: "t = replicate n (CHR '' '') @ k @ '' ='' @ entry_tail v cmo"
  shows "rtrim b = t" and "t \<noteq> [] \<and> List.last t \<noteq> CHR 0x5C" and "NUL \<notin> set b" and "CHR 0x0A \<notin> set b"
proof -
  have k: "k \<noteq> []" "NUL \<notin> set k" "CHR 0x0A \<notin> set k" using assms(1) by (auto simp: plain_key_def SPACES_def)
  have v: "trim v = v" "NUL \<notin> set v" "CHR 0x0A \<notin> set v" "CHR 0x5C \<notin> set v" using assms(2) by (auto simp: plain_value_def)
  show "NUL \<notin> set b" "CHR 0x0A \<notin> set b"
    unfolding b using k v assms(3) plain_commentD(6,7) by (auto split: option.splits)
  show "rtrim b = t"
  proof (cases cmo)
    case None
    show ?thesis
    proof (cases "v = []")
      case True
      have "rtrim ((replicate n (CHR '' '') @ k @ '' ='') @ '' '') = rtrim (replicate n (CHR '' '') @ k @ '' ='')"
        by (rule rtrim_blanks) (simp add: SPACES_def)
      also have "\<dots> = replicate n (CHR '' '') @ k @ '' =''"
        using rtrim_keep [of "''=''" "replicate n (CHR '' '') @ k @ '' ''"] by (simp add: SPACES_def)
      finally show ?thesis using True None by (simp add: b t entry_tail_def)
    next
      case False
      then show ?thesis
        using rtrim_keep [OF False, of "replicate n (CHR '' '') @ k @ '' = ''"] trim_ends [OF v(1) False] None
        by (simp add: b t entry_tail_def)
    qed
  next
    case (Some cm)
    then show ?thesis
      using plain_commentD(4) [of cm "replicate n (CHR '' '') @ k @ '' = '' @ v @ '' ''"] assms(3)
      by (simp add: b t entry_tail_def)
  qed
  show "t \<noteq> [] \<and> List.last t \<noteq> CHR 0x5C"
  proof -
    have "v \<noteq> [] \<longrightarrow> List.last v \<noteq> CHR 0x5C" using v(4) last_in_set by metis
    then show ?thesis
      unfolding t using assms(3) plain_commentD(1,5) by (auto simp: entry_tail_def split: option.splits)
  qed
qed

lemma load_saved:
  assumes it: "plain_item c it" "ci_pair it \<longleftrightarrow> ci_key it \<noteq> NULL"
    and new: "\<And>k. ci_key it = Some k \<Longrightarrow> map_of (cf_rev r) k = None"
  obtains r' where "load_loop r [] (save_item c it @ rest) = load_loop r' [] rest"
    "map (\<lambda>x. strip (snd x)) (cf_seq r') = map (\<lambda>x. strip (snd x)) (cf_seq r) @ [strip it]"
    "map_of (cf_confs r') = (case ci_key it of None \<Rightarrow> map_of (cf_confs r) | Some k \<Rightarrow> (map_of (cf_confs r))(k := ConfigGet c k))"
    "\<And>k. map_of (cf_rev r') k = None \<longleftrightarrow> map_of (cf_rev r) k = None \<and> ci_key it \<noteq> Some k"
proof (cases "ci_key it")
  case None
  then have np: "\<not> ci_pair it" using it(2) by simp
  define b where "b = (case ci_comment it of None \<Rightarrow> [] | Some cm \<Rightarrow> cm)"
  have save: "save_item c it = b @ [CHR 0x0A]" using np by (auto simp: save_item_def b_def split: option.splits)
  have b: "CHR 0x0A \<notin> set b" "NUL \<notin> set b" "length b < 4095" "rtrim b = b" "b \<noteq> [] \<longrightarrow> List.last b \<noteq> CHR 0x5C"
    using it(1) save plain_commentD(5-7) plain_commentD(4) [of _ "[]"]
    by (auto simp: plain_item_def b_def rtrim_def split: option.splits)
  have "load_line r b = add_item r \<lparr>ci_key = NULL, ci_comment = ci_comment it, ci_pair = False, ci_index = 0\<rparr>"
  proof (cases "ci_comment it")
    case None
    then show ?thesis by (simp add: load_line_def b_def)
  next
    case (Some cm)
    then have cm: "plain_comment cm" using it(1) by (simp add: plain_item_def)
    have "StrSkipSpaces ([] @ cm) SPACES = cm"
      using plain_commentD(1,2) [OF cm] by (intro skip_blanks) (auto simp: strchr_def SPACES_def)
    with plain_commentD(1-3) [OF cm] show ?thesis by (simp add: load_line_def b_def Some)
  qed
  with append_line [OF b, of r rest] None np show ?thesis
    by (intro that [of "load_line r b"]) (auto simp: save add_item_def strip_def)
next
  case (Some k)
  then have p: "ci_pair it" using it(2) by simp
  obtain v where v: "ConfigGet c k = Some v" "plain_value v" "plain_key k"
    using it(1) Some p by (auto simp: plain_item_def split: option.splits)
  have cmo: "case ci_comment it of None \<Rightarrow> True | Some cm \<Rightarrow> plain_comment cm" using it(1) by (simp add: plain_item_def)
  let ?n = "cf_maxkeylen c - length k"
  define b where "b = replicate ?n (CHR '' '') @ k @ '' = '' @ v @ (case ci_comment it of None \<Rightarrow> [] | Some cm \<Rightarrow> CHR '' '' # cm)"
  have save: "save_item c it = b @ [CHR 0x0A]"
    using p Some v(1) by (simp add: save_item_def b_def pad_left_def Let_def split: option.split)
  have len: "length b < 4095" using it(1) save by (simp add: plain_item_def)
  note s = saved_entry [OF v(3,2) cmo b_def refl]
  from append_line [OF s(4,3) len s(1), of r rest] s(2)
  have "load_loop r [] (save_item c it @ rest)
      = load_loop (load_line r (replicate ?n (CHR '' '') @ k @ '' ='' @ entry_tail v (ci_comment it))) [] rest"
    by (simp add: save)
  with load_entry [OF v(3,2) cmo new [OF Some], of ?n] Some p v(1) show ?thesis
    by (intro that [of "load_line r (replicate ?n (CHR '' '') @ k @ '' ='' @ entry_tail v (ci_comment it))"])
      (auto simp: strip_def map_of_al_put)
qed

lemma load_saved_all:
  "\<forall>x\<in>set xs. plain_item c (snd x) \<and> (ci_pair (snd x) \<longleftrightarrow> ci_key (snd x) \<noteq> NULL) \<Longrightarrow>
    distinct (map fst xs) \<Longrightarrow>
    \<forall>x\<in>set xs. \<forall>y\<in>set xs. \<forall>k. ci_key (snd x) = Some k \<longrightarrow> ci_key (snd y) = Some k \<longrightarrow> fst x = fst y \<Longrightarrow>
    \<forall>x\<in>set xs. \<forall>k. ci_key (snd x) = Some k \<longrightarrow> map_of (cf_rev r) k = None \<Longrightarrow>
    \<exists>r'. load_loop r [] (concat (map (\<lambda>(_, item). save_item c item) xs)) = r' \<and>
      map (\<lambda>x. strip (snd x)) (cf_seq r') = map (\<lambda>x. strip (snd x)) (cf_seq r) @ map (\<lambda>x. strip (snd x)) xs \<and>
      (\<forall>k. map_of (cf_confs r') k = (if \<exists>x\<in>set xs. ci_key (snd x) = Some k then ConfigGet c k else map_of (cf_confs r) k))"
proof (induction xs arbitrary: r)
  case Nil
  have "load_loop r [] [] = r" by (simp add: load_loop.simps [of r "[]" "[]"] fgets_def)
  then show ?case by simp
next
  case (Cons x xs)
  obtain i it where x: "x = (i, it)" by fastforce
  have new: "map_of (cf_rev r) k = None" if "ci_key it = Some k" for k
    using Cons.prems(4) that x by simp
  obtain r1 where r1: "load_loop r [] (save_item c it @ concat (map (\<lambda>(_, item). save_item c item) xs))
        = load_loop r1 [] (concat (map (\<lambda>(_, item). save_item c item) xs))"
    "map (\<lambda>x. strip (snd x)) (cf_seq r1) = map (\<lambda>x. strip (snd x)) (cf_seq r) @ [strip it]"
    "map_of (cf_confs r1) = (case ci_key it of None \<Rightarrow> map_of (cf_confs r) | Some k \<Rightarrow> (map_of (cf_confs r))(k := ConfigGet c k))"
    "\<And>k. map_of (cf_rev r1) k = None \<longleftrightarrow> map_of (cf_rev r) k = None \<and> ci_key it \<noteq> Some k"
    by (rule load_saved [of c it r "concat (map (\<lambda>(_, item). save_item c item) xs)"])
      (use Cons.prems(1) x new in auto)
  have d: "ci_key it \<noteq> Some k" if "y \<in> set xs" "ci_key (snd y) = Some k" for y k
  proof
    assume "ci_key it = Some k"
    with Cons.prems(3) that x have "fst y = i" by (metis fst_conv list.set_intros snd_conv)
    with that(1) Cons.prems(2) x show False by (auto simp: image_iff)
  qed
  have new1: "\<forall>y\<in>set xs. \<forall>k. ci_key (snd y) = Some k \<longrightarrow> map_of (cf_rev r1) k = None"
    unfolding r1(4) using Cons.prems(4) d by simp
  have good: "\<forall>x\<in>set xs. plain_item c (snd x) \<and> (ci_pair (snd x) \<longleftrightarrow> ci_key (snd x) \<noteq> NULL)" "distinct (map fst xs)"
    using Cons.prems(1,2) by simp_all
  have same: "\<forall>x\<in>set xs. \<forall>y\<in>set xs. \<forall>k. ci_key (snd x) = Some k \<longrightarrow> ci_key (snd y) = Some k \<longrightarrow> fst x = fst y"
    using Cons.prems(3) unfolding list.set by blast
  from Cons.IH [OF good same new1] obtain r' where
    "load_loop r1 [] (concat (map (\<lambda>(_, item). save_item c item) xs)) = r'"
    "map (\<lambda>x. strip (snd x)) (cf_seq r') = map (\<lambda>x. strip (snd x)) (cf_seq r1) @ map (\<lambda>x. strip (snd x)) xs"
    "\<forall>k. map_of (cf_confs r') k = (if \<exists>x\<in>set xs. ci_key (snd x) = Some k then ConfigGet c k else map_of (cf_confs r1) k)"
    by blast
  note r' = this
  have "(if \<exists>x\<in>set xs. ci_key (snd x) = Some k then ConfigGet c k else map_of (cf_confs r1) k)
      = (if \<exists>y\<in>set (x # xs). ci_key (snd y) = Some k then ConfigGet c k else map_of (cf_confs r) k)" for k
  proof (cases "ci_key it = Some k")
    case True
    then have "map_of (cf_confs r1) k = ConfigGet c k" by (simp add: r1(3))
    moreover have "\<exists>y\<in>set (x # xs). ci_key (snd y) = Some k" using True x by simp
    ultimately show ?thesis by (simp only: if_True if_cancel)
  next
    case False
    then have "map_of (cf_confs r1) k = map_of (cf_confs r) k" by (cases "ci_key it") (simp_all add: r1(3))
    moreover have "(\<exists>y\<in>set (x # xs). ci_key (snd y) = Some k) \<longleftrightarrow> (\<exists>y\<in>set xs. ci_key (snd y) = Some k)"
      using False x by auto
    ultimately show ?thesis by (simp only:)
  qed
  then have "\<forall>k. map_of (cf_confs r') k = (if \<exists>y\<in>set (x # xs). ci_key (snd y) = Some k then ConfigGet c k else map_of (cf_confs r) k)"
    using r'(3) by (simp only:) blast
  moreover have "map (\<lambda>x. strip (snd x)) (cf_seq r') = map (\<lambda>x. strip (snd x)) (cf_seq r) @ map (\<lambda>x. strip (snd x)) (x # xs)"
    using r'(2) r1(2) by (simp add: x)
  moreover have "load_loop r [] (concat (map (\<lambda>(_, item). save_item c item) (x # xs))) = r'"
    using r'(1) r1(1) by (simp add: x)
  ultimately show ?case by blast
qed

lemma ConfigSave_Load:
  assumes inv: "cfg_inv c" and plain: "\<forall>x\<in>set (cf_seq c). plain_item c (snd x)"
  shows "map (\<lambda>x. strip (snd x)) (cf_seq (ConfigLoadInternal (ConfigSave c))) = map (\<lambda>x. strip (snd x)) (cf_seq c)"
    and "ConfigGet (ConfigLoadInternal (ConfigSave c)) k = ConfigGet c k"
proof -
  note d = cfg_invD [OF inv]
  have good: "\<forall>x\<in>set (cf_seq c). plain_item c (snd x) \<and> (ci_pair (snd x) \<longleftrightarrow> ci_key (snd x) \<noteq> NULL)"
    using plain d(4) by blast
  have found: "map_of (cf_rev c) k = Some (fst x)" if "x \<in> set (cf_seq c)" "ci_key (snd x) = Some k" for x k
    using that d(5) [of k "fst x"] by (metis prod.collapse)
  have same: "\<forall>x\<in>set (cf_seq c). \<forall>y\<in>set (cf_seq c). \<forall>k. ci_key (snd x) = Some k \<longrightarrow> ci_key (snd y) = Some k \<longrightarrow> fst x = fst y"
    using found by (metis option.inject)
  have "\<forall>x\<in>set (cf_seq c). \<forall>k. ci_key (snd x) = Some k \<longrightarrow> map_of (cf_rev ConfigCreateInternal) k = None"
    by (simp add: ConfigCreateInternal_def)
  from load_saved_all [OF good d(2) same this]
  have r: "map (\<lambda>x. strip (snd x)) (cf_seq (ConfigLoadInternal (ConfigSave c))) = map (\<lambda>x. strip (snd x)) (cf_seq c)"
    "\<forall>k. map_of (cf_confs (ConfigLoadInternal (ConfigSave c))) k =
      (if \<exists>x\<in>set (cf_seq c). ci_key (snd x) = Some k then ConfigGet c k else None)"
    by (simp_all add: ConfigLoadInternal_def ConfigSave_def ConfigCreateInternal_def)
  show "map (\<lambda>x. strip (snd x)) (cf_seq (ConfigLoadInternal (ConfigSave c))) = map (\<lambda>x. strip (snd x)) (cf_seq c)"
    by (rule r(1))
  show "ConfigGet (ConfigLoadInternal (ConfigSave c)) k = ConfigGet c k"
  proof (cases "map_of (cf_rev c) k")
    case None
    then have "map_of (cf_confs c) k = None" using d(6) by blast
    with r(2) show ?thesis by (simp add: ConfigGet_def)
  next
    case (Some i)
    then have "\<exists>x\<in>set (cf_seq c). ci_key (snd x) = Some k" using d(5) by force
    with r(2) show ?thesis by (simp add: ConfigGet_def)
  qed
qed

subsection \<open>The formatting buffers\<close>

lemma length_digits: "length (digits n) \<le> Suc k \<longleftrightarrow> n < 10 ^ Suc k"
proof (induction k arbitrary: n)
  case 0
  have "digits (n div 10) \<noteq> []" by simp
  then show ?case by (subst digits.simps) (simp add: Suc_le_eq)
next
  case (Suc k)
  show ?case
  proof (cases "n < 10")
    case True
    then have "n < 10 ^ Suc (Suc k)" using less_le_trans [of n 10 "10 ^ Suc (Suc k)"] by (simp add: self_le_power)
    with True show ?thesis by (simp add: digits.simps [of n])
  next
    case False
    have "length (digits n) \<le> Suc (Suc k) \<longleftrightarrow> n div 10 < 10 ^ Suc k"
      using False Suc.IH [of "n div 10"] by (simp add: digits.simps [of n])
    also have "\<dots> \<longleftrightarrow> n < 10 ^ Suc (Suc k)" by (simp add: div_less_iff_less_mult)
    finally show ?thesis .
  qed
qed

lemma dec_fits:
  assumes "LLONG_MIN \<le> v" "v \<le> LLONG_MAX"
  shows "20 < length (dec v) + 1 \<longleftrightarrow> v \<le> - (10 ^ 18)"
proof (cases "v < 0")
  case True
  have "length (digits (nat (- v))) \<le> Suc 17 \<longleftrightarrow> nat (- v) < 10 ^ Suc 17" by (rule length_digits)
  also have "\<dots> \<longleftrightarrow> - v < 10 ^ 18" using True by (simp add: nat_less_iff)
  finally show ?thesis using True by (auto simp: dec_def)
next
  case False
  have "nat v < 10 ^ Suc 18" using assms False by (simp add: LLONG_MAX_def nat_less_iff)
  then have "length (digits (nat v)) \<le> Suc 18" using length_digits [of "nat v" 18] by blast
  with False show ?thesis by (simp add: dec_def)
qed

section \<open>Properties\<close>

text \<open>
  C26: A configuration survives its file: loading what \<open>ConfigSave\<close> wrote gives the same sequence of
  entries and comments and the same value for every key, for configurations whose keys, values and
  comments have no byte the format gives a meaning to and whose lines fit the line buffer.
\<close>

theorem config_roundtrip:
  assumes "cfg_inv c" "\<forall>x\<in>set (cf_seq c). plain_item c (snd x)"
  shows "map (\<lambda>x. strip (snd x)) (cf_seq (ConfigLoadInternal (ConfigSave c))) = map (\<lambda>x. strip (snd x)) (cf_seq c) \<and>
    (\<forall>k. ConfigGet (ConfigLoadInternal (ConfigSave c)) k = ConfigGet c k)"
  using ConfigSave_Load [OF assms] by blast

definition sample_conf :: config where
  "sample_conf = ConfigSet (ConfigSet (load_line ConfigCreateInternal ''# top'') ''a'' ''x y'') ''long'' []"

theorem config_roundtrip_witness:
  "ConfigSave sample_conf = ''# top'' @ [CHR 0x0A] @ ''   a = x y'' @ [CHR 0x0A] @ ''long = '' @ [CHR 0x0A] \<and>
    ConfigGet (ConfigLoadInternal (ConfigSave sample_conf)) ''a'' = Some ''x y''"
proof -
  have inv: "cfg_inv sample_conf" unfolding sample_conf_def by (intro Set_inv load_line_inv Create_inv)
  have plain: "list_all (\<lambda>x. plain_item sample_conf (snd x)) (cf_seq sample_conf)" by code_simp
  have save: "ConfigSave sample_conf = ''# top'' @ [CHR 0x0A] @ ''   a = x y'' @ [CHR 0x0A] @ ''long = '' @ [CHR 0x0A]"
    by code_simp
  have get: "ConfigGet sample_conf ''a'' = Some ''x y''" by code_simp
  from config_roundtrip [OF inv] plain have "ConfigGet (ConfigLoadInternal (ConfigSave sample_conf)) ''a'' = ConfigGet sample_conf ''a''"
    by (simp add: list_all_iff)
  with save get show ?thesis by simp
qed

text \<open>
  \<open>Set\<close> and every loaded line keep the configuration consistent (one item per key, found by
  \<open>revconf\<close>, one value per key, the column at least as wide as every key); \<open>Get\<close> answers what was set.
  \<open>SetLong\<close> of a 64-bit value is read back by \<open>GetLong\<close>, except that a value of 19 digits and a sign
  does not fit its buffer of 20 bytes with the terminator: then the program writes behind it.
\<close>

theorem config_set_get:
  assumes "cfg_inv c" "LLONG_MIN \<le> n" "n \<le> LLONG_MAX"
  shows "cfg_inv (ConfigSet c key v) \<and> cfg_inv (load_line c line) \<and> cfg_inv (ConfigLoadInternal f) \<and>
    (\<forall>k. ConfigGet (ConfigSet c key v) k = (if k = key then Some v else ConfigGet c k)) \<and>
    (if n \<le> - (10 ^ 18) then ConfigSetLong c key n = Inl Out_Of_Bounds
     else \<exists>c'. ConfigSetLong c key n = Inr c' \<and> cfg_inv c' \<and> ConfigGetLong c' key = n)"
proof -
  have get: "ConfigGet (ConfigSet c key w) k = (if k = key then Some w else ConfigGet c k)" for k w
    by (simp add: ConfigGet_def ConfigSet_def Let_def map_of_al_put)
  have "if n \<le> - (10 ^ 18) then ConfigSetLong c key n = Inl Out_Of_Bounds
     else \<exists>c'. ConfigSetLong c key n = Inr c' \<and> cfg_inv c' \<and> ConfigGetLong c' key = n"
  proof (cases "20 < length (dec n) + 1")
    case True
    with dec_fits [OF assms(2,3)] show ?thesis by (simp add: ConfigSetLong_def set_formatted_def)
  next
    case False
    obtain u where "strtoll (dec n) = (n, u)" using strtoll_dec [OF assms(2,3)] by blast
    then have "ConfigGetLong (ConfigSet c key (dec n)) key = n" by (simp add: ConfigGetLong_def get)
    moreover have "ConfigSetLong c key n = Inr (ConfigSet c key (dec n))"
      using False by (simp add: ConfigSetLong_def set_formatted_def)
    moreover have "\<not> n \<le> - (10 ^ 18)" using False dec_fits [OF assms(2,3)] by blast
    ultimately show ?thesis using Set_inv [OF assms(1)] by (simp only: if_False) blast
  qed
  moreover have "cfg_inv (ConfigLoadInternal f)"
    unfolding ConfigLoadInternal_def by (intro load_loop_inv Create_inv)
  ultimately show ?thesis using get Set_inv [OF assms(1)] load_line_inv [OF assms(1)] by blast
qed

theorem config_set_get_witness:
  "ConfigSetLong ConfigCreateInternal ''k'' LLONG_MIN = Inl Out_Of_Bounds \<and>
    (\<exists>c'. ConfigSetLong ConfigCreateInternal ''k'' (-5) = Inr c' \<and> ConfigGetLong c' ''k'' = -5)"
  using config_set_get [OF Create_inv, of LLONG_MIN "''k''" "[]" "[]" "[]"]
    config_set_get [OF Create_inv, of "-5" "''k''" "[]" "[]" "[]"]
  by (auto simp: LLONG_MIN_def LLONG_MAX_def)

end
