(* ===== verification/Cmu_Pool.thy ===== *)
theory Cmu_Pool
  imports Cmu_Prelude "HOL-Library.Multiset"
begin

text \<open>
  \<open>src/src/pool.c\<close>, the resource pool: its operations as functions that run alone, and the steps
  between their critical sections as a transition system in which any number of threads take turns.
  The callbacks are parameters; they act on a world \<open>'w\<close>, which is what \<open>udata\<close> leads to. Resources
  are not NULL. The semaphore is its count; waiting with a timeout fails when the count stays 0.
  The timer that calls the ping task and the log are left out.
\<close>

section \<open>Data\<close>

record ('r, 'w) pool =
  pl_create :: "('w \<Rightarrow> 'r ptr \<times> 'w) option"
  pl_destroy :: "('r \<Rightarrow> 'w \<Rightarrow> 'w) option"
  pl_test :: "('r \<Rightarrow> 'w \<Rightarrow> bool \<times> 'w) option"
  pl_semp :: nat
  pl_avail :: "'r list"
  pl_totcnt :: nat
  pl_maxcnt :: nat
  pl_mincnt :: nat
  pl_pingintv :: int
  pl_testonb :: bool

definition pool_create_one :: "('r, 'w) pool \<Rightarrow> 'w \<Rightarrow> 'r ptr \<times> 'w" where
  "pool_create_one p w = (case pl_create p of None \<Rightarrow> (NULL, w) | Some f \<Rightarrow> f w)"

definition pool_destroy_one :: "('r, 'w) pool \<Rightarrow> 'r \<Rightarrow> 'w \<Rightarrow> 'w" where
  "pool_destroy_one p r w = (case pl_destroy p of None \<Rightarrow> w | Some f \<Rightarrow> f r w)"

definition pool_alive :: "('r, 'w) pool \<Rightarrow> 'r \<Rightarrow> 'w \<Rightarrow> bool \<times> 'w" where
  "pool_alive p r w = (case pl_test p of None \<Rightarrow> (True, w) | Some f \<Rightarrow> f r w)"

section \<open>Operations\<close>

text \<open>The test of a resource; one that fails is destroyed and replaced by a new one, if there is one.\<close>

definition pool_renew :: "('r, 'w) pool \<Rightarrow> 'r \<Rightarrow> 'w \<Rightarrow> 'r ptr \<times> 'w" where
  "pool_renew p r w =
     (case pool_alive p r w of
        (True, w1) \<Rightarrow> (Some r, w1)
      | (False, w1) \<Rightarrow> pool_create_one p (pool_destroy_one p r w1))"

text \<open>The critical sections.\<close>

definition pool_take :: "('r, 'w) pool \<Rightarrow> 'w \<Rightarrow> 'r ptr \<times> ('r, 'w) pool \<times> 'w" where
  "pool_take p w =
     (case pl_avail p of
        r # rs \<Rightarrow> (Some r, p\<lparr>pl_avail := rs\<rparr>, w)
      | [] \<Rightarrow>
          (case pool_create_one p w of
             (NULL, w1) \<Rightarrow> (NULL, p, w1)
           | (Some r, w1) \<Rightarrow> (Some r, p\<lparr>pl_totcnt := (pl_totcnt p + 1) mod 2 ^ 32\<rparr>, w1)))"

definition pool_drop :: "('r, 'w) pool \<Rightarrow> ('r, 'w) pool" where
  "pool_drop p = (if 0 < pl_totcnt p then p\<lparr>pl_totcnt := pl_totcnt p - 1\<rparr> else p)"

definition pool_put :: "('r, 'w) pool \<Rightarrow> 'r \<Rightarrow> ('r, 'w) pool" where
  "pool_put p r = p\<lparr>pl_avail := pl_avail p @ [r]\<rparr>"

definition pool_add :: "('r, 'w) pool \<Rightarrow> 'r \<Rightarrow> bool \<times> ('r, 'w) pool" where
  "pool_add p r =
     (let p1 = p\<lparr>pl_avail := pl_avail p @ [r], pl_totcnt := (pl_totcnt p + 1) mod 2 ^ 32\<rparr>
      in if pl_maxcnt p1 < pl_totcnt p1
         then (True, p1\<lparr>pl_maxcnt := (pl_maxcnt p1 + 1) mod 2 ^ 32\<rparr>) else (False, p1))"

text \<open>The semaphore.\<close>

definition sem_acquire :: "('r, 'w) pool \<Rightarrow> ('r, 'w) pool option" where
  "sem_acquire p = (if pl_semp p = 0 then None else Some (p\<lparr>pl_semp := pl_semp p - 1\<rparr>))"

definition sem_release :: "('r, 'w) pool \<Rightarrow> ('r, 'w) pool" where
  "sem_release p = p\<lparr>pl_semp := pl_semp p + 1\<rparr>"

text \<open>A whole operation, run alone: \<open>Acquire\<close> succeeds when the count is positive.\<close>

definition PoolCheckOut :: "('r, 'w) pool \<Rightarrow> 'w \<Rightarrow> 'r ptr \<times> ('r, 'w) pool \<times> 'w" where
  "PoolCheckOut p w =
     (case sem_acquire p of
        None \<Rightarrow> (NULL, p, w)
      | Some p1 \<Rightarrow>
          (case pool_take p1 w of
             (NULL, p2, w2) \<Rightarrow> (NULL, sem_release p2, w2)
           | (Some r, p2, w2) \<Rightarrow>
               if pl_testonb p2 then
                 (case pool_renew p2 r w2 of
                    (NULL, w3) \<Rightarrow> (NULL, sem_release (pool_drop p2), w3)
                  | (Some r', w3) \<Rightarrow> (Some r', p2, w3))
               else (Some r, p2, w2)))"

definition PoolRelease :: "('r, 'w) pool \<Rightarrow> 'r \<Rightarrow> ('r, 'w) pool" where
  "PoolRelease p r = sem_release (pool_put p r)"

definition PoolAddResource :: "('r, 'w) pool \<Rightarrow> 'r \<Rightarrow> ('r, 'w) pool" where
  "PoolAddResource p r = (case pool_add p r of (incmax, p1) \<Rightarrow> if incmax then sem_release p1 else p1)"

definition ping_item :: "('r, 'w) pool \<times> 'w \<Rightarrow> ('r, 'w) pool \<times> 'w" where
  "ping_item s =
     (case s of (p, w) \<Rightarrow>
        case PoolCheckOut p w of
          (NULL, p1, w1) \<Rightarrow> (p1, w1)
        | (Some r, p1, w1) \<Rightarrow>
            if \<not> pl_testonb p1 then
              (case pool_renew p1 r w1 of
                 (NULL, w2) \<Rightarrow> (sem_release (pool_drop p1), w2)
               | (Some r', w2) \<Rightarrow> (PoolRelease p1 r', w2))
            else (PoolRelease p1 r, w1))"

fun ping_loop :: "nat \<Rightarrow> ('r, 'w) pool \<times> 'w \<Rightarrow> ('r, 'w) pool \<times> 'w" where
  "ping_loop 0 s = s"
| "ping_loop (Suc n) s = ping_loop n (ping_item s)"

definition PoolPingTester :: "('r, 'w) pool \<Rightarrow> 'w \<Rightarrow> ('r, 'w) pool \<times> 'w" where
  "PoolPingTester p w = ping_loop (length (pl_avail p)) (p, w)"

fun destroy_loop :: "('r, 'w) pool \<Rightarrow> 'r list \<Rightarrow> 'w \<Rightarrow> 'w" where
  "destroy_loop p [] w = w"
| "destroy_loop p (r # rs) w = destroy_loop p rs (pool_destroy_one p r w)"

definition PoolDestroy :: "('r, 'w) pool \<Rightarrow> 'w \<Rightarrow> 'w" where
  "PoolDestroy p w = destroy_loop p (pl_avail p) w"

text \<open>The initial resources; without a factory there are none. The counts are not negative.\<close>

fun create_loop :: "nat \<Rightarrow> ('r, 'w) pool \<Rightarrow> 'w \<Rightarrow> ('r, 'w) pool \<times> 'w" where
  "create_loop 0 p w = (p, w)"
| "create_loop (Suc n) p w =
     (case pool_create_one p w of
        (NULL, w1) \<Rightarrow> create_loop n p w1
      | (Some r, w1) \<Rightarrow>
          create_loop n (p\<lparr>pl_avail := pl_avail p @ [r], pl_totcnt := (pl_totcnt p + 1) mod 2 ^ 32\<rparr>) w1)"

definition PoolCreateInternal ::
    "nat \<Rightarrow> nat \<Rightarrow> ('w \<Rightarrow> 'r ptr \<times> 'w) option \<Rightarrow> ('r \<Rightarrow> 'w \<Rightarrow> 'w) option \<Rightarrow> ('r \<Rightarrow> 'w \<Rightarrow> bool \<times> 'w) option \<Rightarrow>
     int \<Rightarrow> bool \<Rightarrow> 'w \<Rightarrow> ('r, 'w) pool \<times> 'w" where
  "PoolCreateInternal initcnt maxcnt createproc destroyproc testproc pinginterval testonborrow w =
     create_loop initcnt
       \<lparr>pl_create = createproc, pl_destroy = destroyproc, pl_test = testproc, pl_semp = maxcnt,
        pl_avail = [], pl_totcnt = 0, pl_maxcnt = (if maxcnt < initcnt then initcnt else maxcnt),
        pl_mincnt = initcnt, pl_pingintv = pinginterval, pl_testonb = testonborrow\<rparr> w"

section \<open>Threads\<close>

text \<open>
  Where a thread is inside an operation: behind \<open>Acquire\<close>, behind the critical section with or without
  a resource, before the count is taken down, before \<open>Release\<close> of the semaphore. \<open>Holding r\<close> is a
  client that was given \<open>r\<close>. \<open>sy_live\<close> are the resources that were created or added and not destroyed.
\<close>

datatype 'r phase = Entered | Taken 'r | Holding 'r | Dropping | Leaving | Returning | Boosting

record ('r, 'w) sys =
  sy_pool :: "('r, 'w) pool"
  sy_busy :: "'r phase multiset"
  sy_live :: "'r multiset"
  sy_world :: 'w

definition live_renew :: "('r, 'w) pool \<Rightarrow> 'r \<Rightarrow> 'w \<Rightarrow> 'r ptr \<Rightarrow> 'r multiset \<Rightarrow> 'r multiset" where
  "live_renew p r w res l = (if fst (pool_alive p r w) then l else l - {#r#} + mset_set (set_option res))"

inductive pool_step :: "('r, 'w) sys \<Rightarrow> ('r, 'w) sys \<Rightarrow> bool" where
  acquire: "sem_acquire p = Some p' \<Longrightarrow>
    pool_step \<lparr>sy_pool = p, sy_busy = b, sy_live = l, sy_world = w\<rparr>
      \<lparr>sy_pool = p', sy_busy = add_mset Entered b, sy_live = l, sy_world = w\<rparr>"
| take_none: "pool_take p w = (NULL, p', w') \<Longrightarrow>
    pool_step \<lparr>sy_pool = p, sy_busy = add_mset Entered b, sy_live = l, sy_world = w\<rparr>
      \<lparr>sy_pool = p', sy_busy = add_mset Leaving b, sy_live = l, sy_world = w'\<rparr>"
| take_some: "pool_take p w = (Some r, p', w') \<Longrightarrow>
    pool_step \<lparr>sy_pool = p, sy_busy = add_mset Entered b, sy_live = l, sy_world = w\<rparr>
      \<lparr>sy_pool = p', sy_busy = add_mset (Taken r) b,
       sy_live = (if pl_avail p = [] then add_mset r l else l), sy_world = w'\<rparr>"
| lend: "\<not> pl_testonb p \<Longrightarrow>
    pool_step \<lparr>sy_pool = p, sy_busy = add_mset (Taken r) b, sy_live = l, sy_world = w\<rparr>
      \<lparr>sy_pool = p, sy_busy = add_mset (Holding r) b, sy_live = l, sy_world = w\<rparr>"
| lend_tested: "pl_testonb p \<Longrightarrow> pool_renew p r w = (res, w') \<Longrightarrow>
    pool_step \<lparr>sy_pool = p, sy_busy = add_mset (Taken r) b, sy_live = l, sy_world = w\<rparr>
      \<lparr>sy_pool = p, sy_busy = add_mset (case res of None \<Rightarrow> Dropping | Some r' \<Rightarrow> Holding r') b,
       sy_live = live_renew p r w res l, sy_world = w'\<rparr>"
| ping: "\<not> pl_testonb p \<Longrightarrow> pool_renew p r w = (res, w') \<Longrightarrow>
    pool_step \<lparr>sy_pool = p, sy_busy = add_mset (Holding r) b, sy_live = l, sy_world = w\<rparr>
      \<lparr>sy_pool = p, sy_busy = add_mset (case res of None \<Rightarrow> Dropping | Some r' \<Rightarrow> Holding r') b,
       sy_live = live_renew p r w res l, sy_world = w'\<rparr>"
| drop: "pool_step \<lparr>sy_pool = p, sy_busy = add_mset Dropping b, sy_live = l, sy_world = w\<rparr>
      \<lparr>sy_pool = pool_drop p, sy_busy = add_mset Leaving b, sy_live = l, sy_world = w\<rparr>"
| put: "pool_step \<lparr>sy_pool = p, sy_busy = add_mset (Holding r) b, sy_live = l, sy_world = w\<rparr>
      \<lparr>sy_pool = pool_put p r, sy_busy = add_mset Returning b, sy_live = l, sy_world = w\<rparr>"
| add: "pl_totcnt p < 2 ^ 32 - 1 \<Longrightarrow> pool_add p r = (incmax, p') \<Longrightarrow>
    pool_step \<lparr>sy_pool = p, sy_busy = b, sy_live = l, sy_world = w\<rparr>
      \<lparr>sy_pool = p', sy_busy = (if incmax then add_mset Boosting b else b), sy_live = add_mset r l, sy_world = w\<rparr>"
| release: "ph \<in> {Leaving, Returning, Boosting} \<Longrightarrow>
    pool_step \<lparr>sy_pool = p, sy_busy = add_mset ph b, sy_live = l, sy_world = w\<rparr>
      \<lparr>sy_pool = sem_release p, sy_busy = b, sy_live = l, sy_world = w\<rparr>"


inductive_cases stepE: "pool_step S S'"

text \<open>The states that are reached from a new pool.\<close>

definition new_sys ::
    "nat \<Rightarrow> nat \<Rightarrow> ('w \<Rightarrow> 'r ptr \<times> 'w) option \<Rightarrow> ('r \<Rightarrow> 'w \<Rightarrow> 'w) option \<Rightarrow> ('r \<Rightarrow> 'w \<Rightarrow> bool \<times> 'w) option \<Rightarrow>
     int \<Rightarrow> bool \<Rightarrow> 'w \<Rightarrow> ('r, 'w) sys" where
  "new_sys initcnt maxcnt createproc destroyproc testproc pinginterval testonborrow w =
     (case PoolCreateInternal initcnt maxcnt createproc destroyproc testproc pinginterval testonborrow w of
        (p, w') \<Rightarrow> \<lparr>sy_pool = p, sy_busy = {#}, sy_live = mset (pl_avail p), sy_world = w'\<rparr>)"

section \<open>The invariant\<close>

fun ph_res :: "'r phase \<Rightarrow> 'r multiset" where
  "ph_res (Taken r) = {#r#}"
| "ph_res (Holding r) = {#r#}"
| "ph_res ph = {#}"

fun ph_count :: "'r phase \<Rightarrow> nat" where
  "ph_count (Taken r) = 1"
| "ph_count (Holding r) = 1"
| "ph_count Dropping = 1"
| "ph_count ph = 0"

text \<open>
  Every busy thread stands for one permit; every resource of \<open>totcnt\<close> is in the list, in the hands of
  a thread or about to be counted out; no live resource is lost or in two places.
\<close>

definition sys_inv :: "nat \<Rightarrow> nat \<Rightarrow> ('r, 'w) sys \<Rightarrow> bool" where
  "sys_inv sem0 max0 S \<longleftrightarrow>
     (let p = sy_pool S
      in pl_semp p + size (sy_busy S) + max0 = sem0 + pl_maxcnt p \<and>
         pl_totcnt p = length (pl_avail p) + (\<Sum>ph\<in>#sy_busy S. ph_count ph) \<and>
         sy_live S = mset (pl_avail p) + (\<Sum>ph\<in>#sy_busy S. ph_res ph) \<and>
         pl_totcnt p \<le> pl_maxcnt p \<and> max0 \<le> pl_maxcnt p \<and> pl_maxcnt p < 2 ^ 32)"

lemma ph_count_le: "ph_count ph \<le> 1"
  by (cases ph) auto

lemma counts_le: "(\<Sum>ph\<in>#b. ph_count ph) \<le> size b"
proof (induction b)
  case (add ph b)
  then show ?case using ph_count_le [of ph] by simp
qed simp

lemmas pool_ops = sem_acquire_def sem_release_def pool_drop_def pool_put_def

lemma live_renew_res:
  "pool_renew p r w = (res, w') \<Longrightarrow> live_renew p r w res (add_mset r l) = mset_set (set_option res) + l"
  by (auto simp: live_renew_def pool_renew_def split: prod.splits bool.splits)

lemma step_inv:
  assumes "pool_step S S'" "sys_inv sem0 max0 S" "sem0 \<le> max0"
  shows "sys_inv sem0 max0 S'"
  using assms
proof (cases rule: pool_step.cases)
  case (take_some p w r p' w' b l)
  show ?thesis
  proof (cases "pl_avail p")
    case Nil
    have "(\<Sum>ph\<in>#b. ph_count ph) \<le> size b" by (rule counts_le)
    then have "pl_totcnt p + 1 \<le> pl_maxcnt p" "pl_maxcnt p < 2 ^ 32"
      using assms(2,3) Nil by (auto simp: take_some(1) sys_inv_def Let_def)
    with assms(2) Nil take_some show ?thesis
      by (auto simp: sys_inv_def Let_def pool_take_def split: prod.splits option.splits)
  next
    case (Cons x xs)
    with assms(2) take_some show ?thesis
      by (auto simp: sys_inv_def Let_def pool_take_def)
  qed
next
  case (take_none p w p' w' b l)
  with assms(2) show ?thesis
    by (auto simp: sys_inv_def Let_def pool_take_def split: list.splits prod.splits option.splits)
next
  case (lend_tested p r w res w' b l)
  then show ?thesis
    using assms(2) live_renew_res [OF lend_tested(4)]
    by (auto simp: sys_inv_def Let_def split: option.splits)
next
  case (ping p r w res w' b l)
  then show ?thesis
    using assms(2) live_renew_res [OF ping(4)]
    by (auto simp: sys_inv_def Let_def split: option.splits)
next
  case (add p r incmax p' b l w)
  then show ?thesis
    using assms(2) by (auto simp: sys_inv_def Let_def pool_add_def split: if_splits)
qed (auto simp: sys_inv_def Let_def pool_ops split: if_splits)

lemma create_loop_spec:
  "create_loop n p w = (p', w') \<Longrightarrow> pl_totcnt p = length (pl_avail p) \<Longrightarrow> pl_totcnt p + n < 2 ^ 32 \<Longrightarrow>
    pl_totcnt p' = length (pl_avail p') \<and> pl_totcnt p' \<le> pl_totcnt p + n \<and> pl_semp p' = pl_semp p \<and> pl_maxcnt p' = pl_maxcnt p"
proof (induction n p w rule: create_loop.induct)
  case (2 n p w)
  obtain res w1 where r: "pool_create_one p w = (res, w1)" by fastforce
  show ?case
  proof (cases res)
    case None
    with 2 r show ?thesis by fastforce
  next
    case (Some x)
    with 2(2)[OF r [symmetric] Some] 2(3-) r show ?thesis by (auto simp: fun_eq_iff)
  qed
qed auto

lemma new_inv:
  assumes "initcnt < 2 ^ 31" "maxcnt < 2 ^ 31"
  shows "sys_inv maxcnt (max initcnt maxcnt) (new_sys initcnt maxcnt cf df tf pi tb w)"
proof -
  obtain p w' where p: "PoolCreateInternal initcnt maxcnt cf df tf pi tb w = (p, w')" by fastforce
  from create_loop_spec [OF p [unfolded PoolCreateInternal_def]] assms
  show ?thesis by (auto simp: new_sys_def p sys_inv_def Let_def split: if_splits)
qed

lemma steps_inv:
  "pool_step\<^sup>*\<^sup>* S S' \<Longrightarrow> sys_inv sem0 max0 S \<Longrightarrow> sem0 \<le> max0 \<Longrightarrow> sys_inv sem0 max0 S'"
  by (induction rule: rtranclp_induct) (auto intro: step_inv)

section \<open>The operations as steps\<close>

text \<open>A thread alone between two moments: every other thread stays where it is.\<close>

abbreviation alone :: "('r, 'w) pool \<Rightarrow> 'r phase multiset \<Rightarrow> 'r multiset \<Rightarrow> 'w \<Rightarrow> ('r, 'w) sys" where
  "alone p b l w \<equiv> \<lparr>sy_pool = p, sy_busy = b, sy_live = l, sy_world = w\<rparr>"

lemmas and_step = rtranclp.rtrancl_into_rtrancl [where r = pool_step]
  and and_steps = rtranclp_trans [where r = pool_step]

lemma release_step:
  "ph \<in> {Leaving, Returning, Boosting} \<Longrightarrow>
    pool_step\<^sup>*\<^sup>* S (alone p (add_mset ph b) l w) \<Longrightarrow> pool_step\<^sup>*\<^sup>* S (alone (sem_release p) b l w)"
  by (erule and_step) (rule pool_step.release)

lemma Release_steps:
  "pool_step\<^sup>*\<^sup>* S (alone p (add_mset (Holding r) b) l w) \<Longrightarrow> pool_step\<^sup>*\<^sup>* S (alone (PoolRelease p r) b l w)"
  unfolding PoolRelease_def by (rule release_step [of Returning], simp, erule and_step, rule pool_step.put)

lemma drop_steps:
  "pool_step\<^sup>*\<^sup>* S (alone p (add_mset Dropping b) l w) \<Longrightarrow> pool_step\<^sup>*\<^sup>* S (alone (sem_release (pool_drop p)) b l w)"
  by (rule release_step [of Leaving], simp, erule and_step, rule pool_step.drop)

lemma CheckOut_steps:
  assumes "PoolCheckOut p w = (res, p', w')"
  shows "\<exists>l'. pool_step\<^sup>*\<^sup>* (alone p b l w)
    (alone p' (case res of None \<Rightarrow> b | Some r \<Rightarrow> add_mset (Holding r) b) l' w')"
proof (cases "sem_acquire p")
  case None
  with assms show ?thesis by (auto simp: PoolCheckOut_def)
next
  case (Some p1)
  have e: "pool_step\<^sup>*\<^sup>* (alone p b l w) (alone p1 (add_mset Entered b) l w)"
    using pool_step.acquire [OF Some] by (rule r_into_rtranclp)
  obtain t p2 w2 where t: "pool_take p1 w = (t, p2, w2)" using prod_cases3 by blast
  show ?thesis
  proof (cases t)
    case None
    from release_step [OF _ and_step [OF e pool_step.take_none [OF t [unfolded None]]]]
    show ?thesis using assms Some t None by (auto simp: PoolCheckOut_def)
  next
    case (Some r)
    note taken = and_step [OF e pool_step.take_some [OF t [unfolded Some]]]
    show ?thesis
    proof (cases "pl_testonb p2")
      case False
      from and_step [OF taken pool_step.lend [OF False]] show ?thesis
        using False assms t Some \<open>sem_acquire p = Some p1\<close> by (auto simp: PoolCheckOut_def)
    next
      case True
      obtain u w3 where u: "pool_renew p2 r w2 = (u, w3)" by fastforce
      note lent = and_step [OF taken pool_step.lend_tested [OF True u]]
      show ?thesis
      proof (cases u)
        case None
        from drop_steps [OF lent [unfolded None option.case]]
        show ?thesis using True None u assms t Some \<open>sem_acquire p = Some p1\<close> by (auto simp: PoolCheckOut_def)
      next
        case (Some r')
        from lent [unfolded Some option.case] show ?thesis
          using True Some u assms t \<open>t = Some r\<close> \<open>sem_acquire p = Some p1\<close> by (auto simp: PoolCheckOut_def)
      qed
    qed
  qed
qed

lemma AddResource_steps:
  assumes "pl_totcnt p < 2 ^ 32 - 1"
  shows "pool_step\<^sup>*\<^sup>* (alone p b l w) (alone (PoolAddResource p r) b (add_mset r l) w)"
proof -
  obtain inc p1 where a: "pool_add p r = (inc, p1)" by fastforce
  have s: "pool_step\<^sup>*\<^sup>* (alone p b l w) (alone p1 (if inc then add_mset Boosting b else b) (add_mset r l) w)"
    using pool_step.add [OF assms a] by (rule r_into_rtranclp)
  then show ?thesis
    using release_step [of Boosting "alone p b l w" p1 b] a by (cases inc) (auto simp: PoolAddResource_def)
qed

lemma ping_item_steps:
  assumes "ping_item (p, w) = (p', w')"
  shows "\<exists>l'. pool_step\<^sup>*\<^sup>* (alone p b l w) (alone p' b l' w')"
proof -
  obtain res p1 w1 where c: "PoolCheckOut p w = (res, p1, w1)" using prod_cases3 by blast
  from CheckOut_steps [OF c, of b l] obtain l1 where
    s: "pool_step\<^sup>*\<^sup>* (alone p b l w) (alone p1 (case res of None \<Rightarrow> b | Some r \<Rightarrow> add_mset (Holding r) b) l1 w1)"
    by blast
  show ?thesis
  proof (cases res)
    case None
    with s c assms show ?thesis by (auto simp: ping_item_def)
  next
    case (Some r)
    note s = s [unfolded Some option.case]
    show ?thesis
    proof (cases "pl_testonb p1")
      case True
      with Release_steps [OF s] c assms Some show ?thesis by (auto simp: ping_item_def)
    next
      case False
      obtain u w2 where u: "pool_renew p1 r w1 = (u, w2)" by fastforce
      note s = and_step [OF s pool_step.ping [OF False u]]
      show ?thesis
      proof (cases u)
        case None
        with drop_steps [OF s [unfolded None option.case]] False u c assms Some
        show ?thesis by (auto simp: ping_item_def)
      next
        case (Some r')
        with Release_steps [OF s [unfolded Some option.case]] False u c assms \<open>res = Some r\<close>
        show ?thesis by (auto simp: ping_item_def)
      qed
    qed
  qed
qed

lemma ping_loop_steps:
  "ping_loop n (p, w) = (p', w') \<Longrightarrow> \<exists>l'. pool_step\<^sup>*\<^sup>* (alone p b l w) (alone p' b l' w')"
proof (induction n arbitrary: p w l)
  case (Suc n)
  obtain p1 w1 where i: "ping_item (p, w) = (p1, w1)" by fastforce
  from ping_item_steps [OF i, of b l] obtain l1 where s: "pool_step\<^sup>*\<^sup>* (alone p b l w) (alone p1 b l1 w1)" by blast
  from Suc.IH [of p1 w1 l1] Suc.prems i obtain l' where "pool_step\<^sup>*\<^sup>* (alone p1 b l1 w1) (alone p' b l' w')" by auto
  with s show ?case using and_steps by blast
qed auto

section \<open>The ping task\<close>

fun renew_all :: "('r, 'w) pool \<Rightarrow> 'r list \<Rightarrow> 'w \<Rightarrow> 'r list \<times> 'w" where
  "renew_all p [] w = ([], w)"
| "renew_all p (r # rs) w =
     (case pool_renew p r w of
        (res, w1) \<Rightarrow> case renew_all p rs w1 of (qs, w2) \<Rightarrow> (case res of None \<Rightarrow> qs | Some r' \<Rightarrow> r' # qs, w2))"

lemma renew_cong [simp]:
  "pool_renew (p\<lparr>pl_avail := a, pl_totcnt := t\<rparr>) r w = pool_renew p r w"
  "pool_renew (p\<lparr>pl_semp := s\<rparr>) r w = pool_renew p r w"
  "pool_renew (p\<lparr>pl_avail := a\<rparr>) r w = pool_renew p r w"
  "pool_renew (p\<lparr>pl_totcnt := t\<rparr>) r w = pool_renew p r w"
  by (simp_all add: pool_renew_def pool_alive_def pool_create_one_def pool_destroy_one_def cong: prod.case_cong bool.case_cong)

lemma renew_all_cong [simp]:
  "renew_all (p\<lparr>pl_avail := a, pl_totcnt := t\<rparr>) rs w = renew_all p rs w"
  "renew_all (p\<lparr>pl_avail := a\<rparr>) rs w = renew_all p rs w"
  by (induction rs arbitrary: w) simp_all

lemma renew_all_length: "renew_all p rs w = (qs, w') \<Longrightarrow> length qs \<le> length rs"
proof (induction p rs w arbitrary: qs w' rule: renew_all.induct)
  case (2 p r rs w)
  obtain res w1 where r: "pool_renew p r w = (res, w1)" by fastforce
  obtain q w2 where q: "renew_all p rs w1 = (q, w2)" by fastforce
  from 2(1) [OF r [symmetric] q] 2(2) r q show ?case by (cases res) auto
qed simp

lemma ping_item_Cons:
  assumes "pl_avail p = r # rs" "0 < pl_semp p" "0 < pl_totcnt p" "pool_renew p r w = (res, w1)"
  shows "ping_item (p, w) = (case res of
      None \<Rightarrow> (p\<lparr>pl_avail := rs, pl_totcnt := pl_totcnt p - 1\<rparr>, w1)
    | Some r' \<Rightarrow> (p\<lparr>pl_avail := rs @ [r']\<rparr>, w1))"
  using assms
  by (cases "pl_testonb p"; cases res)
    (simp_all add: ping_item_def PoolCheckOut_def PoolRelease_def pool_take_def pool_ops)

lemma ping_loop_spec:
  "pl_avail p = rs @ seen \<Longrightarrow> 0 < pl_semp p \<Longrightarrow> length (pl_avail p) \<le> pl_totcnt p \<Longrightarrow>
    renew_all p rs w = (qs, w') \<Longrightarrow>
    ping_loop (length rs) (p, w) =
      (p\<lparr>pl_avail := seen @ qs, pl_totcnt := pl_totcnt p - (length rs - length qs)\<rparr>, w')"
proof (induction rs arbitrary: p seen w qs w')
  case Nil
  then show ?case by simp
next
  case (Cons r rs)
  obtain res w1 where r: "pool_renew p r w = (res, w1)" by fastforce
  obtain q w2 where q: "renew_all p rs w1 = (q, w2)" by fastforce
  note item = ping_item_Cons [of p r "rs @ seen" w res w1]
  show ?case
  proof (cases res)
    case None
    let ?p = "p\<lparr>pl_avail := rs @ seen, pl_totcnt := pl_totcnt p - 1\<rparr>"
    have "ping_loop (length rs) (?p, w1)
        = (?p\<lparr>pl_avail := seen @ q, pl_totcnt := pl_totcnt ?p - (length rs - length q)\<rparr>, w2)"
      by (rule Cons.IH) (use Cons.prems q in auto)
    with item Cons.prems r q None renew_all_length [OF q] show ?thesis by (auto simp: Suc_diff_le)
  next
    case (Some r')
    let ?p = "p\<lparr>pl_avail := rs @ seen @ [r']\<rparr>"
    have "ping_loop (length rs) (?p, w1)
        = (?p\<lparr>pl_avail := (seen @ [r']) @ q, pl_totcnt := pl_totcnt ?p - (length rs - length q)\<rparr>, w2)"
      by (rule Cons.IH) (use Cons.prems q in auto)
    with item Cons.prems r q Some show ?thesis by auto
  qed
qed


lemma ping_loop_stuck: "pl_semp p = 0 \<Longrightarrow> ping_loop n (p, w) = (p, w)"
  by (induction n) (simp_all add: ping_item_def PoolCheckOut_def sem_acquire_def)

section \<open>Properties\<close>

text \<open>
  C27: However the threads take turns, the pool's books balance: every permit of the semaphore is free
  or with a thread that is inside an operation or holds a resource; \<open>totcnt\<close> counts the idle resources,
  the lent ones and those about to be counted out, and never exceeds \<open>maxcnt\<close>; every live resource is in
  exactly one place. When nothing is lent, the free permits are the number given to the constructor
  plus what \<open>AddResource\<close> added, even if more resources than that were created at the start.
\<close>

theorem pool_accounting:
  assumes "initcnt < 2 ^ 31" "maxcnt < 2 ^ 31"
    and "pool_step\<^sup>*\<^sup>* (new_sys initcnt maxcnt createproc destroyproc testproc pinginterval testonborrow w) S"
  shows "pl_semp (sy_pool S) + size (sy_busy S) = maxcnt + (pl_maxcnt (sy_pool S) - max initcnt maxcnt) \<and>
    pl_totcnt (sy_pool S) = length (pl_avail (sy_pool S)) + (\<Sum>ph\<in>#sy_busy S. ph_count ph) \<and>
    pl_totcnt (sy_pool S) \<le> pl_maxcnt (sy_pool S) \<and>
    sy_live S = mset (pl_avail (sy_pool S)) + (\<Sum>ph\<in>#sy_busy S. ph_res ph) \<and>
    (sy_busy S = {#} \<longrightarrow>
       pl_semp (sy_pool S) = maxcnt + (pl_maxcnt (sy_pool S) - max initcnt maxcnt) \<and>
       pl_totcnt (sy_pool S) = length (pl_avail (sy_pool S)))"
proof -
  have inv: "sys_inv maxcnt (max initcnt maxcnt) S"
    using steps_inv [OF assms(3) new_inv [OF assms(1,2)]] by simp
  then show ?thesis by (auto simp: sys_inv_def Let_def)
qed

definition counting :: "(nat \<Rightarrow> nat ptr \<times> nat) option" where
  "counting = Some (\<lambda>w. (Some w, Suc w))"

theorem pool_accounting_witness:
  "\<exists>S. pool_step\<^sup>*\<^sup>* (new_sys 1 2 counting NULL NULL 0 False 0) S \<and> sy_busy S = {#Holding 0#} \<and>
    pl_semp (sy_pool S) + 1 = 2 + (pl_maxcnt (sy_pool S) - 2)"
proof -
  define p where "p = fst (PoolCreateInternal 1 2 counting NULL NULL 0 False (0::nat) :: (nat, nat) pool \<times> nat)"
  have n: "new_sys 1 2 counting NULL NULL 0 False 0 = alone p {#} (mset (pl_avail p)) 1"
    by (simp add: p_def new_sys_def PoolCreateInternal_def pool_create_one_def counting_def)
  have "PoolCheckOut p 1 = (Some 0, p\<lparr>pl_semp := 1, pl_avail := []\<rparr>, 1)"
    by (simp add: p_def PoolCreateInternal_def pool_create_one_def counting_def PoolCheckOut_def sem_acquire_def pool_take_def)
  from CheckOut_steps [OF this, of "{#}" "mset (pl_avail p)"] obtain l where
    s: "pool_step\<^sup>*\<^sup>* (new_sys 1 2 counting NULL NULL 0 False 0) (alone (p\<lparr>pl_semp := 1, pl_avail := []\<rparr>) {#Holding 0#} l 1)"
    unfolding n by auto
  from pool_accounting [OF _ _ this] s show ?thesis by (intro exI conjI) (assumption, simp_all)
qed

text \<open>
  C28: Each operation run alone, with any number of other threads between two of their steps, is a
  sequence of steps of the transition system: \<open>CheckOut\<close> ends with the resource lent, or with nothing
  taken; \<open>Release\<close> takes back what was lent; \<open>AddResource\<close> adds; the ping task ends with nothing taken.
\<close>

theorem pool_operations_step:
  "(case PoolCheckOut p w of (res, p', w') \<Rightarrow> \<exists>l'. pool_step\<^sup>*\<^sup>* (alone p b l w)
      (alone p' (case res of None \<Rightarrow> b | Some r \<Rightarrow> add_mset (Holding r) b) l' w')) \<and>
    pool_step\<^sup>*\<^sup>* (alone p (add_mset (Holding r) b) l w) (alone (PoolRelease p r) b l w) \<and>
    (pl_totcnt p < 2 ^ 32 - 1 \<longrightarrow>
      pool_step\<^sup>*\<^sup>* (alone p b l w) (alone (PoolAddResource p r) b (add_mset r l) w)) \<and>
    (case PoolPingTester p w of (p', w') \<Rightarrow> \<exists>l'. pool_step\<^sup>*\<^sup>* (alone p b l w) (alone p' b l' w'))"
proof -
  obtain res p1 w1 where c: "PoolCheckOut p w = (res, p1, w1)" using prod_cases3 by blast
  obtain p2 w2 where t: "PoolPingTester p w = (p2, w2)" by fastforce
  show ?thesis
    using CheckOut_steps [OF c] Release_steps [OF rtranclp.rtrancl_refl] AddResource_steps [of p]
      ping_loop_steps [OF t [unfolded PoolPingTester_def]] c t by auto
qed

theorem pool_operations_step_witness:
  "pool_step\<^sup>*\<^sup>* (new_sys 0 0 NULL NULL NULL 0 False ())
    (alone (PoolAddResource (sy_pool (new_sys 0 0 NULL NULL NULL 0 False ())) (7::nat)) {#} {#7#} ())"
  using pool_operations_step [where p = "sy_pool (new_sys 0 0 NULL NULL NULL 0 False ())" and w = "()" and
      b = "{#}" and l = "{#}" and r = "7::nat"]
  by (simp add: new_sys_def PoolCreateInternal_def)

text \<open>
  The ping task looks at every idle resource once, in order, whether or not the pool tests on
  borrow: those that pass stay, the others are destroyed and replaced where the factory can, \<open>totcnt\<close>
  goes down by the ones that were not, and every permit is given back. Without a free permit it does
  nothing.
\<close>

theorem pool_ping:
  "(pl_semp p = 0 \<longrightarrow> PoolPingTester p w = (p, w)) \<and>
    (0 < pl_semp p \<and> length (pl_avail p) \<le> pl_totcnt p \<longrightarrow>
      PoolPingTester p w =
        (case renew_all p (pl_avail p) w of
           (qs, w') \<Rightarrow> (p\<lparr>pl_avail := qs, pl_totcnt := pl_totcnt p - (length (pl_avail p) - length qs)\<rparr>, w')))"
  using ping_loop_stuck [of p] ping_loop_spec [of p "pl_avail p" "[]" w]
  by (auto simp: PoolPingTester_def split: prod.splits)

theorem pool_ping_witness:
  "PoolPingTester \<lparr>pl_create = NULL, pl_destroy = NULL, pl_test = Some (\<lambda>r w. (even r, w @ [r])), pl_semp = 2,
      pl_avail = [3, 4, 5], pl_totcnt = 3, pl_maxcnt = 3, pl_mincnt = 0, pl_pingintv = 0, pl_testonb = False\<rparr> [] =
    (\<lparr>pl_create = NULL, pl_destroy = NULL, pl_test = Some (\<lambda>r w. (even r, w @ [r])), pl_semp = 2,
      pl_avail = [4], pl_totcnt = 1, pl_maxcnt = 3, pl_mincnt = 0, pl_pingintv = 0, pl_testonb = False\<rparr>, [3, 4, 5 :: nat])"
  by (subst pool_ping [THEN conjunct2, rule_format])
    (simp_all add: pool_renew_def pool_alive_def pool_create_one_def pool_destroy_one_def)

end
