(* ===== verification/Cmu_Xml.thy ===== *)
theory Cmu_Xml
  imports Cmu_JsonParse
begin

text \<open>
  \<open>src/src/nanoxml.c\<close>: nodes, the printer, the parser and the conversion to JSON. A node is a tree
  value: its parent is the node it is a child of, its destruction and its user data are left out. A
  string is its bytes (memory granted); \<open>cstr\<close> where the code reads up to the terminator. The parser
  reads \<open>remain\<close> bytes from \<open>pos\<close>: the list of them. The conversion to UTF-8 (iconv) is a parameter.
  The mutually recursive functions run on fuel; \<open>xml_parse_total\<close> shows that it is enough.
\<close>

section \<open>Nodes\<close>

datatype xkind = XmlNodeUnknown | XmlNodeText | XmlNodeTag

datatype xml = XNode xkind string "(string \<times> string) list" "xml list"

text \<open>
  The constructor: without a name the string refuses to be created, and the name is added to NULL.
\<close>

definition XmlNodeCreateWithLenInternal :: "xkind \<Rightarrow> string \<Rightarrow> nat \<Rightarrow> fault + xml" where
  "XmlNodeCreateWithLenInternal kind tagname namelen =
     (case StringCreateInternal (\<lambda>_. True) namelen NULL of
        None \<Rightarrow> Inl Null_Deref
      | Some s \<Rightarrow> Inr (XNode kind (content (snd (StringAddNString (\<lambda>_. True) s (Some tagname) namelen))) [] []))"

definition XmlNodeCreateInternal :: "xkind \<Rightarrow> string \<Rightarrow> fault + xml" where
  "XmlNodeCreateInternal kind tagname = XmlNodeCreateWithLenInternal kind tagname (length tagname)"

fun XmlGetAttributeNames :: "xml \<Rightarrow> string list" where
  "XmlGetAttributeNames (XNode k n as cs) = map fst as"

fun XmlGetAttribute :: "xml \<Rightarrow> string \<Rightarrow> string ptr" where
  "XmlGetAttribute (XNode k n as cs) key = map_of as key"

fun XmlSetAttribute :: "xml \<Rightarrow> string \<Rightarrow> string \<Rightarrow> xml" where
  "XmlSetAttribute (XNode k n as cs) key val = XNode k n (al_put key val as) cs"

fun XmlChildCount :: "xml \<Rightarrow> nat" where
  "XmlChildCount (XNode k n as cs) = length cs"

fun XmlAddChild :: "xml \<Rightarrow> xml \<Rightarrow> xml" where
  "XmlAddChild (XNode k n as cs) c = XNode k n as (cs @ [c])"

fun XmlChildAt :: "xml \<Rightarrow> nat \<Rightarrow> xml ptr" where
  "XmlChildAt (XNode k n as cs) i = (if i < length cs then Some (cs ! i) else NULL)"

fun XmlGetName :: "xml \<Rightarrow> string" where
  "XmlGetName (XNode k n as cs) = cstr n"

fun XmlSetName :: "xml \<Rightarrow> string \<Rightarrow> xml" where
  "XmlSetName (XNode k n as cs) name = XNode k name as cs"

fun XmlGetType :: "xml \<Rightarrow> xkind" where
  "XmlGetType (XNode k n as cs) = k"

section \<open>Printing\<close>

text \<open>One byte of \<open>CMUTIL_XmlEscape\<close>, by its two tables.\<close>

definition xml_escape_byte :: "char \<Rightarrow> string" where
  "xml_escape_byte c =
     (if c = CHR 0x22 then ''&quot;''
      else if c = CHR ''&'' then ''&amp;''
      else if c = CHR 0x27 then ''&apos;''
      else if c = CHR ''<'' then ''&lt;''
      else if c = CHR ''>'' then ''&gt;''
      else [c])"

definition XmlEscape :: "string \<Rightarrow> string" where
  "XmlEscape src = concat (map xml_escape_byte (cstr src))"

definition XmlBuildAttribute :: "(string \<times> string) list \<Rightarrow> string" where
  "XmlBuildAttribute as =
     concat (map (\<lambda>(k, v). CHR '' '' # k @ [CHR ''='', CHR 0x22] @ XmlEscape v @ [CHR 0x22]) as)"

definition LINE_END :: string where
  "LINE_END = [CHR 0x0D, CHR 0x0A]"

definition indent4 :: "nat \<Rightarrow> string" where
  "indent4 depth = concat (replicate depth ''    '')"

fun XmlToDocumentPrivate :: "xml \<Rightarrow> bool \<Rightarrow> nat \<Rightarrow> string" where
  "XmlToDocumentPrivate (XNode kind name as cs) beutify depth =
     (case kind of
        XmlNodeText \<Rightarrow> indent4 depth @ XmlEscape name
      | XmlNodeTag \<Rightarrow>
          indent4 depth @ CHR ''<'' # name @ XmlBuildAttribute as @
          (if cs \<noteq> [] then
             CHR ''>'' # LINE_END @
             concat (map (\<lambda>c. XmlToDocumentPrivate c beutify (depth + 1) @ LINE_END) cs) @
             replicate depth (CHR 0x09) @ ''</'' @ name @ ''>''
           else ''/>'')
      | XmlNodeUnknown \<Rightarrow> [])"

definition XML_HEADER :: string where
  "XML_HEADER = ''<?xml version='' @ [CHR 0x22] @ ''1.0'' @ [CHR 0x22] @ '' encoding='' @ [CHR 0x22] @ ''UTF-8'' @
     [CHR 0x22] @ ''?>'' @ [CHR 0x0D, CHR 0x0A]"

definition XmlToDocument :: "xml \<Rightarrow> bool \<Rightarrow> string" where
  "XmlToDocument node beutify = XML_HEADER @ XmlToDocumentPrivate node beutify 0"

section \<open>Reading characters\<close>

definition xml_spaces :: string where
  "xml_spaces = [CHR '' '', CHR 0x09, CHR 0x0D, CHR 0x0A]"

definition xml_delims :: string where
  "xml_delims = [CHR '' '', CHR 0x09, CHR 0x0D, CHR 0x0A, CHR ''<'', CHR ''>'', CHR ''&'', CHR ''='', CHR ''/'', CHR 0x22, CHR 0x27]"

definition XML_MAX_DEPTH :: nat where
  "XML_MAX_DEPTH = 256"

definition XmlAppendUTF8 :: "nat \<Rightarrow> string" where
  "XmlAppendUTF8 cp =
     (if cp < 0x80 then [char_of cp]
      else if cp < 0x800 then [char_of (0xC0 + cp div 64), char_of (0x80 + cp mod 64)]
      else if cp < 0x10000 then
        [char_of (0xE0 + cp div 4096), char_of (0x80 + cp div 64 mod 64), char_of (0x80 + cp mod 64)]
      else [char_of (0xF0 + cp div 262144), char_of (0x80 + cp div 4096 mod 64),
        char_of (0x80 + cp div 64 mod 64), char_of (0x80 + cp mod 64)])"

text \<open>\<open>memchr\<close>, as the bytes before the first \<open>c\<close> and those behind it.\<close>

fun XmlFindChar :: "string \<Rightarrow> char \<Rightarrow> (string \<times> string) option" where
  "XmlFindChar [] c = None"
| "XmlFindChar (x # xs) c = (if x = c then Some ([], xs) else map_option (apfst (Cons x)) (XmlFindChar xs c))"

definition XmlFindStr :: "string \<Rightarrow> string \<Rightarrow> nat option" where
  "XmlFindStr s needle = strstr s needle"

definition XmlSkipSpaces :: "string \<Rightarrow> string" where
  "XmlSkipSpaces s = dropWhile (\<lambda>c. c \<noteq> NUL \<and> strchr xml_spaces c) s"

definition XmlNextSub :: "string \<Rightarrow> nat \<Rightarrow> string option" where
  "XmlNextSub s len = (if len \<le> length s then Some (drop len s) else None)"

text \<open>\<open>CMUTIL_XmlNextToken\<close> into a buffer of \<open>bufsz\<close> bytes, terminator included.\<close>

definition XmlNextToken :: "nat \<Rightarrow> string \<Rightarrow> (string \<times> string) option" where
  "XmlNextToken bufsz s =
     (let t = takeWhile (\<lambda>c. c \<noteq> NUL \<and> \<not> strchr xml_delims c) s
      in if bufsz \<le> length t then None else Some (t, drop (length t) s))"

definition XmlStartsWith :: "string \<Rightarrow> string \<Rightarrow> bool" where
  "XmlStartsWith a b = prefixb b a"

section \<open>Entities\<close>

text \<open>\<open>strtoul(s, &end, base)\<close> for base 10 and 16: the value and the rest at \<open>end\<close>.\<close>

definition digit_value :: "nat \<Rightarrow> char \<Rightarrow> nat option" where
  "digit_value base c =
     (let n = nat (code c);
          d = (if 48 \<le> n \<and> n \<le> 57 then n - 48
               else if 97 \<le> n \<and> n \<le> 122 then n - 87
               else if 65 \<le> n \<and> n \<le> 90 then n - 55
               else 36)
      in if d < base then Some d else None)"

definition strtoul :: "nat \<Rightarrow> string \<Rightarrow> nat \<times> string" where
  "strtoul base s =
     (let r = dropWhile isspace s;
          neg = (r \<noteq> [] \<and> hd r = CHR ''-'');
          r1 = (if r \<noteq> [] \<and> (hd r = CHR ''-'' \<or> hd r = CHR ''+'') then tl r else r);
          r2 = (case r1 of
                  z # x # d # _ \<Rightarrow>
                    if base = 16 \<and> z = CHR ''0'' \<and> (x = CHR ''x'' \<or> x = CHR ''X'') \<and> digit_value 16 d \<noteq> None
                    then drop 2 r1 else r1
                | _ \<Rightarrow> r1);
          ds = takeWhile (\<lambda>c. digit_value base c \<noteq> None) r2;
          n = foldl (\<lambda>n c. n * base + the (digit_value base c)) 0 ds
      in if ds = [] then (0, s)
         else ((if 2 ^ 64 \<le> n then 2 ^ 64 - 1 else if neg then (2 ^ 64 - n) mod 2 ^ 64 else n), drop (length ds) r2))"

definition xml_escapes :: "(string \<times> string) list" where
  "xml_escapes = [(''quot'', [CHR 0x22]), (''amp'', ''&''), (''apos'', [CHR 0x27]), (''lt'', ''<''), (''gt'', ''>'')]"

text \<open>What the reference \<open>&key;\<close> adds.\<close>

definition xml_entity :: "string \<Rightarrow> string option" where
  "xml_entity key =
     (if key \<noteq> [] \<and> hd key = CHR ''#'' then
        (let k1 = tl key;
             hex = (k1 \<noteq> [] \<and> (hd k1 = CHR ''x'' \<or> hd k1 = CHR ''X''));
             ds = (if hex then tl k1 else k1);
             (cp, rest) = strtoul (if hex then 16 else 10) ds
         in if rest = ds \<or> rest \<noteq> [] \<or> cp = 0 \<or> 0x10FFFF < cp then None else Some (XmlAppendUTF8 cp))
      else map_of xml_escapes key)"

text \<open>\<open>strchr(p, c)\<close>: the search ends at the terminator.\<close>

fun split_at :: "char \<Rightarrow> string \<Rightarrow> (string \<times> string) option" where
  "split_at c [] = None"
| "split_at c (x # xs) =
     (if x = c then Some ([], xs) else if x = NUL then None else map_option (apfst (Cons x)) (split_at c xs))"

lemma split_at_shorter: "split_at c s = Some (a, b) \<Longrightarrow> length b < length s"
  by (induction s arbitrary: a) (fastforce split: if_splits)+

text \<open>The loop of \<open>CMUTIL_XmlUnescape\<close>; \<open>p\<close> are the bytes of the source that are left.\<close>

function unescape_loop :: "string \<Rightarrow> string \<Rightarrow> string option" where
  "unescape_loop dest p =
     (case split_at (CHR ''&'') p of
        None \<Rightarrow> Some (if cstr p = [] then dest else dest @ p)
      | Some (pre, q) \<Rightarrow>
          (case split_at (CHR '';'') q of
             None \<Rightarrow> None
           | Some (key, r) \<Rightarrow>
               if length key + 1 < 20 then
                 (case xml_entity key of
                    None \<Rightarrow> None
                  | Some v \<Rightarrow> unescape_loop (dest @ pre @ v) r)
               else None))"
  by pat_completeness auto
termination
  by (relation "measure (\<lambda>(d, p). length p)") (auto dest!: split_at_shorter)

declare unescape_loop.simps [simp del]

type_synonym charset = "(string \<Rightarrow> string option) option"

definition XmlApplyCharset :: "charset \<Rightarrow> string \<Rightarrow> string" where
  "XmlApplyCharset conv dest =
     (case conv of None \<Rightarrow> dest | Some f \<Rightarrow> (case f dest of None \<Rightarrow> dest | Some d \<Rightarrow> d))"

definition XmlUnescape :: "charset \<Rightarrow> string \<Rightarrow> string option" where
  "XmlUnescape conv src = map_option (XmlApplyCharset conv) (unescape_loop [] src)"

section \<open>The header\<close>

lemma NextToken_shorter: "XmlNextToken n s = Some (t, r) \<Longrightarrow> length r \<le> length s"
  by (auto simp: XmlNextToken_def Let_def split: if_splits)

lemma NextSub_shorter: "XmlNextSub s n = Some r \<Longrightarrow> length r + n = length s"
  by (auto simp: XmlNextSub_def split: if_splits)

lemma FindChar_split: "XmlFindChar s c = Some (a, b) \<Longrightarrow> s = a @ c # b \<and> c \<notin> set a"
  by (induction s arbitrary: a) (auto split: if_splits)

text \<open>The attributes of the header: each is a token, two bytes, a token and one byte.\<close>

function header_loop :: "string \<Rightarrow> string \<Rightarrow> (string \<times> string) option" where
  "header_loop enc s =
     (if s \<noteq> [] \<and> hd s \<noteq> CHR ''?'' then
        (case XmlNextToken 64 s of
           None \<Rightarrow> None
         | Some (name, s1) \<Rightarrow>
             (case XmlNextSub s1 2 of
                None \<Rightarrow> None
              | Some s2 \<Rightarrow>
                  (case XmlNextToken 64 s2 of
                     None \<Rightarrow> None
                   | Some (val, s3) \<Rightarrow>
                       if name = ''encoding'' then
                         (case XmlFindChar s3 (CHR ''?'') of
                            None \<Rightarrow> None
                          | Some (skipped, _) \<Rightarrow>
                              if 20 \<le> length val then None
                              else header_loop val (drop (length skipped) s3))
                       else header_loop enc (case XmlNextSub s3 1 of None \<Rightarrow> s3 | Some s4 \<Rightarrow> s4))))
      else Some (enc, s))"
  by pat_completeness auto
termination
  by (relation "measure (\<lambda>(e, s). length s)")
    (auto dest!: NextToken_shorter NextSub_shorter split: option.splits)

declare header_loop.simps [simp del]

definition XmlParseHeader :: "string \<Rightarrow> (string \<times> string) option" where
  "XmlParseHeader s =
     (case XmlNextSub (XmlSkipSpaces s) 2 of
        None \<Rightarrow> None
      | Some s1 \<Rightarrow>
          if cstr (take 2 (XmlSkipSpaces s)) = ''<?'' then
            (case XmlNextToken 64 (XmlSkipSpaces s1) of
               None \<Rightarrow> None
             | Some (_, s2) \<Rightarrow>
                 (case header_loop ''UTF-8'' (XmlSkipSpaces s2) of
                    None \<Rightarrow> None
                  | Some (enc, s3) \<Rightarrow>
                      if s3 = [] then None else map_option (Pair enc) (XmlNextSub s3 2)))
          else None)"

section \<open>Elements\<close>

text \<open>
  The loop of \<open>CMUTIL_XmlParseAttributes\<close>. The value is any byte, the bytes up to its next occurrence,
  and that byte; without \<open>=\<close> it is \<open>true\<close>.
\<close>

definition attr_value :: "string \<Rightarrow> (string \<times> string) option" where
  "attr_value s =
     (if s = [] then None
      else if hd s = CHR ''='' then
        (case XmlSkipSpaces (tl s) of
           [] \<Rightarrow> None
         | openc # s1 \<Rightarrow>
             (case XmlFindChar s1 openc of
                None \<Rightarrow> None
              | Some (val, s2) \<Rightarrow> if 1024 \<le> length val then None else Some (val, s2)))
      else Some (''true'', s))"

function attrs_loop :: "charset \<Rightarrow> (string \<times> string) list \<Rightarrow> string \<Rightarrow> ((string \<times> string) list \<times> string) option" where
  "attrs_loop conv as s =
     (if s \<noteq> [] \<and> \<not> strchr ''/>'' (hd s) then
        (case XmlNextToken 1024 s of
           None \<Rightarrow> None
         | Some (attname, s1) \<Rightarrow>
             (case attr_value (XmlSkipSpaces s1) of
                None \<Rightarrow> None
              | Some (attvalue, s2) \<Rightarrow>
                  (case XmlUnescape conv (cstr attvalue) of
                     None \<Rightarrow> None
                   | Some v \<Rightarrow>
                       if length (XmlSkipSpaces s2) < length s
                       then attrs_loop conv (al_put attname v as) (XmlSkipSpaces s2)
                       else None)))
      else if s = [] then None else Some (as, s))"
  by pat_completeness auto
termination
  by (relation "measure (\<lambda>(c, a, s). length s)") auto

declare attrs_loop.simps [simp del]

definition XmlParseAttributes :: "charset \<Rightarrow> string \<Rightarrow> ((string \<times> string) list \<times> string) option" where
  "XmlParseAttributes conv s = attrs_loop conv [] (XmlSkipSpaces s)"

text \<open>What \<open>CMUTIL_XmlParseNode\<close> found: the end of the parent, or a child, and the input left.\<close>

datatype xfound = XClose string | XChild xml string

definition xdone :: "fault + xml \<Rightarrow> string \<Rightarrow> fault + xfound option" where
  "xdone r s = (case r of Inl f \<Rightarrow> Inl f | Inr x \<Rightarrow> Inr (Some (XChild x s)))"

text \<open>
  \<open>depth\<close> is the number of nodes on the stack, so there is a parent when it is positive. The outer
  \<open>None\<close> is fuel running out, \<open>Inl\<close> undefined behaviour, \<open>Inr None\<close> the failure of the code.
\<close>

fun XmlParseNode :: "nat \<Rightarrow> charset \<Rightarrow> nat \<Rightarrow> string \<Rightarrow> (fault + xfound option) option"
  and children_loop :: "nat \<Rightarrow> charset \<Rightarrow> nat \<Rightarrow> xml list \<Rightarrow> string \<Rightarrow> (fault + (xml list \<times> string) option) option" where
  "XmlParseNode 0 conv depth s0 = None"
| "XmlParseNode (Suc n) conv depth s0 =
     (if XML_MAX_DEPTH \<le> depth then Some (Inr None)
      else
        (case XmlSkipSpaces s0 of
           [] \<Rightarrow> Some (Inr None)
         | c # s \<Rightarrow>
             if c = CHR ''<'' then
               (case s of
                  [] \<Rightarrow> Some (Inr None)
                | c2 # s2 \<Rightarrow>
                    if c2 = CHR ''/'' then
                      (case XmlFindChar s2 (CHR ''>'') of
                         None \<Rightarrow> Some (Inr None)
                       | Some (_, r) \<Rightarrow> Some (Inr (if 0 < depth then Some (XClose r) else None)))
                    else if c2 = CHR ''!'' then
                      (if XmlStartsWith s2 ''[CDATA['' then
                         (case XmlFindStr (drop 7 s2) '']]>'' of
                            None \<Rightarrow> Some (Inr None)
                          | Some k \<Rightarrow>
                              if 0 < depth then
                                (let afval = XmlApplyCharset conv (take k (drop 7 s2))
                                 in Some (xdone (XmlNodeCreateWithLenInternal XmlNodeText afval (length afval))
                                      (drop (k + 3) (drop 7 s2))))
                              else Some (Inr None))
                       else
                         (case XmlFindChar (tl s2) (CHR ''>'') of
                            None \<Rightarrow> Some (Inr None)
                          | Some (_, r) \<Rightarrow> XmlParseNode n conv depth r))
                    else
                      (case XmlNextToken 128 s of
                         None \<Rightarrow> Some (Inr None)
                       | Some (tagname, s3) \<Rightarrow>
                           (case XmlNodeCreateInternal XmlNodeTag tagname of
                              Inl f \<Rightarrow> Some (Inl f)
                            | Inr (XNode k nm _ _) \<Rightarrow>
                                (case XmlParseAttributes conv s3 of
                                   None \<Rightarrow> Some (Inr None)
                                 | Some (as, s4) \<Rightarrow>
                                     if XmlStartsWith s4 ''/>'' then Some (Inr (Some (XChild (XNode k nm as []) (drop 2 s4))))
                                     else if hd s4 = CHR ''>'' then
                                       (case children_loop n conv (depth + 1) [] (tl s4) of
                                          None \<Rightarrow> None
                                        | Some (Inl f) \<Rightarrow> Some (Inl f)
                                        | Some (Inr None) \<Rightarrow> Some (Inr None)
                                        | Some (Inr (Some (cs, r))) \<Rightarrow> Some (Inr (Some (XChild (XNode k nm as cs) r))))
                                     else Some (Inr None)))))
             else if 0 < depth then
               (case XmlFindChar (c # s) (CHR ''<'') of
                  None \<Rightarrow> Some (Inr None)
                | Some (txt, _) \<Rightarrow>
                    (case XmlUnescape conv txt of
                       None \<Rightarrow> Some (Inr None)
                     | Some afval \<Rightarrow>
                         Some (xdone (XmlNodeCreateWithLenInternal XmlNodeText afval (length afval)) (drop (length txt) (c # s)))))
             else Some (Inr None)))"
| "children_loop 0 conv depth acc s = None"
| "children_loop (Suc n) conv depth acc s =
     (case XmlParseNode n conv depth s of
        None \<Rightarrow> None
      | Some (Inl f) \<Rightarrow> Some (Inl f)
      | Some (Inr None) \<Rightarrow> Some (Inr None)
      | Some (Inr (Some (XClose r))) \<Rightarrow> Some (Inr (Some (acc, r)))
      | Some (Inr (Some (XChild c r))) \<Rightarrow> children_loop n conv depth (acc @ [c]) r)"

text \<open>\<open>iconv enc\<close> is \<open>Forward\<close> of the converter from \<open>enc\<close> to UTF-8.\<close>

definition XmlParseStringInternal :: "(string \<Rightarrow> string \<Rightarrow> string option) \<Rightarrow> string \<Rightarrow> (fault + xml ptr) option" where
  "XmlParseStringInternal iconv xmlstr =
     (case XmlParseHeader xmlstr of
        None \<Rightarrow> Some (Inr NULL)
      | Some (enc, s) \<Rightarrow>
          (let conv = (if enc \<noteq> [] \<and> \<not> strcaseeq enc ''UTF-8'' then Some (iconv enc) else None)
           in case XmlParseNode (2 * length s + 2) conv 0 s of
                None \<Rightarrow> None
              | Some (Inl f) \<Rightarrow> Some (Inl f)
              | Some (Inr (Some (XChild x _))) \<Rightarrow> Some (Inr (Some x))
              | Some (Inr _) \<Rightarrow> Some (Inr NULL)))"


section \<open>Conversion to JSON\<close>

text \<open>
  An item put under a name that is taken: the item there becomes an array of both, or is one already
  and grows.
\<close>

definition json_set :: "json \<Rightarrow> string \<Rightarrow> json \<Rightarrow> json" where
  "json_set jobj name v =
     (case jobj of
        JObject es ks \<Rightarrow> JObject (map (\<lambda>(k, x). if k = name then (k, v) else (k, x)) es) ks
      | j \<Rightarrow> j)"

definition put_grouped :: "json \<Rightarrow> string \<Rightarrow> json \<Rightarrow> json" where
  "put_grouped parent name res =
     (case JsonObjectGet parent name of
        None \<Rightarrow> snd (JsonObjectPut parent name res)
      | Some prev \<Rightarrow>
          if JsonGetType prev = TArray then json_set parent name (JsonArrayAdd prev res)
          else
            (let parent1 = snd (JsonObjectRemove parent name);
                 arr = JsonArrayAdd (JsonArrayAdd JsonArrayCreateInternal prev) res
             in snd (JsonObjectPut parent1 name arr)))"

definition json_string :: "string \<Rightarrow> json" where
  "json_string s = JsonValueSetString JsonValueCreateInternal s"

definition attrs_to_json :: "(string \<times> string) list \<Rightarrow> json" where
  "attrs_to_json as = foldl (\<lambda>o1 kv. put_grouped o1 (fst kv) (json_string (cstr (snd kv)))) JsonObjectCreateInternal as"

text \<open>The trimmed text of a node whose only child is a text.\<close>

definition single_text :: "xml list \<Rightarrow> string option" where
  "single_text cs =
     (case cs of
        [XNode k n as cs'] \<Rightarrow> if k = XmlNodeText then Some (trimmed (cstr n)) else None
      | _ \<Rightarrow> None)"

text \<open>
  \<open>CMUTIL_XmlToJsonInternal\<close> with the parent on top of its stack: the value, and the parent with the
  value in it. \<open>name\<close> is the name of the node, which trimming in place may have shortened.
\<close>

fun XmlToJsonInternal :: "string \<Rightarrow> xml \<Rightarrow> json \<Rightarrow> json \<times> json" where
  "XmlToJsonInternal name (XNode k n as cs) parent =
     (let ores = (if as \<noteq> [] then Some (attrs_to_json as) else None);
          isattr = (case single_text cs of None \<Rightarrow> False | Some t \<Rightarrow> t \<noteq> []);
          res = (if isattr then
                   (let v = json_string (the (single_text cs))
                    in case ores of None \<Rightarrow> v | Some o1 \<Rightarrow> snd (JsonObjectPut o1 ''content'' v))
                 else (case ores of None \<Rightarrow> JsonObjectCreateInternal | Some o1 \<Rightarrow> o1));
          res2 = (if cs \<noteq> [] \<and> \<not> isattr then
                    foldl (\<lambda>r c. snd (XmlToJsonInternal
                      (case single_text cs of None \<Rightarrow> XmlGetName c | Some t \<Rightarrow> t) c r)) res cs
                  else res)
      in (res2, put_grouped parent name res2))"

definition XmlToJson :: "xml \<Rightarrow> json" where
  "XmlToJson node = snd (XmlToJsonInternal (XmlGetName node) node JsonObjectCreateInternal)"

section \<open>The parser returns\<close>

lemma Create_node:
  "XmlNodeCreateWithLenInternal k n (length n) = (if n = [] then Inl Null_Deref else Inr (XNode k n [] []))"
proof (cases "n = []")
  case True
  then show ?thesis by (simp add: XmlNodeCreateWithLenInternal_def StringCreateInternal_def)
next
  case False
  then have cap: "0 < length n" by simp
  obtain s where s: "StringCreateInternal (\<lambda>_. True) (length n) NULL = Some s"
    by (rule Create_granted [of "length n" NULL "\<lambda>_. True"]) (use cap in auto)
  note e = Create_empty [OF cap s]
  obtain r s' where a: "StringAddNString (\<lambda>_. True) s (Some n) (length n) = (r, s')" by fastforce
  have "room (\<lambda>_. True) s (length n)" using e by (simp add: room_def)
  with AddNString_spec [OF e(1), of "length n" n "\<lambda>_. True"] a e have "content s' = n" by simp
  with s a False show ?thesis by (simp add: XmlNodeCreateWithLenInternal_def)
qed

lemma Create_tag:
  "XmlNodeCreateInternal k n = (if n = [] then Inl Null_Deref else Inr (XNode k n [] []))"
  by (simp add: XmlNodeCreateInternal_def Create_node)

text \<open>The trees the parser makes: \<open>d\<close> levels at most.\<close>

fun xml_wf :: "nat \<Rightarrow> xml \<Rightarrow> bool" where
  "xml_wf d (XNode k n as cs) \<longleftrightarrow> 0 < d \<and> n \<noteq> [] \<and>
     (case k of
        XmlNodeText \<Rightarrow> as = [] \<and> cs = []
      | XmlNodeTag \<Rightarrow> length n < 128 \<and> (\<forall>c\<in>set n. \<not> strchr xml_delims c) \<and> distinct (map fst as) \<and>
          (\<forall>c\<in>set cs. xml_wf (d - 1) c)
      | XmlNodeUnknown \<Rightarrow> False)"

lemma distinct_put: "distinct (map fst l) \<Longrightarrow> distinct (map fst (al_put k v l))"
  by (simp add: fst_al_put)

lemma attrs_loop_ok:
  "attrs_loop conv as s = Some (as', r) \<Longrightarrow> distinct (map fst as) \<Longrightarrow>
    distinct (map fst as') \<and> length r \<le> length s \<and> r \<noteq> []"
proof (induction conv as s rule: attrs_loop.induct)
  case (1 conv as s)
  show ?case
  proof (cases "s \<noteq> [] \<and> \<not> strchr ''/>'' (hd s)")
    case False
    with "1.prems" show ?thesis by (subst (asm) attrs_loop.simps) (auto split: if_splits)
  next
    case True
    with "1.prems"(1) obtain n s1 v s2 w where st: "XmlNextToken 1024 s = Some (n, s1)"
      "attr_value (XmlSkipSpaces s1) = Some (v, s2)" "XmlUnescape conv (cstr v) = Some w"
      "length (XmlSkipSpaces s2) < length s" "attrs_loop conv (al_put n w as) (XmlSkipSpaces s2) = Some (as', r)"
      by (subst (asm) attrs_loop.simps) (auto split: option.splits if_splits)
    from "1.IH" [OF True st(1) refl st(2) refl st(3,4,5) distinct_put [OF "1.prems"(2)]] st(4)
    show ?thesis by simp
  qed
qed

lemma attributes_ok:
  "XmlParseAttributes conv s = Some (as, r) \<Longrightarrow> distinct (map fst as) \<and> length r \<le> length s \<and> r \<noteq> []"
  using attrs_loop_ok [of conv "[]" "XmlSkipSpaces s" as r] length_dropWhile_le [of "\<lambda>c. c \<noteq> NUL \<and> strchr xml_spaces c" s]
  by (auto simp: XmlParseAttributes_def XmlSkipSpaces_def)

lemma token_chars: "XmlNextToken n s = Some (t, r) \<Longrightarrow> length t < n \<and> (\<forall>c\<in>set t. \<not> strchr xml_delims c) \<and> s = t @ r"
  by (auto simp: XmlNextToken_def Let_def not_le simp flip: dropWhile_eq_drop dest!: set_takeWhileD split: if_splits)

text \<open>What a step of the parser found lies before the rest, which is shorter.\<close>

definition found_ok :: "nat \<Rightarrow> string \<Rightarrow> fault + xfound option \<Rightarrow> bool" where
  "found_ok d s r \<longleftrightarrow>
     (case r of
        Inr (Some (XClose t)) \<Rightarrow> length t < length s
      | Inr (Some (XChild x t)) \<Rightarrow> length t < length s \<and> xml_wf d x
      | _ \<Rightarrow> True)"

definition children_ok :: "nat \<Rightarrow> string \<Rightarrow> fault + (xml list \<times> string) option \<Rightarrow> bool" where
  "children_ok d s r \<longleftrightarrow>
     (case r of Inr (Some (cs, t)) \<Rightarrow> length t < length s \<and> (\<forall>c\<in>set cs. xml_wf d c) | _ \<Rightarrow> True)"

lemma found_ok_fail [simp]: "found_ok d s (Inr None)" "found_ok d s (Inl f)"
  by (simp_all add: found_ok_def)

lemma found_ok_le: "found_ok d t r \<Longrightarrow> length t \<le> length s \<Longrightarrow> found_ok d s r"
  by (auto simp: found_ok_def split: sum.splits option.splits xfound.splits)

lemma text_ok:
  "length t < length s \<Longrightarrow> 0 < d \<Longrightarrow> found_ok d s (xdone (XmlNodeCreateWithLenInternal XmlNodeText v (length v)) t)"
  by (simp add: Create_node xdone_def found_ok_def)

text \<open>An element: its tag, and what follows it.\<close>

lemma node_element:
  assumes "depth < XML_MAX_DEPTH" "XmlSkipSpaces s0 = CHR ''<'' # s" "s \<noteq> []" "hd s \<noteq> CHR ''/''" "hd s \<noteq> CHR ''!''"
    and kids: "\<And>u. length u < length s \<Longrightarrow>
      \<exists>r. children_loop n conv (depth + 1) [] u = Some r \<and> children_ok (XML_MAX_DEPTH - depth - 1) u r"
  shows "\<exists>r. XmlParseNode (Suc n) conv depth s0 = Some r \<and> found_ok (XML_MAX_DEPTH - depth) s r"
proof (cases "XmlNextToken 128 s")
  case None
  with assms(1-5) show ?thesis by (cases s) (auto simp: not_le)
next
  case (Some ts)
  obtain t s3 where ts: "ts = (t, s3)" by fastforce
  note tok = token_chars [OF Some [unfolded ts]]
  show ?thesis
  proof (cases "t = [] \<or> XmlParseAttributes conv s3 = None")
    case True
    with assms(1-5) Some ts show ?thesis by (cases s) (auto simp: not_le Create_tag)
  next
    case False
    then obtain as s4 where a: "XmlParseAttributes conv s3 = Some (as, s4)" by fastforce
    note ok = attributes_ok [OF a]
    have short: "length s4 < length s" using tok ok False by (cases t) auto
    have unf: "XmlParseNode (Suc n) conv depth s0 =
      (if XmlStartsWith s4 ''/>'' then Some (Inr (Some (XChild (XNode XmlNodeTag t as []) (drop 2 s4))))
       else if hd s4 = CHR ''>'' then
         (case children_loop n conv (depth + 1) [] (tl s4) of
            None \<Rightarrow> None
          | Some (Inl f) \<Rightarrow> Some (Inl f)
          | Some (Inr None) \<Rightarrow> Some (Inr None)
          | Some (Inr (Some (cs, r))) \<Rightarrow> Some (Inr (Some (XChild (XNode XmlNodeTag t as cs) r))))
       else Some (Inr None))"
      using assms(1-5) Some ts False a by (cases s) (simp_all add: Create_tag)
    have wf: "xml_wf (XML_MAX_DEPTH - depth) (XNode XmlNodeTag t as cs)" if "\<forall>c\<in>set cs. xml_wf (XML_MAX_DEPTH - depth - 1) c" for cs
      using that tok ok False assms(1) by simp
    obtain r where r: "children_loop n conv (depth + 1) [] (tl s4) = Some r" "children_ok (XML_MAX_DEPTH - depth - 1) (tl s4) r"
      using kids [of "tl s4"] short by (metis length_tl less_imp_diff_less)
    show ?thesis
      using r wf [of "[]"] wf short ok unfolding unf children_ok_def
      by (auto simp: found_ok_def split: sum.splits option.splits prod.splits)
  qed
qed

lemma parse_node_total:
  "(2 * length s + 1 \<le> n \<longrightarrow>
     (\<exists>r. XmlParseNode n conv depth s = Some r \<and> found_ok (XML_MAX_DEPTH - depth) s r)) \<and>
   (2 * length s + 2 \<le> n \<longrightarrow> (\<forall>c\<in>set acc. xml_wf (XML_MAX_DEPTH - depth) c) \<longrightarrow>
     (\<exists>r. children_loop n conv depth acc s = Some r \<and> children_ok (XML_MAX_DEPTH - depth) s r))"
proof (induction n arbitrary: s depth acc)
  case 0
  then show ?case by simp
next
  case (Suc n)
  have node: "\<exists>r. XmlParseNode (Suc n) conv depth s = Some r \<and> found_ok (XML_MAX_DEPTH - depth) s r"
    if fuel: "2 * length s + 1 \<le> Suc n"
  proof (cases "depth < XML_MAX_DEPTH \<and> XmlSkipSpaces s \<noteq> []")
    case False
    then show ?thesis by (auto simp: not_less)
  next
    case True
    then obtain c u where cu: "XmlSkipSpaces s = c # u" by (cases "XmlSkipSpaces s") auto
    have d: "depth < XML_MAX_DEPTH" "0 < XML_MAX_DEPTH - depth" using True by auto
    have le: "length (c # u) \<le> length s"
      using length_dropWhile_le [of "\<lambda>c. c \<noteq> NUL \<and> strchr xml_spaces c" s] by (simp add: cu [symmetric] XmlSkipSpaces_def)
    show ?thesis
    proof (cases "c = CHR ''<''")
      case False
      have "length t < length (c # u)" if "XmlFindChar (c # u) (CHR ''<'') = Some (v, w)" "t = drop (length v) (c # u)" for t v w
        using FindChar_split [OF that(1)] that(2) False by (cases v) auto
      then show ?thesis
        using False cu d le by (auto split: option.split intro!: text_ok intro: less_le_trans)
    next
      case lt: True
      show ?thesis
      proof (cases "u = [] \<or> hd u \<noteq> CHR ''/'' \<and> hd u \<noteq> CHR ''!''")
        case True
        show ?thesis
        proof (cases "u = []")
          case True
          with cu d lt show ?thesis by simp
        next
          case False
          have kids: "\<exists>r. children_loop n conv (depth + 1) [] v = Some r \<and> children_ok (XML_MAX_DEPTH - depth - 1) v r"
            if "length v < length u" for v
            using Suc.IH [of v "depth + 1" "[]"] that le fuel by auto
          from node_element [OF d(1) cu [unfolded lt] False _ _ kids] True False
          obtain r where "XmlParseNode (Suc n) conv depth s = Some r" "found_ok (XML_MAX_DEPTH - depth) u r" by auto
          with le show ?thesis by (auto intro: found_ok_le)
        qed
      next
        case False
        then obtain c2 u2 where u: "u = c2 # u2" "c2 = CHR ''/'' \<or> c2 = CHR ''!''" by (cases u) auto
        show ?thesis
        proof (cases "c2 = CHR ''/''")
          case True
          with cu lt u d le show ?thesis
            by (auto simp: found_ok_def dest!: FindChar_split split: option.split)
        next
          case bang: False
          show ?thesis
          proof (cases "XmlStartsWith u2 ''[CDATA[''")
            case True
            with bang cu lt u d le show ?thesis by (auto simp: Let_def split: option.split intro!: text_ok)
          next
            case False
            have "\<exists>r. XmlParseNode n conv depth t = Some r \<and> found_ok (XML_MAX_DEPTH - depth) s r"
              if "XmlFindChar (tl u2) (CHR ''>'') = Some (v, t)" for v t
            proof -
              have "length t < length u" using FindChar_split [OF that] u(1) by (cases u2) auto
              then have "\<exists>r. XmlParseNode n conv depth t = Some r \<and> found_ok (XML_MAX_DEPTH - depth) t r" "length t \<le> length s"
                using Suc.IH [of t depth "[]"] le fuel by simp_all
              then show ?thesis using found_ok_le by blast
            qed
            with False bang cu lt u d show ?thesis by (auto split: option.split)
          qed
        qed
      qed
    qed
  qed
  have kids: "\<exists>r. children_loop (Suc n) conv depth acc s = Some r \<and> children_ok (XML_MAX_DEPTH - depth) s r"
    if fuel: "2 * length s + 2 \<le> Suc n" and acc: "\<forall>c\<in>set acc. xml_wf (XML_MAX_DEPTH - depth) c"
  proof -
    obtain r where r: "XmlParseNode n conv depth s = Some r" "found_ok (XML_MAX_DEPTH - depth) s r"
      using Suc.IH [of s depth acc] fuel by auto
    have "\<exists>r'. children_loop n conv depth (acc @ [x]) t = Some r' \<and> children_ok (XML_MAX_DEPTH - depth) s r'"
      if "r = Inr (Some (XChild x t))" for x t
    proof -
      have t: "length t < length s" "xml_wf (XML_MAX_DEPTH - depth) x" using r(2) that by (auto simp: found_ok_def)
      then obtain r' where "children_loop n conv depth (acc @ [x]) t = Some r'" "children_ok (XML_MAX_DEPTH - depth) t r'"
        using Suc.IH [of t depth "acc @ [x]"] acc fuel by auto
      with t show ?thesis by (fastforce simp: children_ok_def split: sum.splits option.splits prod.splits)
    qed
    with r acc show ?thesis
      by (auto simp: found_ok_def children_ok_def split: sum.splits option.splits xfound.splits)
  qed
  show ?case using node kids by blast
qed


lemma ParseString_total:
  "\<exists>r. XmlParseStringInternal iconv xmlstr = Some r \<and> (\<forall>x. r = Inr (Some x) \<longrightarrow> xml_wf XML_MAX_DEPTH x)"
proof (cases "XmlParseHeader xmlstr")
  case None
  then show ?thesis by (simp add: XmlParseStringInternal_def)
next
  case (Some es)
  obtain enc s where es: "es = (enc, s)" by fastforce
  define conv where "conv = (if enc \<noteq> [] \<and> \<not> strcaseeq enc ''UTF-8'' then Some (iconv enc) else None)"
  obtain r where "XmlParseNode (2 * length s + 2) conv 0 s = Some r" "found_ok XML_MAX_DEPTH s r"
    using parse_node_total [of s "2 * length s + 2" conv 0] by auto
  then show ?thesis
    using Some es by (auto simp: XmlParseStringInternal_def conv_def [symmetric] found_ok_def Let_def
      simp del: XmlParseNode.simps split: sum.splits option.splits xfound.splits)
qed

section \<open>The conversion groups by name\<close>

text \<open>What a name stands for when the values \<open>vs\<close> were put under it.\<close>

definition grouped :: "json list \<Rightarrow> json option" where
  "grouped vs = (case vs of [] \<Rightarrow> None | [v] \<Rightarrow> Some v | _ \<Rightarrow> Some (JArray vs))"

definition not_array :: "json \<Rightarrow> bool" where
  "not_array j \<longleftrightarrow> JsonGetType j \<noteq> TArray"

definition is_object :: "json \<Rightarrow> bool" where
  "is_object j \<longleftrightarrow> JsonGetType j = TObject"

lemma is_objectE: "is_object j \<Longrightarrow> (\<And>es ks. j = JObject es ks \<Longrightarrow> thesis) \<Longrightarrow> thesis"
  by (cases j) (auto simp: is_object_def JsonGetType_def)

lemma grouped_snoc:
  "grouped (vs @ [v]) = Some (case vs of [] \<Rightarrow> v | _ \<Rightarrow> JArray (vs @ [v]))"
  by (cases vs) (auto simp: grouped_def split: list.splits)

lemma map_of_set: "map_of (map (\<lambda>(k, x). if k = name then (k, v) else (k, x)) es) key
    = (if key = name \<and> map_of es name \<noteq> None then Some v else map_of es key)"
  by (induction es) (auto split: if_splits)

lemma put_grouped_object: "is_object j \<Longrightarrow> is_object (put_grouped j n v)"
  by (erule is_objectE)
    (auto simp: put_grouped_def json_set_def JsonObjectPut_def JsonObjectRemove_def is_object_def JsonGetType_def Let_def split: option.split)

lemma put_grouped_Get:
  assumes j: "is_object j" and g: "JsonObjectGet j n = grouped vs" and vs: "\<forall>v\<in>set vs. not_array v"
  shows "JsonObjectGet (put_grouped j n v) n = grouped (vs @ [v])"
    and "k \<noteq> n \<Longrightarrow> JsonObjectGet (put_grouped j n v) k = JsonObjectGet j k"
proof -
  obtain es ks where es: "j = JObject es ks" using j by (rule is_objectE)
  have mem: "map_of es n = grouped vs" using g es by (simp add: JsonObjectGet_def)
  consider "vs = []" | x where "vs = [x]" | x y ws where "vs = x # y # ws" by (cases vs rule: remdups_adj.cases) auto
  then have "JsonObjectGet (put_grouped j n v) n = grouped (vs @ [v]) \<and>
      (\<forall>k. k \<noteq> n \<longrightarrow> JsonObjectGet (put_grouped j n v) k = JsonObjectGet j k)"
  proof cases
    case 1
    with mem es show ?thesis
      by (simp add: put_grouped_def JsonObjectGet_def JsonObjectPut_def map_of_al_put grouped_def Let_def)
  next
    case 2
    with mem es vs show ?thesis
      by (simp add: put_grouped_def JsonObjectGet_def JsonObjectPut_def JsonObjectRemove_def map_of_al_put map_of_filter_key
          grouped_def not_array_def JsonArrayAdd_def JsonArrayCreateInternal_def al_remove_def Let_def)
  next
    case 3
    with mem es show ?thesis
      by (simp add: put_grouped_def JsonObjectGet_def json_set_def JsonGetType_def JsonArrayAdd_def grouped_def map_of_set)
  qed
  then show "JsonObjectGet (put_grouped j n v) n = grouped (vs @ [v])"
    and "k \<noteq> n \<Longrightarrow> JsonObjectGet (put_grouped j n v) k = JsonObjectGet j k" by blast+
qed

text \<open>Many pairs put one after the other.\<close>

lemma put_grouped_all:
  assumes "is_object j" "\<forall>k. JsonObjectGet j k = grouped (vs k)" "\<forall>k. \<forall>v\<in>set (vs k). not_array v" "\<forall>kv\<in>set kvs. not_array (snd kv)"
  shows "is_object (foldl (\<lambda>r kv. put_grouped r (fst kv) (snd kv)) j kvs) \<and>
    JsonObjectGet (foldl (\<lambda>r kv. put_grouped r (fst kv) (snd kv)) j kvs) k
      = grouped (vs k @ map snd (filter (\<lambda>kv. fst kv = k) kvs))"
  using assms
proof (induction kvs arbitrary: j vs)
  case Nil
  then show ?case by simp
next
  case (Cons kv kvs)
  let ?j = "put_grouped j (fst kv) (snd kv)" and ?vs = "\<lambda>k. vs k @ (if fst kv = k then [snd kv] else [])"
  have "is_object ?j" using Cons.prems(1) by (rule put_grouped_object)
  moreover have "\<forall>k. JsonObjectGet ?j k = grouped (?vs k)"
  proof
    fix k
    have g: "JsonObjectGet j (fst kv) = grouped (vs (fst kv))" "\<forall>v\<in>set (vs (fst kv)). not_array v"
      using Cons.prems(2,3) by blast+
    show "JsonObjectGet ?j k = grouped (?vs k)"
      using put_grouped_Get [OF Cons.prems(1) g] Cons.prems(2) by (cases "k = fst kv") auto
  qed
  moreover have "\<forall>k. \<forall>v\<in>set (?vs k). not_array v" using Cons.prems(3,4) by auto
  ultimately show ?case using Cons.IH [of ?j ?vs] Cons.prems(4) by (auto simp: split: if_splits)
qed

text \<open>The value of a child in its parent.\<close>

definition json_of :: "xml \<Rightarrow> json" where
  "json_of c = fst (XmlToJsonInternal (XmlGetName c) c JsonObjectCreateInternal)"

lemma attrs_to_json_Get:
  "is_object (attrs_to_json as) \<and>
    JsonObjectGet (attrs_to_json as) k = grouped (map (\<lambda>kv. json_string (cstr (snd kv))) (filter (\<lambda>kv. fst kv = k) as))"
proof -
  have na: "not_array (json_string t)" for t
    by (simp add: not_array_def json_string_def JsonValueSetString_def JsonValueSetBase_def JsonValueCreateInternal_def JsonGetType_def)
  have "foldl (\<lambda>r kv. put_grouped r (fst kv) (snd kv)) j (map (apsnd (\<lambda>v. json_string (cstr v))) as)
      = foldl (\<lambda>o1 kv. put_grouped o1 (fst kv) (json_string (cstr (snd kv)))) j as" for j
    by (simp add: foldl_map)
  with put_grouped_all [of JsonObjectCreateInternal "\<lambda>k. []" "map (apsnd (\<lambda>v. json_string (cstr v))) as" k] na
  show ?thesis
    by (auto simp: attrs_to_json_def is_object_def JsonObjectCreateInternal_def JsonGetType_def JsonObjectGet_def grouped_def
        filter_map o_def)
qed

lemma fst_XmlToJson: "fst (XmlToJsonInternal name c p) = fst (XmlToJsonInternal name' c p')"
  by (cases c) (simp add: Let_def)

lemma value_json_of: "fst (XmlToJsonInternal name c p) = json_of c"
  unfolding json_of_def by (rule fst_XmlToJson)

lemma snd_XmlToJson: "snd (XmlToJsonInternal name c p) = put_grouped p name (fst (XmlToJsonInternal name c p))"
  by (cases c) (simp add: Let_def)

lemma attrs_object: "is_object (attrs_to_json as)"
  using attrs_to_json_Get by blast

lemma foldl_object:
  "is_object j \<Longrightarrow> is_object (foldl (\<lambda>r c. snd (XmlToJsonInternal (f c) c r)) j cs)"
  by (induction cs arbitrary: j) (simp_all add: snd_XmlToJson put_grouped_object)

lemma value_not_array: "not_array (fst (XmlToJsonInternal name c p))"
proof -
  obtain k n as cs where c: "c = XNode k n as cs" by (cases c)
  have new: "is_object JsonObjectCreateInternal" by (simp add: is_object_def JsonObjectCreateInternal_def JsonGetType_def)
  have put: "is_object j \<Longrightarrow> is_object (snd (JsonObjectPut j x v))" for j x v
    by (erule is_objectE) (simp add: JsonObjectPut_def is_object_def JsonGetType_def Let_def)
  have obj: "is_object j \<Longrightarrow> not_array j" for j by (simp add: is_object_def not_array_def)
  have str: "not_array (json_string t)" for t
    by (simp add: not_array_def json_string_def JsonValueSetString_def JsonValueSetBase_def JsonValueCreateInternal_def JsonGetType_def)
  show ?thesis
    unfolding c using new put attrs_object foldl_object obj str by (auto simp: Let_def split: option.splits)
qed

lemma foldl_children:
  "foldl (\<lambda>r c. snd (XmlToJsonInternal (XmlGetName c) c r)) j cs
    = foldl (\<lambda>r kv. put_grouped r (fst kv) (snd kv)) j (map (\<lambda>c. (XmlGetName c, json_of c)) cs)"
  by (induction cs arbitrary: j) (simp_all add: snd_XmlToJson value_json_of)

lemma json_of_object:
  assumes "single_text cs = None"
  shows "JsonObjectGet (json_of (XNode k n as cs)) key =
    grouped (map (\<lambda>kv. json_string (cstr (snd kv))) (filter (\<lambda>kv. fst kv = key) as)
      @ map json_of (filter (\<lambda>c. XmlGetName c = key) cs))"
proof -
  let ?o = "if as \<noteq> [] then attrs_to_json as else JsonObjectCreateInternal"
  have o: "?o = attrs_to_json as" by (simp add: attrs_to_json_def)
  have "json_of (XNode k n as cs) = foldl (\<lambda>r c. snd (XmlToJsonInternal (XmlGetName c) c r)) (attrs_to_json as) cs"
    using assms o by (auto simp: json_of_def Let_def)
  also have "\<dots> = foldl (\<lambda>r kv. put_grouped r (fst kv) (snd kv)) (attrs_to_json as) (map (\<lambda>c. (XmlGetName c, json_of c)) cs)"
    by (rule foldl_children)
  finally have eq: "json_of (XNode k n as cs) = \<dots>" .
  have na: "not_array (json_string t)" for t
    by (simp add: not_array_def json_string_def JsonValueSetString_def JsonValueSetBase_def JsonValueCreateInternal_def JsonGetType_def)
  have "\<forall>kv\<in>set (map (\<lambda>c. (XmlGetName c, json_of c)) cs). not_array (snd kv)"
    by (auto simp: json_of_def value_not_array)
  then show ?thesis
    unfolding eq using put_grouped_all [OF attrs_object, of as "\<lambda>k. map (\<lambda>kv. json_string (cstr (snd kv))) (filter (\<lambda>kv. fst kv = k) as)"
        "map (\<lambda>c. (XmlGetName c, json_of c)) cs" key] attrs_to_json_Get na
    by (auto simp: filter_map o_def)
qed

end
