(* ===== verification/Cmu_XmlRound.thy ===== *)
theory Cmu_XmlRound
  imports Cmu_Xml "HOL-Library.Sublist"
begin

text \<open>
  \<open>src/src/nanoxml.c\<close>: what the parser makes of a printed document, of the entities the printer
  writes, and of inputs it treats in a way of its own.
\<close>

section \<open>Entities\<close>

lemma split_at_skip: "c \<notin> set u \<Longrightarrow> NUL \<notin> set u \<Longrightarrow> split_at c (u @ s) = map_option (apfst ((@) u)) (split_at c s)"
  by (induction u; cases "split_at c s") (auto simp: apfst_def)

lemma split_at_none: "c \<notin> set u \<Longrightarrow> split_at c u = None"
  by (induction u) auto

lemma escape_byte_chars: "x \<in> set (xml_escape_byte c) \<Longrightarrow> x \<noteq> CHR ''<'' \<and> x \<noteq> CHR 0x22 \<and> (x = NUL \<longrightarrow> c = NUL)"
  by (auto simp: xml_escape_byte_def split: if_splits)

lemma XmlEscape_chars:
  assumes "NUL \<notin> set t"
  shows "CHR ''<'' \<notin> set (XmlEscape t)" "CHR 0x22 \<notin> set (XmlEscape t)" "NUL \<notin> set (XmlEscape t)"
  using assms escape_byte_chars by (auto simp: XmlEscape_def cstr_id)

text \<open>Each escape is an entity of the table.\<close>

lemma escape_entity:
  "c \<in> {CHR 0x22, CHR ''&'', CHR 0x27, CHR ''<'', CHR ''>''} \<Longrightarrow>
    \<exists>key. xml_escape_byte c = CHR ''&'' # key @ '';'' \<and> CHR '';'' \<notin> set key \<and> NUL \<notin> set key \<and> length key + 1 < 20 \<and>
      xml_entity key = Some [c]"
proof -
  assume "c \<in> {CHR 0x22, CHR ''&'', CHR 0x27, CHR ''<'', CHR ''>''}"
  then consider "c = CHR 0x22" | "c = CHR ''&''" | "c = CHR 0x27" | "c = CHR ''<''" | "c = CHR ''>''" by blast
  then show ?thesis
  proof cases
    case 1 then show ?thesis by (intro exI [of _ "''quot''"]) (simp add: xml_escape_byte_def xml_entity_def xml_escapes_def)
  next
    case 2 then show ?thesis by (intro exI [of _ "''amp''"]) (simp add: xml_escape_byte_def xml_entity_def xml_escapes_def)
  next
    case 3 then show ?thesis by (intro exI [of _ "''apos''"]) (simp add: xml_escape_byte_def xml_entity_def xml_escapes_def)
  next
    case 4 then show ?thesis by (intro exI [of _ "''lt''"]) (simp add: xml_escape_byte_def xml_entity_def xml_escapes_def)
  next
    case 5 then show ?thesis by (intro exI [of _ "''gt''"]) (simp add: xml_escape_byte_def xml_entity_def xml_escapes_def)
  qed
qed

lemma unescape_escape_loop:
  assumes "NUL \<notin> set t" "NUL \<notin> set v" "CHR ''&'' \<notin> set v"
  shows "NUL \<notin> set u \<Longrightarrow> CHR ''&'' \<notin> set u \<Longrightarrow>
    unescape_loop dest (u @ concat (map xml_escape_byte t) @ v) = Some (dest @ u @ t @ v)"
  using assms(1)
proof (induction t arbitrary: dest u)
  case Nil
  have "split_at (CHR ''&'') (u @ v) = None" using Nil.prems assms by (intro split_at_none) simp
  moreover have "cstr (u @ v) = u @ v" using Nil.prems assms by (intro cstr_id) simp
  ultimately show ?case by (simp add: unescape_loop.simps [of dest "u @ v"])
next
  case (Cons c t)
  show ?case
  proof (cases "c \<in> {CHR 0x22, CHR ''&'', CHR 0x27, CHR ''<'', CHR ''>''}")
    case True
    from escape_entity [OF this] obtain key where key: "xml_escape_byte c = CHR ''&'' # key @ '';''"
      "CHR '';'' \<notin> set key" "NUL \<notin> set key" "length key + 1 < 20" "xml_entity key = Some [c]" by blast
    let ?r = "concat (map xml_escape_byte t) @ v"
    have "split_at (CHR ''&'') (u @ CHR ''&'' # key @ CHR '';'' # ?r) = Some (u, key @ CHR '';'' # ?r)"
      using split_at_skip [of "CHR ''&''" u "CHR ''&'' # key @ CHR '';'' # ?r"] Cons.prems by simp
    moreover have "split_at (CHR '';'') (key @ CHR '';'' # ?r) = Some (key, ?r)"
      using split_at_skip [of "CHR '';''" key "CHR '';'' # ?r"] key by simp
    moreover have "unescape_loop (dest @ u @ [c]) ([] @ ?r) = Some ((dest @ u @ [c]) @ [] @ t @ v)"
      by (rule Cons.IH) (use Cons.prems in auto)
    ultimately show ?thesis
      using key by (simp add: unescape_loop.simps [of dest "u @ CHR ''&'' # key @ CHR '';'' # ?r"])
  next
    case False
    then have "xml_escape_byte c = [c]" by (simp add: xml_escape_byte_def)
    with Cons.IH [of "u @ [c]" dest] Cons.prems False show ?thesis by (simp add: eq_commute [of _ c])
  qed
qed

lemma Unescape_Escape:
  "NUL \<notin> set t \<Longrightarrow> NUL \<notin> set v \<Longrightarrow> CHR ''&'' \<notin> set v \<Longrightarrow> XmlUnescape None (XmlEscape t @ v) = Some (t @ v)"
  using unescape_escape_loop [of t v "[]" "[]"]
  by (simp add: XmlUnescape_def XmlEscape_def XmlApplyCharset_def cstr_id option.map_id0)

section \<open>Blanks, tokens, attributes\<close>

definition xblank :: "char \<Rightarrow> bool" where
  "xblank c \<longleftrightarrow> c \<noteq> NUL \<and> strchr xml_spaces c"

lemma Skip_def: "XmlSkipSpaces s = dropWhile xblank s"
  by (simp add: XmlSkipSpaces_def xblank_def [abs_def])

lemma Skip_blanks [simp]: "\<forall>c\<in>set w. xblank c \<Longrightarrow> XmlSkipSpaces (w @ s) = XmlSkipSpaces s"
  by (simp add: Skip_def dropWhile_append1)

lemma Skip_stop: "s \<noteq> [] \<Longrightarrow> \<not> xblank (hd s) \<Longrightarrow> XmlSkipSpaces s = s"
  by (cases s) (auto simp: Skip_def)

lemma Skip_idem [simp]: "XmlSkipSpaces (XmlSkipSpaces s) = XmlSkipSpaces s"
  by (simp add: Skip_def dropWhile_idem)

lemma blanks [simp]:
  "xblank (CHR '' '')" "xblank (CHR 0x09)" "xblank (CHR 0x0D)" "xblank (CHR 0x0A)" "\<not> xblank (CHR ''<'')"
  "\<not> xblank (CHR ''>'')" "\<not> xblank (CHR ''/'')" "\<not> xblank (CHR ''='')" "\<not> xblank (CHR 0x22)"
  by (simp_all add: xblank_def xml_spaces_def strchr_def)

lemma indent4_blank: "\<forall>c\<in>set (indent4 d). xblank c"
  by (induction d) (auto simp: indent4_def)

lemma LINE_END_blank: "\<forall>c\<in>set LINE_END. xblank c"
  by (simp add: LINE_END_def)

definition tokenb :: "string \<Rightarrow> bool" where
  "tokenb t \<longleftrightarrow> (\<forall>c\<in>set t. \<not> strchr xml_delims c)"

lemma token_read:
  "tokenb t \<Longrightarrow> length t < n \<Longrightarrow> (r = [] \<or> strchr xml_delims (hd r)) \<Longrightarrow> XmlNextToken n (t @ r) = Some (t, r)"
proof -
  assume t: "tokenb t" "length t < n" "r = [] \<or> strchr xml_delims (hd r)"
  have "takeWhile (\<lambda>c. c \<noteq> NUL \<and> \<not> strchr xml_delims c) (t @ r) = t @ takeWhile (\<lambda>c. c \<noteq> NUL \<and> \<not> strchr xml_delims c) r"
    using t(1) by (intro takeWhile_append2) (auto simp: tokenb_def strchr_def)
  moreover have "takeWhile (\<lambda>c. c \<noteq> NUL \<and> \<not> strchr xml_delims c) r = []" using t(3) by (cases r) auto
  ultimately show ?thesis using t(2) by (simp add: XmlNextToken_def Let_def)
qed

lemma tokenb_not_blank: "tokenb t \<Longrightarrow> t \<noteq> [] \<Longrightarrow> \<not> xblank (hd t)"
  by (cases t) (auto simp: tokenb_def xblank_def xml_spaces_def xml_delims_def strchr_def)

lemma FindChar_first: "c \<notin> set u \<Longrightarrow> XmlFindChar (u @ c # s) c = Some (u, s)"
  by (induction u) auto

definition attr_ok :: "string \<times> string \<Rightarrow> bool" where
  "attr_ok kv \<longleftrightarrow> tokenb (fst kv) \<and> length (fst kv) < 1024 \<and> NUL \<notin> set (snd kv) \<and> length (XmlEscape (snd kv)) < 1024"

lemma attrs_read:
  assumes "\<forall>kv\<in>set as. attr_ok kv" "distinct (map fst (acc @ as))" "r \<noteq> []" "hd r \<in> {CHR ''/'', CHR ''>''}"
  shows "attrs_loop None acc (XmlSkipSpaces (XmlBuildAttribute as @ r)) = Some (acc @ as, r)"
  using assms(1,2)
proof (induction as arbitrary: acc)
  case Nil
  have "XmlSkipSpaces r = r" using assms(3,4) by (intro Skip_stop) auto
  with assms(3,4) show ?case by (auto simp: XmlBuildAttribute_def attrs_loop.simps [of None acc r] strchr_def)
next
  case (Cons kv as)
  obtain k v where kv: "kv = (k, v)" by fastforce
  have ok: "tokenb k" "length k < 1024" "NUL \<notin> set v" "length (XmlEscape v) < 1024"
    using Cons.prems(1) kv by (auto simp: attr_ok_def)
  let ?t = "XmlBuildAttribute as @ r"
  let ?s1 = "CHR ''='' # CHR 0x22 # XmlEscape v @ CHR 0x22 # ?t"
  have s: "XmlBuildAttribute (kv # as) @ r = CHR '' '' # k @ ?s1"
    by (simp add: XmlBuildAttribute_def kv)
  have skip: "XmlSkipSpaces (CHR '' '' # k @ ?s1) = k @ ?s1"
  proof -
    have "XmlSkipSpaces (CHR '' '' # k @ ?s1) = XmlSkipSpaces (k @ ?s1)" by (simp add: Skip_def)
    also have "\<dots> = k @ ?s1" using tokenb_not_blank [OF ok(1)] by (intro Skip_stop) (auto simp: hd_append)
    finally show ?thesis .
  qed
  have tok: "XmlNextToken 1024 (k @ ?s1) = Some (k, ?s1)"
    using ok by (intro token_read) (auto simp: strchr_def xml_delims_def)
  have "XmlFindChar (XmlEscape v @ CHR 0x22 # ?t) (CHR 0x22) = Some (XmlEscape v, ?t)"
    using XmlEscape_chars(2) [OF ok(3)] by (rule FindChar_first)
  then have val: "attr_value (XmlSkipSpaces ?s1) = Some (XmlEscape v, ?t)"
    using ok(4) by (simp add: attr_value_def Skip_def)
  have un: "XmlUnescape None (cstr (XmlEscape v)) = Some v"
    using Unescape_Escape [of v "[]"] XmlEscape_chars(3) [OF ok(3)] ok(3) by (simp add: cstr_id)
  have go: "k @ ?s1 \<noteq> [] \<and> \<not> strchr ''/>'' (hd (k @ ?s1))"
  proof (cases k)
    case Nil
    then show ?thesis by (simp add: strchr_def)
  next
    case (Cons x k')
    then have "\<not> strchr xml_delims x" using ok(1) by (simp add: tokenb_def)
    then have "\<not> strchr ''/>'' x" by (simp add: strchr_def xml_delims_def)
    with Cons show ?thesis by simp
  qed
  have short: "length (XmlSkipSpaces ?t) < length (k @ ?s1)"
    using length_dropWhile_le [of xblank ?t] by (simp add: Skip_def)
  have "k \<notin> fst ` set acc" using Cons.prems(2) kv by auto
  then have put: "al_put k v acc = acc @ [kv]" unfolding al_put_def kv by (subst filter_True) auto
  have "attrs_loop None acc (k @ ?s1) = attrs_loop None (acc @ [kv]) (XmlSkipSpaces ?t)"
    using go tok val un short put by (subst attrs_loop.simps) (simp del: append.simps)
  also have "\<dots> = Some ((acc @ [kv]) @ as, r)"
    by (rule Cons.IH) (use Cons.prems in auto)
  finally show ?case by (simp add: s skip)
qed


section \<open>Documents\<close>

text \<open>
  What the parser reads back: everything but the texts, which end with the line end and the
  indentation that the printer put behind them.
\<close>

definition text_gap :: "nat \<Rightarrow> xml list \<Rightarrow> string" where
  "text_gap d cs = LINE_END @ (if cs = [] then replicate d (CHR 0x09) else indent4 (d + 1))"

fun reread :: "nat \<Rightarrow> xml \<Rightarrow> xml" and reread_children :: "nat \<Rightarrow> xml list \<Rightarrow> xml list" where
  "reread d (XNode k n as cs) = XNode k n as (reread_children d cs)"
| "reread_children d [] = []"
| "reread_children d (XNode k n as cs' # cs) =
     (if k = XmlNodeText then XNode k (n @ text_gap d cs) [] [] else reread (d + 1) (XNode k n as cs'))
     # reread_children d cs"

text \<open>The trees that can be written: \<open>d\<close> levels at most, texts apart from each other.\<close>

fun apart :: "xml list \<Rightarrow> bool" where
  "apart (c # c' # cs) \<longleftrightarrow> (XmlGetType c = XmlNodeText \<longrightarrow> XmlGetType c' = XmlNodeTag) \<and> apart (c' # cs)"
| "apart cs \<longleftrightarrow> True"

fun xml_plain :: "nat \<Rightarrow> xml \<Rightarrow> bool" where
  "xml_plain d (XNode k n as cs) \<longleftrightarrow> 0 < d \<and> n \<noteq> [] \<and>
     (case k of
        XmlNodeText \<Rightarrow> as = [] \<and> cs = [] \<and> NUL \<notin> set n \<and> \<not> xblank (hd n)
      | XmlNodeTag \<Rightarrow> tokenb n \<and> length n < 128 \<and> hd n \<noteq> CHR ''!'' \<and> list_all attr_ok as \<and> distinct (map fst as) \<and>
          apart cs \<and> (\<forall>c\<in>set cs. xml_plain (d - 1) c)
      | XmlNodeUnknown \<Rightarrow> False)"

fun no_text :: "xml \<Rightarrow> bool" where
  "no_text (XNode k n as cs) \<longleftrightarrow> k \<noteq> XmlNodeText \<and> (\<forall>c\<in>set cs. no_text c)"

lemma reread_no_text:
  "no_text x \<Longrightarrow> reread d x = x"
  "\<forall>c\<in>set cs. no_text c \<Longrightarrow> reread_children d cs = cs"
  by (induction d x and d cs rule: reread_reread_children.induct) auto

text \<open>The text between an opening tag and the end of the closing one.\<close>

definition kids_text :: "bool \<Rightarrow> nat \<Rightarrow> string \<Rightarrow> xml list \<Rightarrow> string" where
  "kids_text b d name cs =
     concat (map (\<lambda>c. XmlToDocumentPrivate c b (d + 1) @ LINE_END) cs) @ replicate d (CHR 0x09) @ ''</'' @ name @ ''>''"

definition element_text :: "bool \<Rightarrow> nat \<Rightarrow> string \<Rightarrow> (string \<times> string) list \<Rightarrow> xml list \<Rightarrow> string" where
  "element_text b d name as cs =
     CHR ''<'' # name @ XmlBuildAttribute as @ (if cs = [] then ''/>'' else CHR ''>'' # LINE_END @ kids_text b d name cs)"

lemma print_tag: "XmlToDocumentPrivate (XNode XmlNodeTag n as cs) b d = indent4 d @ element_text b d n as cs"
  by (simp add: element_text_def kids_text_def)

lemma Skip_indent [simp]: "XmlSkipSpaces (indent4 d @ s) = XmlSkipSpaces s"
  using indent4_blank by (rule Skip_blanks)

lemma Skip_element: "XmlSkipSpaces (element_text b d n as cs @ r) = element_text b d n as cs @ r"
  by (intro Skip_stop) (simp_all add: element_text_def)

lemma kids_text_Cons:
  "kids_text b d name (c # cs) = XmlToDocumentPrivate c b (d + 1) @ LINE_END @ kids_text b d name cs"
  by (simp add: kids_text_def)

lemma kids_text_lt:
  assumes "cs = [] \<or> XmlGetType (hd cs) = XmlNodeTag"
  obtains u where "kids_text b d name cs = (if cs = [] then replicate d (CHR 0x09) else indent4 (d + 1)) @ CHR ''<'' # u"
proof (cases cs)
  case Nil
  with that [of "CHR ''/'' # name @ ''>''"] show ?thesis by (simp add: kids_text_def)
next
  case (Cons c cs')
  then obtain n as ks where "c = XNode XmlNodeTag n as ks" using assms by (cases c) auto
  with Cons that show ?thesis by (simp add: kids_text_Cons print_tag element_text_def del: XmlToDocumentPrivate.simps)
qed

text \<open>What \<open>XmlParseNode\<close> does with an element of the document.\<close>

definition reads :: "bool \<Rightarrow> xml \<Rightarrow> bool" where
  "reads b x \<longleftrightarrow> (\<forall>depth n s rest. xml_plain (XML_MAX_DEPTH - depth) x \<longrightarrow>
     XmlSkipSpaces s = XmlSkipSpaces (XmlToDocumentPrivate x b depth @ rest) \<longrightarrow> 2 * length s + 1 \<le> n \<longrightarrow>
     XmlGetType x = XmlNodeTag \<longrightarrow>
     XmlParseNode n None depth s = Some (Inr (Some (XChild (reread depth x) rest))))"

lemma Skip_len: "length (XmlSkipSpaces s) \<le> length s"
  by (simp add: Skip_def length_dropWhile_le)

lemma close_read:
  assumes "XmlSkipSpaces s = ''</'' @ name @ CHR ''>'' # rest" "tokenb name" "0 < depth" "depth < XML_MAX_DEPTH"
  shows "XmlParseNode (Suc n) None depth s = Some (Inr (Some (XClose rest)))"
proof -
  have "CHR ''>'' \<notin> set name" using assms(2) by (auto simp: tokenb_def strchr_def xml_delims_def)
  then have "XmlFindChar (name @ CHR ''>'' # rest) (CHR ''>'') = Some (name, rest)" by (rule FindChar_first)
  with assms show ?thesis by simp
qed

lemma node_text:
  assumes "XmlSkipSpaces s = c # r" "c \<noteq> CHR ''<''" "0 < depth" "depth < XML_MAX_DEPTH"
  shows "XmlParseNode (Suc n) conv depth s =
    (case XmlFindChar (c # r) (CHR ''<'') of
       None \<Rightarrow> Some (Inr None)
     | Some (txt, _) \<Rightarrow>
         (case XmlUnescape conv txt of
            None \<Rightarrow> Some (Inr None)
          | Some afval \<Rightarrow>
              Some (xdone (XmlNodeCreateWithLenInternal XmlNodeText afval (length afval)) (drop (length txt) (c # r)))))"
  using assms by (simp del: XmlFindChar.simps)

lemma text_read:
  assumes "XmlSkipSpaces s = XmlEscape t @ v @ CHR ''<'' # u" "t \<noteq> []" "NUL \<notin> set t"
    "\<forall>c\<in>set v. xblank c" "0 < depth" "depth < XML_MAX_DEPTH"
  shows "XmlParseNode (Suc n) None depth s = Some (Inr (Some (XChild (XNode XmlNodeText (t @ v) [] []) (CHR ''<'' # u))))"
proof -
  have "\<not> xblank NUL" "\<not> xblank (CHR ''&'')" by (simp_all add: xblank_def xml_spaces_def strchr_def)
  then have v: "NUL \<notin> set v" "CHR ''&'' \<notin> set v" "CHR ''<'' \<notin> set v"
    using assms(4) blanks(5) by blast+
  have e: "CHR ''<'' \<notin> set (XmlEscape t @ v)" using v XmlEscape_chars(1) [OF assms(3)] by simp
  have "XmlEscape t \<noteq> []" using assms(2,3) by (cases t) (auto simp: XmlEscape_def cstr_id xml_escape_byte_def)
  then obtain c r where cr: "XmlEscape t @ v @ CHR ''<'' # u = c # r" "c \<noteq> CHR ''<''"
    using e by (cases "XmlEscape t") auto
  define w where "w = t @ v"
  obtain q where q: "q = XmlEscape t @ v" by blast
  have f: "XmlFindChar (c # r) (CHR ''<'') = Some (q, u)"
    using FindChar_first [OF e, of u] cr(1) q by simp
  have d: "drop (length q) (c # r) = CHR ''<'' # u"
    using cr(1) [symmetric] q by simp
  have "w \<noteq> []" using assms(2) by (simp add: w_def)
  then have x: "xdone (XmlNodeCreateWithLenInternal XmlNodeText w (length w)) (CHR ''<'' # u)
      = Inr (Some (XChild (XNode XmlNodeText w [] []) (CHR ''<'' # u)))"
    unfolding Create_node by (simp add: xdone_def)
  have s: "XmlSkipSpaces s = c # r" using assms(1) cr(1) by simp
  have "XmlUnescape None q = Some w" using Unescape_Escape [OF assms(3) v(1,2)] q by (simp add: w_def)
  then show ?thesis
    unfolding node_text [OF s cr(2) assms(5,6)] f option.case prod.case d
    by (simp only: option.case x w_def [symmetric])
qed

lemma children_read:
  assumes "\<forall>c\<in>set cs. reads b c" "\<forall>c\<in>set cs. xml_plain (XML_MAX_DEPTH - (d + 1)) c" "apart cs" "tokenb name"
    "d + 1 < XML_MAX_DEPTH" "XmlSkipSpaces s = XmlSkipSpaces (kids_text b d name cs @ rest)" "2 * length s + 2 \<le> n"
  shows "children_loop n None (d + 1) acc s = Some (Inr (Some (acc @ reread_children d cs, rest)))"
  using assms
proof (induction cs arbitrary: s n acc)
  case Nil
  obtain m where n: "n = Suc (Suc m)" using Nil.prems(7) by (cases n; cases "n - 1") auto
  have "\<forall>c\<in>set (replicate d (CHR 0x09)). xblank c" by simp
  then have "XmlSkipSpaces s = ''</'' @ name @ CHR ''>'' # rest"
    using Nil.prems(6) by (simp add: kids_text_def) (simp add: Skip_def)
  from close_read [OF this Nil.prems(4) _ Nil.prems(5)] show ?case by (simp add: n del: XmlParseNode.simps)
next
  case (Cons c cs)
  obtain m where n: "n = Suc m" using Cons.prems(7) by (cases n) auto
  obtain k nm as cs' where c: "c = XNode k nm as cs'" by (cases c)
  have plain: "xml_plain (XML_MAX_DEPTH - (d + 1)) c" using Cons.prems(2) by simp
  have next1: "apart cs" "k = XmlNodeText \<longrightarrow> cs = [] \<or> XmlGetType (hd cs) = XmlNodeTag"
    using Cons.prems(3) by (cases cs; simp add: c)+
  have ih: "children_loop m None (d + 1) acc' s' = Some (Inr (Some (acc' @ reread_children d cs, rest)))"
    if "XmlSkipSpaces s' = XmlSkipSpaces (kids_text b d name cs @ rest)" "length s' < length s" for acc' s'
    by (rule Cons.IH) (use Cons.prems n that next1(1) in auto)
  consider "k = XmlNodeTag" | "k = XmlNodeText" using plain by (cases k) (auto simp: c)
  then show ?case
  proof cases
    case 1
    let ?s = "LINE_END @ kids_text b d name cs @ rest"
    have "XmlSkipSpaces s = XmlSkipSpaces (XmlToDocumentPrivate c b (d + 1) @ ?s)"
      using Cons.prems(6) by (simp add: kids_text_Cons del: XmlToDocumentPrivate.simps)
    moreover have "reads b c" using Cons.prems(1) by simp
    ultimately have p: "XmlParseNode m None (d + 1) s = Some (Inr (Some (XChild (reread (d + 1) c) ?s)))"
      using plain Cons.prems(7) n 1 unfolding reads_def by (auto simp: c simp del: XmlParseNode.simps XmlToDocumentPrivate.simps)
    have "XmlSkipSpaces s = element_text b (d + 1) nm as cs' @ ?s"
      using Cons.prems(6) 1 by (simp add: kids_text_Cons c print_tag Skip_element del: XmlToDocumentPrivate.simps)
    then have "length ?s < length s" using Skip_len [of s] by (simp add: element_text_def)
    moreover have "XmlSkipSpaces ?s = XmlSkipSpaces (kids_text b d name cs @ rest)"
      using LINE_END_blank by (rule Skip_blanks)
    ultimately show ?thesis using ih p 1 by (simp add: n c del: XmlParseNode.simps reread.simps)
  next
    case 2
    then obtain u where u: "kids_text b d name cs = (if cs = [] then replicate d (CHR 0x09) else indent4 (d + 1)) @ CHR ''<'' # u"
      using kids_text_lt [of cs b d name] next1 by blast
    let ?w = "text_gap d cs"
    have t: "nm \<noteq> []" "NUL \<notin> set nm" "\<not> xblank (hd nm)" using plain 2 by (simp_all add: c)
    have w: "\<forall>c\<in>set ?w. xblank c"
      using LINE_END_blank indent4_blank [of "d + 1"] by (auto simp: text_gap_def)
    have esc: "XmlEscape nm \<noteq> [] \<and> \<not> xblank (hd (XmlEscape nm))"
      using t by (cases nm) (auto simp: XmlEscape_def cstr_id xml_escape_byte_def xblank_def xml_spaces_def strchr_def)
    have "XmlSkipSpaces s = XmlSkipSpaces (XmlEscape nm @ ?w @ CHR ''<'' # u @ rest)"
      using Cons.prems(6) 2 by (simp add: kids_text_Cons c u text_gap_def)
    then have s: "XmlSkipSpaces s = XmlEscape nm @ ?w @ CHR ''<'' # u @ rest"
      using esc by (simp add: Skip_stop)
    obtain m' where m: "m = Suc m'" using Cons.prems(7) n by (cases m) auto
    have p: "XmlParseNode m None (d + 1) s = Some (Inr (Some (XChild (XNode XmlNodeText (nm @ ?w) [] []) (CHR ''<'' # u @ rest))))"
      unfolding m using text_read [OF s t(1,2) w _ Cons.prems(5)] by simp
    have "length (CHR ''<'' # u @ rest) < length s" using Skip_len [of s] s esc by (cases "XmlEscape nm") auto
    moreover have "XmlSkipSpaces (CHR ''<'' # u @ rest) = XmlSkipSpaces (kids_text b d name cs @ rest)"
      unfolding u by simp
    ultimately show ?thesis using ih p 2 by (simp add: n c del: XmlParseNode.simps)
  qed
qed


lemma node_tag:
  assumes "XmlSkipSpaces s = CHR ''<'' # name @ r" "tokenb name" "name \<noteq> []" "hd name \<noteq> CHR ''!''" "length name < 128"
    "r \<noteq> []" "strchr xml_delims (hd r)" "XmlParseAttributes conv r = Some (as, s4)" "depth < XML_MAX_DEPTH"
  shows "XmlParseNode (Suc n) conv depth s =
    (if XmlStartsWith s4 ''/>'' then Some (Inr (Some (XChild (XNode XmlNodeTag name as []) (drop 2 s4))))
     else if hd s4 = CHR ''>'' then
       (case children_loop n conv (depth + 1) [] (tl s4) of
          None \<Rightarrow> None
        | Some (Inl f) \<Rightarrow> Some (Inl f)
        | Some (Inr None) \<Rightarrow> Some (Inr None)
        | Some (Inr (Some (cs, r))) \<Rightarrow> Some (Inr (Some (XChild (XNode XmlNodeTag name as cs) r))))
     else Some (Inr None))"
proof -
  have tok: "XmlNextToken 128 (name @ r) = Some (name, r)" using assms by (intro token_read) auto
  obtain c n' where n: "name = c # n'" using assms(3) by (cases name) auto
  then have "\<not> strchr xml_delims c" "c \<noteq> CHR ''!''" using assms(2,4) by (simp_all add: tokenb_def)
  then have c: "c \<noteq> CHR ''/''" "c \<noteq> CHR ''!''" by (auto simp: strchr_def xml_delims_def)
  show ?thesis
    using assms(1,8,9) tok c unfolding n
    by (simp add: Create_tag not_le [symmetric] del: children_loop.simps XmlParseNode.simps(1))
qed

lemma reads_all: "reads b x"
proof (induction x)
  case (XNode k name as cs)
  have kids: "\<forall>c\<in>set cs. reads b c" using XNode.IH by blast
  show ?case
    unfolding reads_def
  proof (intro allI impI)
    fix depth n s rest
    assume plain: "xml_plain (XML_MAX_DEPTH - depth) (XNode k name as cs)"
      and skip: "XmlSkipSpaces s = XmlSkipSpaces (XmlToDocumentPrivate (XNode k name as cs) b depth @ rest)"
      and fuel: "2 * length s + 1 \<le> n" and tag: "XmlGetType (XNode k name as cs) = XmlNodeTag"
    have k: "k = XmlNodeTag" using tag by simp
    have pl: "depth < XML_MAX_DEPTH" "name \<noteq> []" "tokenb name" "length name < 128" "hd name \<noteq> CHR ''!''"
      "\<forall>kv\<in>set as. attr_ok kv" "distinct (map fst as)" "apart cs" "\<forall>c\<in>set cs. xml_plain (XML_MAX_DEPTH - (depth + 1)) c"
      using plain k by (auto simp: list_all_iff)
    obtain m where n: "n = Suc m" using fuel by (cases n) auto
    define r where "r = (if cs = [] then ''/>'' @ rest else CHR ''>'' # LINE_END @ kids_text b depth name cs @ rest)"
    have s: "XmlSkipSpaces s = CHR ''<'' # name @ XmlBuildAttribute as @ r"
      using skip unfolding k print_tag append_assoc Skip_indent Skip_element by (simp add: element_text_def r_def)
    have r: "r \<noteq> []" "hd r \<in> {CHR ''/'', CHR ''>''}" by (simp_all add: r_def)
    have hdr: "XmlBuildAttribute as @ r \<noteq> []" "strchr xml_delims (hd (XmlBuildAttribute as @ r))"
    proof -
      show "XmlBuildAttribute as @ r \<noteq> []" using r by simp
      have "hd (XmlBuildAttribute as @ r) \<in> {CHR '' '', CHR ''/'', CHR ''>''}"
        using r by (cases as) (auto simp: XmlBuildAttribute_def split: prod.splits)
      then show "strchr xml_delims (hd (XmlBuildAttribute as @ r))" by (auto simp: strchr_def xml_delims_def)
    qed
    have "XmlParseAttributes None (XmlBuildAttribute as @ r) = Some (as, r)"
      using attrs_read [of as "[]" r] pl(6,7) r by (simp add: XmlParseAttributes_def)
    note node = node_tag [OF s pl(3,2,5,4) hdr this pl(1), of m]
    show "XmlParseNode n None depth s = Some (Inr (Some (XChild (reread depth (XNode k name as cs)) rest)))"
    proof (cases "cs = []")
      case True
      then show ?thesis unfolding n node by (simp add: r_def k XmlStartsWith_def)
    next
      case False
      then obtain c cs' where "cs = c # cs'" by (cases cs) auto
      then have "0 < XML_MAX_DEPTH - (depth + 1)" using pl(9) by (cases c) auto
      then have d: "depth + 1 < XML_MAX_DEPTH" by simp
      let ?t = "LINE_END @ kids_text b depth name cs @ rest"
      have "length (XmlSkipSpaces s) = Suc (length name + length (XmlBuildAttribute as) + Suc (length ?t))"
        using False by (simp add: s r_def)
      then have "length ?t < length s" using Skip_len [of s] by simp
      then have f: "2 * length ?t + 2 \<le> m" using fuel n by simp
      have "XmlSkipSpaces ?t = XmlSkipSpaces (kids_text b depth name cs @ rest)"
        using LINE_END_blank by (rule Skip_blanks)
      from children_read [OF kids pl(9,8,3) d this f]
      have "children_loop m None (depth + 1) [] ?t = Some (Inr (Some (reread_children depth cs, rest)))" by simp
      then show ?thesis using False unfolding n node by (simp add: r_def k XmlStartsWith_def)
    qed
  qed
qed

lemma header_read: "XmlParseHeader (XML_HEADER @ s) = Some (''UTF-8'', LINE_END @ s)"
  by (simp add: XML_HEADER_def XmlParseHeader_def XmlSkipSpaces_def XmlNextSub_def XmlNextToken_def header_loop.simps
      strchr_def xml_spaces_def xml_delims_def cstr_def LINE_END_def Let_def)

lemma document_read:
  assumes "xml_plain XML_MAX_DEPTH x" "XmlGetType x = XmlNodeTag"
  shows "XmlParseStringInternal iconv (XmlToDocument x b) = Some (Inr (Some (reread 0 x)))"
proof -
  let ?s = "LINE_END @ XmlToDocumentPrivate x b 0"
  have "XmlSkipSpaces ?s = XmlSkipSpaces (XmlToDocumentPrivate x b 0 @ [])"
    using LINE_END_blank Skip_blanks by simp
  then have "XmlParseNode (2 * length ?s + 2) None 0 ?s = Some (Inr (Some (XChild (reread 0 x) [])))"
    using reads_all [of b x] assms unfolding reads_def by (metis diff_zero le_add2 add_le_mono one_le_numeral order_refl)
  moreover have "strcaseeq ''UTF-8'' ''UTF-8''" by (simp add: strcaseeq_def)
  ultimately show ?thesis
    by (simp add: XmlParseStringInternal_def XmlToDocument_def header_read Let_def del: XmlParseNode.simps)
qed


section \<open>Properties\<close>

text \<open>
  C39: A document survives: parsing what \<open>ToDocument\<close> printed gives the tree back, every tag, attribute
  and entity, except that a text ends with the line end and the indentation the printer puts behind it;
  a tree without texts comes back as it was.
\<close>

theorem xml_roundtrip:
  assumes "xml_plain XML_MAX_DEPTH x" "XmlGetType x = XmlNodeTag"
  shows "XmlParseStringInternal iconv (XmlToDocument x b) = Some (Inr (Some (reread 0 x))) \<and>
    (no_text x \<longrightarrow> reread 0 x = x)"
  using document_read [OF assms] reread_no_text(1) by blast

definition sample_doc :: xml where
  "sample_doc = XNode XmlNodeTag ''a'' [(''k'', ''1 < 2'')] [XNode XmlNodeTag ''b'' [] [], XNode XmlNodeText ''x & y'' [] []]"

theorem xml_roundtrip_witness:
  "XmlParseStringInternal (\<lambda>_ _. None) (XmlToDocument sample_doc True) =
    Some (Inr (Some (XNode XmlNodeTag ''a'' [(''k'', ''1 < 2'')]
      [XNode XmlNodeTag ''b'' [] [], XNode XmlNodeText (''x & y'' @ [CHR 0x0D, CHR 0x0A]) [] []])))"
proof -
  have "xml_plain XML_MAX_DEPTH sample_doc"
    by (simp add: sample_doc_def XML_MAX_DEPTH_def tokenb_def strchr_def xml_delims_def attr_ok_def XmlEscape_def
        cstr_def xml_escape_byte_def xblank_def xml_spaces_def)
  moreover have "XmlGetType sample_doc = XmlNodeTag" by (simp add: sample_doc_def)
  moreover have "reread 0 sample_doc = XNode XmlNodeTag ''a'' [(''k'', ''1 < 2'')]
      [XNode XmlNodeTag ''b'' [] [], XNode XmlNodeText (''x & y'' @ [CHR 0x0D, CHR 0x0A]) [] []]"
    by (simp add: sample_doc_def text_gap_def LINE_END_def)
  ultimately show ?thesis using xml_roundtrip by metis
qed

section \<open>Where the parser reads through NULL\<close>

text \<open>
  A node without a name is created only for a tag whose name is missing, an empty CDATA section, a text that
  begins with a NUL byte, or a text the converter makes empty.
\<close>

definition xml_nameless :: "charset \<Rightarrow> string \<Rightarrow> bool" where
  "xml_nameless conv s \<longleftrightarrow>
     NUL \<in> set s \<or> (\<exists>c \<in> set xml_delims. c \<noteq> CHR ''/'' \<and> sublist [CHR ''<'', c] s) \<or>
     sublist ''<![CDATA[]]>'' s \<or> (\<exists>f d. conv = Some f \<and> d \<noteq> [] \<and> f d = Some [])"


definition fault_found :: "charset \<Rightarrow> string \<Rightarrow> fault + xfound option \<Rightarrow> bool" where
  "fault_found conv s r \<longleftrightarrow>
     (case r of
        Inl f \<Rightarrow> f = Null_Deref \<and> xml_nameless conv s
      | Inr None \<Rightarrow> True
      | Inr (Some (XClose t)) \<Rightarrow> suffix t s
      | Inr (Some (XChild x t)) \<Rightarrow> suffix t s)"




lemma fault_fail [simp]: "fault_found conv s (Inr None)"
  by (simp add: fault_found_def)



















lemma header_loop_stop: "header_loop enc (CHR ''?'' # s) = Some (enc, CHR ''?'' # s)"
  by (subst header_loop.simps) simp

lemma bare_header: "XmlParseHeader (CHR ''<'' # CHR ''?'' # CHR ''x'' # CHR ''m'' # CHR ''l'' # CHR '' '' # CHR ''?'' # CHR ''>'' # s) = Some (''UTF-8'', s)"
proof -
  have "XmlNextToken 64 (''xml ?>'' @ s) = Some (''xml'', '' ?>'' @ s)"
    by (simp add: XmlNextToken_def strchr_def xml_delims_def Let_def)
  then show ?thesis
    by (simp add: XmlParseHeader_def XmlSkipSpaces_def XmlNextSub_def header_loop_stop strchr_def xml_spaces_def cstr_def)
qed

lemmas parse_evals = XmlSkipSpaces_def strchr_def xml_spaces_def xml_delims_def XmlNextToken_def Create_tag Let_def XML_MAX_DEPTH_def
  XmlParseAttributes_def attrs_loop.simps XmlStartsWith_def XmlUnescape_def unescape_loop.simps XmlApplyCharset_def cstr_def
  xdone_def


text \<open>
  What the parser makes of inputs at its edges. An empty CDATA section and an element without a
  name read through NULL. The encoding is found only as the first attribute of the header. The name of
  a closing tag is not compared. A comment ends at its first \<open>>\<close>, the rest of it is text.
\<close>

theorem xml_parse_edges:
  "(0 < depth \<and> depth < XML_MAX_DEPTH \<longrightarrow> XmlParseNode (Suc n) None depth (''<![CDATA[]]>'' @ rest) = Some (Inl Null_Deref)) \<and>
    (depth < XML_MAX_DEPTH \<longrightarrow> XmlParseNode (Suc n) conv depth (''<>'' @ rest) = Some (Inl Null_Deref)) \<and>
    XmlParseHeader (''<?xml version='' @ [CHR 0x22] @ ''1.0'' @ [CHR 0x22] @ '' encoding='' @ [CHR 0x22] @ ''EUC-KR'' @ [CHR 0x22] @ ''?>'' @ rest)
      = Some (''UTF-8'', rest) \<and>
    XmlParseHeader (''<?xml encoding='' @ [CHR 0x22] @ ''EUC-KR'' @ [CHR 0x22] @ ''?>'' @ rest) = Some (''EUC-KR'', rest) \<and>
    XmlParseStringInternal iconv ''<?xml ?><a></b>'' = Some (Inr (Some (XNode XmlNodeTag ''a'' [] []))) \<and>
    XmlParseStringInternal iconv ''<?xml ?><a><!-- x > y --></a>'' =
      Some (Inr (Some (XNode XmlNodeTag ''a'' [] [XNode XmlNodeText ''y -->'' [] []])))"
proof (intro conjI impI)
  assume "0 < depth \<and> depth < XML_MAX_DEPTH"
  then show "XmlParseNode (Suc n) None depth (''<![CDATA[]]>'' @ rest) = Some (Inl Null_Deref)"
    using Create_node [of XmlNodeText "[]"]
    by (simp add: XmlSkipSpaces_def strchr_def xml_spaces_def XmlStartsWith_def XmlFindStr_def XmlApplyCharset_def xdone_def Let_def)
next
  assume "depth < XML_MAX_DEPTH"
  then show "XmlParseNode (Suc n) conv depth (''<>'' @ rest) = Some (Inl Null_Deref)"
    by (simp add: XmlSkipSpaces_def strchr_def xml_spaces_def xml_delims_def XmlNextToken_def Create_tag Let_def)
next
  show "XmlParseHeader (''<?xml version='' @ [CHR 0x22] @ ''1.0'' @ [CHR 0x22] @ '' encoding='' @ [CHR 0x22] @ ''EUC-KR'' @ [CHR 0x22] @ ''?>'' @ rest)
      = Some (''UTF-8'', rest)"
    by (simp add: XmlParseHeader_def XmlSkipSpaces_def XmlNextSub_def XmlNextToken_def header_loop.simps
      strchr_def xml_spaces_def xml_delims_def cstr_def Let_def)
next
  show "XmlParseHeader (''<?xml encoding='' @ [CHR 0x22] @ ''EUC-KR'' @ [CHR 0x22] @ ''?>'' @ rest) = Some (''EUC-KR'', rest)"
    by (simp add: XmlParseHeader_def XmlSkipSpaces_def XmlNextSub_def XmlNextToken_def header_loop.simps
      strchr_def xml_spaces_def xml_delims_def cstr_def Let_def)
next
  have "XmlParseNode (Suc (Suc (Suc m))) None 0 ''<a></b>'' = Some (Inr (Some (XChild (XNode XmlNodeTag ''a'' [] []) [])))" for m
    by (simp add: parse_evals)
  from this [of 13] show "XmlParseStringInternal iconv ''<?xml ?><a></b>'' = Some (Inr (Some (XNode XmlNodeTag ''a'' [] [])))"
    by (simp add: XmlParseStringInternal_def bare_header strcaseeq_def eval_nat_numeral del: XmlParseNode.simps)
next
  have "XmlParseNode (Suc (Suc (Suc (Suc (Suc m))))) None 0 ''<a><!-- x > y --></a>'' =
      Some (Inr (Some (XChild (XNode XmlNodeTag ''a'' [] [XNode XmlNodeText ''y -->'' [] []]) [])))" for m
    using Create_node [of XmlNodeText "''y -->''"] by (simp add: parse_evals)
  from this [of 39] show "XmlParseStringInternal iconv ''<?xml ?><a><!-- x > y --></a>'' =
      Some (Inr (Some (XNode XmlNodeTag ''a'' [] [XNode XmlNodeText ''y -->'' [] []])))"
    by (simp add: XmlParseStringInternal_def bare_header strcaseeq_def eval_nat_numeral del: XmlParseNode.simps)
qed

theorem xml_parse_edges_witness:
  "XmlParseNode 1 None 1 ''<![CDATA[]]></a>'' = Some (Inl Null_Deref) \<and> XmlParseNode 1 None 0 ''<>'' = Some (Inl Null_Deref)"
  using xml_parse_edges [of 1 0 "''</a>''" None "\<lambda>_ _. None"] xml_parse_edges [of 0 0 "[]" None "\<lambda>_ _. None"]
  by (simp add: XML_MAX_DEPTH_def del: XmlParseNode.simps)

text \<open>
  The conversion to JSON keeps what a node has under each name: its attributes with that name and
  its children with that name, in order, as one value or as the array of them; the document is the
  object with the value of the root under its name.
\<close>

theorem xml_to_json:
  assumes "single_text cs = None"
  shows "JsonObjectGet (json_of (XNode k n as cs)) key =
      grouped (map (\<lambda>kv. json_string (cstr (snd kv))) (filter (\<lambda>kv. fst kv = key) as)
        @ map json_of (filter (\<lambda>c. XmlGetName c = key) cs)) \<and>
    JsonObjectGet (XmlToJson x) key = (if key = XmlGetName x then Some (json_of x) else None)"
proof -
  have new: "is_object JsonObjectCreateInternal" "JsonObjectGet JsonObjectCreateInternal k = None" for k
    by (simp_all add: is_object_def JsonObjectCreateInternal_def JsonGetType_def JsonObjectGet_def)
  have "JsonObjectGet (XmlToJson x) key = (if key = XmlGetName x then Some (json_of x) else None)"
    using put_grouped_Get [where j = JsonObjectCreateInternal and n = "XmlGetName x" and vs = "[]" and v = "json_of x"] new
    by (simp add: XmlToJson_def snd_XmlToJson value_json_of grouped_def)
  with json_of_object [OF assms] show ?thesis by blast
qed

theorem xml_to_json_witness:
  "JsonObjectGet (json_of (XNode XmlNodeTag ''a'' [(''k'', ''v'')] [XNode XmlNodeTag ''b'' [] [], XNode XmlNodeTag ''b'' [] []])) ''b'' =
    Some (JArray [JObject [] [], JObject [] []])"
proof -
  let ?b = "XNode XmlNodeTag ''b'' [] []"
  have "single_text [?b, ?b] = None" by (simp add: single_text_def)
  from xml_to_json [OF this, of XmlNodeTag "''a''" "[(''k'', ''v'')]" "''b''"]
  have "JsonObjectGet (json_of (XNode XmlNodeTag ''a'' [(''k'', ''v'')] [?b, ?b])) ''b'' = grouped [json_of ?b, json_of ?b]"
    by (simp add: cstr_def)
  moreover have "json_of ?b = JObject [] []" by (simp add: json_of_def single_text_def JsonObjectCreateInternal_def Let_def)
  ultimately show ?thesis by (simp add: grouped_def)
qed

end
