(* ===== verification/Cmu_MemDebug.thy ===== *)
theory Cmu_MemDebug
  imports Cmu_Array Cmu_Bytes "HOL-Library.Log_Nat"
begin

text \<open>
  \<open>src/src/memdebug.c\<close>: the recycling allocator behind \<open>CMAlloc\<close> and \<open>CMFree\<close>. Blocks come in
  45 classes; a block of class \<open>i\<close> has \<open>2 ^ i + 1\<close> bytes behind its header. Each class keeps a list of
  free blocks linked through their headers and the sorted array of blocks in use, which is the array of
  \<open>Cmu_Array\<close>. A block is known by the address of its header; the pointer the client holds is that
  address plus the size of the header, so both are the same \<open>addr\<close> here.

  \<open>ms_heap\<close> is the memory that headers and blocks live in. It is total: a pointer the allocator never
  handed out leads to some bytes too. The system's \<open>malloc\<close> is an argument that answers with an address
  and the bytes found there; the stack walker's text is the argument \<open>trace\<close>; messages are the values of
  \<open>mem_report\<close> in \<open>ms_log\<close>. The model is that of a build without assertions (\<open>NDEBUG\<close>).
\<close>

section \<open>Data\<close>

type_synonym addr = nat

datatype mem_oper = CMMemSystem | CMMemRecycle | CMMemDebug

record mem_node =
  mn_size :: nat
  mn_next :: "addr ptr"
  mn_stack :: "string ptr"
  mn_index :: int
  mn_flag :: byte
  mn_block :: "byte list"

record mem_rcy =
  rc_cnt :: int
  rc_avlcnt :: int
  rc_head :: "addr ptr"
  rc_used :: "addr arr"
  rc_usedsize :: nat

datatype mem_report =
    Too_Big nat
  | Cannot_Allocate nat
  | Calloc_Overflow nat nat
  | Underflow_Written "string ptr"
  | Overflow_Written "string ptr"
  | Freeing_NULL
  | Index_Out_Of_Bound
  | Realloc_Too_Big nat
  | Not_Allocated
  | Strdup_NULL
  | Leak nat int nat
  | Leaked_Item nat nat "string ptr"

datatype mem_table = System_Table | Recycle_Table

record mem_state =
  ms_oper :: mem_oper
  ms_table :: mem_table
  ms_rcy :: "mem_rcy list"
  ms_heap :: "addr \<Rightarrow> mem_node"
  ms_log :: "mem_report list"

definition MEM_BLOCK_SZ :: nat where
  "MEM_BLOCK_SZ = 45"

definition sizeof_MemNode :: nat where
  "sizeof_MemNode = 32"

definition mem_report :: "mem_report \<Rightarrow> mem_state \<Rightarrow> mem_state" where
  "mem_report r s = s\<lparr>ms_log := ms_log s @ [r]\<rparr>"

fun addr_cmp :: "addr cmp" where
  "addr_cmp (Some a) (Some b) = (if b < a then 1 else if a < b then - 1 else 0)"
| "addr_cmp (Some a) NULL = 1"
| "addr_cmp NULL (Some b) = - 1"
| "addr_cmp NULL NULL = 0"

text \<open>\<open>(int)ceil(log2((double)size))\<close>, and 0 where that is negative (size 0).\<close>

definition MemRcyIndex :: "nat \<Rightarrow> nat" where
  "MemRcyIndex sz = ceillog2 sz"

section \<open>Operations\<close>

text \<open>
  What \<open>malloc\<close> answers: no memory, or the address of a new block and the bytes behind the header.
\<close>

type_synonym os_malloc = "nat \<Rightarrow> (addr \<times> byte list) option"

definition mem_stack_trace :: "mem_state \<Rightarrow> string \<Rightarrow> string ptr" where
  "mem_stack_trace s trace = (if ms_oper s = CMMemDebug then Some trace else NULL)"

text \<open>A block from the free list of class \<open>idx\<close>, or from the system.\<close>

definition mem_obtain :: "os_malloc \<Rightarrow> nat \<Rightarrow> mem_state \<Rightarrow> (addr \<times> mem_state) option" where
  "mem_obtain malloc idx s =
     (let list = ms_rcy s ! idx
      in case rc_head list of
           Some a \<Rightarrow>
             Some (a, s\<lparr>ms_rcy := (ms_rcy s)[idx := list\<lparr>rc_head := mn_next (ms_heap s a),
                                                        rc_avlcnt := rc_avlcnt list - 1\<rparr>]\<rparr>)
         | NULL \<Rightarrow>
             (case malloc (sizeof_MemNode + 2 ^ idx + 1) of
                None \<Rightarrow> None
              | Some (a, bytes) \<Rightarrow>
                  Some (a, s\<lparr>ms_rcy := (ms_rcy s)[idx := list\<lparr>rc_cnt := rc_cnt list + 1\<rparr>],
                             ms_heap := (ms_heap s)(a := (ms_heap s a)\<lparr>mn_index := int idx, mn_block := bytes\<rparr>)\<rparr>)))"

definition mem_use :: "alloc \<Rightarrow> nat \<Rightarrow> addr \<Rightarrow> nat \<Rightarrow> mem_state \<Rightarrow> mem_state" where
  "mem_use sysm idx a sz s =
     (let list = ms_rcy s ! idx
      in s\<lparr>ms_rcy := (ms_rcy s)[idx := list\<lparr>rc_used := snd (ArrayAdd sysm (rc_used list) (Some a) False),
                                           rc_usedsize := (rc_usedsize list + sz) mod 2 ^ 64\<rparr>]\<rparr>)"

definition mem_mark :: "string \<Rightarrow> addr \<Rightarrow> nat \<Rightarrow> mem_state \<Rightarrow> mem_state" where
  "mem_mark trace a sz s =
     s\<lparr>ms_heap := (ms_heap s)(a := (ms_heap s a)
         \<lparr>mn_size := sz, mn_next := NULL, mn_flag := 0xFF,
          mn_block := (mn_block (ms_heap s a))[sz := 0xFF],
          mn_stack := mem_stack_trace s trace\<rparr>)\<rparr>"

definition MemRcyAlloc ::
  "alloc \<Rightarrow> os_malloc \<Rightarrow> string \<Rightarrow> nat \<Rightarrow> mem_state \<Rightarrow> addr ptr \<times> mem_state" where
  "MemRcyAlloc sysm malloc trace sz s =
     (let idx = MemRcyIndex sz
      in if MEM_BLOCK_SZ \<le> idx \<or> 64 \<le> idx then (NULL, mem_report (Too_Big sz) s)
         else (case mem_obtain malloc idx s of
                 None \<Rightarrow> (NULL, mem_report (Cannot_Allocate sz) s)
               | Some (a, s1) \<Rightarrow> (Some a, mem_mark trace a sz (mem_use sysm idx a sz s1))))"

text \<open>\<open>memset\<close> and \<open>memcpy\<close> to the start of a block.\<close>

definition mem_fill :: "addr \<Rightarrow> byte list \<Rightarrow> mem_state \<Rightarrow> mem_state" where
  "mem_fill a bs s =
     s\<lparr>ms_heap := (ms_heap s)(a := (ms_heap s a)\<lparr>mn_block := memcpy (mn_block (ms_heap s a)) 0 bs\<rparr>)\<rparr>"

definition MemRcyCalloc ::
  "alloc \<Rightarrow> os_malloc \<Rightarrow> string \<Rightarrow> nat \<Rightarrow> nat \<Rightarrow> mem_state \<Rightarrow> addr ptr \<times> mem_state" where
  "MemRcyCalloc sysm malloc trace nmem sz s =
     (if nmem \<noteq> 0 \<and> sz > (2 ^ 64 - 1) div nmem then (NULL, mem_report (Calloc_Overflow nmem sz) s)
      else (let totsz = nmem * sz mod 2 ^ 64
            in case MemRcyAlloc sysm malloc trace totsz s of
                 (NULL, s1) \<Rightarrow> (NULL, s1)
               | (Some a, s1) \<Rightarrow>
                   (Some a, mem_fill a (replicate totsz 0) s1)))"

definition MemCheckFlow :: "mem_node \<Rightarrow> mem_report option" where
  "MemCheckFlow node =
     (if mn_flag node \<noteq> 0xFF then Some (Underflow_Written (mn_stack node))
      else if mn_block node ! mn_size node \<noteq> 0xFF then Some (Overflow_Written (mn_stack node))
      else None)"

definition mem_index_bad :: "mem_node \<Rightarrow> bool" where
  "mem_index_bad node \<longleftrightarrow> mn_index node < 0 \<or> int MEM_BLOCK_SZ \<le> mn_index node"

definition MemRcyFree :: "addr ptr \<Rightarrow> mem_state \<Rightarrow> mem_state" where
  "MemRcyFree ptr s =
     (case ptr of
        NULL \<Rightarrow> mem_report Freeing_NULL s
      | Some a \<Rightarrow>
          let node = ms_heap s a
          in if mem_index_bad node then mem_report Index_Out_Of_Bound s
             else let idx = nat (mn_index node); list = ms_rcy s ! idx
                  in case ArrayRemove (rc_used list) ptr of
                       (NULL, used) \<Rightarrow>
                         mem_report Not_Allocated (s\<lparr>ms_rcy := (ms_rcy s)[idx := list\<lparr>rc_used := used\<rparr>]\<rparr>)
                     | (Some _, used) \<Rightarrow>
                         (case MemCheckFlow node of
                            Some r \<Rightarrow> mem_report r (s\<lparr>ms_rcy := (ms_rcy s)[idx := list\<lparr>rc_used := used\<rparr>]\<rparr>)
                          | None \<Rightarrow>
                              s\<lparr>ms_heap := (ms_heap s)(a := node\<lparr>mn_stack := NULL, mn_next := rc_head list\<rparr>),
                                ms_rcy := (ms_rcy s)[idx := list\<lparr>rc_used := used, rc_head := Some a,
                                                                 rc_avlcnt := rc_avlcnt list + 1\<rparr>]\<rparr>))"

definition MemRcyRealloc ::
  "alloc \<Rightarrow> os_malloc \<Rightarrow> string \<Rightarrow> addr ptr \<Rightarrow> nat \<Rightarrow> mem_state \<Rightarrow> addr ptr \<times> mem_state" where
  "MemRcyRealloc sysm malloc trace ptr sz s =
     (let nidx = MemRcyIndex sz
      in case ptr of
           NULL \<Rightarrow> MemRcyAlloc sysm malloc trace sz s
         | Some a \<Rightarrow>
             let node = ms_heap s a
             in if mem_index_bad node then (NULL, mem_report Index_Out_Of_Bound s)
                else case MemCheckFlow node of
                  Some r \<Rightarrow> (NULL, mem_report r s)
                | None \<Rightarrow>
                    if MEM_BLOCK_SZ \<le> nidx then (NULL, mem_report (Realloc_Too_Big sz) s)
                    else if mn_index node = int nidx then
                      (let list = ms_rcy s ! nidx
                       in (ptr, s\<lparr>ms_rcy := (ms_rcy s)[nidx := list\<lparr>rc_usedsize :=
                                    nat ((int (rc_usedsize list) + (int sz - int (mn_size node))) mod 2 ^ 64)\<rparr>],
                                  ms_heap := (ms_heap s)(a := node\<lparr>mn_size := sz,
                                    mn_stack := mem_stack_trace s trace,
                                    mn_block := (mn_block node)[sz := 0xFF]\<rparr>)\<rparr>))
                    else
                      (case MemRcyAlloc sysm malloc trace sz s of
                         (NULL, s1) \<Rightarrow> (NULL, s1)
                       | (Some b, s1) \<Rightarrow>
                           let n = min sz (mn_size (ms_heap s1 a));
                               s2 = mem_fill b (take n (mn_block (ms_heap s1 a))) s1
                           in (Some b, MemRcyFree ptr s2)))"

definition MemRcyStrdup ::
  "alloc \<Rightarrow> os_malloc \<Rightarrow> string \<Rightarrow> string ptr \<Rightarrow> mem_state \<Rightarrow> addr ptr \<times> mem_state" where
  "MemRcyStrdup sysm malloc trace str s =
     (case str of
        NULL \<Rightarrow> (NULL, mem_report Strdup_NULL s)
      | Some t \<Rightarrow>
          (case MemRcyAlloc sysm malloc trace (length t + 1) s of
             (NULL, s1) \<Rightarrow> (NULL, s1)
           | (Some a, s1) \<Rightarrow>
               (Some a, mem_fill a (map of_char (t @ [NUL])) s1)))"

text \<open>
  A write of the client through its pointer: to the byte at offset \<open>off\<close>, or to the byte before the
  block, the guard \<open>flag\<close> of the header.
\<close>

definition mem_poke :: "addr \<Rightarrow> nat \<Rightarrow> byte \<Rightarrow> mem_state \<Rightarrow> mem_state" where
  "mem_poke a off b s =
     s\<lparr>ms_heap := (ms_heap s)(a := (ms_heap s a)\<lparr>mn_block := (mn_block (ms_heap s a))[off := b]\<rparr>)\<rparr>"

definition mem_poke_flag :: "addr \<Rightarrow> byte \<Rightarrow> mem_state \<Rightarrow> mem_state" where
  "mem_poke_flag a b s = s\<lparr>ms_heap := (ms_heap s)(a := (ms_heap s a)\<lparr>mn_flag := b\<rparr>)\<rparr>"

section \<open>Set up and clear\<close>

text \<open>The allocations of mutexes and arrays are taken to succeed, as the code does.\<close>

definition MemRcyInit :: "mem_state \<Rightarrow> mem_state" where
  "MemRcyInit s =
     s\<lparr>ms_table := Recycle_Table,
       ms_rcy := replicate MEM_BLOCK_SZ
         \<lparr>rc_cnt = 0, rc_avlcnt = 0, rc_head = NULL,
          rc_used = the (ArrayCreateInternal (\<lambda>_. True) 10 (Some addr_cmp) True True), rc_usedsize = 0\<rparr>\<rparr>"

definition MemDebugInit :: "mem_oper \<Rightarrow> mem_state \<Rightarrow> mem_state" where
  "MemDebugInit memoper s =
     (let s1 = s\<lparr>ms_oper := memoper\<rparr>
      in case memoper of CMMemSystem \<Rightarrow> s1 | _ \<Rightarrow> MemRcyInit s1)"

text \<open>The free list of a class, from its head; a list that loops has no value.\<close>

partial_function (option) mem_chain :: "(addr \<Rightarrow> mem_node) \<Rightarrow> addr ptr \<Rightarrow> addr list option" where
  "mem_chain h p =
     (case p of
        NULL \<Rightarrow> Some []
      | Some a \<Rightarrow> Option.bind (mem_chain h (mn_next (h a))) (\<lambda>as. Some (a # as)))"

definition mem_leaks :: "mem_state \<Rightarrow> nat \<Rightarrow> mem_report list" where
  "mem_leaks s i =
     (let list = ms_rcy s ! i
      in if 0 < ArrayGetSize (rc_used list) then
           Leak i (rc_cnt list - rc_avlcnt list) (rc_usedsize list) #
           (if ms_oper s = CMMemDebug
            then map (\<lambda>j. let node = ms_heap s (the (ArrayGetAt (rc_used list) j))
                          in Leaked_Item j (mn_size node) (mn_stack node))
                     [0..<ArrayGetSize (rc_used list)]
            else [])
         else [])"

text \<open>What is given back to the system for class \<open>i\<close>: the used array's callback, then the free list.\<close>

definition mem_release :: "mem_state \<Rightarrow> nat \<Rightarrow> addr list option" where
  "mem_release s i =
     (let list = ms_rcy s ! i
      in map_option (\<lambda>as. map the (ArrayDestroy (rc_used list)) @ as) (mem_chain (ms_heap s) (rc_head list)))"

fun mem_releases :: "mem_state \<Rightarrow> nat list \<Rightarrow> addr list option" where
  "mem_releases s [] = Some []"
| "mem_releases s (i # is) =
     (case mem_release s i of
        None \<Rightarrow> None
      | Some as \<Rightarrow> map_option (\<lambda>bs. as @ bs) (mem_releases s is))"

definition MemDebugClear :: "mem_state \<Rightarrow> (bool \<times> addr list \<times> mem_state) option" where
  "MemDebugClear s =
     (if ms_oper s = CMMemSystem then Some (True, [], s)
      else
        (case mem_releases s [0..<MEM_BLOCK_SZ] of
           None \<Rightarrow> None
         | Some freed \<Rightarrow>
             Some (\<forall>i \<in> set [0..<MEM_BLOCK_SZ]. \<not> 0 < ArrayGetSize (rc_used (ms_rcy s ! i)), freed,
                   s\<lparr>ms_log := ms_log s @ concat (map (mem_leaks s) [0..<MEM_BLOCK_SZ]),
                     ms_table := System_Table, ms_oper := CMMemSystem\<rparr>)))"


section \<open>The state of a class\<close>

definition is_addr :: "addr ptr \<Rightarrow> bool" where
  "is_addr p \<longleftrightarrow> p \<noteq> NULL"

lemma is_addr_Some [simp]: "is_addr (Some a)" "\<not> is_addr NULL"
  by (simp_all add: is_addr_def)

interpretation acmp: comparator addr_cmp is_addr
proof
  fix x y z
  show "is_addr x \<Longrightarrow> addr_cmp x x = 0" by (auto simp: is_addr_def)
  show "is_addr x \<Longrightarrow> is_addr y \<Longrightarrow> addr_cmp x y < 0 \<longleftrightarrow> 0 < addr_cmp y x"
    by (auto simp: is_addr_def split: if_splits)
  show "is_addr x \<Longrightarrow> is_addr y \<Longrightarrow> is_addr z \<Longrightarrow> addr_cmp x y \<le> 0 \<Longrightarrow> addr_cmp y z \<le> 0
      \<Longrightarrow> addr_cmp x z \<le> 0"
    by (auto simp: is_addr_def split: if_splits)
  show "is_addr x \<Longrightarrow> x \<noteq> NULL" by (simp add: is_addr_def)
qed

lemma addr_cmp_0 [simp]: "addr_cmp x y = 0 \<longleftrightarrow> x = y"
  by (cases x; cases y) auto

lemma find_same [simp]:
  "List.find (\<lambda>y. x = y) xs = (if x \<in> set xs then Some x else None)"
  by (induction xs) auto

text \<open>The blocks in use of a class.\<close>

definition rc_live :: "mem_rcy \<Rightarrow> addr set" where
  "rc_live l = {a. Some a \<in> set (items (rc_used l))}"

abbreviation used_inv :: "addr arr \<Rightarrow> bool" where
  "used_inv u \<equiv> sorted_inv addr_cmp is_addr u \<and> a_freecb u"

lemma used_items:
  assumes "used_inv u"
  shows "items u = map (Some \<circ> the) (items u)" "distinct (map the (items u))"
    "{a. Some a \<in> set (items u)} = set (map the (items u))"
proof -
  have n: "\<forall>x \<in> set (items u). x \<noteq> NULL" using assms by (auto simp: sorted_inv_def is_addr_def)
  then show eq: "items u = map (Some \<circ> the) (items u)"
    by (metis (mono_tags, lifting) comp_apply map_idI option.collapse)
  have "inj_on the (set (items u))" using n by (intro inj_onI) (metis option.expand)
  with acmp.distinct_items show "distinct (map the (items u))"
    using assms by (auto simp: distinct_map)
  show "{a. Some a \<in> set (items u)} = set (map the (items u))" using n by force
qed

lemma card_live: "used_inv (rc_used l) \<Longrightarrow> card (rc_live l) = a_size (rc_used l)"
  using used_items [of "rc_used l"] distinct_card [of "map the (items (rc_used l))"]
  by (simp add: rc_live_def sorted_inv_def)

lemma finite_live: "used_inv (rc_used l) \<Longrightarrow> finite (rc_live l)"
  using used_items(3) [of "rc_used l"] by (simp add: rc_live_def)

text \<open>Adding and removing a block in terms of the set of blocks in use.\<close>

lemma used_add:
  assumes "used_inv u" "a_size u < 2 ^ 32"
  shows "used_inv (snd (ArrayAdd sysm u (Some a) False))"
    "{b. Some b \<in> set (items (snd (ArrayAdd sysm u (Some a) False)))} =
       (if add_ok (fst (ArrayAdd sysm u (Some a) False)) then insert a {b. Some b \<in> set (items u)}
        else {b. Some b \<in> set (items u)})"
    "(\<And>n. sysm n) \<Longrightarrow> add_ok (fst (ArrayAdd sysm u (Some a) False))"
  using acmp.Add_sorted [of u "Some a" sysm False] assms
  by (auto simp: same_kind_def acmp.set_sorted_put ArrayCheckSize_def Let_def)

lemma used_remove:
  assumes "used_inv u" "a_size u < 2 ^ 32"
  shows "fst (ArrayRemove u (Some a)) = (if Some a \<in> set (items u) then Some a else NULL)"
    "used_inv (snd (ArrayRemove u (Some a)))"
    "{b. Some b \<in> set (items (snd (ArrayRemove u (Some a))))} = {b. Some b \<in> set (items u)} - {a}"
    "Some a \<notin> set (items u) \<Longrightarrow> snd (ArrayRemove u (Some a)) = u"
proof -
  note r = acmp.Remove_sorted [of u "Some a"]
  show f: "fst (ArrayRemove u (Some a)) = (if Some a \<in> set (items u) then Some a else NULL)"
    using r assms by auto
  show "used_inv (snd (ArrayRemove u (Some a)))" using r assms by (auto simp: same_kind_def)
  show "{b. Some b \<in> set (items (snd (ArrayRemove u (Some a))))} = {b. Some b \<in> set (items u)} - {a}"
    using r assms by auto
  show "Some a \<notin> set (items u) \<Longrightarrow> snd (ArrayRemove u (Some a)) = u"
    using acmp.Find_sorted [of u "Some a"] assms
    by (auto simp: ArrayRemove_def split: prod.splits if_splits)
qed

text \<open>The free list as a path through the headers.\<close>

fun free_path :: "(addr \<Rightarrow> mem_node) \<Rightarrow> addr ptr \<Rightarrow> addr list \<Rightarrow> bool" where
  "free_path h p [] \<longleftrightarrow> p = NULL"
| "free_path h p (a # as) \<longleftrightarrow> p = Some a \<and> free_path h (mn_next (h a)) as"

lemma free_path_chain: "free_path h p as \<Longrightarrow> mem_chain h p = Some as"
  by (induction as arbitrary: p) (simp_all add: mem_chain.simps)

lemma free_path_unique: "free_path h p as \<Longrightarrow> free_path h p bs \<Longrightarrow> as = bs"
  using free_path_chain [of h p as] free_path_chain [of h p bs] by simp

lemma free_path_cong:
  "free_path h p as \<Longrightarrow> (\<And>a. a \<in> set as \<Longrightarrow> mn_next (h' a) = mn_next (h a)) \<Longrightarrow> free_path h' p as"
  by (induction as arbitrary: p) auto

text \<open>
  Class \<open>i\<close> with the free blocks \<open>as\<close>: the counters, every block of the class with its index and room
  for \<open>2 ^ i + 1\<close> bytes, in the free list or in use and not both, and what a client asked for within the
  block.
\<close>

definition rcy_inv :: "(addr \<Rightarrow> mem_node) \<Rightarrow> nat \<Rightarrow> mem_rcy \<Rightarrow> addr list \<Rightarrow> bool" where
  "rcy_inv h i l as \<longleftrightarrow>
     used_inv (rc_used l) \<and> free_path h (rc_head l) as \<and> distinct as \<and>
     rc_avlcnt l = int (length as) \<and> rc_live l \<inter> set as = {} \<and>
     (\<forall>a \<in> rc_live l \<union> set as. mn_index (h a) = int i \<and> length (mn_block (h a)) = 2 ^ i + 1) \<and>
     (\<forall>a \<in> rc_live l. mn_size (h a) \<le> 2 ^ i) \<and>
     rc_avlcnt l + int (card (rc_live l)) \<le> rc_cnt l"

definition mem_inv :: "mem_state \<Rightarrow> bool" where
  "mem_inv s \<longleftrightarrow> length (ms_rcy s) = MEM_BLOCK_SZ \<and>
     (\<forall>i < MEM_BLOCK_SZ. \<exists>as. rcy_inv (ms_heap s) i (ms_rcy s ! i) as)"

definition mem_live :: "mem_state \<Rightarrow> addr set" where
  "mem_live s = (\<Union>i < MEM_BLOCK_SZ. rc_live (ms_rcy s ! i))"

definition mem_avail :: "mem_state \<Rightarrow> addr set" where
  "mem_avail s = (\<Union>i < MEM_BLOCK_SZ. set (the (mem_chain (ms_heap s) (rc_head (ms_rcy s ! i)))))"

text \<open>
  What \<open>malloc\<close> promises: the bytes asked for, at an address that is not handed out. And room for
  \<open>k\<close> more blocks in each class than are in use, in what a \<open>uint32_t\<close> counts.
\<close>

definition malloc_ok :: "os_malloc \<Rightarrow> mem_state \<Rightarrow> bool" where
  "malloc_ok malloc s \<longleftrightarrow> (\<forall>n a bytes. malloc n = Some (a, bytes) \<longrightarrow>
     a \<notin> mem_live s \<and> a \<notin> mem_avail s \<and> length bytes = n - sizeof_MemNode)"

definition mem_room :: "nat \<Rightarrow> mem_state \<Rightarrow> bool" where
  "mem_room k s \<longleftrightarrow> (\<forall>i < MEM_BLOCK_SZ. a_size (rc_used (ms_rcy s ! i)) + k < 2 ^ 32)"

section \<open>How the classes fit together\<close>

abbreviation class_of :: "mem_state \<Rightarrow> nat \<Rightarrow> addr set" where
  "class_of s i \<equiv> rc_live (ms_rcy s ! i) \<union> set (the (mem_chain (ms_heap s) (rc_head (ms_rcy s ! i))))"

lemma rcy_inv_chain: "rcy_inv h i l as \<Longrightarrow> the (mem_chain h (rc_head l)) = as"
  by (auto simp: rcy_inv_def dest: free_path_chain)

lemma mem_invD:
  assumes "mem_inv s" "i < MEM_BLOCK_SZ"
  shows "rcy_inv (ms_heap s) i (ms_rcy s ! i) (the (mem_chain (ms_heap s) (rc_head (ms_rcy s ! i))))"
    "i < length (ms_rcy s)"
  using assms rcy_inv_chain by (force simp: mem_inv_def)+

lemma class_index:
  assumes "mem_inv s" "i < MEM_BLOCK_SZ" "a \<in> class_of s i"
  shows "mn_index (ms_heap s a) = int i" "length (mn_block (ms_heap s a)) = 2 ^ i + 1"
  using mem_invD(1) [OF assms(1,2)] assms(3) by (auto simp: rcy_inv_def)

lemma class_disjoint:
  assumes "mem_inv s" "i < MEM_BLOCK_SZ" "j < MEM_BLOCK_SZ" "a \<in> class_of s i" "a \<in> class_of s j"
  shows "i = j"
  using class_index(1) [OF assms(1,2,4)] class_index(1) [OF assms(1,3,5)] by simp

lemma live_iff_class:
  assumes "mem_inv s" "i < MEM_BLOCK_SZ" "a \<in> class_of s i"
  shows "a \<in> mem_live s \<longleftrightarrow> a \<in> rc_live (ms_rcy s ! i)"
proof
  assume "a \<in> mem_live s"
  then obtain j where j: "j < MEM_BLOCK_SZ" "a \<in> rc_live (ms_rcy s ! j)" by (auto simp: mem_live_def)
  with class_disjoint [OF assms(1,2) j(1) assms(3)] show "a \<in> rc_live (ms_rcy s ! i)" by auto
next
  assume "a \<in> rc_live (ms_rcy s ! i)"
  with assms(2) show "a \<in> mem_live s" by (auto simp: mem_live_def)
qed

lemma rcy_inv_frame:
  assumes "rcy_inv h i l as" "\<And>a. a \<in> rc_live l \<union> set as \<Longrightarrow> h' a = h a"
  shows "rcy_inv h' i l as"
  using assms free_path_cong [of h "rc_head l" as h'] by (simp add: rcy_inv_def)

text \<open>A change of class \<open>idx\<close> and of one of its headers, or of a header that is in no class.\<close>

lemma mem_inv_update:
  assumes inv: "mem_inv s" and idx: "idx < MEM_BLOCK_SZ"
    and ok: "rcy_inv ((ms_heap s)(a := n)) idx l as"
    and own: "\<And>i. i < MEM_BLOCK_SZ \<Longrightarrow> i \<noteq> idx \<Longrightarrow> a \<notin> class_of s i"
    and s': "ms_rcy s' = (ms_rcy s)[idx := l]" "ms_heap s' = (ms_heap s)(a := n)"
  shows "mem_inv s'"
    "mem_live s' = rc_live l \<union> (\<Union>i \<in> {..<MEM_BLOCK_SZ} - {idx}. rc_live (ms_rcy s ! i))"
proof -
  have "\<exists>as. rcy_inv (ms_heap s') i (ms_rcy s' ! i) as" if "i < MEM_BLOCK_SZ" for i
  proof (cases "i = idx")
    case True
    with ok s' mem_invD(2) [OF inv idx] show ?thesis by auto
  next
    case False
    have "rcy_inv (ms_heap s') i (ms_rcy s ! i) (the (mem_chain (ms_heap s) (rc_head (ms_rcy s ! i))))"
      by (rule rcy_inv_frame [OF mem_invD(1) [OF inv that]]) (use own [OF that False] s' in auto)
    with False s' show ?thesis by auto
  qed
  then show "mem_inv s'" using inv s' by (simp add: mem_inv_def)
  show "mem_live s' = rc_live l \<union> (\<Union>i \<in> {..<MEM_BLOCK_SZ} - {idx}. rc_live (ms_rcy s ! i))"
    using s' idx mem_invD(2) [OF inv idx]
    by (auto simp: mem_live_def nth_list_update split: if_splits)
qed

lemma live_split:
  assumes "idx < MEM_BLOCK_SZ"
  shows "mem_live s = rc_live (ms_rcy s ! idx) \<union> (\<Union>i \<in> {..<MEM_BLOCK_SZ} - {idx}. rc_live (ms_rcy s ! i))"
  using assms by (auto simp: mem_live_def)

lemma mem_inv_report [simp]:
  "mem_inv (mem_report r s) = mem_inv s" "mem_live (mem_report r s) = mem_live s"
  "mem_avail (mem_report r s) = mem_avail s" "ms_heap (mem_report r s) = ms_heap s"
  "ms_rcy (mem_report r s) = ms_rcy s"
  by (simp_all add: mem_report_def mem_inv_def mem_live_def mem_avail_def)

section \<open>Allocation\<close>

text \<open>The block that is taken belongs to no other class, is not in use, and has room for its class.\<close>

lemma obtain_spec:
  assumes inv: "mem_inv s" and idx: "idx < MEM_BLOCK_SZ" and os: "malloc_ok malloc s"
    and o: "mem_obtain malloc idx s = Some (a, s1)"
  obtains l n as where
    "ms_rcy s1 = (ms_rcy s)[idx := l]" "ms_heap s1 = (ms_heap s)(a := n)"
    "rc_used l = rc_used (ms_rcy s ! idx)" "rcy_inv (ms_heap s1) idx l as"
    "a \<notin> rc_live l" "a \<notin> set as" "mn_index n = int idx" "length (mn_block n) = 2 ^ idx + 1"
    "rc_avlcnt l + int (card (rc_live l)) < rc_cnt l"
    "\<And>i. i < MEM_BLOCK_SZ \<Longrightarrow> i \<noteq> idx \<Longrightarrow> a \<notin> class_of s i" "ms_oper s1 = ms_oper s"
    "rc_usedsize l = rc_usedsize (ms_rcy s ! idx)" "ms_log s1 = ms_log s"
proof -
  let ?l = "ms_rcy s ! idx"
  note ri = mem_invD(1) [OF inv idx]
  show thesis
  proof (cases "rc_head ?l")
    case None
    with o obtain bs where m: "malloc (sizeof_MemNode + 2 ^ idx + 1) = Some (a, bs)"
      and s1: "s1 = s\<lparr>ms_rcy := (ms_rcy s)[idx := ?l\<lparr>rc_cnt := rc_cnt ?l + 1\<rparr>],
        ms_heap := (ms_heap s)(a := (ms_heap s a)\<lparr>mn_index := int idx, mn_block := bs\<rparr>)\<rparr>"
      by (auto simp: mem_obtain_def Let_def split: option.splits)
    from os m have f: "a \<notin> mem_live s" "a \<notin> mem_avail s" "length bs = 2 ^ idx + 1"
      by (auto simp: malloc_ok_def)
    then have own: "a \<notin> class_of s i" if "i < MEM_BLOCK_SZ" for i
      using that by (auto simp: mem_live_def mem_avail_def)
    have a: "a \<notin> rc_live ?l" using own [OF idx] by auto
    from None ri have "rcy_inv (ms_heap s1) idx (?l\<lparr>rc_cnt := rc_cnt ?l + 1\<rparr>) []"
      using rcy_inv_frame [OF ri, of "ms_heap s1"] own [OF idx] s1
      by (auto simp: rcy_inv_def rc_live_def mem_chain.simps)
    with s1 f ri own a show thesis
      by (intro that [of "?l\<lparr>rc_cnt := rc_cnt ?l + 1\<rparr>" "(ms_heap s a)\<lparr>mn_index := int idx, mn_block := bs\<rparr>" "[]"])
        (auto simp: rcy_inv_def rc_live_def)
  next
    case (Some b)
    define as where "as = the (mem_chain (ms_heap s) (rc_head ?l))"
    from Some o have b: "b = a" and s1: "s1 = s\<lparr>ms_rcy := (ms_rcy s)[idx := ?l\<lparr>rc_head := mn_next (ms_heap s a),
        rc_avlcnt := rc_avlcnt ?l - 1\<rparr>]\<rparr>"
      by (auto simp: mem_obtain_def Let_def)
    have ri': "rcy_inv (ms_heap s) idx ?l as" using ri by (simp add: as_def)
    then obtain cs where as: "as = a # cs" and p: "free_path (ms_heap s) (mn_next (ms_heap s a)) cs"
      using Some b by (cases as) (auto simp: rcy_inv_def)
    have ac: "a \<in> class_of s idx" using as by (simp flip: as_def)
    then have own: "\<And>i. i < MEM_BLOCK_SZ \<Longrightarrow> i \<noteq> idx \<Longrightarrow> a \<notin> class_of s i"
      using class_disjoint [OF inv idx] by blast
    have "rcy_inv (ms_heap s) idx (?l\<lparr>rc_head := mn_next (ms_heap s a), rc_avlcnt := rc_avlcnt ?l - 1\<rparr>) cs"
      using ri' as p by (auto simp: rcy_inv_def rc_live_def)
    with s1 ri' as own class_index [OF inv idx ac] show thesis
      by (intro that [of "?l\<lparr>rc_head := mn_next (ms_heap s a), rc_avlcnt := rc_avlcnt ?l - 1\<rparr>" "ms_heap s a" cs])
        (auto simp: rcy_inv_def rc_live_def)
  qed
qed

lemma index_room: "sz \<le> 2 ^ MemRcyIndex sz"
  by (simp add: MemRcyIndex_def le_two_power_ceillog2)

lemma alloc_cases:
  assumes inv: "mem_inv s" and os: "malloc_ok malloc s" and room: "mem_room 0 s"
    and alloc: "MemRcyAlloc sysm malloc trace sz s = (Some a, s')"
  obtains l n as where
    "MemRcyIndex sz < MEM_BLOCK_SZ"
    "ms_rcy s' = (ms_rcy s)[MemRcyIndex sz := l]" "ms_heap s' = (ms_heap s)(a := n)"
    "rcy_inv (ms_heap s') (MemRcyIndex sz) l as" "a \<notin> rc_live (ms_rcy s ! MemRcyIndex sz)"
    "\<And>i. i < MEM_BLOCK_SZ \<Longrightarrow> i \<noteq> MemRcyIndex sz \<Longrightarrow> a \<notin> class_of s i"
    "rc_live l = rc_live (ms_rcy s ! MemRcyIndex sz) \<or> rc_live l = insert a (rc_live (ms_rcy s ! MemRcyIndex sz))"
    "(\<And>n. sysm n) \<Longrightarrow> rc_live l = insert a (rc_live (ms_rcy s ! MemRcyIndex sz))"
    "mn_size n = sz" "mn_index n = int (MemRcyIndex sz)" "length (mn_block n) = 2 ^ MemRcyIndex sz + 1"
    "mn_flag n = 0xFF" "mn_block n ! sz = 0xFF" "a \<notin> set as" "ms_log s' = ms_log s"
    "mn_stack n = mem_stack_trace s trace"
proof -
  let ?i = "MemRcyIndex sz"
  from alloc obtain s1 where idx: "?i < MEM_BLOCK_SZ" and o: "mem_obtain malloc ?i s = Some (a, s1)"
    and s': "s' = mem_mark trace a sz (mem_use sysm ?i a sz s1)"
    by (auto simp: MemRcyAlloc_def Let_def split: if_splits option.splits)
  from obtain_spec [OF inv idx os o] obtain l n as where
    o: "ms_rcy s1 = (ms_rcy s)[?i := l]" "ms_heap s1 = (ms_heap s)(a := n)"
      "rc_used l = rc_used (ms_rcy s ! ?i)" "rcy_inv (ms_heap s1) ?i l as"
      "a \<notin> rc_live l" "a \<notin> set as" "mn_index n = int ?i" "length (mn_block n) = 2 ^ ?i + 1"
      "rc_avlcnt l + int (card (rc_live l)) < rc_cnt l"
      "\<And>i. i < MEM_BLOCK_SZ \<Longrightarrow> i \<noteq> ?i \<Longrightarrow> a \<notin> class_of s i" "ms_oper s1 = ms_oper s" "ms_log s1 = ms_log s"
    by metis
  define u where "u = snd (ArrayAdd sysm (rc_used l) (Some a) False)"
  define l' where "l' = l\<lparr>rc_used := u, rc_usedsize := (rc_usedsize l + sz) mod 2 ^ 64\<rparr>"
  define n' where "n' = n\<lparr>mn_size := sz, mn_next := NULL, mn_flag := 0xFF,
      mn_block := (mn_block n)[sz := 0xFF], mn_stack := mem_stack_trace s trace\<rparr>"
  have ilen: "?i < length (ms_rcy s)" using mem_invD(2) [OF inv idx] .
  have rcy: "ms_rcy s' = (ms_rcy s)[?i := l']" and heap: "ms_heap s' = (ms_heap s)(a := n')"
    and lg: "ms_log s' = ms_log s"
    using o ilen by (simp_all add: s' mem_mark_def mem_use_def Let_def l'_def u_def n'_def mem_stack_trace_def)
  have ui: "used_inv (rc_used l)" using o(4) by (simp add: rcy_inv_def)
  have sz: "a_size (rc_used l) < 2 ^ 32" using room idx o(3) by (simp add: mem_room_def)
  note add = used_add [OF ui sz, of sysm a, folded u_def]
  have live: "rc_live l' = rc_live l \<or> rc_live l' = insert a (rc_live l)"
    using add(2) by (auto simp: rc_live_def l'_def)
  have grant: "rc_live l' = insert a (rc_live l)" if "\<And>n. sysm n"
    using add(2,3) that by (auto simp: rc_live_def l'_def)
  have eq: "rc_live l = rc_live (ms_rcy s ! ?i)" using o(3) by (simp add: rc_live_def)
  have room: "sz < length (mn_block n)" using index_room [of sz] o(8) by simp
  have fin: "finite (rc_live l)" using finite_live [OF ui] .
  have "card (rc_live l') \<le> card (rc_live l) + 1"
    using live card_insert_le_m1 fin o(5) by (auto simp: card_insert_if)
  then have cnt: "rc_avlcnt l + int (card (rc_live l')) \<le> rc_cnt l" using o(9) by linarith
  have ri: "rcy_inv (ms_heap s') ?i l as"
    by (rule rcy_inv_frame [OF o(4)]) (use o(2,5,6) heap in auto)
  have at: "mn_index (ms_heap s' a) = int ?i" "length (mn_block (ms_heap s' a)) = 2 ^ ?i + 1"
    "mn_size (ms_heap s' a) \<le> 2 ^ ?i"
    using o(7,8) index_room [of sz] by (simp_all add: heap n'_def)
  have "rcy_inv (ms_heap s') ?i l' as"
    unfolding rcy_inv_def
  proof (intro conjI)
    show "\<forall>b \<in> rc_live l' \<union> set as. mn_index (ms_heap s' b) = int ?i \<and> length (mn_block (ms_heap s' b)) = 2 ^ ?i + 1"
      using ri live at by (auto simp: rcy_inv_def)
    show "\<forall>b \<in> rc_live l'. mn_size (ms_heap s' b) \<le> 2 ^ ?i"
      using ri live at by (auto simp: rcy_inv_def)
    show "rc_live l' \<inter> set as = {}" using live ri o(6) by (auto simp: rcy_inv_def)
  qed (use ri add(1) cnt in \<open>auto simp: rcy_inv_def l'_def\<close>)
  show thesis
  proof (rule that [of l' n' as])
    show "rcy_inv (ms_heap s') ?i l' as" by fact
    show "rc_live l' = insert a (rc_live (ms_rcy s ! ?i))" if "\<And>n. sysm n" using grant [OF that] eq by simp
    show "a \<notin> class_of s i" if "i < MEM_BLOCK_SZ" "i \<noteq> ?i" for i using o(10) [OF that] .
  qed (use idx rcy heap eq live o(5,6,7,8) room lg in \<open>simp_all add: n'_def\<close>)
qed

lemma alloc_spec:
  assumes inv: "mem_inv s" and os: "malloc_ok malloc s" and room: "mem_room 0 s"
    and alloc: "MemRcyAlloc sysm malloc trace sz s = (Some a, s')"
  shows "mem_inv s'" "a \<notin> mem_live s" "mem_live s' \<subseteq> insert a (mem_live s)" "mem_live s \<subseteq> mem_live s'"
    "(\<And>n. sysm n) \<Longrightarrow> mem_live s' = insert a (mem_live s)"
    "\<And>b. b \<noteq> a \<Longrightarrow> ms_heap s' b = ms_heap s b" "mn_size (ms_heap s' a) = sz"
    "sz < length (mn_block (ms_heap s' a))" "MemCheckFlow (ms_heap s' a) = None"
    "mn_index (ms_heap s' a) = int (MemRcyIndex sz)" "MemRcyIndex sz < MEM_BLOCK_SZ"
    "length (mn_block (ms_heap s' a)) = 2 ^ MemRcyIndex sz + 1" "ms_log s' = ms_log s"
proof -
  let ?i = "MemRcyIndex sz"
  obtain l n as where
    c: "?i < MEM_BLOCK_SZ" "ms_rcy s' = (ms_rcy s)[?i := l]" "ms_heap s' = (ms_heap s)(a := n)"
      "rcy_inv (ms_heap s') ?i l as" "a \<notin> rc_live (ms_rcy s ! ?i)"
      "\<And>i. i < MEM_BLOCK_SZ \<Longrightarrow> i \<noteq> ?i \<Longrightarrow> a \<notin> class_of s i"
      "rc_live l = rc_live (ms_rcy s ! ?i) \<or> rc_live l = insert a (rc_live (ms_rcy s ! ?i))"
      "(\<And>n. sysm n) \<Longrightarrow> rc_live l = insert a (rc_live (ms_rcy s ! ?i))"
      "mn_size n = sz" "mn_index n = int ?i" "length (mn_block n) = 2 ^ ?i + 1"
      "mn_flag n = 0xFF" "mn_block n ! sz = 0xFF" "a \<notin> set as" "ms_log s' = ms_log s"
      "mn_stack n = mem_stack_trace s trace"
    by (rule alloc_cases [OF inv os room alloc]) blast
  note up = mem_inv_update [OF inv c(1) c(4) [unfolded c(3)] c(6) c(2,3)]
  show "mem_inv s'" by (rule up(1))
  show "a \<notin> mem_live s"
    using c(1,5,6) unfolding live_split [OF c(1)] by auto
  show "mem_live s' \<subseteq> insert a (mem_live s)" "mem_live s \<subseteq> mem_live s'"
    using up(2) c(7) live_split [OF c(1), of s] by auto
  show "(\<And>n. sysm n) \<Longrightarrow> mem_live s' = insert a (mem_live s)"
    using up(2) c(8) live_split [OF c(1), of s] by auto
  show "mn_size (ms_heap s' a) = sz" "mn_index (ms_heap s' a) = int ?i" "?i < MEM_BLOCK_SZ"
    "length (mn_block (ms_heap s' a)) = 2 ^ ?i + 1" "\<And>b. b \<noteq> a \<Longrightarrow> ms_heap s' b = ms_heap s b"
    "MemCheckFlow (ms_heap s' a) = None" "ms_log s' = ms_log s"
    using c by (simp_all add: MemCheckFlow_def)
  show "sz < length (mn_block (ms_heap s' a))" using c index_room [of sz] by simp
qed

lemma alloc_NULL:
  assumes "MemRcyAlloc sysm malloc trace sz s = (NULL, s')"
  shows "ms_rcy s' = ms_rcy s" "ms_heap s' = ms_heap s"
    "ms_log s' = ms_log s @ [if MEM_BLOCK_SZ \<le> MemRcyIndex sz then Too_Big sz else Cannot_Allocate sz]"
  using assms
  by (auto simp: MemRcyAlloc_def Let_def mem_report_def MEM_BLOCK_SZ_def split: if_splits option.splits)

lemma alloc_inv:
  assumes "mem_inv s" "malloc_ok malloc s" "mem_room 0 s"
  shows "mem_inv (snd (MemRcyAlloc sysm malloc trace sz s))"
proof (cases "MemRcyAlloc sysm malloc trace sz s")
  case (Pair p s')
  with alloc_spec(1) [OF assms] alloc_NULL [of sysm malloc trace sz s] assms(1) show ?thesis
    by (cases p) (auto simp: mem_inv_def)
qed

section \<open>Release\<close>

lemma free_not_live:
  assumes "mem_inv s" "mem_room 0 s" "a \<notin> mem_live s"
  shows "MemRcyFree (Some a) s
    = mem_report (if mem_index_bad (ms_heap s a) then Index_Out_Of_Bound else Not_Allocated) s"
proof (cases "mem_index_bad (ms_heap s a)")
  case True
  then show ?thesis by (simp add: MemRcyFree_def)
next
  case False
  define i where "i = nat (mn_index (ms_heap s a))"
  have i: "i < MEM_BLOCK_SZ" using False unfolding mem_index_bad_def i_def MEM_BLOCK_SZ_def by linarith
  let ?l = "ms_rcy s ! i"
  have u: "used_inv (rc_used ?l)" "a_size (rc_used ?l) < 2 ^ 32"
    using mem_invD(1) [OF assms(1) i] assms(2) i by (auto simp: rcy_inv_def mem_room_def)
  have "Some a \<notin> set (items (rc_used ?l))"
    using assms(3) i by (auto simp: mem_live_def rc_live_def)
  then have "ArrayRemove (rc_used ?l) (Some a) = (NULL, rc_used ?l)"
    using used_remove(1,4) [OF u, of a] by (metis prod.collapse)
  then show ?thesis using False mem_invD(2) [OF assms(1) i]
    by (simp add: MemRcyFree_def Let_def mem_report_def flip: i_def)
qed

lemma live_class:
  assumes "mem_inv s" "a \<in> mem_live s"
  obtains i where "i < MEM_BLOCK_SZ" "mn_index (ms_heap s a) = int i" "a \<in> rc_live (ms_rcy s ! i)"
    "length (mn_block (ms_heap s a)) = 2 ^ i + 1" "mn_size (ms_heap s a) \<le> 2 ^ i"
proof -
  from assms(2) obtain i where i: "i < MEM_BLOCK_SZ" "a \<in> rc_live (ms_rcy s ! i)"
    by (auto simp: mem_live_def)
  with mem_invD(1) [OF assms(1) i(1)] that show thesis by (auto simp: rcy_inv_def)
qed

lemma free_live:
  assumes inv: "mem_inv s" and room: "mem_room 0 s" and live: "a \<in> mem_live s"
  defines "s' \<equiv> MemRcyFree (Some a) s"
  shows "mem_inv s'" "mem_live s' = mem_live s - {a}"
    "ms_heap s' = (if MemCheckFlow (ms_heap s a) = None
       then (ms_heap s)(a := (ms_heap s a)\<lparr>mn_stack := NULL, mn_next := mn_next (ms_heap s' a)\<rparr>) else ms_heap s)"
    "ms_log s' = ms_log s @ (case MemCheckFlow (ms_heap s a) of None \<Rightarrow> [] | Some r \<Rightarrow> [r])"
    "MemCheckFlow (ms_heap s a) = None \<Longrightarrow> a \<in> mem_avail s'"
    "MemCheckFlow (ms_heap s a) = None \<Longrightarrow>
       rc_head (ms_rcy s' ! nat (mn_index (ms_heap s a))) = Some a"
proof -
  obtain i where i: "i < MEM_BLOCK_SZ" "mn_index (ms_heap s a) = int i" "a \<in> rc_live (ms_rcy s ! i)"
    "length (mn_block (ms_heap s a)) = 2 ^ i + 1"
    using live_class [OF inv live] by metis
  let ?l = "ms_rcy s ! i" and ?n = "ms_heap s a"
  define as where "as = the (mem_chain (ms_heap s) (rc_head ?l))"
  define u where "u = snd (ArrayRemove (rc_used ?l) (Some a))"
  have ri: "rcy_inv (ms_heap s) i ?l as" using mem_invD(1) [OF inv i(1)] by (simp add: as_def)
  have ilen: "i < length (ms_rcy s)" using mem_invD(2) [OF inv i(1)] .
  have ui: "used_inv (rc_used ?l)" "a_size (rc_used ?l) < 2 ^ 32"
    using ri room i(1) by (auto simp: rcy_inv_def mem_room_def)
  note rem = used_remove [OF ui, of a, folded u_def]
  have r: "ArrayRemove (rc_used ?l) (Some a) = (Some a, u)"
    using rem(1) i(3) by (metis mem_Collect_eq prod.collapse rc_live_def u_def)
  have bad: "\<not> mem_index_bad ?n" using i(1,2) by (simp add: mem_index_bad_def)
  have own: "\<And>j. j < MEM_BLOCK_SZ \<Longrightarrow> j \<noteq> i \<Longrightarrow> a \<notin> class_of s j"
    using class_disjoint [OF inv i(1)] i(3) by blast
  have others: "a \<notin> (\<Union>j \<in> {..<MEM_BLOCK_SZ} - {i}. rc_live (ms_rcy s ! j))" using own by auto
  have lu: "rc_live (l\<lparr>rc_used := u\<rparr>) = rc_live ?l - {a}" for l :: mem_rcy
    using rem(3) by (simp add: rc_live_def)
  have card: "card (rc_live ?l - {a}) + 1 = card (rc_live ?l)"
    using i(3) finite_live [OF ui(1)] card_Suc_Diff1 [of "rc_live ?l" a] by simp
  have anot: "a \<notin> set as" using ri i(3) by (auto simp: rcy_inv_def)
  have eqs: "ms_rcy s' = (ms_rcy s)[i := l] \<Longrightarrow> rc_live l = rc_live ?l - {a} \<Longrightarrow>
      ms_heap s' = (ms_heap s)(a := n) \<Longrightarrow> rcy_inv ((ms_heap s)(a := n)) i l cs \<Longrightarrow>
      mem_inv s' \<and> mem_live s' = mem_live s - {a}" for l n cs
    using mem_inv_update [OF inv i(1) _ own, of n l cs s'] others live_split [OF i(1), of s] by auto
  have "mem_inv s' \<and> mem_live s' = mem_live s - {a} \<and>
    ms_heap s' = (if MemCheckFlow ?n = None
       then (ms_heap s)(a := ?n\<lparr>mn_stack := NULL, mn_next := mn_next (ms_heap s' a)\<rparr>) else ms_heap s) \<and>
    ms_log s' = ms_log s @ (case MemCheckFlow ?n of None \<Rightarrow> [] | Some r \<Rightarrow> [r]) \<and>
    (MemCheckFlow ?n = None \<longrightarrow> a \<in> mem_avail s' \<and> rc_head (ms_rcy s' ! i) = Some a)"
  proof (cases "MemCheckFlow ?n")
    case (Some rep)
    with r bad i have s': "s' = mem_report rep (s\<lparr>ms_rcy := (ms_rcy s)[i := ?l\<lparr>rc_used := u\<rparr>]\<rparr>)"
      by (simp add: s'_def MemRcyFree_def Let_def)
    have "rcy_inv (ms_heap s) i (?l\<lparr>rc_used := u\<rparr>) as"
      using ri rem(2) card unfolding rcy_inv_def lu by auto
    then have "mem_inv s' \<and> mem_live s' = mem_live s - {a}"
      using eqs [of "?l\<lparr>rc_used := u\<rparr>" ?n as] lu s' by (simp add: mem_report_def)
    with Some s' show ?thesis by (simp add: mem_report_def)
  next
    case None
    define l' where "l' = ?l\<lparr>rc_used := u, rc_head := Some a, rc_avlcnt := rc_avlcnt ?l + 1\<rparr>"
    define n' where "n' = ?n\<lparr>mn_stack := NULL, mn_next := rc_head ?l\<rparr>"
    from None r bad i have s': "s' = s\<lparr>ms_heap := (ms_heap s)(a := n'), ms_rcy := (ms_rcy s)[i := l']\<rparr>"
      by (simp add: s'_def MemRcyFree_def Let_def l'_def n'_def)
    have l': "rc_live l' = rc_live ?l - {a}" using lu by (simp add: l'_def rc_live_def)
    have path: "free_path ((ms_heap s)(a := n')) (Some a) (a # as)"
      using ri anot by (auto simp: rcy_inv_def n'_def intro: free_path_cong)
    have "rcy_inv ((ms_heap s)(a := n')) i l' (a # as)"
      unfolding rcy_inv_def
    proof (intro conjI)
      show "free_path ((ms_heap s)(a := n')) (rc_head l') (a # as)" using path by (simp add: l'_def)
      show "rc_avlcnt l' + int (card (rc_live l')) \<le> rc_cnt l'"
        using ri card unfolding rcy_inv_def l' by (simp add: l'_def)
      show "rc_live l' \<inter> set (a # as) = {}" using ri unfolding rcy_inv_def l' by auto
      show "\<forall>b \<in> rc_live l' \<union> set (a # as). mn_index (((ms_heap s)(a := n')) b) = int i \<and>
          length (mn_block (((ms_heap s)(a := n')) b)) = 2 ^ i + 1"
        using ri i(2,4) unfolding rcy_inv_def l' by (auto simp: n'_def)
      show "\<forall>b \<in> rc_live l'. mn_size (((ms_heap s)(a := n')) b) \<le> 2 ^ i"
        using ri unfolding rcy_inv_def l' by auto
    qed (use ri anot rem(2) in \<open>auto simp: rcy_inv_def l'_def\<close>)
    then have "mem_inv s' \<and> mem_live s' = mem_live s - {a}"
      using eqs [of l' n' "a # as"] l' s' by simp
    moreover have "a \<in> mem_avail s'"
      using free_path_chain [OF path] i(1) ilen s'
      by (auto simp: mem_avail_def l'_def nth_list_update intro!: bexI [of _ i])
    ultimately show ?thesis using None s' ilen by (simp add: n'_def l'_def)
  qed
  with i(2) show "mem_inv s'" "mem_live s' = mem_live s - {a}"
    "ms_heap s' = (if MemCheckFlow (ms_heap s a) = None
       then (ms_heap s)(a := (ms_heap s a)\<lparr>mn_stack := NULL, mn_next := mn_next (ms_heap s' a)\<rparr>) else ms_heap s)"
    "ms_log s' = ms_log s @ (case MemCheckFlow (ms_heap s a) of None \<Rightarrow> [] | Some r \<Rightarrow> [r])"
    "MemCheckFlow (ms_heap s a) = None \<Longrightarrow> a \<in> mem_avail s'"
    "MemCheckFlow (ms_heap s a) = None \<Longrightarrow>
       rc_head (ms_rcy s' ! nat (mn_index (ms_heap s a))) = Some a"
    by simp_all
qed

lemma free_header:
  assumes "mem_inv s" "mem_room 0 s" "a \<in> mem_live s" "MemCheckFlow (ms_heap s a) = None"
  shows "mn_index (ms_heap (MemRcyFree (Some a) s) a) = mn_index (ms_heap s a)"
    "MemCheckFlow (ms_heap (MemRcyFree (Some a) s) a) = None"
proof -
  note eq = fun_cong [OF free_live(3) [OF assms(1-3)], of a]
  have "mn_index (ms_heap (MemRcyFree (Some a) s) a) = mn_index (ms_heap s a)"
    "mn_flag (ms_heap (MemRcyFree (Some a) s) a) = mn_flag (ms_heap s a)"
    "mn_size (ms_heap (MemRcyFree (Some a) s) a) = mn_size (ms_heap s a)"
    "mn_block (ms_heap (MemRcyFree (Some a) s) a) = mn_block (ms_heap s a)"
    by (subst eq, simp add: assms(4))+
  with assms(4) show "mn_index (ms_heap (MemRcyFree (Some a) s) a) = mn_index (ms_heap s a)"
    "MemCheckFlow (ms_heap (MemRcyFree (Some a) s) a) = None"
    by (simp_all add: MemCheckFlow_def split: if_splits)
qed

lemma free_inv: "mem_inv s \<Longrightarrow> mem_room 0 s \<Longrightarrow> mem_inv (MemRcyFree p s)"
  using free_live(1) [of s] free_not_live [of s]
  by (cases p; cases "the p \<in> mem_live s") (simp_all add: MemRcyFree_def)

lemma remove_size: "a_size (snd (ArrayRemove u p)) \<le> a_size u"
  by (auto simp: ArrayRemove_def ArrayRemoveAt_def split: prod.splits)


text \<open>What \<open>Free\<close> does to the classes.\<close>

lemma free_rcy:
  "ms_rcy (MemRcyFree p s) = ms_rcy s \<or>
    (\<exists>j l. ms_rcy (MemRcyFree p s) = (ms_rcy s)[j := l] \<and> rc_usedsize l = rc_usedsize (ms_rcy s ! j) \<and>
      a_size (rc_used l) \<le> a_size (rc_used (ms_rcy s ! j)))"
proof (cases p)
  case (Some a)
  let ?j = "nat (mn_index (ms_heap s a))"
  show ?thesis
  proof (cases "mem_index_bad (ms_heap s a)")
    case False
    obtain q u where u: "ArrayRemove (rc_used (ms_rcy s ! ?j)) p = (q, u)" by fastforce
    with remove_size [of "rc_used (ms_rcy s ! ?j)" p] have "a_size u \<le> a_size (rc_used (ms_rcy s ! ?j))" by simp
    moreover define l where "l = (let l = (ms_rcy s ! ?j)\<lparr>rc_used := u\<rparr>
      in if q = NULL \<or> MemCheckFlow (ms_heap s a) \<noteq> None then l
         else l\<lparr>rc_head := Some a, rc_avlcnt := rc_avlcnt (ms_rcy s ! ?j) + 1\<rparr>)"
    moreover have "ms_rcy (MemRcyFree p s) = (ms_rcy s)[?j := l]"
      using u False Some by (auto simp: l_def MemRcyFree_def Let_def mem_report_def split: option.splits)
    ultimately show ?thesis
      by (intro disjI2 exI [of _ ?j] exI [of _ l]) (simp add: Let_def)
  qed (simp add: Some MemRcyFree_def)
qed (simp add: MemRcyFree_def)


section \<open>Writes, and the operations built on these\<close>

text \<open>A change of a header or of the bytes of a block that keeps its class, its link and its room.\<close>

lemma mem_inv_touch:
  assumes inv: "mem_inv s" and live: "a \<in> mem_live s"
    and rcy: "ms_rcy s' = ms_rcy s \<or>
      (\<exists>u. ms_rcy s' = (ms_rcy s)[nat (mn_index (ms_heap s a)) := (ms_rcy s ! nat (mn_index (ms_heap s a)))\<lparr>rc_usedsize := u\<rparr>])"
    and heap: "ms_heap s' = (ms_heap s)(a := n)"
    and n: "mn_index n = mn_index (ms_heap s a)" "length (mn_block n) = length (mn_block (ms_heap s a))"
      "mn_size n < length (mn_block n)"
  shows "mem_inv s' \<and> mem_live s' = mem_live s \<and> (\<forall>k. mem_room k s \<longrightarrow> mem_room k s')"
proof -
  obtain i where i: "i < MEM_BLOCK_SZ" "mn_index (ms_heap s a) = int i" "a \<in> rc_live (ms_rcy s ! i)"
    "length (mn_block (ms_heap s a)) = 2 ^ i + 1"
    using live_class [OF inv live] by metis
  note ri = mem_invD(1) [OF inv i(1)] and ilen = mem_invD(2) [OF inv i(1)]
  let ?as = "the (mem_chain (ms_heap s) (rc_head (ms_rcy s ! i)))"
  have "\<exists>u. ms_rcy s' = (ms_rcy s)[i := (ms_rcy s ! i)\<lparr>rc_usedsize := u\<rparr>]"
    using rcy i(2) by (auto intro: exI [of _ "rc_usedsize (ms_rcy s ! i)"])
  then obtain u where u: "ms_rcy s' = (ms_rcy s)[i := (ms_rcy s ! i)\<lparr>rc_usedsize := u\<rparr>]" ..
  have own: "\<And>j. j < MEM_BLOCK_SZ \<Longrightarrow> j \<noteq> i \<Longrightarrow> a \<notin> class_of s j"
    using class_disjoint [OF inv i(1)] i(3) by blast
  have anot: "a \<notin> set ?as" using ri i(3) by (auto simp: rcy_inv_def)
  have "free_path (ms_heap s) (rc_head (ms_rcy s ! i)) ?as" using ri by (simp only: rcy_inv_def)
  then have "free_path ((ms_heap s)(a := n)) (rc_head (ms_rcy s ! i)) ?as"
    by (rule free_path_cong) (use anot in auto)
  moreover have ix: "mn_index n = int i" "length (mn_block n) = 2 ^ i + 1" "mn_size n \<le> 2 ^ i"
    using n i by simp_all
  moreover have lv: "rc_live (l\<lparr>rc_usedsize := u\<rparr>) = rc_live l" for l u by (simp add: rc_live_def)
  ultimately have "rcy_inv ((ms_heap s)(a := n)) i ((ms_rcy s ! i)\<lparr>rc_usedsize := u\<rparr>) ?as"
    using ri ix unfolding rcy_inv_def lv by simp
  from mem_inv_update [OF inv i(1) this own u heap]
  have "mem_inv s'" "mem_live s' = mem_live s"
    using live_split [OF i(1), of s] by (simp_all add: rc_live_def)
  moreover have "(\<forall>k. mem_room k s \<longrightarrow> mem_room k s')"
    using u ilen by (simp add: mem_room_def nth_list_update)
  ultimately show ?thesis by blast
qed

lemma poke_inv:
  assumes "mem_inv s" "a \<in> mem_live s"
  shows "mem_inv (mem_poke a off b s) \<and> mem_live (mem_poke a off b s) = mem_live s"
    "mem_inv (mem_poke_flag a b s) \<and> mem_live (mem_poke_flag a b s) = mem_live s"
proof -
  obtain i where i: "mn_size (ms_heap s a) \<le> 2 ^ i" "length (mn_block (ms_heap s a)) = 2 ^ i + 1"
    using live_class [OF assms] by metis
  show "mem_inv (mem_poke a off b s) \<and> mem_live (mem_poke a off b s) = mem_live s"
    using mem_inv_touch [OF assms, of "mem_poke a off b s"] i by (simp add: mem_poke_def)
  show "mem_inv (mem_poke_flag a b s) \<and> mem_live (mem_poke_flag a b s) = mem_live s"
    using mem_inv_touch [OF assms, of "mem_poke_flag a b s"] i by (simp add: mem_poke_flag_def)
qed

lemma fill_log: "ms_log (mem_fill a bs s) = ms_log s"
  by (simp add: mem_fill_def)

lemma memcpy_0: "memcpy d 0 bs = bs @ drop (length bs) d"
  by (simp add: memcpy_def)

lemma fill_spec:
  assumes "mem_inv s" "a \<in> mem_live s" "length bs \<le> mn_size (ms_heap s a)"
  shows "mem_inv (mem_fill a bs s)" "mem_live (mem_fill a bs s) = mem_live s"
    "mem_room k s \<Longrightarrow> mem_room k (mem_fill a bs s)"
    "MemCheckFlow (ms_heap (mem_fill a bs s) a) = MemCheckFlow (ms_heap s a)"
    "take (length bs) (mn_block (ms_heap (mem_fill a bs s) a)) = bs"
    "\<And>b. b \<noteq> a \<Longrightarrow> ms_heap (mem_fill a bs s) b = ms_heap s b"
    "mn_size (ms_heap (mem_fill a bs s) a) = mn_size (ms_heap s a)"
proof -
  obtain i where i: "mn_size (ms_heap s a) \<le> 2 ^ i" "length (mn_block (ms_heap s a)) = 2 ^ i + 1"
    using live_class [OF assms(1,2)] by metis
  have l: "length bs \<le> length (mn_block (ms_heap s a))" using i assms(3) by simp
  have "mem_inv (mem_fill a bs s) \<and> mem_live (mem_fill a bs s) = mem_live s \<and>
      (\<forall>k. mem_room k s \<longrightarrow> mem_room k (mem_fill a bs s))"
    using mem_inv_touch [OF assms(1,2), of "mem_fill a bs s"] i l assms(3)
    by (simp add: mem_fill_def memcpy_0)
  then show "mem_inv (mem_fill a bs s)" "mem_live (mem_fill a bs s) = mem_live s"
    "mem_room k s \<Longrightarrow> mem_room k (mem_fill a bs s)" by simp_all
  show "MemCheckFlow (ms_heap (mem_fill a bs s) a) = MemCheckFlow (ms_heap s a)"
    using assms(3) l by (simp add: MemCheckFlow_def mem_fill_def memcpy_0 nth_append)
  show "take (length bs) (mn_block (ms_heap (mem_fill a bs s) a)) = bs"
    "\<And>b. b \<noteq> a \<Longrightarrow> ms_heap (mem_fill a bs s) b = ms_heap s b"
    "mn_size (ms_heap (mem_fill a bs s) a) = mn_size (ms_heap s a)"
    by (simp_all add: mem_fill_def memcpy_0)
qed

lemma Calloc_eq:
  assumes "nmem * sz < 2 ^ 64"
  shows "MemRcyCalloc sysm malloc trace nmem sz s =
    (case MemRcyAlloc sysm malloc trace (nmem * sz) s of
       (NULL, s1) \<Rightarrow> (NULL, s1) | (Some a, s1) \<Rightarrow> (Some a, mem_fill a (replicate (nmem * sz) 0) s1))"
proof -
  have "\<not> (nmem \<noteq> 0 \<and> sz > (2 ^ 64 - 1) div nmem)"
    using assms by (cases "nmem = 0") (simp_all add: not_less less_eq_div_iff_mult_less_eq mult.commute)
  then show ?thesis using assms unfolding MemRcyCalloc_def Let_def by (simp only: if_False mod_less)
qed

lemma Calloc_overflow:
  assumes "2 ^ 64 \<le> nmem * sz"
  shows "MemRcyCalloc sysm malloc trace nmem sz s = (NULL, mem_report (Calloc_Overflow nmem sz) s)"
proof -
  have "nmem \<noteq> 0" using assms by (cases nmem) auto
  moreover have "(2 ^ 64 - 1) div nmem < sz"
    using assms calculation by (simp add: div_less_iff_less_mult mult.commute)
  ultimately show ?thesis by (simp add: MemRcyCalloc_def)
qed


text \<open>Bytes written to a block, whoever owns it.\<close>

lemma fill_inv:
  assumes "mem_inv s" "length bs \<le> length (mn_block (ms_heap s a))"
  shows "mem_inv (mem_fill a bs s)" "mem_live (mem_fill a bs s) = mem_live s"
    "mem_room k (mem_fill a bs s) = mem_room k s"
proof -
  let ?h = "ms_heap (mem_fill a bs s)"
  have h: "mn_index (?h b) = mn_index (ms_heap s b)" "mn_next (?h b) = mn_next (ms_heap s b)"
    "mn_size (?h b) = mn_size (ms_heap s b)"
    "length (mn_block (?h b)) = length (mn_block (ms_heap s b))" for b
    using assms(2) by (simp_all add: mem_fill_def memcpy_0)
  have "rcy_inv ?h i l as" if "rcy_inv (ms_heap s) i l as" for i l as
    using that free_path_cong [of "ms_heap s" "rc_head l" as ?h] unfolding rcy_inv_def h by blast
  then show "mem_inv (mem_fill a bs s)"
    using assms(1) by (auto simp: mem_inv_def mem_fill_def) (metis assms(1) mem_invD(1))
  show "mem_live (mem_fill a bs s) = mem_live s" "mem_room k (mem_fill a bs s) = mem_room k s"
    by (simp_all add: mem_live_def mem_room_def mem_fill_def)
qed

lemma alloc_room:
  assumes inv: "mem_inv s" and os: "malloc_ok malloc s" and room: "mem_room (Suc k) s"
    and alloc: "MemRcyAlloc sysm malloc trace sz s = (Some a, s')"
  shows "mem_room k s'"
proof -
  let ?i = "MemRcyIndex sz"
  have room0: "mem_room 0 s" using room by (auto simp: mem_room_def)
  obtain l n as where
    c: "?i < MEM_BLOCK_SZ" "ms_rcy s' = (ms_rcy s)[?i := l]" "rcy_inv (ms_heap s') ?i l as"
      "rc_live l = rc_live (ms_rcy s ! ?i) \<or> rc_live l = insert a (rc_live (ms_rcy s ! ?i))"
    by (rule alloc_cases [OF inv os room0 alloc]) blast
  have "a_size (rc_used l) = card (rc_live l)" using card_live [of l] c(3) by (simp add: rcy_inv_def)
  also have "\<dots> \<le> Suc (card (rc_live (ms_rcy s ! ?i)))"
    using c(4) card_insert_le_m1 finite_live mem_invD(1) [OF inv c(1)] by (auto simp: rcy_inv_def card_insert_if)
  also have "card (rc_live (ms_rcy s ! ?i)) = a_size (rc_used (ms_rcy s ! ?i))"
    using card_live mem_invD(1) [OF inv c(1)] by (auto simp: rcy_inv_def)
  finally have "a_size (rc_used l) \<le> Suc (a_size (rc_used (ms_rcy s ! ?i)))" .
  then show ?thesis
    using room c(1,2) mem_invD(2) [OF inv c(1)] by (auto simp: mem_room_def nth_list_update)
qed

lemma room_mono: "mem_room k s \<Longrightarrow> j \<le> k \<Longrightarrow> mem_room j s"
  by (auto simp: mem_room_def)

lemma alloc_fill_inv:
  assumes "mem_inv s" "malloc_ok malloc s" "mem_room 0 s" "length bs \<le> sz"
    and "MemRcyAlloc sysm malloc trace sz s = (Some a, s1)"
  shows "mem_inv (mem_fill a bs s1)"
  using alloc_spec(1,8) [OF assms(1-3,5)] assms(4) by (intro fill_inv(1)) simp_all

lemma Calloc_inv:
  assumes "mem_inv s" "malloc_ok malloc s" "mem_room 0 s"
  shows "mem_inv (snd (MemRcyCalloc sysm malloc trace nmem sz s))"
proof (cases "nmem * sz < 2 ^ 64")
  case True
  show ?thesis
    using alloc_inv [OF assms, of sysm trace "nmem * sz"]
      alloc_fill_inv [OF assms, of "replicate (nmem * sz) 0" "nmem * sz" sysm trace]
    by (auto simp: Calloc_eq [OF True] split: prod.splits option.splits)
next
  case False
  with assms show ?thesis by (simp add: Calloc_overflow)
qed

lemma Strdup_inv:
  assumes "mem_inv s" "malloc_ok malloc s" "mem_room 0 s"
  shows "mem_inv (snd (MemRcyStrdup sysm malloc trace t s))"
proof (cases t)
  case None
  with assms show ?thesis by (simp add: MemRcyStrdup_def)
next
  case (Some u)
  show ?thesis
    using alloc_inv [OF assms, of sysm trace "length u + 1"] Some
      alloc_fill_inv [OF assms, of "map of_char (u @ [NUL])" "length u + 1" sysm trace]
    by (auto simp: MemRcyStrdup_def split: prod.splits option.splits)
qed

section \<open>Reallocation\<close>

text \<open>The two ways of \<open>Realloc\<close> on a block in use with its guards intact.\<close>

lemma realloc_same:
  assumes inv: "mem_inv s" and live: "a \<in> mem_live s" and flow: "MemCheckFlow (ms_heap s a) = None"
    and idx: "mn_index (ms_heap s a) = int (MemRcyIndex sz)"
    and r_def: "r = MemRcyRealloc sysm malloc trace (Some a) sz s"
  shows "fst r = Some a" "mem_inv (snd r)" "mem_live (snd r) = mem_live s"
    "\<And>b. b \<noteq> a \<Longrightarrow> ms_heap (snd r) b = ms_heap s b" "mn_size (ms_heap (snd r) a) = sz"
    "MemCheckFlow (ms_heap (snd r) a) = None"
    "take sz (mn_block (ms_heap (snd r) a)) = take sz (mn_block (ms_heap s a))"
    "ms_log (snd r) = ms_log s"
proof -
  let ?i = "MemRcyIndex sz"
  obtain i where i: "i < MEM_BLOCK_SZ" "mn_index (ms_heap s a) = int i" "a \<in> rc_live (ms_rcy s ! i)"
    "length (mn_block (ms_heap s a)) = 2 ^ i + 1"
    using live_class [OF inv live] by metis
  with idx have eq: "i = ?i" by simp
  define n where "n = (ms_heap s a)\<lparr>mn_size := sz, mn_stack := mem_stack_trace s trace,
      mn_block := (mn_block (ms_heap s a))[sz := 0xFF]\<rparr>"
  define u where "u = nat ((int (rc_usedsize (ms_rcy s ! ?i)) + (int sz - int (mn_size (ms_heap s a)))) mod 2 ^ 64)"
  have bad: "\<not> mem_index_bad (ms_heap s a)" using i(1,2) by (simp add: mem_index_bad_def)
  have r: "r = (Some a, s\<lparr>ms_rcy := (ms_rcy s)[?i := (ms_rcy s ! ?i)\<lparr>rc_usedsize := u\<rparr>],
      ms_heap := (ms_heap s)(a := n)\<rparr>)"
    using bad flow i(1) idx eq by (simp add: r_def MemRcyRealloc_def Let_def n_def u_def)
  have room: "sz < length (mn_block (ms_heap s a))" using i(4) index_room [of sz] eq by simp
  have fl: "mn_flag (ms_heap s a) = 0xFF" using flow by (auto simp: MemCheckFlow_def split: if_splits)
  have "mem_inv (snd r) \<and> mem_live (snd r) = mem_live s"
    using mem_inv_touch [OF inv live, of "snd r" n] r room idx by (auto simp: n_def)
  then show "mem_inv (snd r)" "mem_live (snd r) = mem_live s" by simp_all
  show "fst r = Some a" "\<And>b. b \<noteq> a \<Longrightarrow> ms_heap (snd r) b = ms_heap s b" "mn_size (ms_heap (snd r) a) = sz"
    "MemCheckFlow (ms_heap (snd r) a) = None" "ms_log (snd r) = ms_log s"
    "take sz (mn_block (ms_heap (snd r) a)) = take sz (mn_block (ms_heap s a))"
    using r room fl by (simp_all add: n_def MemCheckFlow_def)
qed

lemma realloc_move:
  assumes inv: "mem_inv s" and live: "a \<in> mem_live s" and flow: "MemCheckFlow (ms_heap s a) = None"
    and idx: "mn_index (ms_heap s a) \<noteq> int (MemRcyIndex sz)" and sz: "MemRcyIndex sz < MEM_BLOCK_SZ"
    and alloc: "MemRcyAlloc sysm malloc trace sz s = (Some b, s1)" and ab: "ms_heap s1 a = ms_heap s a"
  shows "MemRcyRealloc sysm malloc trace (Some a) sz s
    = (Some b, MemRcyFree (Some a)
        (mem_fill b (take (min sz (mn_size (ms_heap s a))) (mn_block (ms_heap s a))) s1))"
proof -
  have bad: "\<not> mem_index_bad (ms_heap s a)"
    using live_class [OF inv live] by (metis mem_index_bad_def linorder_not_le of_nat_0_le_iff of_nat_less_iff)
  with assms show ?thesis by (simp add: MemRcyRealloc_def Let_def)
qed

lemma realloc_spec:
  assumes inv: "mem_inv s" and os: "malloc_ok malloc s" and room: "mem_room 1 s" and sysm: "\<And>n. sysm n"
    and live: "a \<in> mem_live s" and flow: "MemCheckFlow (ms_heap s a) = None"
    and r: "MemRcyRealloc sysm malloc trace (Some a) sz s = (Some b, s')"
  shows "mem_inv s'" "mem_live s' = insert b (mem_live s - {a})" "b = a \<or> b \<notin> mem_live s"
    "mn_size (ms_heap s' b) = sz" "MemCheckFlow (ms_heap s' b) = None"
    "take (min sz (mn_size (ms_heap s a))) (mn_block (ms_heap s' b))
      = take (min sz (mn_size (ms_heap s a))) (mn_block (ms_heap s a))"
    "\<And>c. c \<noteq> a \<Longrightarrow> c \<noteq> b \<Longrightarrow> ms_heap s' c = ms_heap s c" "ms_log s' = ms_log s"
proof -
  let ?n = "min sz (mn_size (ms_heap s a))"
  have "mem_inv s' \<and> mem_live s' = insert b (mem_live s - {a}) \<and> (b = a \<or> b \<notin> mem_live s) \<and>
    mn_size (ms_heap s' b) = sz \<and> MemCheckFlow (ms_heap s' b) = None \<and>
    take ?n (mn_block (ms_heap s' b)) = take ?n (mn_block (ms_heap s a)) \<and>
    (\<forall>c. c \<noteq> a \<longrightarrow> c \<noteq> b \<longrightarrow> ms_heap s' c = ms_heap s c) \<and> ms_log s' = ms_log s"
  proof (cases "mn_index (ms_heap s a) = int (MemRcyIndex sz)")
    case True
    note q = realloc_same [OF inv live flow True r [symmetric]]
    have "take ?n (mn_block (ms_heap s' b)) = take ?n (mn_block (ms_heap s a))"
      using q(1,7) by (metis fst_conv option.inject snd_conv min.cobounded1 take_take min.absorb1)
    with q live show ?thesis by auto
  next
    case False
    have room0: "mem_room 0 s" using room by (rule room_mono) simp
    obtain i where i: "i < MEM_BLOCK_SZ" "mn_index (ms_heap s a) = int i"
      "mn_size (ms_heap s a) \<le> 2 ^ i" "length (mn_block (ms_heap s a)) = 2 ^ i + 1"
      using live_class [OF inv live] by metis
    have bad: "\<not> mem_index_bad (ms_heap s a)" using i(1,2) by (simp add: mem_index_bad_def)
    obtain s1 where al: "MemRcyAlloc sysm malloc trace sz s = (Some b, s1)" and small: "MemRcyIndex sz < MEM_BLOCK_SZ"
      using r False flow bad
      by (auto simp: MemRcyRealloc_def Let_def split: if_splits option.splits prod.splits)
    note q = alloc_spec [OF inv os room0 al]
    have ba: "b \<noteq> a" using q(2) live by auto
    note mv = realloc_move [OF inv live flow False small al q(6) [OF ba [symmetric]]]
    let ?bs = "take ?n (mn_block (ms_heap s a))"
    let ?s2 = "mem_fill b ?bs s1"
    have bl: "b \<in> mem_live s1" using q(5) sysm by blast
    have len: "length ?bs = ?n" using i(3,4) by simp
    note f = fill_spec [OF q(1) bl, of ?bs, unfolded len q(7), OF min.cobounded1]
    have room2: "mem_room 0 ?s2"
      using alloc_room [OF inv os _ al, of 0] room f(3) by simp
    have a2: "a \<in> mem_live ?s2" using f(2) q(4) live by auto
    have h2: "ms_heap ?s2 a = ms_heap s a" using f(6) [of a] q(6) [of a] ba by simp
    note g = free_live [OF f(1) room2 a2, unfolded h2 flow]
    have s': "s' = MemRcyFree (Some a) ?s2" using r mv by simp
    have hb: "ms_heap s' c = ms_heap ?s2 c" if "c \<noteq> a" for c
      using fun_cong [OF g(3), of c] that by (simp flip: s')
    have "mem_live s' = insert b (mem_live s - {a})"
      using g(2) f(2) q(5) sysm ba by (auto simp flip: s')
    moreover have "mem_inv s'" "ms_log s' = ms_log s"
      using g(1,4) q(13) by (simp_all add: fill_log flip: s')
    moreover have "ms_heap s' c = ms_heap s c" if "c \<noteq> a" "c \<noteq> b" for c
      using hb [OF that(1)] f(6) [OF that(2)] q(6) [OF that(2)] by simp
    ultimately show ?thesis
      using hb [OF ba] f(4,5,7) q(2,7,9) by auto
  qed
  then show "mem_inv s'" "mem_live s' = insert b (mem_live s - {a})" "b = a \<or> b \<notin> mem_live s"
    "mn_size (ms_heap s' b) = sz" "MemCheckFlow (ms_heap s' b) = None"
    "take (min sz (mn_size (ms_heap s a))) (mn_block (ms_heap s' b))
      = take (min sz (mn_size (ms_heap s a))) (mn_block (ms_heap s a))"
    "\<And>c. c \<noteq> a \<Longrightarrow> c \<noteq> b \<Longrightarrow> ms_heap s' c = ms_heap s c" "ms_log s' = ms_log s"
    by blast+
qed

section \<open>The allocator as an interface\<close>

text \<open>
  What users of an allocator rely on: a block that is handed out is not one they hold, and blocks come
  and go one at a time. The environment \<open>'e\<close> is what the system answers in a call.
\<close>

locale allocator =
  fixes inv :: "'s \<Rightarrow> bool" and live :: "'s \<Rightarrow> 'p set" and ok :: "'e \<Rightarrow> 's \<Rightarrow> bool"
    and acquire :: "'e \<Rightarrow> nat \<Rightarrow> 's \<Rightarrow> 'p option \<times> 's" and release :: "'p \<Rightarrow> 's \<Rightarrow> 's"
    and roomy :: "'s \<Rightarrow> bool"
  assumes acquire_fresh:
      "inv s \<Longrightarrow> ok e s \<Longrightarrow> acquire e n s = (Some p, s') \<Longrightarrow> inv s' \<and> p \<notin> live s \<and> live s' = insert p (live s)"
    and release_live: "inv s \<Longrightarrow> roomy s \<Longrightarrow> p \<in> live s \<Longrightarrow> inv (release p s) \<and> live (release p s) = live s - {p}"
begin

text \<open>A client that holds the blocks \<open>ps\<close>: all that is in use, each once.\<close>

definition holds :: "'s \<Rightarrow> 'p list \<Rightarrow> bool" where
  "holds s ps \<longleftrightarrow> inv s \<and> distinct ps \<and> set ps = live s"

lemma holds_acquire: "holds s ps \<Longrightarrow> ok e s \<Longrightarrow> acquire e n s = (Some p, s') \<Longrightarrow> holds s' (p # ps)"
  using acquire_fresh [of s e n p s'] by (auto simp: holds_def)

lemma holds_release: "holds s ps \<Longrightarrow> roomy s \<Longrightarrow> p \<in> set ps \<Longrightarrow> holds (release p s) (remove1 p ps)"
  using release_live [of s p] by (auto simp: holds_def set_remove1_eq)

lemma acquire_release:
  assumes "holds s ps" "ok e s" "acquire e n s = (Some p, s')" "roomy s'"
  shows "holds (release p s') ps"
  using holds_release [OF holds_acquire [OF assms(1-3)] assms(4), of p] by simp

end

definition system_ok :: "alloc \<times> os_malloc \<times> string \<Rightarrow> mem_state \<Rightarrow> bool" where
  "system_ok e s \<longleftrightarrow> (\<forall>n. fst e n) \<and> malloc_ok (fst (snd e)) s \<and> mem_room 0 s"

interpretation mal: allocator mem_inv mem_live system_ok
  "\<lambda>(sysm, malloc, trace). MemRcyAlloc sysm malloc trace" "\<lambda>p. MemRcyFree (Some p)" "mem_room 0"
proof
  fix s :: mem_state and e :: "alloc \<times> os_malloc \<times> string" and n p s'
  assume a: "mem_inv s" "system_ok e s"
    "(case e of (sysm, malloc, trace) \<Rightarrow> MemRcyAlloc sysm malloc trace) n s = (Some p, s')"
  obtain sysm malloc trace where e: "e = (sysm, malloc, trace)" by (cases e) auto
  with a have al: "malloc_ok malloc s" "mem_room 0 s" "\<And>n. sysm n"
    "MemRcyAlloc sysm malloc trace n s = (Some p, s')" by (auto simp: system_ok_def)
  show "mem_inv s' \<and> p \<notin> mem_live s \<and> mem_live s' = insert p (mem_live s)"
    using alloc_spec(1,2,5) [OF a(1) al(1,2,4)] al(3) by blast
next
  fix s p
  assume "mem_inv s" "mem_room 0 s" "p \<in> mem_live s"
  then show "mem_inv (MemRcyFree (Some p) s) \<and> mem_live (MemRcyFree (Some p) s) = mem_live s - {p}"
    using free_live(1,2) by blast
qed

section \<open>Set up, clear and clients\<close>

lemma init_inv:
  "mem_inv (MemRcyInit s)" "mem_live (MemRcyInit s) = {}" "mem_avail (MemRcyInit s) = {}"
  "mem_room 0 (MemRcyInit s)"
proof -
  have e: "ArrayCreateInternal (\<lambda>_. True) 10 (Some addr_cmp) True True
    = Some \<lparr>a_data = replicate 10 NULL, a_capacity = 10, a_size = 0, a_comparator = Some addr_cmp,
            a_freecb = True, a_sorted = True\<rparr>"
    by (simp add: ArrayCreateInternal_def)
  have "rcy_inv h i \<lparr>rc_cnt = 0, rc_avlcnt = 0, rc_head = NULL,
      rc_used = the (ArrayCreateInternal (\<lambda>_. True) 10 (Some addr_cmp) True True), rc_usedsize = 0\<rparr> []" for h i
    unfolding e by (simp add: rcy_inv_def rc_live_def sorted_inv_def arr_inv_def items_def ascending_def)
  then show "mem_inv (MemRcyInit s)" unfolding mem_inv_def MemRcyInit_def by auto
  show "mem_live (MemRcyInit s) = {}" "mem_avail (MemRcyInit s) = {}" "mem_room 0 (MemRcyInit s)"
    unfolding MemRcyInit_def mem_live_def mem_avail_def mem_room_def e
    by (auto simp: rc_live_def items_def mem_chain.simps)
qed

text \<open>
  A client from the start of the allocator on: it allocates, resizes and frees, and writes only to bytes
  of blocks it holds that it asked for. \<open>ps\<close> are the blocks it holds, \<open>lg\<close> what was logged before.
\<close>

inductive mem_client :: "mem_report list \<Rightarrow> mem_state \<Rightarrow> addr list \<Rightarrow> bool" for lg where
  start: "oper \<noteq> CMMemSystem \<Longrightarrow> ms_log s = lg \<Longrightarrow> mem_client lg (MemDebugInit oper s) []"
| acquire: "mem_client lg s ps \<Longrightarrow> system_ok (sysm, malloc, trace) s \<Longrightarrow>
    MemRcyAlloc sysm malloc trace sz s = (Some a, s') \<Longrightarrow> mem_client lg s' (a # ps)"
| resize: "mem_client lg s ps \<Longrightarrow> system_ok (sysm, malloc, trace) s \<Longrightarrow> mem_room 1 s \<Longrightarrow> a \<in> set ps \<Longrightarrow>
    MemRcyRealloc sysm malloc trace (Some a) sz s = (Some b, s') \<Longrightarrow> mem_client lg s' (b # remove1 a ps)"
| release: "mem_client lg s ps \<Longrightarrow> mem_room 0 s \<Longrightarrow> a \<in> set ps \<Longrightarrow>
    mem_client lg (MemRcyFree (Some a) s) (remove1 a ps)"
| poke: "mem_client lg s ps \<Longrightarrow> a \<in> set ps \<Longrightarrow> off < mn_size (ms_heap s a) \<Longrightarrow>
    mem_client lg (mem_poke a off b s) ps"

lemma client_holds:
  "mem_client lg s ps \<Longrightarrow>
    mal.holds s ps \<and> (\<forall>a \<in> set ps. MemCheckFlow (ms_heap s a) = None) \<and> ms_log s = lg"
proof (induction rule: mem_client.induct)
  case (start oper s)
  then show ?case
    using init_inv [of "s\<lparr>ms_oper := oper\<rparr>"]
    by (cases oper) (simp_all add: MemDebugInit_def mal.holds_def MemRcyInit_def)
next
  case (acquire s ps sysm malloc trace sz a s')
  from acquire.hyps(2) have e: "malloc_ok malloc s" "mem_room 0 s" by (auto simp: system_ok_def)
  have "mem_inv s" "set ps = mem_live s" using acquire.IH by (auto simp: mal.holds_def)
  note q = alloc_spec [OF this(1) e acquire.hyps(3)]
  have "a \<notin> set ps" using q(2) \<open>set ps = mem_live s\<close> by simp
  with q(6,9,13) acquire.IH mal.holds_acquire [of s ps "(sysm, malloc, trace)" sz a s'] acquire.hyps(2,3)
  show ?case by (metis case_prod_conv set_ConsD)
next
  case (resize s ps sysm malloc trace a sz b s')
  from resize.hyps(2) have e: "malloc_ok malloc s" "\<And>n. sysm n" by (auto simp: system_ok_def)
  have h: "mem_inv s" "set ps = mem_live s" "distinct ps" using resize.IH by (auto simp: mal.holds_def)
  have a: "a \<in> mem_live s" "MemCheckFlow (ms_heap s a) = None" using resize h by auto
  note q = realloc_spec [OF h(1) e(1) resize.hyps(3) e(2) a resize.hyps(5)]
  have "set (b # remove1 a ps) = mem_live s'" using q(2) h by (simp add: set_remove1_eq)
  moreover have "distinct (b # remove1 a ps)" using q(3) h by (auto simp: set_remove1_eq)
  moreover have "MemCheckFlow (ms_heap s' c) = None" if "c \<in> set (b # remove1 a ps)" for c
    using that q(5) q(7) [of c] resize.IH h(3) by (cases "c = b") (auto simp: set_remove1_eq)
  ultimately show ?case using q(1,8) resize.IH by (auto simp: mal.holds_def)
next
  case (release s ps a)
  have h: "mem_inv s" "set ps = mem_live s" "distinct ps" using release.IH by (auto simp: mal.holds_def)
  have a: "a \<in> mem_live s" "MemCheckFlow (ms_heap s a) = None" using release h by auto
  note q = free_live [OF h(1) release.hyps(2) a(1)]
  have "MemCheckFlow (ms_heap (MemRcyFree (Some a) s) c) = None" if "c \<in> set (remove1 a ps)" for c
    using that release.IH h(3) fun_cong [OF q(3), of c] a(2) by (auto simp: set_remove1_eq)
  with q(4) a(2) release mal.holds_release [of s ps a] show ?case by auto
next
  case (poke s ps a off b)
  have h: "mem_inv s" "set ps = mem_live s" "distinct ps" using poke.IH by (auto simp: mal.holds_def)
  have a: "a \<in> mem_live s" "MemCheckFlow (ms_heap s a) = None" using poke h by auto
  have "MemCheckFlow (ms_heap (mem_poke a off b s) c) = None" if "c \<in> set ps" for c
    using that poke.IH poke.hyps(3) a(2) by (cases "c = a") (auto simp: mem_poke_def MemCheckFlow_def split: if_splits)
  with poke_inv(1) [OF h(1) a(1)] poke.IH h show ?case
    by (auto simp: mal.holds_def mem_poke_def)
qed

section \<open>Leaks\<close>

lemma releases_concat:
  "(\<And>i. i \<in> set is \<Longrightarrow> mem_release s i = Some (f i)) \<Longrightarrow> mem_releases s is = Some (concat (map f is))"
  by (induction "is") simp_all

text \<open>The blocks of a class, those in use first.\<close>

abbreviation class_blocks :: "mem_state \<Rightarrow> nat \<Rightarrow> addr list" where
  "class_blocks s i \<equiv> map the (items (rc_used (ms_rcy s ! i))) @
     the (mem_chain (ms_heap s) (rc_head (ms_rcy s ! i)))"

lemma release_class:
  assumes "mem_inv s" "i < MEM_BLOCK_SZ"
  shows "mem_release s i = Some (class_blocks s i)"
    "distinct (class_blocks s i)" "set (class_blocks s i) = class_of s i"
proof -
  let ?u = "map the (items (rc_used (ms_rcy s ! i)))"
  let ?as = "the (mem_chain (ms_heap s) (rc_head (ms_rcy s ! i)))"
  note r = mem_invD(1) [OF assms]
  then have ui: "used_inv (rc_used (ms_rcy s ! i))" and p: "free_path (ms_heap s) (rc_head (ms_rcy s ! i)) ?as"
    and d: "distinct ?as" "rc_live (ms_rcy s ! i) \<inter> set ?as = {}" by (auto simp: rcy_inv_def)
  have "mem_chain (ms_heap s) (rc_head (ms_rcy s ! i)) = Some ?as" using free_path_chain [OF p] by simp
  then show "mem_release s i = Some (class_blocks s i)"
    using ui by (simp add: mem_release_def ArrayDestroy_def Let_def items_def)
  show "set (class_blocks s i) = class_of s i"
    using used_items(3) [OF ui] by (simp add: rc_live_def)
  show "distinct (class_blocks s i)"
    using used_items(2,3) [OF ui] d by (simp add: rc_live_def)
qed

lemma distinct_concat_classes:
  "(\<And>i. i \<in> set is \<Longrightarrow> distinct (f i)) \<Longrightarrow> distinct is \<Longrightarrow>
    (\<And>i j. i \<in> set is \<Longrightarrow> j \<in> set is \<Longrightarrow> i \<noteq> j \<Longrightarrow> set (f i) \<inter> set (f j) = {}) \<Longrightarrow> distinct (concat (map f is))"
proof (induction "is")
  case (Cons a js)
  have "set (f a) \<inter> set (f j) = {}" if "j \<in> set js" for j
    using Cons.prems(2) that by (intro Cons.prems(3)) auto
  moreover have "distinct (concat (map f js))" using Cons by auto
  ultimately show ?case using Cons.prems(1) [of a] by auto
qed simp

lemma clear_spec:
  assumes inv: "mem_inv s" and on: "ms_oper s \<noteq> CMMemSystem"
  obtains freed s' where "MemDebugClear s = Some (mem_live s = {}, freed, s')"
    "distinct freed" "set freed = mem_live s \<union> mem_avail s" "ms_oper s' = CMMemSystem" "ms_table s' = System_Table"
proof -
  let ?f = "class_blocks s"
  note c = release_class [OF inv]
  have "mem_releases s [0..<MEM_BLOCK_SZ] = Some (concat (map ?f [0..<MEM_BLOCK_SZ]))"
    by (rule releases_concat) (use c(1) in simp)
  moreover have "distinct (concat (map ?f [0..<MEM_BLOCK_SZ]))"
  proof (rule distinct_concat_classes)
    fix i j assume "i \<in> set [0..<MEM_BLOCK_SZ]" "j \<in> set [0..<MEM_BLOCK_SZ]" "i \<noteq> j"
    with c(3) [of i] c(3) [of j] class_disjoint [OF inv, of i j] show "set (?f i) \<inter> set (?f j) = {}"
      by (simp only: set_upt) (metis atLeastLessThan_iff disjoint_iff)
  qed (use c(2) in auto)
  moreover have "set (concat (map ?f [0..<MEM_BLOCK_SZ])) = mem_live s \<union> mem_avail s"
    using c(3) by (auto simp: mem_live_def mem_avail_def)
  moreover have "(\<forall>i \<in> set [0..<MEM_BLOCK_SZ]. \<not> 0 < ArrayGetSize (rc_used (ms_rcy s ! i))) \<longleftrightarrow> mem_live s = {}"
  proof -
    have "\<not> 0 < ArrayGetSize (rc_used (ms_rcy s ! i)) \<longleftrightarrow> rc_live (ms_rcy s ! i) = {}" if "i < MEM_BLOCK_SZ" for i
      using card_live [of "ms_rcy s ! i"] finite_live [of "ms_rcy s ! i"] mem_invD(1) [OF inv that]
      by (auto simp: ArrayGetSize_def rcy_inv_def)
    then show ?thesis by (auto simp: mem_live_def)
  qed
  ultimately show thesis
    using on by (intro that) (auto simp: MemDebugClear_def)
qed

section \<open>Properties\<close>

text \<open>A concrete allocator: the system answers with address 7, then a block of 5 bytes is taken.\<close>

definition mem_example :: mem_state where
  "mem_example = MemDebugInit CMMemRecycle
     \<lparr>ms_oper = CMMemSystem, ms_table = System_Table, ms_rcy = [],
      ms_heap = (\<lambda>_. \<lparr>mn_size = 0, mn_next = NULL, mn_stack = NULL, mn_index = 0, mn_flag = 0, mn_block = []\<rparr>),
      ms_log = []\<rparr>"

definition malloc_example :: os_malloc where
  "malloc_example n = Some (7, replicate (n - sizeof_MemNode) 0)"

definition mem_example1 :: mem_state where
  "mem_example1 = snd (MemRcyAlloc (\<lambda>_. True) malloc_example '''' 5 mem_example)"

lemma index_example: "MemRcyIndex 5 = 3" "MemRcyIndex 8 = 3" "MemRcyIndex 9 = 4"
  unfolding MemRcyIndex_def by (rule ceillog2_eqI; simp)+

lemma example_start: "mem_client [] mem_example []"
  unfolding mem_example_def by (rule mem_client.start) simp_all

lemma example_ok:
  "malloc_ok malloc_example mem_example" "mem_room 0 mem_example" "mem_inv mem_example" "mem_live mem_example = {}"
  using init_inv
  by (simp_all add: mem_example_def MemDebugInit_def malloc_ok_def malloc_example_def)

lemma example_head: "rc_head (ms_rcy mem_example ! 3) = NULL"
  by (simp add: mem_example_def MemDebugInit_def MemRcyInit_def MEM_BLOCK_SZ_def)

lemma example_alloc: "MemRcyAlloc (\<lambda>_. True) malloc_example '''' 5 mem_example = (Some 7, mem_example1)"
  unfolding mem_example1_def
  by (simp add: MemRcyAlloc_def Let_def index_example MEM_BLOCK_SZ_def mem_obtain_def example_head malloc_example_def)

lemma example_client: "mem_client [] mem_example1 [7]"
  by (rule mem_client.acquire [OF example_start _ example_alloc])
    (use example_ok in \<open>simp add: system_ok_def\<close>)

lemmas example_alloc_spec = alloc_spec [OF example_ok(3,1,2) example_alloc]

text \<open>C36: A client that writes only to bytes it asked for, and resizes and frees only what it holds, holds
  every block that is in use exactly once; no guard of these blocks is damaged, nothing was reported, and
  freeing any of them puts it on its free list without a report.\<close>

theorem mem_client_safe:
  assumes "mem_client lg s ps"
  shows "mem_inv s \<and> distinct ps \<and> set ps = mem_live s \<and> ms_log s = lg \<and>
    (\<forall>a \<in> set ps. MemCheckFlow (ms_heap s a) = None \<and>
      (mem_room 0 s \<longrightarrow> ms_log (MemRcyFree (Some a) s) = lg \<and> a \<in> mem_avail (MemRcyFree (Some a) s)))"
proof -
  have h: "mem_inv s" "distinct ps" "set ps = mem_live s" "ms_log s = lg"
    "\<And>a. a \<in> set ps \<Longrightarrow> MemCheckFlow (ms_heap s a) = None"
    using client_holds [OF assms] by (auto simp: mal.holds_def)
  with free_live(4,5) [OF h(1)] show ?thesis by auto
qed

theorem mem_client_safe_witness: "mem_live mem_example1 = {7} \<and> ms_log mem_example1 = []"
  using mem_client_safe [OF example_client] by auto

text \<open>C37: \<open>Realloc\<close> of a block in use keeps the bytes up to the smaller of the two sizes, gives back a block of
  the new size with intact guards, touches no other block, and replaces the old block in the set of blocks
  in use.\<close>

theorem mem_realloc:
  assumes "mem_inv s" "malloc_ok malloc s" "mem_room 1 s" "\<forall>n. sysm n"
    and "a \<in> mem_live s" "MemCheckFlow (ms_heap s a) = None"
    and "MemRcyRealloc sysm malloc trace (Some a) sz s = (Some b, s')"
  shows "mem_inv s' \<and> mem_live s' = insert b (mem_live s - {a}) \<and> (b = a \<or> b \<notin> mem_live s) \<and>
    mn_size (ms_heap s' b) = sz \<and> MemCheckFlow (ms_heap s' b) = None \<and>
    take (min sz (mn_size (ms_heap s a))) (mn_block (ms_heap s' b))
      = take (min sz (mn_size (ms_heap s a))) (mn_block (ms_heap s a)) \<and>
    (\<forall>c. c \<noteq> a \<and> c \<noteq> b \<longrightarrow> ms_heap s' c = ms_heap s c)"
  using realloc_spec [OF assms(1-3) spec [OF assms(4)] assms(5-7)] by blast

lemma example_room: "mem_room 1 mem_example1"
proof -
  have "mem_room (Suc 1) mem_example"
    by (simp add: mem_room_def mem_example_def MemDebugInit_def MemRcyInit_def ArrayCreateInternal_def)
  from alloc_room [OF example_ok(3,1) this example_alloc] show ?thesis .
qed

theorem mem_realloc_witness:
  "mem_live (snd (MemRcyRealloc (\<lambda>_. True) (\<lambda>_. None) '''' (Some 7) 8 mem_example1)) = {7}"
proof -
  have l: "7 \<in> mem_live mem_example1" using example_alloc_spec(5) by simp
  have i: "mn_index (ms_heap mem_example1 7) = int (MemRcyIndex 8)"
    using example_alloc_spec(10) index_example by simp
  have r: "MemRcyRealloc (\<lambda>_. True) (\<lambda>_. None) '''' (Some 7) 8 mem_example1 =
      (Some 7, snd (MemRcyRealloc (\<lambda>_. True) (\<lambda>_. None) '''' (Some 7) 8 mem_example1))"
    using realloc_same(1) [OF example_alloc_spec(1) l example_alloc_spec(9) i refl] by (metis prod.collapse)
  have "malloc_ok (\<lambda>_. None) mem_example1" by (simp add: malloc_ok_def)
  from mem_realloc [OF example_alloc_spec(1) this example_room _ l example_alloc_spec(9) r]
  show ?thesis using example_alloc_spec(5) example_ok(4) by simp
qed



text \<open>\<open>MemDebugClear\<close> returns, gives every block of the allocator back exactly once, and says true exactly
  when no block is in use.\<close>

theorem mem_clear:
  assumes "mem_inv s" "ms_oper s \<noteq> CMMemSystem"
  shows "\<exists>freed s'. MemDebugClear s = Some (mem_live s = {}, freed, s') \<and> distinct freed \<and>
    set freed = mem_live s \<union> mem_avail s \<and> ms_oper s' = CMMemSystem \<and> ms_table s' = System_Table"
  using clear_spec [OF assms] by metis

theorem mem_clear_witness:
  "map_option fst (MemDebugClear mem_example1) = Some False"
proof -
  have "ms_oper mem_example1 = CMMemRecycle"
    unfolding mem_example1_def
    by (simp add: MemRcyAlloc_def Let_def index_example MEM_BLOCK_SZ_def mem_obtain_def example_head
        malloc_example_def mem_mark_def mem_use_def)
      (simp add: mem_example_def MemDebugInit_def MemRcyInit_def)
  with mem_clear [OF example_alloc_spec(1)] example_alloc_spec(5) show ?thesis by auto
qed

text \<open>The last block freed in a class is the next one handed out there, without asking the system.\<close>

theorem mem_recycle:
  assumes "mem_inv s" "mem_room 0 s" "a \<in> mem_live s" "MemCheckFlow (ms_heap s a) = None"
    and "mn_index (ms_heap s a) = int (MemRcyIndex sz)"
  shows "fst (MemRcyAlloc sysm malloc trace sz (MemRcyFree (Some a) s)) = Some a"
proof -
  obtain i where "i < MEM_BLOCK_SZ" "mn_index (ms_heap s a) = int i" using live_class [OF assms(1,3)] by metis
  with free_live(6) [OF assms(1-4)] assms(5) show ?thesis
    by (simp add: MemRcyAlloc_def mem_obtain_def Let_def MEM_BLOCK_SZ_def)
qed

text \<open>A request is too big exactly above \<open>2 ^ 44\<close> bytes.\<close>

theorem mem_too_big:
  "MEM_BLOCK_SZ \<le> MemRcyIndex sz \<longleftrightarrow> 2 ^ 44 < sz"
proof (cases "sz = 0")
  case False
  then have "ceillog2 sz \<le> 44 \<longleftrightarrow> sz \<le> 2 ^ 44" by (intro ceillog2_le_iff) simp
  then show ?thesis by (auto simp: MemRcyIndex_def MEM_BLOCK_SZ_def)
qed (simp add: MemRcyIndex_def MEM_BLOCK_SZ_def)

text \<open>\<open>Realloc\<close> does not ask whether the block is in use: one that was freed is handed out again while it
  stays at the head of its free list, so the next \<open>Alloc\<close> of the class hands it out a second time.\<close>

theorem mem_realloc_after_free:
  assumes "mem_inv s" "mem_room 0 s" "a \<in> mem_live s" "MemCheckFlow (ms_heap s a) = None"
    and "mn_index (ms_heap s a) = int (MemRcyIndex sz)"
  defines "s1 \<equiv> MemRcyFree (Some a) s"
  defines "r \<equiv> MemRcyRealloc (\<lambda>_. True) (\<lambda>_. None) [] (Some a) sz s1"
  shows "fst r = Some a \<and> fst (MemRcyAlloc (\<lambda>_. True) (\<lambda>_. None) [] sz (snd r)) = Some a"
proof -
  obtain i where i: "i < MEM_BLOCK_SZ" "mn_index (ms_heap s a) = int i" using live_class [OF assms(1,3)] by metis
  note f = free_live [OF assms(1-3), folded s1_def]
  have h: "mn_index (ms_heap s1 a) = int i" "MemCheckFlow (ms_heap s1 a) = None"
    using free_header [OF assms(1-4)] i(2) by (simp_all add: s1_def)
  have hd: "rc_head (ms_rcy s1 ! i) = Some a" using f(6) [OF assms(4)] i(2) by simp
  have len: "i < length (ms_rcy s1)" using mem_invD(2) [OF f(1) i(1)] .
  have idx: "i = MemRcyIndex sz" using assms(5) i(2) by simp
  have bad: "\<not> mem_index_bad (ms_heap s1 a)" using h(1) i(1) by (simp add: mem_index_bad_def)
  have r: "fst r = Some a" "rc_head (ms_rcy (snd r) ! i) = Some a"
    using h hd len idx bad i(1) by (simp_all add: r_def MemRcyRealloc_def Let_def)
  then show ?thesis using i(1) idx
    by (simp add: MemRcyAlloc_def mem_obtain_def Let_def MEM_BLOCK_SZ_def)
qed

text \<open>\<open>Free\<close> never lowers \<open>usedsize\<close>, so the total of a later leak report counts blocks already freed.\<close>

theorem mem_usedsize_kept: "rc_usedsize (ms_rcy (MemRcyFree p s) ! i) = rc_usedsize (ms_rcy s ! i)"
  using free_rcy [of p s] by (auto simp: nth_list_update list_update_beyond) (metis list_update_beyond not_le nth_list_update)

end
