(* ===== verification/Cmu_Sync.thy ===== *)
theory Cmu_Sync
  imports Cmu_Prelude "HOL-Library.Multiset"
begin

text \<open>
  The locks of \<open>src/src/concurrent.c\<close>: the condition object (an event with manual or automatic reset), the
  recursive mutex, the semaphore with its deadline, and the reader/writer lock that is built from them,
  with its table of readers. A call that blocks is an option: \<open>None\<close> while the caller has to wait. What is
  done under a mutex is one step; the reader/writer lock is the transition system \<open>rw_step\<close> in which any
  number of threads take turns between these steps. The model is that of the POSIX build.
\<close>

section \<open>Conditions\<close>

record cond =
  cd_state :: bool
  cd_manualrst :: bool

definition CondCreateInternal :: "bool \<Rightarrow> cond" where
  "CondCreateInternal manual_reset = \<lparr>cd_state = False, cd_manualrst = manual_reset\<rparr>"

definition CondSet :: "cond \<Rightarrow> cond" where
  "CondSet c = c\<lparr>cd_state := True\<rparr>"

definition CondReset :: "cond \<Rightarrow> cond" where
  "CondReset c = c\<lparr>cd_state := False\<rparr>"

definition cond_pass :: "cond \<Rightarrow> cond" where
  "cond_pass c = (if cd_manualrst c then c else c\<lparr>cd_state := False\<rparr>)"

definition CondWait :: "cond \<Rightarrow> cond option" where
  "CondWait c = (if cd_state c then Some (cond_pass c) else None)"

text \<open>
  C's \<open>/\<close> and \<open>%\<close> on \<open>long\<close> round toward zero.
\<close>

definition cdiv :: "int \<Rightarrow> int \<Rightarrow> int" where
  "cdiv a b = sgn a * (\<bar>a\<bar> div b)"

definition cmod :: "int \<Rightarrow> int \<Rightarrow> int" where
  "cmod a b = a - b * cdiv a b"

text \<open>The deadline of a wait: seconds and nanoseconds, from the clock's seconds and microseconds.\<close>

definition CondDeadline :: "int \<times> int \<Rightarrow> int \<Rightarrow> int \<times> int" where
  "CondDeadline now millisec =
     (let sec = fst now + cdiv millisec 1000;
          nsec = snd now * 1000 + cmod millisec 1000 * 1000000
      in if nsec \<ge> 1000000000 then (sec + cdiv nsec 1000000000, cmod nsec 1000000000) else (sec, nsec))"

text \<open>
  \<open>pthread_cond_timedwait\<close> answers \<open>EINVAL\<close> at once, without waiting, when the nanoseconds are out of
  range; the loop only ends for a set state or \<open>ETIMEDOUT\<close>. \<open>at_end\<close> is the condition when the wait is over,
  set or timed out; \<open>clock\<close> is what \<open>gettimeofday\<close> answers. \<open>None\<close> is a call that never returns.
\<close>

definition valid_nsec :: "int \<Rightarrow> bool" where
  "valid_nsec nsec \<longleftrightarrow> 0 \<le> nsec \<and> nsec < 1000000000"

definition CondTimedWait :: "(int \<times> int) option \<Rightarrow> int \<Rightarrow> cond \<Rightarrow> cond \<Rightarrow> (bool \<times> cond) option" where
  "CondTimedWait clock millisec c at_end =
     (let finish = (\<lambda>c. if cd_state c then Some (True, cond_pass c) else Some (False, c))
      in if millisec = 0 then finish c
         else case clock of
           None \<Rightarrow> Some (False, c)
         | Some now \<Rightarrow>
             if cd_state c then finish c
             else if valid_nsec (snd (CondDeadline now millisec)) then finish at_end
             else None)"

section \<open>Semaphores\<close>

text \<open>The deadline of a timed \<open>Acquire\<close>; a negative time waits without one.\<close>

definition SemDeadline :: "int \<times> int \<Rightarrow> int \<Rightarrow> int \<times> int" where
  "SemDeadline now millisec =
     (let sec = to_int (cdiv millisec 1000) + fst now;
          nsec = cmod millisec 1000 * 1000 * 1000 + snd now * 1000
      in if nsec \<ge> 1000000000 then (sec + 1, nsec - 1000000000) else (sec, nsec))"

text \<open>
  \<open>Acquire\<close> of a semaphore that holds \<open>cnt\<close> permits: \<open>now\<close> is what \<open>gettimeofday\<close> answers, \<open>post\<close> the time, in seconds
  and nanoseconds, at which another thread gives a permit back while this one waits, NULL if none does.
  \<open>sem_timedwait\<close> waits up to the deadline and refuses one whose nanoseconds are out of range.
\<close>

definition not_after :: "int \<times> int \<Rightarrow> int \<times> int \<Rightarrow> bool" where
  "not_after t d \<longleftrightarrow> fst t < fst d \<or> fst t = fst d \<and> snd t \<le> snd d"

definition SemaphoreAcquire :: "int \<times> int \<Rightarrow> (int \<times> int) ptr \<Rightarrow> int \<Rightarrow> nat \<Rightarrow> (bool \<times> nat) option" where
  "SemaphoreAcquire now post millisec cnt =
     (if 0 < cnt then Some (True, cnt - 1)
      else if millisec < 0 then (case post of NULL \<Rightarrow> None | Some _ \<Rightarrow> Some (True, 0))
      else
        (let ts = SemDeadline now millisec
         in case post of
              NULL \<Rightarrow> Some (False, 0)
            | Some t \<Rightarrow> Some (valid_nsec (snd ts) \<and> not_after t ts, 0)))"

definition SemaphoreRelease :: "nat \<Rightarrow> nat" where
  "SemaphoreRelease cnt = cnt + 1"

section \<open>Recursive mutexes\<close>

text \<open>Free, or its owner and how often it locked.\<close>

type_synonym mutex = "(nat \<times> nat) option"

definition MutexLock :: "nat \<Rightarrow> mutex \<Rightarrow> mutex option" where
  "MutexLock t m =
     (case m of
        None \<Rightarrow> Some (Some (t, 1))
      | Some (u, n) \<Rightarrow> if u = t then Some (Some (t, n + 1)) else None)"

definition MutexTryLock :: "nat \<Rightarrow> mutex \<Rightarrow> bool \<times> mutex" where
  "MutexTryLock t m = (case MutexLock t m of None \<Rightarrow> (False, m) | Some m' \<Rightarrow> (True, m'))"

definition MutexUnlock :: "nat \<Rightarrow> mutex \<Rightarrow> mutex" where
  "MutexUnlock t m =
     (case m of
        Some (u, n) \<Rightarrow> if u = t then (if n \<le> 1 then None else Some (u, n - 1)) else m
      | None \<Rightarrow> None)"

definition lock_count :: "mutex \<Rightarrow> nat \<Rightarrow> nat" where
  "lock_count m t = (case m of None \<Rightarrow> 0 | Some (u, n) \<Rightarrow> if u = t then n else 0)"

definition mutex_ok :: "mutex \<Rightarrow> bool" where
  "mutex_ok m \<longleftrightarrow> (case m of None \<Rightarrow> True | Some (u, n) \<Rightarrow> 0 < n)"

lemma mutex_ok_free [simp]: "mutex_ok None"
  by (simp add: mutex_ok_def)

lemma MutexLock_count:
  "MutexLock t m = Some m' \<Longrightarrow> mutex_ok m \<Longrightarrow>
    mutex_ok m' \<and> lock_count m' = (lock_count m)(t := lock_count m t + 1)"
  by (auto simp: MutexLock_def mutex_ok_def lock_count_def fun_eq_iff split: option.splits prod.splits if_splits)

lemma MutexLock_Some: "mutex_ok m \<Longrightarrow> (\<exists>m'. MutexLock t m = Some m') \<longleftrightarrow> (\<forall>u. u \<noteq> t \<longrightarrow> lock_count m u = 0)"
  by (auto simp: MutexLock_def mutex_ok_def lock_count_def split: option.splits prod.splits)

lemma MutexUnlock_count:
  "0 < lock_count m t \<Longrightarrow> mutex_ok m \<Longrightarrow>
    mutex_ok (MutexUnlock t m) \<and> lock_count (MutexUnlock t m) = (lock_count m)(t := lock_count m t - 1)"
  by (auto simp: MutexUnlock_def mutex_ok_def lock_count_def fun_eq_iff split: option.splits prod.splits if_splits)

lemma lock_count_one: "0 < lock_count m t \<Longrightarrow> 0 < lock_count m u \<Longrightarrow> t = u"
  by (auto simp: lock_count_def split: option.splits prod.splits if_splits)

text \<open>What the users of a recursive lock rely on: how often each thread locked it, one owner at a time.\<close>

locale exclusive_lock =
  fixes ok :: "'m \<Rightarrow> bool" and cnt :: "'m \<Rightarrow> nat \<Rightarrow> nat"
    and acquire :: "nat \<Rightarrow> 'm \<Rightarrow> 'm option" and release :: "nat \<Rightarrow> 'm \<Rightarrow> 'm"
  assumes acquire_count: "acquire t m = Some m' \<Longrightarrow> ok m \<Longrightarrow> ok m' \<and> cnt m' = (cnt m)(t := cnt m t + 1)"
    and release_count: "0 < cnt m t \<Longrightarrow> ok m \<Longrightarrow> ok (release t m) \<and> cnt (release t m) = (cnt m)(t := cnt m t - 1)"
    and one_owner: "0 < cnt m t \<Longrightarrow> 0 < cnt m u \<Longrightarrow> t = u"
    and acquire_free: "ok m \<Longrightarrow> (\<exists>m'. acquire t m = Some m') \<longleftrightarrow> (\<forall>u. u \<noteq> t \<longrightarrow> cnt m u = 0)"
begin

lemma relock: "ok m \<Longrightarrow> 0 < cnt m t \<Longrightarrow> \<exists>m'. acquire t m = Some m'"
  using one_owner [of m t] acquire_free [of m t] by blast

lemma blocked_by_owner: "ok m \<Longrightarrow> acquire t m = None \<Longrightarrow> \<exists>u. u \<noteq> t \<and> 0 < cnt m u"
  using acquire_free [of m t] by auto

lemma lock_unlock:
  assumes "acquire t m = Some m'" "ok m"
  shows "ok (release t m') \<and> cnt (release t m') = cnt m"
  using acquire_count [OF assms] release_count [of m' t] by (auto simp: fun_eq_iff)

text \<open>The lock counts of the threads, split in two parts each.\<close>

lemma owner_unique:
  assumes "\<forall>t. cnt m t = w t + p t" "0 < w t + p t" "u \<noteq> t"
  shows "w u = 0" "p u = (0 :: nat)"
  using one_owner [of m t u] assms by (metis add_gr_0 not_gr_zero)+

end

interpretation mtx: exclusive_lock mutex_ok lock_count MutexLock MutexUnlock
  by unfold_locales (use MutexLock_count MutexUnlock_count lock_count_one MutexLock_Some in blast)+

section \<open>The reader/writer lock\<close>

definition RWLOCK_HOLDER_INITCAP :: nat where
  "RWLOCK_HOLDER_INITCAP = 8"

definition sizeof_RWLockHolder :: nat where
  "sizeof_RWLockHolder = 16"

text \<open>The table of readers: thread id and depth per entry.\<close>

record rwlock =
  rw_rdcnt :: int
  rw_holders :: "(nat \<times> int) list"
  rw_nordrs :: cond
  rw_wrmtx :: mutex

definition RWLockCreateInternal :: rwlock where
  "RWLockCreateInternal =
     \<lparr>rw_rdcnt = 0, rw_holders = [], rw_nordrs = CondSet (CondCreateInternal True), rw_wrmtx = None\<rparr>"

fun holder_scan :: "(nat \<times> int \<Rightarrow> bool) \<Rightarrow> (nat \<times> int) list \<Rightarrow> nat option" where
  "holder_scan P [] = None"
| "holder_scan P (h # hs) = (if P h then Some 0 else map_option Suc (holder_scan P hs))"

definition RWLockHolderGet :: "rwlock \<Rightarrow> nat \<Rightarrow> nat option" where
  "RWLockHolderGet l tid = holder_scan (\<lambda>(t, depth). 0 < depth \<and> t = tid) (rw_holders l)"

definition RWLockHolderAdd :: "alloc \<Rightarrow> rwlock \<Rightarrow> nat \<Rightarrow> rwlock" where
  "RWLockHolderAdd mem l tid =
     (let hs = rw_holders l; cap = length hs
      in case holder_scan (\<lambda>(t, depth). depth = 0) hs of
           Some i \<Rightarrow> l\<lparr>rw_holders := hs[i := (tid, 1)]\<rparr>
         | None \<Rightarrow>
             let ncap = (if 0 < cap then cap * 2 else RWLOCK_HOLDER_INITCAP)
             in if \<not> mem (sizeof_RWLockHolder * ncap) then l
                else l\<lparr>rw_holders := (hs @ replicate (ncap - cap) (0, 0))[cap := (tid, 1)]\<rparr>)"

text \<open>The critical sections of \<open>rdcntmtx\<close>.\<close>

definition rw_enter :: "nat \<Rightarrow> rwlock \<Rightarrow> rwlock option" where
  "rw_enter tid l =
     (case RWLockHolderGet l tid of
        Some i \<Rightarrow> Some (l\<lparr>rw_holders := (rw_holders l)[i := (fst (rw_holders l ! i), snd (rw_holders l ! i) + 1)],
                         rw_rdcnt := rw_rdcnt l + 1\<rparr>)
      | None \<Rightarrow> None)"

definition rw_register :: "alloc \<Rightarrow> nat \<Rightarrow> rwlock \<Rightarrow> rwlock" where
  "rw_register mem tid l =
     (let l1 = RWLockHolderAdd mem l tid; n = rw_rdcnt l1 + 1
      in l1\<lparr>rw_rdcnt := n, rw_nordrs := (if n = 1 then CondReset (rw_nordrs l1) else rw_nordrs l1)\<rparr>)"

definition RWLockReadUnlock :: "nat \<Rightarrow> rwlock \<Rightarrow> rwlock" where
  "RWLockReadUnlock tid l =
     (let hs = rw_holders l;
          hs' = (case RWLockHolderGet l tid of
                   None \<Rightarrow> hs
                 | Some i \<Rightarrow>
                     let d = snd (hs ! i) - 1
                     in hs[i := (if d = 0 then 0 else fst (hs ! i), d)]);
          n = rw_rdcnt l - 1
      in l\<lparr>rw_holders := hs', rw_rdcnt := n,
           rw_nordrs := (if n = 0 then CondSet (rw_nordrs l) else rw_nordrs l)\<rparr>)"

text \<open>The operations of a thread that does not have to wait.\<close>

definition RWLockReadLock :: "alloc \<Rightarrow> nat \<Rightarrow> rwlock \<Rightarrow> rwlock option" where
  "RWLockReadLock mem tid l =
     (case rw_enter tid l of
        Some l' \<Rightarrow> Some l'
      | None \<Rightarrow>
          (case MutexLock tid (rw_wrmtx l) of
             None \<Rightarrow> None
           | Some m \<Rightarrow>
               let l1 = rw_register mem tid (l\<lparr>rw_wrmtx := m\<rparr>)
               in Some (l1\<lparr>rw_wrmtx := MutexUnlock tid (rw_wrmtx l1)\<rparr>)))"

definition RWLockWriteLock :: "nat \<Rightarrow> rwlock \<Rightarrow> rwlock option" where
  "RWLockWriteLock tid l =
     (case MutexLock tid (rw_wrmtx l) of
        None \<Rightarrow> None
      | Some m \<Rightarrow>
          (case CondWait (rw_nordrs l) of
             None \<Rightarrow> None
           | Some c \<Rightarrow> Some (l\<lparr>rw_wrmtx := m, rw_nordrs := c\<rparr>)))"

definition RWLockWriteUnlock :: "nat \<Rightarrow> rwlock \<Rightarrow> rwlock" where
  "RWLockWriteUnlock tid l = l\<lparr>rw_wrmtx := MutexUnlock tid (rw_wrmtx l)\<rparr>"

section \<open>Threads\<close>

text \<open>
  Where a thread is: outside every operation; in \<open>ReadLock\<close> before \<open>wrmtx\<close>, holding it, and after the
  second critical section; in \<open>WriteLock\<close> with \<open>wrmtx\<close>, waiting for the readers.
\<close>

datatype rw_pc = Out | Read_Wait | Read_Own | Read_Leave | Write_Wait

text \<open>\<open>rs_reads\<close> and \<open>rs_writes\<close> count what each thread was granted and has not given back.\<close>

record rw_sys =
  rs_lock :: rwlock
  rs_pc :: "nat \<Rightarrow> rw_pc"
  rs_reads :: "nat multiset"
  rs_writes :: "nat \<Rightarrow> nat"

inductive rw_step :: "alloc \<Rightarrow> rw_sys \<Rightarrow> nat \<Rightarrow> rw_sys \<Rightarrow> bool" for mem where
  read_again: "rs_pc S t = Out \<Longrightarrow> rw_enter t (rs_lock S) = Some l \<Longrightarrow>
    rw_step mem S t (S\<lparr>rs_lock := l, rs_reads := add_mset t (rs_reads S)\<rparr>)"
| read_first: "rs_pc S t = Out \<Longrightarrow> rw_enter t (rs_lock S) = None \<Longrightarrow>
    rw_step mem S t (S\<lparr>rs_pc := (rs_pc S)(t := Read_Wait)\<rparr>)"
| read_own: "rs_pc S t = Read_Wait \<Longrightarrow> MutexLock t (rw_wrmtx (rs_lock S)) = Some m \<Longrightarrow>
    rw_step mem S t (S\<lparr>rs_lock := (rs_lock S)\<lparr>rw_wrmtx := m\<rparr>, rs_pc := (rs_pc S)(t := Read_Own)\<rparr>)"
| read_register: "rs_pc S t = Read_Own \<Longrightarrow>
    rw_step mem S t (S\<lparr>rs_lock := rw_register mem t (rs_lock S), rs_pc := (rs_pc S)(t := Read_Leave),
                   rs_reads := add_mset t (rs_reads S)\<rparr>)"
| read_leave: "rs_pc S t = Read_Leave \<Longrightarrow>
    rw_step mem S t (S\<lparr>rs_lock := RWLockWriteUnlock t (rs_lock S), rs_pc := (rs_pc S)(t := Out)\<rparr>)"
| read_unlock: "rs_pc S t = Out \<Longrightarrow> t \<in># rs_reads S \<Longrightarrow>
    rw_step mem S t (S\<lparr>rs_lock := RWLockReadUnlock t (rs_lock S), rs_reads := rs_reads S - {#t#}\<rparr>)"
| write_own: "rs_pc S t = Out \<Longrightarrow> MutexLock t (rw_wrmtx (rs_lock S)) = Some m \<Longrightarrow>
    rw_step mem S t (S\<lparr>rs_lock := (rs_lock S)\<lparr>rw_wrmtx := m\<rparr>, rs_pc := (rs_pc S)(t := Write_Wait)\<rparr>)"
| write_pass: "rs_pc S t = Write_Wait \<Longrightarrow> CondWait (rw_nordrs (rs_lock S)) = Some c \<Longrightarrow>
    rw_step mem S t (S\<lparr>rs_lock := (rs_lock S)\<lparr>rw_nordrs := c\<rparr>, rs_pc := (rs_pc S)(t := Out),
                   rs_writes := (rs_writes S)(t := rs_writes S t + 1)\<rparr>)"
| write_unlock: "rs_pc S t = Out \<Longrightarrow> 0 < rs_writes S t \<Longrightarrow>
    rw_step mem S t (S\<lparr>rs_lock := RWLockWriteUnlock t (rs_lock S),
                   rs_writes := (rs_writes S)(t := rs_writes S t - 1)\<rparr>)"

definition rw_init :: rw_sys where
  "rw_init = \<lparr>rs_lock = RWLockCreateInternal, rs_pc = (\<lambda>_. Out), rs_reads = {#}, rs_writes = (\<lambda>_. 0)\<rparr>"

inductive rw_reach :: "alloc \<Rightarrow> rw_sys \<Rightarrow> bool" for mem where
  start: "rw_reach mem rw_init"
| step: "rw_reach mem S \<Longrightarrow> rw_step mem S t S' \<Longrightarrow> rw_reach mem S'"

section \<open>The table of readers\<close>

lemma holder_scan_Some:
  "holder_scan P hs = Some i \<Longrightarrow> i < length hs \<and> P (hs ! i)"
  by (induction hs arbitrary: i) (auto split: if_splits)

lemma holder_scan_None: "holder_scan P hs = None \<longleftrightarrow> (\<forall>i < length hs. \<not> P (hs ! i))"
  by (induction hs) (auto simp: nth_Cons split: nat.splits)

text \<open>
  Every entry in use stands for a different reader and for no more than its grants in \<open>R\<close>; when no
  entry was ever lost, for all of them.
\<close>

definition table_ok :: "(nat \<times> int) list \<Rightarrow> nat multiset \<Rightarrow> bool" where
  "table_ok hs R \<longleftrightarrow>
     (\<forall>i < length hs. 0 \<le> snd (hs ! i) \<and> (0 < snd (hs ! i) \<longrightarrow> snd (hs ! i) \<le> int (count R (fst (hs ! i))))) \<and>
     (\<forall>i < length hs. \<forall>j < length hs. 0 < snd (hs ! i) \<and> 0 < snd (hs ! j) \<and> fst (hs ! i) = fst (hs ! j) \<longrightarrow> i = j)"

definition table_exact :: "(nat \<times> int) list \<Rightarrow> nat multiset \<Rightarrow> bool" where
  "table_exact hs R \<longleftrightarrow> (\<forall>t \<in># R. \<exists>i < length hs. hs ! i = (t, int (count R t)))"

definition reader_in :: "(nat \<times> int) list \<Rightarrow> nat \<Rightarrow> bool" where
  "reader_in hs t \<longleftrightarrow> (\<exists>h \<in> set hs. 0 < snd h \<and> fst h = t)"

lemma reader_in_nth: "reader_in hs t \<longleftrightarrow> (\<exists>i < length hs. 0 < snd (hs ! i) \<and> fst (hs ! i) = t)"
  unfolding reader_in_def by (metis in_set_conv_nth)

lemma reader_in_update:
  "i < length hs \<Longrightarrow> reader_in (hs[i := h]) u \<longleftrightarrow>
    0 < snd h \<and> fst h = u \<or> (\<exists>j < length hs. j \<noteq> i \<and> 0 < snd (hs ! j) \<and> fst (hs ! j) = u)"
  by (auto simp: reader_in_nth nth_list_update)

lemma table_okI:
  assumes "\<And>i. i < length hs \<Longrightarrow> 0 \<le> snd (hs ! i)"
    "\<And>i. i < length hs \<Longrightarrow> 0 < snd (hs ! i) \<Longrightarrow> snd (hs ! i) \<le> int (count R (fst (hs ! i)))"
    "\<And>i j. i < length hs \<Longrightarrow> j < length hs \<Longrightarrow> 0 < snd (hs ! i) \<Longrightarrow> 0 < snd (hs ! j) \<Longrightarrow> fst (hs ! i) = fst (hs ! j) \<Longrightarrow> i = j"
  shows "table_ok hs R"
  using assms unfolding table_ok_def by blast

lemma table_okD:
  assumes "table_ok hs R"
  shows "i < length hs \<Longrightarrow> 0 \<le> snd (hs ! i)"
    "i < length hs \<Longrightarrow> 0 < snd (hs ! i) \<Longrightarrow> snd (hs ! i) \<le> int (count R (fst (hs ! i)))"
    "i < length hs \<Longrightarrow> j < length hs \<Longrightarrow> 0 < snd (hs ! i) \<Longrightarrow> 0 < snd (hs ! j) \<Longrightarrow> fst (hs ! i) = fst (hs ! j) \<Longrightarrow> i = j"
  using assms unfolding table_ok_def by blast+

text \<open>A change of one entry to one for \<open>t\<close>.\<close>

lemma table_update:
  assumes "table_ok hs R" "i < length hs" "\<And>j. j < length hs \<Longrightarrow> 0 < snd (hs ! j) \<Longrightarrow> fst (hs ! j) = t \<Longrightarrow> j = i"
    and "0 \<le> d" "0 < d \<Longrightarrow> v = t \<and> d \<le> int (count R' t)" "\<And>u. u \<noteq> t \<Longrightarrow> count R u \<le> count R' u"
  shows "table_ok (hs[i := (v, d)]) R'"
proof (rule table_okI)
  fix j assume j: "j < length (hs[i := (v, d)])"
  show "0 \<le> snd (hs[i := (v, d)] ! j)"
    using table_okD(1) [OF assms(1), of j] j assms(4) by (cases "j = i") auto
  assume p: "0 < snd (hs[i := (v, d)] ! j)"
  show "snd (hs[i := (v, d)] ! j) \<le> int (count R' (fst (hs[i := (v, d)] ! j)))"
  proof (cases "j = i")
    case True
    with p assms(2,5) show ?thesis by simp
  next
    case False
    with j p assms(3) [of j] have "fst (hs ! j) \<noteq> t" by auto
    with False j p table_okD(2) [OF assms(1), of j] assms(6) [of "fst (hs ! j)"] show ?thesis by simp
  qed
next
  have *: "j = i" if "j < length hs" "0 < d" "0 < snd (hs[i := (v, d)] ! j)" "fst (hs[i := (v, d)] ! j) = v" for j
  proof (rule ccontr)
    assume "j \<noteq> i"
    with that have "0 < snd (hs ! j)" "fst (hs ! j) = v" by simp_all
    with assms(5) [OF that(2)] have "j = i" by (intro assms(3) that(1)) simp_all
    with \<open>j \<noteq> i\<close> show False ..
  qed
  fix j k assume jk: "j < length (hs[i := (v, d)])" "k < length (hs[i := (v, d)])"
    "0 < snd (hs[i := (v, d)] ! j)" "0 < snd (hs[i := (v, d)] ! k)"
    "fst (hs[i := (v, d)] ! j) = fst (hs[i := (v, d)] ! k)"
  show "j = k"
  proof (cases "j = i \<or> k = i")
    case True
    have e: "hs[i := (v, d)] ! i = (v, d)" using assms(2) by simp
    have len: "j < length hs" "k < length hs" using jk(1,2) by simp_all
    from True have v: "0 < d \<and> fst (hs[i := (v, d)] ! j) = v \<and> fst (hs[i := (v, d)] ! k) = v"
    proof
      assume "j = i"
      with jk(3,5) e show ?thesis by (metis fst_conv snd_conv)
    next
      assume "k = i"
      with jk(4,5) e show ?thesis by (metis fst_conv snd_conv)
    qed
    from v have "j = i" by (intro * [OF len(1) _ jk(3)]) (elim conjE, assumption)+
    moreover from v have "k = i" by (intro * [OF len(2) _ jk(4)]) (elim conjE, assumption)+
    ultimately show ?thesis by (rule trans [OF _ sym])
  next
    case False
    then have e: "hs[i := (v, d)] ! j = hs ! j" "hs[i := (v, d)] ! k = hs ! k" by simp_all
    show ?thesis using jk unfolding e length_list_update by (rule table_okD(3) [OF assms(1)])
  qed
qed

lemma HolderGet_Some:
  "RWLockHolderGet l t = Some i \<Longrightarrow> i < length (rw_holders l) \<and> 0 < snd (rw_holders l ! i) \<and> fst (rw_holders l ! i) = t"
  by (auto simp: RWLockHolderGet_def dest!: holder_scan_Some split: prod.splits)

lemma HolderGet_None: "RWLockHolderGet l t = None \<longleftrightarrow> \<not> reader_in (rw_holders l) t"
  by (auto simp: RWLockHolderGet_def holder_scan_None reader_in_nth case_prod_beta)

lemma table_enter:
  assumes "table_ok hs R" "i < length hs" "0 < snd (hs ! i)" "fst (hs ! i) = t"
  shows "table_ok (hs[i := (t, snd (hs ! i) + 1)]) (add_mset t R)"
    "table_exact hs R \<Longrightarrow> table_exact (hs[i := (t, snd (hs ! i) + 1)]) (add_mset t R)"
    "reader_in (hs[i := (t, snd (hs ! i) + 1)]) u \<longleftrightarrow> reader_in hs u"
proof -
  show "table_ok (hs[i := (t, snd (hs ! i) + 1)]) (add_mset t R)"
  proof (rule table_update [OF assms(1,2)])
    show "j = i" if "j < length hs" "0 < snd (hs ! j)" "fst (hs ! j) = t" for j
      using table_okD(3) [OF assms(1) that(1) assms(2)] that assms(3,4) by simp
  qed (use assms table_okD(2) [OF assms(1-3)] in auto)
  show "reader_in (hs[i := (t, snd (hs ! i) + 1)]) u \<longleftrightarrow> reader_in hs u"
    using assms(2-4) by (simp only: reader_in_update) (auto simp: reader_in_nth)
  assume ex: "table_exact hs R"
  have tR: "t \<in># R" using assms unfolding table_ok_def by (metis count_inI int_ops(1) less_le_not_le)
  then obtain j where j: "j < length hs" "hs ! j = (t, int (count R t))" using ex by (auto simp: table_exact_def)
  have "j = i" using assms j tR unfolding table_ok_def by (metis fst_conv count_greater_zero_iff of_nat_0_less_iff snd_conv)
  show "table_exact (hs[i := (t, snd (hs ! i) + 1)]) (add_mset t R)"
    unfolding table_exact_def
  proof
    fix u assume u: "u \<in># add_mset t R"
    show "\<exists>k < length (hs[i := (t, snd (hs ! i) + 1)]). hs[i := (t, snd (hs ! i) + 1)] ! k = (u, int (count (add_mset t R) u))"
    proof (cases "u = t")
      case True
      with j \<open>j = i\<close> show ?thesis by (intro exI [of _ i]) simp
    next
      case False
      with u ex obtain k where "k < length hs" "hs ! k = (u, int (count R u))" by (auto simp: table_exact_def)
      moreover from this False assms(4) have "k \<noteq> i" by auto
      ultimately show ?thesis using False by (intro exI [of _ k]) simp
    qed
  qed
qed

text \<open>A new entry, in a free place or in the grown table.\<close>

lemma table_put:
  assumes "table_ok hs R" "\<not> reader_in hs t" "i < length hs" "snd (hs ! i) = 0"
  shows "table_ok (hs[i := (t, 1)]) (add_mset t R)"
    "table_exact hs R \<Longrightarrow> table_exact (hs[i := (t, 1)]) (add_mset t R)"
    "reader_in (hs[i := (t, 1)]) u \<longleftrightarrow> u = t \<or> reader_in hs u"
proof -
  have no: "\<not> 0 < snd (hs ! j) \<or> fst (hs ! j) \<noteq> t" if "j < length hs" for j
    using assms(2) that by (auto simp: reader_in_nth)
  show "table_ok (hs[i := (t, 1)]) (add_mset t R)"
    by (rule table_update [OF assms(1,3)]) (use no in auto)
  show "reader_in (hs[i := (t, 1)]) u \<longleftrightarrow> u = t \<or> reader_in hs u"
    using assms(3,4) by (simp only: reader_in_update) (auto simp: reader_in_nth)
  assume ex: "table_exact hs R"
  have "t \<notin># R"
  proof
    assume "t \<in># R"
    with ex obtain j where "j < length hs" "hs ! j = (t, int (count R t))" by (auto simp: table_exact_def)
    with no [of j] \<open>t \<in># R\<close> show False by simp
  qed
  show "table_exact (hs[i := (t, 1)]) (add_mset t R)"
    unfolding table_exact_def
  proof
    fix u assume u: "u \<in># add_mset t R"
    show "\<exists>k < length (hs[i := (t, 1)]). hs[i := (t, 1)] ! k = (u, int (count (add_mset t R) u))"
    proof (cases "u = t")
      case True
      with assms(3) \<open>t \<notin># R\<close> show ?thesis by (intro exI [of _ i]) (simp add: not_in_iff)
    next
      case False
      with u ex obtain k where k: "k < length hs" "hs ! k = (u, int (count R u))" by (auto simp: table_exact_def)
      moreover have "k \<noteq> i" using k(2) assms(4) u False by (auto simp: count_eq_zero_iff)
      ultimately show ?thesis using False by (intro exI [of _ k]) simp
    qed
  qed
qed

lemma nth_grown: "(hs @ replicate n (0, 0)) ! i = (if i < length hs then hs ! i else (0, 0))"
  if "i < length (hs @ replicate n (0, 0))"
  using that by (simp add: nth_append)

lemma table_grow:
  "table_ok hs R \<Longrightarrow> table_ok (hs @ replicate n (0, 0)) R"
  "table_exact hs R \<Longrightarrow> table_exact (hs @ replicate n (0, 0)) R"
  "reader_in (hs @ replicate n (0, 0)) t = reader_in hs t"
proof -
  show "reader_in (hs @ replicate n (0, 0)) t = reader_in hs t"
    by (auto simp: reader_in_def)
  show "table_ok (hs @ replicate n (0, 0)) R" if ok: "table_ok hs R"
  proof (rule table_okI)
    let ?g = "hs @ replicate n (0, 0)"
    have old: "i < length hs \<and> ?g ! i = hs ! i" if "i < length ?g" "0 < snd (?g ! i)" for i
      using that(2) by (simp add: nth_grown [OF that(1)] split: if_splits)
    show "0 \<le> snd (?g ! i)" if "i < length ?g" for i
      using table_okD(1) [OF ok, of i] by (simp add: nth_grown [OF that])
    show "snd (?g ! i) \<le> int (count R (fst (?g ! i)))" if "i < length ?g" "0 < snd (?g ! i)" for i
      using table_okD(2) [OF ok, of i] old [OF that] that(2) by simp
    show "i = j" if "i < length ?g" "j < length ?g" "0 < snd (?g ! i)" "0 < snd (?g ! j)" "fst (?g ! i) = fst (?g ! j)" for i j
      using table_okD(3) [OF ok, of i j] old [OF that(1,3)] old [OF that(2,4)] that(3-5) by simp
  qed
  show "table_exact hs R \<Longrightarrow> table_exact (hs @ replicate n (0, 0)) R"
    unfolding table_exact_def by (metis length_append nth_append trans_less_add1)
qed

lemma HolderAdd_table:
  fixes mem :: alloc
  assumes "table_ok (rw_holders l) R" "\<not> reader_in (rw_holders l) t"
  defines "l' \<equiv> RWLockHolderAdd mem l t"
  shows "table_ok (rw_holders l') (add_mset t R)"
    "(\<And>n. mem n) \<Longrightarrow> table_exact (rw_holders l) R \<Longrightarrow> table_exact (rw_holders l') (add_mset t R)"
    "reader_in (rw_holders l') u \<Longrightarrow> u = t \<or> reader_in (rw_holders l) u"
    "rw_rdcnt l' = rw_rdcnt l" "rw_nordrs l' = rw_nordrs l" "rw_wrmtx l' = rw_wrmtx l"
proof -
  let ?hs = "rw_holders l"
  show rest: "rw_rdcnt l' = rw_rdcnt l" "rw_nordrs l' = rw_nordrs l" "rw_wrmtx l' = rw_wrmtx l"
    by (simp_all add: l'_def RWLockHolderAdd_def Let_def split: option.splits)
  have mono: "table_ok hs R \<Longrightarrow> table_ok hs (add_mset t R)" for hs
    unfolding table_ok_def by fastforce
  have "table_ok (rw_holders l') (add_mset t R) \<and>
    ((\<forall>n. mem n) \<longrightarrow> table_exact ?hs R \<longrightarrow> table_exact (rw_holders l') (add_mset t R)) \<and>
    (reader_in (rw_holders l') u \<longrightarrow> u = t \<or> reader_in ?hs u)"
  proof (cases "holder_scan (\<lambda>(t, depth). depth = 0) ?hs")
    case (Some i)
    then have "i < length ?hs" "snd (?hs ! i) = 0" using holder_scan_Some by fastforce+
    with table_put [OF assms(1,2)] Some show ?thesis by (auto simp: l'_def RWLockHolderAdd_def Let_def)
  next
    case None
    define n where "n = (if 0 < length ?hs then length ?hs * 2 else RWLOCK_HOLDER_INITCAP) - length ?hs"
    have n: "0 < n" by (auto simp: n_def RWLOCK_HOLDER_INITCAP_def)
    show ?thesis
    proof (cases "rw_holders l' = ?hs")
      case True
      have "\<not> (\<forall>n. mem n)"
      proof
        assume "\<forall>n. mem n"
        with None have "rw_holders l' = (?hs @ replicate n (0, 0))[length ?hs := (t, 1)]"
          by (simp add: l'_def RWLockHolderAdd_def Let_def n_def)
        with True n show False by (metis length_append length_list_update length_replicate less_add_same_cancel1 less_irrefl)
      qed
      with True mono [OF assms(1)] show ?thesis by auto
    next
      case False
      with None have h: "rw_holders l' = (?hs @ replicate n (0, 0))[length ?hs := (t, 1)]"
        by (auto simp: l'_def RWLockHolderAdd_def Let_def n_def split: if_splits)
      let ?g = "?hs @ replicate n (0, 0)"
      have g: "table_ok ?g R" "\<not> reader_in ?g t" "length ?hs < length ?g" "snd (?g ! length ?hs) = 0"
        using assms(1,2) n by (simp_all add: table_grow nth_append)
      from table_put [OF g] table_grow(2,3) h show ?thesis by auto
    qed
  qed
  then show "table_ok (rw_holders l') (add_mset t R)"
    "(\<And>n. mem n) \<Longrightarrow> table_exact (rw_holders l) R \<Longrightarrow> table_exact (rw_holders l') (add_mset t R)"
    "reader_in (rw_holders l') u \<Longrightarrow> u = t \<or> reader_in (rw_holders l) u"
    by blast+
qed

text \<open>Giving a grant back.\<close>

lemma ReadUnlock_table:
  assumes "table_ok (rw_holders l) R" "t \<in># R"
  defines "l' \<equiv> RWLockReadUnlock t l"
  shows "table_ok (rw_holders l') (R - {#t#})"
    "table_exact (rw_holders l) R \<Longrightarrow> table_exact (rw_holders l') (R - {#t#})"
    "reader_in (rw_holders l') u \<Longrightarrow> reader_in (rw_holders l) u"
proof -
  let ?hs = "rw_holders l"
  have "table_ok (rw_holders l') (R - {#t#}) \<and>
    (table_exact ?hs R \<longrightarrow> table_exact (rw_holders l') (R - {#t#})) \<and>
    (reader_in (rw_holders l') u \<longrightarrow> reader_in ?hs u)"
  proof (cases "RWLockHolderGet l t")
    case None
    then have no: "\<not> reader_in ?hs t" by (simp add: HolderGet_None)
    have h: "rw_holders l' = ?hs" using None by (simp add: l'_def RWLockReadUnlock_def Let_def)
    have "\<not> table_exact ?hs R"
      using no assms(2) by (force simp: table_exact_def reader_in_nth)
    moreover have "table_ok ?hs (R - {#t#})"
      by (rule table_okI) (use table_okD [OF assms(1)] no in \<open>auto simp: reader_in_nth\<close>)
    ultimately show ?thesis using h by simp
  next
    case (Some i)
    note i = HolderGet_Some [OF Some]
    let ?d = "snd (?hs ! i) - 1"
    have h: "rw_holders l' = ?hs[i := (if ?d = 0 then 0 else t, ?d)]"
      using Some i by (simp add: l'_def RWLockReadUnlock_def Let_def)
    have d: "snd (?hs ! i) \<le> int (count R t)" using assms(1) i unfolding table_ok_def by metis
    have uniq: "j = i" if "j < length ?hs" "0 < snd (?hs ! j)" "fst (?hs ! j) = t" for j
      using assms(1) i that unfolding table_ok_def by metis
    have ok: "table_ok (rw_holders l') (R - {#t#})"
      unfolding h
      by (rule table_update [OF assms(1), of i t]) (use i d uniq assms(2) in \<open>auto simp: of_nat_diff\<close>)
    have ex: "table_exact (rw_holders l') (R - {#t#})" if "table_exact ?hs R"
      unfolding table_exact_def
    proof
      fix v assume v: "v \<in># R - {#t#}"
      then have vR: "v \<in># R" by (rule in_diffD)
      with that obtain k where k: "k < length ?hs" "?hs ! k = (v, int (count R v))" by (auto simp: table_exact_def)
      show "\<exists>k < length (rw_holders l'). rw_holders l' ! k = (v, int (count (R - {#t#}) v))"
      proof (cases "v = t")
        case True
        then have "k = i" using uniq [of k] k vR by simp
        moreover have "1 < count R t" using v True by (metis count_diff count_greater_zero_iff count_single zero_less_diff)
        ultimately show ?thesis using k True h by (intro exI [of _ i]) (auto simp: of_nat_diff)
      next
        case False
        then have "k \<noteq> i" using k i by auto
        with k False h show ?thesis by (intro exI [of _ k]) simp
      qed
    qed
    have "reader_in (rw_holders l') u \<longrightarrow> reader_in ?hs u"
      using h i by (simp only: reader_in_update) (auto simp: reader_in_nth)
    with ok ex show ?thesis by blast
  qed
  then show "table_ok (rw_holders l') (R - {#t#})"
    "table_exact (rw_holders l) R \<Longrightarrow> table_exact (rw_holders l') (R - {#t#})"
    "reader_in (rw_holders l') u \<Longrightarrow> reader_in (rw_holders l) u"
    by blast+
qed

section \<open>The invariant of the reader/writer lock\<close>

definition owns :: "rw_pc \<Rightarrow> nat" where
  "owns p = (if p \<in> {Read_Own, Read_Leave, Write_Wait} then 1 else 0)"

definition rw_inv :: "rw_sys \<Rightarrow> bool" where
  "rw_inv S \<longleftrightarrow>
     (let l = rs_lock S
      in rw_rdcnt l = int (size (rs_reads S)) \<and>
         cd_manualrst (rw_nordrs l) \<and> (cd_state (rw_nordrs l) \<longleftrightarrow> rs_reads S = {#}) \<and>
         mutex_ok (rw_wrmtx l) \<and> (\<forall>t. lock_count (rw_wrmtx l) t = rs_writes S t + owns (rs_pc S t)) \<and>
         table_ok (rw_holders l) (rs_reads S) \<and>
         (\<forall>t. rs_pc S t \<in> {Read_Wait, Read_Own} \<longrightarrow> \<not> reader_in (rw_holders l) t) \<and>
         (\<forall>t u. 0 < rs_writes S t \<and> u \<in># rs_reads S \<longrightarrow> u = t))"

lemma rw_init_inv: "rw_inv rw_init"
  by (simp add: rw_inv_def rw_init_def RWLockCreateInternal_def CondSet_def CondCreateInternal_def
      lock_count_def owns_def table_ok_def reader_in_def)

lemma rw_enter_Some:
  assumes "rw_enter t l = Some l'"
  obtains i where "i < length (rw_holders l)" "0 < snd (rw_holders l ! i)" "fst (rw_holders l ! i) = t"
    "l' = l\<lparr>rw_holders := (rw_holders l)[i := (t, snd (rw_holders l ! i) + 1)], rw_rdcnt := rw_rdcnt l + 1\<rparr>"
    "reader_in (rw_holders l) t"
proof -
  from assms obtain i where i: "RWLockHolderGet l t = Some i"
    "l' = l\<lparr>rw_holders := (rw_holders l)[i := (fst (rw_holders l ! i), snd (rw_holders l ! i) + 1)],
           rw_rdcnt := rw_rdcnt l + 1\<rparr>"
    by (auto simp: rw_enter_def split: option.splits)
  with HolderGet_Some [OF i(1)] HolderGet_None [of l t] that show thesis by auto
qed

lemma rw_enter_None: "rw_enter t l = None \<longleftrightarrow> \<not> reader_in (rw_holders l) t"
  using HolderGet_None [of l t] by (auto simp: rw_enter_def split: option.splits)

lemma reader_granted:
  assumes "table_ok hs R" "reader_in hs t"
  shows "t \<in># R"
proof -
  obtain i where i: "i < length hs" "0 < snd (hs ! i)" "fst (hs ! i) = t"
    using assms(2) by (auto simp: reader_in_nth)
  with table_okD(2) [OF assms(1) i(1,2)] show ?thesis by (metis count_inI int_ops(1) not_less)
qed

lemma step_read_again:
  assumes "rw_inv S" "rs_pc S t = Out" "rw_enter t (rs_lock S) = Some l"
  shows "rw_inv (S\<lparr>rs_lock := l, rs_reads := add_mset t (rs_reads S)\<rparr>)"
proof -
  from assms(3) obtain i where i: "i < length (rw_holders (rs_lock S))" "0 < snd (rw_holders (rs_lock S) ! i)"
    "fst (rw_holders (rs_lock S) ! i) = t" "reader_in (rw_holders (rs_lock S)) t"
    "l = (rs_lock S)\<lparr>rw_holders := (rw_holders (rs_lock S))[i := (t, snd (rw_holders (rs_lock S) ! i) + 1)],
                     rw_rdcnt := rw_rdcnt (rs_lock S) + 1\<rparr>"
    by (rule rw_enter_Some)
  have ok: "table_ok (rw_holders (rs_lock S)) (rs_reads S)" using assms(1) by (simp add: rw_inv_def Let_def)
  have t: "t \<in># rs_reads S" by (rule reader_granted [OF ok i(4)])
  from table_enter(1,3) [OF ok i(1-3)] t assms(1) show ?thesis
    by (auto simp: rw_inv_def Let_def i(5))
qed

lemma register_inv:
  fixes mem :: alloc
  assumes "rw_inv S" "rs_pc S t = Read_Own"
  shows "rw_inv (S\<lparr>rs_lock := rw_register mem t (rs_lock S), rs_pc := (rs_pc S)(t := Read_Leave),
                   rs_reads := add_mset t (rs_reads S)\<rparr>)"
proof -
  let ?l = "rs_lock S"
  have ok: "table_ok (rw_holders ?l) (rs_reads S)" "\<not> reader_in (rw_holders ?l) t"
    "rw_rdcnt ?l = int (size (rs_reads S))" "cd_manualrst (rw_nordrs ?l)"
    "cd_state (rw_nordrs ?l) \<longleftrightarrow> rs_reads S = {#}" "mutex_ok (rw_wrmtx ?l)"
    and lc: "\<forall>u. lock_count (rw_wrmtx ?l) u = rs_writes S u + owns (rs_pc S u)"
    and rest: "\<forall>u. rs_pc S u \<in> {Read_Wait, Read_Own} \<longrightarrow> \<not> reader_in (rw_holders ?l) u"
      "\<forall>v u. 0 < rs_writes S v \<and> u \<in># rs_reads S \<longrightarrow> u = v"
    using assms by (auto simp: rw_inv_def Let_def)
  note h = HolderAdd_table [OF ok(1,2), of mem]
  have other: "rs_writes S u = 0" "owns (rs_pc S u) = 0" if "u \<noteq> t" for u
    using mtx.owner_unique [OF lc _ that] assms(2) by (simp_all add: owns_def)
  have eqs: "rw_rdcnt (rw_register mem t ?l) = rw_rdcnt ?l + 1"
    "rw_nordrs (rw_register mem t ?l) = (if rw_rdcnt ?l = 0 then CondReset (rw_nordrs ?l) else rw_nordrs ?l)"
    "rw_wrmtx (rw_register mem t ?l) = rw_wrmtx ?l"
    "rw_holders (rw_register mem t ?l) = rw_holders (RWLockHolderAdd mem ?l t)"
    using h(4-6) by (simp_all add: rw_register_def Let_def)
  show ?thesis
    unfolding rw_inv_def Let_def
  proof (intro conjI allI impI)
    fix u assume "rs_pc (S\<lparr>rs_lock := rw_register mem t ?l, rs_pc := (rs_pc S)(t := Read_Leave),
        rs_reads := add_mset t (rs_reads S)\<rparr>) u \<in> {Read_Wait, Read_Own}"
    with h(3) [of u] rest(1) show "\<not> reader_in (rw_holders (rs_lock (S\<lparr>rs_lock := rw_register mem t ?l,
        rs_pc := (rs_pc S)(t := Read_Leave), rs_reads := add_mset t (rs_reads S)\<rparr>))) u"
      by (auto simp: eqs split: if_splits)
  next
    fix v u assume "0 < rs_writes (S\<lparr>rs_lock := rw_register mem t ?l, rs_pc := (rs_pc S)(t := Read_Leave),
        rs_reads := add_mset t (rs_reads S)\<rparr>) v \<and>
      u \<in># rs_reads (S\<lparr>rs_lock := rw_register mem t ?l, rs_pc := (rs_pc S)(t := Read_Leave),
        rs_reads := add_mset t (rs_reads S)\<rparr>)"
    with other [of v] rest(2) show "u = v" by (cases "v = t") auto
  qed (use ok h(1) lc assms(2) eqs in \<open>auto simp: CondReset_def owns_def split: if_splits\<close>)
qed

lemma unlock_inv:
  assumes "rw_inv S" "rs_pc S t = Out" "t \<in># rs_reads S"
  shows "rw_inv (S\<lparr>rs_lock := RWLockReadUnlock t (rs_lock S), rs_reads := rs_reads S - {#t#}\<rparr>)"
proof -
  let ?l = "rs_lock S"
  have ok: "table_ok (rw_holders ?l) (rs_reads S)" using assms(1) by (simp add: rw_inv_def Let_def)
  note h = ReadUnlock_table [OF ok assms(3)]
  obtain R where R: "rs_reads S = add_mset t R" using assms(3) by (metis multi_member_split)
  have one: "int (size (rs_reads S)) - 1 = int (size (rs_reads S - {#t#}))" using R by simp
  have eqs: "rw_rdcnt (RWLockReadUnlock t ?l) = rw_rdcnt ?l - 1"
    "rw_nordrs (RWLockReadUnlock t ?l) = (if rw_rdcnt ?l = 1 then CondSet (rw_nordrs ?l) else rw_nordrs ?l)"
    "rw_wrmtx (RWLockReadUnlock t ?l) = rw_wrmtx ?l"
    by (simp_all add: RWLockReadUnlock_def Let_def)
  have last: "int (size (rs_reads S)) = 1 \<longleftrightarrow> rs_reads S - {#t#} = {#}"
    using R by simp
  have ne: "rs_reads S \<noteq> {#}" using assms(3) by auto
  show ?thesis
    using assms(1,2) h(1) h(3) one last ne unfolding rw_inv_def Let_def
    by (auto simp: eqs CondSet_def dest: in_diffD)
qed

lemma rw_step_inv:
  assumes "rw_step mem S t S'" "rw_inv S"
  shows "rw_inv S'"
  using assms(1)
proof cases
  case (read_again l)
  with step_read_again [OF assms(2)] show ?thesis by simp
next
  case read_first
  with assms(2) show ?thesis by (auto simp: rw_inv_def Let_def rw_enter_None owns_def)
next
  case (read_own m)
  with assms(2) mtx.acquire_count [OF read_own(3)] show ?thesis
    by (auto simp: rw_inv_def Let_def owns_def)
next
  case read_register
  with register_inv [OF assms(2)] show ?thesis by simp
next
  case read_leave
  have "0 < lock_count (rw_wrmtx (rs_lock S)) t" using assms(2) read_leave by (simp add: rw_inv_def Let_def owns_def)
  from mtx.release_count [OF this] assms(2) read_leave show ?thesis
    by (auto simp: rw_inv_def Let_def owns_def RWLockWriteUnlock_def)
next
  case read_unlock
  with unlock_inv [OF assms(2)] show ?thesis by simp
next
  case (write_own m)
  with assms(2) mtx.acquire_count [OF write_own(3)] show ?thesis
    by (auto simp: rw_inv_def Let_def owns_def)
next
  case (write_pass c)
  then have "c = rw_nordrs (rs_lock S)" "rs_reads S = {#}"
    using assms(2) by (auto simp: CondWait_def cond_pass_def rw_inv_def Let_def split: if_splits)
  with assms(2) write_pass show ?thesis by (auto simp: rw_inv_def Let_def owns_def)
next
  case write_unlock
  have "0 < lock_count (rw_wrmtx (rs_lock S)) t" using assms(2) write_unlock by (simp add: rw_inv_def Let_def)
  from mtx.release_count [OF this] assms(2) write_unlock show ?thesis
    by (auto simp: rw_inv_def Let_def owns_def RWLockWriteUnlock_def)
qed

lemma rw_reach_inv: "rw_reach mem S \<Longrightarrow> rw_inv S"
  by (induction rule: rw_reach.induct) (auto intro: rw_init_inv rw_step_inv)

text \<open>When the table could always grow, every reader has its entry.\<close>

lemma rw_step_exact:
  assumes "rw_step mem S t S'" "rw_inv S" "\<And>n. mem n" "table_exact (rw_holders (rs_lock S)) (rs_reads S)"
  shows "table_exact (rw_holders (rs_lock S')) (rs_reads S')"
  using assms(1)
proof cases
  case (read_again l)
  from read_again(3) obtain i where i: "i < length (rw_holders (rs_lock S))" "0 < snd (rw_holders (rs_lock S) ! i)"
    "fst (rw_holders (rs_lock S) ! i) = t"
    "l = (rs_lock S)\<lparr>rw_holders := (rw_holders (rs_lock S))[i := (t, snd (rw_holders (rs_lock S) ! i) + 1)],
                     rw_rdcnt := rw_rdcnt (rs_lock S) + 1\<rparr>"
    by (rule rw_enter_Some)
  have ok: "table_ok (rw_holders (rs_lock S)) (rs_reads S)" using assms(2) by (simp add: rw_inv_def Let_def)
  from table_enter(2) [OF ok i(1-3) assms(4)] read_again i show ?thesis by simp
next
  case read_register
  have ok: "table_ok (rw_holders (rs_lock S)) (rs_reads S)" "\<not> reader_in (rw_holders (rs_lock S)) t"
    using assms(2) read_register(2) by (simp_all add: rw_inv_def Let_def)
  from HolderAdd_table(2) [OF ok assms(3,4)] read_register show ?thesis
    by (simp add: rw_register_def Let_def)
next
  case read_unlock
  have ok: "table_ok (rw_holders (rs_lock S)) (rs_reads S)" using assms(2) by (simp add: rw_inv_def Let_def)
  from ReadUnlock_table(2) [OF ok read_unlock(3) assms(4)] read_unlock show ?thesis by simp
qed (use assms(4) in \<open>auto simp: RWLockWriteUnlock_def\<close>)

lemma rw_reach_exact:
  "rw_reach mem S \<Longrightarrow> (\<And>n. mem n) \<Longrightarrow> table_exact (rw_holders (rs_lock S)) (rs_reads S)"
proof (induction rule: rw_reach.induct)
  case start
  show ?case by (simp add: table_exact_def rw_init_def)
next
  case (step S t S')
  with rw_step_exact [OF step.hyps(2) rw_reach_inv [OF step.hyps(1)]] show ?case by simp
qed

lemma exact_reader: "table_exact hs R \<Longrightarrow> t \<in># R \<Longrightarrow> reader_in hs t"
  by (fastforce simp: table_exact_def reader_in_nth)

section \<open>Properties\<close>

text \<open>A thread that took the write lock in two steps.\<close>

definition rw_writing :: rw_sys where
  "rw_writing = rw_init\<lparr>rs_lock := RWLockCreateInternal\<lparr>rw_wrmtx := Some (1, 1)\<rparr>, rs_writes := (\<lambda>_. 0)(1 := 1)\<rparr>"

lemma reach_writing: "rw_reach mem rw_writing"
proof -
  have "rw_step mem rw_init 1 (rw_init\<lparr>rs_lock := (rs_lock rw_init)\<lparr>rw_wrmtx := Some (1, 1)\<rparr>,
      rs_pc := (rs_pc rw_init)(1 := Write_Wait)\<rparr>)" (is "rw_step mem rw_init 1 ?S")
    by (rule rw_step.write_own) (simp_all add: rw_init_def RWLockCreateInternal_def MutexLock_def)
  then have "rw_reach mem ?S" by (rule rw_reach.step [OF rw_reach.start])
  moreover have "rw_step mem ?S 1 (?S\<lparr>rs_lock := (rs_lock ?S)\<lparr>rw_nordrs := rw_nordrs (rs_lock ?S)\<rparr>,
      rs_pc := (rs_pc ?S)(1 := Out), rs_writes := (rs_writes ?S)(1 := rs_writes ?S 1 + 1)\<rparr>)"
    by (rule rw_step.write_pass)
      (simp_all add: rw_init_def RWLockCreateInternal_def CondWait_def CondSet_def cond_pass_def CondCreateInternal_def)
  moreover have "?S\<lparr>rs_lock := (rs_lock ?S)\<lparr>rw_nordrs := rw_nordrs (rs_lock ?S)\<rparr>,
      rs_pc := (rs_pc ?S)(1 := Out), rs_writes := (rs_writes ?S)(1 := rs_writes ?S 1 + 1)\<rparr> = rw_writing"
    by (simp add: rw_init_def rw_writing_def fun_eq_iff)
  ultimately show ?thesis using rw_reach.step by metis
qed

text \<open>C29: However the threads take turns, and even when the table of readers cannot grow, only one thread
  holds the write lock, and while it does nobody else holds a read lock; the count of readers is the
  number of read locks granted and not given back.\<close>

theorem rwlock_exclusion:
  assumes "rw_reach mem S"
  shows "(\<forall>t u. 0 < rs_writes S t \<and> (u \<in># rs_reads S \<or> 0 < rs_writes S u) \<longrightarrow> u = t) \<and>
    rw_rdcnt (rs_lock S) = int (size (rs_reads S)) \<and>
    (cd_state (rw_nordrs (rs_lock S)) \<longleftrightarrow> rs_reads S = {#})"
proof -
  have i: "rw_inv S" using rw_reach_inv [OF assms] .
  have lc: "\<forall>t. lock_count (rw_wrmtx (rs_lock S)) t = rs_writes S t + owns (rs_pc S t)"
    using i by (simp add: rw_inv_def Let_def)
  have "u = t" if "0 < rs_writes S t" "0 < rs_writes S u" for t u
    using mtx.owner_unique(1) [OF lc, of t u] that by fastforce
  moreover have "\<forall>t u. 0 < rs_writes S t \<and> u \<in># rs_reads S \<longrightarrow> u = t"
    "rw_rdcnt (rs_lock S) = int (size (rs_reads S))" "cd_state (rw_nordrs (rs_lock S)) \<longleftrightarrow> rs_reads S = {#}"
    using i unfolding rw_inv_def Let_def by blast+
  ultimately show ?thesis by blast
qed

theorem rwlock_exclusion_witness: "2 \<notin># rs_reads rw_writing \<and> rs_writes rw_writing 2 = 0"
proof -
  have "0 < rs_writes rw_writing 1" by (simp add: rw_writing_def)
  with rwlock_exclusion [OF reach_writing] have "\<not> (2 \<in># rs_reads rw_writing \<or> 0 < rs_writes rw_writing 2)"
    by (metis numeral_One numeral_eq_iff semiring_norm(85))
  then show ?thesis by simp
qed

text \<open>C30: A thread that holds a read lock takes it again without waiting, whatever a writer does, and when
  threads wait, some thread inside an operation can go on or the lock is held by a thread outside every
  operation, free to give it back. This needs a table of readers that could grow, and no reader that asks
  for the write lock.\<close>

theorem rwlock_progress:
  assumes "rw_reach mem S" "\<forall>n. mem n" "\<forall>u. rs_pc S u = Write_Wait \<longrightarrow> u \<notin># rs_reads S"
  shows "(\<forall>t. t \<in># rs_reads S \<and> rs_pc S t = Out \<longrightarrow> (\<exists>l. rw_enter t (rs_lock S) = Some l)) \<and>
    ((\<exists>t. rs_pc S t \<noteq> Out) \<longrightarrow>
      (\<exists>u. rs_pc S u \<noteq> Out \<and> (\<exists>S'. rw_step mem S u S')) \<or>
      (\<exists>u. rs_pc S u = Out \<and> (u \<in># rs_reads S \<or> 0 < rs_writes S u)))"
proof (intro conjI allI impI)
  have i: "rw_inv S" using rw_reach_inv [OF assms(1)] .
  have ex: "table_exact (rw_holders (rs_lock S)) (rs_reads S)" using rw_reach_exact [OF assms(1)] assms(2) by blast
  have reader: "reader_in (rw_holders (rs_lock S)) t" if "t \<in># rs_reads S" for t
    using exact_reader [OF ex that] .
  show "\<exists>l. rw_enter t (rs_lock S) = Some l" if "t \<in># rs_reads S \<and> rs_pc S t = Out" for t
    using reader [of t] that rw_enter_None [of t "rs_lock S"] by fastforce
  assume "\<exists>t. rs_pc S t \<noteq> Out"
  then obtain t where t: "rs_pc S t \<noteq> Out" ..
  have go: "\<exists>u. rs_pc S u \<noteq> Out \<and> (\<exists>S'. rw_step mem S u S')" if "rs_pc S u \<in> {Read_Own, Read_Leave}" for u
  proof -
    have "\<exists>S'. rw_step mem S u S'"
      using that rw_step.read_register [of S u mem] rw_step.read_leave [of S u mem] by blast
    moreover have "rs_pc S u \<noteq> Out" using that by auto
    ultimately show ?thesis by blast
  qed
  have writing: "(\<exists>u. rs_pc S u \<noteq> Out \<and> (\<exists>S'. rw_step mem S u S')) \<or>
      (\<exists>u. rs_pc S u = Out \<and> (u \<in># rs_reads S \<or> 0 < rs_writes S u))" if u: "rs_pc S u = Write_Wait" for u
  proof (cases "rs_reads S = {#}")
    case True
    then have "CondWait (rw_nordrs (rs_lock S)) \<noteq> None" using i by (simp add: CondWait_def rw_inv_def Let_def)
    with rw_step.write_pass [OF u] u show ?thesis by force
  next
    case False
    then obtain v where v: "v \<in># rs_reads S" by auto
    then have "rs_pc S v \<notin> {Read_Wait, Write_Wait}"
      using i reader [OF v] assms(3) by (auto simp: rw_inv_def Let_def)
    with v go [of v] show ?thesis by (cases "rs_pc S v") auto
  qed
  show "(\<exists>u. rs_pc S u \<noteq> Out \<and> (\<exists>S'. rw_step mem S u S')) \<or>
      (\<exists>u. rs_pc S u = Out \<and> (u \<in># rs_reads S \<or> 0 < rs_writes S u))"
  proof (cases "rs_pc S t")
    case Read_Wait
    have m: "mutex_ok (rw_wrmtx (rs_lock S))"
      and lc: "\<forall>t. lock_count (rw_wrmtx (rs_lock S)) t = rs_writes S t + owns (rs_pc S t)"
      using i by (simp_all add: rw_inv_def Let_def)
    show ?thesis
    proof (cases "\<exists>m'. MutexLock t (rw_wrmtx (rs_lock S)) = Some m'")
      case True
      with rw_step.read_own [OF Read_Wait] Read_Wait show ?thesis by force
    next
      case False
      then obtain u where u: "u \<noteq> t" "lock_count (rw_wrmtx (rs_lock S)) u \<noteq> 0"
        using mtx.blocked_by_owner [OF m, of t] by auto
      show ?thesis
      proof (cases "rs_pc S u")
        case Out
        with u lc show ?thesis by (auto simp: owns_def)
      next
        case r: Read_Wait
        obtain m' where "MutexLock u (rw_wrmtx (rs_lock S)) = Some m'" using mtx.relock [OF m, of u] u(2) by auto
        from rw_step.read_own [OF r this] r show ?thesis by (metis rw_pc.distinct(1))
      next
        case Write_Wait
        then show ?thesis by (rule writing)
      qed (use go [of u] in auto)
    qed
  next
    case Write_Wait
    then show ?thesis by (rule writing)
  qed (use t go [of t] in auto)
qed

theorem rwlock_progress_witness:
  "\<exists>u. rs_pc rw_writing u = Out \<and> 0 < rs_writes rw_writing u"
proof -
  have s: "rw_step (\<lambda>_. True) rw_writing 2 (rw_writing\<lparr>rs_pc := (rs_pc rw_writing)(2 := Read_Wait)\<rparr>)"
    (is "rw_step _ _ _ ?S")
    by (rule rw_step.read_first)
      (simp_all add: rw_writing_def rw_init_def rw_enter_def RWLockHolderGet_def RWLockCreateInternal_def)
  have "(\<exists>u. rs_pc ?S u \<noteq> Out \<and> (\<exists>S'. rw_step (\<lambda>_. True) ?S u S')) \<or>
      (\<exists>u. rs_pc ?S u = Out \<and> (u \<in># rs_reads ?S \<or> 0 < rs_writes ?S u))"
    using rwlock_progress [OF rw_reach.step [OF reach_writing s]]
    by (auto simp: rw_writing_def rw_init_def)
  then show ?thesis by (auto simp: rw_writing_def rw_init_def)
qed

text \<open>The operations of a thread that does not have to wait are sequences of steps.\<close>

theorem rwlock_operations_step:
  assumes "rs_pc S t = Out"
  shows "(\<forall>l. RWLockReadLock mem t (rs_lock S) = Some l \<longrightarrow>
      (\<lambda>S S'. rw_step mem S t S')\<^sup>*\<^sup>* S (S\<lparr>rs_lock := l, rs_reads := add_mset t (rs_reads S)\<rparr>)) \<and>
    (\<forall>l. RWLockWriteLock t (rs_lock S) = Some l \<longrightarrow>
      (\<lambda>S S'. rw_step mem S t S')\<^sup>*\<^sup>* S (S\<lparr>rs_lock := l, rs_writes := (rs_writes S)(t := rs_writes S t + 1)\<rparr>))"
proof (intro conjI allI impI)
  let ?r = "\<lambda>S S'. rw_step mem S t S'"
  fix l assume l: "RWLockReadLock mem t (rs_lock S) = Some l"
  show "?r\<^sup>*\<^sup>* S (S\<lparr>rs_lock := l, rs_reads := add_mset t (rs_reads S)\<rparr>)"
  proof (cases "rw_enter t (rs_lock S)")
    case (Some l')
    with l have "l' = l" by (simp add: RWLockReadLock_def)
    with rw_step.read_again [OF assms Some] show ?thesis by auto
  next
    case None
    with l obtain m where m: "MutexLock t (rw_wrmtx (rs_lock S)) = Some m"
      and l: "l = RWLockWriteUnlock t (rw_register mem t ((rs_lock S)\<lparr>rw_wrmtx := m\<rparr>))"
      by (auto simp: RWLockReadLock_def Let_def RWLockWriteUnlock_def split: option.splits)
    define S1 where "S1 = S\<lparr>rs_pc := (rs_pc S)(t := Read_Wait)\<rparr>"
    define S2 where "S2 = S1\<lparr>rs_lock := (rs_lock S1)\<lparr>rw_wrmtx := m\<rparr>, rs_pc := (rs_pc S1)(t := Read_Own)\<rparr>"
    define S3 where "S3 = S2\<lparr>rs_lock := rw_register mem t (rs_lock S2), rs_pc := (rs_pc S2)(t := Read_Leave),
                   rs_reads := add_mset t (rs_reads S2)\<rparr>"
    define S4 where "S4 = S3\<lparr>rs_lock := RWLockWriteUnlock t (rs_lock S3), rs_pc := (rs_pc S3)(t := Out)\<rparr>"
    have "?r S S1" unfolding S1_def by (rule rw_step.read_first [OF assms None])
    moreover have "?r S1 S2" unfolding S2_def by (rule rw_step.read_own) (simp_all add: S1_def m)
    moreover have "?r S2 S3" unfolding S3_def by (rule rw_step.read_register) (simp add: S2_def)
    moreover have "?r S3 S4" unfolding S4_def by (rule rw_step.read_leave) (simp add: S3_def)
    ultimately have "?r\<^sup>*\<^sup>* S S4" by (meson rtranclp.rtrancl_into_rtrancl rtranclp.rtrancl_refl)
    moreover have "S4 = S\<lparr>rs_lock := l, rs_reads := add_mset t (rs_reads S)\<rparr>"
      using assms by (simp add: S4_def S3_def S2_def S1_def l fun_upd_idem)
    ultimately show ?thesis by simp
  qed
next
  let ?r = "\<lambda>S S'. rw_step mem S t S'"
  fix l assume "RWLockWriteLock t (rs_lock S) = Some l"
  then obtain m c where m: "MutexLock t (rw_wrmtx (rs_lock S)) = Some m" and c: "CondWait (rw_nordrs (rs_lock S)) = Some c"
    and l: "l = (rs_lock S)\<lparr>rw_wrmtx := m, rw_nordrs := c\<rparr>"
    by (auto simp: RWLockWriteLock_def split: option.splits)
  define S1 where "S1 = S\<lparr>rs_lock := (rs_lock S)\<lparr>rw_wrmtx := m\<rparr>, rs_pc := (rs_pc S)(t := Write_Wait)\<rparr>"
  define S2 where "S2 = S1\<lparr>rs_lock := (rs_lock S1)\<lparr>rw_nordrs := c\<rparr>, rs_pc := (rs_pc S1)(t := Out),
                   rs_writes := (rs_writes S1)(t := rs_writes S1 t + 1)\<rparr>"
  have "?r S S1" unfolding S1_def by (rule rw_step.write_own [OF assms m])
  moreover have "?r S1 S2" unfolding S2_def by (rule rw_step.write_pass) (simp_all add: S1_def c)
  ultimately have "?r\<^sup>*\<^sup>* S S2" by (meson rtranclp.rtrancl_into_rtrancl rtranclp.rtrancl_refl)
  moreover have "S2 = S\<lparr>rs_lock := l, rs_writes := (rs_writes S)(t := rs_writes S t + 1)\<rparr>"
    using assms by (simp add: S2_def S1_def l fun_upd_idem)
  ultimately show "?r\<^sup>*\<^sup>* S (S\<lparr>rs_lock := l, rs_writes := (rs_writes S)(t := rs_writes S t + 1)\<rparr>)" by simp
qed

theorem rwlock_operations_step_witness:
  "(\<lambda>S S'. rw_step (\<lambda>_. True) S 3 S')\<^sup>*\<^sup>* rw_init
     (rw_init\<lparr>rs_lock := the (RWLockWriteLock 3 (rs_lock rw_init)), rs_writes := (rs_writes rw_init)(3 := 1)\<rparr>)"
  using rwlock_operations_step [of rw_init 3 "\<lambda>_. True"]
  by (simp add: rw_init_def RWLockWriteLock_def RWLockCreateInternal_def MutexLock_def CondWait_def CondSet_def)

section \<open>Deadlines\<close>

lemma cdiv_pos: "0 \<le> a \<Longrightarrow> cdiv a b = a div b"
  by (cases "a = 0") (simp_all add: cdiv_def)

lemma cmod_pos: "0 \<le> a \<Longrightarrow> cmod a b = a mod b"
  by (simp add: cmod_def cdiv_pos minus_mult_div_eq_mod)

definition nanos :: "int \<times> int \<Rightarrow> int" where
  "nanos t = fst t * 1000000000 + snd t"

lemma not_after_nanos:
  assumes "valid_nsec (snd t)" "valid_nsec (snd d)"
  shows "not_after t d \<longleftrightarrow> nanos t \<le> nanos d"
proof -
  have "nanos t \<le> nanos d" if "fst t < fst d"
  proof -
    have "fst t + 1 \<le> fst d" using that by simp
    then have "(fst t + 1) * 1000000000 \<le> fst d * 1000000000" by simp
    then show ?thesis using assms by (simp add: nanos_def valid_nsec_def)
  qed
  moreover have "nanos d < nanos t" if "fst d < fst t"
  proof -
    have "fst d + 1 \<le> fst t" using that by simp
    then have "(fst d + 1) * 1000000000 \<le> fst t * 1000000000" by simp
    then show ?thesis using assms by (simp add: nanos_def valid_nsec_def)
  qed
  ultimately show ?thesis
    by (cases "fst t < fst d \<or> fst d < fst t") (auto simp: not_after_def nanos_def)
qed

lemma deadline_value:
  assumes "0 \<le> usec" "usec < 1000000" "0 \<le> ms"
  shows "valid_nsec (snd (CondDeadline (sec, usec) ms))"
    "nanos (CondDeadline (sec, usec) ms) = (sec * 1000000 + usec) * 1000 + ms * 1000000"
    "ms < 2 ^ 31 * 1000 \<Longrightarrow> SemDeadline (sec, usec) ms = CondDeadline (sec, usec) ms"
proof -
  define q r where "q = ms div 1000" and "r = ms mod 1000"
  have ms: "ms = 1000 * q + r" "0 \<le> r" "r < 1000" using assms(3) by (simp_all add: q_def r_def)
  define n where "n = usec * 1000 + r * 1000000"
  have n: "0 \<le> n" "n < 2000000000" using assms(1,2) ms(2,3) by (simp_all add: n_def)
  have e: "usec * 1000 + cmod ms 1000 * 1000000 = n" "cdiv ms 1000 = q"
    using assms(3) by (simp_all add: cdiv_pos cmod_pos n_def q_def r_def)
  have c: "CondDeadline (sec, usec) ms = (if n \<ge> 1000000000 then (sec + q + 1, n - 1000000000) else (sec + q, n))"
  proof (cases "n \<ge> 1000000000")
    case True
    have d: "n div 1000000000 = 1" using True n(2) div_pos_geq [of 1000000000 n] by simp
    then have "n mod 1000000000 = n - 1000000000" using minus_div_mult_eq_mod [of n 1000000000] by simp
    with d True n(1) e show ?thesis by (simp add: CondDeadline_def Let_def cdiv_pos cmod_pos)
  next
    case False
    with e show ?thesis by (simp add: CondDeadline_def Let_def)
  qed
  show "valid_nsec (snd (CondDeadline (sec, usec) ms))" using c n by (simp add: valid_nsec_def)
  show "nanos (CondDeadline (sec, usec) ms) = (sec * 1000000 + usec) * 1000 + ms * 1000000"
    unfolding c nanos_def using ms(1) by (simp add: n_def)
  show "SemDeadline (sec, usec) ms = CondDeadline (sec, usec) ms" if "ms < 2 ^ 31 * 1000"
  proof -
    have "to_int q = q" using assms(3) that by (intro to_int_id) (simp_all add: q_def)
    then have "cmod ms 1000 * 1000 * 1000 + usec * 1000 = n" "to_int (cdiv ms 1000) + sec = sec + q"
      using assms(3) e(2) by (simp_all add: cmod_pos n_def r_def)
    then show ?thesis by (simp add: c SemDeadline_def Let_def)
  qed
qed

text \<open>C's remainder of a negative time, and what it makes of the nanoseconds.\<close>

lemma negative_deadline:
  assumes "0 \<le> usec" "usec < 1000000" "ms < 0"
  shows "valid_nsec (snd (CondDeadline (sec, usec) ms)) \<longleftrightarrow> (- ms) mod 1000 * 1000 \<le> usec"
proof -
  define r where "r = (- ms) mod 1000"
  have r: "0 \<le> r" "r < 1000" by (simp_all add: r_def)
  have "cmod ms 1000 = - r"
    using assms(3) minus_mult_div_eq_mod [of "- ms" 1000] by (simp add: cmod_def cdiv_def r_def)
  moreover have "usec * 1000 - r * 1000000 < 1000000000" using assms(2) r(1) by simp
  ultimately have "snd (CondDeadline (sec, usec) ms) = usec * 1000 - r * 1000000"
    by (simp add: CondDeadline_def Let_def)
  with assms(2) r show ?thesis by (simp add: valid_nsec_def r_def [symmetric] mult.commute [of 1000])
qed

text \<open>C31: Timed waits. For a time that is not negative and below \<open>2 ^ 31\<close> seconds the deadline is the clock plus the
  time, with nanoseconds in range, the same for conditions and semaphores; a timed wait on a condition
  returns, true exactly when it found the condition set, and \<open>Acquire\<close> without a permit succeeds exactly
  when one is given back by the deadline. For a negative time a semaphore waits until a permit is given back,
  for ever if none is. A condition that is not set does not treat a negative time so: the wait never returns exactly
  when the microseconds of the clock are fewer than those of the rest of the time behind its whole seconds; else it returns
  like any other timed wait, with a deadline that has passed.\<close>

theorem wait_deadline:
  assumes "0 \<le> usec" "usec < 1000000"
  shows "(0 \<le> ms \<and> ms < 2 ^ 31 * 1000 \<longrightarrow>
      SemDeadline (sec, usec) ms = CondDeadline (sec, usec) ms \<and>
      valid_nsec (snd (CondDeadline (sec, usec) ms)) \<and>
      nanos (CondDeadline (sec, usec) ms) = (sec * 1000000 + usec) * 1000 + ms * 1000000 \<and>
      (\<exists>c'. CondTimedWait (Some (sec, usec)) ms c at_end
        = Some (cd_state (if ms = 0 \<or> cd_state c then c else at_end), c')) \<and>
      SemaphoreAcquire (sec, usec) NULL ms cnt = Some (0 < cnt, cnt - 1) \<and>
      (valid_nsec (snd t) \<longrightarrow>
        SemaphoreAcquire (sec, usec) (Some t) ms cnt =
          Some (0 < cnt \<or> nanos t \<le> (sec * 1000000 + usec) * 1000 + ms * 1000000, cnt - 1))) \<and>
    (ms < 0 \<longrightarrow>
      SemaphoreAcquire (sec, usec) NULL ms cnt = (if 0 < cnt then Some (True, cnt - 1) else None) \<and>
      SemaphoreAcquire (sec, usec) (Some t) ms cnt = Some (True, cnt - 1) \<and>
      (CondTimedWait (Some (sec, usec)) ms c at_end = None \<longleftrightarrow>
        \<not> cd_state c \<and> usec < (- ms) mod 1000 * 1000))"
proof (intro conjI impI)
  assume ms: "0 \<le> ms \<and> ms < 2 ^ 31 * 1000"
  note d = deadline_value [OF assms, of ms sec]
  show s: "SemDeadline (sec, usec) ms = CondDeadline (sec, usec) ms" using d(3) ms by simp
  show v: "valid_nsec (snd (CondDeadline (sec, usec) ms))" using d(1) ms by simp
  show n: "nanos (CondDeadline (sec, usec) ms) = (sec * 1000000 + usec) * 1000 + ms * 1000000" using d(2) ms by simp
  show "\<exists>c'. CondTimedWait (Some (sec, usec)) ms c at_end
      = Some (cd_state (if ms = 0 \<or> cd_state c then c else at_end), c')"
    using v by (simp add: CondTimedWait_def Let_def)
  show "SemaphoreAcquire (sec, usec) NULL ms cnt = Some (0 < cnt, cnt - 1)"
    using ms by (simp add: SemaphoreAcquire_def)
  show "SemaphoreAcquire (sec, usec) (Some t) ms cnt =
      Some (0 < cnt \<or> nanos t \<le> (sec * 1000000 + usec) * 1000 + ms * 1000000, cnt - 1)" if "valid_nsec (snd t)"
    using ms v n s not_after_nanos [OF that v] by (simp add: SemaphoreAcquire_def)
next
  assume ms: "ms < 0"
  show "SemaphoreAcquire (sec, usec) NULL ms cnt = (if 0 < cnt then Some (True, cnt - 1) else None)"
    "SemaphoreAcquire (sec, usec) (Some t) ms cnt = Some (True, cnt - 1)"
    using ms by (simp_all add: SemaphoreAcquire_def)
  show "CondTimedWait (Some (sec, usec)) ms c at_end = None \<longleftrightarrow> \<not> cd_state c \<and> usec < (- ms) mod 1000 * 1000"
    using ms negative_deadline [OF assms ms, of sec] by (auto simp: CondTimedWait_def Let_def not_le)
qed

text \<open>A wait of - 1 on the stroke of a second never returns, one of - 1000 does, and a semaphore gives up after its time.\<close>

theorem wait_deadline_witness:
  "CondDeadline (1, 999999) 1001 = (3, 999000) \<and>
    CondTimedWait (Some (0, 0)) (- 1) \<lparr>cd_state = False, cd_manualrst = True\<rparr> \<lparr>cd_state = True, cd_manualrst = True\<rparr> = None \<and>
    CondTimedWait (Some (0, 0)) (- 1000) \<lparr>cd_state = False, cd_manualrst = True\<rparr> \<lparr>cd_state = True, cd_manualrst = True\<rparr> \<noteq> None \<and>
    SemaphoreAcquire (1, 999999) (Some (3, 999001)) 1001 0 = Some (False, 0)"
proof -
  have "CondDeadline (1, 999999) 1001 = SemDeadline (1, 999999) 1001"
    "SemaphoreAcquire (1, 999999) (Some (3, 999001)) 1001 0 = Some (False, 0)"
    using wait_deadline [of 999999 1001 1 _ _ 0 "(3, 999001)"] by (simp_all add: nanos_def valid_nsec_def)
  moreover have "SemDeadline (1, 999999) 1001 = (3, 999000)"
    by (simp add: SemDeadline_def cdiv_def cmod_def to_int_def)
  moreover have "CondTimedWait (Some (0, 0)) ms c at_end = None \<longleftrightarrow> \<not> cd_state c \<and> 0 < (- ms) mod 1000 * 1000"
    if "ms < 0" for ms c at_end
    using wait_deadline [of 0 ms 0 c at_end 0 "(0, 0)"] that by simp
  ultimately show ?thesis by simp
qed

end
