(* ===== verification/Cmu_ThreadPool.thy ===== *)
theory Cmu_ThreadPool
  imports Cmu_Sync Cmu_Json "HOL-Library.Multiset"
begin

text \<open>
  The thread pool of \<open>src/src/concurrent.c\<close>: jobs in a queue, a semaphore that counts them for the
  workers, a count of idle workers and a condition that says all of them are idle. The critical sections
  of \<open>tmtx\<close> and \<open>qmtx\<close> are functions; \<open>tp_step\<close> is the system in which workers, callers of \<open>Execute\<close>,
  \<open>Wait\<close> and \<open>Destroy\<close> take turns between them. The job queue is the sequence its linked list stands for
  (\<open>Cmu_List\<close>). Allocations and the creation of threads are taken to succeed, as the code does.
\<close>

section \<open>The pool and its critical sections\<close>

record 'j tpool =
  tp_auto :: bool
  tp_pool_size :: int
  tp_idle_count :: int
  tp_jobq :: "'j list"
  tp_feed_sem :: nat
  tp_running :: bool
  tp_idle_cond :: cond
  tp_threads :: "string list"
  tp_name :: string

text \<open>\<open>"%s-%d"\<close>.\<close>

definition thread_name :: "string \<Rightarrow> int \<Rightarrow> string" where
  "thread_name nm i = nm @ ''-'' @ dec i"

fun start_threads :: "string \<Rightarrow> nat \<Rightarrow> string list" where
  "start_threads nm 0 = []"
| "start_threads nm (Suc i) = start_threads nm i @ [thread_name nm (int i + 1)]"

definition ThreadPoolCreateInternal :: "int \<Rightarrow> string ptr \<Rightarrow> int \<Rightarrow> 'j tpool" where
  "ThreadPoolCreateInternal pool_size name pool_id =
     (let n = (if pool_size \<le> 0 then 1 else pool_size);
          nm = (case name of Some s \<Rightarrow> s | NULL \<Rightarrow> ''Pool-'' @ dec pool_id)
      in \<lparr>tp_auto = (pool_size \<le> 0), tp_pool_size = n, tp_idle_count = n, tp_jobq = [], tp_feed_sem = 0,
          tp_running = True, tp_idle_cond = CondCreateInternal True,
          tp_threads = start_threads nm (nat n), tp_name = nm\<rparr>)"

definition tp_submit :: "'j \<Rightarrow> 'j tpool \<Rightarrow> bool \<times> 'j tpool" where
  "tp_submit job p =
     (let idle = tp_idle_count p - 1
      in (idle \<le> 0 \<and> tp_auto p,
          p\<lparr>tp_idle_cond := CondReset (tp_idle_cond p), tp_jobq := tp_jobq p @ [job], tp_idle_count := idle\<rparr>))"

definition tp_release :: "'j tpool \<Rightarrow> 'j tpool" where
  "tp_release p = p\<lparr>tp_feed_sem := SemaphoreRelease (tp_feed_sem p)\<rparr>"

definition tp_grow :: "'j tpool \<Rightarrow> 'j tpool" where
  "tp_grow p =
     (let n = tp_pool_size p + 1
      in p\<lparr>tp_pool_size := n, tp_idle_count := tp_idle_count p + 1,
           tp_threads := tp_threads p @ [thread_name (tp_name p) n]\<rparr>)"

definition tp_fetch :: "'j tpool \<Rightarrow> 'j ptr \<times> 'j tpool" where
  "tp_fetch p = (case tp_jobq p of [] \<Rightarrow> (NULL, p) | j # js \<Rightarrow> (Some j, p\<lparr>tp_jobq := js\<rparr>))"

definition tp_finish :: "'j tpool \<Rightarrow> 'j tpool" where
  "tp_finish p =
     (let idle = tp_idle_count p + 1
      in p\<lparr>tp_idle_count := idle,
           tp_idle_cond := (if idle = tp_pool_size p then CondSet (tp_idle_cond p) else tp_idle_cond p)\<rparr>)"

definition tp_alldone :: "'j tpool \<Rightarrow> bool" where
  "tp_alldone p \<longleftrightarrow> tp_pool_size p \<le> tp_idle_count p \<and> tp_jobq p = []"

text \<open>The operations, run without interruption. \<open>Wait\<close> of a caller that has to wait is \<open>None\<close>.\<close>

definition ThreadPoolExecute :: "'j \<Rightarrow> 'j tpool \<Rightarrow> 'j tpool" where
  "ThreadPoolExecute job p =
     (case tp_submit job p of (need, p1) \<Rightarrow> let p2 = tp_release p1 in if need then tp_grow p2 else p2)"

definition ThreadPoolWait :: "'j tpool \<Rightarrow> 'j tpool option" where
  "ThreadPoolWait p =
     (if tp_alldone p then Some p
      else map_option (\<lambda>c. p\<lparr>tp_idle_cond := c\<rparr>) (CondWait (tp_idle_cond p)))"

text \<open>What \<open>Destroy\<close> does before it joins the workers, and the jobs it drops after that.\<close>

definition tp_stop :: "'j tpool \<Rightarrow> 'j tpool" where
  "tp_stop p = p\<lparr>tp_running := False, tp_feed_sem := (SemaphoreRelease ^^ nat (tp_pool_size p)) (tp_feed_sem p)\<rparr>"

definition tp_drop_jobs :: "'j tpool \<Rightarrow> 'j list \<times> 'j tpool" where
  "tp_drop_jobs p = (tp_jobq p, p\<lparr>tp_jobq := []\<rparr>)"

section \<open>Workers and callers\<close>

text \<open>
  A worker: at the head of its loop, behind \<open>Acquire\<close>, behind the check of \<open>is_running\<close>, in the job, behind
  it, returned. A caller of \<open>Execute\<close>: before \<open>Release\<close>, with what it read about a new thread, and before the
  new thread is made. A caller of \<open>Wait\<close> before the wait on the condition.
\<close>

datatype 'j tp_phase =
    W_Top | W_Fed | W_Checked | W_Job 'j | W_After | W_Exit
  | E_Release bool | E_Grow | Wait_Cond

text \<open>\<open>ts_submitted\<close> and \<open>ts_started\<close> are the jobs in order, \<open>ts_done\<close> those that returned.\<close>

record 'j tp_sys =
  ts_pool :: "'j tpool"
  ts_busy :: "'j tp_phase multiset"
  ts_submitted :: "'j list"
  ts_started :: "'j list"
  ts_done :: "'j multiset"

inductive tp_step :: "'j tp_sys \<Rightarrow> 'j tp_sys \<Rightarrow> bool" where
  submit: "tp_running p \<Longrightarrow> tp_submit j p = (need, p') \<Longrightarrow>
    tp_step \<lparr>ts_pool = p, ts_busy = b, ts_submitted = s, ts_started = st, ts_done = d\<rparr>
      \<lparr>ts_pool = p', ts_busy = add_mset (E_Release need) b, ts_submitted = s @ [j], ts_started = st, ts_done = d\<rparr>"
| release: "tp_step
      \<lparr>ts_pool = p, ts_busy = add_mset (E_Release need) b, ts_submitted = s, ts_started = st, ts_done = d\<rparr>
      \<lparr>ts_pool = tp_release p, ts_busy = (if need then add_mset E_Grow b else b),
       ts_submitted = s, ts_started = st, ts_done = d\<rparr>"
| grow: "tp_step
      \<lparr>ts_pool = p, ts_busy = add_mset E_Grow b, ts_submitted = s, ts_started = st, ts_done = d\<rparr>
      \<lparr>ts_pool = tp_grow p, ts_busy = add_mset W_Top b, ts_submitted = s, ts_started = st, ts_done = d\<rparr>"
| acquire: "tp_running p \<Longrightarrow> SemaphoreAcquire now NULL 1000 (tp_feed_sem p) = Some (True, n) \<Longrightarrow> tp_step
      \<lparr>ts_pool = p, ts_busy = add_mset W_Top b, ts_submitted = s, ts_started = st, ts_done = d\<rparr>
      \<lparr>ts_pool = p\<lparr>tp_feed_sem := n\<rparr>, ts_busy = add_mset W_Fed b, ts_submitted = s, ts_started = st, ts_done = d\<rparr>"
| leave: "\<not> tp_running p \<Longrightarrow> tp_step
      \<lparr>ts_pool = p, ts_busy = add_mset W_Top b, ts_submitted = s, ts_started = st, ts_done = d\<rparr>
      \<lparr>ts_pool = p, ts_busy = add_mset W_Exit b, ts_submitted = s, ts_started = st, ts_done = d\<rparr>"
| check: "tp_step
      \<lparr>ts_pool = p, ts_busy = add_mset W_Fed b, ts_submitted = s, ts_started = st, ts_done = d\<rparr>
      \<lparr>ts_pool = p, ts_busy = add_mset (if tp_running p then W_Checked else W_Exit) b,
       ts_submitted = s, ts_started = st, ts_done = d\<rparr>"
| fetch_none: "tp_fetch p = (NULL, p') \<Longrightarrow> tp_step
      \<lparr>ts_pool = p, ts_busy = add_mset W_Checked b, ts_submitted = s, ts_started = st, ts_done = d\<rparr>
      \<lparr>ts_pool = p', ts_busy = add_mset W_Top b, ts_submitted = s, ts_started = st, ts_done = d\<rparr>"
| fetch: "tp_fetch p = (Some j, p') \<Longrightarrow> tp_step
      \<lparr>ts_pool = p, ts_busy = add_mset W_Checked b, ts_submitted = s, ts_started = st, ts_done = d\<rparr>
      \<lparr>ts_pool = p', ts_busy = add_mset (W_Job j) b, ts_submitted = s, ts_started = st @ [j], ts_done = d\<rparr>"
| run: "tp_step
      \<lparr>ts_pool = p, ts_busy = add_mset (W_Job j) b, ts_submitted = s, ts_started = st, ts_done = d\<rparr>
      \<lparr>ts_pool = p, ts_busy = add_mset W_After b, ts_submitted = s, ts_started = st, ts_done = add_mset j d\<rparr>"
| finish: "tp_step
      \<lparr>ts_pool = p, ts_busy = add_mset W_After b, ts_submitted = s, ts_started = st, ts_done = d\<rparr>
      \<lparr>ts_pool = tp_finish p, ts_busy = add_mset W_Top b, ts_submitted = s, ts_started = st, ts_done = d\<rparr>"
| wait: "\<not> tp_alldone p \<Longrightarrow> tp_step
      \<lparr>ts_pool = p, ts_busy = b, ts_submitted = s, ts_started = st, ts_done = d\<rparr>
      \<lparr>ts_pool = p, ts_busy = add_mset Wait_Cond b, ts_submitted = s, ts_started = st, ts_done = d\<rparr>"
| wake: "CondWait (tp_idle_cond p) = Some c \<Longrightarrow> tp_step
      \<lparr>ts_pool = p, ts_busy = add_mset Wait_Cond b, ts_submitted = s, ts_started = st, ts_done = d\<rparr>
      \<lparr>ts_pool = p\<lparr>tp_idle_cond := c\<rparr>, ts_busy = b, ts_submitted = s, ts_started = st, ts_done = d\<rparr>"
| stop: "tp_running p \<Longrightarrow> tp_step
      \<lparr>ts_pool = p, ts_busy = b, ts_submitted = s, ts_started = st, ts_done = d\<rparr>
      \<lparr>ts_pool = tp_stop p, ts_busy = b, ts_submitted = s, ts_started = st, ts_done = d\<rparr>"

definition tp_start :: "int \<Rightarrow> string ptr \<Rightarrow> int \<Rightarrow> 'j tp_sys" where
  "tp_start pool_size name pool_id =
     (let p = ThreadPoolCreateInternal pool_size name pool_id
      in \<lparr>ts_pool = p, ts_busy = replicate_mset (length (tp_threads p)) W_Top,
          ts_submitted = [], ts_started = [], ts_done = {#}\<rparr>)"

section \<open>The invariant\<close>

fun ph_job :: "'j tp_phase \<Rightarrow> 'j multiset" where
  "ph_job (W_Job j) = {#j#}"
| "ph_job ph = {#}"

fun ph_worker :: "'j tp_phase \<Rightarrow> nat" where
  "ph_worker (E_Release need) = 0"
| "ph_worker E_Grow = 0"
| "ph_worker Wait_Cond = 0"
| "ph_worker ph = 1"

fun ph_taken :: "'j tp_phase \<Rightarrow> nat" where
  "ph_taken (W_Job j) = 1"
| "ph_taken W_After = 1"
| "ph_taken ph = 0"

text \<open>A permit for a job of the queue: with the caller who will release it, or with a worker.\<close>

fun ph_permit :: "'j tp_phase \<Rightarrow> nat" where
  "ph_permit (E_Release need) = 1"
| "ph_permit W_Fed = 1"
| "ph_permit W_Checked = 1"
| "ph_permit ph = 0"

fun ph_need :: "'j tp_phase \<Rightarrow> nat" where
  "ph_need (E_Release need) = (if need then 1 else 0)"
| "ph_need E_Grow = 1"
| "ph_need ph = 0"

definition tally :: "('a \<Rightarrow> nat) \<Rightarrow> 'a multiset \<Rightarrow> nat" where
  "tally f b = (\<Sum>x\<in>#b. f x)"

lemma tally_simps [simp]:
  "tally f {#} = 0" "tally f (add_mset x b) = f x + tally f b" "tally f (replicate_mset n x) = n * f x"
  by (simp_all add: tally_def)

definition tp_inv :: "'j tp_sys \<Rightarrow> bool" where
  "tp_inv S \<longleftrightarrow>
     (let p = ts_pool S; b = ts_busy S
      in ts_submitted S = ts_started S @ tp_jobq p \<and>
         mset (ts_started S) = ts_done S + (\<Sum>ph\<in>#b. ph_job ph) \<and>
         tp_pool_size p = int (tally ph_worker b) \<and> 0 < tp_pool_size p \<and>
         tp_idle_count p = tp_pool_size p - int (length (tp_jobq p)) - int (tally ph_taken b) \<and>
         cd_manualrst (tp_idle_cond p) \<and> (cd_state (tp_idle_cond p) \<longrightarrow> tp_idle_count p = tp_pool_size p) \<and>
         (tp_running p \<longrightarrow> W_Exit \<notin># b \<and> length (tp_jobq p) = tp_feed_sem p + tally ph_permit b) \<and>
         (tp_auto p \<longrightarrow> 1 \<le> tp_idle_count p + int (tally ph_need b)) \<and>
         int (length (tp_threads p)) = tp_pool_size p)"

lemmas tp_defs = tp_submit_def tp_release_def tp_grow_def tp_fetch_def tp_finish_def tp_stop_def
  SemaphoreRelease_def SemaphoreAcquire_def CondReset_def CondSet_def CondWait_def cond_pass_def Let_def

lemma length_start_threads: "length (start_threads nm n) = n"
  by (induction n) simp_all

lemma tp_start_inv: "tp_inv (tp_start pool_size name pool_id)"
  by (auto simp: tp_inv_def tp_start_def ThreadPoolCreateInternal_def Let_def length_start_threads
      CondCreateInternal_def)

lemma tp_step_inv:
  assumes "tp_step S S'" "tp_inv S"
  shows "tp_inv S'"
  using assms
proof (cases rule: tp_step.cases)
  case (submit p j need p' b s st d)
  then show ?thesis using assms(2) by (auto simp: tp_inv_def tp_defs)
next
  case (release p need b s st d)
  then show ?thesis using assms(2) by (auto simp: tp_inv_def tp_defs)
next
  case (fetch_none p p' b s st d)
  then show ?thesis using assms(2) by (auto simp: tp_inv_def tp_defs split: list.splits)
next
  case (fetch p j p' b s st d)
  then show ?thesis using assms(2) by (auto simp: tp_inv_def tp_defs split: list.splits)
next
  case (finish p b s st d)
  then show ?thesis using assms(2) by (auto simp: tp_inv_def tp_defs)
qed (use assms(2) in \<open>auto simp: tp_inv_def tp_defs split: if_splits\<close>)

lemma tp_steps_inv: "tp_step\<^sup>*\<^sup>* S S' \<Longrightarrow> tp_inv S \<Longrightarrow> tp_inv S'"
  by (induction rule: rtranclp_induct) (auto intro: tp_step_inv)

section \<open>Progress\<close>

text \<open>What is left to do, in steps of workers and of callers inside \<open>Execute\<close>.\<close>

fun ph_work :: "'j tp_phase \<Rightarrow> nat" where
  "ph_work (E_Release need) = 5"
| "ph_work (W_Job j) = 5"
| "ph_work E_Grow = 4"
| "ph_work W_After = 4"
| "ph_work W_Top = 3"
| "ph_work W_Fed = 2"
| "ph_work W_Checked = 1"
| "ph_work ph = 0"

definition tp_work :: "'j tp_sys \<Rightarrow> nat" where
  "tp_work S = 5 * length (tp_jobq (ts_pool S)) + tally ph_work (ts_busy S)"

definition tp_outstanding :: "'j tp_sys \<Rightarrow> bool" where
  "tp_outstanding S \<longleftrightarrow> ts_done S \<noteq> mset (ts_submitted S)"

lemma tally_0: "tally f b = 0 \<longleftrightarrow> (\<forall>x \<in># b. f x = 0)"
  by (induction b) auto

lemma tally_pos: "0 < tally f b \<Longrightarrow> \<exists>x \<in># b. 0 < f x"
  using tally_0 [of f b] by auto

lemma no_job:
  assumes "tally ph_taken b = 0"
  shows "(\<Sum>ph\<in>#b. ph_job ph) = {#}"
proof -
  have "ph_taken ph = 0 \<Longrightarrow> ph_job ph = {#}" for ph :: "'a tp_phase" by (cases ph) auto
  with assms show ?thesis by (induction b) auto
qed

text \<open>The step of a phase that is not waiting for anybody.\<close>

lemma tp_phase_step:
  assumes "tp_inv S" "tp_running (ts_pool S)" "ph \<in># ts_busy S" "ph_permit ph + ph_taken ph \<noteq> 0 \<or> ph = E_Grow \<or>
      ph = W_Top \<and> tp_running (ts_pool S) \<and> 0 < tp_feed_sem (ts_pool S)"
  shows "\<exists>S'. tp_step S S' \<and> tp_work S' < tp_work S \<and> ts_submitted S' = ts_submitted S \<and>
    tp_running (ts_pool S') = tp_running (ts_pool S)"
proof -
  obtain b where b: "ts_busy S = add_mset ph b" using assms(3) by (metis multi_member_split)
  obtain p s st d where S: "S = \<lparr>ts_pool = p, ts_busy = add_mset ph b, ts_submitted = s, ts_started = st, ts_done = d\<rparr>"
    using b by (cases S) auto
  note eq = tp_work_def tp_defs
  show ?thesis
  proof (cases ph)
    case (E_Release need)
    show ?thesis unfolding S E_Release
      by (intro exI conjI, rule tp_step.release) (simp_all add: eq)
  next
    case E_Grow
    show ?thesis unfolding S E_Grow
      by (intro exI conjI, rule tp_step.grow) (simp_all add: eq)
  next
    case W_Top
    with assms(4) S have r: "tp_running p" "0 < tp_feed_sem p" by auto
    then have a: "SemaphoreAcquire (0, 0) NULL 1000 (tp_feed_sem p) = Some (True, tp_feed_sem p - 1)"
      by (simp add: SemaphoreAcquire_def)
    show ?thesis unfolding S W_Top
      by (intro exI conjI, rule tp_step.acquire [OF r(1) a]) (simp_all add: eq)
  next
    case W_Fed
    show ?thesis unfolding S W_Fed
      by (intro exI conjI, rule tp_step.check) (simp_all add: eq)
  next
    case W_Checked
    show ?thesis
    proof (cases "tp_jobq p")
      case Nil
      with assms(1,2) S W_Checked show ?thesis by (simp add: tp_inv_def Let_def)
    next
      case (Cons j js)
      then have f: "tp_fetch p = (Some j, p\<lparr>tp_jobq := js\<rparr>)" by (simp add: tp_fetch_def)
      show ?thesis unfolding S W_Checked
        by (intro exI conjI, rule tp_step.fetch [OF f]) (simp_all add: eq Cons)
    qed
  next
    case (W_Job j)
    show ?thesis unfolding S W_Job
      by (intro exI conjI, rule tp_step.run) (simp_all add: eq)
  next
    case W_After
    show ?thesis unfolding S W_After
      by (intro exI conjI, rule tp_step.finish) (simp_all add: eq)
  qed (use assms(4) in auto)
qed

text \<open>A job that is not done keeps a phase going.\<close>

lemma tp_outstanding_phase:
  assumes "tp_inv S" "tp_running (ts_pool S)" "tp_outstanding S"
  shows "\<exists>ph \<in># ts_busy S. ph_permit ph + ph_taken ph \<noteq> 0 \<or>
    ph = W_Top \<and> tp_running (ts_pool S) \<and> 0 < tp_feed_sem (ts_pool S)"
proof (cases "tally ph_taken (ts_busy S) + tally ph_permit (ts_busy S) = 0")
  case False
  then have "0 < tally ph_taken (ts_busy S) \<or> 0 < tally ph_permit (ts_busy S)" by auto
  then obtain ph where "ph \<in># ts_busy S" "0 < ph_taken ph \<or> 0 < ph_permit ph"
    using tally_pos by blast
  then show ?thesis by (intro bexI [of _ ph]) auto
next
  case True
  then have z: "tally ph_taken (ts_busy S) = 0" "tally ph_permit (ts_busy S) = 0" by simp_all
  have i: "ts_submitted S = ts_started S @ tp_jobq (ts_pool S)" "mset (ts_started S) = ts_done S"
    "0 < tally ph_worker (ts_busy S)" "W_Exit \<notin># ts_busy S"
    "length (tp_jobq (ts_pool S)) = tp_feed_sem (ts_pool S)"
    using assms(1,2) z no_job [OF z(1)] by (auto simp: tp_inv_def Let_def)
  then have "tp_jobq (ts_pool S) \<noteq> []" using assms(3) by (auto simp: tp_outstanding_def)
  then have "0 < length (tp_jobq (ts_pool S))" by simp
  then have feed: "0 < tp_feed_sem (ts_pool S)" unfolding i(5) .
  from tally_pos [OF i(3)] obtain ph where ph: "ph \<in># ts_busy S" "0 < ph_worker ph" by auto
  then have "ph_taken ph = 0" "ph_permit ph = 0" "ph \<noteq> W_Exit" using z i(4) by (auto simp: tally_0)
  with ph(2) have "ph = W_Top" by (cases ph) auto
  with ph(1) feed assms(2) show ?thesis by blast
qed

lemma tp_drain:
  "tp_inv S \<Longrightarrow> tp_running (ts_pool S) \<Longrightarrow>
    \<exists>S'. tp_step\<^sup>*\<^sup>* S S' \<and> ts_submitted S' = ts_submitted S \<and> \<not> tp_outstanding S'"
proof (induction "tp_work S" arbitrary: S rule: less_induct)
  case less
  show ?case
  proof (cases "tp_outstanding S")
    case True
    with tp_outstanding_phase [OF less.prems] tp_phase_step [OF less.prems] obtain S1 where
      s: "tp_step S S1" "tp_work S1 < tp_work S" "ts_submitted S1 = ts_submitted S" "tp_running (ts_pool S1)"
      using less.prems(2) by metis
    from less.hyps [OF s(2) tp_step_inv [OF s(1) less.prems(1)] s(4)] obtain S' where
      "tp_step\<^sup>*\<^sup>* S1 S'" "ts_submitted S' = ts_submitted S1" "\<not> tp_outstanding S'" by blast
    with s(1,3) show ?thesis by (metis converse_rtranclp_into_rtranclp)
  qed auto
qed

section \<open>Properties\<close>

text \<open>A pool of one thread with one job submitted.\<close>

definition tp_example :: "nat tp_sys" where
  "tp_example = \<lparr>ts_pool = snd (tp_submit 7 (ts_pool (tp_start 1 (Some ''p'') 1))),
     ts_busy = add_mset (E_Release False) (ts_busy (tp_start 1 (Some ''p'') 1)),
     ts_submitted = [7], ts_started = [], ts_done = {#}\<rparr>"

lemma tp_example_step: "tp_step (tp_start 1 (Some ''p'') 1) tp_example"
proof -
  let ?p = "ts_pool (tp_start 1 (Some ''p'') 1) :: nat tpool"
  have "tp_submit 7 ?p = (False, snd (tp_submit 7 ?p))" "tp_running ?p"
    by (simp_all add: tp_submit_def Let_def tp_start_def ThreadPoolCreateInternal_def)
  from tp_step.submit [OF this(2,1), of "ts_busy (tp_start 1 (Some ''p'') 1)" "[]" "[]" "{#}"]
  show ?thesis by (simp add: tp_example_def) (simp add: tp_start_def Let_def)
qed

lemma tp_example_steps: "tp_step\<^sup>*\<^sup>* (tp_start 1 (Some ''p'') 1) tp_example"
  by (rule r_into_rtranclp) (rule tp_example_step)

text \<open>C32: Jobs start in the order in which they were submitted and each of them once: what was submitted is
  what was started and then the queue, and what was started is running or done. When no worker runs a job,
  as after the join in \<open>Destroy\<close>, exactly the jobs that never started are dropped.\<close>

theorem tp_jobs_once:
  assumes "tp_step\<^sup>*\<^sup>* (tp_start pool_size name pool_id) S"
  shows "ts_submitted S = ts_started S @ tp_jobq (ts_pool S) \<and>
    mset (ts_started S) = ts_done S + (\<Sum>ph\<in>#ts_busy S. ph_job ph) \<and>
    ((\<forall>ph \<in># ts_busy S. ph_job ph = {#}) \<longrightarrow>
      mset (ts_submitted S) = ts_done S + mset (fst (tp_drop_jobs (ts_pool S))))"
proof -
  have i: "tp_inv S" by (rule tp_steps_inv [OF assms tp_start_inv])
  have "(\<forall>ph \<in># b. ph_job ph = {#}) \<Longrightarrow> (\<Sum>ph\<in>#b. ph_job ph) = {#}" for b :: "'a tp_phase multiset"
    by (induction b) auto
  with i show ?thesis by (auto simp: tp_inv_def Let_def tp_drop_jobs_def)
qed

theorem tp_jobs_once_witness: "ts_submitted tp_example = ts_started tp_example @ tp_jobq (ts_pool tp_example)"
  using tp_jobs_once [OF tp_example_steps] by blast

text \<open>C33: When \<open>Wait\<close> returns, through its check or through the condition, every job submitted so far is done.\<close>

theorem tp_wait_done:
  assumes "tp_step\<^sup>*\<^sup>* (tp_start pool_size name pool_id) S" "ThreadPoolWait (ts_pool S) = Some p"
  shows "ts_done S = mset (ts_submitted S) \<and> tp_jobq (ts_pool S) = [] \<and> tp_idle_count (ts_pool S) = tp_pool_size (ts_pool S)"
proof -
  have i: "tp_inv S" by (rule tp_steps_inv [OF assms(1) tp_start_inv])
  have "tp_pool_size (ts_pool S) \<le> tp_idle_count (ts_pool S)"
    using i assms(2) by (auto simp: ThreadPoolWait_def tp_alldone_def tp_inv_def Let_def CondWait_def split: if_splits)
  moreover have "tp_idle_count (ts_pool S) = tp_pool_size (ts_pool S) - int (length (tp_jobq (ts_pool S))) -
      int (tally ph_taken (ts_busy S))" using i by (simp add: tp_inv_def Let_def)
  ultimately have "length (tp_jobq (ts_pool S)) = 0" "tally ph_taken (ts_busy S) = 0" by linarith+
  then have z: "tp_jobq (ts_pool S) = []" "tally ph_taken (ts_busy S) = 0" by simp_all
  from no_job [OF z(2)] z i show ?thesis by (auto simp: tp_inv_def Let_def)
qed

theorem tp_wait_done_witness:
  "ts_done (tp_start 3 NULL 1 :: nat tp_sys) = mset (ts_submitted (tp_start 3 NULL 1 :: nat tp_sys))"
  using tp_wait_done [OF rtranclp.rtrancl_refl, of 3 NULL 1]
  by (simp add: ThreadPoolWait_def tp_alldone_def tp_start_def ThreadPoolCreateInternal_def Let_def)

text \<open>C34: While the pool runs, jobs that are not done can always be brought to their end by steps of its workers
  and of callers inside \<open>Execute\<close> alone; no permit of the semaphore is lost.\<close>

theorem tp_all_done:
  assumes "tp_step\<^sup>*\<^sup>* (tp_start pool_size name pool_id) S" "tp_running (ts_pool S)"
  shows "\<exists>S'. tp_step\<^sup>*\<^sup>* S S' \<and> ts_submitted S' = ts_submitted S \<and> ts_done S' = mset (ts_submitted S)"
  using tp_drain [OF tp_steps_inv [OF assms(1) tp_start_inv] assms(2)]
  by (metis tp_outstanding_def)

theorem tp_all_done_witness:
  "\<exists>S'. tp_step\<^sup>*\<^sup>* tp_example S' \<and> ts_done S' = {#7#}"
proof -
  have "tp_running (ts_pool tp_example)"
    by (simp add: tp_example_def tp_submit_def Let_def tp_start_def ThreadPoolCreateInternal_def)
  from tp_all_done [OF tp_example_steps this] show ?thesis
    by (auto simp: tp_example_def)
qed

text \<open>A pool created without a size grows so that, whenever no call of \<open>Execute\<close> is under way, a worker is
  left over: fewer jobs are queued or running than there are workers.\<close>

theorem tp_auto_spare:
  assumes "tp_step\<^sup>*\<^sup>* (tp_start pool_size name pool_id) S" "pool_size \<le> 0"
    and "\<forall>ph \<in># ts_busy S. ph_need ph = 0"
  shows "tp_auto (ts_pool S) \<and> int (length (tp_jobq (ts_pool S))) + int (tally ph_taken (ts_busy S)) < tp_pool_size (ts_pool S)"
proof -
  have i: "tp_inv S" by (rule tp_steps_inv [OF assms(1) tp_start_inv])
  have "tp_auto (ts_pool S) = tp_auto (ts_pool (tp_start pool_size name pool_id :: 'a tp_sys))"
    using assms(1)
  proof (induction rule: rtranclp_induct)
    case (step S1 S2)
    then show ?case by (auto elim!: tp_step.cases simp: tp_defs split: list.splits)
  qed simp
  then have "tp_auto (ts_pool S)" using assms(2) by (simp add: tp_start_def ThreadPoolCreateInternal_def Let_def)
  moreover have "tally ph_need (ts_busy S) = 0" using assms(3) by (simp add: tally_0)
  ultimately show ?thesis using i by (auto simp: tp_inv_def Let_def)
qed

theorem tp_auto_spare_witness: "tp_jobq (ts_pool (tp_start 0 NULL 4 :: nat tp_sys)) = [] \<and> tp_auto (ts_pool (tp_start 0 NULL 4 :: nat tp_sys))"
  using tp_auto_spare [OF rtranclp.rtrancl_refl, of 0 NULL 4]
  by (simp add: tp_start_def ThreadPoolCreateInternal_def Let_def)

text \<open>\<open>Execute\<close> run alone is a sequence of steps.\<close>

theorem execute_steps:
  assumes "tp_running (ts_pool S)"
  shows "\<exists>b. tp_step\<^sup>*\<^sup>* S (S\<lparr>ts_pool := ThreadPoolExecute j (ts_pool S), ts_busy := b, ts_submitted := ts_submitted S @ [j]\<rparr>)"
proof -
  obtain p b s st d where S: "S = \<lparr>ts_pool = p, ts_busy = b, ts_submitted = s, ts_started = st, ts_done = d\<rparr>"
    by (cases S) auto
  obtain need p1 where sub: "tp_submit j p = (need, p1)" by fastforce
  have r: "tp_running p" using assms S by simp
  note steps = tp_step.submit [OF r sub, of b s st d] tp_step.release [of p1 need b "s @ [j]" st d]
    tp_step.grow [of "tp_release p1" b "s @ [j]" st d]
  let ?E = "\<lparr>ts_pool = p1, ts_busy = add_mset (E_Release need) b, ts_submitted = s @ [j], ts_started = st, ts_done = d\<rparr>"
  have first: "tp_step S ?E" unfolding S by (rule steps(1))
  show ?thesis
  proof (cases need)
    case True
    with steps(2) have "tp_step ?E \<lparr>ts_pool = tp_release p1, ts_busy = add_mset E_Grow b,
        ts_submitted = s @ [j], ts_started = st, ts_done = d\<rparr>" by simp
    from first this steps(3) have "tp_step\<^sup>*\<^sup>* S \<lparr>ts_pool = tp_grow (tp_release p1), ts_busy = add_mset W_Top b,
        ts_submitted = s @ [j], ts_started = st, ts_done = d\<rparr>"
      by (blast intro: converse_rtranclp_into_rtranclp rtranclp.rtrancl_refl)
    with True sub show ?thesis
      by (intro exI [of _ "add_mset W_Top b"]) (simp add: S ThreadPoolExecute_def Let_def)
  next
    case False
    with steps(2) have "tp_step ?E \<lparr>ts_pool = tp_release p1, ts_busy = b,
        ts_submitted = s @ [j], ts_started = st, ts_done = d\<rparr>" by simp
    from first this have "tp_step\<^sup>*\<^sup>* S \<lparr>ts_pool = tp_release p1, ts_busy = b,
        ts_submitted = s @ [j], ts_started = st, ts_done = d\<rparr>"
      by (blast intro: converse_rtranclp_into_rtranclp rtranclp.rtrancl_refl)
    with False sub show ?thesis
      by (intro exI [of _ b]) (simp add: S ThreadPoolExecute_def Let_def)
  qed
qed

end
