(* ===== verification/Cmu_Threads.thy ===== *)
theory Cmu_Threads
  imports Cmu_Array Cmu_Json
begin

text \<open>
  Threads in \<open>src/src/concurrent.c\<close>: how a thread gets its id and name, and the registry of running
  threads, a sorted array ordered by the id the system gives a thread, in which the calling thread finds
  itself. A thread is added to the registry before its procedure runs and removed after it; the registry
  is guarded by a mutex, so each operation is one step. Starting and joining are calls of the system.
\<close>

section \<open>Threads and their registry\<close>

record thread =
  th_id :: nat
  th_name :: string
  th_sysid :: nat

definition ThreadComparator :: "thread cmp" where
  "ThreadComparator a b =
     (case (a, b) of
        (Some ia, Some ib) \<Rightarrow>
          if th_sysid ia > th_sysid ib then 1 else if th_sysid ia < th_sysid ib then - 1 else 0
      | _ \<Rightarrow> 0)"

text \<open>The global context; \<open>tc_main\<close> is the system id of the thread that initialised the library.\<close>

record tctx =
  tc_main :: nat
  tc_threads :: "thread arr"
  tc_index :: nat

definition ThreadInit :: "alloc \<Rightarrow> nat \<Rightarrow> tctx option" where
  "ThreadInit mem sysid =
     map_option (\<lambda>a. \<lparr>tc_main = sysid, tc_threads = a, tc_index = 0\<rparr>)
       (ArrayCreateInternal mem 10 (Some ThreadComparator) False True)"

text \<open>A new thread; its system id is unknown until it runs.\<close>

definition UINT32_MAX :: nat where
  "UINT32_MAX = 4294967295"

definition given_name :: "string ptr \<Rightarrow> nat \<Rightarrow> string" where
  "given_name name i = (case name of Some s \<Rightarrow> s | NULL \<Rightarrow> ''Thread-'' @ dec (int i))"

definition ThreadCreateInternal :: "string ptr \<Rightarrow> tctx \<Rightarrow> thread \<times> tctx" where
  "ThreadCreateInternal name ctx =
     (let index = (if tc_index ctx = UINT32_MAX then 0 else tc_index ctx) + 1
      in (\<lparr>th_id = index, th_name = given_name name index, th_sysid = 0\<rparr>,
          ctx\<lparr>tc_index := index\<rparr>))"

text \<open>What a thread does before and behind its procedure; the flag is the error log of a duplicate.\<close>

definition ThreadProc_enter :: "alloc \<Rightarrow> thread \<Rightarrow> tctx \<Rightarrow> bool \<times> tctx" where
  "ThreadProc_enter mem th ctx =
     (case ArrayAdd mem (tc_threads ctx) (Some th) True of
        (r, a) \<Rightarrow> (add_ret r \<noteq> None \<and> add_ret r \<noteq> Some NULL, ctx\<lparr>tc_threads := a\<rparr>))"

definition ThreadProc_leave :: "thread \<Rightarrow> tctx \<Rightarrow> tctx" where
  "ThreadProc_leave th ctx = ctx\<lparr>tc_threads := snd (ArrayRemove (tc_threads ctx) (Some th))\<rparr>"

definition thread_find :: "nat \<Rightarrow> tctx \<Rightarrow> thread ptr" where
  "thread_find sysid ctx =
     fst (ArrayFind (tc_threads ctx) (Some \<lparr>th_id = 0, th_name = [], th_sysid = sysid\<rparr>))"

definition ThreadSelfId :: "nat \<Rightarrow> tctx \<Rightarrow> nat" where
  "ThreadSelfId sysid ctx = (case thread_find sysid ctx of NULL \<Rightarrow> 0 | Some r \<Rightarrow> th_id r)"

text \<open>
  \<open>ThreadSelf\<close> keeps the main thread's object in a static variable, filled at the first call: \<open>thmain\<close> is
  the system id it holds, \<open>None\<close> before that.
\<close>

datatype thread_self = Self_Main | Self_Thread thread | Self_NULL

definition ThreadSelf :: "nat \<Rightarrow> tctx \<Rightarrow> nat option \<Rightarrow> thread_self \<times> nat option" where
  "ThreadSelf sysid ctx thmain =
     (let m = (case thmain of None \<Rightarrow> tc_main ctx | Some s \<Rightarrow> s)
      in (if sysid = m then Self_Main
          else case thread_find sysid ctx of NULL \<Rightarrow> Self_NULL | Some r \<Rightarrow> Self_Thread r,
          Some m))"

section \<open>The comparator\<close>

interpretation thc: comparator ThreadComparator "\<lambda>x. x \<noteq> NULL"
  by unfold_locales (auto simp: ThreadComparator_def split: if_splits)

section \<open>Histories\<close>

text \<open>Threads that begin and end; the system gives no id to two running threads.\<close>

datatype thread_event = Begin thread | End thread

fun thread_events :: "alloc \<Rightarrow> tctx \<Rightarrow> thread_event list \<Rightarrow> bool \<times> tctx" where
  "thread_events mem ctx [] = (False, ctx)"
| "thread_events mem ctx (Begin th # es) =
     (case ThreadProc_enter mem th ctx of
        (dup, ctx1) \<Rightarrow> case thread_events mem ctx1 es of (dups, ctx2) \<Rightarrow> (dup \<or> dups, ctx2))"
| "thread_events mem ctx (End th # es) = thread_events mem (ThreadProc_leave th ctx) es"

fun alive :: "thread list \<Rightarrow> thread_event list \<Rightarrow> thread list option" where
  "alive ls [] = Some ls"
| "alive ls (Begin th # es) =
     (if th_sysid th \<in> th_sysid ` set ls then None else alive (th # ls) es)"
| "alive ls (End th # es) =
     (if th \<in> set ls then alive (filter (\<lambda>u. th_sysid u \<noteq> th_sysid th) ls) es else None)"

definition registry_ok :: "tctx \<Rightarrow> thread list \<Rightarrow> bool" where
  "registry_ok ctx ls \<longleftrightarrow>
     sorted_inv ThreadComparator (\<lambda>x. x \<noteq> NULL) (tc_threads ctx) \<and>
     set (items (tc_threads ctx)) = Some ` set ls \<and> distinct (map th_sysid ls)"

lemma ThreadComparator_0: "ThreadComparator (Some a) (Some b) = 0 \<longleftrightarrow> th_sysid a = th_sysid b"
  by (auto simp: ThreadComparator_def)

lemma registry_size:
  assumes "registry_ok ctx ls"
  shows "a_size (tc_threads ctx) = length ls"
proof -
  have i: "arr_inv (tc_threads ctx)" "distinct (items (tc_threads ctx))"
    using assms thc.sorted_invD(1) thc.distinct_items by (auto simp: registry_ok_def)
  then have "a_size (tc_threads ctx) = card (set (items (tc_threads ctx)))"
    by (simp add: distinct_card)
  also have "\<dots> = length ls"
    using assms by (simp add: registry_ok_def card_image inj_on_def distinct_card distinct_map)
  finally show ?thesis .
qed

lemma registry_find:
  assumes "registry_ok ctx ls"
  shows "List.find (\<lambda>y. ThreadComparator (Some q) y = 0) (items (tc_threads ctx)) =
    map_option Some (List.find (\<lambda>t. th_sysid t = th_sysid q) ls)"
proof -
  have set: "set (items (tc_threads ctx)) = Some ` set ls" and d: "distinct (map th_sysid ls)"
    using assms by (auto simp: registry_ok_def)
  show ?thesis
  proof (cases "List.find (\<lambda>t. th_sysid t = th_sysid q) ls")
    case None
    then have "List.find (\<lambda>y. ThreadComparator (Some q) y = 0) (items (tc_threads ctx)) = None"
      using set by (auto simp: find_None_iff ThreadComparator_0)
    with None show ?thesis by simp
  next
    case (Some t)
    then have t: "t \<in> set ls" "th_sysid t = th_sysid q"
      by (auto simp: find_Some_iff)
    obtain y where y: "List.find (\<lambda>y. ThreadComparator (Some q) y = 0) (items (tc_threads ctx)) = Some y"
      using set t by (cases "List.find (\<lambda>y. ThreadComparator (Some q) y = 0) (items (tc_threads ctx))")
        (auto simp: find_None_iff ThreadComparator_0)
    then have "y \<in> set (items (tc_threads ctx))" "ThreadComparator (Some q) y = 0"
      by (auto simp: find_Some_iff)
    then obtain u where u: "y = Some u" "u \<in> set ls" "th_sysid u = th_sysid q"
      using set by (auto simp: ThreadComparator_0)
    then have "u = t" using t d by (metis distinct_map inj_onD)
    with Some y u show ?thesis by simp
  qed
qed

lemma enter_ok:
  assumes "registry_ok ctx ls" "th_sysid th \<notin> th_sysid ` set ls" "length ls < 2 ^ 32" "\<And>n. mem n"
  shows "fst (ThreadProc_enter mem th ctx) = False \<and> registry_ok (snd (ThreadProc_enter mem th ctx)) (th # ls)"
proof -
  let ?a = "tc_threads ctx" and ?r = "ArrayAdd mem (tc_threads ctx) (Some th) True"
  have s: "sorted_inv ThreadComparator (\<lambda>x. x \<noteq> NULL) ?a" "a_size ?a < 2 ^ 32"
    using assms(1,3) registry_size [OF assms(1)] by (auto simp: registry_ok_def)
  note add = thc.Add_sorted [OF s(1) _ s(2), of "Some th" mem True, simplified]
  have f: "List.find (\<lambda>y. ThreadComparator (Some th) y = 0) (items ?a) = None"
    using registry_find [OF assms(1), of th] assms(2) by (auto simp: find_None_iff image_iff)
  obtain ok a' where c: "ArrayCheckSize mem ?a 1 = (ok, a')" by fastforce
  have "ok" using CheckSize_spec(6) [OF thc.sorted_invD(1) [OF s(1)] c] assms(4) by simp
  then have "add_ok (fst ?r)" using add(4) f c by simp
  then have i: "items (snd ?r) = sorted_put ThreadComparator (Some th) (items ?a)" using add(2) by simp
  have "set (items (snd ?r)) = insert (Some th) (set (items ?a))"
    using f unfolding i thc.set_sorted_put by (auto simp: find_None_iff)
  moreover have "add_ret (fst ?r) = None" using add(5) f by simp
  ultimately show ?thesis using add(1) assms(1,2)
    by (auto simp: ThreadProc_enter_def registry_ok_def split: prod.splits)
qed

lemma leave_ok:
  assumes "registry_ok ctx ls" "length ls < 2 ^ 32"
  shows "registry_ok (ThreadProc_leave th ctx) (filter (\<lambda>u. th_sysid u \<noteq> th_sysid th) ls)"
proof -
  let ?a = "tc_threads ctx"
  have s: "sorted_inv ThreadComparator (\<lambda>x. x \<noteq> NULL) ?a" "a_size ?a < 2 ^ 32"
    using assms registry_size [OF assms(1)] by (auto simp: registry_ok_def)
  note rm = thc.Remove_sorted [OF s(1) _ s(2), of "Some th", simplified]
  have "set (items (snd (ArrayRemove ?a (Some th)))) = Some ` {u \<in> set ls. th_sysid u \<noteq> th_sysid th}"
    using assms(1) by (auto simp: rm(2) registry_ok_def ThreadComparator_0)
  then show ?thesis using rm(3) assms(1)
    by (auto simp: ThreadProc_leave_def registry_ok_def distinct_map inj_on_def)
qed

lemma events_ok:
  assumes "registry_ok ctx ls" "alive ls es = Some live" "length ls + length es < 2 ^ 32" "\<And>n. mem n"
  shows "fst (thread_events mem ctx es) = False \<and> registry_ok (snd (thread_events mem ctx es)) live \<and>
    length live < 2 ^ 32"
  using assms
proof (induction es arbitrary: ctx ls)
  case (Cons e es)
  show ?case
  proof (cases e)
    case (Begin th)
    with Cons.prems have p: "th_sysid th \<notin> th_sysid ` set ls" "alive (th # ls) es = Some live"
      by (auto split: if_splits)
    have "fst (ThreadProc_enter mem th ctx) = False \<and> registry_ok (snd (ThreadProc_enter mem th ctx)) (th # ls)"
      using Cons.prems(3) by (intro enter_ok [OF Cons.prems(1) p(1) _ Cons.prems(4)]) simp
    then obtain c1 where c1: "ThreadProc_enter mem th ctx = (False, c1)" "registry_ok c1 (th # ls)"
      by (cases "ThreadProc_enter mem th ctx") auto
    obtain dups c2 where c2: "thread_events mem c1 es = (dups, c2)" by fastforce
    have "length (th # ls) + length es < 2 ^ 32" using Cons.prems(3) by simp
    from Cons.IH [OF c1(2) p(2) this Cons.prems(4)] show ?thesis by (simp add: Begin c1(1) c2)
  next
    case (End th)
    with Cons.prems have p: "alive (filter (\<lambda>u. th_sysid u \<noteq> th_sysid th) ls) es = Some live"
      by (auto split: if_splits)
    have l: "registry_ok (ThreadProc_leave th ctx) (filter (\<lambda>u. th_sysid u \<noteq> th_sysid th) ls)"
      using leave_ok [OF Cons.prems(1)] Cons.prems(3) by simp
    have "length (filter (\<lambda>u. th_sysid u \<noteq> th_sysid th) ls) + length es < 2 ^ 32"
      by (rule le_less_trans [of _ "length ls + length es"]) (use Cons.prems(3) in simp_all)
    from Cons.IH [OF l p this Cons.prems(4)] show ?thesis by (simp add: End)
  qed
qed simp

lemma init_ok: "ThreadInit mem sysid = Some ctx \<Longrightarrow> registry_ok ctx [] \<and> tc_index ctx = 0"
  by (auto simp: ThreadInit_def ArrayCreateInternal_def registry_ok_def sorted_inv_def arr_inv_def items_def
      ascending_def split: if_splits)

section \<open>Ids\<close>

fun create_threads :: "string ptr list \<Rightarrow> tctx \<Rightarrow> thread list \<times> tctx" where
  "create_threads [] ctx = ([], ctx)"
| "create_threads (nm # nms) ctx =
     (case ThreadCreateInternal nm ctx of
        (th, ctx1) \<Rightarrow> case create_threads nms ctx1 of (ths, ctx2) \<Rightarrow> (th # ths, ctx2))"

lemma create_id:
  assumes "tc_index ctx < 2 ^ 32"
  shows "th_id (fst (ThreadCreateInternal nm ctx)) = tc_index ctx mod (2 ^ 32 - 1) + 1"
    "tc_index (snd (ThreadCreateInternal nm ctx)) = tc_index ctx mod (2 ^ 32 - 1) + 1"
  using assms by (auto simp: ThreadCreateInternal_def UINT32_MAX_def Let_def)

lemma create_ids:
  assumes "tc_index ctx < 2 ^ 32" "i < length nms"
  shows "th_id (fst (create_threads nms ctx) ! i) = (tc_index ctx + i) mod (2 ^ 32 - 1) + 1 \<and>
    th_name (fst (create_threads nms ctx) ! i) = given_name (nms ! i) ((tc_index ctx + i) mod (2 ^ 32 - 1) + 1)"
  using assms
proof (induction nms arbitrary: ctx i)
  case (Cons nm nms)
  obtain th ctx1 where c: "ThreadCreateInternal nm ctx = (th, ctx1)" by fastforce
  have id: "th_id th = tc_index ctx mod (2 ^ 32 - 1) + 1" "tc_index ctx1 = tc_index ctx mod (2 ^ 32 - 1) + 1"
    using create_id [OF Cons.prems(1), of nm] c by simp_all
  have n: "th_name th = given_name nm (th_id th)"
    using c by (auto simp: ThreadCreateInternal_def Let_def)
  show ?case
  proof (cases i)
    case 0
    with c id n show ?thesis by (simp split: prod.splits)
  next
    case (Suc j)
    have m: "tc_index ctx mod (2 ^ 32 - 1) + 1 < 2 ^ 32"
      using mod_less_divisor [of "2 ^ 32 - 1" "tc_index ctx"] by simp
    have e: "(tc_index ctx mod (2 ^ 32 - 1) + 1 + j) mod (2 ^ 32 - 1) = (tc_index ctx + Suc j) mod (2 ^ 32 - 1)"
      by (metis add.assoc add_Suc_shift mod_add_left_eq plus_1_eq_Suc)
    from Cons.IH [of ctx1 j] Cons.prems(2) m Suc show ?thesis
      unfolding id e by (cases "create_threads nms ctx1") (simp add: c)
  qed
qed simp

section \<open>Properties\<close>

text \<open>
  After any history of threads that begin and end, a thread finds itself in the registry by its system id:
  \<open>ThreadSelfId\<close> is the id of the running thread with that system id, and 0 when there is none; no
  duplicate is ever reported.
\<close>

theorem thread_registry:
  assumes "ThreadInit mem main = Some ctx" "alive [] es = Some live" "length es < 2 ^ 32" "\<And>n. mem n"
  shows "fst (thread_events mem ctx es) = False \<and>
    ThreadSelfId sysid (snd (thread_events mem ctx es)) =
      (case List.find (\<lambda>t. th_sysid t = sysid) live of None \<Rightarrow> 0 | Some t \<Rightarrow> th_id t)"
proof -
  have r: "fst (thread_events mem ctx es) = False" "registry_ok (snd (thread_events mem ctx es)) live"
    "length live < 2 ^ 32"
    using events_ok [OF conjunct1 [OF init_ok [OF assms(1)]] assms(2)] assms(3,4) by auto
  let ?ctx = "snd (thread_events mem ctx es)"
  let ?q = "\<lparr>th_id = 0, th_name = [], th_sysid = sysid\<rparr> :: thread"
  have s: "sorted_inv ThreadComparator (\<lambda>x. x \<noteq> NULL) (tc_threads ?ctx)" "a_size (tc_threads ?ctx) < 2 ^ 32"
    using r registry_size [OF r(2)] by (auto simp: registry_ok_def)
  show ?thesis
    using r(1) thc.Find_sorted [OF s(1) _ s(2), of "Some ?q"] registry_find [OF r(2), of ?q]
    by (auto simp: ThreadSelfId_def thread_find_def split: option.splits)
qed

theorem thread_registry_witness:
  "\<exists>ctx. ThreadInit (\<lambda>_. True) 1 = Some ctx \<and>
    ThreadSelfId 40 (snd (thread_events (\<lambda>_. True) ctx
      [Begin \<lparr>th_id = 1, th_name = ''a'', th_sysid = 30\<rparr>, Begin \<lparr>th_id = 2, th_name = ''b'', th_sysid = 40\<rparr>,
       End \<lparr>th_id = 1, th_name = ''a'', th_sysid = 30\<rparr>])) = 2"
proof -
  obtain ctx where c: "ThreadInit (\<lambda>_. True) 1 = Some ctx"
    by (simp add: ThreadInit_def ArrayCreateInternal_def)
  show ?thesis
    using c thread_registry [OF c, of "[Begin \<lparr>th_id = 1, th_name = ''a'', th_sysid = 30\<rparr>,
      Begin \<lparr>th_id = 2, th_name = ''b'', th_sysid = 40\<rparr>, End \<lparr>th_id = 1, th_name = ''a'', th_sysid = 30\<rparr>]" _ 40]
    by simp
qed

text \<open>
  The ids of threads: the i-th thread created gets \<open>i mod (2 ^ 32 - 1) + 1\<close>. So an id is never 0, which stands
  for the main thread, fits 32 bits, and is repeated only after \<open>2 ^ 32 - 1\<close> threads. A thread without a
  name is named after its id.
\<close>

theorem thread_ids:
  assumes "tc_index ctx = 0" "i < length nms" "ths = fst (create_threads nms ctx)"
  shows "th_id (ths ! i) = i mod (2 ^ 32 - 1) + 1 \<and> 0 < th_id (ths ! i) \<and> th_id (ths ! i) < 2 ^ 32 \<and>
    th_name (ths ! i) = given_name (nms ! i) (i mod (2 ^ 32 - 1) + 1)"
proof -
  have "i mod (2 ^ 32 - 1) < 2 ^ 32 - (1 :: nat)" by (rule mod_less_divisor) simp
  with create_ids [of ctx i nms] assms show ?thesis by simp
qed

theorem thread_ids_witness:
  "th_name (fst (create_threads [Some ''w'', NULL]
     \<lparr>tc_main = 1, tc_threads = undefined, tc_index = 0\<rparr>) ! 1) = ''Thread-'' @ dec 2"
  using thread_ids [of "\<lparr>tc_main = 1, tc_threads = undefined, tc_index = 0\<rparr>" 1 "[Some ''w'', NULL]", OF _ _ refl]
  by (simp add: given_name_def)

text \<open>
  The static object of \<open>ThreadSelf\<close> outlives the library's context: after the library was cleared and
  initialised again by another thread, that thread is not recognised as the main thread.
\<close>

lemma thread_self_stale:
  assumes "ThreadInit mem s1 = Some c1" "ThreadInit mem s2 = Some c2" "s1 \<noteq> s2"
  shows "fst (ThreadSelf s2 c2 (snd (ThreadSelf s1 c1 None))) = Self_NULL"
proof -
  have r: "registry_ok c2 []" using init_ok [OF assms(2)] by simp
  let ?q = "\<lparr>th_id = 0, th_name = [], th_sysid = s2\<rparr> :: thread"
  have "tc_main c1 = s1" using assms(1) by (auto simp: ThreadInit_def)
  moreover have "thread_find s2 c2 = NULL"
    using thc.Find_sorted [of "tc_threads c2" "Some ?q"] r registry_size [OF r] registry_find [OF r, of ?q]
    by (simp add: thread_find_def registry_ok_def)
  ultimately show ?thesis using assms(3) by (simp add: ThreadSelf_def)
qed

end
