(* ===== verification/Cmu_Timer.thy ===== *)
theory Cmu_Timer
  imports Cmu_ThreadPool
begin

text \<open>
  The timer of \<open>src/src/concurrent.c\<close>: clock arithmetic, the order of scheduled tasks, the pass of the main
  loop, the worker's treatment of a task, cancellation and purging. A task is known by a number, its place
  in the heap of tasks; the pointer difference in the comparator is the difference of these numbers.
  The three arrays are the sorted sequences they stand for (\<open>Cmu_Array\<close>); the jobs handed to the thread
  pool are a queue (\<open>Cmu_ThreadPool\<close>). What runs under the timer's mutex is one step of \<open>tm_step\<close>, in
  which workers, cancelling threads and the main loop take turns. The task's procedure is not modelled
  but for the time it takes. Memory is granted.
\<close>

section \<open>Clock arithmetic\<close>

text \<open>Seconds and microseconds.\<close>

type_synonym timeval = "int \<times> int"

definition TimerTVCompare :: "timeval \<Rightarrow> timeval \<Rightarrow> int" where
  "TimerTVCompare a b =
     (let sdiff = to_int (fst a - fst b) in if sdiff = 0 then to_int (snd a - snd b) else sdiff)"

definition TimerGetDelayed :: "timeval \<Rightarrow> int \<Rightarrow> timeval" where
  "TimerGetDelayed tv delay =
     (let sec = fst tv + cdiv delay 1000; usec = snd tv + cmod delay 1000 * 1000
      in if usec \<ge> 1000 * 1000 then (sec + 1, usec - 1000 * 1000) else (sec, usec))"

text \<open>The loop that skips missed intervals; \<open>None\<close> if it does not end.\<close>

partial_function (option) skip_loop :: "timeval \<Rightarrow> int \<Rightarrow> timeval \<Rightarrow> timeval option" where
  "skip_loop cur period nextrun =
     (if TimerTVCompare cur nextrun > 0 then skip_loop cur period (TimerGetDelayed nextrun period)
      else Some nextrun)"

section \<open>Tasks and the timer\<close>

datatype task_type = TimerTask_OneTime | TimerTask_Repeat

record task =
  tk_type :: task_type
  tk_canceled :: bool
  tk_nextrun :: timeval
  tk_period :: int
  tk_elapse_skip :: bool
  tk_dispatched :: bool
  tk_waiter :: bool
  tk_runner :: nat

record timer =
  tm_heap :: "nat \<Rightarrow> task option"
  tm_scheduled :: "nat list"
  tm_finished :: "nat list"
  tm_alltasks :: "nat list"
  tm_jobs :: "nat list"

abbreviation task_at :: "timer \<Rightarrow> nat \<Rightarrow> task" where
  "task_at m a \<equiv> the (tm_heap m a)"

definition TimerTaskComp :: "timer \<Rightarrow> nat \<Rightarrow> nat \<Rightarrow> int" where
  "TimerTaskComp m a b =
     (let ret = TimerTVCompare (tk_nextrun (task_at m a)) (tk_nextrun (task_at m b));
          ret2 = (if ret = 0 then to_int (tk_period (task_at m a) - tk_period (task_at m b)) else ret)
      in if ret2 = 0 then to_int (int a - int b) else ret2)"

definition TimerAddrComp :: "nat \<Rightarrow> nat \<Rightarrow> int" where
  "TimerAddrComp a b = (if a < b then - 1 else if b < a then 1 else 0)"

definition TimerIsElapsed :: "task \<Rightarrow> timeval \<Rightarrow> bool" where
  "TimerIsElapsed k cur \<longleftrightarrow> \<not> TimerTVCompare (tk_nextrun k) cur > 0"

definition put_task :: "nat \<Rightarrow> task \<Rightarrow> timer \<Rightarrow> timer" where
  "put_task a k m = m\<lparr>tm_heap := (tm_heap m)(a \<mapsto> k)\<rparr>"

text \<open>A new task at the place \<open>a\<close>; a repeating task needs a positive period.\<close>

definition TimerTaskCreate ::
    "nat \<Rightarrow> task_type \<Rightarrow> timeval ptr \<Rightarrow> int \<Rightarrow> bool \<Rightarrow> bool \<Rightarrow> timer \<Rightarrow> nat ptr \<times> timer" where
  "TimerTaskCreate a ty first period elapse_skip proc_given m =
     (case first of
        NULL \<Rightarrow> (NULL, m)
      | Some tv \<Rightarrow>
          if proc_given \<and> (ty = TimerTask_OneTime \<or> 0 < period) then
            let m1 = put_task a \<lparr>tk_type = ty, tk_canceled = False, tk_nextrun = tv, tk_period = period,
                       tk_elapse_skip = elapse_skip, tk_dispatched = False, tk_waiter = False, tk_runner = 0\<rparr> m
            in (Some a, m1\<lparr>tm_scheduled := put_by (TimerTaskComp m1) a (tm_scheduled m1),
                           tm_alltasks := put_by TimerAddrComp a (tm_alltasks m1)\<rparr>)
          else (NULL, m))"

definition TimerScheduleAtTime :: "nat \<Rightarrow> timeval ptr \<Rightarrow> bool \<Rightarrow> timer \<Rightarrow> nat ptr \<times> timer" where
  "TimerScheduleAtTime a attime proc_given m =
     TimerTaskCreate a TimerTask_OneTime attime 0 False proc_given m"

definition TimerScheduleDelay :: "nat \<Rightarrow> timeval \<Rightarrow> int \<Rightarrow> bool \<Rightarrow> timer \<Rightarrow> nat ptr \<times> timer" where
  "TimerScheduleDelay a now delay proc_given m =
     TimerTaskCreate a TimerTask_OneTime (Some (TimerGetDelayed now delay)) 0 False proc_given m"

definition TimerScheduleAtRepeat ::
    "nat \<Rightarrow> timeval ptr \<Rightarrow> int \<Rightarrow> bool \<Rightarrow> bool \<Rightarrow> timer \<Rightarrow> nat ptr \<times> timer" where
  "TimerScheduleAtRepeat a first period elapse_skip proc_given m =
     TimerTaskCreate a TimerTask_Repeat first period elapse_skip proc_given m"

definition TimerScheduleDelayRepeat ::
    "nat \<Rightarrow> timeval \<Rightarrow> int \<Rightarrow> int \<Rightarrow> bool \<Rightarrow> bool \<Rightarrow> timer \<Rightarrow> nat ptr \<times> timer" where
  "TimerScheduleDelayRepeat a now delay period elapse_skip proc_given m =
     TimerTaskCreate a TimerTask_Repeat (Some (TimerGetDelayed now delay)) period elapse_skip proc_given m"

text \<open>The pass of the main loop: the tasks due at \<open>cur\<close>, from the front.\<close>

fun dispatch_loop :: "timeval \<Rightarrow> timer \<Rightarrow> nat list \<Rightarrow> timer" where
  "dispatch_loop cur m [] = m"
| "dispatch_loop cur m (a # as) =
     (if TimerIsElapsed (task_at m a) cur then
        dispatch_loop cur
          (put_task a ((task_at m a)\<lparr>tk_dispatched := True\<rparr>)
            (m\<lparr>tm_scheduled := as, tm_jobs := tm_jobs m @ [a]\<rparr>)) as
      else m)"

definition TimerMainLoop_pass :: "timeval \<Rightarrow> timer \<Rightarrow> timer" where
  "TimerMainLoop_pass cur m = dispatch_loop cur m (tm_scheduled m)"

section \<open>The worker\<close>

datatype added_to = To_None | To_Scheduled | To_Finished

text \<open>After the procedure: the next time of a repeating task and the array it goes to.\<close>

definition worker_after :: "timeval \<Rightarrow> task \<Rightarrow> (task \<times> added_to) option" where
  "worker_after cur k =
     (if tk_type k = TimerTask_Repeat \<and> \<not> tk_canceled k then
        let nr = TimerGetDelayed (tk_nextrun k) (tk_period k)
        in map_option (\<lambda>nr. (k\<lparr>tk_nextrun := nr\<rparr>, To_Scheduled))
             (if tk_elapse_skip k then skip_loop cur (tk_period k) nr else Some nr)
      else Some (k, To_Finished))"

text \<open>The last critical section: whether the worker frees the task.\<close>

definition worker_end :: "nat \<Rightarrow> added_to \<Rightarrow> timer \<Rightarrow> bool \<times> timer" where
  "worker_end a addedto m =
     (let k = task_at m a;
          (isfree, m1) =
            (if tk_canceled k then (\<not> tk_waiter k, m\<lparr>tm_alltasks := remove1 a (tm_alltasks m)\<rparr>)
             else (False,
               case addedto of
                 To_Scheduled \<Rightarrow> m\<lparr>tm_scheduled := put_by (TimerTaskComp m) a (tm_scheduled m)\<rparr>
               | To_Finished \<Rightarrow> m\<lparr>tm_finished := put_by TimerAddrComp a (tm_finished m)\<rparr>
               | To_None \<Rightarrow> m))
      in (isfree, put_task a (k\<lparr>tk_runner := 0, tk_dispatched := False\<rparr>) m1))"

definition free_task :: "nat \<Rightarrow> timer \<Rightarrow> timer" where
  "free_task a m = m\<lparr>tm_heap := (tm_heap m)(a := None)\<rparr>"

section \<open>Cancellation\<close>

definition CMUTIL_TIMER_CANCEL_WAIT :: nat where
  "CMUTIL_TIMER_CANCEL_WAIT = 5000"

datatype cancel_result = Cancel_Free | Cancel_Wait | Cancel_Done

text \<open>The first critical section of a cancel by thread \<open>t\<close>, up to its first sleep.\<close>

definition cancel_enter :: "nat \<Rightarrow> nat \<Rightarrow> timer \<Rightarrow> cancel_result \<times> timer" where
  "cancel_enter t a m =
     (let k = task_at m a;
          (isfree, m1) =
            (if \<not> tk_canceled k then
               if a \<in> set (tm_scheduled m) then
                 (True, m\<lparr>tm_scheduled := remove1 a (tm_scheduled m), tm_alltasks := remove1 a (tm_alltasks m)\<rparr>)
               else if a \<in> set (tm_finished m) then
                 (True, m\<lparr>tm_finished := remove1 a (tm_finished m), tm_alltasks := remove1 a (tm_alltasks m)\<rparr>)
               else (False, put_task a (k\<lparr>tk_canceled := True\<rparr>) m)
             else (False, m));
          k1 = task_at m1 a
      in if isfree then (Cancel_Free, m1)
         else if tk_dispatched k1 \<and> tk_runner k1 \<noteq> t then
           (Cancel_Wait, put_task a (k1\<lparr>tk_waiter := True\<rparr>) m1)
         else (Cancel_Done, m1))"

text \<open>After each sleep, with \<open>remain\<close> sleeps left.\<close>

definition cancel_wake :: "nat \<Rightarrow> nat \<Rightarrow> timer \<Rightarrow> cancel_result \<times> timer" where
  "cancel_wake a remain m =
     (let k = task_at m a
      in if tk_dispatched k then
           if 0 < remain then (Cancel_Wait, m)
           else (Cancel_Done, put_task a (k\<lparr>tk_waiter := False\<rparr>) m)
         else (Cancel_Free, m))"

text \<open>The snapshot of a purge: every task is marked as waited for.\<close>

fun mark_waiters :: "nat list \<Rightarrow> timer \<Rightarrow> timer" where
  "mark_waiters [] m = m"
| "mark_waiters (a # as) m = mark_waiters as (put_task a ((task_at m a)\<lparr>tk_waiter := True\<rparr>) m)"

definition TimerPurge_snapshot :: "timer \<Rightarrow> nat list \<times> timer" where
  "TimerPurge_snapshot m = (tm_alltasks m, mark_waiters (tm_alltasks m) m)"

text \<open>The end of \<open>Destroy\<close>, when the main loop and the workers have been joined: what is left is freed.\<close>

fun free_all :: "nat list \<Rightarrow> timer \<Rightarrow> timer" where
  "free_all [] m = m\<lparr>tm_alltasks := []\<rparr>"
| "free_all (a # as) m = free_all as (free_task a m)"

definition TimerDestroy_rest :: "timer \<Rightarrow> timer" where
  "TimerDestroy_rest m = free_all (tm_alltasks m) m"

definition TimerCreateInternal :: timer where
  "TimerCreateInternal =
     \<lparr>tm_heap = (\<lambda>_. None), tm_scheduled = [], tm_finished = [], tm_alltasks = [], tm_jobs = []\<rparr>"

section \<open>Threads\<close>

text \<open>
  A worker with task \<open>a\<close>: before it sets the runner, before it looks at \<open>canceled\<close>, in the procedure,
  before its last section, before it frees the task. A cancelling thread: before its first section, asleep
  with some sleeps left, before it frees the task; the list is what its purge has still to cancel.
\<close>

datatype tm_phase =
    WK_Start nat nat
  | WK_Check nat nat
  | WK_Proc nat nat
  | WK_End nat nat added_to
  | WK_Free nat
  | CN_Enter nat nat "nat list"
  | CN_Sleep nat nat nat "nat list"
  | CN_Free nat nat "nat list"

record tm_sys =
  tz_timer :: timer
  tz_busy :: "tm_phase multiset"
  tz_owned :: "nat set"

abbreviation tmsys :: "timer \<Rightarrow> tm_phase multiset \<Rightarrow> nat set \<Rightarrow> tm_sys" where
  "tmsys m b own \<equiv> \<lparr>tz_timer = m, tz_busy = b, tz_owned = own\<rparr>"

fun next_cancel :: "nat \<Rightarrow> nat list \<Rightarrow> tm_phase multiset" where
  "next_cancel t [] = {#}"
| "next_cancel t (a # as) = {#CN_Enter t a as#}"

fun cancelling :: "tm_phase \<Rightarrow> bool" where
  "cancelling (CN_Enter t a as) = True"
| "cancelling (CN_Sleep t a n as) = True"
| "cancelling (CN_Free t a as) = True"
| "cancelling ph = False"

definition after_cancel :: "nat \<Rightarrow> nat \<Rightarrow> nat \<Rightarrow> nat list \<Rightarrow> cancel_result \<Rightarrow> tm_phase multiset" where
  "after_cancel t a n as r =
     (case r of
        Cancel_Free \<Rightarrow> {#CN_Free t a as#}
      | Cancel_Wait \<Rightarrow> {#CN_Sleep t a n as#}
      | Cancel_Done \<Rightarrow> next_cancel t as)"

text \<open>
  What the client asks for: \<open>Cancel\<close> of any task by any thread, again too, and \<open>Purge\<close> at any time. Nothing in
  the code restrains it. \<open>tz_owned\<close> only records the tasks that were created and not yet given to a \<open>Cancel\<close> or a
  \<open>Purge\<close>.
\<close>

datatype tm_event = Ev_Work | Ev_Cancel nat | Ev_Purge

inductive tm_step :: "tm_sys \<Rightarrow> tm_event \<Rightarrow> tm_sys \<Rightarrow> bool" where
  create: "tm_heap m a = None \<Longrightarrow> a < 2 ^ 31 \<Longrightarrow> TimerTaskCreate a ty first period skp pg m = (Some a, m') \<Longrightarrow>
    tm_step (tmsys m b own) Ev_Work (tmsys m' b (insert a own))"
| pass: "tm_step (tmsys m b own) Ev_Work (tmsys (TimerMainLoop_pass cur m) b own)"
| take: "tm_jobs m = a # as \<Longrightarrow>
    tm_step (tmsys m b own) Ev_Work (tmsys (m\<lparr>tm_jobs := as\<rparr>) (add_mset (WK_Start t a) b) own)"
| begin_task: "tm_step (tmsys m (add_mset (WK_Start t a) b) own) Ev_Work
    (tmsys (put_task a ((task_at m a)\<lparr>tk_runner := t\<rparr>) m) (add_mset (WK_Check t a) b) own)"
| check: "tm_step (tmsys m (add_mset (WK_Check t a) b) own) Ev_Work
    (tmsys m (add_mset (if tk_canceled (task_at m a) then WK_End t a To_None else WK_Proc t a) b) own)"
| after: "worker_after cur (task_at m a) = Some (k, addedto) \<Longrightarrow>
    tm_step (tmsys m (add_mset (WK_Proc t a) b) own) Ev_Work
      (tmsys (put_task a k m) (add_mset (WK_End t a addedto) b) own)"
| end_task: "worker_end a addedto m = (isfree, m') \<Longrightarrow>
    tm_step (tmsys m (add_mset (WK_End t a addedto) b) own) Ev_Work
      (tmsys m' (if isfree then add_mset (WK_Free a) b else b) own)"
| worker_free: "tm_step (tmsys m (add_mset (WK_Free a) b) own) Ev_Work (tmsys (free_task a m) b own)"
| cancel: "tm_step (tmsys m b own) (Ev_Cancel a) (tmsys m (add_mset (CN_Enter t a []) b) (own - {a}))"
| enter: "cancel_enter t a m = (r, m') \<Longrightarrow>
    tm_step (tmsys m (add_mset (CN_Enter t a as) b) own) Ev_Work
      (tmsys m' (after_cancel t a (CMUTIL_TIMER_CANCEL_WAIT - 1) as r + b) own)"
| wake: "cancel_wake a n m = (r, m') \<Longrightarrow>
    tm_step (tmsys m (add_mset (CN_Sleep t a n as) b) own) Ev_Work
      (tmsys m' (after_cancel t a (n - 1) as r + b) own)"
| cancel_free: "tm_step (tmsys m (add_mset (CN_Free t a as) b) own) Ev_Work
    (tmsys (free_task a m) (next_cancel t as + b) own)"
| purge: "TimerPurge_snapshot m = (as, m') \<Longrightarrow>
    tm_step (tmsys m b own) Ev_Purge (tmsys m' (next_cancel t as + b) {})"

text \<open>
  The client that keeps out of trouble: it gives a task to \<open>Cancel\<close> once, and purges only when no cancel is under
  way, cancelling nothing that existed then afterwards.
\<close>

fun disciplined :: "tm_sys \<Rightarrow> tm_event \<Rightarrow> bool" where
  "disciplined S Ev_Work = True"
| "disciplined S (Ev_Cancel a) = (a \<in> tz_owned S)"
| "disciplined S Ev_Purge = (\<forall>ph \<in># tz_busy S. \<not> cancelling ph)"

inductive tm_client :: "tm_sys \<Rightarrow> tm_sys \<Rightarrow> bool" where
  tm_clientI: "tm_step S ev S' \<Longrightarrow> disciplined S ev \<Longrightarrow> tm_client S S'"

lemma tm_work: "tm_step S Ev_Work S' \<Longrightarrow> tm_client S S'"
  by (erule tm_clientI) simp

section \<open>The invariant\<close>

text \<open>
  How often a thread refers to task \<open>x\<close>: as its worker, to free it, to cancel it; how often it sleeps on it, and
  how often it ends it without having run it.
\<close>

fun wk_ref :: "nat \<Rightarrow> tm_phase \<Rightarrow> nat" where
  "wk_ref x (WK_Start t a) = of_bool (a = x)"
| "wk_ref x (WK_Check t a) = of_bool (a = x)"
| "wk_ref x (WK_Proc t a) = of_bool (a = x)"
| "wk_ref x (WK_End t a dest) = of_bool (a = x)"
| "wk_ref x ph = 0"

fun fr_ref :: "nat \<Rightarrow> tm_phase \<Rightarrow> nat" where
  "fr_ref x (WK_Free a) = of_bool (a = x)"
| "fr_ref x (CN_Free t a as) = of_bool (a = x)"
| "fr_ref x ph = 0"

fun cn_ref :: "nat \<Rightarrow> tm_phase \<Rightarrow> nat" where
  "cn_ref x (CN_Enter t a as) = of_bool (a = x) + count_list as x"
| "cn_ref x (CN_Sleep t a n as) = of_bool (a = x) + count_list as x"
| "cn_ref x (CN_Free t a as) = count_list as x"
| "cn_ref x ph = 0"

fun sl_ref :: "nat \<Rightarrow> tm_phase \<Rightarrow> nat" where
  "sl_ref x (CN_Sleep t a n as) = of_bool (a = x)"
| "sl_ref x ph = 0"

fun tn_ref :: "nat \<Rightarrow> tm_phase \<Rightarrow> nat" where
  "tn_ref x (WK_End t a dest) = of_bool (a = x \<and> dest = To_None)"
| "tn_ref x ph = 0"

text \<open>What holds of one task: its memory, its places in the arrays and the references to it.\<close>

definition task_ok ::
    "task option \<Rightarrow> bool \<Rightarrow> bool \<Rightarrow> bool \<Rightarrow> nat \<Rightarrow> nat \<Rightarrow> nat \<Rightarrow> nat \<Rightarrow> nat \<Rightarrow> bool \<Rightarrow> bool" where
  "task_ok h sch fin al w f c sl tn own \<longleftrightarrow>
     (case h of
        None \<Rightarrow> \<not> sch \<and> \<not> fin \<and> \<not> al \<and> \<not> own \<and> w = 0 \<and> f = 0 \<and> c = 0
      | Some k \<Rightarrow>
          w = of_bool (tk_dispatched k) \<and> f + c \<le> 1 \<and>
          (sch \<or> fin \<longrightarrow> al \<and> \<not> tk_canceled k) \<and> \<not> (sch \<and> fin) \<and>
          (al \<longleftrightarrow> sch \<or> fin \<or> tk_dispatched k) \<and> (tk_dispatched k \<longrightarrow> \<not> sch \<and> \<not> fin) \<and>
          (al \<longrightarrow> f = 0) \<and> (\<not> tk_canceled k \<longrightarrow> al \<or> f = 1) \<and>
          (own \<longrightarrow> c = 0 \<and> f = 0 \<and> \<not> tk_canceled k \<and> \<not> tk_waiter k) \<and>
          (0 < c \<longrightarrow> \<not> tk_canceled k \<or> tk_waiter k) \<and>
          (0 < sl \<longrightarrow> tk_canceled k \<and> tk_waiter k) \<and> (0 < tn \<longrightarrow> tk_canceled k))"

definition sys_ok :: "timer \<Rightarrow> tm_phase multiset \<Rightarrow> nat set \<Rightarrow> nat \<Rightarrow> bool" where
  "sys_ok m b own x \<longleftrightarrow>
     task_ok (tm_heap m x) (x \<in> set (tm_scheduled m)) (x \<in> set (tm_finished m)) (x \<in> set (tm_alltasks m))
       (count_list (tm_jobs m) x + tally (wk_ref x) b) (tally (fr_ref x) b) (tally (cn_ref x) b)
       (tally (sl_ref x) b) (tally (tn_ref x) b) (x \<in> own)"

definition tm_inv :: "tm_sys \<Rightarrow> bool" where
  "tm_inv S \<longleftrightarrow>
     (let m = tz_timer S
      in distinct (tm_scheduled m) \<and> distinct (tm_finished m) \<and> distinct (tm_alltasks m) \<and>
         (\<forall>x. (tm_heap m x \<noteq> None \<longrightarrow> x < 2 ^ 31) \<and> sys_ok m (tz_busy S) (tz_owned S) x))"

lemma tally_union [simp]: "tally f (b + b') = tally f b + tally f b'"
  by (simp add: tally_def)

lemma tally_mono: "(\<And>ph. f ph \<le> g ph) \<Longrightarrow> tally f b \<le> tally g b"
  by (induction b) (auto intro: add_mono)

lemma tn_le_wk: "tally (tn_ref x) b \<le> tally (wk_ref x) b"
proof (rule tally_mono)
  show "tn_ref x ph \<le> wk_ref x ph" for ph by (cases ph) auto
qed

lemma sl_le_cn: "tally (sl_ref x) b \<le> tally (cn_ref x) b"
proof (rule tally_mono)
  show "sl_ref x ph \<le> cn_ref x ph" for ph by (cases ph) auto
qed

lemma TimerTaskComp_0: "a < 2 ^ 31 \<Longrightarrow> b < 2 ^ 31 \<Longrightarrow> TimerTaskComp m a b = 0 \<Longrightarrow> a = b"
  by (auto simp: TimerTaskComp_def Let_def to_int_id split: if_splits)

lemma TimerAddrComp_0: "TimerAddrComp a b = 0 \<longleftrightarrow> a = b"
  by (auto simp: TimerAddrComp_def)


lemma tm_invI:
  assumes "distinct (tm_scheduled m)" "distinct (tm_finished m)" "distinct (tm_alltasks m)"
    "\<And>x. tm_heap m x \<noteq> None \<Longrightarrow> x < 2 ^ 31" "\<And>x. sys_ok m b own x"
  shows "tm_inv (tmsys m b own)"
  using assms by (simp add: tm_inv_def)

lemma tm_invD:
  assumes "tm_inv (tmsys m b own)"
  shows "distinct (tm_scheduled m)" "distinct (tm_finished m)" "distinct (tm_alltasks m)"
    "tm_heap m x \<noteq> None \<Longrightarrow> x < 2 ^ 31" "sys_ok m b own x"
  using assms by (auto simp: tm_inv_def)

text \<open>A step changes the state of one task; the others keep theirs.\<close>

lemma task_ok_heap:
  assumes "task_ok h s f al w fr c sl tn own" "s \<or> f \<or> al \<or> own \<or> 0 < w \<or> 0 < fr \<or> 0 < c"
  shows "h \<noteq> None"
  using assms by (cases h) (auto simp: task_ok_def)

lemma dispatch_one:
  assumes "tm_inv (tmsys m b own)" "tm_scheduled m = a # as"
  shows "tm_inv (tmsys (put_task a ((task_at m a)\<lparr>tk_dispatched := True\<rparr>)
    (m\<lparr>tm_scheduled := as, tm_jobs := tm_jobs m @ [a]\<rparr>)) b own)"
proof (rule tm_invI)
  note d = tm_invD [OF assms(1)]
  have h: "tm_heap m a \<noteq> None"
    using task_ok_heap [OF d(5) [of a, unfolded sys_ok_def]] assms(2) by simp
  show "x < 2 ^ 31" if "tm_heap (put_task a ((task_at m a)\<lparr>tk_dispatched := True\<rparr>)
    (m\<lparr>tm_scheduled := as, tm_jobs := tm_jobs m @ [a]\<rparr>)) x \<noteq> None" for x
    using that d(4) h by (auto simp: put_task_def split: if_splits)
  show "sys_ok (put_task a ((task_at m a)\<lparr>tk_dispatched := True\<rparr>)
    (m\<lparr>tm_scheduled := as, tm_jobs := tm_jobs m @ [a]\<rparr>)) b own x" for x
    using d(5) [of x] d(1) h assms(2)
    by (cases "x = a") (auto simp: sys_ok_def put_task_def task_ok_def split: if_splits option.splits)
qed (use tm_invD [OF assms(1)] assms(2) in \<open>simp_all add: put_task_def\<close>)

lemma dispatch_loop_inv:
  "tm_inv (tmsys m b own) \<Longrightarrow> tm_scheduled m = as \<Longrightarrow> tm_inv (tmsys (dispatch_loop cur m as) b own)"
proof (induction as arbitrary: m)
  case (Cons a as)
  show ?case using Cons.IH [OF dispatch_one [OF Cons.prems]] Cons.prems(1)
    by (simp add: put_task_def)
qed simp

lemma mark_waiters_fields [simp]:
  "tm_scheduled (mark_waiters as m) = tm_scheduled m" "tm_finished (mark_waiters as m) = tm_finished m"
  "tm_alltasks (mark_waiters as m) = tm_alltasks m" "tm_jobs (mark_waiters as m) = tm_jobs m"
  by (induction as arbitrary: m) (simp_all add: put_task_def)

lemma mark_waiters_heap:
  "tm_heap (mark_waiters as m) x = (if x \<in> set as then Some ((task_at m x)\<lparr>tk_waiter := True\<rparr>) else tm_heap m x)"
  by (induction as arbitrary: m) (auto simp: put_task_def)


definition sys_view ::
    "timer \<Rightarrow> tm_phase multiset \<Rightarrow> nat set \<Rightarrow> nat \<Rightarrow> bool \<times> bool \<times> bool \<times> nat \<times> nat \<times> nat \<times> nat \<times> nat \<times> bool" where
  "sys_view m b own x =
     (x \<in> set (tm_scheduled m), x \<in> set (tm_finished m), x \<in> set (tm_alltasks m),
      count_list (tm_jobs m) x + tally (wk_ref x) b, tally (fr_ref x) b, tally (cn_ref x) b,
      tally (sl_ref x) b, tally (tn_ref x) b, x \<in> own)"

lemma change_inv:
  assumes inv: "tm_inv (tmsys m b own)"
    and d: "distinct (tm_scheduled m')" "distinct (tm_finished m')" "distinct (tm_alltasks m')"
    and h: "\<And>x. x \<noteq> a \<Longrightarrow> tm_heap m' x = tm_heap m x" "tm_heap m' a = None \<or> a < 2 ^ 31"
    and o: "\<And>x. x \<noteq> a \<Longrightarrow> sys_view m' b' own' x = sys_view m b own x"
    and k: "sys_ok m' b' own' a"
  shows "tm_inv (tmsys m' b' own')"
proof (rule tm_invI [OF d])
  fix x
  show "tm_heap m' x \<noteq> None \<Longrightarrow> x < 2 ^ 31"
    using h tm_invD(4) [OF inv, of x] by (cases "x = a") auto
  show "sys_ok m' b' own' x"
  proof (cases "x = a")
    case False
    then show ?thesis using o [of x] h(1) [of x] tm_invD(5) [OF inv, of x]
      by (simp add: sys_ok_def sys_view_def)
  qed (use k in simp)
qed

lemma used_some: "tm_inv (tmsys m b own) \<Longrightarrow> a \<in> set (tm_scheduled m) \<or> a \<in> set (tm_finished m) \<or>
    a \<in> set (tm_alltasks m) \<or> a \<in> own \<or> 0 < count_list (tm_jobs m) a + tally (wk_ref a) b \<or>
    0 < tally (fr_ref a) b \<or> 0 < tally (cn_ref a) b \<Longrightarrow> tm_heap m a \<noteq> None \<and> a < 2 ^ 31"
  using task_ok_heap [OF tm_invD(5) [of m b own a, unfolded sys_ok_def]] tm_invD(4) [of m b own a] by blast

lemmas ok_defs = sys_ok_def task_ok_def put_task_def free_task_def

lemma create_inv:
  assumes inv: "tm_inv (tmsys m b own)" and n: "tm_heap m a = None" "a < 2 ^ 31"
    and c: "TimerTaskCreate a ty first period skp pg m = (Some a, m')"
  shows "tm_inv (tmsys m' b (insert a own))"
proof -
  note d = tm_invD [OF inv]
  define k where "k tv = \<lparr>tk_type = ty, tk_canceled = False, tk_nextrun = tv, tk_period = period,
    tk_elapse_skip = skp, tk_dispatched = False, tk_waiter = False, tk_runner = 0\<rparr>" for tv
  obtain tv where m': "m' = (put_task a (k tv) m)\<lparr>
      tm_scheduled := put_by (TimerTaskComp (put_task a (k tv) m)) a (tm_scheduled m),
      tm_alltasks := put_by TimerAddrComp a (tm_alltasks m)\<rparr>"
    using c by (auto simp: TimerTaskCreate_def k_def Let_def put_task_def split: option.splits if_splits)
  have new: "a \<notin> set (tm_scheduled m)" "a \<notin> set (tm_alltasks m)"
    using used_some [OF inv, of a] n by auto
  have "set (put_by (TimerTaskComp m1) a (tm_scheduled m)) = insert a (set (tm_scheduled m))" for m1
    using used_some [OF inv] n by (intro set_put_by TimerTaskComp_0 [symmetric]) auto
  moreover have "set (put_by TimerAddrComp a (tm_alltasks m)) = insert a (set (tm_alltasks m))"
    by (intro set_put_by) (simp add: TimerAddrComp_0)
  ultimately show ?thesis using d(5) [of a] n tn_le_wk [of a b] sl_le_cn [of a b]
    by (intro change_inv [OF inv, where a = a])
      (simp_all add: m' k_def sys_view_def ok_defs distinct_put_by d(1-3) new)
qed

lemma worker_end_inv:
  assumes inv: "tm_inv (tmsys m (add_mset (WK_End t a addedto) b) own)"
    and w: "worker_end a addedto m = (isfree, m')"
  shows "tm_inv (tmsys m' (if isfree then add_mset (WK_Free a) b else b) own)"
proof -
  note d = tm_invD [OF inv]
  obtain k where k: "tm_heap m a = Some k" "a < 2 ^ 31" using used_some [OF inv, of a] by auto
  have ok: "tk_dispatched k" "a \<notin> set (tm_scheduled m)" "a \<notin> set (tm_finished m)" "a \<in> set (tm_alltasks m)"
    "count_list (tm_jobs m) a = 0" "tally (wk_ref a) b = 0"
    using d(5) [of a] k by (cases "tk_dispatched k"; simp add: sys_ok_def task_ok_def)+
  have tn0: "tally (tn_ref a) b = 0" using tn_le_wk [of a b] ok(6) by simp
  have s: "set (put_by (TimerTaskComp m1) a (tm_scheduled m)) = insert a (set (tm_scheduled m))" for m1
    using used_some [OF inv] k by (intro set_put_by TimerTaskComp_0 [symmetric]) auto
  have f: "set (put_by TimerAddrComp a (tm_finished m)) = insert a (set (tm_finished m))"
    by (intro set_put_by) (simp add: TimerAddrComp_0)
  note r = set_remove1_eq [OF d(3)]
  show ?thesis
  proof (cases "tk_canceled k")
    case True
    then have w: "isfree = (\<not> tk_waiter k)" "m' = put_task a (k\<lparr>tk_runner := 0, tk_dispatched := False\<rparr>)
        (m\<lparr>tm_alltasks := remove1 a (tm_alltasks m)\<rparr>)"
      using w k by (simp_all add: worker_end_def)
    from True d(5) [of a] k ok tn0 sl_le_cn [of a b] show ?thesis unfolding w
      by (cases "tk_waiter k"; intro change_inv [OF inv, where a = a])
        (simp_all add: sys_view_def ok_defs r d(1-3))
  next
    case False
    show ?thesis
    proof (cases addedto)
      case To_None
      with False d(5) [of a] k ok show ?thesis by (simp add: sys_ok_def task_ok_def)
    next
      case To_Scheduled
      with False w k have w: "isfree = False" "m' = put_task a (k\<lparr>tk_runner := 0, tk_dispatched := False\<rparr>)
          (m\<lparr>tm_scheduled := put_by (TimerTaskComp m) a (tm_scheduled m)\<rparr>)"
        by (simp_all add: worker_end_def)
      from False d(5) [of a] k ok tn0 show ?thesis unfolding w
        by (intro change_inv [OF inv, where a = a])
          (simp_all add: sys_view_def ok_defs distinct_put_by s d(1-3) To_Scheduled)
    next
      case To_Finished
      with False w k have w: "isfree = False" "m' = put_task a (k\<lparr>tk_runner := 0, tk_dispatched := False\<rparr>)
          (m\<lparr>tm_finished := put_by TimerAddrComp a (tm_finished m)\<rparr>)"
        by (simp_all add: worker_end_def)
      from False d(5) [of a] k ok tn0 show ?thesis unfolding w
        by (intro change_inv [OF inv, where a = a])
          (simp_all add: sys_view_def ok_defs distinct_put_by f d(1-3) To_Finished)
    qed
  qed
qed

lemma tally_next_cancel [simp]:
  "tally (wk_ref x) (next_cancel t as) = 0" "tally (fr_ref x) (next_cancel t as) = 0"
  "tally (sl_ref x) (next_cancel t as) = 0" "tally (tn_ref x) (next_cancel t as) = 0"
  "tally (cn_ref x) (next_cancel t as) = count_list as x"
  by (cases as; simp)+

lemma free_step_inv:
  assumes inv: "tm_inv (tmsys m (add_mset ph b) own)" and f: "0 < fr_ref a ph"
    and n: "\<And>x. tally (wk_ref x) nx = wk_ref x ph" "\<And>x. tally (fr_ref x) nx = (if x = a then 0 else fr_ref x ph)"
      "\<And>x. tally (cn_ref x) nx = cn_ref x ph" "\<And>x. tally (sl_ref x) nx = sl_ref x ph"
      "\<And>x. tally (tn_ref x) nx = tn_ref x ph"
  shows "tm_inv (tmsys (free_task a m) (nx + b) own)"
proof -
  note d = tm_invD [OF inv]
  obtain k where k: "tm_heap m a = Some k" "a < 2 ^ 31" using used_some [OF inv, of a] f by auto
  have f1: "fr_ref a ph = 1" using f by (cases ph) (auto split: if_splits)
  have "\<not> tk_dispatched k \<and> a \<notin> set (tm_scheduled m) \<and> a \<notin> set (tm_finished m) \<and> a \<notin> set (tm_alltasks m)"
    using d(5) [of a] k f1 by (auto simp: sys_ok_def task_ok_def)
  then show ?thesis using d(5) [of a] k f1
    by (intro change_inv [OF inv, where a = a]) (simp_all add: sys_view_def ok_defs d(1-3) n)
qed

lemma worker_free_inv:
  "tm_inv (tmsys m (add_mset (WK_Free a) b) own) \<Longrightarrow> tm_inv (tmsys (free_task a m) b own)"
  using free_step_inv [of m "WK_Free a" b own a "{#}"] by simp

lemma cancel_free_inv:
  "tm_inv (tmsys m (add_mset (CN_Free t a as) b) own) \<Longrightarrow>
    tm_inv (tmsys (free_task a m) (next_cancel t as + b) own)"
  using free_step_inv [of m "CN_Free t a as" b own a "next_cancel t as"] by simp

lemma cancel_enter_inv:
  assumes inv: "tm_inv (tmsys m (add_mset (CN_Enter t a as) b) own)"
    and e: "cancel_enter t a m = (r, m')"
  shows "tm_inv (tmsys m' (after_cancel t a n as r + b) own)"
proof -
  note d = tm_invD [OF inv]
  obtain k where k: "tm_heap m a = Some k" "a < 2 ^ 31" using used_some [OF inv, of a] by auto
  have ok: "count_list as a = 0" "tally (cn_ref a) b = 0" "tally (fr_ref a) b = 0" "a \<notin> own"
    "tk_canceled k \<longrightarrow> tk_waiter k"
    using d(5) [of a] k by (auto simp: sys_ok_def task_ok_def)
  have sl0: "tally (sl_ref a) b = 0" using sl_le_cn [of a b] ok by simp
  note dist = d(1-3) set_remove1_eq [OF d(1)] set_remove1_eq [OF d(2)] set_remove1_eq [OF d(3)]
  consider (free) "\<not> tk_canceled k" "a \<in> set (tm_scheduled m) \<or> a \<in> set (tm_finished m)"
    | (run) "\<not> tk_canceled k" "a \<notin> set (tm_scheduled m)" "a \<notin> set (tm_finished m)"
    | (again) "tk_canceled k" by blast
  then show ?thesis
  proof cases
    case free
    then have e: "r = Cancel_Free" "m' = m\<lparr>tm_scheduled := remove1 a (tm_scheduled m),
        tm_finished := remove1 a (tm_finished m), tm_alltasks := remove1 a (tm_alltasks m)\<rparr>"
      using e k d(5) [of a] by (auto simp: cancel_enter_def sys_ok_def task_ok_def remove1_idem)
    from free d(5) [of a] k ok tn_le_wk [of a b] show ?thesis unfolding e after_cancel_def
      by (intro change_inv [OF inv, where a = a]) (auto simp: sys_view_def ok_defs dist)
  next
    case run
    then have al: "tk_dispatched k" "a \<in> set (tm_alltasks m)"
      using d(5) [of a] k ok by (auto simp: sys_ok_def task_ok_def)
    show ?thesis
    proof (cases "tk_runner k = t")
      case True
      with run e k al have e: "r = Cancel_Done" "m' = put_task a (k\<lparr>tk_canceled := True\<rparr>) m"
        by (simp_all add: cancel_enter_def put_task_def)
      from run d(5) [of a] k ok al sl0 show ?thesis unfolding e after_cancel_def
        by (intro change_inv [OF inv, where a = a]) (simp_all add: sys_view_def ok_defs d(1-3))
    next
      case False
      with run e k al have e: "r = Cancel_Wait"
          "m' = put_task a (k\<lparr>tk_canceled := True, tk_waiter := True\<rparr>) m"
        by (simp_all add: cancel_enter_def put_task_def)
      from run d(5) [of a] k ok al sl0 show ?thesis unfolding e after_cancel_def
        by (intro change_inv [OF inv, where a = a]) (simp_all add: sys_view_def ok_defs d(1-3))
    qed
  next
    case again
    show ?thesis
    proof (cases "tk_dispatched k \<and> tk_runner k \<noteq> t")
      case True
      with again e k have e: "r = Cancel_Wait" "m' = put_task a (k\<lparr>tk_waiter := True\<rparr>) m"
        by (simp_all add: cancel_enter_def)
      from again True d(5) [of a] k ok sl0 show ?thesis unfolding e after_cancel_def
        by (intro change_inv [OF inv, where a = a]) (simp_all add: sys_view_def ok_defs d(1-3))
    next
      case False
      with again e k have e: "r = Cancel_Done" "m' = m" by (auto simp: cancel_enter_def)
      from again d(5) [of a] k ok sl0 show ?thesis unfolding e after_cancel_def
        by (intro change_inv [OF inv, where a = a]) (simp_all add: sys_view_def ok_defs d(1-3))
    qed
  qed
qed

lemma cancel_wake_inv:
  assumes inv: "tm_inv (tmsys m (add_mset (CN_Sleep t a n as) b) own)"
    and e: "cancel_wake a n m = (r, m')"
  shows "tm_inv (tmsys m' (after_cancel t a n' as r + b) own)"
proof -
  note d = tm_invD [OF inv]
  obtain k where k: "tm_heap m a = Some k" "a < 2 ^ 31" using used_some [OF inv, of a] by auto
  have ok: "count_list as a = 0" "tally (cn_ref a) b = 0" "tally (fr_ref a) b = 0" "a \<notin> own"
    "tk_canceled k" "tk_waiter k"
    using d(5) [of a] k by (auto simp: sys_ok_def task_ok_def)
  have sl0: "tally (sl_ref a) b = 0" using sl_le_cn [of a b] ok by simp
  consider (wait) "tk_dispatched k" "0 < n" | (give_up) "tk_dispatched k" "n = 0" | (free) "\<not> tk_dispatched k"
    by blast
  then show ?thesis
  proof cases
    case wait
    with e k have e: "r = Cancel_Wait" "m' = m" by (simp_all add: cancel_wake_def)
    from d(5) [of a] k ok sl0 show ?thesis unfolding e after_cancel_def
      by (intro change_inv [OF inv, where a = a]) (simp_all add: sys_view_def ok_defs d(1-3))
  next
    case give_up
    with e k have e: "r = Cancel_Done" "m' = put_task a (k\<lparr>tk_waiter := False\<rparr>) m"
      by (simp_all add: cancel_wake_def)
    from d(5) [of a] k ok sl0 show ?thesis unfolding e after_cancel_def
      by (intro change_inv [OF inv, where a = a]) (simp_all add: sys_view_def ok_defs d(1-3))
  next
    case free
    with e k have e: "r = Cancel_Free" "m' = m" by (simp_all add: cancel_wake_def)
    have "a \<notin> set (tm_alltasks m)"
      using d(5) [of a] k ok free by (auto simp: sys_ok_def task_ok_def)
    with free d(5) [of a] k ok sl0 show ?thesis unfolding e after_cancel_def
      by (intro change_inv [OF inv, where a = a]) (simp_all add: sys_view_def ok_defs d(1-3))
  qed
qed

lemma count_list_distinct: "distinct xs \<Longrightarrow> count_list xs x = of_bool (x \<in> set xs)"
  by (induction xs) auto

lemma quiet_cn:
  assumes "\<And>ph. ph \<in># b \<Longrightarrow> \<not> cancelling ph"
  shows "tally (cn_ref x) b = 0" "tally (sl_ref x) b = 0"
proof -
  have "\<not> cancelling ph \<Longrightarrow> cn_ref x ph = 0 \<and> sl_ref x ph = 0" for ph by (cases ph) auto
  with assms show "tally (cn_ref x) b = 0" "tally (sl_ref x) b = 0" by (induction b) auto
qed

lemma purge_inv:
  assumes inv: "tm_inv (tmsys m b own)" and q: "\<And>ph. ph \<in># b \<Longrightarrow> \<not> cancelling ph"
    and p: "TimerPurge_snapshot m = (as, m')"
  shows "tm_inv (tmsys m' (next_cancel t as + b) {})"
proof (rule tm_invI)
  note d = tm_invD [OF inv]
  have z: "tally (cn_ref x) b = 0 \<and> tally (sl_ref x) b = 0" for x
    using quiet_cn [of b x] q by blast
  have as: "as = tm_alltasks m" "m' = mark_waiters as m" using p by (auto simp: TimerPurge_snapshot_def)
  show "x < 2 ^ 31" if "tm_heap m' x \<noteq> None" for x
    using that used_some [OF inv, of x] d(4) [of x] by (auto simp: as mark_waiters_heap split: if_splits)
  show "sys_ok m' (next_cancel t as + b) {} x" for x
  proof -
    have c: "count_list (tm_alltasks m) x = of_bool (x \<in> set (tm_alltasks m))"
      by (rule count_list_distinct) (rule d(3))
    show ?thesis using d(5) [of x] z [of x] used_some [OF inv, of x]
      by (cases "x \<in> set (tm_alltasks m)"; cases "tm_heap m x")
        (auto simp: sys_ok_def task_ok_def as mark_waiters_heap c)
  qed
qed (use tm_invD [OF inv] p in \<open>auto simp: TimerPurge_snapshot_def\<close>)

lemma worker_after_same:
  assumes "worker_after cur k = Some (k', addedto)"
  shows "tk_canceled k' = tk_canceled k \<and> tk_dispatched k' = tk_dispatched k \<and> tk_waiter k' = tk_waiter k \<and>
    addedto \<noteq> To_None"
  using assms by (auto simp: worker_after_def Let_def split: if_splits)

lemma tm_step_inv:
  assumes "tm_step S ev S'" "disciplined S ev" "tm_inv S"
  shows "tm_inv S'"
  using assms
proof (induction rule: tm_step.induct)
  case (take m a as b own t)
  note d = tm_invD [OF take(3)]
  show ?case using d(5) [of a] used_some [OF take(3), of a] take(1)
    by (intro change_inv [OF take(3), where a = a]) (auto simp: sys_view_def ok_defs d(1-3))
next
  case (begin_task m t a b own)
  note d = tm_invD [OF begin_task(2)]
  show ?case using d(5) [of a] used_some [OF begin_task(2), of a]
    by (intro change_inv [OF begin_task(2), where a = a]) (auto simp: sys_view_def ok_defs d(1-3))
next
  case (check m t a b own)
  note d = tm_invD [OF check(2)]
  show ?case using d(5) [of a] used_some [OF check(2), of a]
    by (intro change_inv [OF check(2), where a = a]) (auto simp: sys_view_def ok_defs d(1-3))
next
  case (after cur m a k addedto t b own)
  note d = tm_invD [OF after(3)]
  show ?case using d(5) [of a] used_some [OF after(3), of a] worker_after_same [OF after(1)]
    by (intro change_inv [OF after(3), where a = a]) (auto simp: sys_view_def ok_defs d(1-3))
next
  case (cancel m b own a t)
  note d = tm_invD [OF cancel(2)]
  show ?case using d(5) [of a] used_some [OF cancel(2), of a] cancel(1)
    by (intro change_inv [OF cancel(2), where a = a]) (auto simp: sys_view_def ok_defs d(1-3))
next
  case (end_task a addedto m isfree m' t b own)
  show ?case by (rule worker_end_inv [OF end_task(3,1)])
next
  case (purge m as m' b own t)
  show ?case by (rule purge_inv [OF purge(3) _ purge(1)]) (use purge(2) in auto)
qed (auto intro: create_inv worker_free_inv cancel_free_inv cancel_enter_inv
    cancel_wake_inv dispatch_loop_inv simp: TimerMainLoop_pass_def)


lemma tm_steps_inv: "tm_client\<^sup>*\<^sup>* S S' \<Longrightarrow> tm_inv S \<Longrightarrow> tm_inv S'"
  by (induction rule: rtranclp_induct) (auto intro: tm_step_inv elim: tm_client.cases)

definition tm_start :: tm_sys where
  "tm_start = tmsys TimerCreateInternal {#} {}"

lemma tm_start_inv: "tm_inv tm_start"
  by (simp add: tm_start_def tm_inv_def TimerCreateInternal_def sys_ok_def task_ok_def)

section \<open>Time\<close>

definition normal :: "timeval \<Rightarrow> bool" where
  "normal tv \<longleftrightarrow> 0 \<le> snd tv \<and> snd tv < 1000000"

definition micros :: "timeval \<Rightarrow> int" where
  "micros tv = fst tv * 1000000 + snd tv"

lemma TimerGetDelayed_micros:
  assumes "normal tv" "0 \<le> delay"
  shows "normal (TimerGetDelayed tv delay)" "micros (TimerGetDelayed tv delay) = micros tv + delay * 1000"
proof -
  define q r where "q = delay div 1000" and "r = delay mod 1000"
  have qr: "delay = q * 1000 + r" "0 \<le> r" "r < 1000" by (simp_all add: q_def r_def)
  have "cdiv delay 1000 = q" "cmod delay 1000 = r"
    using assms(2) by (cases "delay = 0"; simp add: cdiv_def cmod_def q_def r_def minus_mult_div_eq_mod)+
  with assms(1) qr show "normal (TimerGetDelayed tv delay)"
    "micros (TimerGetDelayed tv delay) = micros tv + delay * 1000"
    by (simp_all add: TimerGetDelayed_def normal_def micros_def Let_def)
qed

lemma TVCompare_micros:
  assumes "normal a" "normal b" "\<bar>fst a - fst b\<bar> < 2 ^ 31"
  shows "0 < TimerTVCompare a b \<longleftrightarrow> micros b < micros a" "TimerTVCompare a b = 0 \<longleftrightarrow> a = b"
    "TimerTVCompare a b < 0 \<longleftrightarrow> micros a < micros b"
proof -
  have "to_int (fst a - fst b) = fst a - fst b" "to_int (snd a - snd b) = snd a - snd b"
    using assms by (auto intro!: to_int_id simp: normal_def)
  with assms show "0 < TimerTVCompare a b \<longleftrightarrow> micros b < micros a" "TimerTVCompare a b = 0 \<longleftrightarrow> a = b"
    "TimerTVCompare a b < 0 \<longleftrightarrow> micros a < micros b"
    by (auto simp: TimerTVCompare_def normal_def micros_def Let_def prod_eq_iff)
qed

lemma sec_bound:
  assumes "normal a" "normal b" "micros a - micros b < n * 1000000"
  shows "fst a - fst b \<le> n"
  using assms by (simp add: normal_def micros_def)

lemma skip_loop_result:
  assumes "normal cur" "normal nr" "0 < period" "period < 2 ^ 39" "fst cur - fst nr < 2 ^ 31"
    "fst nr - fst cur < 2 ^ 31"
  shows "\<exists>r j. skip_loop cur period nr = Some r \<and> normal r \<and> micros r = micros nr + int j * (period * 1000) \<and>
    micros cur \<le> micros r \<and> (j = 0 \<or> micros r - period * 1000 < micros cur)"
  using assms
proof (induction "nat (micros cur - micros nr)" arbitrary: nr rule: less_induct)
  case less
  let ?n = "TimerGetDelayed nr period"
  have cmp: "0 < TimerTVCompare cur nr \<longleftrightarrow> micros nr < micros cur"
    using less.prems by (intro TVCompare_micros) auto
  show ?case
  proof (cases "micros nr < micros cur")
    case False
    with cmp have "skip_loop cur period nr = Some nr" by (subst skip_loop.simps) simp
    with False less.prems(2) show ?thesis by (intro exI [of _ nr] exI [of _ 0]) simp
  next
    case True
    note n = TimerGetDelayed_micros [OF less.prems(2), of period]
    have m: "micros ?n = micros nr + period * 1000" "normal ?n" using n less.prems(3) by simp_all
    have "fst ?n - fst cur \<le> 2 ^ 30"
      using True m less.prems by (intro sec_bound) simp_all
    moreover have "fst ?n - fst cur \<noteq> 2 ^ 30"
      using True m less.prems by (auto simp: micros_def normal_def)
    moreover have "fst cur - fst ?n \<le> fst cur - fst nr"
      using m less.prems(2,3) by (simp add: micros_def normal_def)
    ultimately obtain r j where rj: "skip_loop cur period ?n = Some r" "normal r"
      "micros r = micros ?n + int j * (period * 1000)" "micros cur \<le> micros r"
      "j = 0 \<or> micros r - period * 1000 < micros cur"
      using less.hyps [of ?n] less.prems m True by auto
    moreover have "skip_loop cur period nr = skip_loop cur period ?n"
      using cmp True by (subst skip_loop.simps) simp
    ultimately show ?thesis using m True
      by (intro exI [of _ r] exI [of _ "Suc j"]) (auto simp: algebra_simps)
  qed
qed


section \<open>The order of the scheduled tasks\<close>

text \<open>
  The comparator orders the tasks whose times lie within \<open>2 ^ 31\<close> seconds; then the arrays are sorted arrays in
  the sense of \<open>Cmu_Array\<close>, and \<open>put_by\<close> is what \<open>Add\<close> does to them.
\<close>

definition in_window :: "int \<Rightarrow> timer \<Rightarrow> nat \<Rightarrow> bool" where
  "in_window W m a \<longleftrightarrow>
     a < 2 ^ 31 \<and> tm_heap m a \<noteq> None \<and> normal (tk_nextrun (task_at m a)) \<and> W \<le> fst (tk_nextrun (task_at m a)) \<and>
     fst (tk_nextrun (task_at m a)) < W + 2 ^ 31 \<and> 0 \<le> tk_period (task_at m a) \<and> tk_period (task_at m a) < 2 ^ 31"

definition task_key :: "timer \<Rightarrow> nat \<Rightarrow> int \<times> int \<times> nat" where
  "task_key m a = (micros (tk_nextrun (task_at m a)), tk_period (task_at m a), a)"

fun key_less :: "int \<times> int \<times> nat \<Rightarrow> int \<times> int \<times> nat \<Rightarrow> bool" where
  "key_less (t, p, a) (t', p', a') \<longleftrightarrow> t < t' \<or> t = t' \<and> (p < p' \<or> p = p' \<and> a < a')"

lemma TimerTaskComp_key:
  assumes "in_window W m a" "in_window W m b"
  shows "TimerTaskComp m a b < 0 \<longleftrightarrow> key_less (task_key m a) (task_key m b)"
    "0 < TimerTaskComp m a b \<longleftrightarrow> key_less (task_key m b) (task_key m a)"
proof -
  have tv: "0 < TimerTVCompare (tk_nextrun (task_at m a)) (tk_nextrun (task_at m b)) \<longleftrightarrow>
      micros (tk_nextrun (task_at m b)) < micros (tk_nextrun (task_at m a))"
    "TimerTVCompare (tk_nextrun (task_at m a)) (tk_nextrun (task_at m b)) < 0 \<longleftrightarrow>
      micros (tk_nextrun (task_at m a)) < micros (tk_nextrun (task_at m b))"
    using assms by (intro TVCompare_micros; auto simp: in_window_def)+
  have i: "to_int (tk_period (task_at m a) - tk_period (task_at m b)) =
      tk_period (task_at m a) - tk_period (task_at m b)" "to_int (int a - int b) = int a - int b"
    using assms by (auto intro!: to_int_id simp: in_window_def)
  show "TimerTaskComp m a b < 0 \<longleftrightarrow> key_less (task_key m a) (task_key m b)"
    "0 < TimerTaskComp m a b \<longleftrightarrow> key_less (task_key m b) (task_key m a)"
    using tv unfolding TimerTaskComp_def i by (auto simp: task_key_def Let_def)
qed

lemma key_less_total: "\<not> key_less x y \<Longrightarrow> \<not> key_less y x \<Longrightarrow> x = y"
  by (cases x; cases y) auto

lemma key_less_trans: "\<not> key_less y x \<Longrightarrow> \<not> key_less z y \<Longrightarrow> \<not> key_less z x"
  by (cases x; cases y; cases z) auto

lemma key_less_asym: "key_less x y \<Longrightarrow> \<not> key_less y x"
  by (cases x; cases y) auto

interpretation tk: comparator "ref_cmp (TimerTaskComp m)" "ref_ok (in_window W m)" for m W
proof
  fix x y z
  show "ref_ok (in_window W m) x \<Longrightarrow> ref_cmp (TimerTaskComp m) x x = 0"
    by (simp add: ref_ok_def ref_cmp_def TimerTaskComp_def TimerTVCompare_def to_int_def split: option.splits)
  show "ref_ok (in_window W m) x \<Longrightarrow> ref_ok (in_window W m) y \<Longrightarrow>
      ref_cmp (TimerTaskComp m) x y < 0 \<longleftrightarrow> 0 < ref_cmp (TimerTaskComp m) y x"
    by (auto simp: ref_ok_def ref_cmp_def TimerTaskComp_key split: option.splits)
  show "ref_ok (in_window W m) x \<Longrightarrow> ref_ok (in_window W m) y \<Longrightarrow> ref_ok (in_window W m) z \<Longrightarrow>
      ref_cmp (TimerTaskComp m) x y \<le> 0 \<Longrightarrow> ref_cmp (TimerTaskComp m) y z \<le> 0 \<Longrightarrow>
      ref_cmp (TimerTaskComp m) x z \<le> 0"
    by (auto simp: ref_ok_def ref_cmp_def TimerTaskComp_key not_less [symmetric] split: option.splits
        dest: key_less_trans)
qed (auto simp: ref_ok_def split: option.splits)

interpretation tad: comparator "ref_cmp TimerAddrComp" "ref_ok (\<lambda>_. True)"
  by unfold_locales (auto simp: ref_ok_def ref_cmp_def TimerAddrComp_def split: option.splits if_splits)

text \<open>A schedule: sorted, every task in the window.\<close>

definition schedule_ok :: "int \<Rightarrow> timer \<Rightarrow> bool" where
  "schedule_ok W m \<longleftrightarrow> sorted_wrt (\<lambda>a b. TimerTaskComp m a b < 0) (tm_scheduled m) \<and>
     (\<forall>a \<in> set (tm_scheduled m). in_window W m a)"

lemma sorted_put_by:
  assumes "sorted_wrt (\<lambda>a b. TimerTaskComp m a b < 0) xs" "\<forall>a \<in> set xs. in_window W m a" "in_window W m a"
  shows "sorted_wrt (\<lambda>a b. TimerTaskComp m a b < 0) (put_by (TimerTaskComp m) a xs)"
  unfolding ascending_refs [symmetric] put_by_sorted_put
  using assms by (intro tk.ascending_sorted_put [where W = W]) (auto simp: ascending_refs ref_ok_def)

text \<open>The pass on any schedule: the leading tasks that are due.\<close>

lemma dispatch_loop_lists:
  assumes "tm_scheduled m = as" "distinct as"
  shows "tm_jobs (dispatch_loop cur m as) = tm_jobs m @ takeWhile (\<lambda>a. TimerIsElapsed (task_at m a) cur) as \<and>
    tm_scheduled (dispatch_loop cur m as) = dropWhile (\<lambda>a. TimerIsElapsed (task_at m a) cur) as \<and>
    tm_finished (dispatch_loop cur m as) = tm_finished m \<and> tm_alltasks (dispatch_loop cur m as) = tm_alltasks m"
  using assms
proof (induction as arbitrary: m)
  case (Cons a as)
  let ?m = "put_task a ((task_at m a)\<lparr>tk_dispatched := True\<rparr>) (m\<lparr>tm_scheduled := as, tm_jobs := tm_jobs m @ [a]\<rparr>)"
  have "b \<in> set as \<Longrightarrow> task_at ?m b = task_at m b" for b
    using Cons.prems by (auto simp: put_task_def)
  then have "takeWhile (\<lambda>b. TimerIsElapsed (task_at ?m b) cur) as = takeWhile (\<lambda>b. TimerIsElapsed (task_at m b) cur) as"
    "dropWhile (\<lambda>b. TimerIsElapsed (task_at ?m b) cur) as = dropWhile (\<lambda>b. TimerIsElapsed (task_at m b) cur) as"
    by (auto intro!: takeWhile_cong dropWhile_cong)
  then show ?case using Cons.IH [of ?m] Cons.prems by (simp add: put_task_def)
qed simp


lemma takeWhile_sorted:
  assumes "sorted_wrt R xs" "\<And>x y. x \<in> set xs \<Longrightarrow> y \<in> set xs \<Longrightarrow> R x y \<Longrightarrow> P y \<Longrightarrow> P x"
  shows "takeWhile P xs = filter P xs \<and> dropWhile P xs = filter (\<lambda>x. \<not> P x) xs"
  using assms
proof (induction xs)
  case (Cons x xs)
  have "\<not> P x \<Longrightarrow> y \<in> set xs \<Longrightarrow> \<not> P y" for y using Cons.prems by auto
  then show ?case using Cons by (auto simp: filter_empty_conv filter_id_conv intro!: filter_True [symmetric])
qed simp

lemma elapsed_micros:
  assumes "in_window W m a" "normal cur" "W \<le> fst cur" "fst cur < W + 2 ^ 31"
  shows "TimerIsElapsed (task_at m a) cur \<longleftrightarrow> micros (tk_nextrun (task_at m a)) \<le> micros cur"
proof -
  have "0 < TimerTVCompare (tk_nextrun (task_at m a)) cur \<longleftrightarrow> micros cur < micros (tk_nextrun (task_at m a))"
    using assms by (intro TVCompare_micros) (auto simp: in_window_def)
  then show ?thesis by (auto simp: TimerIsElapsed_def)
qed

lemma schedule_distinct: "schedule_ok W m \<Longrightarrow> distinct (tm_scheduled m)"
proof -
  have "sorted_wrt (\<lambda>a b. TimerTaskComp m a b < 0) xs \<Longrightarrow> distinct xs" for xs
  proof (induction xs)
    case (Cons x xs)
    have "TimerTaskComp m x x = 0" by (simp add: TimerTaskComp_def TimerTVCompare_def to_int_def)
    with Cons show ?case by auto
  qed simp
  then show "schedule_ok W m \<Longrightarrow> distinct (tm_scheduled m)" by (simp add: schedule_ok_def)
qed

lemma schedule_ok_cong:
  assumes "schedule_ok W m" "set xs \<subseteq> set (tm_scheduled m)" "sorted_wrt (\<lambda>a b. TimerTaskComp m a b < 0) xs"
    "\<And>a. a \<in> set xs \<Longrightarrow> tm_heap m' a = tm_heap m a" "tm_scheduled m' = xs"
  shows "schedule_ok W m'"
proof -
  have "a \<in> set xs \<Longrightarrow> b \<in> set xs \<Longrightarrow> TimerTaskComp m' a b = TimerTaskComp m a b" for a b
    using assms(4) by (simp add: TimerTaskComp_def Let_def)
  with assms(3) have "sorted_wrt (\<lambda>a b. TimerTaskComp m' a b < 0) xs"
    by (auto simp: sorted_wrt_iff_nth_less)
  then show ?thesis using assms by (auto simp: schedule_ok_def in_window_def)
qed

lemma dispatch_loop_heap:
  "distinct as \<Longrightarrow> tm_heap (dispatch_loop cur m as) x =
    (if x \<in> set (takeWhile (\<lambda>a. TimerIsElapsed (task_at m a) cur) as)
     then Some ((task_at m x)\<lparr>tk_dispatched := True\<rparr>) else tm_heap m x)"
proof (induction as arbitrary: m)
  case (Cons a as)
  let ?m = "put_task a ((task_at m a)\<lparr>tk_dispatched := True\<rparr>) (m\<lparr>tm_scheduled := as, tm_jobs := tm_jobs m @ [a]\<rparr>)"
  have "b \<in> set as \<Longrightarrow> task_at ?m b = task_at m b" for b
    using Cons.prems by (auto simp: put_task_def)
  then have t: "takeWhile (\<lambda>b. TimerIsElapsed (task_at ?m b) cur) as = takeWhile (\<lambda>b. TimerIsElapsed (task_at m b) cur) as"
    by (auto intro!: takeWhile_cong)
  have "tm_heap (dispatch_loop cur ?m as) x =
      (if x \<in> set (takeWhile (\<lambda>b. TimerIsElapsed (task_at m b) cur) as)
       then Some ((task_at ?m x)\<lparr>tk_dispatched := True\<rparr>) else tm_heap ?m x)"
    unfolding t [symmetric] using Cons.prems by (intro Cons.IH) simp
  then show ?case using Cons.prems by (auto simp: put_task_def dest: set_takeWhileD)
qed simp

section \<open>A run\<close>

text \<open>A task is scheduled, dispatched and begun by worker 7; thread 1 cancels it and waits.\<close>

definition tm_ex_task :: task where
  "tm_ex_task = \<lparr>tk_type = TimerTask_Repeat, tk_canceled = False, tk_nextrun = (100, 0), tk_period = 2500,
     tk_elapse_skip = True, tk_dispatched = False, tk_waiter = False, tk_runner = 0\<rparr>"

definition tm_ex1 :: timer where
  "tm_ex1 = \<lparr>tm_heap = (\<lambda>_. None)(5 \<mapsto> tm_ex_task), tm_scheduled = [5], tm_finished = [], tm_alltasks = [5],
     tm_jobs = []\<rparr>"

definition tm_ex2 :: timer where
  "tm_ex2 = \<lparr>tm_heap = (\<lambda>_. None)(5 \<mapsto> tm_ex_task\<lparr>tk_dispatched := True, tk_runner := 7, tk_canceled := True,
     tk_waiter := True\<rparr>), tm_scheduled = [], tm_finished = [], tm_alltasks = [5], tm_jobs = []\<rparr>"

lemma tm_ex_create:
  "TimerTaskCreate 5 TimerTask_Repeat (Some (100, 0)) 2500 True True TimerCreateInternal = (Some 5, tm_ex1)"
  by (simp add: TimerTaskCreate_def TimerCreateInternal_def tm_ex1_def tm_ex_task_def put_task_def put_by_def Let_def)

abbreviation tm_ex_busy :: "tm_phase multiset" where
  "tm_ex_busy \<equiv> {#WK_Proc 7 5, CN_Sleep 1 5 4999 []#}"

lemma tm_ex_run: "tm_client\<^sup>*\<^sup>* tm_start (tmsys tm_ex2 tm_ex_busy {})"
proof -
  have e: "TimerIsElapsed tm_ex_task (101, 0)"
    by (simp add: TimerIsElapsed_def TimerTVCompare_def to_int_def tm_ex_task_def)
  let ?k = "tm_ex_task\<lparr>tk_dispatched := True\<rparr>"
  let ?m = "\<lambda>k. \<lparr>tm_heap = (\<lambda>_. None)(5 \<mapsto> k), tm_scheduled = [], tm_finished = [], tm_alltasks = [5], tm_jobs = []\<rparr>"
  let ?m7 = "?m (?k\<lparr>tk_runner := 7\<rparr>)"
  have s1: "tm_step tm_start Ev_Work (tmsys tm_ex1 {#} {5})"
    unfolding tm_start_def by (rule tm_step.create [OF _ _ tm_ex_create]) (simp_all add: TimerCreateInternal_def)
  have s2: "tm_step (tmsys tm_ex1 {#} {5}) Ev_Work (tmsys ((?m ?k)\<lparr>tm_jobs := [5]\<rparr>) {#} {5})"
    using tm_step.pass [of tm_ex1 "{#}" "{5}" "(101, 0)"] e
    by (simp add: TimerMainLoop_pass_def tm_ex1_def put_task_def)
  have s3: "tm_step (tmsys ((?m ?k)\<lparr>tm_jobs := [5]\<rparr>) {#} {5}) Ev_Work (tmsys (?m ?k) {#WK_Start 7 5#} {5})"
    using tm_step.take [of "(?m ?k)\<lparr>tm_jobs := [5]\<rparr>" 5 "[]" "{#}" "{5}" 7] by simp
  have s4: "tm_step (tmsys (?m ?k) {#WK_Start 7 5#} {5}) Ev_Work (tmsys ?m7 {#WK_Check 7 5#} {5})"
    using tm_step.begin_task [of "?m ?k" 7 5 "{#}" "{5}"] by (simp add: put_task_def)
  have s5: "tm_step (tmsys ?m7 {#WK_Check 7 5#} {5}) Ev_Work (tmsys ?m7 {#WK_Proc 7 5#} {5})"
    using tm_step.check [of ?m7 7 5 "{#}" "{5}"] by (simp add: tm_ex_task_def)
  have s6: "tm_step (tmsys ?m7 {#WK_Proc 7 5#} {5}) (Ev_Cancel 5) (tmsys ?m7 {#CN_Enter 1 5 [], WK_Proc 7 5#} {})"
    using tm_step.cancel [of ?m7 "{#WK_Proc 7 5#}" "{5}" 5 1] by simp
  have s7: "tm_step (tmsys ?m7 {#CN_Enter 1 5 [], WK_Proc 7 5#} {}) Ev_Work (tmsys tm_ex2 tm_ex_busy {})"
    using tm_step.enter [of 1 5 ?m7 Cancel_Wait tm_ex2 "[]" "{#WK_Proc 7 5#}" "{}"]
    by (simp add: cancel_enter_def tm_ex_task_def tm_ex2_def put_task_def after_cancel_def
        CMUTIL_TIMER_CANCEL_WAIT_def Let_def)
  have "tm_client (tmsys ?m7 {#WK_Proc 7 5#} {5}) (tmsys ?m7 {#CN_Enter 1 5 [], WK_Proc 7 5#} {})"
    by (rule tm_clientI [OF s6]) simp
  with s1 s2 s3 s4 s5 s7 [THEN tm_work] show ?thesis by (meson tm_work rtranclp.rtrancl_refl converse_rtranclp_into_rtranclp)
qed

text \<open>From there, one event outside the discipline: a second cancel of the task by thread 2, or a purge by it.\<close>

lemma tm_ex_again:
  assumes "ev = Ev_Cancel 5 \<or> ev = Ev_Purge"
  shows "tm_step (tmsys tm_ex2 tm_ex_busy {}) ev (tmsys tm_ex2 (add_mset (CN_Enter 2 5 []) tm_ex_busy) {})"
proof -
  have p: "TimerPurge_snapshot tm_ex2 = ([5], tm_ex2)"
    by (simp add: TimerPurge_snapshot_def tm_ex2_def put_task_def)
  from assms show ?thesis
    using tm_step.cancel [of tm_ex2 tm_ex_busy "{}" 5 2] tm_step.purge [OF p, of tm_ex_busy "{}" 2]
    by (auto simp: add_mset_commute)
qed

definition tm_ex3 :: timer where
  "tm_ex3 = \<lparr>tm_heap = (\<lambda>_. None)(5 \<mapsto> tm_ex_task\<lparr>tk_canceled := True, tk_waiter := True\<rparr>), tm_scheduled = [],
     tm_finished = [], tm_alltasks = [], tm_jobs = []\<rparr>"

lemma tm_ex_double:
  "tm_client\<^sup>*\<^sup>* (tmsys tm_ex2 (add_mset (CN_Enter 2 5 []) tm_ex_busy) {}) (tmsys tm_ex3 {#CN_Free 1 5 [], CN_Free 2 5 []#} {})"
proof -
  let ?k = "tm_ex_task\<lparr>tk_dispatched := True, tk_runner := 7, tk_canceled := True, tk_waiter := True\<rparr>"
  let ?s1 = "CN_Sleep 1 5 4999 []" and ?s2 = "CN_Sleep 2 5 4999 []"
  have "cancel_enter 2 5 tm_ex2 = (Cancel_Wait, tm_ex2)"
    by (simp add: cancel_enter_def tm_ex2_def put_task_def)
  then have s1: "tm_step (tmsys tm_ex2 (add_mset (CN_Enter 2 5 []) tm_ex_busy) {}) Ev_Work (tmsys tm_ex2 {#WK_Proc 7 5, ?s1, ?s2#} {})"
    using tm_step.enter [of 2 5 tm_ex2 Cancel_Wait tm_ex2 "[]" tm_ex_busy "{}"]
    by (simp add: after_cancel_def CMUTIL_TIMER_CANCEL_WAIT_def add_mset_commute)
  have "worker_after (102, 0) (task_at tm_ex2 5) = Some (?k, To_Finished)" "put_task 5 ?k tm_ex2 = tm_ex2"
    by (simp_all add: worker_after_def tm_ex2_def put_task_def)
  then have s2: "tm_step (tmsys tm_ex2 {#WK_Proc 7 5, ?s1, ?s2#} {}) Ev_Work (tmsys tm_ex2 {#WK_End 7 5 To_Finished, ?s1, ?s2#} {})"
    using tm_step.after [of "(102, 0)" tm_ex2 5 ?k To_Finished 7 "{#?s1, ?s2#}" "{}"] by simp
  have "worker_end 5 To_Finished tm_ex2 = (False, tm_ex3)"
    by (simp add: worker_end_def tm_ex2_def tm_ex3_def put_task_def tm_ex_task_def)
  then have s3: "tm_step (tmsys tm_ex2 {#WK_End 7 5 To_Finished, ?s1, ?s2#} {}) Ev_Work (tmsys tm_ex3 {#?s1, ?s2#} {})"
    using tm_step.end_task [of 5 To_Finished tm_ex2 False tm_ex3 7 "{#?s1, ?s2#}" "{}"] by simp
  have f: "cancel_wake 5 4999 tm_ex3 = (Cancel_Free, tm_ex3)"
    by (simp add: cancel_wake_def tm_ex3_def tm_ex_task_def)
  have s4: "tm_step (tmsys tm_ex3 {#?s1, ?s2#} {}) Ev_Work (tmsys tm_ex3 {#CN_Free 1 5 [], ?s2#} {})"
    using tm_step.wake [OF f, of 1 "[]" "{#?s2#}" "{}"] by (simp add: after_cancel_def add_mset_commute)
  have s5: "tm_step (tmsys tm_ex3 {#CN_Free 1 5 [], ?s2#} {}) Ev_Work (tmsys tm_ex3 {#CN_Free 1 5 [], CN_Free 2 5 []#} {})"
    using tm_step.wake [OF f, of 2 "[]" "{#CN_Free 1 5 []#}" "{}"] by (simp add: after_cancel_def add_mset_commute)
  from s1 s2 s3 s4 s5 show ?thesis by (meson tm_work rtranclp.rtrancl_refl converse_rtranclp_into_rtranclp)
qed

section \<open>Properties\<close>

text \<open>
  C35: Who may free a task. However the main loop, the workers and the cancelling threads interleave, as long as the
  client gives each task to \<open>Cancel\<close> at most once and purges only when no cancel is under way: every task in an
  array, in the queue of jobs or in the hands of a thread is allocated, and a task that a thread is about to free is in
  no array and no queue and no other thread refers to it, so no task is used after it was freed and none is freed
  twice. The code itself does not restrain the client, and one event outside of this is enough: a second cancel of a
  running task, or a purge while a task is being cancelled, leads to two threads that are about to free the same task.
\<close>

theorem timer_safe:
  assumes "tm_client\<^sup>*\<^sup>* tm_start (tmsys m b own)"
  shows "(\<forall>x. x \<in> set (tm_scheduled m) \<or> x \<in> set (tm_finished m) \<or> x \<in> set (tm_alltasks m) \<or>
        x \<in> set (tm_jobs m) \<or> x \<in> own \<or> 0 < tally (\<lambda>ph. wk_ref x ph + fr_ref x ph + cn_ref x ph) b \<longrightarrow>
        tm_heap m x \<noteq> None) \<and>
    (\<forall>x. 0 < tally (fr_ref x) b \<longrightarrow>
        tally (\<lambda>ph. wk_ref x ph + fr_ref x ph + cn_ref x ph) b = 1 \<and> x \<notin> set (tm_scheduled m) \<and>
        x \<notin> set (tm_finished m) \<and> x \<notin> set (tm_alltasks m) \<and> x \<notin> set (tm_jobs m) \<and> x \<notin> own) \<and>
    (\<forall>ev \<in> {Ev_Cancel 5, Ev_Purge}. \<exists>S1 S2 S3.
        tm_client\<^sup>*\<^sup>* tm_start S1 \<and> tm_step S1 ev S2 \<and> tm_client\<^sup>*\<^sup>* S2 S3 \<and> tally (fr_ref 5) (tz_busy S3) = 2)"
proof -
  have inv: "tm_inv (tmsys m b own)" using tm_steps_inv [OF assms tm_start_inv] .
  have t: "tally (\<lambda>ph. wk_ref x ph + fr_ref x ph + cn_ref x ph) b =
      tally (wk_ref x) b + tally (fr_ref x) b + tally (cn_ref x) b" for x
    by (simp add: tally_def sum_mset.distrib)
  have j: "x \<in> set (tm_jobs m) \<longleftrightarrow> 0 < count_list (tm_jobs m) x" for x
    by (metis count_list_0_iff neq0_conv)
  have "0 < tally (fr_ref x) b \<Longrightarrow> count_list (tm_jobs m) x + tally (wk_ref x) b = 0 \<and> tally (fr_ref x) b = 1 \<and>
      tally (cn_ref x) b = 0 \<and> x \<notin> set (tm_scheduled m) \<and> x \<notin> set (tm_finished m) \<and>
      x \<notin> set (tm_alltasks m) \<and> x \<notin> own" for x
    using tm_invD(5) [OF inv, of x] used_some [OF inv, of x] by (auto simp: sys_ok_def task_ok_def)
  then have safe: "(\<forall>x. x \<in> set (tm_scheduled m) \<or> x \<in> set (tm_finished m) \<or> x \<in> set (tm_alltasks m) \<or>
        x \<in> set (tm_jobs m) \<or> x \<in> own \<or> 0 < tally (\<lambda>ph. wk_ref x ph + fr_ref x ph + cn_ref x ph) b \<longrightarrow>
        tm_heap m x \<noteq> None) \<and>
    (\<forall>x. 0 < tally (fr_ref x) b \<longrightarrow>
        tally (\<lambda>ph. wk_ref x ph + fr_ref x ph + cn_ref x ph) b = 1 \<and> x \<notin> set (tm_scheduled m) \<and>
        x \<notin> set (tm_finished m) \<and> x \<notin> set (tm_alltasks m) \<and> x \<notin> set (tm_jobs m) \<and> x \<notin> own)"
    using used_some [OF inv] unfolding t j by (metis add_is_0 add.right_neutral add_0 not_gr_zero)
  have "\<forall>ev \<in> {Ev_Cancel 5, Ev_Purge}. \<exists>S1 S2 S3.
      tm_client\<^sup>*\<^sup>* tm_start S1 \<and> tm_step S1 ev S2 \<and> tm_client\<^sup>*\<^sup>* S2 S3 \<and> tally (fr_ref 5) (tz_busy S3) = 2"
  proof
    fix ev assume "ev \<in> {Ev_Cancel 5, Ev_Purge}"
    then have "ev = Ev_Cancel 5 \<or> ev = Ev_Purge" by simp
    note a = tm_ex_again [OF this]
    from tm_ex_run a tm_ex_double show "\<exists>S1 S2 S3. tm_client\<^sup>*\<^sup>* tm_start S1 \<and> tm_step S1 ev S2 \<and>
        tm_client\<^sup>*\<^sup>* S2 S3 \<and> tally (fr_ref 5) (tz_busy S3) = 2"
      by (intro exI conjI) (assumption | simp)+
  qed
  with safe show ?thesis by blast
qed

text \<open>
  The pass of the main loop over a schedule in order hands the workers exactly the tasks that are due, in the
  order of their times, and leaves the others; the schedule stays in order.
\<close>

theorem timer_dispatch:
  assumes "schedule_ok W m" "normal cur" "W \<le> fst cur" "fst cur < W + 2 ^ 31"
    and "m' = TimerMainLoop_pass cur m"
    and "due = filter (\<lambda>a. micros (tk_nextrun (task_at m a)) \<le> micros cur) (tm_scheduled m)"
  shows "tm_jobs m' = tm_jobs m @ due \<and> sorted (map (\<lambda>a. micros (tk_nextrun (task_at m a))) due) \<and>
    tm_scheduled m' = filter (\<lambda>a. micros cur < micros (tk_nextrun (task_at m a))) (tm_scheduled m) \<and>
    schedule_ok W m' \<and> (\<forall>a \<in> set due. tk_dispatched (task_at m' a)) \<and> tm_alltasks m' = tm_alltasks m"
proof -
  have e: "a \<in> set (tm_scheduled m) \<Longrightarrow>
      TimerIsElapsed (task_at m a) cur \<longleftrightarrow> micros (tk_nextrun (task_at m a)) \<le> micros cur" for a
    using assms(1) by (intro elapsed_micros [OF _ assms(2-4)]) (simp add: schedule_ok_def)
  have srt: "sorted_wrt (\<lambda>a b. TimerTaskComp m a b < 0) (tm_scheduled m)" using assms(1) by (simp add: schedule_ok_def)
  have le: "micros (tk_nextrun (task_at m a)) \<le> micros (tk_nextrun (task_at m b))"
    if "a \<in> set (tm_scheduled m)" "b \<in> set (tm_scheduled m)" "TimerTaskComp m a b < 0" for a b
    using that assms(1) TimerTaskComp_key(1) [of W m a b] by (auto simp: schedule_ok_def task_key_def)
  have tw: "takeWhile (\<lambda>a. TimerIsElapsed (task_at m a) cur) (tm_scheduled m) = due \<and>
      dropWhile (\<lambda>a. TimerIsElapsed (task_at m a) cur) (tm_scheduled m) =
        filter (\<lambda>a. micros cur < micros (tk_nextrun (task_at m a))) (tm_scheduled m)"
  proof -
    have "takeWhile (\<lambda>a. TimerIsElapsed (task_at m a) cur) (tm_scheduled m) =
        filter (\<lambda>a. TimerIsElapsed (task_at m a) cur) (tm_scheduled m) \<and>
      dropWhile (\<lambda>a. TimerIsElapsed (task_at m a) cur) (tm_scheduled m) =
        filter (\<lambda>a. \<not> TimerIsElapsed (task_at m a) cur) (tm_scheduled m)"
      by (rule takeWhile_sorted [OF srt]) (use e le in fastforce)
    then show ?thesis using e by (auto simp: assms(6) not_le intro!: filter_cong)
  qed
  note dl = dispatch_loop_lists [OF refl schedule_distinct [OF assms(1)], of cur]
  note dh = dispatch_loop_heap [OF schedule_distinct [OF assms(1)], of cur m]
  have 1: "tm_jobs m' = tm_jobs m @ due" "tm_scheduled m' =
      filter (\<lambda>a. micros cur < micros (tk_nextrun (task_at m a))) (tm_scheduled m)" "tm_alltasks m' = tm_alltasks m"
    using dl tw by (simp_all add: assms(5) TimerMainLoop_pass_def)
  have 2: "\<forall>a \<in> set due. tk_dispatched (task_at m' a)"
    using dh tw by (simp add: assms(5) TimerMainLoop_pass_def)
  have 3: "schedule_ok W m'"
    using dh tw 1 srt
    by (intro schedule_ok_cong [OF assms(1), where xs = "tm_scheduled m'"])
      (auto simp: assms(5,6) TimerMainLoop_pass_def sorted_wrt_filter)
  have 4: "sorted (map (\<lambda>a. micros (tk_nextrun (task_at m a))) due)"
    unfolding sorted_wrt_map assms(6)
    by (rule sorted_wrt_mono_rel [OF _ sorted_wrt_filter [OF srt]]) (use le in auto)
  from 1 2 3 4 show ?thesis by blast
qed

text \<open>
  After its procedure a repeating task gets its next time and the worker returns: the old time plus one period
  or, when missed intervals are skipped, plus the least positive number of periods that reaches the
  present. The time is normalised. Nothing else of the task changes.
\<close>

theorem timer_reschedule:
  assumes "tk_type k = TimerTask_Repeat" "\<not> tk_canceled k" "0 < tk_period k" "tk_period k < 2 ^ 39"
    "normal (tk_nextrun k)" "normal cur" "\<bar>fst cur - fst (tk_nextrun k)\<bar> < 2 ^ 29"
  shows "\<exists>nr j. worker_after cur k = Some (k\<lparr>tk_nextrun := nr\<rparr>, To_Scheduled) \<and> normal nr \<and> 1 \<le> j \<and>
    micros nr = micros (tk_nextrun k) + int j * (tk_period k * 1000) \<and>
    (if tk_elapse_skip k then micros cur \<le> micros nr \<and> (j = 1 \<or> micros nr - tk_period k * 1000 < micros cur)
     else j = 1)"
proof -
  let ?n = "TimerGetDelayed (tk_nextrun k) (tk_period k)"
  have n: "normal ?n" "micros ?n = micros (tk_nextrun k) + tk_period k * 1000"
    using TimerGetDelayed_micros [OF assms(5), of "tk_period k"] assms(3) by simp_all
  have w: "worker_after cur k = map_option (\<lambda>nr. (k\<lparr>tk_nextrun := nr\<rparr>, To_Scheduled))
      (if tk_elapse_skip k then skip_loop cur (tk_period k) ?n else Some ?n)"
    using assms(1,2) by (simp add: worker_after_def Let_def)
  show ?thesis
  proof (cases "tk_elapse_skip k")
    case False
    with w n show ?thesis by (intro exI [of _ ?n] exI [of _ 1]) simp
  next
    case True
    have b: "fst ?n - fst cur < 2 ^ 31" "fst cur - fst ?n < 2 ^ 31"
      using assms n by (auto simp: normal_def micros_def abs_less_iff)
    have "fst ?n - fst (tk_nextrun k) \<le> tk_period k div 1000 + 1"
      by (rule sec_bound [OF n(1) assms(5)]) (use n in simp)
    moreover have "tk_period k div 1000 < 549755814" using assms(4) by simp
    ultimately have "fst ?n - fst cur < 2 ^ 30 + 2 ^ 29" using assms(7) by (simp add: abs_less_iff)
    then have "fst ?n - fst cur < 2 ^ 31" by simp
    from skip_loop_result [OF assms(6) n(1) assms(3,4) b(2) this]
    obtain r j where "skip_loop cur (tk_period k) ?n = Some r" "normal r"
      "micros r = micros ?n + int j * (tk_period k * 1000)" "micros cur \<le> micros r"
      "j = 0 \<or> micros r - tk_period k * 1000 < micros cur" by blast
    with True w n show ?thesis
      by (intro exI [of _ r] exI [of _ "Suc j"]) (auto simp: algebra_simps)
  qed
qed


theorem timer_safe_witness:
  "tm_heap tm_ex2 5 \<noteq> None \<and>
   tally (\<lambda>ph. wk_ref 5 ph + fr_ref 5 ph + cn_ref 5 ph) tm_ex_busy = 2"
  using timer_safe [OF tm_ex_run] by (simp add: tm_ex2_def)

lemma tm_ex_schedule: "schedule_ok 0 tm_ex1"
  by (simp add: schedule_ok_def in_window_def tm_ex1_def tm_ex_task_def normal_def)

theorem timer_dispatch_witness:
  "tm_jobs (TimerMainLoop_pass (101, 0) tm_ex1) = [5] \<and> tm_jobs (TimerMainLoop_pass (99, 0) tm_ex1) = []"
  using timer_dispatch [OF tm_ex_schedule, of "(101, 0)", OF _ _ _ refl refl]
    timer_dispatch [OF tm_ex_schedule, of "(99, 0)", OF _ _ _ refl refl]
  by (simp add: normal_def) (simp add: tm_ex1_def tm_ex_task_def micros_def)

theorem timer_reschedule_witness:
  "\<exists>nr j. worker_after (107, 0) tm_ex_task = Some (tm_ex_task\<lparr>tk_nextrun := nr\<rparr>, To_Scheduled) \<and>
    micros nr = 100000000 + int j * 2500000 \<and> 107000000 \<le> micros nr \<and> (j = 1 \<or> micros nr < 109500000)"
  using timer_reschedule [of tm_ex_task "(107, 0)"]
  by (fastforce simp: tm_ex_task_def normal_def micros_def)

text \<open>
  Two threads that cancel the same running task both wait for it and both free it; the interface does not
  forbid it, a later cancel of a task that was canceled before takes the same path.
\<close>

lemma timer_cancel_twice:
  assumes "tm_heap m a = Some k" "\<not> tk_canceled k" "a \<notin> set (tm_scheduled m)" "a \<notin> set (tm_finished m)"
    "tk_dispatched k" "tk_runner k \<noteq> t1" "tk_runner k \<noteq> t2"
    and "m1 = snd (cancel_enter t1 a m)" "m2 = snd (cancel_enter t2 a m1)" "m3 = snd (worker_end a dest m2)"
  shows "fst (cancel_enter t1 a m) = Cancel_Wait \<and> fst (cancel_enter t2 a m1) = Cancel_Wait \<and>
    fst (worker_end a dest m2) = False \<and> fst (cancel_wake a n m3) = Cancel_Free \<and>
    fst (cancel_wake a n (snd (cancel_wake a n m3))) = Cancel_Free"
  using assms by (simp add: cancel_enter_def worker_end_def cancel_wake_def put_task_def)

text \<open>
  A purge from inside a task's procedure: the purge marks the task as waited for and then does not wait, so
  nobody frees it, and it is in no array afterwards.
\<close>

lemma timer_purge_leak:
  assumes "tm_heap m a = Some k" "\<not> tk_canceled k" "tm_scheduled m = []" "tm_finished m = []" "tm_alltasks m = [a]"
    "tk_dispatched k" "tk_runner k = t"
    and "m1 = snd (TimerPurge_snapshot m)" "m2 = snd (cancel_enter t a m1)" "m3 = snd (worker_end a dest m2)"
  shows "fst (cancel_enter t a m1) = Cancel_Done \<and> fst (worker_end a dest m2) = False \<and>
    tm_heap m3 a \<noteq> None \<and> tm_alltasks m3 = [] \<and> tm_scheduled m3 = [] \<and> tm_finished m3 = []"
  using assms by (simp add: cancel_enter_def worker_end_def TimerPurge_snapshot_def put_task_def)

text \<open>The difference of the seconds is cut to an \<open>int\<close>: a time \<open>2 ^ 31\<close> seconds ahead counts as past.\<close>

lemma timer_far_future: "TimerIsElapsed (k\<lparr>tk_nextrun := (2 ^ 31, 0)\<rparr>) (0, 0)"
  by (simp add: TimerIsElapsed_def TimerTVCompare_def to_int_def)

end
