(* ===== verification/Cmu_Socket.thy ===== *)
theory Cmu_Socket
  imports Cmu_Prelude
begin

text \<open>
  The transfer of bytes over a plain socket, \<open>src/src/network.c\<close>: \<open>Read\<close>, \<open>Write\<close>, \<open>WritePart\<close>, \<open>ReadByte\<close>,
  \<open>WriteByte\<close> and the checks of the buffers. What the system answers to \<open>poll\<close>, \<open>recv\<close> and \<open>send\<close> is a
  list of events for each direction; behind its last event nothing arrives any more, and everything can be
  sent. The time-out is that of each single \<open>poll\<close> and taken not to be negative (a negative one waits for ever);
  how long a wait takes is not modelled, only whether it ended with a time-out. A \<open>ByteBuffer\<close> is the sequence of bytes it stands for, memory is granted. The interface the client
  of a socket relies on is the locale \<open>byte_stream\<close>.
\<close>

section \<open>Sockets\<close>

datatype sresult =
    CMSocketOk | CMSocketTimeout | CMSocketPollFailed | CMSocketReceiveFailed | CMSocketSendFailed

text \<open>
  Bytes that arrived together, the peer's shutdown, an error of \<open>recv\<close>, \<open>EWOULDBLOCK\<close>, a timeout and a failure
  of \<open>poll\<close>; for sending, how many bytes the system takes at once.
\<close>

datatype rx = Rx_Data string | Rx_Closed | Rx_Error | Rx_Block | Rx_Timeout | Rx_Poll

datatype tx = Tx_Take nat | Tx_Error | Tx_Block | Tx_Timeout | Tx_Poll

record socket =
  sk_rx :: "rx list"
  sk_tx :: "tx list"
  sk_out :: string
  sk_open :: bool

definition SocketCheckReadBuffer :: "socket \<Rightarrow> sresult \<times> socket" where
  "SocketCheckReadBuffer s =
     (case sk_rx s of
        [] \<Rightarrow> (CMSocketTimeout, s)
      | Rx_Timeout # r \<Rightarrow> (CMSocketTimeout, s\<lparr>sk_rx := r\<rparr>)
      | Rx_Poll # r \<Rightarrow> (CMSocketPollFailed, s\<lparr>sk_rx := r\<rparr>)
      | _ \<Rightarrow> (CMSocketOk, s))"

definition SocketCheckWriteBuffer :: "socket \<Rightarrow> sresult \<times> socket" where
  "SocketCheckWriteBuffer s =
     (case sk_tx s of
        Tx_Timeout # r \<Rightarrow> (CMSocketTimeout, s\<lparr>sk_tx := r\<rparr>)
      | Tx_Poll # r \<Rightarrow> (CMSocketPollFailed, s\<lparr>sk_tx := r\<rparr>)
      | _ \<Rightarrow> (CMSocketOk, s))"

text \<open>\<open>recv\<close> of at most \<open>n\<close> bytes; no bytes is the peer's shutdown. \<open>send\<close> of the bytes \<open>d\<close>.\<close>

datatype recv = Received string | Recv_Error | Recv_Block

definition sock_recv :: "nat \<Rightarrow> socket \<Rightarrow> recv \<times> socket" where
  "sock_recv n s =
     (case sk_rx s of
        Rx_Data d # r \<Rightarrow> (Received (take n d), s\<lparr>sk_rx := (if n < length d then Rx_Data (drop n d) # r else r)\<rparr>)
      | Rx_Error # r \<Rightarrow> (Recv_Error, s\<lparr>sk_rx := r\<rparr>)
      | Rx_Block # r \<Rightarrow> (Recv_Block, s\<lparr>sk_rx := r\<rparr>)
      | _ \<Rightarrow> (Received [], s))"

datatype send = Sent nat | Send_Error | Send_Block

definition sock_send :: "string \<Rightarrow> socket \<Rightarrow> send \<times> socket" where
  "sock_send d s =
     (case sk_tx s of
        Tx_Take n # r \<Rightarrow> (Sent (min n (length d)), s\<lparr>sk_tx := r, sk_out := sk_out s @ take n d\<rparr>)
      | Tx_Error # r \<Rightarrow> (Send_Error, s\<lparr>sk_tx := r\<rparr>)
      | Tx_Block # r \<Rightarrow> (Send_Block, s\<lparr>sk_tx := r\<rparr>)
      | _ \<Rightarrow> (Sent (length d), s\<lparr>sk_out := sk_out s @ d\<rparr>))"

definition CMUTIL_RBUF_LEN :: nat where
  "CMUTIL_RBUF_LEN = 1024"

text \<open>\<open>Read\<close> of \<open>n\<close> more bytes into the buffer that holds \<open>buf\<close>.\<close>

function SocketRead :: "nat \<Rightarrow> string \<Rightarrow> socket \<Rightarrow> sresult \<times> string \<times> socket" where
  "SocketRead n buf s =
     (if n = 0 then (CMSocketOk, buf, s)
      else
        (case SocketCheckReadBuffer s of
           (CMSocketOk, s1) \<Rightarrow>
             (case sock_recv (min n CMUTIL_RBUF_LEN) s1 of
                (Received d, s2) \<Rightarrow>
                  if d = [] then (CMSocketReceiveFailed, buf, s2)
                  else SocketRead (n - length d) (buf @ d) s2
              | (_, s2) \<Rightarrow> (CMSocketReceiveFailed, buf, s2))
         | (sr, s1) \<Rightarrow> (sr, buf, s1)))"
  by pat_completeness auto
termination
  by (relation "measure fst") auto

declare SocketRead.simps [simp del]

text \<open>The bytes from the socket, or \<open>- 1\<close>.\<close>

lemma recv_block_shorter:
  assumes "sock_recv n s = (Recv_Block, s')"
  shows "length (sk_rx s') < length (sk_rx s)"
  using assms by (auto simp: sock_recv_def split: list.splits rx.splits if_splits)

function SocketReadByte :: "socket \<Rightarrow> int \<times> socket" where
  "SocketReadByte s =
     (case SocketCheckReadBuffer s of
        (CMSocketOk, s1) \<Rightarrow>
          (case sock_recv 1 s1 of
             (Received d, s2) \<Rightarrow> if d = [] then (- 1, s2) else (code (hd d), s2)
           | (Recv_Error, s2) \<Rightarrow> (- 1, s2)
           | (Recv_Block, s2) \<Rightarrow> SocketReadByte s2)
      | (_, s1) \<Rightarrow> (- 1, s1))"
  by pat_completeness auto
termination
proof (relation "measure (\<lambda>s. length (sk_rx s))", goal_cases)
  case (2 s sr s1 rc s2)
  have "length (sk_rx s1) \<le> length (sk_rx s)"
    using 2(1) by (auto simp: SocketCheckReadBuffer_def split: list.splits rx.splits)
  then show ?case using recv_block_shorter [of 1 s1 s2] 2 by simp
qed simp

declare SocketReadByte.simps [simp del]

text \<open>\<open>WritePart\<close> of the bytes \<open>d\<close>, what \<open>Write\<close> calls with all of its data.\<close>

lemma send_shorter:
  assumes "SocketCheckWriteBuffer s = (CMSocketOk, s1)" "sock_send d s1 = (rc, s2)" "d \<noteq> []"
  shows "rc = Sent n \<Longrightarrow> (n \<noteq> 0 \<or> length (sk_tx s2) < length (sk_tx s)) \<and> length (sk_tx s2) \<le> length (sk_tx s)"
    "rc = Send_Block \<Longrightarrow> length (sk_tx s2) < length (sk_tx s)"
  using assms by (auto simp: SocketCheckWriteBuffer_def sock_send_def split: list.splits tx.splits)

function SocketWritePart :: "string \<Rightarrow> socket \<Rightarrow> sresult \<times> socket" where
  "SocketWritePart d s =
     (if d = [] then (CMSocketOk, s)
      else
        (case SocketCheckWriteBuffer s of
           (CMSocketOk, s1) \<Rightarrow>
             (case sock_send d s1 of
                (Sent n, s2) \<Rightarrow> SocketWritePart (drop n d) s2
              | (Send_Block, s2) \<Rightarrow> SocketWritePart d s2
              | (Send_Error, s2) \<Rightarrow> (CMSocketSendFailed, s2))
         | (sr, s1) \<Rightarrow> (sr, s1)))"
  by pat_completeness auto
termination
proof (relation "measures [\<lambda>(d, s). length d + length (sk_tx s)]", goal_cases)
  case (2 d s sr s1 rc s2 n)
  then show ?case using send_shorter(1) [of s s1 d rc s2 n] by (cases "n = 0"; cases d) auto
next
  case (3 d s sr s1 rc s2)
  then show ?case using send_shorter(2) [of s s1 d rc s2] by auto
qed simp

declare SocketWritePart.simps [simp del]

definition SocketWrite :: "string \<Rightarrow> socket \<Rightarrow> sresult \<times> socket" where
  "SocketWrite data s = SocketWritePart data s"

text \<open>\<open>WriteByte\<close> tries until the byte is taken.\<close>

function SocketWriteByte :: "char \<Rightarrow> socket \<Rightarrow> sresult \<times> socket" where
  "SocketWriteByte c s =
     (case SocketCheckWriteBuffer s of
        (CMSocketOk, s1) \<Rightarrow>
          (case sock_send [c] s1 of
             (Sent n, s2) \<Rightarrow> if 0 < n then (CMSocketOk, s2) else SocketWriteByte c s2
           | (Send_Block, s2) \<Rightarrow> SocketWriteByte c s2
           | (Send_Error, s2) \<Rightarrow> (CMSocketSendFailed, s2))
      | (sr, s1) \<Rightarrow> (sr, s1))"
  by pat_completeness auto
termination
proof (relation "measure (\<lambda>(c, s). length (sk_tx s))", goal_cases)
  case (2 c s sr s1 rc s2 n)
  then show ?case using send_shorter(1) [of s s1 "[c]" rc s2 n] by auto
next
  case (3 c s sr s1 rc s2)
  then show ?case using send_shorter(2) [of s s1 "[c]" rc s2] by auto
qed simp

declare SocketWriteByte.simps [simp del]

definition SocketClose :: "socket \<Rightarrow> socket" where
  "SocketClose s = s\<lparr>sk_open := False\<rparr>"


section \<open>Streams\<close>

text \<open>What is certain to arrive: the data before the first event that is none.\<close>

fun pending :: "rx list \<Rightarrow> string" where
  "pending (Rx_Data d # r) = (if d = [] then [] else d @ pending r)"
| "pending r = []"

lemma check_read:
  "SocketCheckReadBuffer s = (sr, s1) \<Longrightarrow> pending (sk_rx s) \<noteq> [] \<Longrightarrow> sr = CMSocketOk \<and> s1 = s"
  by (auto simp: SocketCheckReadBuffer_def split: list.splits rx.splits)

lemma recv_pending:
  assumes "sock_recv n s = (r, s')" "pending (sk_rx s) \<noteq> []" "0 < n"
  shows "\<exists>d. r = Received d \<and> d \<noteq> [] \<and> length d \<le> n \<and> pending (sk_rx s) = d @ pending (sk_rx s') \<and>
    sk_tx s' = sk_tx s \<and> sk_out s' = sk_out s \<and> sk_open s' = sk_open s"
  using assms
  by (auto simp: sock_recv_def split: list.splits rx.splits if_splits)

lemma recv_same: "sock_recv n s = (r, s') \<Longrightarrow> sk_tx s' = sk_tx s \<and> sk_out s' = sk_out s \<and> sk_open s' = sk_open s"
  by (auto simp: sock_recv_def split: list.splits rx.splits)

lemma check_read_same:
  "SocketCheckReadBuffer s = (r, s') \<Longrightarrow> sk_tx s' = sk_tx s \<and> sk_out s' = sk_out s \<and> sk_open s' = sk_open s"
  by (auto simp: SocketCheckReadBuffer_def split: list.splits rx.splits)

text \<open>\<open>Read\<close> gives bytes of the stream in order, all of them if it succeeds, which it does when they arrive.\<close>

lemma Read_spec:
  assumes "SocketRead n buf s = (sr, buf', s')"
  shows "\<exists>got. buf' = buf @ got \<and> length got \<le> n \<and> (sr = CMSocketOk \<longleftrightarrow> length got = n) \<and>
    (n \<le> length (pending (sk_rx s)) \<longrightarrow> sr = CMSocketOk \<and> pending (sk_rx s) = got @ pending (sk_rx s')) \<and>
    sk_tx s' = sk_tx s \<and> sk_out s' = sk_out s \<and> sk_open s' = sk_open s"
  using assms
proof (induction n buf s arbitrary: sr buf' s' rule: SocketRead.induct)
  case (1 n buf s)
  show ?case
  proof (cases "n = 0")
    case True
    with 1(2) show ?thesis by (simp add: SocketRead.simps [of 0])
  next
    case False
    obtain r1 s1 where c: "SocketCheckReadBuffer s = (r1, s1)" by fastforce
    obtain rc s2 where v: "sock_recv (min n CMUTIL_RBUF_LEN) s1 = (rc, s2)" by fastforce
    show ?thesis
    proof (cases "r1 = CMSocketOk \<and> (\<exists>d. rc = Received d \<and> d \<noteq> [])")
      case True
      then obtain d where d: "r1 = CMSocketOk" "rc = Received d" "d \<noteq> []" by blast
      have l: "length d \<le> n"
        using v d(2) by (auto simp: sock_recv_def split: list.splits rx.splits if_splits)
      from 1(2) c v d False have e: "SocketRead (n - length d) (buf @ d) s2 = (sr, buf', s')"
        by (subst (asm) SocketRead.simps) simp
      obtain got where g: "buf' = (buf @ d) @ got" "length got \<le> n - length d"
        "sr = CMSocketOk \<longleftrightarrow> length got = n - length d"
        "n - length d \<le> length (pending (sk_rx s2)) \<longrightarrow> sr = CMSocketOk \<and> pending (sk_rx s2) = got @ pending (sk_rx s')"
        "sk_tx s' = sk_tx s2" "sk_out s' = sk_out s2" "sk_open s' = sk_open s2"
        using 1(1) [OF False c [symmetric] d(1) v [symmetric] d(2,3) e] by blast
      have same: "sk_tx s2 = sk_tx s" "sk_out s2 = sk_out s" "sk_open s2 = sk_open s"
        using recv_same [OF v] check_read_same [OF c] by simp_all
      have "sr = CMSocketOk \<and> pending (sk_rx s) = (d @ got) @ pending (sk_rx s')"
        if "n \<le> length (pending (sk_rx s))"
      proof -
        have p: "pending (sk_rx s) \<noteq> []" using that False by auto
        then have "s1 = s" using check_read [OF c] by simp
        with recv_pending [OF v] p False d(2) have "pending (sk_rx s) = d @ pending (sk_rx s2)"
          by (auto simp: CMUTIL_RBUF_LEN_def)
        with that g(4) show ?thesis by simp
      qed
      then show ?thesis using g same l by (intro exI [of _ "d @ got"]) auto
    next
      case bad: False
      have r: "sr \<noteq> CMSocketOk \<and> buf' = buf \<and> (s' = s1 \<or> s' = s2)"
        using 1(2) c v bad False
        by (subst (asm) SocketRead.simps) (auto split: sresult.splits recv.splits if_splits)
      have "pending (sk_rx s) = []"
      proof (rule ccontr)
        assume p: "pending (sk_rx s) \<noteq> []"
        then have "r1 = CMSocketOk" "s1 = s" using check_read [OF c] by simp_all
        with recv_pending [OF v] p False bad show False by (auto simp: CMUTIL_RBUF_LEN_def)
      qed
      with r False show ?thesis using recv_same [OF v] check_read_same [OF c]
        by (intro exI [of _ "[]"]) auto
    qed
  qed
qed

lemma ReadByte_pending:
  assumes "pending (sk_rx s) = c # cs"
  shows "\<exists>s'. SocketReadByte s = (code c, s') \<and> pending (sk_rx s') = cs \<and>
    sk_tx s' = sk_tx s \<and> sk_out s' = sk_out s \<and> sk_open s' = sk_open s"
proof -
  obtain r1 s1 where c: "SocketCheckReadBuffer s = (r1, s1)" by fastforce
  with assms have k: "r1 = CMSocketOk" "s1 = s" using check_read by auto
  obtain rc s2 where v: "sock_recv 1 s = (rc, s2)" by fastforce
  then obtain d where d: "rc = Received d" "d \<noteq> []" "length d \<le> 1" "c # cs = d @ pending (sk_rx s2)"
    "sk_tx s2 = sk_tx s" "sk_out s2 = sk_out s" "sk_open s2 = sk_open s"
    using recv_pending [OF v] assms by auto
  then have "d = [c]" "pending (sk_rx s2) = cs" by (cases d; auto)+
  with c k v d show ?thesis by (simp add: SocketReadByte.simps [of s])
qed

text \<open>Without a failure of \<open>poll\<close> or \<open>send\<close> everything is written, whatever pieces the system takes.\<close>

definition sends :: "tx list \<Rightarrow> bool" where
  "sends t \<longleftrightarrow> (\<forall>e \<in> set t. e \<noteq> Tx_Error \<and> e \<noteq> Tx_Timeout \<and> e \<noteq> Tx_Poll)"

lemma WritePart_spec:
  assumes "SocketWritePart d s = (sr, s')"
  shows "\<exists>n \<le> length d. sk_out s' = sk_out s @ take n d \<and> (sr = CMSocketOk \<longrightarrow> n = length d) \<and>
    sk_rx s' = sk_rx s \<and> sk_open s' = sk_open s \<and> (sends (sk_tx s) \<longrightarrow> sr = CMSocketOk \<and> sends (sk_tx s'))"
  using assms
proof (induction d s arbitrary: sr s' rule: SocketWritePart.induct)
  case (1 d s)
  show ?case
  proof (cases "d = []")
    case True
    with 1(3) show ?thesis by (simp add: SocketWritePart.simps [of "[]"])
  next
    case False
    obtain r1 s1 where c: "SocketCheckWriteBuffer s = (r1, s1)" by fastforce
    obtain rc s2 where v: "sock_send d s1 = (rc, s2)" by fastforce
    have c1: "sk_out s1 = sk_out s" "sk_rx s1 = sk_rx s" "sk_open s1 = sk_open s"
      "sends (sk_tx s) \<Longrightarrow> r1 = CMSocketOk \<and> s1 = s"
      using c by (auto simp: SocketCheckWriteBuffer_def sends_def split: list.splits tx.splits)
    have v1: "sk_rx s2 = sk_rx s1" "sk_open s2 = sk_open s1"
      "sends (sk_tx s1) \<Longrightarrow> rc \<noteq> Send_Error \<and> sends (sk_tx s2)"
      "sk_out s2 = sk_out s1 @ (case rc of Sent n \<Rightarrow> take n d | _ \<Rightarrow> [])" "rc = Sent n \<Longrightarrow> n \<le> length d" for n
      using v by (auto simp: sock_send_def sends_def min_def split: list.splits tx.splits)
    show ?thesis
    proof (cases "r1 = CMSocketOk")
      case r1: False
      with 1(3) c False have "sr = r1" "s' = s1"
        by (auto simp: SocketWritePart.simps [of d] split: sresult.splits)
      with c1 r1 show ?thesis by (intro exI [of _ 0]) auto
    next
      case r1: True
      show ?thesis
      proof (cases rc)
        case (Sent n)
        with 1(3) c v False r1 have e: "SocketWritePart (drop n d) s2 = (sr, s')"
          by (simp add: SocketWritePart.simps [of d])
        obtain m where m: "m \<le> length (drop n d)" "sk_out s' = sk_out s2 @ take m (drop n d)"
          "sr = CMSocketOk \<longrightarrow> m = length (drop n d)" "sk_rx s' = sk_rx s2" "sk_open s' = sk_open s2"
          "sends (sk_tx s2) \<longrightarrow> sr = CMSocketOk \<and> sends (sk_tx s')"
          using 1(1) [OF False c [symmetric] r1 v [symmetric] Sent e] by blast
        have "take n d @ take m (drop n d) = take (n + m) d" by (simp add: take_add)
        with m c1 v1 Sent show ?thesis by (intro exI [of _ "n + m"]) auto
      next
        case Send_Block
        with 1(3) c v False r1 have e: "SocketWritePart d s2 = (sr, s')"
          by (simp add: SocketWritePart.simps [of d])
        show ?thesis using 1(2) [OF False c [symmetric] r1 v [symmetric] Send_Block e] c1 v1 Send_Block by auto
      next
        case Send_Error
        with 1(3) c v False r1 have "sr = CMSocketSendFailed" "s' = s2"
          by (simp_all add: SocketWritePart.simps [of d])
        with c1 v1 Send_Error show ?thesis by (intro exI [of _ 0]) auto
      qed
    qed
  qed
qed


section \<open>The interface of a socket\<close>

text \<open>The method table that a socket carries, so that a client does not know which kind it has.\<close>

record 's sock_ops =
  so_Read :: "nat \<Rightarrow> string \<Rightarrow> 's \<Rightarrow> sresult \<times> string \<times> 's"
  so_Write :: "string \<Rightarrow> 's \<Rightarrow> sresult \<times> 's"
  so_ReadByte :: "'s \<Rightarrow> int \<times> 's"
  so_CheckReadBuffer :: "'s \<Rightarrow> sresult \<times> 's"
  so_Close :: "'s \<Rightarrow> 's"

definition g_cmutil_socket :: "socket sock_ops" where
  "g_cmutil_socket =
     \<lparr>so_Read = SocketRead, so_Write = SocketWrite, so_ReadByte = SocketReadByte,
      so_CheckReadBuffer = SocketCheckReadBuffer, so_Close = SocketClose\<rparr>"

text \<open>
  What a client relies on: \<open>content\<close> is read in order, \<open>out\<close> is what was written, and on a socket that is
  \<open>ready\<close> a write succeeds. Reading does not write, writing does not read.
\<close>

locale byte_stream =
  fixes ops :: "'s sock_ops" and content :: "'s \<Rightarrow> string" and out :: "'s \<Rightarrow> string" and ready :: "'s \<Rightarrow> bool"
  assumes ReadByte_next: "content s = c # cs \<Longrightarrow>
      \<exists>s'. so_ReadByte ops s = (code c, s') \<and> content s' = cs \<and> out s' = out s \<and> ready s' = ready s"
    and Read_next: "n \<le> length (content s) \<Longrightarrow>
      \<exists>s'. so_Read ops n buf s = (CMSocketOk, buf @ take n (content s), s') \<and> content s' = drop n (content s) \<and>
        out s' = out s \<and> ready s' = ready s"
    and Write_all: "ready s \<Longrightarrow>
      \<exists>s'. so_Write ops d s = (CMSocketOk, s') \<and> content s' = content s \<and> out s' = out s @ d \<and> ready s'"

interpretation ps: byte_stream g_cmutil_socket "\<lambda>s. pending (sk_rx s)" sk_out "\<lambda>s. sends (sk_tx s)"
proof
  fix s :: socket and c cs n buf d
  show "pending (sk_rx s) = c # cs \<Longrightarrow> \<exists>s'. so_ReadByte g_cmutil_socket s = (code c, s') \<and>
      pending (sk_rx s') = cs \<and> sk_out s' = sk_out s \<and> sends (sk_tx s') = sends (sk_tx s)"
    using ReadByte_pending [of s c cs] by (auto simp: g_cmutil_socket_def)
  show "n \<le> length (pending (sk_rx s)) \<Longrightarrow>
      \<exists>s'. so_Read g_cmutil_socket n buf s = (CMSocketOk, buf @ take n (pending (sk_rx s)), s') \<and>
        pending (sk_rx s') = drop n (pending (sk_rx s)) \<and> sk_out s' = sk_out s \<and> sends (sk_tx s') = sends (sk_tx s)"
    using Read_spec [of n buf s]
    by (cases "SocketRead n buf s") (fastforce simp: g_cmutil_socket_def)
  show "sends (sk_tx s) \<Longrightarrow> \<exists>s'. so_Write g_cmutil_socket d s = (CMSocketOk, s') \<and>
      pending (sk_rx s') = pending (sk_rx s) \<and> sk_out s' = sk_out s @ d \<and> sends (sk_tx s')"
    using WritePart_spec [of d s]
    by (cases "SocketWritePart d s") (auto simp: g_cmutil_socket_def SocketWrite_def)
qed

section \<open>Streams that end\<close>

text \<open>Data and then the peer's shutdown.\<close>

fun closing :: "rx list \<Rightarrow> bool" where
  "closing (Rx_Data d # r) = (d \<noteq> [] \<and> closing r)"
| "closing [Rx_Closed] = True"
| "closing _ = False"

locale byte_stream_end = byte_stream ops content out ready
  for ops :: "'s sock_ops" and content :: "'s \<Rightarrow> string" and out :: "'s \<Rightarrow> string" and ready :: "'s \<Rightarrow> bool" +
  assumes ReadByte_end: "ready s \<Longrightarrow> content s = [] \<Longrightarrow> \<exists>s'. so_ReadByte ops s = (- 1, s')"
    and Read_end: "ready s \<Longrightarrow> length (content s) < n \<Longrightarrow> \<exists>sr b s'. so_Read ops n buf s = (sr, b, s') \<and> sr \<noteq> CMSocketOk"

lemma pending_Nil: "pending r \<noteq> [] \<Longrightarrow> \<exists>d r'. r = Rx_Data d # r' \<and> d \<noteq> []"
  by (cases r rule: pending.cases) (auto split: if_splits)

lemma recv_closing:
  assumes "sock_recv n s = (rc, s')" "pending (sk_rx s) \<noteq> []"
  shows "closing (sk_rx s') = closing (sk_rx s)"
  using pending_Nil [OF assms(2)] assms(1) by (auto simp: sock_recv_def split: if_splits)

lemma ReadByte_closing:
  assumes "pending (sk_rx s) \<noteq> []" "SocketReadByte s = (b, s')"
  shows "closing (sk_rx s') = closing (sk_rx s)"
proof -
  obtain rc s2 where v: "sock_recv 1 s = (rc, s2)" by fastforce
  moreover obtain d where "rc = Received d" "d \<noteq> []" using recv_pending [OF v assms(1)] by auto
  moreover have "SocketCheckReadBuffer s = (CMSocketOk, s)"
    using check_read [of s] assms(1) by (cases "SocketCheckReadBuffer s") auto
  ultimately have "s' = s2" using assms(2) by (subst (asm) SocketReadByte.simps) simp
  with recv_closing [OF v assms(1)] show ?thesis by simp
qed

lemma Read_closing:
  assumes "SocketRead n buf s = (sr, b, s')"
  shows "(n \<le> length (pending (sk_rx s)) \<longrightarrow> closing (sk_rx s') = closing (sk_rx s)) \<and>
    (closing (sk_rx s) \<and> length (pending (sk_rx s)) < n \<longrightarrow> sr \<noteq> CMSocketOk)"
  using assms
proof (induction n buf s arbitrary: sr b s' rule: SocketRead.induct)
  case (1 n buf s)
  show ?case
  proof (cases "n = 0 \<or> pending (sk_rx s) = []")
    case True
    then consider "n = 0" | "n \<noteq> 0" "pending (sk_rx s) = []" by blast
    then show ?thesis
    proof cases
      case 2
      have "closing (sk_rx s) \<Longrightarrow> sk_rx s = [Rx_Closed]" using 2(2) by (cases "sk_rx s" rule: closing.cases) auto
      with 1(2) 2 show ?thesis
        by (subst (asm) SocketRead.simps) (auto simp: SocketCheckReadBuffer_def sock_recv_def)
    qed (use 1(2) in \<open>auto simp: SocketRead.simps [of 0]\<close>)
  next
    case False
    then have n: "n \<noteq> 0" and p: "pending (sk_rx s) \<noteq> []" by auto
    have c: "SocketCheckReadBuffer s = (CMSocketOk, s)"
      using check_read [of s] p by (cases "SocketCheckReadBuffer s") auto
    obtain rc s2 where v: "sock_recv (min n CMUTIL_RBUF_LEN) s = (rc, s2)" by fastforce
    obtain d where d: "rc = Received d" "d \<noteq> []" "length d \<le> n" "pending (sk_rx s) = d @ pending (sk_rx s2)"
      using recv_pending [OF v p] n by (auto simp: CMUTIL_RBUF_LEN_def)
    from 1(2) c v n d have e: "SocketRead (n - length d) (buf @ d) s2 = (sr, b, s')"
      by (subst (asm) SocketRead.simps) simp
    from 1(1) [OF n c [symmetric] refl v [symmetric] d(1,2) e] recv_closing [OF v p] d show ?thesis by auto
  qed
qed

interpretation cs: byte_stream_end g_cmutil_socket "\<lambda>s. pending (sk_rx s)" sk_out "\<lambda>s. sends (sk_tx s) \<and> closing (sk_rx s)"
proof
  fix s :: socket and c cs n buf d
  show "pending (sk_rx s) = c # cs \<Longrightarrow> \<exists>s'. so_ReadByte g_cmutil_socket s = (code c, s') \<and>
      pending (sk_rx s') = cs \<and> sk_out s' = sk_out s \<and>
      (sends (sk_tx s') \<and> closing (sk_rx s')) = (sends (sk_tx s) \<and> closing (sk_rx s))"
    using ps.ReadByte_next [of s c cs] ReadByte_closing [of s "code c"] by (auto simp: g_cmutil_socket_def)
  show "n \<le> length (pending (sk_rx s)) \<Longrightarrow>
      \<exists>s'. so_Read g_cmutil_socket n buf s = (CMSocketOk, buf @ take n (pending (sk_rx s)), s') \<and>
        pending (sk_rx s') = drop n (pending (sk_rx s)) \<and> sk_out s' = sk_out s \<and>
        (sends (sk_tx s') \<and> closing (sk_rx s')) = (sends (sk_tx s) \<and> closing (sk_rx s))"
    using ps.Read_next [of n s buf] Read_closing [of n buf s] by (auto simp: g_cmutil_socket_def)
  show "sends (sk_tx s) \<and> closing (sk_rx s) \<Longrightarrow> \<exists>s'. so_Write g_cmutil_socket d s = (CMSocketOk, s') \<and>
      pending (sk_rx s') = pending (sk_rx s) \<and> sk_out s' = sk_out s @ d \<and> sends (sk_tx s') \<and> closing (sk_rx s')"
    using ps.Write_all [of s d] WritePart_spec [of d s] by (fastforce simp: g_cmutil_socket_def SocketWrite_def)
  show "sends (sk_tx s) \<and> closing (sk_rx s) \<Longrightarrow> pending (sk_rx s) = [] \<Longrightarrow>
      \<exists>s'. so_ReadByte g_cmutil_socket s = (- 1, s')"
    by (cases "sk_rx s" rule: closing.cases)
      (auto simp: g_cmutil_socket_def SocketReadByte.simps [of s] SocketCheckReadBuffer_def sock_recv_def)
  show "sends (sk_tx s) \<and> closing (sk_rx s) \<Longrightarrow> length (pending (sk_rx s)) < n \<Longrightarrow>
      \<exists>sr b s'. so_Read g_cmutil_socket n buf s = (sr, b, s') \<and> sr \<noteq> CMSocketOk"
    using Read_closing [of n buf s] by (cases "SocketRead n buf s") (auto simp: g_cmutil_socket_def)
qed

section \<open>Properties\<close>

lemma pending_map_Data: "[] \<notin> set ds \<Longrightarrow> pending (map Rx_Data ds) = concat ds"
  by (induction ds) auto

text \<open>
  C15: What is written to a socket arrives: the writer's data is taken by the system in any pieces, with any number
  of calls that would block, it arrives in any other pieces, and the reader, asking for as many bytes, gets
  exactly the data. A write that fails has sent a prefix of its data, a read that fails got fewer bytes
  than it asked for.
\<close>

theorem socket_roundtrip:
  assumes "sends (sk_tx s)" "SocketWrite d s = (sr, s')"
    and "sk_out s' = sk_out s @ concat ds" "[] \<notin> set ds" "sk_rx r = map Rx_Data ds"
    and "SocketWrite e t = (sr2, t')" "SocketRead n [] u = (sr3, got, u')"
  shows "sr = CMSocketOk \<and> (\<exists>r'. SocketRead (length d) [] r = (CMSocketOk, d, r') \<and> pending (sk_rx r') = []) \<and>
    (\<exists>k \<le> length e. sk_out t' = sk_out t @ take k e \<and> (sr2 = CMSocketOk \<longrightarrow> k = length e)) \<and>
    length got \<le> n \<and> (sr3 = CMSocketOk \<longleftrightarrow> length got = n)"
proof -
  have w: "sr = CMSocketOk" "sk_out s' = sk_out s @ d"
    using WritePart_spec [of d s sr s'] assms(1,2) by (auto simp: SocketWrite_def)
  then have d: "pending (sk_rx r) = d"
    using assms(3-5) by (simp add: pending_map_Data)
  obtain sr' b r' where rd: "SocketRead (length d) [] r = (sr', b, r')" by (cases "SocketRead (length d) [] r")
  obtain g where g: "b = [] @ g" "sr' = CMSocketOk \<longleftrightarrow> length g = length d"
    "length d \<le> length (pending (sk_rx r)) \<longrightarrow> sr' = CMSocketOk \<and> pending (sk_rx r) = g @ pending (sk_rx r')"
    using Read_spec [OF rd] by blast
  have g3: "sr' = CMSocketOk" "length g = length d" "d = g @ pending (sk_rx r')"
    using g(2,3) unfolding d by blast+
  have "pending (sk_rx r') = []" using g3(2) arg_cong [OF g3(3), of length] by simp
  moreover from this have "b = d" using g(1) g3(3) by simp
  ultimately have 1: "\<exists>r'. SocketRead (length d) [] r = (CMSocketOk, d, r') \<and> pending (sk_rx r') = []"
    using rd g3(1) by blast
  have 2: "\<exists>k \<le> length e. sk_out t' = sk_out t @ take k e \<and> (sr2 = CMSocketOk \<longrightarrow> k = length e)"
    using WritePart_spec [of e t sr2 t'] assms(6) by (auto simp: SocketWrite_def)
  have 3: "length got \<le> n \<and> (sr3 = CMSocketOk \<longleftrightarrow> length got = n)"
    using Read_spec [OF assms(7)] by auto
  from w 1 2 3 show ?thesis by blast
qed

theorem socket_roundtrip_witness:
  "\<exists>r'. SocketRead 5 [] \<lparr>sk_rx = [Rx_Data ''hel'', Rx_Data ''lo''], sk_tx = [], sk_out = [], sk_open = True\<rparr>
    = (CMSocketOk, ''hello'', r')"
proof -
  let ?s = "\<lparr>sk_rx = [], sk_tx = [Tx_Take 1, Tx_Block, Tx_Take 2], sk_out = [], sk_open = True\<rparr>"
  obtain sr s' where w: "SocketWrite ''hello'' ?s = (sr, s')" by fastforce
  have t: "sends (sk_tx ?s)" by (simp add: sends_def)
  have o: "sk_out s' = sk_out ?s @ concat [''hel'', ''lo'']"
    using WritePart_spec [of "''hello''" ?s sr s'] w t by (auto simp: SocketWrite_def)
  obtain sr3 got u' where rd: "SocketRead 0 [] ?s = (sr3, got, u')" by (cases "SocketRead 0 [] ?s")
  from socket_roundtrip [OF t w o _ _ w rd, of
      "\<lparr>sk_rx = [Rx_Data ''hel'', Rx_Data ''lo''], sk_tx = [], sk_out = [], sk_open = True\<rparr>"]
  show ?thesis by (auto simp: eval_nat_numeral)
qed

text \<open>
  \<open>ReadByte\<close> and \<open>Write\<close> go on after \<open>EWOULDBLOCK\<close>; \<open>Read\<close> gives up.
\<close>

lemma socket_read_block:
  "fst (SocketRead 1 [] \<lparr>sk_rx = [Rx_Block, Rx_Data ''a''], sk_tx = [], sk_out = [], sk_open = True\<rparr>) = CMSocketReceiveFailed \<and>
   fst (SocketReadByte \<lparr>sk_rx = [Rx_Block, Rx_Data ''a''], sk_tx = [], sk_out = [], sk_open = True\<rparr>) = code (CHR ''a'')"
  by (simp add: SocketRead.simps SocketReadByte.simps SocketCheckReadBuffer_def sock_recv_def CMUTIL_RBUF_LEN_def)

end
