(* ===== verification/Cmu_Http.thy ===== *)
theory Cmu_Http
  imports Cmu_Socket Cmu_Pool Cmu_Text Cmu_JsonRound Cmu_Config Cmu_Sync
begin

text \<open>
  \<open>src/src/http.c\<close>: the HTTP client over any socket, the pool of kept connections and the REST client. A
  socket is known by its table of operations and a state \<open>'s\<close>; \<open>'s http_net\<close> is the state of every socket and the
  clock in seconds. The pools are those of \<open>Cmu_Pool\<close>, the map of pools the association list it stands
  for, a header map the list of its pairs. Connecting is an argument: it answers the number of a socket or
  NULL. A \<open>ByteBuffer\<close> is its bytes; memory is granted. \<open>None\<close> is a call that does not return.
\<close>

section \<open>Lines\<close>

abbreviation CR :: char where "CR \<equiv> CHR 0x0D"
abbreviation LF :: char where "LF \<equiv> CHR 0x0A"
abbreviation SP :: char where "SP \<equiv> CHR '' ''"

partial_function (option) read_line_loop ::
    "'s sock_ops \<Rightarrow> nat \<Rightarrow> string \<Rightarrow> 's \<Rightarrow> (bool \<times> string \<times> 's) option" where
  "read_line_loop ops len buf s =
     (if length buf < len - 1 then
        (case so_ReadByte ops s of
           (b, s1) \<Rightarrow>
             if - 1 < b then
               if b = 10 then Some (True, buf, s1)
               else read_line_loop ops len (if b \<noteq> 13 then buf @ [char_of b] else buf) s1
             else Some (False, buf, s1))
      else Some (False, buf, s))"

text \<open>Success, the line as the C string left in the buffer, and the socket.\<close>

definition HttpClientReadLine :: "'s sock_ops \<Rightarrow> nat \<Rightarrow> 's \<Rightarrow> (bool \<times> string \<times> 's) option" where
  "HttpClientReadLine ops len s =
     map_option (\<lambda>(ok, buf, s1). (ok, cstr buf, s1)) (read_line_loop ops len [] s)"

definition HttpClientLineValue :: "string \<Rightarrow> string \<Rightarrow> string ptr" where
  "HttpClientLineValue buf header =
     (let hlen = length (takeWhile (\<lambda>c. c \<noteq> CHR '':'') buf)
      in if CHR '':'' \<notin> set buf then NULL
         else if hlen \<ge> 128 then NULL
         else if strcaseeq (trimmed (take hlen buf)) header then Some (trimmed (drop (hlen + 1) buf))
         else NULL)"

definition HttpClientWriteLine :: "'s sock_ops \<Rightarrow> string ptr \<Rightarrow> 's \<Rightarrow> sresult \<times> 's" where
  "HttpClientWriteLine ops line s =
     (case (case line of
              Some l \<Rightarrow> if l \<noteq> [] then so_Write ops l s else (CMSocketOk, s)
            | NULL \<Rightarrow> (CMSocketOk, s)) of
        (sr, s1) \<Rightarrow> if sr = CMSocketOk then so_Write ops [CR, LF] s1 else (sr, s1))"

section \<open>Clients\<close>

definition CMUTIL_HTTP_MAX_BODY :: int where "CMUTIL_HTTP_MAX_BODY = 1024 * 1024 * 1024"
definition CMUTIL_HTTP_HOST_MAX :: nat where "CMUTIL_HTTP_HOST_MAX = 256"
definition CMUTIL_HTTP_POOLKEY_MAX :: nat where "CMUTIL_HTTP_POOLKEY_MAX = CMUTIL_HTTP_HOST_MAX + 16"
definition PATH_MAX :: nat where "PATH_MAX = 4096"

record http_client =
  hc_host :: string
  hc_port :: int
  hc_ishttps :: bool
  hc_verifypeer :: bool
  hc_verifyhost :: bool
  hc_keepalive :: bool
  hc_cafile :: string
  hc_keyfile :: string
  hc_certfile :: string

definition HttpClientSetVerify :: "bool \<Rightarrow> bool \<Rightarrow> http_client \<Rightarrow> http_client" where
  "HttpClientSetVerify verify_host verify_peer ih = ih\<lparr>hc_verifyhost := verify_host, hc_verifypeer := verify_peer\<rparr>"

definition too_long :: "string ptr \<Rightarrow> bool" where
  "too_long f = (case f of NULL \<Rightarrow> False | Some x \<Rightarrow> PATH_MAX \<le> length x)"

definition or_empty :: "string ptr \<Rightarrow> string" where
  "or_empty f = (case f of NULL \<Rightarrow> [] | Some x \<Rightarrow> x)"

definition HttpClientSetSSLCert ::
    "string ptr \<Rightarrow> string ptr \<Rightarrow> string ptr \<Rightarrow> http_client \<Rightarrow> bool \<times> http_client" where
  "HttpClientSetSSLCert certfile keyfile cafile ih =
     (if too_long certfile \<or> too_long keyfile \<or> too_long cafile then (False, ih)
      else (True, ih\<lparr>hc_certfile := or_empty certfile, hc_keyfile := or_empty keyfile, hc_cafile := or_empty cafile\<rparr>))"

definition HttpClientSetKeepAlive :: "bool \<Rightarrow> http_client \<Rightarrow> http_client" where
  "HttpClientSetKeepAlive keepalive ih = ih\<lparr>hc_keepalive := keepalive\<rparr>"

text \<open>The bytes before the first \<open>c\<close>, and what \<open>strchr\<close> finds: the rest from there.\<close>

definition upto_char :: "char \<Rightarrow> string \<Rightarrow> string" where
  "upto_char c s = takeWhile (\<lambda>x. x \<noteq> c) s"

definition from_char :: "char \<Rightarrow> string \<Rightarrow> string ptr" where
  "from_char c s = (if c \<in> set s then Some (dropWhile (\<lambda>x. x \<noteq> c) s) else NULL)"

definition HttpClientParseUrl :: "http_client \<Rightarrow> string \<Rightarrow> bool \<times> http_client" where
  "HttpClientParseUrl ih url =
     (case from_char (CHR '':'') url of
        NULL \<Rightarrow> (False, ih)
      | Some p0 \<Rightarrow>
          if take 3 p0 \<noteq> ''://'' then (False, ih)
          else
            (let ih1 = ih\<lparr>hc_ishttps := (upto_char (CHR '':'') url = ''https'')\<rparr>; p = drop 3 p0
             in case from_char (CHR '':'') p of
                  Some q0 \<Rightarrow>
                    (let host = upto_char (CHR '':'') p; q = tl q0; buf = upto_char (CHR ''/'') q
                     in if host = [] \<or> length host \<ge> CMUTIL_HTTP_HOST_MAX then (False, ih1)
                        else
                          (let ih2 = ih1\<lparr>hc_host := host\<rparr>
                           in if buf = [] \<or> length buf \<ge> 256 then (False, ih2)
                              else
                                (let ih3 = ih2\<lparr>hc_port := to_int (fst (strtoll buf))\<rparr>
                                 in (0 < hc_port ih3 \<and> hc_port ih3 \<le> 65535, ih3))))
                | NULL \<Rightarrow>
                    (let host = upto_char (CHR ''/'') p
                     in if host = [] \<or> length host \<ge> CMUTIL_HTTP_HOST_MAX then (False, ih1)
                        else (True, ih1\<lparr>hc_host := host, hc_port := (if hc_ishttps ih1 then 443 else 80)\<rparr>))))"

definition HttpClientCreateInternal :: "string \<Rightarrow> http_client ptr" where
  "HttpClientCreateInternal urlprefix =
     (case HttpClientParseUrl
             \<lparr>hc_host = [], hc_port = 0, hc_ishttps = False, hc_verifypeer = False, hc_verifyhost = False,
              hc_keepalive = True, hc_cafile = [], hc_keyfile = [], hc_certfile = []\<rparr> urlprefix of
        (False, _) \<Rightarrow> NULL
      | (True, ih) \<Rightarrow> Some (ih\<lparr>hc_verifyhost := True, hc_verifypeer := False\<rparr>))"

section \<open>Writing a request\<close>

text \<open>\<open>snprintf\<close> into the buffer of 4096 bytes.\<close>

definition fmt4096 :: "string \<Rightarrow> string" where
  "fmt4096 s = take 4095 s"

definition sends_body :: "string \<Rightarrow> bool" where
  "sends_body verb \<longleftrightarrow> strcaseeq verb ''POST'' \<or> strcaseeq verb ''PUT''"

text \<open>The lines of the request's head.\<close>

definition request_lines ::
    "http_client \<Rightarrow> string \<Rightarrow> (string \<times> string) list \<Rightarrow> string \<Rightarrow> string ptr \<Rightarrow> string list" where
  "request_lines ih verb headers uri body =
     [fmt4096 (verb @ '' '' @ uri @ '' HTTP/1.1'')] @
     map (\<lambda>(k, v). fmt4096 (k @ '': '' @ v)) headers @
     (if \<exists>(k, v) \<in> set headers. strcaseeq ''Host'' k then []
      else [fmt4096 (''Host: '' @ hc_host ih @ '':'' @ dec (hc_port ih))]) @
     [if hc_keepalive ih then ''Connection: keep-alive'' else ''Connection: close''] @
     (case body of
        Some b \<Rightarrow>
          if sends_body verb \<and> \<not> (\<exists>(k, v) \<in> set headers. strcaseeq ''Content-Length'' k)
          then [''Content-Length: '' @ dec (int (length b))] else []
      | NULL \<Rightarrow> [])"

fun write_lines :: "'s sock_ops \<Rightarrow> string list \<Rightarrow> 's \<Rightarrow> sresult \<times> 's" where
  "write_lines ops [] s = (CMSocketOk, s)"
| "write_lines ops (l # ls) s =
     (case HttpClientWriteLine ops (Some l) s of
        (sr, s1) \<Rightarrow> if sr = CMSocketOk then write_lines ops ls s1 else (sr, s1))"

definition write_request ::
    "'s sock_ops \<Rightarrow> http_client \<Rightarrow> string \<Rightarrow> (string \<times> string) list \<Rightarrow> string \<Rightarrow> string ptr \<Rightarrow> 's \<Rightarrow> sresult \<times> 's" where
  "write_request ops ih verb headers uri body s =
     (case write_lines ops (request_lines ih verb headers uri body) s of
        (sr, s1) \<Rightarrow>
          if sr \<noteq> CMSocketOk then (sr, s1)
          else
            (case HttpClientWriteLine ops NULL s1 of
               (sr, s2) \<Rightarrow>
                 if sr \<noteq> CMSocketOk then (sr, s2)
                 else
                   (case body of
                      Some b \<Rightarrow> if sends_body verb then so_Write ops (take (length b mod 2 ^ 32) b) s2
                                else (CMSocketOk, s2)
                    | NULL \<Rightarrow> (CMSocketOk, s2))))"


section \<open>Reading a response\<close>

text \<open>The status line: whether the connection can be kept, and the status.\<close>

definition http_status_line :: "bool \<Rightarrow> string \<Rightarrow> (bool \<times> int) option" where
  "http_status_line keepalive buf =
     (case from_char SP buf of
        NULL \<Rightarrow> None
      | Some p \<Rightarrow> Some (keepalive \<and> upto_char SP buf = ''HTTP/1.1'', to_int (fst (strtoll (upto_char SP (tl p))))))"

record http_head =
  hh_len :: nat
  hh_transfer :: string
  hh_keepalive :: bool

text \<open>A header line; \<open>None\<close> is a \<open>Content-Length\<close> that is refused. \<open>asked\<close> is the client's own setting.\<close>

definition http_header :: "bool \<Rightarrow> string \<Rightarrow> http_head \<Rightarrow> http_head option" where
  "http_header asked buf h =
     (case HttpClientLineValue buf ''Connection'' of
        Some p \<Rightarrow>
          Some (if strcaseeq p ''close'' then h\<lparr>hh_keepalive := False\<rparr>
                else if strcaseeq p ''keep-alive'' then h\<lparr>hh_keepalive := asked\<rparr> else h)
      | NULL \<Rightarrow>
          (case HttpClientLineValue buf ''Content-Length'' of
             Some p \<Rightarrow>
               (case strtoll p of
                  (clen, used) \<Rightarrow>
                    if used = 0 \<or> clen < 0 \<or> clen > CMUTIL_HTTP_MAX_BODY then None
                    else Some (h\<lparr>hh_len := nat clen\<rparr>))
           | NULL \<Rightarrow>
               (case HttpClientLineValue buf ''Transfer-Encoding'' of
                  Some p \<Rightarrow> Some (h\<lparr>hh_transfer := take 1023 p\<rparr>)
                | NULL \<Rightarrow> Some h)))"

text \<open>The headers up to the empty line; \<open>None\<close> inside is a failure.\<close>

partial_function (option) http_headers ::
    "'s sock_ops \<Rightarrow> bool \<Rightarrow> http_head \<Rightarrow> 's \<Rightarrow> (http_head option \<times> 's) option" where
  "http_headers ops asked h s =
     Option.bind (HttpClientReadLine ops 4096 s)
       (\<lambda>(ok, buf, s1).
          if buf = [] then Some (Some h, s1)
          else if \<not> ok then Some (None, s1)
          else
            (case http_header asked buf h of
               None \<Rightarrow> Some (None, s1)
             | Some h1 \<Rightarrow> http_headers ops asked h1 s1))"

text \<open>\<open>strtol(s, &end, 16)\<close>.\<close>

definition isxdigit :: "char \<Rightarrow> bool" where
  "isxdigit c \<longleftrightarrow> isdigit c \<or> (65 \<le> code c \<and> code c \<le> 70) \<or> (97 \<le> code c \<and> code c \<le> 102)"

definition xdigit :: "char \<Rightarrow> int" where
  "xdigit c = (if isdigit c then code c - 48 else if code c \<le> 70 then code c - 55 else code c - 87)"

definition xnum :: "string \<Rightarrow> int" where
  "xnum ds = foldl (\<lambda>n c. n * 16 + xdigit c) 0 ds"

definition strtol16 :: "string \<Rightarrow> int \<times> nat" where
  "strtol16 s =
     (let r = dropWhile isspace s;
          neg = (r \<noteq> [] \<and> hd r = CHR ''-'');
          r1 = (if r \<noteq> [] \<and> (hd r = CHR ''-'' \<or> hd r = CHR ''+'') then tl r else r);
          r2 = (if (take 2 r1 = ''0x'' \<or> take 2 r1 = ''0X'') \<and> takeWhile isxdigit (drop 2 r1) \<noteq> [] then drop 2 r1 else r1);
          ds = takeWhile isxdigit r2;
          v = (if neg then - xnum ds else xnum ds)
      in if ds = [] then (0, 0)
         else (max LLONG_MIN (min LLONG_MAX v), length s - length (dropWhile isxdigit r2)))"

text \<open>The body in chunks; a failed read of a line ends the loop like the last chunk does.\<close>

partial_function (option) http_chunks :: "'s sock_ops \<Rightarrow> string \<Rightarrow> 's \<Rightarrow> (string option \<times> 's) option" where
  "http_chunks ops res s =
     Option.bind (HttpClientReadLine ops 4096 s)
       (\<lambda>(ok, buf, s1).
          if \<not> ok \<or> buf = [] then Some (Some res, s1)
          else
            (case strtol16 buf of
               (clen, used) \<Rightarrow>
                 if used = 0 \<or> clen < 0 \<or> clen > CMUTIL_HTTP_MAX_BODY then Some (None, s1)
                 else if clen = 0 then
                   map_option (\<lambda>(ok, buf, s2). (Some res, s2)) (HttpClientReadLine ops 4096 s1)
                 else
                   (case so_Read ops (nat clen) res s1 of
                      (sr, res1, s2) \<Rightarrow>
                        if sr \<noteq> CMSocketOk then Some (None, s2)
                        else
                          Option.bind (HttpClientReadLine ops 4096 s2)
                            (\<lambda>(ok, buf, s3). http_chunks ops res1 s3))))"

definition http_body :: "'s sock_ops \<Rightarrow> http_head \<Rightarrow> 's \<Rightarrow> (string option \<times> 's) option" where
  "http_body ops h s =
     (if 0 < hh_len h then
        (case so_Read ops (hh_len h) [] s of
           (sr, res, s1) \<Rightarrow> Some (if sr = CMSocketOk then Some res else None, s1))
      else if strstr (hh_transfer h) ''chunked'' \<noteq> None then http_chunks ops [] s
      else Some (Some [], s))"

text \<open>What \<open>Request\<close> got: the status if there was one, the body unless it failed, whether to keep the connection.\<close>

record http_result =
  hr_status :: "int option"
  hr_body :: "string option"
  hr_keepalive :: bool

definition http_response :: "'s sock_ops \<Rightarrow> bool \<Rightarrow> 's \<Rightarrow> (http_result \<times> 's) option" where
  "http_response ops asked s =
     Option.bind (HttpClientReadLine ops 4096 s)
       (\<lambda>(ok, buf, s1).
          case (if ok then http_status_line asked buf else None) of
            None \<Rightarrow> Some (\<lparr>hr_status = None, hr_body = None, hr_keepalive = asked\<rparr>, s1)
          | Some (keep, st) \<Rightarrow>
              Option.bind (http_headers ops asked \<lparr>hh_len = 0, hh_transfer = [], hh_keepalive = keep\<rparr> s1)
                (\<lambda>(head, s2).
                   case head of
                     None \<Rightarrow> Some (\<lparr>hr_status = Some st, hr_body = None, hr_keepalive = keep\<rparr>, s2)
                   | Some h \<Rightarrow>
                       map_option (\<lambda>(res, s3). (\<lparr>hr_status = Some st, hr_body = res, hr_keepalive = hh_keepalive h\<rparr>, s3))
                         (http_body ops h s2)))"

definition http_exchange ::
    "'s sock_ops \<Rightarrow> http_client \<Rightarrow> string \<Rightarrow> (string \<times> string) list \<Rightarrow> string \<Rightarrow> string ptr \<Rightarrow> 's \<Rightarrow>
     (http_result \<times> 's) option" where
  "http_exchange ops ih verb headers uri body s =
     (case write_request ops ih verb headers uri body s of
        (sr, s1) \<Rightarrow>
          if sr = CMSocketOk then http_response ops (hc_keepalive ih) s1
          else Some (\<lparr>hr_status = None, hr_body = None, hr_keepalive = hc_keepalive ih\<rparr>, s1))"

section \<open>The pools of connections\<close>

text \<open>A kept connection; its socket is NULL once it was taken out.\<close>

record pool_elem =
  el_last_used :: int
  el_host :: string
  el_port :: int
  el_sock :: "nat ptr"

record 's http_net =
  hn_sock :: "nat \<Rightarrow> 's"
  hn_now :: int

type_synonym 's http_ctx = "(string \<times> (pool_elem, 's http_net) pool) list \<times> 's http_net"

definition close_socket :: "'s sock_ops \<Rightarrow> nat \<Rightarrow> 's http_net \<Rightarrow> 's http_net" where
  "close_socket ops i net = net\<lparr>hn_sock := (hn_sock net)(i := so_Close ops (hn_sock net i))\<rparr>"

definition SocketPoolElemCreate :: "nat \<Rightarrow> string \<Rightarrow> int \<Rightarrow> 's http_net \<Rightarrow> pool_elem" where
  "SocketPoolElemCreate sock host port net =
     \<lparr>el_last_used = hn_now net, el_host = take (CMUTIL_HTTP_HOST_MAX - 1) host, el_port = port, el_sock = Some sock\<rparr>"

definition SocketPoolDestroy :: "'s sock_ops \<Rightarrow> pool_elem \<Rightarrow> 's http_net \<Rightarrow> 's http_net" where
  "SocketPoolDestroy ops e net = (case el_sock e of NULL \<Rightarrow> net | Some i \<Rightarrow> close_socket ops i net)"

definition SocketPoolTest :: "'s sock_ops \<Rightarrow> pool_elem \<Rightarrow> 's http_net \<Rightarrow> bool \<times> 's http_net" where
  "SocketPoolTest ops e net =
     (if hn_now net - el_last_used e > 30 then (False, net)
      else
        (case el_sock e of
           NULL \<Rightarrow> (True, net)
         | Some i \<Rightarrow>
             (case so_CheckReadBuffer ops (hn_sock net i) of
                (sr, s1) \<Rightarrow> (sr = CMSocketTimeout, net\<lparr>hn_sock := (hn_sock net)(i := s1)\<rparr>))))"

definition pool_key :: "string \<Rightarrow> int \<Rightarrow> string" where
  "pool_key host port = take (CMUTIL_HTTP_POOLKEY_MAX - 1) (host @ '':'' @ dec port)"

definition HttpContextGetSocket :: "string \<Rightarrow> int \<Rightarrow> 's http_ctx \<Rightarrow> nat ptr \<times> 's http_ctx" where
  "HttpContextGetSocket host port ctx =
     (case ctx of
        (pools, net) \<Rightarrow>
          (case map_of pools (pool_key host port) of
             None \<Rightarrow> (NULL, ctx)
           | Some p \<Rightarrow>
               (case PoolCheckOut p net of
                  (NULL, p1, net1) \<Rightarrow> (NULL, al_put (pool_key host port) p1 pools, net1)
                | (Some e, p1, net1) \<Rightarrow> (el_sock e, al_put (pool_key host port) p1 pools, net1))))"

definition new_pool :: "'s sock_ops \<Rightarrow> 's http_net \<Rightarrow> (pool_elem, 's http_net) pool" where
  "new_pool ops net =
     fst (PoolCreateInternal 0 5 None (Some (SocketPoolDestroy ops)) (Some (SocketPoolTest ops)) 1000 False net)"

definition HttpContextPutSocket :: "'s sock_ops \<Rightarrow> string \<Rightarrow> int \<Rightarrow> nat \<Rightarrow> 's http_ctx \<Rightarrow> 's http_ctx" where
  "HttpContextPutSocket ops host port sock ctx =
     (case ctx of
        (pools, net) \<Rightarrow>
          let p = (case map_of pools (pool_key host port) of None \<Rightarrow> new_pool ops net | Some p \<Rightarrow> p)
          in (al_put (pool_key host port) (PoolRelease p (SocketPoolElemCreate sock host port net)) pools, net))"

text \<open>\<open>HttpInit\<close> and \<open>HttpClear\<close>, which closes what is kept.\<close>

definition HttpInit :: "'s http_net \<Rightarrow> 's http_ctx" where
  "HttpInit net = ([], net)"

definition HttpClear :: "'s http_ctx \<Rightarrow> 's http_net" where
  "HttpClear ctx = (case ctx of (pools, net) \<Rightarrow> foldl (\<lambda>n (k, p). PoolDestroy p n) net pools)"

section \<open>Requests\<close>

text \<open>What a new connection is opened with: host and port, for TLS also certificate, key, authority and server name.\<close>

datatype conn_req =
    Conn_Plain string int
  | Conn_SSL "string ptr" "string ptr" "string ptr" "string ptr" string int

definition conn_args :: "http_client \<Rightarrow> conn_req" where
  "conn_args ih =
     (if hc_ishttps ih then
        Conn_SSL (if hc_verifypeer ih then Some (hc_certfile ih) else NULL)
          (if hc_verifypeer ih then Some (hc_keyfile ih) else NULL)
          (if hc_verifyhost ih then Some (hc_cafile ih) else NULL)
          (if hc_verifyhost ih then Some (hc_host ih) else NULL) (hc_host ih) (hc_port ih)
      else Conn_Plain (hc_host ih) (hc_port ih))"

definition HttpClientGetSocket ::
    "(conn_req \<Rightarrow> 's http_net \<Rightarrow> nat ptr \<times> 's http_net) \<Rightarrow> http_client \<Rightarrow> 's http_ctx \<Rightarrow> nat ptr \<times> 's http_ctx" where
  "HttpClientGetSocket connect ih ctx =
     (case HttpContextGetSocket (hc_host ih) (hc_port ih) ctx of
        (Some i, ctx1) \<Rightarrow> (Some i, ctx1)
      | (NULL, (pools, net)) \<Rightarrow> (case connect (conn_args ih) net of (res, net1) \<Rightarrow> (res, (pools, net1))))"

definition HttpClientRequest ::
    "'s sock_ops \<Rightarrow> (conn_req \<Rightarrow> 's http_net \<Rightarrow> nat ptr \<times> 's http_net) \<Rightarrow> http_client \<Rightarrow> string \<Rightarrow>
     (string \<times> string) list \<Rightarrow> string \<Rightarrow> string ptr \<Rightarrow> 's http_ctx \<Rightarrow> (string option \<times> int option \<times> 's http_ctx) option" where
  "HttpClientRequest ops connect ih verb headers uri body ctx =
     (case HttpClientGetSocket connect ih ctx of
        (NULL, ctx1) \<Rightarrow> Some (None, None, ctx1)
      | (Some i, (pools, net)) \<Rightarrow>
          map_option
            (\<lambda>(r, s1).
               let net1 = net\<lparr>hn_sock := (hn_sock net)(i := s1)\<rparr>
               in (hr_body r, hr_status r,
                   if hr_body r \<noteq> None \<and> hr_keepalive r
                   then HttpContextPutSocket ops (hc_host ih) (hc_port ih) i (pools, net1)
                   else (pools, close_socket ops i net1)))
            (http_exchange ops ih verb headers uri body (hn_sock net i)))"

definition HttpClientGet where
  "HttpClientGet ops connect ih headers uri ctx = HttpClientRequest ops connect ih ''GET'' headers uri NULL ctx"

definition HttpClientPost where
  "HttpClientPost ops connect ih headers uri body ctx = HttpClientRequest ops connect ih ''POST'' headers uri body ctx"

section \<open>TLS\<close>

text \<open>How a client session is set up from its arguments: the trust store, the name checked, SNI, an own certificate.\<close>

datatype trust = Trust_CA string | Trust_System | Trust_None

record tls_setup =
  tls_trust :: trust
  tls_sni :: "string option"
  tls_checked_name :: "string option"
  tls_own_cert :: "(string \<times> string) option"

definition given :: "string ptr \<Rightarrow> string option" where
  "given p = (case p of NULL \<Rightarrow> None | Some x \<Rightarrow> if x = [] then None else Some x)"

definition openssl_setup :: "string ptr \<Rightarrow> string ptr \<Rightarrow> string ptr \<Rightarrow> string ptr \<Rightarrow> tls_setup" where
  "openssl_setup cert key ca servername =
     \<lparr>tls_trust = (case given ca of
          Some f \<Rightarrow> Trust_CA f
        | None \<Rightarrow> (case given servername of Some _ \<Rightarrow> Trust_System | None \<Rightarrow> Trust_None)),
      tls_sni = given servername,
      tls_checked_name = (case given servername of
          Some n \<Rightarrow> (case given ca of Some _ \<Rightarrow> Some n | None \<Rightarrow> None) | None \<Rightarrow> None),
      tls_own_cert = (case given cert of
          Some c \<Rightarrow> (case given key of Some k \<Rightarrow> Some (c, k) | None \<Rightarrow> None) | None \<Rightarrow> None)\<rparr>"

definition gnutls_setup :: "string ptr \<Rightarrow> string ptr \<Rightarrow> string ptr \<Rightarrow> string ptr \<Rightarrow> tls_setup" where
  "gnutls_setup cert key ca servername =
     \<lparr>tls_trust = (case given servername of
          Some _ \<Rightarrow> (case given ca of Some f \<Rightarrow> Trust_CA f | None \<Rightarrow> Trust_System)
        | None \<Rightarrow> Trust_None),
      tls_sni = given servername,
      tls_checked_name = given servername,
      tls_own_cert = (case given cert of
          Some c \<Rightarrow> (case given key of Some k \<Rightarrow> Some (c, k) | None \<Rightarrow> None) | None \<Rightarrow> None)\<rparr>"

definition conn_setup ::
    "(string ptr \<Rightarrow> string ptr \<Rightarrow> string ptr \<Rightarrow> string ptr \<Rightarrow> tls_setup) \<Rightarrow> conn_req \<Rightarrow> tls_setup option" where
  "conn_setup setup r =
     (case r of Conn_Plain _ _ \<Rightarrow> None | Conn_SSL cert key ca servername _ _ \<Rightarrow> Some (setup cert key ca servername))"

section \<open>The REST client\<close>

record rest_client =
  rc_http :: http_client
  rc_timeout :: int
  rc_status :: int

definition RestClientHasHeader :: "(string \<times> string) list ptr \<Rightarrow> string \<Rightarrow> bool" where
  "RestClientHasHeader headers name =
     (case headers of NULL \<Rightarrow> False | Some ps \<Rightarrow> \<exists>(k, v) \<in> set ps. strcaseeq k name)"

definition RestClientHeaders :: "(string \<times> string) list ptr \<Rightarrow> bool \<Rightarrow> (string \<times> string) list" where
  "RestClientHeaders headers hasbody =
     (let r0 = (case headers of NULL \<Rightarrow> [] | Some ps \<Rightarrow> foldl (\<lambda>m (k, v). al_put k v m) [] ps);
          r1 = (if RestClientHasHeader headers ''Accept'' then r0 else al_put ''Accept'' ''application/json'' r0)
      in if hasbody \<and> \<not> RestClientHasHeader headers ''Content-Type''
         then al_put ''Content-Type'' ''application/json'' r1 else r1)"

definition json_bytes :: "json \<Rightarrow> string" where
  "json_bytes data =
     (case StringCreateInternal (\<lambda>_. True) 128 NULL of
        NULL \<Rightarrow> [] | Some sbuf \<Rightarrow> content (JsonToString (\<lambda>_. True) data sbuf False))"

text \<open>\<open>None\<close> inside is NULL: no response, an empty body or one that is no JSON.\<close>

definition RestClientExchange ::
    "'d dlib \<Rightarrow> 's sock_ops \<Rightarrow> (conn_req \<Rightarrow> 's http_net \<Rightarrow> nat ptr \<times> 's http_net) \<Rightarrow> string \<Rightarrow>
     (string \<times> string) list ptr \<Rightarrow> string \<Rightarrow> json ptr \<Rightarrow> rest_client \<Rightarrow> 's http_ctx \<Rightarrow>
     (json ptr \<times> rest_client \<times> 's http_ctx) option" where
  "RestClientExchange lib ops connect verb headers uri data ir ctx =
     map_option
       (\<lambda>(resbuf, st, ctx1).
          (case resbuf of
             None \<Rightarrow> NULL
           | Some bytes \<Rightarrow> if bytes \<noteq> [] then JsonParse lib bytes else NULL,
           ir\<lparr>rc_status := (case st of None \<Rightarrow> 0 | Some x \<Rightarrow> x)\<rparr>, ctx1))
       (HttpClientRequest ops connect (rc_http ir) verb (RestClientHeaders headers (data \<noteq> NULL)) uri
          (map_option json_bytes data) ctx)"

definition RestClientGet where
  "RestClientGet lib ops connect headers uri ir ctx =
     RestClientExchange lib ops connect ''GET'' headers uri NULL ir ctx"

definition RestClientPost where
  "RestClientPost lib ops connect headers uri data ir ctx =
     RestClientExchange lib ops connect ''POST'' headers uri data ir ctx"

definition RestClientPut where
  "RestClientPut lib ops connect headers uri data ir ctx =
     map_option (\<lambda>(res, ir1, ctx1). (200 \<le> rc_status ir1 \<and> rc_status ir1 < 300, ir1, ctx1))
       (RestClientExchange lib ops connect ''PUT'' headers uri data ir ctx)"

definition RestClientDelete where
  "RestClientDelete lib ops connect headers uri ir ctx =
     map_option snd (RestClientExchange lib ops connect ''DELETE'' headers uri NULL ir ctx)"

definition RestClientSetTimeout :: "int \<Rightarrow> rest_client \<Rightarrow> rest_client" where
  "RestClientSetTimeout timeout ir = ir\<lparr>rc_timeout := timeout\<rparr>"

definition RestClientGetStatus :: "rest_client \<Rightarrow> int" where
  "RestClientGetStatus ir = rc_status ir"

text \<open>The inherited half: forwarders to the HTTP client.\<close>

definition RestClientSetVerify :: "bool \<Rightarrow> bool \<Rightarrow> rest_client \<Rightarrow> rest_client" where
  "RestClientSetVerify verify_host verify_peer ir =
     ir\<lparr>rc_http := HttpClientSetVerify verify_host verify_peer (rc_http ir)\<rparr>"

definition RestClientSetSSLCert ::
    "string ptr \<Rightarrow> string ptr \<Rightarrow> string ptr \<Rightarrow> rest_client \<Rightarrow> bool \<times> rest_client" where
  "RestClientSetSSLCert certfile keyfile cafile ir =
     (case HttpClientSetSSLCert certfile keyfile cafile (rc_http ir) of (ok, ih) \<Rightarrow> (ok, ir\<lparr>rc_http := ih\<rparr>))"

definition RestClientSetKeepAlive :: "bool \<Rightarrow> rest_client \<Rightarrow> rest_client" where
  "RestClientSetKeepAlive keepalive ir = ir\<lparr>rc_http := HttpClientSetKeepAlive keepalive (rc_http ir)\<rparr>"

definition RestClientHttpRequest where
  "RestClientHttpRequest ops connect ir verb headers uri body ctx =
     HttpClientRequest ops connect (rc_http ir) verb headers uri body ctx"

definition RestClientHttpGet where
  "RestClientHttpGet ops connect ir headers uri ctx = HttpClientGet ops connect (rc_http ir) headers uri ctx"

definition RestClientHttpPost where
  "RestClientHttpPost ops connect ir headers uri body ctx =
     HttpClientPost ops connect (rc_http ir) headers uri body ctx"

definition CMUTIL_REST_DEFAULT_TIMEOUT :: int where
  "CMUTIL_REST_DEFAULT_TIMEOUT = 30000"

definition RestClientCreateInternal :: "string \<Rightarrow> rest_client ptr" where
  "RestClientCreateInternal urlprefix =
     map_option (\<lambda>ih. \<lparr>rc_http = ih, rc_timeout = CMUTIL_REST_DEFAULT_TIMEOUT, rc_status = 0\<rparr>)
       (HttpClientCreateInternal urlprefix)"


section \<open>What a request writes\<close>

definition line_free :: "string \<Rightarrow> bool" where
  "line_free l \<longleftrightarrow> CR \<notin> set l \<and> LF \<notin> set l \<and> NUL \<notin> set l"

definition lines_text :: "string list \<Rightarrow> string" where
  "lines_text ls = concat (map (\<lambda>l. l @ [CR, LF]) ls)"

lemma lines_text_simps [simp]:
  "lines_text [] = []" "lines_text (l # ls) = l @ CR # LF # lines_text ls"
  "lines_text (ls @ ls') = lines_text ls @ lines_text ls'"
  by (simp_all add: lines_text_def)

definition request_text :: "http_client \<Rightarrow> string \<Rightarrow> (string \<times> string) list \<Rightarrow> string \<Rightarrow> string ptr \<Rightarrow> string" where
  "request_text ih verb headers uri body =
     lines_text (request_lines ih verb headers uri body) @ [CR, LF] @
     (case body of Some b \<Rightarrow> if sends_body verb then b else [] | NULL \<Rightarrow> [])"

lemma char_of_code [simp]: "char_of (code c) = c"
  by (simp add: code_def)

lemma code_LF: "code c = 10 \<longleftrightarrow> c = LF" and code_CR: "code c = 13 \<longleftrightarrow> c = CR"
proof -
  have "code LF = 10" "code CR = 13" by (simp_all add: code_def of_char_def)
  then show "code c = 10 \<longleftrightarrow> c = LF" "code c = 13 \<longleftrightarrow> c = CR" using code_inj by metis+
qed

context byte_stream
begin

lemma read_line_loop_next:
  assumes "content s = l @ CR # LF # rest" "CR \<notin> set l" "LF \<notin> set l" "length buf + length l < len - 1"
  shows "\<exists>s'. read_line_loop ops len buf s = Some (True, buf @ l, s') \<and> content s' = rest \<and> out s' = out s \<and>
    ready s' = ready s"
  using assms
proof (induction l arbitrary: buf s)
  case Nil
  obtain s1 where s1: "so_ReadByte ops s = (13, s1)" "content s1 = LF # rest" "out s1 = out s" "ready s1 = ready s"
    using ReadByte_next [of s CR "LF # rest"] Nil(1) code_CR [of CR] by auto
  obtain s2 where s2: "so_ReadByte ops s1 = (10, s2)" "content s2 = rest" "out s2 = out s" "ready s2 = ready s"
    using ReadByte_next [of s1 LF rest] s1 code_LF [of LF] by auto
  show ?case using s1 s2 Nil(4) by (simp add: read_line_loop.simps [of ops len buf])
next
  case (Cons c l)
  obtain s1 where s1: "so_ReadByte ops s = (code c, s1)" "content s1 = l @ CR # LF # rest" "out s1 = out s" "ready s1 = ready s"
    using ReadByte_next [of s c "l @ CR # LF # rest"] Cons.prems(1) by auto
  have "code c \<noteq> 10" "code c \<noteq> 13" "- 1 < code c"
    using Cons.prems(2,3) code_LF [of c] code_CR [of c] code_ge_0 [of c] by (auto simp del: code_ge_0)
  then have "read_line_loop ops len buf s = read_line_loop ops len (buf @ [c]) s1"
    using s1(1) Cons.prems(4) by (simp add: read_line_loop.simps [of ops len buf])
  then show ?case using Cons.IH [OF s1(2), of "buf @ [c]"] Cons.prems s1 by auto
qed

lemma ReadLine_next:
  assumes "content s = l @ CR # LF # rest" "line_free l" "length l < len - 1"
  shows "\<exists>s'. HttpClientReadLine ops len s = Some (True, l, s') \<and> content s' = rest \<and> out s' = out s \<and>
    ready s' = ready s"
proof -
  obtain s' where "read_line_loop ops len [] s = Some (True, l, s')" "content s' = rest" "out s' = out s" "ready s' = ready s"
    using read_line_loop_next [of s l rest "[]" len] assms by (auto simp: line_free_def)
  then show ?thesis using assms(2) by (simp add: HttpClientReadLine_def line_free_def)
qed

lemma WriteLine_all:
  assumes "ready s"
  shows "\<exists>s'. HttpClientWriteLine ops line s = (CMSocketOk, s') \<and> content s' = content s \<and>
    out s' = out s @ (case line of Some l \<Rightarrow> l | NULL \<Rightarrow> []) @ [CR, LF] \<and> ready s'"
proof -
  obtain s1 where s1: "(case line of Some l \<Rightarrow> if l \<noteq> [] then so_Write ops l s else (CMSocketOk, s)
      | NULL \<Rightarrow> (CMSocketOk, s)) = (CMSocketOk, s1)" "content s1 = content s"
    "out s1 = out s @ (case line of Some l \<Rightarrow> l | NULL \<Rightarrow> [])" "ready s1"
    using Write_all [OF assms, of "the line"] assms by (cases line; cases "line = Some []") auto
  with Write_all [OF s1(4), of "[CR, LF]"] show ?thesis by (auto simp: HttpClientWriteLine_def)
qed

lemma write_lines_all:
  "ready s \<Longrightarrow> \<exists>s'. write_lines ops ls s = (CMSocketOk, s') \<and> content s' = content s \<and>
    out s' = out s @ lines_text ls \<and> ready s'"
proof (induction ls arbitrary: s)
  case (Cons l ls)
  obtain s1 where s1: "HttpClientWriteLine ops (Some l) s = (CMSocketOk, s1)" "content s1 = content s"
    "out s1 = out s @ l @ [CR, LF]" "ready s1"
    using WriteLine_all [OF Cons.prems, of "Some l"] by auto
  with Cons.IH [OF s1(4)] show ?case by auto
qed simp

lemma write_request_all:
  assumes "ready s" "\<And>b. body = Some b \<Longrightarrow> length b < 2 ^ 32"
  shows "\<exists>s'. write_request ops ih verb headers uri body s = (CMSocketOk, s') \<and> content s' = content s \<and>
    out s' = out s @ request_text ih verb headers uri body \<and> ready s'"
proof -
  obtain s1 where s1: "write_lines ops (request_lines ih verb headers uri body) s = (CMSocketOk, s1)"
    "content s1 = content s" "out s1 = out s @ lines_text (request_lines ih verb headers uri body)" "ready s1"
    using write_lines_all [OF assms(1)] by blast
  obtain s2 where s2: "HttpClientWriteLine ops NULL s1 = (CMSocketOk, s2)" "content s2 = content s1"
    "out s2 = out s1 @ [CR, LF]" "ready s2"
    using WriteLine_all [OF s1(4), of NULL] by auto
  show ?thesis
  proof (cases "body \<noteq> NULL \<and> sends_body verb")
    case True
    then obtain b where b: "body = Some b" by blast
    with Write_all [OF s2(4), of b] assms(2) [OF b] True s1 s2 show ?thesis
      by (auto simp: write_request_def request_text_def)
  next
    case False
    with s1 s2 show ?thesis
      by (auto simp: write_request_def request_text_def split: option.splits)
  qed
qed

end


section \<open>What a response means\<close>

text \<open>A server's reply: its head and its body, delimited by its length or cut into chunks.\<close>

definition header_line :: "string \<times> string \<Rightarrow> string" where
  "header_line kv = fst kv @ '': '' @ snd kv"

definition status_line :: "int \<Rightarrow> string \<Rightarrow> string" where
  "status_line st reason = ''HTTP/1.1 '' @ dec st @ '' '' @ reason"

fun hexstr :: "nat \<Rightarrow> string" where
  "hexstr n = (if n < 16 then [''0123456789abcdef'' ! n] else hexstr (n div 16) @ [''0123456789abcdef'' ! (n mod 16)])"

declare hexstr.simps [simp del]

definition chunk_text :: "string \<Rightarrow> string" where
  "chunk_text c = hexstr (length c) @ [CR, LF] @ c @ [CR, LF]"

definition reply_by_length :: "int \<Rightarrow> string \<Rightarrow> (string \<times> string) list \<Rightarrow> string \<Rightarrow> string" where
  "reply_by_length st reason hdrs body =
     lines_text (status_line st reason # map header_line (hdrs @ [(''Content-Length'', dec (int (length body)))])) @
     [CR, LF] @ body"

definition reply_in_chunks :: "int \<Rightarrow> string \<Rightarrow> (string \<times> string) list \<Rightarrow> string list \<Rightarrow> string" where
  "reply_in_chunks st reason hdrs chunks =
     lines_text (status_line st reason # map header_line (hdrs @ [(''Transfer-Encoding'', ''chunked'')])) @
     [CR, LF] @ concat (map chunk_text chunks) @ ''0'' @ [CR, LF, CR, LF]"

text \<open>A header that fits the client's line buffer and does not change what the body is.\<close>

definition plain_header :: "string \<times> string \<Rightarrow> bool" where
  "plain_header kv \<longleftrightarrow>
     line_free (fst kv) \<and> line_free (snd kv) \<and> CHR '':'' \<notin> set (fst kv) \<and> length (fst kv) < 128 \<and>
     length (fst kv) + length (snd kv) < 4093 \<and> \<not> strcaseeq (trim (fst kv)) ''Connection'' \<and>
     \<not> strcaseeq (trim (fst kv)) ''Content-Length'' \<and> \<not> strcaseeq (trim (fst kv)) ''Transfer-Encoding''"

lemma while_neq:
  "c \<notin> set v \<Longrightarrow> takeWhile (\<lambda>x. x \<noteq> c) (v @ c # t) = v" "c \<notin> set v \<Longrightarrow> dropWhile (\<lambda>x. x \<noteq> c) (v @ c # t) = c # t"
  "c \<notin> set v \<Longrightarrow> takeWhile (\<lambda>x. x \<noteq> c) v = v"
  by (induction v) auto

lemma upto_from_char:
  assumes "c \<notin> set v"
  shows "upto_char c (v @ c # t) = v" "from_char c (v @ c # t) = Some (c # t)" "upto_char c v = v" "from_char c v = NULL"
  using while_neq [OF assms] assms by (simp_all add: upto_char_def from_char_def)

lemma dec_no: "\<not> isdigit c \<Longrightarrow> c \<noteq> CHR ''-'' \<Longrightarrow> c \<notin> set (dec v)"
  using dec_chars by blast

lemma isdigit_simps [simp]: "\<not> isdigit SP" "\<not> isdigit NUL" "\<not> isdigit CR" "\<not> isdigit LF" "\<not> isdigit (CHR '':'')"
    "\<not> isdigit (CHR ''/'')" "\<not> isdigit (CHR 0x09)"
  by (simp_all add: isdigit_def code_def of_char_def)

lemma trim_lead:
  assumes "t \<noteq> []" "\<forall>c \<in> set t. \<not> blank c"
  shows "trim (SP # t) = t"
proof -
  have "dropWhile blank (rev t @ [SP]) = rev t @ [SP]" using assms by (cases "rev t") auto
  moreover have "dropWhile blank (SP # t) = t" using assms by (cases t) (auto simp: SPACES_def)
  ultimately show ?thesis by (simp add: trim_def rtrim_def)
qed

lemma strtoll_small:
  assumes "0 \<le> v" "v < 2 ^ 62"
  obtains n where "strtoll (dec v) = (v, n)" "0 < n"
  using strtoll_dec [of v] assms by (auto simp: LLONG_MIN_def LLONG_MAX_def)

lemma LineValue_split:
  assumes "CHR '':'' \<notin> set k" "length k < 128" "NUL \<notin> set k" "NUL \<notin> set v"
  shows "HttpClientLineValue (k @ CHR '':'' # v) header = (if strcaseeq (trim k) header then Some (trim v) else NULL)"
proof -
  have "takeWhile (\<lambda>c. c \<noteq> CHR '':'') (k @ CHR '':'' # v) = k" using while_neq(1) [OF assms(1)] .
  then show ?thesis using assms by (simp add: HttpClientLineValue_def trimmed_eq)
qed

lemma status_line_read:
  assumes "0 \<le> st" "st < 2 ^ 31"
  shows "http_status_line ka (status_line st reason) = Some (ka, st)"
proof -
  have "SP \<notin> set (dec st)" by (rule dec_no) simp_all
  moreover obtain n where "strtoll (dec st) = (st, n)" using strtoll_small [of st] assms by auto
  ultimately show ?thesis
    using assms upto_from_char(1,2) [of SP "''HTTP/1.1''" "dec st @ '' '' @ reason"] upto_from_char(1,2) [of SP "dec st" reason]
    by (simp add: http_status_line_def status_line_def to_int_id)
qed

lemma plain_header_read:
  assumes "plain_header kv"
  shows "http_header asked (header_line kv) h = Some h"
  using assms LineValue_split [of "fst kv" "SP # snd kv"]
  by (simp add: plain_header_def http_header_def header_line_def line_free_def)

lemma content_length_read:
  assumes "int n \<le> CMUTIL_HTTP_MAX_BODY"
  shows "http_header asked (header_line (''Content-Length'', dec (int n))) h = Some (h\<lparr>hh_len := n\<rparr>)"
proof -
  have "NUL \<notin> set (dec (int n))" by (rule dec_no) simp_all
  then have l: "HttpClientLineValue (header_line (''Content-Length'', dec (int n))) x =
      (if strcaseeq (trim ''Content-Length'') x then Some (trim (SP # dec (int n))) else NULL)" for x
    using LineValue_split [of "''Content-Length''" "SP # dec (int n)"] by (simp add: header_line_def)
  have t: "trim (SP # dec (int n)) = dec (int n)"
    by (rule trim_lead) (auto simp: SPACES_def dest: dec_chars)
  obtain m where "strtoll (dec (int n)) = (int n, m)" "0 < m"
    using strtoll_small [of "int n"] assms by (auto simp: CMUTIL_HTTP_MAX_BODY_def)
  moreover have "trim ''Content-Length'' = ''Content-Length''" by code_simp
  ultimately show ?thesis using assms l t by (simp add: http_header_def strcaseeq_def tolower_def code_def of_char_def)
qed


lemma chunked_read:
  "http_header asked (header_line (''Transfer-Encoding'', ''chunked'')) h = Some (h\<lparr>hh_transfer := ''chunked''\<rparr>)"
proof -
  have "trim ''Transfer-Encoding'' = ''Transfer-Encoding''" "trim (SP # ''chunked'') = ''chunked''" by code_simp+
  then show ?thesis using LineValue_split [of "''Transfer-Encoding''" "SP # ''chunked''"]
    by (simp add: http_header_def header_line_def strcaseeq_def tolower_def code_def of_char_def)
qed

lemma hexstr_digit:
  assumes "n < 16"
  shows "isxdigit (''0123456789abcdef'' ! n)" "xdigit (''0123456789abcdef'' ! n) = int n"
proof -
  have "\<forall>k \<in> set [0..<16]. isxdigit (''0123456789abcdef'' ! k) \<and> xdigit (''0123456789abcdef'' ! k) = int k"
    by code_simp
  then show "isxdigit (''0123456789abcdef'' ! n)" "xdigit (''0123456789abcdef'' ! n) = int n" using assms by simp_all
qed

lemma hexstr_chars: "c \<in> set (hexstr n) \<Longrightarrow> isxdigit c"
proof (induction n rule: hexstr.induct)
  case (1 n)
  show ?case
  proof (cases "n < 16")
    case True
    with "1.prems" hexstr_digit(1) [of n] show ?thesis by (simp add: hexstr.simps [of n])
  next
    case False
    with 1 hexstr_digit(1) [of "n mod 16"] show ?thesis by (auto simp: hexstr.simps [of n])
  qed
qed

lemma hexstr_not_Nil [simp]: "hexstr n \<noteq> []"
  by (simp add: hexstr.simps [of n])

lemma xnum_hexstr: "xnum (hexstr n) = int n"
proof (induction n rule: hexstr.induct)
  case (1 n)
  show ?case
  proof (cases "n < 16")
    case True
    then show ?thesis by (simp add: hexstr.simps [of n] xnum_def hexstr_digit)
  next
    case False
    then have "xnum (hexstr n) = xnum (hexstr (n div 16)) * 16 + xdigit (''0123456789abcdef'' ! (n mod 16))"
      by (simp add: hexstr.simps [of n] xnum_def)
    also have "\<dots> = int (n div 16) * 16 + int (n mod 16)" using 1 False hexstr_digit(2) [of "n mod 16"] by simp
    also have "\<dots> = int n" by presburger
    finally show ?thesis .
  qed
qed

lemma isxdigit_plain: "isxdigit c \<Longrightarrow> \<not> isspace c \<and> c \<noteq> CHR ''-'' \<and> c \<noteq> CHR ''+'' \<and> c \<noteq> CHR ''x'' \<and> c \<noteq> CHR ''X'' \<and>
    c \<noteq> CR \<and> c \<noteq> LF \<and> c \<noteq> NUL"
proof -
  assume x: "isxdigit c"
  have v: "code CHR '' '' = 32" "code CHR ''-'' = 45" "code CHR ''+'' = 43" "code CHR ''x'' = 120" "code CHR ''X'' = 88"
    "code CR = 13" "code LF = 10" "code NUL = 0" "code CHR ''0'' = 48" "code CHR ''9'' = 57"
    by code_simp+
  have "code c \<ge> 48" "code c \<noteq> 120" "code c \<noteq> 88" using x by (auto simp: isxdigit_def isdigit_def v)
  moreover have "\<not> 48 \<le> code NUL" by code_simp
  ultimately have "c \<noteq> NUL" "code c \<ge> 48" "code c \<noteq> 120" "code c \<noteq> 88" by metis+
  then show ?thesis using v by (auto simp: isspace_def)
qed

lemma strtol16_hexstr:
  assumes "int n \<le> CMUTIL_HTTP_MAX_BODY"
  shows "\<exists>used. strtol16 (hexstr n) = (int n, used) \<and> 0 < used"
proof -
  obtain c r where cr: "hexstr n = c # r" by (cases "hexstr n") auto
  have all: "\<forall>d \<in> set (hexstr n). isxdigit d" using hexstr_chars by blast
  then have p: "\<not> isspace c" "c \<noteq> CHR ''-''" "c \<noteq> CHR ''+''" using cr isxdigit_plain by auto
  have x: "take 2 (hexstr n) \<noteq> ''0x''" "take 2 (hexstr n) \<noteq> ''0X''"
    using all isxdigit_plain by (auto simp: cr numeral_2_eq_2 take_Suc_conv_app_nth split: if_splits) (cases r; auto simp: cr)+
  have t: "takeWhile isxdigit (hexstr n) = hexstr n" "dropWhile isxdigit (hexstr n) = []"
    using all by simp_all
  have d: "dropWhile isspace (hexstr n) = hexstr n" using p(1) cr by simp
  have h: "hd (hexstr n) = c" using cr by simp
  have "int n < LLONG_MAX" "LLONG_MIN < int n" using assms by (simp_all add: CMUTIL_HTTP_MAX_BODY_def LLONG_MAX_def LLONG_MIN_def)
  then have "strtol16 (hexstr n) = (int n, length (hexstr n))"
    using x t d h p by (simp add: strtol16_def Let_def xnum_hexstr del: takeWhile_eq_all_conv dropWhile_eq_Nil_conv)
  then show ?thesis by simp
qed

lemma hexstr_line: "line_free (hexstr n)"
  using hexstr_chars isxdigit_plain by (auto simp: line_free_def)

lemma length_hexstr: "length (hexstr n) \<le> n + 1"
proof (induction n rule: hexstr.induct)
  case (1 n)
  show ?case
  proof (cases "n < 16")
    case False
    with 1 have "length (hexstr (n div 16)) \<le> n div 16 + 1" by simp
    with False show ?thesis by (simp add: hexstr.simps [of n])
  qed (simp add: hexstr.simps [of n])
qed

lemma hexstr_short: "n < 16 ^ k \<Longrightarrow> 0 < k \<Longrightarrow> length (hexstr n) \<le> k"
proof (induction k arbitrary: n)
  case (Suc k)
  show ?case
  proof (cases "n < 16")
    case False
    with Suc.prems have "n div 16 < 16 ^ k" "0 < k" by (cases k; simp add: less_mult_imp_div_less mult.commute)+
    with Suc.IH [of "n div 16"] False show ?thesis by (simp add: hexstr.simps [of n])
  qed (simp add: hexstr.simps [of n])
qed simp


text \<open>What the header lines say together.\<close>

fun http_heads :: "bool \<Rightarrow> string list \<Rightarrow> http_head \<Rightarrow> http_head option" where
  "http_heads asked [] h = Some h"
| "http_heads asked (l # ls) h = Option.bind (http_header asked l h) (http_heads asked ls)"

lemma http_heads_append:
  "http_heads asked (ls @ ls') h = Option.bind (http_heads asked ls h) (http_heads asked ls')"
  by (induction ls arbitrary: h) (auto split: bind_split)

lemma http_heads_plain: "\<forall>kv \<in> set hdrs. plain_header kv \<Longrightarrow> http_heads asked (map header_line hdrs) h = Some h"
  by (induction hdrs) (auto simp: plain_header_read)

definition fits_line :: "string \<Rightarrow> bool" where
  "fits_line l \<longleftrightarrow> line_free l \<and> l \<noteq> [] \<and> length l < 4095"

lemma fits_header_line: "plain_header kv \<Longrightarrow> fits_line (header_line kv)"
  by (auto simp: plain_header_def fits_line_def header_line_def line_free_def)

lemma fits_chunked: "fits_line (header_line (''Transfer-Encoding'', ''chunked''))"
  by code_simp

lemma length_dec_small: "n < 10 ^ k \<Longrightarrow> 0 < k \<Longrightarrow> length (dec (int n)) \<le> k"
proof -
  assume a: "n < 10 ^ k" "0 < k"
  then obtain j where "k = Suc j" by (cases k) auto
  with a length_digits [of n j] show ?thesis by (simp add: dec_def)
qed

lemma fits_content_length:
  assumes "int n \<le> CMUTIL_HTTP_MAX_BODY"
  shows "fits_line (header_line (''Content-Length'', dec (int n)))"
proof -
  have "length (dec (int n)) \<le> 10" using assms length_dec_small [of n 10] by (simp add: CMUTIL_HTTP_MAX_BODY_def del: One_nat_def)
  moreover have "CR \<notin> set (dec (int n))" "LF \<notin> set (dec (int n))" "NUL \<notin> set (dec (int n))" by (rule dec_no; simp)+
  ultimately show ?thesis by (auto simp: fits_line_def header_line_def line_free_def)
qed

context byte_stream
begin

lemma headers_next:
  assumes "content s = lines_text ls @ CR # LF # rest" "\<forall>l \<in> set ls. fits_line l" "http_heads asked ls h = Some h'"
  shows "\<exists>s'. http_headers ops asked h s = Some (Some h', s') \<and> content s' = rest \<and> out s' = out s \<and> ready s' = ready s"
  using assms
proof (induction ls arbitrary: s h)
  case Nil
  then obtain s1 where "HttpClientReadLine ops 4096 s = Some (True, [], s1)" "content s1 = rest" "out s1 = out s" "ready s1 = ready s"
    using ReadLine_next [of s "[]" rest 4096] by (auto simp: line_free_def)
  with Nil(3) show ?case by (subst http_headers.simps) simp
next
  case (Cons l ls)
  obtain s1 where s1: "HttpClientReadLine ops 4096 s = Some (True, l, s1)" "content s1 = lines_text ls @ CR # LF # rest"
    "out s1 = out s" "ready s1 = ready s"
    using ReadLine_next [of s l "lines_text ls @ CR # LF # rest" 4096] Cons.prems(1,2) by (auto simp: fits_line_def)
  obtain h1 where h1: "http_header asked l h = Some h1" "http_heads asked ls h1 = Some h'"
    using Cons.prems(3) by (auto simp: bind_eq_Some_conv)
  have "l \<noteq> []" using Cons.prems(2) by (simp add: fits_line_def)
  then have "http_headers ops asked h s = http_headers ops asked h1 s1"
    using s1(1) h1(1) by (simp add: http_headers.simps [of ops asked h])
  then show ?case using Cons.IH [OF s1(2) _ h1(2)] Cons.prems(2) s1(3,4) by auto
qed

lemma chunk_next:
  assumes "content s = chunk_text c @ rest" "c \<noteq> []" "int (length c) \<le> CMUTIL_HTTP_MAX_BODY"
  shows "\<exists>s'. http_chunks ops res s = http_chunks ops (res @ c) s' \<and> content s' = rest \<and> out s' = out s \<and> ready s' = ready s"
proof -
  have "length (hexstr (length c)) < 4095"
    using hexstr_short [of "length c" 8] assms(3) by (simp add: CMUTIL_HTTP_MAX_BODY_def)
  moreover have "content s = hexstr (length c) @ CR # LF # c @ CR # LF # rest"
    using assms(1) by (simp add: chunk_text_def [of c])
  ultimately obtain s1 where s1: "HttpClientReadLine ops 4096 s = Some (True, hexstr (length c), s1)"
    "content s1 = c @ CR # LF # rest" "out s1 = out s" "ready s1 = ready s"
    using ReadLine_next [of s "hexstr (length c)" "c @ CR # LF # rest" 4096] hexstr_line by auto
  obtain used where u: "strtol16 (hexstr (length c)) = (int (length c), used)" "0 < used"
    using strtol16_hexstr [OF assms(3)] by blast
  obtain s2 where s2: "so_Read ops (length c) res s1 = (CMSocketOk, res @ c, s2)" "content s2 = CR # LF # rest"
    "out s2 = out s" "ready s2 = ready s"
    using Read_next [of "length c" s1 res] s1 by auto
  obtain s3 where s3: "HttpClientReadLine ops 4096 s2 = Some (True, [], s3)" "content s3 = rest"
    "out s3 = out s" "ready s3 = ready s"
    using ReadLine_next [of s2 "[]" rest 4096] s2 by (auto simp: line_free_def)
  have "http_chunks ops res s = http_chunks ops (res @ c) s3"
    using s1(1) u s2(1) s3(1) assms(2,3) by (simp add: http_chunks.simps [of ops res])
  with s3 show ?thesis by blast
qed

lemma chunks_next:
  assumes "content s = concat (map chunk_text cs) @ ''0'' @ CR # LF # l @ CR # LF # rest" "line_free l" "length l < 4095"
    "\<forall>c \<in> set cs. c \<noteq> [] \<and> int (length c) \<le> CMUTIL_HTTP_MAX_BODY"
  shows "\<exists>s'. http_chunks ops res s = Some (Some (res @ concat cs), s') \<and> content s' = rest \<and> out s' = out s \<and>
    ready s' = ready s"
  using assms
proof (induction cs arbitrary: s res)
  case Nil
  then obtain s1 where s1: "HttpClientReadLine ops 4096 s = Some (True, ''0'', s1)" "content s1 = l @ CR # LF # rest"
    "out s1 = out s" "ready s1 = ready s"
    using ReadLine_next [of s "''0''" "l @ CR # LF # rest" 4096] by (auto simp: line_free_def)
  obtain s2 where s2: "HttpClientReadLine ops 4096 s1 = Some (True, l, s2)" "content s2 = rest"
    "out s2 = out s" "ready s2 = ready s"
    using ReadLine_next [of s1 l rest 4096] s1 Nil by auto
  have "strtol16 ''0'' = (0, 1)" by code_simp
  with s1 s2 show ?case by (simp add: http_chunks.simps [of ops res] CMUTIL_HTTP_MAX_BODY_def)
next
  case (Cons c cs)
  obtain s3 where s3: "http_chunks ops res s = http_chunks ops (res @ c) s3"
    "content s3 = concat (map chunk_text cs) @ ''0'' @ CR # LF # l @ CR # LF # rest" "out s3 = out s" "ready s3 = ready s"
    using chunk_next [of s c "concat (map chunk_text cs) @ ''0'' @ CR # LF # l @ CR # LF # rest" res] Cons.prems by auto
  with Cons.IH [OF s3(2), of "res @ c"] Cons.prems(2-4) show ?case by simp
qed

end


definition reply_head :: "int \<Rightarrow> string \<Rightarrow> (string \<times> string) list \<Rightarrow> bool" where
  "reply_head st reason hdrs \<longleftrightarrow>
     0 \<le> st \<and> st < 2 ^ 31 \<and> line_free reason \<and> length reason < 4000 \<and> (\<forall>kv \<in> set hdrs. plain_header kv)"

lemma fits_status_line:
  assumes "reply_head st reason hdrs"
  shows "fits_line (status_line st reason)"
proof -
  have st: "0 \<le> st" "st < 2 ^ 31" "line_free reason" "length reason < 4000" using assms by (simp_all add: reply_head_def)
  have "length (dec st) \<le> 10" using length_dec_small [of "nat st" 10] st by simp
  moreover have "CR \<notin> set (dec st)" "LF \<notin> set (dec st)" "NUL \<notin> set (dec st)" by (rule dec_no; simp)+
  ultimately show ?thesis using st by (auto simp: fits_line_def status_line_def line_free_def)
qed

context byte_stream
begin

lemma response_next:
  assumes "content s = lines_text (status_line st reason # map header_line (hdrs @ [kv])) @ CR # LF # rest"
    "reply_head st reason hdrs" "fits_line (header_line kv)"
    "http_header asked (header_line kv) \<lparr>hh_len = 0, hh_transfer = [], hh_keepalive = asked\<rparr> = Some h"
  shows "\<exists>s2. content s2 = rest \<and> out s2 = out s \<and> ready s2 = ready s \<and>
    http_response ops asked s =
      map_option (\<lambda>(res, s3). (\<lparr>hr_status = Some st, hr_body = res, hr_keepalive = hh_keepalive h\<rparr>, s3))
        (http_body ops h s2)"
proof -
  let ?ls = "map header_line (hdrs @ [kv])"
  have fl: "\<forall>l \<in> set ?ls. fits_line l"
    using assms(2,3) fits_header_line by (auto simp: reply_head_def)
  obtain s1 where s1: "HttpClientReadLine ops 4096 s = Some (True, status_line st reason, s1)"
    "content s1 = lines_text ?ls @ CR # LF # rest" "out s1 = out s" "ready s1 = ready s"
    using ReadLine_next [of s "status_line st reason" "lines_text ?ls @ CR # LF # rest" 4096]
      fits_status_line [OF assms(2)] assms(1) by (auto simp: fits_line_def)
  have "http_heads asked ?ls \<lparr>hh_len = 0, hh_transfer = [], hh_keepalive = asked\<rparr> = Some h"
    using http_heads_plain [of hdrs asked] assms(2,4) by (simp add: http_heads_append reply_head_def)
  from headers_next [OF s1(2) fl this] obtain s2 where s2: "http_headers ops asked \<lparr>hh_len = 0, hh_transfer = [], hh_keepalive = asked\<rparr> s1 = Some (Some h, s2)"
    "content s2 = rest" "out s2 = out s" "ready s2 = ready s"
    unfolding s1(3,4) by blast
  have "http_status_line asked (status_line st reason) = Some (asked, st)"
    using status_line_read assms(2) by (simp add: reply_head_def)
  with s1(1) s2 show ?thesis by (intro exI [of _ s2]) (simp add: http_response_def)
qed

lemma fetch_length:
  assumes "ready s" "\<And>b. body = Some b \<Longrightarrow> length b < 2 ^ 32" "reply_head st reason hdrs"
    "int (length data) \<le> CMUTIL_HTTP_MAX_BODY" "content s = reply_by_length st reason hdrs data @ rest"
  shows "\<exists>s'. http_exchange ops ih verb headers uri body s =
      Some (\<lparr>hr_status = Some st, hr_body = Some data, hr_keepalive = hc_keepalive ih\<rparr>, s') \<and>
    content s' = rest \<and> out s' = out s @ request_text ih verb headers uri body \<and> ready s'"
proof -
  obtain s1 where s1: "write_request ops ih verb headers uri body s = (CMSocketOk, s1)" "content s1 = content s"
    "out s1 = out s @ request_text ih verb headers uri body" "ready s1"
    using write_request_all [OF assms(1), of body ih verb headers uri] assms(2) by blast
  have c: "content s1 = lines_text (status_line st reason # map header_line (hdrs @ [(''Content-Length'', dec (int (length data)))]))
      @ CR # LF # data @ rest"
    using assms(5) s1(2) by (simp add: reply_by_length_def)
  obtain s2 where s2: "content s2 = data @ rest" "out s2 = out s1" "ready s2" "http_response ops (hc_keepalive ih) s1 =
      map_option (\<lambda>(res, s3). (\<lparr>hr_status = Some st, hr_body = res, hr_keepalive = hc_keepalive ih\<rparr>, s3))
        (http_body ops \<lparr>hh_len = length data, hh_transfer = [], hh_keepalive = hc_keepalive ih\<rparr> s2)"
    using response_next [OF c assms(3) fits_content_length [OF assms(4)] content_length_read [OF assms(4)]] s1(4) by auto
  obtain s3 where s3: "so_Read ops (length data) [] s2 = (CMSocketOk, data, s3)" "content s3 = rest" "out s3 = out s2" "ready s3"
    using Read_next [of "length data" s2 "[]"] s2 by auto
  show ?thesis
  proof (cases "data = []")
    case True
    moreover have "strstr [] ''chunked'' = None" by code_simp
    ultimately show ?thesis using s1 s2 by (simp add: http_exchange_def http_body_def)
  next
    case False
    with s1 s2 s3 show ?thesis by (simp add: http_exchange_def http_body_def)
  qed
qed

lemma fetch_chunked:
  assumes "ready s" "\<And>b. body = Some b \<Longrightarrow> length b < 2 ^ 32" "reply_head st reason hdrs"
    "\<forall>c \<in> set cs. c \<noteq> [] \<and> int (length c) \<le> CMUTIL_HTTP_MAX_BODY" "content s = reply_in_chunks st reason hdrs cs @ rest"
  shows "\<exists>s'. http_exchange ops ih verb headers uri body s =
      Some (\<lparr>hr_status = Some st, hr_body = Some (concat cs), hr_keepalive = hc_keepalive ih\<rparr>, s') \<and>
    content s' = rest \<and> out s' = out s @ request_text ih verb headers uri body \<and> ready s'"
proof -
  obtain s1 where s1: "write_request ops ih verb headers uri body s = (CMSocketOk, s1)" "content s1 = content s"
    "out s1 = out s @ request_text ih verb headers uri body" "ready s1"
    using write_request_all [OF assms(1), of body ih verb headers uri] assms(2) by blast
  let ?data = "concat (map chunk_text cs) @ ''0'' @ CR # LF # CR # LF # rest"
  have c: "content s1 = lines_text (status_line st reason # map header_line (hdrs @ [(''Transfer-Encoding'', ''chunked'')]))
      @ CR # LF # ?data"
    using assms(5) s1(2) by (simp add: reply_in_chunks_def)
  obtain s2 where s2: "content s2 = ?data" "out s2 = out s1" "ready s2" "http_response ops (hc_keepalive ih) s1 =
      map_option (\<lambda>(res, s3). (\<lparr>hr_status = Some st, hr_body = res, hr_keepalive = hc_keepalive ih\<rparr>, s3))
        (http_body ops \<lparr>hh_len = 0, hh_transfer = ''chunked'', hh_keepalive = hc_keepalive ih\<rparr> s2)"
    using response_next [OF c assms(3) fits_chunked chunked_read] s1(4) by auto
  obtain s3 where s3: "http_chunks ops [] s2 = Some (Some (concat cs), s3)" "content s3 = rest" "out s3 = out s2" "ready s3"
    using chunks_next [of s2 cs "[]" rest "[]"] s2 assms(4) by (auto simp: line_free_def)
  have "strstr ''chunked'' ''chunked'' \<noteq> None" by code_simp
  with s1 s2 s3 show ?thesis by (auto simp: http_exchange_def http_body_def)
qed

end


section \<open>Kept connections\<close>

text \<open>What the pools stand for: a queue of sockets for each host and port.\<close>

definition pools_ok :: "(string \<times> (pool_elem, 's http_net) pool) list \<Rightarrow> bool" where
  "pools_ok pools \<longleftrightarrow>
     (\<forall>k p. map_of pools k = Some p \<longrightarrow>
        pl_create p = None \<and> \<not> pl_testonb p \<and> pl_semp p = 5 + length (pl_avail p) \<and>
        (\<forall>e \<in> set (pl_avail p). el_sock e \<noteq> NULL))"

definition kept :: "'s http_ctx \<Rightarrow> string \<Rightarrow> int \<Rightarrow> nat list" where
  "kept ctx host port =
     (case map_of (fst ctx) (pool_key host port) of None \<Rightarrow> [] | Some p \<Rightarrow> map (\<lambda>e. the (el_sock e)) (pl_avail p))"

text \<open>A host as \<open>ParseUrl\<close> leaves it, and a port.\<close>

definition endpoint :: "string \<Rightarrow> int \<Rightarrow> bool" where
  "endpoint host port \<longleftrightarrow> length host < CMUTIL_HTTP_HOST_MAX \<and> 0 < port \<and> port \<le> 65535"

lemma last_split:
  assumes "a @ c # b = a' @ c # b'" "c \<notin> set b" "c \<notin> set b'"
  shows "a = a' \<and> b = b'"
proof -
  have "rev b @ c # rev a = rev b' @ c # rev a'" using arg_cong [OF assms(1), of rev] by simp
  moreover have "c \<notin> set (rev b)" "c \<notin> set (rev b')" using assms(2,3) by simp_all
  ultimately have "rev b = rev b'" "c # rev a = c # rev a'"
    using while_neq(1,2) [of c "rev b" "rev a"] while_neq(1,2) [of c "rev b'" "rev a'"] by metis+
  then show ?thesis by simp
qed

lemma dec_inj: "0 \<le> v \<Longrightarrow> v < 2 ^ 62 \<Longrightarrow> 0 \<le> w \<Longrightarrow> w < 2 ^ 62 \<Longrightarrow> dec v = dec w \<longleftrightarrow> v = w"
  by (metis fst_conv strtoll_small)

lemma pool_key_inj:
  assumes "endpoint h p" "endpoint h' p'"
  shows "pool_key h p = pool_key h' p' \<longleftrightarrow> h = h' \<and> p = p'"
proof -
  have k: "pool_key h p = h @ CHR '':'' # dec p" if "endpoint h p" for h p
  proof -
    have "length (dec p) \<le> 5" using length_dec_small [of "nat p" 5] that by (simp add: endpoint_def nat_less_iff)
    then have "length (h @ CHR '':'' # dec p) \<le> CMUTIL_HTTP_POOLKEY_MAX - 1"
      using that by (simp add: endpoint_def CMUTIL_HTTP_POOLKEY_MAX_def CMUTIL_HTTP_HOST_MAX_def)
    then show ?thesis by (simp add: pool_key_def)
  qed
  have "CHR '':'' \<notin> set (dec p)" "CHR '':'' \<notin> set (dec p')" by (rule dec_no; simp)+
  then show ?thesis
    using k [OF assms(1)] k [OF assms(2)] last_split [of h "CHR '':''" "dec p" h' "dec p'"] dec_inj [of p p'] assms
    by (auto simp: endpoint_def)
qed

lemma new_pool_ok:
  "pl_create (new_pool ops net) = None" "\<not> pl_testonb (new_pool ops net)" "pl_semp (new_pool ops net) = 5"
  "pl_avail (new_pool ops net) = []"
  by (simp_all add: new_pool_def PoolCreateInternal_def)

lemma kept_put:
  assumes "endpoint h p" "endpoint h' p'"
  shows "kept (al_put (pool_key h p) q pools, net) h' p' =
    (if h' = h \<and> p' = p then map (\<lambda>e. the (el_sock e)) (pl_avail q) else kept (pools, net0) h' p')"
  using pool_key_inj [OF assms] by (auto simp: kept_def map_of_al_put)

lemma PutSocket_kept:
  assumes "pools_ok pools" "endpoint h p"
  obtains pools' where "HttpContextPutSocket ops h p i (pools, net) = (pools', net)" "pools_ok pools'"
    "\<And>h' p'. endpoint h' p' \<Longrightarrow>
       kept (pools', net) h' p' = (if h' = h \<and> p' = p then kept (pools, net) h p @ [i] else kept (pools, net) h' p')"
proof -
  define q where "q = (case map_of pools (pool_key h p) of None \<Rightarrow> new_pool ops net | Some q \<Rightarrow> q)"
  let ?q = "PoolRelease q (SocketPoolElemCreate i h p net)"
  have "pl_create q = None \<and> \<not> pl_testonb q \<and> pl_semp q = 5 + length (pl_avail q) \<and>
    (\<forall>e \<in> set (pl_avail q). el_sock e \<noteq> NULL) \<and> kept (pools, net) h p = map (\<lambda>e. the (el_sock e)) (pl_avail q)"
    using assms(1) by (auto simp: q_def pools_ok_def kept_def new_pool_ok split: option.splits)
  then have "pools_ok (al_put (pool_key h p) ?q pools)"
    "map (\<lambda>e. the (el_sock e)) (pl_avail ?q) = kept (pools, net) h p @ [i]"
    using assms(1)
    by (auto simp: pools_ok_def map_of_al_put PoolRelease_def pool_put_def sem_release_def SocketPoolElemCreate_def)
  moreover have "HttpContextPutSocket ops h p i (pools, net) = (al_put (pool_key h p) ?q pools, net)"
    by (simp add: HttpContextPutSocket_def q_def)
  moreover have "kept (al_put (pool_key h p) ?q pools, net) h' p' =
      (if h' = h \<and> p' = p then kept (pools, net) h p @ [i] else kept (pools, net) h' p')" if "endpoint h' p'" for h' p'
    unfolding kept_put [OF assms(2) that, of ?q pools net net] calculation(2) ..
  ultimately show ?thesis by (intro that)
qed

lemma GetSocket_kept:
  assumes "pools_ok pools" "endpoint h p"
  obtains pools' where
    "HttpContextGetSocket h p (pools, net) =
       (case kept (pools, net) h p of [] \<Rightarrow> NULL | i # _ \<Rightarrow> Some i, (pools', net))" "pools_ok pools'"
    "\<And>h' p'. endpoint h' p' \<Longrightarrow>
       kept (pools', net) h' p' = (if h' = h \<and> p' = p then tl (kept (pools, net) h p) else kept (pools, net) h' p')"
proof (cases "map_of pools (pool_key h p)")
  case None
  then show ?thesis using assms(1) that [of pools] by (simp add: HttpContextGetSocket_def kept_def)
next
  case (Some q)
  with assms(1) have q: "pl_create q = None" "\<not> pl_testonb q" "pl_semp q = 5 + length (pl_avail q)"
    "\<forall>e \<in> set (pl_avail q). el_sock e \<noteq> NULL" by (auto simp: pools_ok_def)
  define q' where "q' = fst (snd (PoolCheckOut q net))"
  have o: "PoolCheckOut q net = (case pl_avail q of [] \<Rightarrow> NULL | e # _ \<Rightarrow> Some e, q', net)"
    "pl_avail q' = tl (pl_avail q)" "pl_create q' = None" "\<not> pl_testonb q'" "pl_semp q' = 5 + length (pl_avail q')"
    using q by (auto simp: q'_def PoolCheckOut_def sem_acquire_def pool_take_def pool_create_one_def sem_release_def
        split: list.splits)
  have "HttpContextGetSocket h p (pools, net) =
      (case kept (pools, net) h p of [] \<Rightarrow> NULL | i # _ \<Rightarrow> Some i, (al_put (pool_key h p) q' pools, net))"
    using Some q(4) by (cases "pl_avail q") (auto simp: HttpContextGetSocket_def kept_def o(1))
  moreover have "pools_ok (al_put (pool_key h p) q' pools)"
    using assms(1) o q(4) list.set_sel(2) [of "pl_avail q"] by (auto simp: pools_ok_def map_of_al_put) (metis list.sel(2))
  moreover have "kept (al_put (pool_key h p) q' pools, net) h' p' =
      (if h' = h \<and> p' = p then tl (kept (pools, net) h p) else kept (pools, net) h' p')" if "endpoint h' p'" for h' p'
    using kept_put [OF assms(2) that, of q' pools net net] Some o(2) by (simp add: kept_def map_tl)
  ultimately show ?thesis by (rule that)
qed


section \<open>Clients and requests\<close>

definition client_ok :: "http_client \<Rightarrow> bool" where
  "client_ok ih \<longleftrightarrow>
     endpoint (hc_host ih) (hc_port ih) \<and> hc_host ih \<noteq> [] \<and> CHR '':'' \<notin> set (hc_host ih) \<and>
     length (hc_cafile ih) < PATH_MAX \<and> length (hc_keyfile ih) < PATH_MAX \<and> length (hc_certfile ih) < PATH_MAX"

lemma upto_char_no: "c \<notin> set (upto_char c s)"
  by (auto simp: upto_char_def dest: set_takeWhileD)

lemma upto_char_le: "set (upto_char c s) \<subseteq> set s"
  by (auto simp: upto_char_def dest: set_takeWhileD)

lemma ParseUrl_ok:
  assumes "HttpClientParseUrl ih url = (True, ih')"
  shows "endpoint (hc_host ih') (hc_port ih') \<and> hc_host ih' \<noteq> [] \<and> CHR '':'' \<notin> set (hc_host ih') \<and>
    hc_cafile ih' = hc_cafile ih \<and> hc_keyfile ih' = hc_keyfile ih \<and> hc_certfile ih' = hc_certfile ih"
proof -
  obtain p0 where p0: "from_char (CHR '':'') url = Some p0" "take 3 p0 = ''://''"
    using assms by (auto simp: HttpClientParseUrl_def split: option.splits if_splits)
  show ?thesis
  proof (cases "from_char (CHR '':'') (drop 3 p0)")
    case None
    then have n: "CHR '':'' \<notin> set (drop 3 p0)" by (simp add: from_char_def split: if_splits)
    then have "CHR '':'' \<notin> set (upto_char (CHR ''/'') (drop 3 p0))" using upto_char_le by blast
    with assms p0 None show ?thesis
      by (auto simp: HttpClientParseUrl_def Let_def endpoint_def CMUTIL_HTTP_HOST_MAX_def split: if_splits)
  next
    case (Some q0)
    then show ?thesis using assms p0 upto_char_no [of "CHR '':''" "drop 3 p0"]
      by (auto simp: HttpClientParseUrl_def Let_def endpoint_def CMUTIL_HTTP_HOST_MAX_def split: if_splits)
  qed
qed

lemma Create_ok: "HttpClientCreateInternal url = Some ih \<Longrightarrow> client_ok ih"
proof -
  assume c: "HttpClientCreateInternal url = Some ih"
  then obtain ih1 where p: "HttpClientParseUrl
      \<lparr>hc_host = [], hc_port = 0, hc_ishttps = False, hc_verifypeer = False, hc_verifyhost = False,
       hc_keepalive = True, hc_cafile = [], hc_keyfile = [], hc_certfile = []\<rparr> url = (True, ih1)"
    and ih: "ih = ih1\<lparr>hc_verifyhost := True, hc_verifypeer := False\<rparr>"
    by (auto simp: HttpClientCreateInternal_def split: prod.splits bool.splits)
  from ParseUrl_ok [OF p] show ?thesis by (simp add: ih client_ok_def PATH_MAX_def)
qed

text \<open>A reply in one of the two framings.\<close>

definition reply :: "int \<Rightarrow> string \<Rightarrow> (string \<times> string) list \<Rightarrow> string \<Rightarrow> string \<Rightarrow> bool" where
  "reply st reason hdrs data t \<longleftrightarrow>
     reply_head st reason hdrs \<and>
     (t = reply_by_length st reason hdrs data \<and> int (length data) \<le> CMUTIL_HTTP_MAX_BODY \<or>
      (\<exists>cs. t = reply_in_chunks st reason hdrs cs \<and> data = concat cs \<and>
         (\<forall>c \<in> set cs. c \<noteq> [] \<and> int (length c) \<le> CMUTIL_HTTP_MAX_BODY)))"

context byte_stream
begin

lemma fetch:
  assumes "ready s" "\<And>b. body = Some b \<Longrightarrow> length b < 2 ^ 32" "reply st reason hdrs data t" "content s = t @ rest"
  shows "\<exists>s'. http_exchange ops ih verb headers uri body s =
      Some (\<lparr>hr_status = Some st, hr_body = Some data, hr_keepalive = hc_keepalive ih\<rparr>, s') \<and>
    content s' = rest \<and> out s' = out s @ request_text ih verb headers uri body \<and> ready s'"
proof -
  have h: "reply_head st reason hdrs" using assms(3) by (simp add: reply_def)
  consider "content s = reply_by_length st reason hdrs data @ rest" "int (length data) \<le> CMUTIL_HTTP_MAX_BODY"
    | cs where "content s = reply_in_chunks st reason hdrs cs @ rest" "data = concat cs"
      "\<forall>c \<in> set cs. c \<noteq> [] \<and> int (length c) \<le> CMUTIL_HTTP_MAX_BODY"
    using assms(3,4) unfolding reply_def by blast
  then show ?thesis
  proof cases
    case 1
    show ?thesis by (rule fetch_length [OF assms(1) _ h 1(2,1)]) (rule assms(2))
  next
    case (2 cs)
    show ?thesis unfolding 2(2) by (rule fetch_chunked [OF assms(1) _ h 2(3,1)]) (rule assms(2))
  qed
qed

lemma request_next:
  assumes "HttpClientGetSocket connect ih ctx = (Some i, (pools, net))" "pools_ok pools" "client_ok ih"
    "ready (hn_sock net i)" "\<And>b. body = Some b \<Longrightarrow> length b < 2 ^ 32" "reply st reason hdrs data t"
    "content (hn_sock net i) = t @ rest"
  shows "\<exists>s' pools' net'.
    HttpClientRequest ops connect ih verb headers uri body ctx = Some (Some data, Some st, (pools', net')) \<and>
    content s' = rest \<and> out s' = out (hn_sock net i) @ request_text ih verb headers uri body \<and> ready s' \<and>
    hn_sock net' = (hn_sock net)(i := (if hc_keepalive ih then s' else so_Close ops s')) \<and> pools_ok pools' \<and>
    (\<forall>h p. endpoint h p \<longrightarrow>
       kept (pools', net') h p =
         (if hc_keepalive ih \<and> h = hc_host ih \<and> p = hc_port ih then kept (pools, net) h p @ [i] else kept (pools, net) h p))"
proof -
  obtain s' where s': "http_exchange ops ih verb headers uri body (hn_sock net i) =
      Some (\<lparr>hr_status = Some st, hr_body = Some data, hr_keepalive = hc_keepalive ih\<rparr>, s')"
    "content s' = rest" "out s' = out (hn_sock net i) @ request_text ih verb headers uri body" "ready s'"
    using fetch [OF assms(4) _ assms(6,7), of body ih verb headers uri] assms(5) by blast
  let ?net = "net\<lparr>hn_sock := (hn_sock net)(i := s')\<rparr>"
  have k: "kept (pools, net1) h p = kept (pools, net) h p" for net1 :: "'s http_net" and h p by (simp add: kept_def)
  show ?thesis
  proof (cases "hc_keepalive ih")
    case True
    obtain pools' where "HttpContextPutSocket ops (hc_host ih) (hc_port ih) i (pools, ?net) = (pools', ?net)" "pools_ok pools'"
      "\<And>h p. endpoint h p \<Longrightarrow> kept (pools', ?net) h p =
         (if h = hc_host ih \<and> p = hc_port ih then kept (pools, ?net) (hc_host ih) (hc_port ih) @ [i] else kept (pools, ?net) h p)"
      using PutSocket_kept [OF assms(2)] assms(3) unfolding client_ok_def by metis
    note put = this
    have "HttpClientRequest ops connect ih verb headers uri body ctx = Some (Some data, Some st, (pools', ?net))"
      using True s'(1) assms(1) put(1) by (simp add: HttpClientRequest_def)
    then show ?thesis
      using True s'(2-4) put(2,3) k by (intro exI [of _ s'] exI [of _ pools'] exI [of _ ?net]) simp
  next
    case False
    have "HttpClientRequest ops connect ih verb headers uri body ctx =
        Some (Some data, Some st, (pools, close_socket ops i ?net))"
      using False s'(1) assms(1) by (simp add: HttpClientRequest_def)
    then show ?thesis
      using False s'(2-4) assms(2) k
      by (intro exI [of _ s'] exI [of _ pools] exI [of _ "close_socket ops i ?net"]) (simp add: close_socket_def)
  qed
qed

end


context byte_stream_end
begin

lemma ReadLine_end:
  assumes "ready s" "content s = []"
  shows "\<exists>s'. HttpClientReadLine ops len s = Some (False, [], s')"
proof -
  obtain s' where "so_ReadByte ops s = (- 1, s')" using ReadByte_end assms by blast
  then show ?thesis
    by (cases "0 < len - 1") (simp_all add: HttpClientReadLine_def read_line_loop.simps [of ops len "[]"])
qed

lemma headers_cut:
  assumes "ready s" "content s = lines_text ls" "\<forall>l \<in> set ls. fits_line l" "http_heads asked ls h = Some h'"
  shows "\<exists>s'. http_headers ops asked h s = Some (Some h', s')"
  using assms
proof (induction ls arbitrary: s h)
  case Nil
  then obtain s' where "HttpClientReadLine ops 4096 s = Some (False, [], s')" using ReadLine_end [of s 4096] by auto
  with Nil(4) show ?case by (subst http_headers.simps) simp
next
  case (Cons l ls)
  obtain s1 where s1: "HttpClientReadLine ops 4096 s = Some (True, l, s1)" "content s1 = lines_text ls" "ready s1"
    using ReadLine_next [of s l "lines_text ls" 4096] Cons.prems(1-3) by (auto simp: fits_line_def)
  obtain h1 where h1: "http_header asked l h = Some h1" "http_heads asked ls h1 = Some h'"
    using Cons.prems(4) by (auto simp: bind_eq_Some_conv)
  have "l \<noteq> []" using Cons.prems(3) by (simp add: fits_line_def)
  then have "http_headers ops asked h s = http_headers ops asked h1 s1"
    using s1(1) h1(1) by (simp add: http_headers.simps [of ops asked h])
  then show ?case using Cons.IH [OF s1(3,2) _ h1(2)] Cons.prems(3) by auto
qed

lemma chunks_cut:
  assumes "ready s" "content s = concat (map chunk_text cs)"
    "\<forall>c \<in> set cs. c \<noteq> [] \<and> int (length c) \<le> CMUTIL_HTTP_MAX_BODY"
  shows "\<exists>s'. http_chunks ops res s = Some (Some (res @ concat cs), s')"
  using assms
proof (induction cs arbitrary: s res)
  case Nil
  then obtain s' where "HttpClientReadLine ops 4096 s = Some (False, [], s')" using ReadLine_end [of s 4096] by auto
  then show ?case by (simp add: http_chunks.simps [of ops res])
next
  case (Cons c cs)
  obtain s3 where "http_chunks ops res s = http_chunks ops (res @ c) s3" "content s3 = concat (map chunk_text cs)" "ready s3"
    using chunk_next [of s c "concat (map chunk_text cs)" res] Cons.prems by auto
  with Cons.IH [of s3 "res @ c"] Cons.prems(3) show ?case by auto
qed

lemma cut_in_headers:
  assumes "ready s" "reply_head st reason hdrs" "content s = lines_text (status_line st reason # map header_line hdrs)"
  shows "\<exists>s'. http_response ops asked s = Some (\<lparr>hr_status = Some st, hr_body = Some [], hr_keepalive = asked\<rparr>, s')"
proof -
  let ?ls = "map header_line hdrs"
  have fl: "\<forall>l \<in> set ?ls. fits_line l" using assms(2) fits_header_line by (auto simp: reply_head_def)
  obtain s1 where s1: "HttpClientReadLine ops 4096 s = Some (True, status_line st reason, s1)"
    "content s1 = lines_text ?ls" "ready s1"
    using ReadLine_next [of s "status_line st reason" "lines_text ?ls" 4096] fits_status_line [OF assms(2)] assms(1,3)
    by (auto simp: fits_line_def)
  obtain s2 where "http_headers ops asked \<lparr>hh_len = 0, hh_transfer = [], hh_keepalive = asked\<rparr> s1 =
      Some (Some \<lparr>hh_len = 0, hh_transfer = [], hh_keepalive = asked\<rparr>, s2)"
    using headers_cut [OF s1(3,2) fl http_heads_plain [of hdrs asked]] assms(2) by (auto simp: reply_head_def)
  moreover have "http_status_line asked (status_line st reason) = Some (asked, st)"
    using status_line_read assms(2) by (simp add: reply_head_def)
  moreover have "strstr [] ''chunked'' = None" by code_simp
  ultimately show ?thesis using s1(1) by (simp add: http_response_def http_body_def)
qed

lemma cut_in_chunks:
  assumes "ready s" "reply_head st reason hdrs" "\<forall>c \<in> set cs. c \<noteq> [] \<and> int (length c) \<le> CMUTIL_HTTP_MAX_BODY"
    "content s = lines_text (status_line st reason # map header_line (hdrs @ [(''Transfer-Encoding'', ''chunked'')])) @
      CR # LF # concat (map chunk_text cs)"
  shows "\<exists>s'. http_response ops asked s = Some (\<lparr>hr_status = Some st, hr_body = Some (concat cs), hr_keepalive = asked\<rparr>, s')"
proof -
  obtain s2 where s2: "content s2 = concat (map chunk_text cs)" "ready s2" "http_response ops asked s =
      map_option (\<lambda>(res, s3). (\<lparr>hr_status = Some st, hr_body = res, hr_keepalive = asked\<rparr>, s3))
        (http_body ops \<lparr>hh_len = 0, hh_transfer = ''chunked'', hh_keepalive = asked\<rparr> s2)"
    using response_next [OF assms(4,2) fits_chunked chunked_read] assms(1) by auto
  obtain s3 where "http_chunks ops [] s2 = Some (Some (concat cs), s3)"
    using chunks_cut [OF s2(2,1) assms(3), of "[]"] by auto
  moreover have "strstr ''chunked'' ''chunked'' \<noteq> None" by code_simp
  ultimately show ?thesis using s2(3) by (auto simp: http_body_def)
qed

lemma cut_in_body:
  assumes "ready s" "reply_head st reason hdrs" "int n \<le> CMUTIL_HTTP_MAX_BODY" "length data < n"
    "content s = lines_text (status_line st reason # map header_line (hdrs @ [(''Content-Length'', dec (int n))])) @
      CR # LF # data"
  shows "\<exists>s'. http_response ops asked s = Some (\<lparr>hr_status = Some st, hr_body = None, hr_keepalive = asked\<rparr>, s')"
proof -
  obtain s2 where s2: "content s2 = data" "ready s2" "http_response ops asked s =
      map_option (\<lambda>(res, s3). (\<lparr>hr_status = Some st, hr_body = res, hr_keepalive = asked\<rparr>, s3))
        (http_body ops \<lparr>hh_len = n, hh_transfer = [], hh_keepalive = asked\<rparr> s2)"
    using response_next [OF assms(5,2) fits_content_length [OF assms(3)] content_length_read [OF assms(3)]] assms(1) by auto
  moreover obtain sr b s3 where "so_Read ops n [] s2 = (sr, b, s3)" "sr \<noteq> CMSocketOk"
    using Read_end [of s2 n "[]"] s2 assms(4) by blast
  ultimately show ?thesis using assms(4) by (auto simp: http_body_def)
qed

end

section \<open>Every exchange returns\<close>

text \<open>What is left of the events: their bytes, and one for each event.\<close>

definition rx_left :: "socket \<Rightarrow> nat" where
  "rx_left s = sum_list (map (\<lambda>e. case e of Rx_Data d \<Rightarrow> Suc (length d) | _ \<Rightarrow> 1) (sk_rx s))"

lemma check_left: "SocketCheckReadBuffer s = (sr, s') \<Longrightarrow> rx_left s' \<le> rx_left s"
  by (auto simp: SocketCheckReadBuffer_def rx_left_def split: list.splits rx.splits)

lemma recv_left:
  assumes "sock_recv n s = (r, s')"
  shows "rx_left s' \<le> rx_left s" "case r of Received d \<Rightarrow> d = [] \<or> rx_left s' < rx_left s | _ \<Rightarrow> True"
  using assms
  by (auto simp: sock_recv_def rx_left_def split: list.splits rx.splits if_splits)

lemma SocketReadByte_left: "SocketReadByte s = (b, s') \<Longrightarrow> rx_left s' \<le> rx_left s \<and> (- 1 < b \<longrightarrow> rx_left s' < rx_left s)"
proof (induction s arbitrary: b s' rule: SocketReadByte.induct)
  case (1 s)
  obtain sr s1 where c: "SocketCheckReadBuffer s = (sr, s1)" by fastforce
  obtain r s2 where v: "sock_recv 1 s1 = (r, s2)" by fastforce
  note l = check_left [OF c] recv_left [OF v]
  show ?case
  proof (cases "sr = CMSocketOk \<and> r = Recv_Block")
    case True
    with 1(2) c v have "SocketReadByte s2 = (b, s')" by (subst (asm) SocketReadByte.simps) simp
    with 1(1) [OF c [symmetric] _ v [symmetric]] True l show ?thesis by fastforce
  next
    case False
    then have "s' = s1 \<and> b = - 1 \<or> s' = s2 \<and> (b = - 1 \<or> (\<exists>d. r = Received d \<and> d \<noteq> []))"
      using 1(2) c v by (subst (asm) SocketReadByte.simps) (auto split: sresult.splits recv.splits if_splits)
    with l show ?thesis by (auto dest: less_le_trans)
  qed
qed

lemma SocketRead_left: "SocketRead n buf s = (sr, buf', s') \<Longrightarrow> rx_left s' \<le> rx_left s"
proof (induction n buf s arbitrary: sr buf' s' rule: SocketRead.induct)
  case (1 n buf s)
  obtain r1 s1 where c: "SocketCheckReadBuffer s = (r1, s1)" by fastforce
  obtain rc s2 where v: "sock_recv (min n CMUTIL_RBUF_LEN) s1 = (rc, s2)" by fastforce
  note l = check_left [OF c] recv_left [OF v]
  show ?case
  proof (cases "n \<noteq> 0 \<and> r1 = CMSocketOk \<and> (\<exists>d. rc = Received d \<and> d \<noteq> [])")
    case True
    then obtain d where d: "n \<noteq> 0" "r1 = CMSocketOk" "rc = Received d" "d \<noteq> []" by blast
    with 1(2) c v have "SocketRead (n - length d) (buf @ d) s2 = (sr, buf', s')"
      by (subst (asm) SocketRead.simps) simp
    from 1(1) [OF d(1) c [symmetric] d(2) v [symmetric] d(3,4) this] l(1,2) show ?thesis by simp
  next
    case False
    then have "s' = s \<or> s' = s1 \<or> s' = s2"
      using 1(2) c v by (subst (asm) SocketRead.simps) (auto split: sresult.splits recv.splits if_splits)
    with l(1,2) show ?thesis by auto
  qed
qed

text \<open>A socket on which something is left to come that every byte read uses up.\<close>

locale dry_stream =
  fixes ops :: "'s sock_ops" and left :: "'s \<Rightarrow> nat"
  assumes ReadByte_left: "so_ReadByte ops s = (b, s') \<Longrightarrow> left s' \<le> left s \<and> (- 1 < b \<longrightarrow> left s' < left s)"
    and Read_left: "so_Read ops n buf s = (sr, buf', s') \<Longrightarrow> left s' \<le> left s"
begin

lemma read_line_loop_returns:
  "\<exists>ok buf' s'. read_line_loop ops len buf s = Some (ok, buf', s') \<and> left s' \<le> left s \<and>
    (buf' \<noteq> buf \<or> ok \<longrightarrow> left s' < left s)"
proof (induction "left s" arbitrary: s buf rule: less_induct)
  case less
  obtain b s1 where b: "so_ReadByte ops s = (b, s1)" by fastforce
  note l = ReadByte_left [OF b]
  show ?case
  proof (cases "length buf < len - 1 \<and> - 1 < b \<and> b \<noteq> 10")
    case True
    with l have "left s1 < left s" by simp
    from less [OF this, of "if b \<noteq> 13 then buf @ [char_of b] else buf"] True b this show ?thesis
      by (subst read_line_loop.simps) (fastforce intro: less_imp_le)
  next
    case False
    with b l show ?thesis by (subst read_line_loop.simps) auto
  qed
qed

lemma ReadLine_returns:
  obtains ok buf s' where "HttpClientReadLine ops len s = Some (ok, buf, s')" "left s' \<le> left s"
    "buf \<noteq> [] \<or> ok \<longrightarrow> left s' < left s"
proof -
  obtain ok buf s' where r: "read_line_loop ops len [] s = Some (ok, buf, s')" "left s' \<le> left s"
    "buf \<noteq> [] \<or> ok \<longrightarrow> left s' < left s"
    using read_line_loop_returns by blast
  then show ?thesis by (intro that [of ok "cstr buf" s']) (auto simp: HttpClientReadLine_def cstr_def)
qed

lemma headers_return:
  "\<exists>head s'. http_headers ops asked h s = Some (head, s') \<and> left s' \<le> left s"
proof (induction "left s" arbitrary: s h rule: less_induct)
  case less
  obtain ok buf s1 where r: "HttpClientReadLine ops 4096 s = Some (ok, buf, s1)" "left s1 \<le> left s"
    "buf \<noteq> [] \<or> ok \<longrightarrow> left s1 < left s" by (rule ReadLine_returns [of 4096 s])
  show ?case
  proof (cases "buf \<noteq> [] \<and> ok \<and> http_header asked buf h \<noteq> None")
    case True
    then obtain h1 where h1: "http_header asked buf h = Some h1" by blast
    from True r(3) have "left s1 < left s" by simp
    with less [OF this, of h1] True h1 r(1) show ?thesis
      by (subst http_headers.simps) (fastforce intro: order_trans less_imp_le)
  next
    case False
    with r(1,2) show ?thesis by (subst http_headers.simps) (auto split: option.splits)
  qed
qed

lemma chunks_return: "\<exists>body s'. http_chunks ops res s = Some (body, s')"
proof (induction "left s" arbitrary: s res rule: less_induct)
  case less
  obtain ok buf s1 where r: "HttpClientReadLine ops 4096 s = Some (ok, buf, s1)" "left s1 \<le> left s"
    "buf \<noteq> [] \<or> ok \<longrightarrow> left s1 < left s" by (rule ReadLine_returns [of 4096 s])
  obtain clen used where c: "strtol16 buf = (clen, used)" by fastforce
  obtain sr res1 s2 where d: "so_Read ops (nat clen) res s1 = (sr, res1, s2)" using prod_cases3 by blast
  obtain ok2 buf2 s3 where r2: "HttpClientReadLine ops 4096 s1 = Some (ok2, buf2, s3)"
    by (rule ReadLine_returns [of 4096 s1])
  obtain ok3 buf3 s4 where r3: "HttpClientReadLine ops 4096 s2 = Some (ok3, buf3, s4)" "left s4 \<le> left s2"
    by (rule ReadLine_returns [of 4096 s2])
  show ?case
  proof (cases "ok \<and> buf \<noteq> []")
    case True
    then have "left s4 < left s" using r(3) r3(2) Read_left [OF d] by simp
    then obtain body s' where "http_chunks ops res1 s4 = Some (body, s')" using less by blast
    with True r(1) c d r2 r3(1) show ?thesis by (subst http_chunks.simps) simp
  next
    case False
    with r(1) show ?thesis by (subst http_chunks.simps) auto
  qed
qed

lemma response_returns: "\<exists>r s'. http_response ops asked s = Some (r, s')"
proof -
  have body: "\<exists>b s'. http_body ops h t = Some (b, s')" for h t
    using chunks_return [of "[]" t] by (auto simp: http_body_def split: prod.splits)
  obtain ok buf s1 where r: "HttpClientReadLine ops 4096 s = Some (ok, buf, s1)"
    by (rule ReadLine_returns [of 4096 s])
  show ?thesis
  proof (cases "if ok then http_status_line asked buf else None")
    case None
    with r show ?thesis by (simp add: http_response_def)
  next
    case (Some ks)
    obtain keep st where ks: "ks = (keep, st)" by fastforce
    obtain head s2 where h: "http_headers ops asked \<lparr>hh_len = 0, hh_transfer = [], hh_keepalive = keep\<rparr> s1 =
        Some (head, s2)" using headers_return by blast
    show ?thesis
    proof (cases head)
      case None
      with r Some ks h show ?thesis by (simp add: http_response_def)
    next
      case head: (Some hd)
      obtain b s3 where "http_body ops hd s2 = Some (b, s3)" using body by blast
      with r Some ks h head show ?thesis by (simp add: http_response_def)
    qed
  qed
qed

end

interpretation ds: dry_stream g_cmutil_socket rx_left
  by unfold_locales (auto simp: g_cmutil_socket_def dest: SocketReadByte_left SocketRead_left)

text \<open>A peer that sends the same bytes again and again: those that arrived, and what was written to it.\<close>

definition endless_peer :: "string \<Rightarrow> (string \<times> string) sock_ops" where
  "endless_peer l =
     \<lparr>so_Read = (\<lambda>n buf s.
        let r = (if n \<le> length (fst s) then fst s else fst s @ concat (replicate n l))
        in (CMSocketOk, buf @ take n r, (drop n r, snd s))),
      so_Write = (\<lambda>d s. (CMSocketOk, (fst s, snd s @ d))),
      so_ReadByte = (\<lambda>s. case (if fst s = [] then l else fst s) of [] \<Rightarrow> (- 1, s) | c # r \<Rightarrow> (code c, (r, snd s))),
      so_CheckReadBuffer = (\<lambda>s. (CMSocketOk, s)), so_Close = (\<lambda>s. s)\<rparr>"

interpretation ep: byte_stream "endless_peer l" fst snd "\<lambda>_. True" for l
  by unfold_locales (auto simp: endless_peer_def)

lemma endless_ReadLine:
  assumes "line_free x" "length x < 4095" "l = x @ CR # LF # r"
  shows "HttpClientReadLine (endless_peer l) 4096 ([], w) = Some (True, x, (r, w))"
proof -
  have "so_ReadByte (endless_peer l) ([], w) = so_ReadByte (endless_peer l) (l, w)"
    using assms(3) by (cases x) (simp_all add: endless_peer_def)
  then have "read_line_loop (endless_peer l) 4096 [] ([], w) = read_line_loop (endless_peer l) 4096 [] (l, w)"
    by (simp add: read_line_loop.simps [of _ _ "[]"])
  then show ?thesis
    using ep.ReadLine_next [of "(l, w)" x r 4096 l] assms by (auto simp: HttpClientReadLine_def)
qed

lemma endless_headers:
  assumes "fits_line x" "\<And>h. http_header asked x h = Some h" "l = x @ [CR, LF]"
  shows "http_headers (endless_peer l) asked h ([], w) = None"
proof (rule ccontr)
  assume "http_headers (endless_peer l) asked h ([], w) \<noteq> None"
  then obtain r where r: "http_headers (endless_peer l) asked h ([], w) = Some r" by blast
  have x: "x \<noteq> []" "HttpClientReadLine (endless_peer l) 4096 ([], w) = Some (True, x, ([], w))"
    using endless_ReadLine [of x l "[]" w] assms(1,3) by (auto simp: fits_line_def)
  have False if "http_headers ops a h s = Some r" "ops = endless_peer l" "a = asked" "s = ([], w)" for ops a h s r
    using that
  proof (induction rule: http_headers.raw_induct [rotated, consumes 1])
    case (1 f ops a h s r)
    then have "f (endless_peer l) asked h ([], w) = Some r" using x assms(2) by simp
    from 1(1) [OF this] show False by simp
  qed
  with r show False by blast
qed

lemma endless_chunks:
  assumes "c \<noteq> []" "int (length c) \<le> CMUTIL_HTTP_MAX_BODY" "l = chunk_text c"
  shows "http_chunks (endless_peer l) res ([], w) = None"
proof (rule ccontr)
  assume "http_chunks (endless_peer l) res ([], w) \<noteq> None"
  then obtain r where r: "http_chunks (endless_peer l) res ([], w) = Some r" by blast
  let ?n = "hexstr (length c)"
  have "length ?n < 4095"
    using hexstr_short [of "length c" 8] assms(2) by (simp add: CMUTIL_HTTP_MAX_BODY_def)
  then have x: "HttpClientReadLine (endless_peer l) 4096 ([], w) = Some (True, ?n, (c @ [CR, LF], w))"
    using endless_ReadLine [of ?n l "c @ [CR, LF]" w] hexstr_line assms(3) by (simp add: chunk_text_def)
  obtain used where u: "strtol16 ?n = (int (length c), used)" "0 < used"
    using strtol16_hexstr [OF assms(2)] by blast
  have rd: "so_Read (endless_peer l) (length c) res (c @ [CR, LF], w) = (CMSocketOk, res @ c, ([CR, LF], w))" for res
    by (simp add: endless_peer_def)
  have y: "HttpClientReadLine (endless_peer l) 4096 ([CR, LF], w) = Some (True, [], ([], w))"
    using ep.ReadLine_next [of "([CR, LF], w)" "[]" "[]" 4096 l] by (auto simp: line_free_def)
  have False if "http_chunks ops res s = Some r" "ops = endless_peer l" "s = ([], w)" for ops res s r
    using that
  proof (induction rule: http_chunks.raw_induct [rotated, consumes 1])
    case (1 f ops res s r)
    then have "f (endless_peer l) (res @ c) ([], w) = Some r" using x u rd y assms(1,2) by simp
    from 1(1) [OF this] show False by simp
  qed
  with r show False by blast
qed

lemma endless_write:
  obtains w' where "write_request (endless_peer l) ih verb headers uri body s = (CMSocketOk, (fst s, w'))"
proof -
  obtain s1 where s1: "write_lines (endless_peer l) (request_lines ih verb headers uri body) s = (CMSocketOk, s1)" "fst s1 = fst s"
    using ep.write_lines_all [of l "request_lines ih verb headers uri body" s] by blast
  obtain s2 where s2: "HttpClientWriteLine (endless_peer l) NULL s1 = (CMSocketOk, s2)" "fst s2 = fst s1"
    using ep.WriteLine_all [of l NULL s1] by auto
  have wr: "so_Write (endless_peer l) d s2 = (CMSocketOk, (fst s, snd s2 @ d))" for d
    using s1(2) s2(2) by (simp add: endless_peer_def)
  show thesis
  proof (cases "body \<noteq> NULL \<and> sends_body verb")
    case True
    then obtain b where "body = Some b" by blast
    with True s1(1) s2(1) wr show thesis by (intro that) (simp add: write_request_def)
  next
    case False
    then have "write_request (endless_peer l) ih verb headers uri body s = (CMSocketOk, s2)"
      using s1(1) s2(1) by (auto simp: write_request_def split: option.splits)
    with s1(2) s2(2) show thesis by (intro that [of "snd s2"]) (simp add: prod_eq_iff)
  qed
qed

lemma endless_request:
  assumes "HttpClientGetSocket connect ih ctx = (Some i, (pools, net))"
    "\<And>w. http_response (endless_peer l) (hc_keepalive ih) (fst (hn_sock net i), w) = None"
  shows "HttpClientRequest (endless_peer l) connect ih verb headers uri body ctx = None"
proof -
  obtain w where "write_request (endless_peer l) ih verb headers uri body (hn_sock net i) = (CMSocketOk, (fst (hn_sock net i), w))"
    by (rule endless_write)
  with assms show ?thesis by (simp add: HttpClientRequest_def http_exchange_def)
qed

section \<open>Properties\<close>

text \<open>
  C6: A client is well formed: from any URL that is accepted comes a host of 1 to 255 bytes without a colon
  and a port in 1..65535, every path of a certificate fits its buffer, and every setter keeps it so.
\<close>

theorem http_client_type:
  "(\<forall>ih. HttpClientCreateInternal url = Some ih \<longrightarrow> client_ok ih) \<and>
   (client_ok c \<longrightarrow> client_ok (HttpClientSetVerify vh vp c) \<and> client_ok (HttpClientSetKeepAlive ka c) \<and>
      client_ok (snd (HttpClientSetSSLCert cert key ca c)))"
  using Create_ok
  by (auto simp: client_ok_def HttpClientSetVerify_def HttpClientSetKeepAlive_def HttpClientSetSSLCert_def or_empty_def
      too_long_def PATH_MAX_def split: option.splits)

definition sample_client :: http_client where
  "sample_client = \<lparr>hc_host = ''h'', hc_port = 80, hc_ishttps = False, hc_verifypeer = False, hc_verifyhost = True,
     hc_keepalive = True, hc_cafile = [], hc_keyfile = [], hc_certfile = []\<rparr>"

theorem http_client_type_witness:
  "HttpClientCreateInternal ''http://h/x'' = Some sample_client \<and> client_ok sample_client"
proof -
  have "HttpClientCreateInternal ''http://h/x'' = Some sample_client" by code_simp
  with http_client_type [of "''http://h/x''"] show ?thesis by blast
qed

text \<open>
  C2: Who an https client talks to. As it is created it checks the certificate against the system's store; the
  name in the certificate is checked by the GnuTLS build, and by the OpenSSL build only when the client was
  given a CA file. With host verification turned off neither build checks anything.
\<close>

theorem https_verification:
  assumes "HttpClientCreateInternal url = Some c" "hc_ishttps c" "cafile \<noteq> []" "length cafile < PATH_MAX"
  defines "d \<equiv> snd (HttpClientSetSSLCert NULL NULL (Some cafile) c)"
  shows "map_option tls_trust (conn_setup openssl_setup (conn_args c)) = Some Trust_System \<and>
    map_option tls_checked_name (conn_setup openssl_setup (conn_args c)) = Some None \<and>
    map_option tls_checked_name (conn_setup gnutls_setup (conn_args c)) = Some (Some (hc_host c)) \<and>
    map_option tls_trust (conn_setup openssl_setup (conn_args d)) = Some (Trust_CA cafile) \<and>
    map_option tls_checked_name (conn_setup openssl_setup (conn_args d)) = Some (Some (hc_host c)) \<and>
    map_option tls_trust (conn_setup openssl_setup (conn_args (HttpClientSetVerify False vp c))) = Some Trust_None \<and>
    map_option tls_trust (conn_setup gnutls_setup (conn_args (HttpClientSetVerify False vp c))) = Some Trust_None"
proof -
  have c: "hc_verifyhost c" "\<not> hc_verifypeer c" "hc_cafile c = []" "hc_host c \<noteq> []"
  proof -
    obtain ih1 where p: "HttpClientParseUrl
        \<lparr>hc_host = [], hc_port = 0, hc_ishttps = False, hc_verifypeer = False, hc_verifyhost = False,
         hc_keepalive = True, hc_cafile = [], hc_keyfile = [], hc_certfile = []\<rparr> url = (True, ih1)"
      and ih: "c = ih1\<lparr>hc_verifyhost := True, hc_verifypeer := False\<rparr>"
      using assms(1) by (auto simp: HttpClientCreateInternal_def split: prod.splits bool.splits)
    from ParseUrl_ok [OF p] show "hc_verifyhost c" "\<not> hc_verifypeer c" "hc_cafile c = []" "hc_host c \<noteq> []"
      by (simp_all add: ih)
  qed
  have d: "hc_ishttps d" "hc_cafile d = cafile" "hc_host d = hc_host c" "hc_verifyhost d"
    using assms(2,3,4) c by (simp_all add: d_def HttpClientSetSSLCert_def too_long_def or_empty_def)
  show ?thesis
    using assms(2,3) c d
    by (simp add: conn_args_def conn_setup_def openssl_setup_def gnutls_setup_def given_def HttpClientSetVerify_def)
qed

theorem https_verification_witness:
  "map_option tls_checked_name (conn_setup openssl_setup (conn_args (sample_client\<lparr>hc_ishttps := True, hc_port := 443\<rparr>))) =
    Some None"
proof -
  have "HttpClientCreateInternal ''https://h'' = Some (sample_client\<lparr>hc_ishttps := True, hc_port := 443\<rparr>)" by code_simp
  from https_verification [OF this, of "''ca''" False] show ?thesis by (simp add: PATH_MAX_def)
qed

text \<open>
  What a URL says: scheme, host, port and a path; without a port it is 443 for https and 80 for anything
  else. The colon of the port is searched in the whole rest of the URL: one in the path is taken for it.
\<close>

theorem http_parse_url:
  assumes "CHR '':'' \<notin> set scheme" "CHR '':'' \<notin> set host" "CHR ''/'' \<notin> set host" "host \<noteq> []"
    "length host < CMUTIL_HTTP_HOST_MAX" "0 < port" "port \<le> 65535" "path = [] \<or> hd path = CHR ''/''"
  shows "HttpClientParseUrl ih (scheme @ ''://'' @ host @ '':'' @ dec port @ path) =
      (True, ih\<lparr>hc_ishttps := (scheme = ''https''), hc_host := host, hc_port := port\<rparr>) \<and>
    (CHR '':'' \<notin> set path \<longrightarrow> HttpClientParseUrl ih (scheme @ ''://'' @ host @ path) =
      (True, ih\<lparr>hc_ishttps := (scheme = ''https''), hc_host := host, hc_port := (if scheme = ''https'' then 443 else 80)\<rparr>)) \<and>
    (\<forall>q. path = CHR ''/'' # q @ '':'' @ dec port \<and> CHR '':'' \<notin> set q \<and> length host + length q < 255 \<longrightarrow>
      HttpClientParseUrl ih (scheme @ ''://'' @ host @ path) =
      (True, ih\<lparr>hc_ishttps := (scheme = ''https''), hc_host := host @ CHR ''/'' # q, hc_port := port\<rparr>))"
proof (intro conjI impI allI)
  have scheme: "upto_char (CHR '':'') (scheme @ ''://'' @ r) = scheme" "from_char (CHR '':'') (scheme @ ''://'' @ r) = Some (''://'' @ r)" for r
    using upto_from_char(1,2) [OF assms(1), of "''//'' @ r"] by simp_all
  have port: "upto_char (CHR ''/'') (dec port @ r) = dec port" if "r = [] \<or> hd r = CHR ''/''" for r
  proof -
    have "CHR ''/'' \<notin> set (dec port)" by (rule dec_no) simp_all
    with that upto_from_char(1,3) [of "CHR ''/''" "dec port"] show ?thesis by (cases r) auto
  qed
  obtain n where n: "strtoll (dec port) = (port, n)" using strtoll_small [of port] assms(6,7) by auto
  have len: "length (dec port) \<le> 5" using length_dec_small [of "nat port" 5] assms(6,7) by (simp add: nat_less_iff)
  have ported: "HttpClientParseUrl ih (scheme @ ''://'' @ h @ '':'' @ dec port @ r) =
      (True, ih\<lparr>hc_ishttps := (scheme = ''https''), hc_host := h, hc_port := port\<rparr>)"
    if "CHR '':'' \<notin> set h" "h \<noteq> []" "length h < CMUTIL_HTTP_HOST_MAX" "r = [] \<or> hd r = CHR ''/''" for h r
    using scheme [of "h @ '':'' @ dec port @ r"] upto_from_char(1,2) [OF that(1), of "dec port @ r"] port [OF that(4)] n len
      that assms(6,7) by (simp add: HttpClientParseUrl_def Let_def to_int_id)
  show "HttpClientParseUrl ih (scheme @ ''://'' @ host @ '':'' @ dec port @ path) =
      (True, ih\<lparr>hc_ishttps := (scheme = ''https''), hc_host := host, hc_port := port\<rparr>)"
    using assms(2,4,5,8) by (rule ported)
  show "HttpClientParseUrl ih (scheme @ ''://'' @ host @ path) =
      (True, ih\<lparr>hc_ishttps := (scheme = ''https''), hc_host := host, hc_port := (if scheme = ''https'' then 443 else 80)\<rparr>)"
    if "CHR '':'' \<notin> set path"
  proof -
    have "from_char (CHR '':'') (host @ path) = NULL" using that assms(2) by (simp add: from_char_def)
    moreover have "upto_char (CHR ''/'') (host @ path) = host"
      using upto_from_char(1,3) [OF assms(3)] assms(8) by (cases path) auto
    ultimately show ?thesis using scheme [of "host @ path"] assms(4,5) by (simp add: HttpClientParseUrl_def Let_def)
  qed
  fix q
  assume "path = CHR ''/'' # q @ '':'' @ dec port \<and> CHR '':'' \<notin> set q \<and> length host + length q < 255"
  with ported [of "host @ CHR ''/'' # q" "[]"] assms(2) show "HttpClientParseUrl ih (scheme @ ''://'' @ host @ path) =
      (True, ih\<lparr>hc_ishttps := (scheme = ''https''), hc_host := host @ CHR ''/'' # q, hc_port := port\<rparr>)"
    by (simp add: CMUTIL_HTTP_HOST_MAX_def)
qed

theorem http_parse_url_witness:
  "HttpClientParseUrl sample_client ''https://h:8443/x'' = (True, sample_client\<lparr>hc_ishttps := True, hc_port := 8443\<rparr>) \<and>
   HttpClientParseUrl sample_client ''http://h/x'' = (True, sample_client) \<and>
   HttpClientParseUrl sample_client ''http://h/x:81'' = (True, sample_client\<lparr>hc_host := ''h/x'', hc_port := 81\<rparr>)"
proof -
  have d: "dec 8443 = ''8443''" "dec 81 = ''81''"
    by (simp_all add: dec_def digits.simps [of 8443] digits.simps [of 844] digits.simps [of 84] digits.simps [of 81]
        digits.simps [of 8] dig_def of_char_def char_of_def bit_0)
  have c: "CMUTIL_HTTP_HOST_MAX = 256" by (rule CMUTIL_HTTP_HOST_MAX_def)
  have h: "sample_client\<lparr>hc_ishttps := True, hc_host := ''h'', hc_port := 8443\<rparr> = sample_client\<lparr>hc_ishttps := True, hc_port := 8443\<rparr>"
    "sample_client\<lparr>hc_ishttps := False, hc_host := ''h'', hc_port := 80\<rparr> = sample_client"
    "sample_client\<lparr>hc_ishttps := False, hc_host := ''h/x'', hc_port := 81\<rparr> = sample_client\<lparr>hc_host := ''h/x'', hc_port := 81\<rparr>"
    by (simp_all add: sample_client_def)
  from http_parse_url [of "''https''" "''h''" 8443 "''/x''" sample_client] http_parse_url [of "''http''" "''h''" 81 "''/x''" sample_client]
    http_parse_url [of "''http''" "''h''" 81 "''/x:81''" sample_client]
  show ?thesis by (simp add: d c h)
qed

text \<open>
  C5: The pools are queues of connections, one for each host and port: \<open>GetSocket\<close> takes the oldest kept
  connection to that host and port or answers NULL, \<open>PutSocket\<close> queues one, and neither touches another queue.
\<close>

theorem http_pool:
  assumes "pools_ok pools" "endpoint host port"
  shows "(\<exists>pools'. HttpContextGetSocket host port (pools, net) =
      (case kept (pools, net) host port of [] \<Rightarrow> NULL | i # _ \<Rightarrow> Some i, (pools', net)) \<and> pools_ok pools' \<and>
      (\<forall>h p. endpoint h p \<longrightarrow> kept (pools', net) h p =
         (if h = host \<and> p = port then tl (kept (pools, net) host port) else kept (pools, net) h p))) \<and>
    (\<exists>pools'. HttpContextPutSocket ops host port i (pools, net) = (pools', net) \<and> pools_ok pools' \<and>
      (\<forall>h p. endpoint h p \<longrightarrow> kept (pools', net) h p =
         (if h = host \<and> p = port then kept (pools, net) host port @ [i] else kept (pools, net) h p)))"
proof (rule conjI, goal_cases)
  case 1
  show ?case by (rule GetSocket_kept [OF assms, of net]) (rule exI, rule conjI, assumption, rule conjI, assumption, intro allI impI, assumption)
next
  case 2
  show ?case by (rule PutSocket_kept [OF assms, of ops i net]) (rule exI, rule conjI, assumption, rule conjI, assumption, intro allI impI, assumption)
qed

theorem http_pool_witness:
  "\<exists>pools. HttpContextPutSocket g_cmutil_socket ''h'' 80 7 ([], \<lparr>hn_sock = (\<lambda>_. undefined), hn_now = 0\<rparr>) =
      (pools, \<lparr>hn_sock = (\<lambda>_. undefined), hn_now = 0\<rparr>) \<and>
    kept (pools, \<lparr>hn_sock = (\<lambda>_. undefined), hn_now = 0\<rparr>) ''h'' 80 = [7]"
proof -
  let ?net = "\<lparr>hn_sock = (\<lambda>_. undefined :: socket), hn_now = 0\<rparr>"
  have e: "endpoint ''h'' 80" by (simp add: endpoint_def CMUTIL_HTTP_HOST_MAX_def)
  have "pools_ok ([] :: (string \<times> (pool_elem, socket http_net) pool) list)" by (simp add: pools_ok_def)
  from conjunct2 [OF http_pool [OF this e, of ?net g_cmutil_socket 7]] e show ?thesis by (auto simp: kept_def)
qed

text \<open>
  An exchange over a plain socket: however the bytes are cut on their way, the client sends the text of
  its request, and from a reply whose body is delimited by its length or comes in chunks it reads the status
  and exactly the body, leaving what follows the reply on the socket.
\<close>

theorem http_fetch:
  assumes "sends (sk_tx s)" "\<And>b. body = Some b \<Longrightarrow> length b < 2 ^ 32" "reply st reason hdrs data t"
    "pending (sk_rx s) = t @ rest"
  shows "\<exists>s'. http_exchange g_cmutil_socket ih verb headers uri body s =
      Some (\<lparr>hr_status = Some st, hr_body = Some data, hr_keepalive = hc_keepalive ih\<rparr>, s') \<and>
    pending (sk_rx s') = rest \<and> sk_out s' = sk_out s @ request_text ih verb headers uri body"
  using ps.fetch [where s = s and body = body] assms by blast

theorem http_fetch_witness:
  "\<exists>s'. http_exchange g_cmutil_socket sample_client ''GET'' [] ''/'' NULL
      \<lparr>sk_rx = [Rx_Data (reply_in_chunks 200 ''OK'' [] [''ab'', ''c''] @ ''x'')], sk_tx = [], sk_out = [], sk_open = True\<rparr>
    = Some (\<lparr>hr_status = Some 200, hr_body = Some ''abc'', hr_keepalive = True\<rparr>, s') \<and> pending (sk_rx s') = ''x''"
proof -
  have r: "reply 200 ''OK'' [] ''abc'' (reply_in_chunks 200 ''OK'' [] [''ab'', ''c''])"
    unfolding reply_def reply_head_def
    by (intro conjI disjI2 exI [of _ "[''ab'', ''c'']"]) (simp_all add: line_free_def CMUTIL_HTTP_MAX_BODY_def)
  let ?s = "\<lparr>sk_rx = [Rx_Data (reply_in_chunks 200 ''OK'' [] [''ab'', ''c''] @ ''x'')], sk_tx = [], sk_out = [], sk_open = True\<rparr>"
  have t: "sends (sk_tx ?s)" by (simp add: sends_def)
  have c: "pending (sk_rx ?s) = reply_in_chunks 200 ''OK'' [] [''ab'', ''c''] @ ''x''" by simp
  have k: "hc_keepalive sample_client" by (simp add: sample_client_def)
  show ?thesis using http_fetch [OF t _ r c, of NULL sample_client "''GET''" "[]" "''/''"] k by auto
qed


text \<open>
  C1: A request over the pools: it takes the connection that was kept longest, or a new one, gives status and
  body of the reply, and puts the connection back behind the other kept ones if it may stay open, else
  closes it; no other connection is touched.
\<close>

theorem http_request_kept:
  assumes "HttpClientGetSocket connect ih ctx = (Some i, (pools, net))" "pools_ok pools" "client_ok ih"
    "sends (sk_tx (hn_sock net i))" "\<And>b. body = Some b \<Longrightarrow> length b < 2 ^ 32" "reply st reason hdrs data t"
    "pending (sk_rx (hn_sock net i)) = t @ rest"
  shows "\<exists>s' pools' net'.
    HttpClientRequest g_cmutil_socket connect ih verb headers uri body ctx = Some (Some data, Some st, (pools', net')) \<and>
    pending (sk_rx s') = rest \<and> sk_out s' = sk_out (hn_sock net i) @ request_text ih verb headers uri body \<and>
    hn_sock net' = (hn_sock net)(i := (if hc_keepalive ih then s' else SocketClose s')) \<and> pools_ok pools' \<and>
    kept (pools', net') (hc_host ih) (hc_port ih) =
      (if hc_keepalive ih then kept (pools, net) (hc_host ih) (hc_port ih) @ [i]
       else kept (pools, net) (hc_host ih) (hc_port ih))"
proof -
  have e: "endpoint (hc_host ih) (hc_port ih)" using assms(3) by (simp add: client_ok_def)
  have "so_Close g_cmutil_socket = SocketClose" by (simp add: g_cmutil_socket_def)
  with e ps.request_next [OF assms(1-4) _ assms(6,7), of body verb headers uri] assms(5) show ?thesis by metis
qed

definition sample_net :: "socket http_net" where
  "sample_net = \<lparr>hn_sock = (\<lambda>_. \<lparr>sk_rx = [Rx_Data (reply_by_length 200 ''OK'' [] ''abc'')], sk_tx = [], sk_out = [],
     sk_open = True\<rparr>), hn_now = 0\<rparr>"

lemma sample_reply: "int (length data) \<le> CMUTIL_HTTP_MAX_BODY \<Longrightarrow>
    reply 200 ''OK'' [] data (reply_by_length 200 ''OK'' [] data)"
  by (simp add: reply_def reply_head_def line_free_def)

lemma sample_client_ok: "client_ok sample_client" "hc_keepalive sample_client"
  by (simp_all add: sample_client_def client_ok_def endpoint_def CMUTIL_HTTP_HOST_MAX_def PATH_MAX_def)

lemma reply_not_Nil [simp]: "reply_by_length st reason hdrs data \<noteq> []"
  by (simp add: reply_by_length_def)

theorem http_request_kept_witness:
  "\<exists>ctx'. HttpClientRequest g_cmutil_socket (\<lambda>_ net. (Some 3, net)) sample_client ''GET'' [] ''/'' NULL ([], sample_net)
      = Some (Some ''abc'', Some 200, ctx') \<and> kept ctx' ''h'' 80 = [3]"
proof -
  have g: "HttpClientGetSocket (\<lambda>_ net. (Some 3, net)) sample_client ([], sample_net) = (Some 3, ([], sample_net))"
    by (simp add: HttpClientGetSocket_def HttpContextGetSocket_def)
  have p: "pools_ok ([] :: (string \<times> (pool_elem, socket http_net) pool) list)" by (simp add: pools_ok_def)
  have t: "sends (sk_tx (hn_sock sample_net 3))" by (simp add: sample_net_def sends_def)
  have r: "reply 200 ''OK'' [] ''abc'' (reply_by_length 200 ''OK'' [] ''abc'')"
    by (rule sample_reply) (simp add: CMUTIL_HTTP_MAX_BODY_def)
  have c: "pending (sk_rx (hn_sock sample_net 3)) = reply_by_length 200 ''OK'' [] ''abc'' @ []" by (simp add: sample_net_def)
  have h: "hc_host sample_client = ''h''" "hc_port sample_client = 80" by (simp_all add: sample_client_def)
  have "kept ([], sample_net) ''h'' 80 = []" by (simp add: kept_def)
  with http_request_kept [OF g p sample_client_ok(1) t _ r c, of NULL "''GET''" "[]" "''/''"] sample_client_ok(2) show ?thesis
    by (fastforce simp: h)
qed

lemma content_json_bytes: "json_bytes j = json_text False 0 j"
proof -
  obtain b where b: "StringCreateInternal (\<lambda>_. True) 128 NULL = Some b" "str_inv b" "content b = []"
    using Create_spec [of 128 NULL "\<lambda>_. True"] by (auto split: option.splits)
  then show ?thesis
    using ToString_prints(1) [of "\<lambda>_. True" b False 0 j] by (simp add: json_bytes_def prints_def JsonToString_def)
qed

lemma json_text_not_Nil:
  assumes "printable lib j" "fits 0 j"
  shows "json_text pretty 0 j \<noteq> []"
proof
  assume "json_text pretty 0 j = []"
  then have "JsonParse lib [] = Some j"
    using JsonParse_text [OF assms, of "[]" "[]" "[]" pretty] by (simp add: ended_def)
  moreover have "JsonParse lib [] = None" by code_simp
  ultimately show False by simp
qed

text \<open>
  C4: A REST call: the value it is given goes out as its text, which any reader of JSON reads back, and the
  value of the reply, printed in any way, comes back with its status.
\<close>

theorem rest_post:
  assumes "HttpClientGetSocket connect (rc_http ir) ctx = (Some i, (pools, net))" "pools_ok pools" "client_ok (rc_http ir)"
    "sends (sk_tx (hn_sock net i))" "printable lib j" "fits 0 j" "length (json_text False 0 j) < 2 ^ 32"
    "reply st reason hdrs (json_text pretty 0 r) t" "printable lib r" "fits 0 r"
    "pending (sk_rx (hn_sock net i)) = t @ rest"
  shows "\<exists>sent ir' pools' net'.
    RestClientPost lib g_cmutil_socket connect headers uri (Some j) ir ctx = Some (Some r, ir', (pools', net')) \<and>
    RestClientGetStatus ir' = st \<and> rc_http ir' = rc_http ir \<and> pools_ok pools' \<and>
    sk_out (hn_sock net' i) =
      sk_out (hn_sock net i) @ request_text (rc_http ir) ''POST'' (RestClientHeaders headers True) uri (Some sent) \<and>
    JsonParse lib sent = Some j"
proof -
  let ?sent = "json_text False 0 j"
  obtain s' pools' net' where
    s': "HttpClientRequest g_cmutil_socket connect (rc_http ir) ''POST'' (RestClientHeaders headers True) uri (Some ?sent) ctx =
        Some (Some (json_text pretty 0 r), Some st, (pools', net'))" "pools_ok pools'"
    and o: "sk_out s' = sk_out (hn_sock net i) @ request_text (rc_http ir) ''POST'' (RestClientHeaders headers True) uri (Some ?sent)"
      "hn_sock net' = (hn_sock net)(i := (if hc_keepalive (rc_http ir) then s' else so_Close g_cmutil_socket s'))"
    using ps.request_next [OF assms(1-4) _ assms(8,11), of "Some ?sent" "''POST''" "RestClientHeaders headers True" uri] assms(7)
    by auto
  have "sk_out (hn_sock net' i) = sk_out s'" by (simp add: o(2) g_cmutil_socket_def SocketClose_def)
  moreover have "JsonParse lib ?sent = Some j" "JsonParse lib (json_text pretty 0 r) = Some r"
    using JsonParse_text [OF assms(5,6), of "[]" "[]" "[]" False] JsonParse_text [OF assms(9,10), of "[]" "[]" "[]" pretty]
    by (simp_all add: ended_def)
  ultimately show ?thesis
    using s' o(1) json_text_not_Nil [OF assms(9,10), of pretty]
    by (intro exI [of _ ?sent] exI [of _ "ir\<lparr>rc_status := st\<rparr>"] exI [of _ pools'] exI [of _ net'])
      (simp add: RestClientPost_def RestClientExchange_def content_json_bytes RestClientGetStatus_def)
qed

theorem rest_post_witness:
  "\<exists>ir' ctx'. RestClientPost toy_lib g_cmutil_socket (\<lambda>_ net. (Some 3, net)) NULL ''/'' (Some (JValue JBoolean ''true''))
      \<lparr>rc_http = sample_client, rc_timeout = 1, rc_status = 0\<rparr>
      ([], \<lparr>hn_sock = (\<lambda>_. \<lparr>sk_rx = [Rx_Data (reply_by_length 200 ''OK'' [] (json_text True 0 (JValue JNull ''null'')))],
        sk_tx = [], sk_out = [], sk_open = True\<rparr>), hn_now = 0\<rparr>)
    = Some (Some (JValue JNull ''null''), ir', ctx') \<and> RestClientGetStatus ir' = 200"
proof -
  let ?net = "\<lparr>hn_sock = (\<lambda>_. \<lparr>sk_rx = [Rx_Data (reply_by_length 200 ''OK'' [] (json_text True 0 (JValue JNull ''null'')))],
        sk_tx = [], sk_out = [], sk_open = True\<rparr>), hn_now = 0\<rparr>"
  let ?ir = "\<lparr>rc_http = sample_client, rc_timeout = 1, rc_status = 0\<rparr>"
  have g: "HttpClientGetSocket (\<lambda>_ net. (Some 3, net)) (rc_http ?ir) ([], ?net) = (Some 3, ([], ?net))"
    by (simp add: HttpClientGetSocket_def HttpContextGetSocket_def)
  have p: "pools_ok ([] :: (string \<times> (pool_elem, socket http_net) pool) list)" by (simp add: pools_ok_def)
  have k: "client_ok (rc_http ?ir)" using sample_client_ok by simp
  have t: "sends (sk_tx (hn_sock ?net 3))" by (simp add: sends_def)
  have j: "printable toy_lib (JValue JBoolean ''true'')" "printable toy_lib (JValue JNull ''null'')"
    "fits 0 (JValue JBoolean ''true'')" "fits 0 (JValue JNull ''null'')"
    "length (json_text False 0 (JValue JBoolean ''true'')) < 2 ^ 32"
    by (simp_all add: JSON_MAX_DEPTH_def)
  have r: "reply 200 ''OK'' [] (json_text True 0 (JValue JNull ''null''))
      (reply_by_length 200 ''OK'' [] (json_text True 0 (JValue JNull ''null'')))"
    by (rule sample_reply) (simp add: CMUTIL_HTTP_MAX_BODY_def)
  have c: "pending (sk_rx (hn_sock ?net 3)) = reply_by_length 200 ''OK'' [] (json_text True 0 (JValue JNull ''null'')) @ []"
    by simp
  from rest_post [OF g p k t j(1,3,5) r j(2,4) c, of NULL "''/''"] show ?thesis by blast
qed

text \<open>
  C3: When a request returns. Every wait for the socket has a time-out of its own; with one that is not negative, on a
  connection where only finitely much arrives (data cut in any way, errors, time-outs, the peer's shutdown, and then
  silence), the loops that read lines, headers and chunks all end, so the request over a plain socket returns once the
  connection is there. Nothing bounds the request as a whole: a peer that goes on sending header lines, or chunks,
  holds it for ever, whatever the time-out.
\<close>

theorem http_returns:
  "(\<exists>res st ctx'. HttpClientRequest g_cmutil_socket connect ih verb headers uri body ctx = Some (res, st, ctx')) \<and>
   (HttpClientGetSocket connect2 ih ctx2 = (Some i, (pools, net)) \<and> plain_header kv \<and>
      fst (hn_sock net i) = lines_text [status_line 200 ''OK''] \<longrightarrow>
    HttpClientRequest (endless_peer (lines_text [header_line kv])) connect2 ih verb headers uri body ctx2 = None) \<and>
   (HttpClientGetSocket connect2 ih ctx2 = (Some i, (pools, net)) \<and> c \<noteq> [] \<and> int (length c) \<le> CMUTIL_HTTP_MAX_BODY \<and>
      fst (hn_sock net i) = lines_text [status_line 200 ''OK'', header_line (''Transfer-Encoding'', ''chunked'')] @ [CR, LF] \<longrightarrow>
    HttpClientRequest (endless_peer (chunk_text c)) connect2 ih verb headers uri body ctx2 = None)"
proof (intro conjI impI; (elim conjE)?)
  obtain res ctx1 where g: "HttpClientGetSocket connect ih ctx = (res, ctx1)"
    by (cases "HttpClientGetSocket connect ih ctx")
  obtain pools net where c: "ctx1 = (pools, net)" by fastforce
  have e: "\<exists>r s'. http_exchange g_cmutil_socket ih verb headers uri body s = Some (r, s')" for s
    using ds.response_returns by (auto simp: http_exchange_def split: prod.splits)
  show "\<exists>res st ctx'. HttpClientRequest g_cmutil_socket connect ih verb headers uri body ctx = Some (res, st, ctx')"
  proof (cases res)
    case None
    with g show ?thesis by (simp add: HttpClientRequest_def)
  next
    case (Some i)
    obtain r s' where "http_exchange g_cmutil_socket ih verb headers uri body (hn_sock net i) = Some (r, s')"
      using e by blast
    with g c Some show ?thesis
      by (cases "hr_body r \<noteq> None \<and> hr_keepalive r") (auto simp: HttpClientRequest_def HttpContextPutSocket_def Let_def)
  qed
next
  assume g: "HttpClientGetSocket connect2 ih ctx2 = (Some i, (pools, net))"
  have st: "line_free (status_line 200 ''OK'')" "length (status_line 200 ''OK'') < 4095"
    using fits_status_line [of 200 "''OK''" "[]"] by (simp_all add: reply_head_def fits_line_def line_free_def)
  have sl: "http_status_line ka (status_line 200 ''OK'') = Some (ka, 200)" for ka
    by (rule status_line_read) simp_all
  show "HttpClientRequest (endless_peer (lines_text [header_line kv])) connect2 ih verb headers uri body ctx2 = None"
    if kv: "plain_header kv" and n: "fst (hn_sock net i) = lines_text [status_line 200 ''OK'']"
  proof (rule endless_request [OF g])
    fix w
    let ?l = "lines_text [header_line kv]"
    have "HttpClientReadLine (endless_peer ?l) 4096 (fst (hn_sock net i), w) = Some (True, status_line 200 ''OK'', ([], w))"
      using ep.ReadLine_next [of "(fst (hn_sock net i), w)" "status_line 200 ''OK''" "[]" 4096 ?l] st by (auto simp: n)
    moreover have "http_headers (endless_peer ?l) a h ([], w) = None" for a h
      using endless_headers [OF fits_header_line [OF kv] plain_header_read [OF kv], of ?l] by simp
    ultimately show "http_response (endless_peer ?l) (hc_keepalive ih) (fst (hn_sock net i), w) = None"
      using sl by (simp add: http_response_def)
  qed
  show "HttpClientRequest (endless_peer (chunk_text c)) connect2 ih verb headers uri body ctx2 = None"
    if c: "c \<noteq> []" "int (length c) \<le> CMUTIL_HTTP_MAX_BODY"
      and n: "fst (hn_sock net i) = lines_text [status_line 200 ''OK'', header_line (''Transfer-Encoding'', ''chunked'')] @ [CR, LF]"
  proof (rule endless_request [OF g])
    fix w
    let ?l = "chunk_text c" and ?h = "\<lparr>hh_len = 0, hh_transfer = [], hh_keepalive = hc_keepalive ih\<rparr>"
    obtain s2 where s2: "fst s2 = []" "http_response (endless_peer ?l) (hc_keepalive ih) (fst (hn_sock net i), w) =
        map_option (\<lambda>(res, s3). (\<lparr>hr_status = Some 200, hr_body = res, hr_keepalive = hc_keepalive ih\<rparr>, s3))
          (http_body (endless_peer ?l) (?h\<lparr>hh_transfer := ''chunked''\<rparr>) s2)"
      using ep.response_next [of "(fst (hn_sock net i), w)" 200 "''OK''" "[]" "(''Transfer-Encoding'', ''chunked'')" "[]"
          "hc_keepalive ih" _ ?l] chunked_read fits_chunked n by (force simp: reply_head_def line_free_def)
    moreover have "http_chunks (endless_peer ?l) [] s2 = None"
      using endless_chunks [OF c refl] s2(1) by (metis prod.collapse)
    ultimately show "http_response (endless_peer ?l) (hc_keepalive ih) (fst (hn_sock net i), w) = None"
      by (simp add: http_body_def)
  qed
qed

definition endless_net :: "string \<Rightarrow> (string \<times> string) http_net" where
  "endless_net h = \<lparr>hn_sock = (\<lambda>_. (h, [])), hn_now = 0\<rparr>"

theorem http_returns_witness:
  "HttpClientRequest (endless_peer (lines_text [header_line (''X'', ''1'')])) (\<lambda>_ net. (Some 3, net)) sample_client ''GET'' [] ''/'' NULL
      ([], endless_net (lines_text [status_line 200 ''OK''])) = None \<and>
   HttpClientRequest (endless_peer (chunk_text ''ab'')) (\<lambda>_ net. (Some 3, net)) sample_client ''GET'' [] ''/'' NULL
      ([], endless_net (lines_text [status_line 200 ''OK'', header_line (''Transfer-Encoding'', ''chunked'')] @ [CR, LF])) = None"
proof -
  have g: "HttpClientGetSocket (\<lambda>_ net. (Some 3, net)) sample_client ([], endless_net h) = (Some 3, ([], endless_net h))" for h
    by (simp add: HttpClientGetSocket_def HttpContextGetSocket_def)
  have n: "fst (hn_sock (endless_net h) 3) = h" for h by (simp add: endless_net_def)
  have kv: "plain_header (''X'', ''1'')" by code_simp
  have c: "''ab'' \<noteq> []" "int (length ''ab'') \<le> CMUTIL_HTTP_MAX_BODY" by (simp_all add: CMUTIL_HTTP_MAX_BODY_def)
  note r = http_returns [where ih = sample_client and ?ctx2.0 = "([], endless_net h)" and i = 3 and pools = "[]" and net = "endless_net h"
      and connect = "\<lambda>_ net. (Some 3, net)" and ctx = "([], sample_net)" and kv = "(''X'', ''1'')" and c = "''ab''" for h]
  show ?thesis
    by (intro conjI r [THEN conjunct2, THEN conjunct1, rule_format] r [THEN conjunct2, THEN conjunct2, rule_format])
      (use g n kv c in simp_all)
qed

text \<open>
  C7: Where a reply ends too early. Of a connection that is shut down inside the headers or behind a chunk the
  client makes a success with what it has; one that is shut down inside a body of known length is a
  failure. A coding spelled \<open>Chunked\<close> is not known to it, and of the trailers behind the last chunk it
  takes one line.
\<close>

theorem http_cut:
  assumes "sends (sk_tx s)" "closing (sk_rx s)" "reply_head st reason hdrs"
  shows
    "(pending (sk_rx s) = lines_text (status_line st reason # map header_line hdrs) \<longrightarrow>
       (\<exists>s'. http_response g_cmutil_socket ka s = Some (\<lparr>hr_status = Some st, hr_body = Some [], hr_keepalive = ka\<rparr>, s'))) \<and>
     ((\<forall>c \<in> set cs. c \<noteq> [] \<and> int (length c) \<le> CMUTIL_HTTP_MAX_BODY) \<and>
      pending (sk_rx s) = lines_text (status_line st reason # map header_line (hdrs @ [(''Transfer-Encoding'', ''chunked'')])) @
        CR # LF # concat (map chunk_text cs) \<longrightarrow>
       (\<exists>s'. http_response g_cmutil_socket ka s =
         Some (\<lparr>hr_status = Some st, hr_body = Some (concat cs), hr_keepalive = ka\<rparr>, s'))) \<and>
     (length data < n \<and> int n \<le> CMUTIL_HTTP_MAX_BODY \<and>
      pending (sk_rx s) = lines_text (status_line st reason # map header_line (hdrs @ [(''Content-Length'', dec (int n))])) @
        CR # LF # data \<longrightarrow>
       (\<exists>s'. http_response g_cmutil_socket ka s = Some (\<lparr>hr_status = Some st, hr_body = None, hr_keepalive = ka\<rparr>, s'))) \<and>
     http_body g_cmutil_socket \<lparr>hh_len = 0, hh_transfer = ''Chunked'', hh_keepalive = ka\<rparr> s = Some (Some [], s) \<and>
     (line_free l \<and> length l < 4095 \<and> pending (sk_rx s) = ''0'' @ CR # LF # l @ CR # LF # rest \<longrightarrow>
       (\<exists>s'. http_chunks g_cmutil_socket [] s = Some (Some [], s') \<and> pending (sk_rx s') = rest))"
proof (intro conjI impI, goal_cases)
  case 1
  with assms show ?case by (intro cs.cut_in_headers) simp_all
next
  case 2
  with assms show ?case by (intro cs.cut_in_chunks) simp_all
next
  case 3
  with assms show ?case by (intro cs.cut_in_body) simp_all
next
  case 4
  have "strstr ''Chunked'' ''chunked'' = None" by code_simp
  then show ?case by (simp add: http_body_def)
next
  case 5
  then show ?case using ps.chunks_next [of s "[]" l rest "[]"] by auto
qed

theorem http_cut_witness:
  "\<exists>s'. http_response g_cmutil_socket True \<lparr>sk_rx = [Rx_Data (lines_text [status_line 200 ''OK'']), Rx_Closed], sk_tx = [],
      sk_out = [], sk_open = True\<rparr> = Some (\<lparr>hr_status = Some 200, hr_body = Some [], hr_keepalive = True\<rparr>, s')"
proof -
  let ?s = "\<lparr>sk_rx = [Rx_Data (lines_text [status_line 200 ''OK'']), Rx_Closed], sk_tx = [], sk_out = [], sk_open = True\<rparr>"
  have "sends (sk_tx ?s)" "closing (sk_rx ?s)" "reply_head 200 ''OK'' []"
    by (simp_all add: sends_def reply_head_def line_free_def)
  from conjunct1 [OF http_cut [OF this, of True "[]" "[]" 0 "[]" "[]"]] show ?thesis by simp
qed

end
