(* ===== verification/Cmu_LogPattern.thy ===== *)
theory Cmu_LogPattern
  imports Cmu_Array Cmu_Text Cmu_JsonRound Cmu_Config
begin

text \<open>
  \<open>src/src/logger.c\<close>, log patterns: how a pattern is read into format items and what a message looks like that is
  printed by them. Texts are contents of strings and memory is granted; a text has fewer than \<open>2 ^ 31\<close> bytes. The
  environment (\<open>log_env\<close>) holds what the process tells: \<open>strftime\<close>, \<open>getenv\<close>, its number and the name of its host.
\<close>

section \<open>Levels\<close>

datatype log_level =
    CMLogLevel_Trace | CMLogLevel_Debug | CMLogLevel_Info | CMLogLevel_Warn | CMLogLevel_Error | CMLogLevel_Fatal

primrec level_no :: "log_level \<Rightarrow> nat" where
  "level_no CMLogLevel_Trace = 0"
| "level_no CMLogLevel_Debug = 1"
| "level_no CMLogLevel_Info = 2"
| "level_no CMLogLevel_Warn = 3"
| "level_no CMLogLevel_Error = 4"
| "level_no CMLogLevel_Fatal = 5"

lemma level_no_inj: "level_no a = level_no b \<longleftrightarrow> a = b"
  by (cases a; cases b) simp_all

lemma level_no_less: "level_no l < 6"
  by (cases l) simp_all

instantiation log_level :: linorder
begin

definition less_eq_log_level :: "log_level \<Rightarrow> log_level \<Rightarrow> bool" where
  "less_eq_log_level a b \<longleftrightarrow> level_no a \<le> level_no b"

definition less_log_level :: "log_level \<Rightarrow> log_level \<Rightarrow> bool" where
  "less_log_level a b \<longleftrightarrow> level_no a < level_no b"

instance
  by standard (auto simp: less_eq_log_level_def less_log_level_def level_no_inj)

end

section \<open>Data\<close>

text \<open>A logger as programs hold it.\<close>

record logger =
  lg_fullname :: string
  lg_namepath :: "string list"
  lg_logrefs :: "nat list"
  lg_minlevel :: log_level


record tm =
  tm_sec :: int
  tm_min :: int
  tm_hour :: int
  tm_mday :: int
  tm_mon :: int
  tm_year :: int
  tm_wday :: int
  tm_yday :: int
  tm_isdst :: int

record log_env =
  le_strftime :: "string \<Rightarrow> tm \<Rightarrow> string"
  le_getenv :: "string \<Rightarrow> string ptr"
  le_pid :: int
  le_hostname :: "string ptr"

datatype item_kind =
    LogFormatItem_DateTime | LogFormatItem_Millisec | LogFormatItem_String | LogFormatItem_LoggerName
  | LogFormatItem_ThreadId | LogFormatItem_FileName | LogFormatItem_LineNumber | LogFormatItem_LogLevel
  | LogFormatItem_Message | LogFormatItem_Stack | LogFormatItem_LineSeparator

datatype field_kind =
    LogType_DateTime | LogType_LoggerName | LogType_ThreadId | LogType_ProcessId | LogType_FileName
  | LogType_LineNumber | LogType_LogLevel | LogType_Message | LogType_Environment | LogType_HostName
  | LogType_Stack | LogType_LineSeparator

record format_item =
  fi_kind :: item_kind
  fi_padleft :: bool
  fi_precision :: "nat list"
  fi_precisioncnt :: nat
  fi_hasext :: bool
  fi_length :: nat
  fi_limit :: int
  fi_data :: string
  fi_levels :: "(string \<times> string) list"
  fi_zero :: bool

record log_param =
  lp_level :: log_level
  lp_linenum :: int
  lp_logger :: logger
  lp_stack :: "string list ptr"
  lp_logtm :: tm
  lp_millis :: int
  lp_fname :: string
  lp_logmsg :: string
  lp_thread :: "string ptr"

definition LogAppenderItemCreate :: "item_kind \<Rightarrow> format_item" where
  "LogAppenderItemCreate k =
     \<lparr>fi_kind = k, fi_padleft = False, fi_precision = [], fi_precisioncnt = 0, fi_hasext = False, fi_length = 0,
      fi_limit = 0, fi_data = [], fi_levels = [], fi_zero = False\<rparr>"

definition LogAppenderItemString :: "string \<Rightarrow> format_item" where
  "LogAppenderItemString a = LogAppenderItemCreate LogFormatItem_String\<lparr>fi_data := a\<rparr>"

definition S_CRLF :: string where
  "S_CRLF = [CHR 0x0A]"

definition spaces :: "nat \<Rightarrow> string" where
  "spaces n = replicate n (CHR '' '')"

section \<open>The C library\<close>

text \<open>
  \<open>%d\<close> with the flags \<open>0\<close> and \<open>-\<close> and a width, as the sources put together: a negative width stands for the flag \<open>-\<close>
  and its absolute value. \<open>None\<close> is an error, a width that does not fit an \<open>int\<close>.
\<close>

definition printf_int :: "bool \<Rightarrow> bool \<Rightarrow> int \<Rightarrow> int \<Rightarrow> string option" where
  "printf_int zero ljust w n =
     (if w \<le> - (2 ^ 31) then None
      else
        (let t = dec n; fill = nat \<bar>w\<bar> - length t
         in Some (if ljust \<or> w < 0 then t @ spaces fill
                  else if \<not> zero then spaces fill @ t
                  else if n < 0 then CHR ''-'' # replicate fill (CHR ''0'') @ tl t
                  else replicate fill (CHR ''0'') @ t)))"

definition printf_str :: "bool \<Rightarrow> int \<Rightarrow> string \<Rightarrow> string option" where
  "printf_str ljust w s =
     (if w \<le> - (2 ^ 31) then None
      else Some (if ljust \<or> w < 0 then s @ spaces (nat \<bar>w\<bar> - length s) else spaces (nat \<bar>w\<bar> - length s) @ s))"

definition strtol :: "string \<Rightarrow> int" where
  "strtol s = fst (strtoll s)"

definition to_uint32 :: "int \<Rightarrow> nat" where
  "to_uint32 x = nat (x mod 2 ^ 32)"

definition atoi :: "string \<Rightarrow> int" where
  "atoi s = to_int (strtol s)"

section \<open>Printing\<close>

text \<open>The length of the buffer of blanks.\<close>

definition spaces_size :: nat where
  "spaces_size = 183"

definition LogPatternAppendPadding :: "format_item \<Rightarrow> string \<Rightarrow> string \<Rightarrow> string" where
  "LogPatternAppendPadding item dest data =
     (if length data < fi_length item then
        (let padsz = min (fi_length item - length data) spaces_size
         in if fi_padleft item then dest @ spaces padsz @ data else dest @ data @ spaces padsz)
      else if 0 < fi_limit item \<and> fi_limit item < int (length data) then
        (if fi_padleft item then dest @ drop (length data - nat (fi_limit item)) data
         else dest @ take (nat (fi_limit item)) data)
      else dest @ data)"

text \<open>\<open>strftime\<close> into 50 bytes: 0 when the text does not fit.\<close>

definition LogPatternAppendDateTime :: "log_env \<Rightarrow> format_item \<Rightarrow> log_param \<Rightarrow> string \<Rightarrow> fault + string" where
  "LogPatternAppendDateTime env item p dest =
     (let text = le_strftime env (fi_data item) (lp_logtm p)
      in Inr (LogPatternAppendPadding item dest (if length text < 50 then text else [])))"

definition LogPatternAppendMillisec :: "log_param \<Rightarrow> string \<Rightarrow> fault + string" where
  "LogPatternAppendMillisec p dest = Inr (dest @ the (printf_int True False 3 (lp_millis p)))"

definition LogPatternAppendString :: "format_item \<Rightarrow> string \<Rightarrow> fault + string" where
  "LogPatternAppendString item dest = Inr (LogPatternAppendPadding item dest (fi_data item))"

text \<open>The last parts of a name, or all with the parts but the last cut; indices are 32 bits wide.\<close>

definition LogPatternAppendLoggerName :: "format_item \<Rightarrow> log_param \<Rightarrow> string \<Rightarrow> fault + string" where
  "LogPatternAppendLoggerName item p dest =
     (let path = lg_namepath (lp_logger p); prec = fi_precision item ! 0;
          buf =
            (if fi_precisioncnt item = 1 then
               concat (map (\<lambda>curr. curr @ ''.'') (drop (to_uint32 (int (length path) - int prec)) (butlast path))) @ List.last path
             else if fi_precisioncnt item = 2 then
               concat (map (\<lambda>curr. take prec curr @ ''.'') (butlast path)) @ List.last path
             else lg_fullname (lp_logger p))
      in Inr (LogPatternAppendPadding item dest buf))"

definition LogPatternAppendThreadId :: "format_item \<Rightarrow> log_param \<Rightarrow> string \<Rightarrow> fault + string" where
  "LogPatternAppendThreadId item p dest =
     Inr (LogPatternAppendPadding item dest (case lp_thread p of Some name \<Rightarrow> name | None \<Rightarrow> ''unknown''))"

text \<open>The scan from the end of a file name: where it stops and the number of characters passed.\<close>

definition is_sep :: "char \<Rightarrow> bool" where
  "is_sep c \<longleftrightarrow> strchr (CHR ''/'' # [CHR 0x5C]) c"

fun name_scan :: "string \<Rightarrow> nat \<Rightarrow> nat \<Rightarrow> nat \<times> nat" where
  "name_scan fname 0 sz = (0, sz)"
| "name_scan fname (Suc p) sz = (if is_sep (fname ! Suc p) then (Suc p, sz) else name_scan fname p (sz + 1))"

definition LogPatternAppendFileName :: "format_item \<Rightarrow> log_param \<Rightarrow> string \<Rightarrow> fault + string" where
  "LogPatternAppendFileName item lp dest =
     (let fname = lp_fname lp
      in if fname = [] then Inl Out_Of_Bounds
         else
           (case name_scan fname (length fname - 1) 0 of
              (p, sz) \<Rightarrow>
                (let p1 = (if is_sep (fname ! p) then p + 1 else p)
                 in Inr (LogPatternAppendPadding item dest (take sz (drop p1 fname))))))"

definition LogPatternAppendLineNumber :: "format_item \<Rightarrow> log_param \<Rightarrow> string \<Rightarrow> fault + string" where
  "LogPatternAppendLineNumber item p dest =
     (if fi_zero item then
        (case printf_int True False (to_int (int (fi_length item))) (lp_linenum p) of
           None \<Rightarrow> Inl Out_Of_Bounds
         | Some t \<Rightarrow> if 20 \<le> length t then Inl Out_Of_Bounds else Inr (LogPatternAppendPadding item dest t))
      else Inr (LogPatternAppendPadding item dest (dec (lp_linenum p))))"

definition level_name :: "log_level \<Rightarrow> string" where
  "level_name level = [''TRACE'', ''DEBUG'', ''INFO'', ''WARN'', ''ERROR'', ''FATAL''] ! level_no level"

definition LogPatternAppendLogLevel :: "format_item \<Rightarrow> log_param \<Rightarrow> string \<Rightarrow> fault + string" where
  "LogPatternAppendLogLevel item p dest =
     (let key = level_name (lp_level p);
          val = (if fi_hasext item then (case map_of (fi_levels item) key of Some v \<Rightarrow> v | None \<Rightarrow> key) else key)
      in Inr (LogPatternAppendPadding item dest val))"

definition LogPatternAppendMessage :: "format_item \<Rightarrow> log_param \<Rightarrow> string \<Rightarrow> fault + string" where
  "LogPatternAppendMessage item p dest = Inr (LogPatternAppendPadding item dest (lp_logmsg p))"

text \<open>A frame that is not there adds its line end all the same.\<close>

definition LogPatternAppendStack :: "format_item \<Rightarrow> log_param \<Rightarrow> string \<Rightarrow> fault + string" where
  "LogPatternAppendStack item p dest =
     (case lp_stack p of
        Some stack \<Rightarrow>
          (let maxlen = (if fi_hasext item then fi_precisioncnt item else length stack)
           in Inr (if stack = [] then dest
                   else dest @ concat (map (\<lambda>i. S_CRLF @ (if i < length stack then stack ! i else [])) [0..<maxlen])))
      | None \<Rightarrow> Inr dest)"

text \<open>The table of functions; a line separator has none.\<close>

definition pattern_func :: "log_env \<Rightarrow> format_item \<Rightarrow> log_param \<Rightarrow> string \<Rightarrow> fault + string" where
  "pattern_func env item p dest =
     (case fi_kind item of
        LogFormatItem_DateTime \<Rightarrow> LogPatternAppendDateTime env item p dest
      | LogFormatItem_Millisec \<Rightarrow> LogPatternAppendMillisec p dest
      | LogFormatItem_String \<Rightarrow> LogPatternAppendString item dest
      | LogFormatItem_LoggerName \<Rightarrow> LogPatternAppendLoggerName item p dest
      | LogFormatItem_ThreadId \<Rightarrow> LogPatternAppendThreadId item p dest
      | LogFormatItem_FileName \<Rightarrow> LogPatternAppendFileName item p dest
      | LogFormatItem_LineNumber \<Rightarrow> LogPatternAppendLineNumber item p dest
      | LogFormatItem_LogLevel \<Rightarrow> LogPatternAppendLogLevel item p dest
      | LogFormatItem_Message \<Rightarrow> LogPatternAppendMessage item p dest
      | LogFormatItem_Stack \<Rightarrow> LogPatternAppendStack item p dest
      | LogFormatItem_LineSeparator \<Rightarrow> Inl Null_Deref)"

fun log_text :: "log_env \<Rightarrow> format_item list \<Rightarrow> log_param \<Rightarrow> string \<Rightarrow> fault + string" where
  "log_text env [] p dest = Inr dest"
| "log_text env (it # its) p dest =
     (case pattern_func env it p dest of Inl e \<Rightarrow> Inl e | Inr d \<Rightarrow> log_text env its p d)"

section \<open>Reading a pattern\<close>

definition LOG_PATTERN_DEFAULT :: string where
  "LOG_PATTERN_DEFAULT = ''%d %P-[%-10.10t] (%-15.15F:%04L) [%-5p] %c - %m%ex%n''"


definition log_item_map :: "(string \<times> field_kind) list" where
  "log_item_map =
     [(''d'', LogType_DateTime), (''date'', LogType_DateTime), (''c'', LogType_LoggerName), (''logger'', LogType_LoggerName),
      (''t'', LogType_ThreadId), (''tid'', LogType_ThreadId), (''thread'', LogType_ThreadId), (''P'', LogType_ProcessId),
      (''pid'', LogType_ProcessId), (''process'', LogType_ProcessId), (''F'', LogType_FileName), (''file'', LogType_FileName),
      (''L'', LogType_LineNumber), (''line'', LogType_LineNumber), (''p'', LogType_LogLevel), (''level'', LogType_LogLevel),
      (''m'', LogType_Message), (''msg'', LogType_Message), (''message'', LogType_Message), (''e'', LogType_Environment),
      (''env'', LogType_Environment), (''environment'', LogType_Environment), (''ex'', LogType_Stack), (''s'', LogType_Stack),
      (''stack'', LogType_Stack), (''n'', LogType_LineSeparator)]"

definition log_datefmt_map :: "(string \<times> string) list" where
  "log_datefmt_map =
     [(''DEFAULT'', ''%F %T.%Q''), (''ISO8601'', ''%FT%T.%Q''), (''ISO8601_BASIC'', ''%Y%m%dT%H%M%S.%Q''),
      (''ABSOLUTE'', ''%T.%Q''), (''DATE'', ''%d %b %Y %T.%Q''), (''COMPACT'', ''%Y%m%d%H%M%S.%Q''),
      (''GENERAL'', ''%Y%m%d %H%M%S.%Q''), (''UNIX'', ''%s%Q'')]"

text \<open>Quotes around a text are taken off; a single quote alone has a length below zero.\<close>

definition LogTokenPillOff :: "string \<Rightarrow> fault + string" where
  "LogTokenPillOff src =
     (if src \<noteq> [] \<and> hd src \<in> {CHR 0x27, CHR 0x22} then
        (if length src = 1 then Inl Out_Of_Bounds else Inr (take (length src - 2) (tl src)))
      else Inr src)"

definition all_level_names :: "string list" where
  "all_level_names = [''TRACE'', ''DEBUG'', ''INFO'', ''WARN'', ''ERROR'', ''FATAL'']"

text \<open>Every level that has no text yet gets one.\<close>

definition fill_levels :: "(string \<Rightarrow> string) \<Rightarrow> (string \<times> string) list \<Rightarrow> (string \<times> string) list" where
  "fill_levels f lvls = foldl (\<lambda>m v. if map_of m v = None then al_put v (f v) m else m) lvls all_level_names"

definition level_arg :: "(string \<times> string) list \<Rightarrow> string \<Rightarrow> fault + (string \<times> string) list" where
  "level_arg lvls arg =
     (case map trim (pieces ''='' arg) of
        [ks, vs] \<Rightarrow>
          (if strcaseeq ks ''length'' then
             (let slen = strtol vs in Inr (if 0 < slen then fill_levels (take (to_uint32 slen)) lvls else lvls))
           else if strcaseeq ks ''lowerCase'' then Inr (fill_levels (map tolower) lvls)
           else (case LogTokenPillOff vs of Inl e \<Rightarrow> Inl e | Inr v \<Rightarrow> Inr (al_put ks v lvls)))
      | _ \<Rightarrow> Inr lvls)"

fun level_args :: "(string \<times> string) list \<Rightarrow> string list \<Rightarrow> fault + (string \<times> string) list" where
  "level_args lvls [] = Inr lvls"
| "level_args lvls (a # as) = (case level_arg lvls a of Inl e \<Rightarrow> Inl e | Inr l \<Rightarrow> level_args l as)"

definition LogPatternLogLevelParse :: "format_item \<Rightarrow> string \<Rightarrow> fault + format_item" where
  "LogPatternLogLevelParse item extra =
     (case level_args [] (map trim (pieces '','' extra)) of
        Inl e \<Rightarrow> Inl e
      | Inr lvls \<Rightarrow> Inr (item\<lparr>fi_levels := lvls\<rparr>))"

text \<open>The flags, width and limit in front of a field: at most 127 digits and dots.\<close>

record field_flags =
  ff_padleft :: bool
  ff_length :: nat
  ff_limit :: int
  ff_zero :: bool

definition parse_flags :: "string \<Rightarrow> field_flags \<times> string" where
  "parse_flags q =
     (if q \<noteq> [] \<and> strchr ''+-0123456789'' (hd q) then
        (let sign = strchr ''+-'' (hd q);
             q1 = (if sign then tl q else q);
             buf = take 127 (takeWhile (strchr ''0123456789.'') q1);
             num = takeWhile (\<lambda>c. c \<noteq> CHR ''.'') buf
         in (\<lparr>ff_padleft = sign \<and> hd q = CHR ''-'', ff_length = to_uint32 (strtol num),
              ff_limit = (if CHR ''.'' \<in> set buf then to_int (strtol (tl (dropWhile (\<lambda>c. c \<noteq> CHR ''.'') buf))) else - 1),
              ff_zero = (num \<noteq> [] \<and> hd num = CHR ''0'')\<rparr>, drop (length buf) q1))
      else (\<lparr>ff_padleft = False, ff_length = 0, ff_limit = - 1, ff_zero = False\<rparr>, q))"

definition field_delims :: string where
  "field_delims = '' '' @ [CHR 0x09, CHR 0x0D, CHR 0x0A] @ ''{}[]:;,.!@#$%^&*()-+_=/'' @ [CHR 0x5C] @ ''|''"

text \<open>The pieces of a time format around the milliseconds, each trimmed.\<close>

fun date_items :: "bool \<Rightarrow> string list \<Rightarrow> format_item list" where
  "date_items ext [] = []"
| "date_items ext (s # ss) =
     (if s \<noteq> [] then [LogAppenderItemCreate LogFormatItem_DateTime\<lparr>fi_data := s\<rparr>] else []) @
     (if ss \<noteq> [] then [LogAppenderItemCreate LogFormatItem_Millisec\<lparr>fi_hasext := ext\<rparr>] else []) @
     date_items ext ss"

definition date_field :: "string option \<Rightarrow> format_item list option" where
  "date_field ext =
     (case ext of
        None \<Rightarrow>
          Some [LogAppenderItemCreate LogFormatItem_DateTime\<lparr>fi_data := ''%F %T.'', fi_hasext := True\<rparr>,
                LogAppenderItemCreate LogFormatItem_Millisec\<lparr>fi_hasext := True\<rparr>]
      | Some buf \<Rightarrow>
          (case (if CHR ''%'' \<in> set buf then Some buf else map_of log_datefmt_map buf) of
             None \<Rightarrow> None
           | Some fmt \<Rightarrow>
               Some (if strstr fmt ''%q'' \<noteq> None then date_items False (map trim (pieces ''%q'' fmt))
                     else if strstr fmt ''%Q'' \<noteq> None then date_items True (map trim (pieces ''%Q'' fmt))
                     else [LogAppenderItemCreate LogFormatItem_DateTime\<lparr>fi_data := fmt\<rparr>])))"

text \<open>The numbers between dots: at most nine, and one more slot behind them.\<close>

function name_precs :: "nat \<Rightarrow> string \<Rightarrow> nat list" where
  "name_precs n p =
     (if n = 0 \<or> CHR ''.'' \<notin> set p then []
      else
        (let tok = takeWhile (\<lambda>c. c \<noteq> CHR ''.'') p
         in (if tok = [] then 0 else to_uint32 (atoi (take 9 tok))) #
            name_precs (n - 1) (tl (dropWhile (\<lambda>c. c \<noteq> CHR ''.'') p))))"
  by pat_completeness auto
termination by (relation "measure fst") auto

declare name_precs.simps [simp del]

definition name_field :: "string option \<Rightarrow> format_item" where
  "name_field ext =
     (let item = LogAppenderItemCreate LogFormatItem_LoggerName
      in case ext of
           None \<Rightarrow> item
         | Some buf \<Rightarrow>
             (let ps = name_precs 9 buf
              in if ps = [] then item\<lparr>fi_precision := [to_uint32 (atoi buf)], fi_precisioncnt := 1\<rparr>
                 else item\<lparr>fi_precision := ps @ [0], fi_precisioncnt := length ps + 1\<rparr>))"

text \<open>The item of a field of another kind than a time; \<open>None\<close> inside is a field that adds none.\<close>

definition field_item :: "log_env \<Rightarrow> field_kind \<Rightarrow> field_flags \<Rightarrow> string option \<Rightarrow> fault + format_item option" where
  "field_item env kind fl ext =
     (let w = to_int (int (ff_length fl))
      in case kind of
           LogType_DateTime \<Rightarrow> Inr None
         | LogType_LoggerName \<Rightarrow> Inr (Some (name_field ext))
         | LogType_ThreadId \<Rightarrow> Inr (Some (LogAppenderItemCreate LogFormatItem_ThreadId))
         | LogType_ProcessId \<Rightarrow>
             Inr (Some (LogAppenderItemString
               (case (if ff_length fl \<noteq> 0
                      then printf_int (ff_zero fl) (\<not> ff_zero fl \<and> \<not> ff_padleft fl) w (le_pid env)
                      else Some (dec (le_pid env))) of
                  None \<Rightarrow> [] | Some t \<Rightarrow> t)))
         | LogType_FileName \<Rightarrow> Inr (Some (LogAppenderItemCreate LogFormatItem_FileName))
         | LogType_LineNumber \<Rightarrow> Inr (Some (LogAppenderItemCreate LogFormatItem_LineNumber))
         | LogType_LogLevel \<Rightarrow>
             (let item = LogAppenderItemCreate LogFormatItem_LogLevel
              in case ext of
                   None \<Rightarrow> Inr (Some item)
                 | Some buf \<Rightarrow>
                     (case LogPatternLogLevelParse item buf of Inl e \<Rightarrow> Inl e | Inr it \<Rightarrow> Inr (Some it)))
         | LogType_Message \<Rightarrow> Inr (Some (LogAppenderItemCreate LogFormatItem_Message))
         | LogType_Environment \<Rightarrow>
             (case ext of
                None \<Rightarrow> Inr None
              | Some buf \<Rightarrow>
                  (let v = (case le_getenv env buf of NULL \<Rightarrow> [] | Some v \<Rightarrow> v)
                   in Inr (Some (LogAppenderItemString
                        (case (if ff_length fl \<noteq> 0 then printf_str (\<not> ff_padleft fl) w v else Some v) of
                           None \<Rightarrow> [] | Some t \<Rightarrow> t)))))
         | LogType_HostName \<Rightarrow>
             Inr (Some (LogAppenderItemString (case le_hostname env of NULL \<Rightarrow> ''unknown'' | Some h \<Rightarrow> h)))
         | LogType_Stack \<Rightarrow>
             (let item = LogAppenderItemCreate LogFormatItem_Stack
              in Inr (Some (case ext of None \<Rightarrow> item | Some buf \<Rightarrow> item\<lparr>fi_precisioncnt := to_uint32 (atoi buf)\<rparr>)))
         | LogType_LineSeparator \<Rightarrow> Inr (Some (LogAppenderItemString S_CRLF)))"

definition field_items ::
    "log_env \<Rightarrow> field_kind \<Rightarrow> field_flags \<Rightarrow> string option \<Rightarrow> fault + format_item list option" where
  "field_items env kind fl ext =
     (if kind = LogType_DateTime then Inr (date_field ext)
      else
        (case field_item env kind fl ext of
           Inl e \<Rightarrow> Inl e
         | Inr None \<Rightarrow> Inr (Some [])
         | Inr (Some it) \<Rightarrow>
             Inr (Some [it\<lparr>fi_length := ff_length fl, fi_limit := ff_limit fl, fi_padleft := ff_padleft fl,
                          fi_hasext := (ext \<noteq> None), fi_zero := ff_zero fl\<rparr>])))"

text \<open>
  A field behind its \<open>%\<close>: its items and the rest of the pattern, \<open>None\<close> when it is refused. What is in braces is copied
  to 128 bytes.
\<close>

definition parse_field :: "log_env \<Rightarrow> string \<Rightarrow> fault + (format_item list \<times> string) option" where
  "parse_field env q =
     (case parse_flags q of
        (fl, q1) \<Rightarrow>
          (case token_loop field_delims 19 q1 of
             (name, q2) \<Rightarrow>
               (case map_of log_item_map name of
                  None \<Rightarrow> Inr None
                | Some kind \<Rightarrow>
                    (if q2 \<noteq> [] \<and> hd q2 = CHR ''{'' then
                       (let r = tl q2; ext = takeWhile (\<lambda>c. c \<noteq> CHR ''}'') r
                        in if CHR ''}'' \<notin> set r then Inr None
                           else if 128 \<le> length ext then Inl Out_Of_Bounds
                           else
                             (case field_items env kind fl (Some ext) of
                                Inl e \<Rightarrow> Inl e
                              | Inr None \<Rightarrow> Inr None
                              | Inr (Some its) \<Rightarrow> Inr (Some (its, drop (length ext + 1) r))))
                     else
                       (case field_items env kind fl None of
                          Inl e \<Rightarrow> Inl e
                        | Inr None \<Rightarrow> Inr None
                        | Inr (Some its) \<Rightarrow> Inr (Some (its, q2)))))))"

lemma token_loop_length: "token_loop delim n s = (tok, rest) \<Longrightarrow> length rest \<le> length s"
  using token_loop_spec [of delim n s tok rest] by (metis length_append le_add2)

lemma parse_field_length:
  assumes "parse_field env q = Inr (Some (its, rest))"
  shows "length rest \<le> length q"
proof -
  obtain fl q1 where f: "parse_flags q = (fl, q1)" by (cases "parse_flags q")
  obtain name q2 where t: "token_loop field_delims 19 q1 = (name, q2)" by (cases "token_loop field_delims 19 q1")
  have "length q1 \<le> length q" using f by (auto simp: parse_flags_def Let_def split: if_splits)
  moreover have "length q2 \<le> length q1" using t by (rule token_loop_length)
  moreover have "length rest \<le> length q2"
    using assms by (auto simp: parse_field_def f t Let_def split: option.splits if_splits sum.splits)
  ultimately show ?thesis by simp
qed

lemma after_percent: "CHR ''%'' \<in> set p \<Longrightarrow> length (tl (dropWhile (\<lambda>c. c \<noteq> CHR ''%'') p)) < length p"
  by (induction p) auto

text \<open>The loop over the pattern. Text behind the last field is not read any more.\<close>

function parse_items :: "log_env \<Rightarrow> format_item list \<Rightarrow> string \<Rightarrow> fault + (bool \<times> format_item list)" where
  "parse_items env acc p =
     (if CHR ''%'' \<notin> set p then Inr (True, acc)
      else
        (let pre = takeWhile (\<lambda>c. c \<noteq> CHR ''%'') p;
             q = tl (dropWhile (\<lambda>c. c \<noteq> CHR ''%'') p);
             acc1 = acc @ (if pre \<noteq> [] then [LogAppenderItemString pre] else [])
         in if q \<noteq> [] \<and> hd q = CHR ''%'' then parse_items env (acc1 @ [LogAppenderItemString ''%'']) (tl q)
            else
              (case parse_field env q of
                 Inl e \<Rightarrow> Inl e
               | Inr None \<Rightarrow> Inr (False, acc1)
               | Inr (Some (its, rest)) \<Rightarrow> parse_items env (acc1 @ its) rest)))"
  by pat_completeness auto

termination
  by (relation "measure (\<lambda>(env, acc, p). length p)")
    (auto dest: parse_field_length after_percent intro: le_less_trans less_imp_diff_less)

declare parse_items.simps [simp del]

definition LogPatternParse :: "log_env \<Rightarrow> string \<Rightarrow> fault + (bool \<times> format_item list)" where
  "LogPatternParse env pattern = parse_items env [] pattern"

section \<open>Patterns as they are written\<close>

datatype frag =
    Literal string
  | Percent
  | Field field_flags string "string option"

definition flags_text :: "field_flags \<Rightarrow> string" where
  "flags_text fl =
     (if ff_padleft fl then ''-'' else []) @ (if ff_zero fl then ''0'' else []) @
     (if 0 < ff_length fl then digits (ff_length fl) else []) @
     (if 0 \<le> ff_limit fl then ''.'' @ digits (nat (ff_limit fl)) else [])"

definition flags_ok :: "field_flags \<Rightarrow> bool" where
  "flags_ok fl \<longleftrightarrow>
     ff_length fl < 2 ^ 32 \<and> - 1 \<le> ff_limit fl \<and> ff_limit fl < 2 ^ 31 \<and>
     (ff_limit fl < 0 \<or> ff_padleft fl \<or> ff_zero fl \<or> 0 < ff_length fl)"

fun frag_text :: "frag \<Rightarrow> string" where
  "frag_text (Literal s) = s"
| "frag_text Percent = ''%%''"
| "frag_text (Field fl name ext) =
     ''%'' @ flags_text fl @ name @ (case ext of None \<Rightarrow> [] | Some e \<Rightarrow> ''{'' @ e @ ''}'')"

definition pattern_text :: "frag list \<Rightarrow> string" where
  "pattern_text frs = concat (map frag_text frs)"

definition frag_field :: "log_env \<Rightarrow> field_flags \<Rightarrow> string \<Rightarrow> string option \<Rightarrow> format_item list option" where
  "frag_field env fl name ext =
     (case map_of log_item_map name of
        None \<Rightarrow> None
      | Some kind \<Rightarrow> (case field_items env kind fl ext of Inl _ \<Rightarrow> None | Inr r \<Rightarrow> r))"

fun frag_items :: "log_env \<Rightarrow> frag \<Rightarrow> format_item list" where
  "frag_items env (Literal s) = [LogAppenderItemString s]"
| "frag_items env Percent = [LogAppenderItemString ''%'']"
| "frag_items env (Field fl name ext) = the (frag_field env fl name ext)"

text \<open>
  A literal stands before a field or \<open>%%\<close>; a field without braces ends at a delimiter other than a brace, or at the
  end.
\<close>

fun frags_ok :: "log_env \<Rightarrow> frag list \<Rightarrow> string \<Rightarrow> bool" where
  "frags_ok env [] tail \<longleftrightarrow> CHR ''%'' \<notin> set tail"
| "frags_ok env (Literal s # frs) tail \<longleftrightarrow>
     s \<noteq> [] \<and> CHR ''%'' \<notin> set s \<and> (case frs of [] \<Rightarrow> False | Literal _ # _ \<Rightarrow> False | _ \<Rightarrow> True) \<and> frags_ok env frs tail"
| "frags_ok env (Percent # frs) tail \<longleftrightarrow> frags_ok env frs tail"
| "frags_ok env (Field fl name ext # frs) tail \<longleftrightarrow>
     flags_ok fl \<and> frag_field env fl name ext \<noteq> None \<and>
     (case ext of
        None \<Rightarrow> (let rest = pattern_text frs @ tail in rest = [] \<or> strchr field_delims (hd rest) \<and> hd rest \<noteq> CHR ''{'')
      | Some e \<Rightarrow> CHR ''}'' \<notin> set e \<and> length e < 128) \<and>
     frags_ok env frs tail"

lemma hd_digits: "0 < n \<Longrightarrow> hd (digits n) \<noteq> CHR ''0''"
proof (induction n rule: digits.induct)
  case (1 n)
  show ?case
  proof (cases "n < 10")
    case True
    have "\<forall>n \<in> set [1..<10]. dig n \<noteq> CHR ''0''" by code_simp
    with True 1(2) have "dig n \<noteq> CHR ''0''" by simp
    with True show ?thesis by (subst digits.simps) simp
  next
    case False
    with 1(1) show ?thesis by (subst digits.simps) simp
  qed
qed

lemma strtol_digits:
  assumes "ds \<noteq> []" "\<forall>c \<in> set ds. isdigit c" "num ds \<le> LLONG_MAX" "0 \<le> num ds"
  shows "strtol ds = num ds"
proof -
  have sp: "\<not> isspace c" "c \<noteq> CHR ''-''" "c \<noteq> CHR ''+''" if "isdigit c" for c
    using that by (auto simp: isdigit_def isspace_def code_def)
  obtain c cs where ds: "ds = c # cs" using assms(1) by (cases ds) auto
  then have "dropWhile isspace ds = ds" "hd ds \<noteq> CHR ''-''" "hd ds \<noteq> CHR ''+''" using sp assms(2) by auto
  moreover have tw: "takeWhile isdigit ds = ds" using assms(2) by simp
  ultimately show ?thesis
    using assms(1,3,4) by (simp add: strtol_def strtoll_def Let_def LLONG_MIN_def tw del: takeWhile_eq_all_conv)
qed

lemma strtol_number:
  assumes "n < 2 ^ 62"
  shows "strtol ((if z then ''0'' else []) @ (if 0 < n then digits n else [])) = int n"
proof (cases "z \<or> 0 < n")
  case True
  let ?ds = "(if z then ''0'' else []) @ (if 0 < n then digits n else [])"
  have n0: "num (CHR ''0'' # cs) = num cs" "num [] = 0" for cs by (simp_all add: num_def code_def)
  then have "num ?ds = int n" using num_digits by (cases "0 < n") (auto simp: n0)
  moreover have "isdigit (CHR ''0'')" by code_simp
  then have "\<forall>c \<in> set ?ds. isdigit c" using digits_digit by auto
  ultimately show ?thesis using strtol_digits [of ?ds] assms True by (auto simp: LLONG_MAX_def)
qed (simp add: strtol_def strtoll_def)

lemma strtol_plain_digits: "n < 2 ^ 62 \<Longrightarrow> strtol (digits n) = int n"
  using strtol_digits [of "digits n"] digits_digit num_digits by (simp add: LLONG_MAX_def)

lemma digit_or_dot:
  assumes "isdigit c"
  shows "c \<in> set ''0123456789''"
proof -
  have "int (of_char c) = code c" by (simp add: code_def of_char_def)
  then have "48 \<le> (of_char c :: nat)" "(of_char c :: nat) < 58" using assms by (auto simp: isdigit_def)
  then have "(of_char c :: nat) \<in> set [48..<58]" unfolding set_upt atLeastLessThan_iff by blast
  moreover have "\<forall>n \<in> set [48..<58]. char_of (n :: nat) \<in> set ''0123456789''" by code_simp
  ultimately show ?thesis by (metis char_of_char)
qed

lemma digits_set: "set (digits n) \<subseteq> set ''0123456789''"
  using digit_or_dot digits_digit by blast

text \<open>Flags are read as they are written.\<close>

lemma parse_flags_text:
  assumes "flags_ok fl" "r \<noteq> []" "\<not> strchr ''+-0123456789.'' (hd r)"
  shows "parse_flags (flags_text fl @ r) = (fl, r)"
proof -
  define zw where "zw = (if ff_zero fl then ''0'' else []) @ (if 0 < ff_length fl then digits (ff_length fl) else [])"
  define lim where "lim = (if 0 \<le> ff_limit fl then ''.'' @ digits (nat (ff_limit fl)) else [])"
  have ftext: "flags_text fl = (if ff_padleft fl then ''-'' else []) @ zw @ lim" by (simp add: flags_text_def zw_def lim_def)
  note ok = assms(1) [unfolded flags_ok_def]
  define D where "D = set ''0123456789''"
  have D: "CHR ''0'' \<in> D" "set (digits n) \<subseteq> D" for n using digits_set by (simp_all add: D_def)
  then have "set zw \<subseteq> D" by (auto simp: zw_def)
  then have zd: "\<forall>c \<in> set zw. c \<in> set ''0123456789''" unfolding D_def by blast
  have "set (zw @ lim) \<subseteq> insert (CHR ''.'') D" using \<open>set zw \<subseteq> D\<close> D by (auto simp: lim_def)
  moreover have "insert (CHR ''.'') D \<subseteq> set ''0123456789.''" by (simp add: D_def)
  ultimately have bd: "\<forall>c \<in> set (zw @ lim). strchr ''0123456789.'' c" unfolding strchr_def by blast
  have dot: "CHR ''.'' \<notin> set zw" using bspec [OF zd, of "CHR ''.''"] by auto
  have l10: "length (digits n) \<le> 10" if "n < 2 ^ 32" for n
  proof -
    have "n < 10 ^ Suc 9" using that by simp
    then have "length (digits n) \<le> Suc 9" using length_digits [of n 9] by blast
    then show ?thesis by simp
  qed
  have "length zw \<le> 11" using l10 [of "ff_length fl"] ok by (auto simp: zw_def)
  moreover have "length lim \<le> 11" using l10 [of "nat (ff_limit fl)"] ok by (auto simp: lim_def)
  ultimately have len: "length (zw @ lim) \<le> 127" by simp
  have num: "takeWhile (\<lambda>c. c \<noteq> CHR ''.'') (zw @ lim) = zw" "dropWhile (\<lambda>c. c \<noteq> CHR ''.'') (zw @ lim) = lim"
    using dot by (auto simp: takeWhile_append dropWhile_append lim_def)
  have st: "strtol zw = int (ff_length fl)" unfolding zw_def using ok by (intro strtol_number) simp
  then have ln: "to_uint32 (strtol zw) = ff_length fl" using ok by (simp add: to_uint32_def)
  have lm: "(if CHR ''.'' \<in> set (zw @ lim) then to_int (strtol (tl lim)) else - 1) = ff_limit fl"
  proof (cases "0 \<le> ff_limit fl")
    case True
    then have "to_int (strtol (digits (nat (ff_limit fl)))) = ff_limit fl"
      using ok by (subst strtol_plain_digits) (auto simp: to_int_id)
    with True show ?thesis by (simp add: lim_def)
  next
    case False
    with ok dot show ?thesis by (simp add: lim_def)
  qed
  have zz: "(zw \<noteq> [] \<and> hd zw = CHR ''0'') = ff_zero fl"
    using hd_digits by (auto simp: zw_def)
  have tw: "takeWhile (strchr ''0123456789.'') ((zw @ lim) @ r) = zw @ lim"
    using bd assms(2,3) by (subst takeWhile_append2) (auto simp: strchr_def takeWhile_eq_Nil_iff)
  let ?fl = "\<lparr>ff_padleft = ff_padleft fl, ff_length = to_uint32 (strtol zw),
    ff_limit = (if CHR ''.'' \<in> set (zw @ lim) then to_int (strtol (tl lim)) else - 1),
    ff_zero = (zw \<noteq> [] \<and> hd zw = CHR ''0'')\<rparr>"
  have fl: "?fl = fl" unfolding ln lm zz by simp
  have "parse_flags (flags_text fl @ r) = (?fl, r)"
  proof (cases "ff_padleft fl")
    case True
    have "takeWhile (strchr ''0123456789.'') (zw @ lim @ r) = zw @ lim" using tw by simp
    then show ?thesis
      using True len num by (simp add: parse_flags_def ftext strchr_def Let_def)
  next
    case False
    show ?thesis
    proof (cases "zw = []")
      case True
      then have "\<not> ff_zero fl" "ff_length fl = 0" by (auto simp: zw_def split: if_splits)
      moreover from this have "ff_limit fl = - 1" using ok False by auto
      ultimately show ?thesis unfolding fl using True False assms(2,3)
        by (simp add: parse_flags_def ftext lim_def strchr_def)
    next
      case z: False
      then have h: "hd (zw @ lim @ r) \<in> set ''0123456789''" using zd by (cases zw) auto
      then have "\<not> strchr ''+-'' (hd (zw @ lim @ r))" "strchr ''+-0123456789'' (hd (zw @ lim @ r))"
        by (auto simp: strchr_def)
      moreover have "takeWhile (strchr ''0123456789.'') (zw @ lim @ r) = zw @ lim" using tw by simp
      ultimately show ?thesis
        using False z len num by (simp add: parse_flags_def ftext Let_def)
    qed
  qed
  then show ?thesis unfolding fl .
qed

lemma token_loop_exact:
  assumes "\<forall>c \<in> set tok. \<not> strchr delim c" "length tok \<le> n" "rest = [] \<or> strchr delim (hd rest)"
  shows "token_loop delim n (tok @ rest) = (tok, rest)"
  using assms
proof (induction tok arbitrary: n)
  case Nil
  then show ?case by (cases rest) auto
next
  case (Cons c tok)
  then show ?case by (cases n) auto
qed

definition name_ok :: "string \<Rightarrow> bool" where
  "name_ok name \<longleftrightarrow>
     name \<noteq> [] \<and> length name \<le> 19 \<and> (\<forall>c \<in> set name. \<not> strchr field_delims c) \<and> \<not> strchr ''+-0123456789.'' (hd name)"

lemma names_ok: "map_of log_item_map name = Some kind \<Longrightarrow> name_ok name"
proof -
  assume "map_of log_item_map name = Some kind"
  then have "name \<in> set (map fst log_item_map)" by (force dest: map_of_SomeD)
  moreover have "\<forall>name \<in> set (map fst log_item_map). name_ok name" by code_simp
  ultimately show ?thesis by blast
qed

lemma parse_field_text:
  assumes "flags_ok fl" "frag_field env fl name ext = Some its"
    "case ext of None \<Rightarrow> rest = [] \<or> strchr field_delims (hd rest) \<and> hd rest \<noteq> CHR ''{''
      | Some e \<Rightarrow> CHR ''}'' \<notin> set e \<and> length e < 128"
  shows "parse_field env (flags_text fl @ name @ (case ext of None \<Rightarrow> [] | Some e \<Rightarrow> ''{'' @ e @ ''}'') @ rest) =
    Inr (Some (its, rest))"
proof -
  obtain kind where k: "map_of log_item_map name = Some kind" "field_items env kind fl ext = Inr (Some its)"
    using assms(2) by (auto simp: frag_field_def split: option.splits sum.splits)
  note ok = names_ok [OF k(1), unfolded name_ok_def]
  let ?r = "(case ext of None \<Rightarrow> [] | Some e \<Rightarrow> ''{'' @ e @ ''}'') @ rest"
  have f: "parse_flags (flags_text fl @ name @ ?r) = (fl, name @ ?r)"
    using ok by (intro parse_flags_text [OF assms(1)]) auto
  have "strchr field_delims (CHR ''{'')" by code_simp
  then have "?r = [] \<or> strchr field_delims (hd ?r)" using assms(3) by (auto split: option.splits)
  then have t: "token_loop field_delims 19 (name @ ?r) = (name, ?r)" using ok by (intro token_loop_exact) auto
  show ?thesis
  proof (cases ext)
    case None
    with assms(3) f t k show ?thesis by (auto simp: parse_field_def)
  next
    case (Some e)
    then have e: "CHR ''}'' \<notin> set e" "length e < 128" using assms(3) by simp_all
    then have "takeWhile (\<lambda>c. c \<noteq> CHR ''}'') (e @ CHR ''}'' # rest) = e"
      by (subst takeWhile_append2) auto
    with Some e f t k show ?thesis by (simp add: parse_field_def)
  qed
qed

lemma parse_items_step:
  assumes "CHR ''%'' \<notin> set pre"
  shows "parse_items env acc (pre @ CHR ''%'' # q) =
    (let acc1 = acc @ (if pre \<noteq> [] then [LogAppenderItemString pre] else [])
     in if q \<noteq> [] \<and> hd q = CHR ''%'' then parse_items env (acc1 @ [LogAppenderItemString ''%'']) (tl q)
        else
          (case parse_field env q of
             Inl e \<Rightarrow> Inl e
           | Inr None \<Rightarrow> Inr (False, acc1)
           | Inr (Some (its, rest)) \<Rightarrow> parse_items env (acc1 @ its) rest))"
proof -
  have "takeWhile (\<lambda>c. c \<noteq> CHR ''%'') (pre @ CHR ''%'' # q) = pre" using assms by (subst takeWhile_append2) auto
  moreover have "dropWhile (\<lambda>c. c \<noteq> CHR ''%'') (pre @ CHR ''%'' # q) = CHR ''%'' # q"
    using assms by (subst dropWhile_append2) auto
  ultimately show ?thesis by (subst parse_items.simps) simp
qed

lemma isdigit_percent: "\<not> isdigit (CHR ''%'')"
  by code_simp

lemma field_start:
  assumes "frag_field env fl name ext \<noteq> None"
  shows "hd (flags_text fl @ name @ r) \<noteq> CHR ''%''"
proof -
  have "name_ok name" using assms names_ok by (auto simp: frag_field_def split: option.splits)
  then have n: "name \<noteq> []" "hd name \<noteq> CHR ''%''" by (auto simp: name_ok_def field_delims_def strchr_def)
  have "hd (digits n) \<noteq> CHR ''%''" for n
    using digits_digit [OF hd_in_set [OF digits_not_Nil]] by (metis isdigit_percent)
  with n show ?thesis by (auto simp: flags_text_def hd_append)
qed

lemma parse_frags:
  "frags_ok env frs tail \<Longrightarrow> CHR ''%'' \<notin> set pre \<Longrightarrow>
    pre = [] \<or> (case frs of [] \<Rightarrow> False | Literal _ # _ \<Rightarrow> False | _ \<Rightarrow> True) \<Longrightarrow>
    parse_items env acc (pre @ pattern_text frs @ tail) =
      Inr (True, acc @ (if pre \<noteq> [] then [LogAppenderItemString pre] else []) @ concat (map (frag_items env) frs))"
proof (induction frs arbitrary: pre acc)
  case Nil
  then show ?case by (subst parse_items.simps) (simp add: pattern_text_def)
next
  case (Cons fr frs)
  show ?case
  proof (cases fr)
    case (Literal s)
    then show ?thesis using Cons.IH [of s acc] Cons.prems by (simp add: pattern_text_def)
  next
    case Percent
    then show ?thesis
      using Cons.IH [of "[]"] Cons.prems parse_items_step [OF Cons.prems(2), of env acc "''%'' @ pattern_text frs @ tail"]
      by (simp add: pattern_text_def)
  next
    case (Field fl name ext)
    then obtain its where its: "frag_field env fl name ext = Some its" using Cons.prems(1) by auto
    let ?q = "flags_text fl @ name @ (case ext of None \<Rightarrow> [] | Some e \<Rightarrow> ''{'' @ e @ ''}'') @ pattern_text frs @ tail"
    have "parse_field env ?q = Inr (Some (its, pattern_text frs @ tail))"
      using Cons.prems(1) Field its by (intro parse_field_text) (auto split: option.splits simp: Let_def)
    moreover have "hd ?q \<noteq> CHR ''%''" using its by (intro field_start [of env _ _ ext]) simp
    moreover have "pre @ pattern_text (fr # frs) @ tail = pre @ CHR ''%'' # ?q"
      using Field by (simp add: pattern_text_def)
    ultimately show ?thesis
      using Cons.IH [of "[]"] Cons.prems(1) parse_items_step [OF Cons.prems(2), of env acc ?q] Field its
      by (simp add: Let_def)
  qed
qed

section \<open>What is printed\<close>

lemma name_scan_spec:
  "name_scan fname p sz = (q, n) \<Longrightarrow>
    q \<le> p \<and> n = sz + (p - q) \<and> (\<forall>i. q < i \<and> i \<le> p \<longrightarrow> \<not> is_sep (fname ! i)) \<and> (q = 0 \<or> is_sep (fname ! q))"
proof (induction fname p sz rule: name_scan.induct)
  case (2 fname p sz)
  show ?case
  proof (cases "is_sep (fname ! Suc p)")
    case False
    then have "q \<le> p \<and> n = sz + 1 + (p - q) \<and> (\<forall>i. q < i \<and> i \<le> p \<longrightarrow> \<not> is_sep (fname ! i)) \<and> (q = 0 \<or> is_sep (fname ! q))"
      using 2 by simp
    with False show ?thesis by (auto simp: le_Suc_eq)
  qed (use 2 in auto)
qed auto

lemma name_scan_base:
  assumes "dir @ base \<noteq> []" "dir = [] \<or> is_sep (List.last dir)" "\<forall>c \<in> set base. \<not> is_sep c"
  shows "name_scan (dir @ base) (length (dir @ base) - 1) 0 =
    (if dir = [] then (0, length base - 1) else (length dir - 1, length base))"
proof -
  obtain q n where s: "name_scan (dir @ base) (length (dir @ base) - 1) 0 = (q, n)"
    by (cases "name_scan (dir @ base) (length (dir @ base) - 1) 0")
  note sp = name_scan_spec [OF s]
  have b: "\<not> is_sep ((dir @ base) ! i)" if "length dir \<le> i" "i < length (dir @ base)" for i
    using assms(3) that by (simp add: nth_append)
  have "0 < length (dir @ base)" using assms(1) by simp
  then have ql: "q < length (dir @ base)" using sp by linarith
  show ?thesis
  proof (cases "dir = []")
    case True
    have "q = 0" using sp b [of q] ql True by auto
    with s sp True show ?thesis by simp
  next
    case False
    then have d: "is_sep ((dir @ base) ! (length dir - 1))" using assms(2) by (simp add: nth_append last_conv_nth)
    have "\<not> length dir \<le> q" using b [of q] sp ql False by (cases "q = 0") auto
    moreover have "\<not> q < length dir - 1" using sp d False by auto
    ultimately have "q = length dir - 1" by simp
    with s sp False show ?thesis by (cases dir) auto
  qed
qed

text \<open>A text in a field: padded on the left, cut on the left.\<close>

definition fit :: "nat \<Rightarrow> string \<Rightarrow> string" where
  "fit n s = (if length s < n then spaces (n - length s) @ s else drop (length s - n) s)"

lemma padding_fit:
  assumes "fi_padleft item" "fi_limit item = int (fi_length item)" "0 < fi_length item" "fi_length item \<le> spaces_size"
  shows "LogPatternAppendPadding item dest data = dest @ fit (fi_length item) data"
  using assms by (auto simp: LogPatternAppendPadding_def fit_def Let_def min_def)

lemma padding_none:
  assumes "fi_length item = 0" "fi_limit item \<le> 0"
  shows "LogPatternAppendPadding item dest data = dest @ data"
  using assms by (simp add: LogPatternAppendPadding_def)

lemma padding_left:
  assumes "fi_padleft item" "fi_limit item \<le> 0" "fi_length item \<le> spaces_size"
  shows "LogPatternAppendPadding item dest data = dest @ spaces (fi_length item - length data) @ data"
  using assms by (auto simp: LogPatternAppendPadding_def Let_def min_def spaces_def)

lemma padding_full:
  assumes "fi_length item \<le> length data" "fi_limit item \<le> 0"
  shows "LogPatternAppendPadding item dest data = dest @ data"
  using assms by (simp add: LogPatternAppendPadding_def)

lemmas padding_rules = padding_fit padding_none padding_left padding_full spaces_size_def

definition zeros :: "nat \<Rightarrow> int \<Rightarrow> string" where
  "zeros n v = replicate (n - length (dec v)) (CHR ''0'') @ dec v"

lemma printf_zeros: "0 \<le> v \<Longrightarrow> printf_int True False (int n) v = Some (zeros n v)"
  by (simp add: printf_int_def zeros_def Let_def)

abbreviation plain_flags :: field_flags where
  "plain_flags \<equiv> \<lparr>ff_padleft = False, ff_length = 0, ff_limit = - 1, ff_zero = False\<rparr>"

lemma parse_message: "\<exists>its. LogPatternParse env ''%m'' = Inr (True, its)"
proof -
  have "frags_ok env [Field plain_flags ''m'' None] []"
    by (simp add: flags_ok_def frag_field_def log_item_map_def field_items_def field_item_def pattern_text_def Let_def)
  from parse_frags [OF this, of "[]" "[]"] show ?thesis
    by (simp add: LogPatternParse_def pattern_text_def flags_text_def)
qed

definition default_frags :: "frag list" where
  "default_frags =
     [Field plain_flags ''d'' None, Literal '' '', Field plain_flags ''P'' None, Literal ''-['',
      Field \<lparr>ff_padleft = True, ff_length = 10, ff_limit = 10, ff_zero = False\<rparr> ''t'' None, Literal ''] ('',
      Field \<lparr>ff_padleft = True, ff_length = 15, ff_limit = 15, ff_zero = False\<rparr> ''F'' None, Literal '':'',
      Field \<lparr>ff_padleft = False, ff_length = 4, ff_limit = - 1, ff_zero = True\<rparr> ''L'' None, Literal '') ['',
      Field \<lparr>ff_padleft = True, ff_length = 5, ff_limit = - 1, ff_zero = False\<rparr> ''p'' None, Literal ''] '',
      Field plain_flags ''c'' None, Literal '' - '', Field plain_flags ''m'' None, Field plain_flags ''ex'' None,
      Field plain_flags ''n'' None]"

lemma digits_small: "digits 10 = ''10''" "digits 15 = ''15''" "digits 4 = ''4''" "digits 5 = ''5''"
  by code_simp+

lemma default_text: "pattern_text default_frags = LOG_PATTERN_DEFAULT"
  by (simp add: pattern_text_def default_frags_def LOG_PATTERN_DEFAULT_def flags_text_def digits_small)

lemma default_ok: "frags_ok env default_frags []"
  by (simp add: default_frags_def flags_ok_def frag_field_def log_item_map_def field_items_def field_item_def date_field_def
      pattern_text_def strchr_def field_delims_def Let_def)

section \<open>Properties\<close>

text \<open>C12: A pattern made of texts, \<open>%%\<close> and fields, each field with its flags, width and limit, name and braces, is read as
  the items of its parts, in order. A text behind the last field is not read: it is never printed.\<close>
theorem log_pattern:
  assumes "frags_ok env frs tail"
  shows "LogPatternParse env (pattern_text frs @ tail) = Inr (True, concat (map (frag_items env) frs))"
  using parse_frags [OF assms, of "[]" "[]"] by (simp add: LogPatternParse_def)

definition test_env :: log_env where
  "test_env = \<lparr>le_strftime = (\<lambda>fmt t. fmt), le_getenv = (\<lambda>_. NULL), le_pid = 42, le_hostname = NULL\<rparr>"

theorem log_pattern_witness:
  "LogPatternParse test_env ''a%m end'' =
    Inr (True, [LogAppenderItemString ''a'', (LogAppenderItemCreate LogFormatItem_Message)\<lparr>fi_limit := - 1\<rparr>])"
proof -
  have "frags_ok test_env [Literal ''a'', Field plain_flags ''m'' None] '' end''"
    by (simp add: flags_ok_def frag_field_def log_item_map_def field_items_def field_item_def
        pattern_text_def strchr_def field_delims_def Let_def)
  from log_pattern [OF this] show ?thesis
    by (simp add: pattern_text_def flags_text_def frag_field_def log_item_map_def field_items_def field_item_def Let_def
        LogAppenderItemCreate_def)
qed

text \<open>A source file's name is printed without its directory; a name without a directory loses its last
  character, and an empty one is read before its start.\<close>
theorem log_file_name:
  assumes "lp_fname lp = dir @ base" "dir = [] \<or> is_sep (List.last dir)" "\<forall>c \<in> set base. \<not> is_sep c"
  shows "LogPatternAppendFileName item lp dest =
    (if dir @ base = [] then Inl Out_Of_Bounds
     else Inr (LogPatternAppendPadding item dest (if dir = [] then butlast base else base)))"
proof (cases "dir @ base = []")
  case False
  then have s: "name_scan (dir @ base) (length (dir @ base) - 1) 0 =
      (if dir = [] then (0, length base - 1) else (length dir - 1, length base))"
    using name_scan_base assms(2,3) by blast
  show ?thesis
  proof (cases "dir = []")
    case True
    then have "base \<noteq> []" "\<not> is_sep (base ! 0)" using False assms(3) by auto
    with True s show ?thesis
      by (simp add: LogPatternAppendFileName_def assms(1) Let_def butlast_conv_take)
  next
    case d: False
    then have "is_sep ((dir @ base) ! (length dir - 1))" using assms(2) by (simp add: nth_append last_conv_nth)
    with d s show ?thesis by (simp add: LogPatternAppendFileName_def assms(1) Let_def)
  qed
qed (simp add: LogPatternAppendFileName_def assms(1))

definition example_param :: log_param where
  "example_param = \<lparr>lp_level = CMLogLevel_Info, lp_linenum = 120,
     lp_logger = \<lparr>lg_fullname = ''net'', lg_namepath = [''net''], lg_logrefs = [], lg_minlevel = CMLogLevel_Info\<rparr>,
     lp_stack = NULL,
     lp_logtm = \<lparr>tm_sec = 0, tm_min = 0, tm_hour = 0, tm_mday = 1, tm_mon = 0, tm_year = 126, tm_wday = 4, tm_yday = 0, tm_isdst = 0\<rparr>,
     lp_millis = 7, lp_fname = ''src/main.c'', lp_logmsg = ''up'', lp_thread = Some ''worker''\<rparr>"

theorem log_file_name_witness:
  "LogPatternAppendFileName (LogAppenderItemCreate LogFormatItem_FileName) (example_param\<lparr>lp_fname := ''main.c''\<rparr>) [] =
    Inr ''main.''"
  using log_file_name [of "example_param\<lparr>lp_fname := ''main.c''\<rparr>" "[]" "''main.c''"]
  by (simp add: is_sep_def strchr_def LogPatternAppendPadding_def LogAppenderItemCreate_def)

text \<open>What \<open>"%-n.ns"\<close> of \<open>printf\<close> makes of a text: its beginning, padded on the right.\<close>

definition printf_minus :: "nat \<Rightarrow> string \<Rightarrow> string" where
  "printf_minus n s = take n s @ spaces (n - length s)"

text \<open>C13: With the default pattern a message without a stack is the line: time with milliseconds, process, thread in
  ten columns, base name of the file in fifteen, line number in four, level in five, logger, message. The columns are
  not those of \<open>printf\<close>, whose style README.md promises for the widths: \<open>%-10.10t\<close> pads a short text on the left,
  where \<open>printf\<close> pads it on the right, and of a long one it keeps the end, where \<open>printf\<close> keeps the beginning; so with
  a short name, and with one longer than its column whose two parts differ, the line is not the documented one.\<close>
theorem log_default_line:
  assumes "lp_fname p = dir @ base" "dir \<noteq> []" "is_sep (List.last dir)" "\<forall>c \<in> set base. \<not> is_sep c"
    "length (le_strftime env ''%F %T.'' (lp_logtm p)) < 50" "0 \<le> lp_millis p" "0 \<le> lp_linenum p" "lp_linenum p < 10000"
    "lp_stack p = NULL" "lp_thread p = Some thread"
  shows "(\<exists>its. LogPatternParse env LOG_PATTERN_DEFAULT = Inr (True, its) \<and>
    log_text env its p [] =
      Inr (le_strftime env ''%F %T.'' (lp_logtm p) @ zeros 3 (lp_millis p) @ '' '' @ dec (le_pid env) @ ''-['' @
        fit 10 thread @ ''] ('' @ fit 15 base @ '':'' @ zeros 4 (lp_linenum p) @ '') ['' @
        spaces (5 - length (level_name (lp_level p))) @ level_name (lp_level p) @ ''] '' @
        lg_fullname (lp_logger p) @ '' - '' @ lp_logmsg p @ S_CRLF)) \<and>
    (thread \<noteq> [] \<and> hd thread \<noteq> CHR '' '' \<and> length thread < 10 \<longrightarrow>
      fit 10 thread = spaces (10 - length thread) @ thread \<and> fit 10 thread \<noteq> printf_minus 10 thread) \<and>
    (10 < length thread \<and> take 10 thread \<noteq> drop (length thread - 10) thread \<longrightarrow>
      fit 10 thread = drop (length thread - 10) thread \<and> fit 10 thread \<noteq> printf_minus 10 thread)"
proof -
  let ?its = "concat (map (frag_items env) default_frags)"
  have "LogPatternParse env LOG_PATTERN_DEFAULT = Inr (True, ?its)"
    using parse_frags [OF default_ok, of "[]" env "[]"] by (simp add: LogPatternParse_def default_text)
  moreover have base: "LogPatternAppendFileName item p dest = Inr (LogPatternAppendPadding item dest base)" for item dest
  proof -
    have n: "dir @ base \<noteq> []" using assms(2) by simp
    note s = name_scan_base [OF n _ assms(4)]
    have "is_sep ((dir @ base) ! (length dir - 1))" using assms(2,3) by (simp add: nth_append last_conv_nth)
    with s assms(2,3) show ?thesis by (simp add: LogPatternAppendFileName_def assms(1) Let_def)
  qed
  have line: "length (zeros 4 (lp_linenum p)) = 4"
    using length_digits [of "nat (lp_linenum p)" 3] assms(7,8) by (simp add: zeros_def dec_def)
  have z: "printf_int True False 3 (lp_millis p) = Some (zeros 3 (lp_millis p))"
    "printf_int True False 4 (lp_linenum p) = Some (zeros 4 (lp_linenum p))"
    using printf_zeros [OF assms(6), of 3] printf_zeros [OF assms(7), of 4] by simp_all
  have "log_text env ?its p [] =
      Inr (le_strftime env ''%F %T.'' (lp_logtm p) @ zeros 3 (lp_millis p) @ '' '' @ dec (le_pid env) @ ''-['' @
        fit 10 thread @ ''] ('' @ fit 15 base @ '':'' @ zeros 4 (lp_linenum p) @ '') ['' @
        spaces (5 - length (level_name (lp_level p))) @ level_name (lp_level p) @ ''] '' @
        lg_fullname (lp_logger p) @ '' - '' @ lp_logmsg p @ S_CRLF)"
    using line assms(5,9,10) padding_rules
    by (simp add: default_frags_def frag_field_def log_item_map_def field_items_def field_item_def date_field_def name_field_def
        LogAppenderItemCreate_def LogAppenderItemString_def pattern_func_def base z to_int_id
        LogPatternAppendDateTime_def LogPatternAppendMillisec_def LogPatternAppendString_def LogPatternAppendLoggerName_def
        LogPatternAppendThreadId_def LogPatternAppendLineNumber_def LogPatternAppendLogLevel_def LogPatternAppendMessage_def
        LogPatternAppendStack_def Let_def)
  moreover have "fit 10 thread = spaces (10 - length thread) @ thread \<and> fit 10 thread \<noteq> printf_minus 10 thread"
    if short: "thread \<noteq> []" "hd thread \<noteq> CHR '' ''" "length thread < 10"
  proof -
    obtain k where k: "10 - length thread = Suc k" using short(3) by (metis Suc_diff_Suc)
    have f: "fit 10 thread = spaces (10 - length thread) @ thread" using short(3) by (simp add: fit_def)
    have "hd (fit 10 thread) = CHR '' ''" unfolding f k by (simp add: spaces_def)
    moreover have "hd (printf_minus 10 thread) = hd thread" using short(1) by (simp add: printf_minus_def)
    ultimately show ?thesis using f short(2) by metis
  qed
  moreover have "fit 10 thread = drop (length thread - 10) thread \<and> fit 10 thread \<noteq> printf_minus 10 thread"
    if "10 < length thread" "take 10 thread \<noteq> drop (length thread - 10) thread"
    using that by (auto simp: fit_def printf_minus_def spaces_def)
  ultimately show ?thesis by blast
qed

theorem log_default_line_witness:
  "\<exists>its. LogPatternParse test_env LOG_PATTERN_DEFAULT = Inr (True, its) \<and>
    log_text test_env its example_param [] =
      Inr (''%F %T.'' @ zeros 3 7 @ '' '' @ dec 42 @ ''-['' @ fit 10 ''worker'' @ ''] ('' @ fit 15 ''main.c'' @ '':'' @
        zeros 4 120 @ '') [ INFO] net - up'' @ S_CRLF)"
proof -
  have "\<exists>its. LogPatternParse test_env LOG_PATTERN_DEFAULT = Inr (True, its) \<and>
      log_text test_env its example_param [] =
      Inr (le_strftime test_env ''%F %T.'' (lp_logtm example_param) @ zeros 3 (lp_millis example_param) @ '' '' @
        dec (le_pid test_env) @ ''-['' @
        fit 10 ''worker'' @ ''] ('' @ fit 15 ''main.c'' @ '':'' @ zeros 4 (lp_linenum example_param) @ '') ['' @
        spaces (5 - length (level_name (lp_level example_param))) @ level_name (lp_level example_param) @ ''] '' @
        lg_fullname (lp_logger example_param) @ '' - '' @ lp_logmsg example_param @ S_CRLF)"
    by (rule log_default_line [where dir = "''src/''", THEN conjunct1])
      (simp_all add: example_param_def test_env_def is_sep_def strchr_def)
  then show ?thesis by (simp add: example_param_def test_env_def level_name_def spaces_def)
qed

end
