(* ===== verification/Cmu_LogSystem.thy ===== *)
theory Cmu_LogSystem
  imports Cmu_LogPattern
begin

text \<open>
  \<open>src/src/logger.c\<close>, the log system: configured loggers, the loggers that programs use, how a message finds its
  appenders, and the configuration from JSON. Configured loggers are addressed, because \<open>Add\<close> to the sorted
  array destroys the one it replaces while others may still point to it; freed addresses are not used again. The
  sorted arrays are their sequences (\<open>put_by\<close>), the map of appenders its association list; memory is granted.
  What an appender does with a message is not part of this theory.
\<close>

section \<open>Data\<close>

datatype log_term = CMLogTerm_Year | CMLogTerm_Month | CMLogTerm_Date | CMLogTerm_Hour | CMLogTerm_Minute

datatype appender_kind =
    Console_Appender bool
  | File_Appender string
  | Rolling_Appender string log_term string
  | Socket_Appender "string ptr" int

record log_appender =
  ap_name :: string
  ap_kind :: appender_kind
  ap_pattern :: string
  ap_async :: "nat option"

record conf_logger =
  cl_name :: string
  cl_level :: log_level
  cl_additivity :: bool
  cl_lvlapndrs :: "log_appender list list"

record log_system =
  ls_heap :: "nat \<Rightarrow> conf_logger option"
  ls_next :: nat
  ls_appenders :: "(string \<times> log_appender) list"
  ls_cloggers :: "nat list"
  ls_levelloggers :: "nat list list"
  ls_loggers :: "logger list"

definition LogSystemCreateInternal :: log_system where
  "LogSystemCreateInternal =
     \<lparr>ls_heap = (\<lambda>_. None), ls_next = 0, ls_appenders = [], ls_cloggers = [], ls_levelloggers = replicate 6 [],
      ls_loggers = []\<rparr>"

text \<open>The name behind an address; of a freed one nothing is known, here it is empty.\<close>

definition conf_name :: "log_system \<Rightarrow> nat \<Rightarrow> string" where
  "conf_name ls a = (case ls_heap ls a of Some c \<Rightarrow> cl_name c | None \<Rightarrow> [])"

definition ConfLoggerComparator :: "log_system \<Rightarrow> nat \<Rightarrow> nat \<Rightarrow> int" where
  "ConfLoggerComparator ls a b = strcmp (conf_name ls a) (conf_name ls b)"

definition LogAppenderComparator :: "log_appender \<Rightarrow> log_appender \<Rightarrow> int" where
  "LogAppenderComparator a b = strcmp (ap_name a) (ap_name b)"

definition LoggerComparator :: "logger \<Rightarrow> logger \<Rightarrow> int" where
  "LoggerComparator a b = strcmp (lg_fullname a) (lg_fullname b)"

text \<open>Longer names first.\<close>

definition LoggerRefComparator :: "log_system \<Rightarrow> nat \<Rightarrow> nat \<Rightarrow> int" where
  "LoggerRefComparator ls a b =
     (let sa = length (conf_name ls a); sb = length (conf_name ls b)
      in if sa < sb then 1 else if sb < sa then - 1 else 0)"

section \<open>Operations\<close>

definition LogSystemAddAppender :: "log_appender \<Rightarrow> log_system \<Rightarrow> log_system" where
  "LogSystemAddAppender ap ls =
     (if map_of (ls_appenders ls) (ap_name ap) = None
      then ls\<lparr>ls_appenders := al_put (ap_name ap) ap (ls_appenders ls)\<rparr> else ls)"

definition level_map :: "log_level \<Rightarrow> ('x \<Rightarrow> 'x) \<Rightarrow> 'x list \<Rightarrow> 'x list" where
  "level_map level f xs = map (\<lambda>(i, x). if level_no level \<le> i then f x else x) (enumerate 0 xs)"

definition ConfLoggerAddAppender :: "nat \<Rightarrow> log_appender \<Rightarrow> log_level \<Rightarrow> log_system \<Rightarrow> log_system" where
  "ConfLoggerAddAppender a ap level ls =
     (let ls1 = LogSystemAddAppender ap ls
      in case ls_heap ls1 a of
           None \<Rightarrow> ls1
         | Some c \<Rightarrow>
             ls1\<lparr>ls_heap := (ls_heap ls1)(a \<mapsto>
               c\<lparr>cl_lvlapndrs := level_map level (put_by LogAppenderComparator ap) (cl_lvlapndrs c)\<rparr>)\<rparr>)"

text \<open>The configured logger that \<open>Add\<close> finds equal is destroyed.\<close>

definition LogSystemCreateLogger ::
    "string ptr \<Rightarrow> log_level \<Rightarrow> bool \<Rightarrow> log_system \<Rightarrow> nat \<times> log_system" where
  "LogSystemCreateLogger name level additivity ls =
     (let a = ls_next ls;
          c = \<lparr>cl_name = (case name of NULL \<Rightarrow> [] | Some n \<Rightarrow> n), cl_level = level, cl_additivity = additivity,
               cl_lvlapndrs = replicate 6 []\<rparr>;
          ls1 = ls\<lparr>ls_heap := (ls_heap ls)(a \<mapsto> c), ls_next := a + 1\<rparr>;
          old = List.find (\<lambda>b. ConfLoggerComparator ls1 a b = 0) (ls_cloggers ls);
          ls2 = ls1\<lparr>ls_cloggers := put_by (ConfLoggerComparator ls1) a (ls_cloggers ls1),
                    ls_heap := (case old of None \<Rightarrow> ls_heap ls1 | Some b \<Rightarrow> (ls_heap ls1)(b := None))\<rparr>
      in (a, ls2\<lparr>ls_levelloggers := level_map level (put_by (ConfLoggerComparator ls2) a) (ls_levelloggers ls2)\<rparr>))"

text \<open>\<open>prefix\<close> is empty, or \<open>name\<close>, or followed by a dot in it.\<close>

definition path_prefix :: "string \<Rightarrow> string \<Rightarrow> bool" where
  "path_prefix prefix name \<longleftrightarrow>
     prefix = [] \<or>
     (take (length prefix) name = prefix \<and>
      (length name = length prefix \<or> length prefix < length name \<and> name ! length prefix = CHR ''.''))"

text \<open>The references collected so far, the length of the most specific name and its level.\<close>

definition collect_ref ::
    "log_system \<Rightarrow> string \<Rightarrow> nat list \<times> nat option \<times> log_level \<Rightarrow> nat \<Rightarrow> nat list \<times> nat option \<times> log_level" where
  "collect_ref ls name st a =
     (case st of
        (refs, eff, minlevel) \<Rightarrow>
          if path_prefix (conf_name ls a) name then
            (put_by (LoggerRefComparator ls) a refs,
             if eff = None \<or> the eff < length (conf_name ls a)
             then (Some (length (conf_name ls a)), case ls_heap ls a of Some c \<Rightarrow> cl_level c | None \<Rightarrow> minlevel)
             else (eff, minlevel))
          else st)"

definition LogSystemGetLogger :: "string \<Rightarrow> log_system \<Rightarrow> logger \<times> log_system" where
  "LogSystemGetLogger name ls =
     (case List.find (\<lambda>l. strcmp name (lg_fullname l) = 0) (ls_loggers ls) of
        Some l \<Rightarrow> (l, ls)
      | None \<Rightarrow>
          (case foldl (collect_ref ls name) ([], None, CMLogLevel_Fatal) (ls_cloggers ls) of
             (refs, _, minlevel) \<Rightarrow>
               (let l = \<lparr>lg_fullname = name, lg_namepath = map trim (pieces ''.'' name), lg_logrefs = refs,
                         lg_minlevel = minlevel\<rparr>
                in (l, ls\<lparr>ls_loggers := put_by LoggerComparator l (ls_loggers ls)\<rparr>))))"

definition LoggerIsEnabled :: "logger \<Rightarrow> log_level \<Rightarrow> bool" where
  "LoggerIsEnabled lg level \<longleftrightarrow> \<not> level < lg_minlevel lg"

definition LogIsEnabled :: "logger ptr \<Rightarrow> log_level \<Rightarrow> bool" where
  "LogIsEnabled lg level = (case lg of Some l \<Rightarrow> LoggerIsEnabled l level | NULL \<Rightarrow> False)"

text \<open>The appenders a message is handed to, in order; a freed configured logger would be read, here it is skipped.\<close>

definition ConfLoggerLog :: "conf_logger \<Rightarrow> log_level \<Rightarrow> log_appender list" where
  "ConfLoggerLog c level = cl_lvlapndrs c ! level_no level"

fun log_refs :: "log_system \<Rightarrow> log_level \<Rightarrow> nat list \<Rightarrow> log_appender list" where
  "log_refs ls level [] = []"
| "log_refs ls level (a # as) =
     (case ls_heap ls a of
        None \<Rightarrow> log_refs ls level as
      | Some c \<Rightarrow>
          (if cl_level c \<le> level then ConfLoggerLog c level else []) @
          (if cl_additivity c then log_refs ls level as else []))"

definition LoggerLogEx :: "log_system \<Rightarrow> logger \<Rightarrow> log_level \<Rightarrow> log_appender list" where
  "LoggerLogEx ls lg level = (if level < lg_minlevel lg then [] else log_refs ls level (lg_logrefs lg))"

section \<open>Configuration\<close>

text \<open>
  \<open>LogConfigClean\<close>: keys to lower case, all the way down. The loop over the keys an object had at first takes each
  item out, cleans it with \<open>clean\<close> and puts it back under the key in lower case, which may replace another item.
  \<open>ToLower\<close> of an empty string is NULL, so an empty key is a dereference of NULL.
\<close>

fun rename_keys :: "(json \<Rightarrow> fault + json) \<Rightarrow> json \<Rightarrow> string list \<Rightarrow> fault + json" where
  "rename_keys clean jobj [] = Inr jobj"
| "rename_keys clean jobj (key # keys) =
     (case JsonObjectRemove jobj key of
        (NULL, _) \<Rightarrow> Inl Null_Deref
      | (Some item, jobj1) \<Rightarrow>
          (case clean item of
             Inl e \<Rightarrow> Inl e
           | Inr item1 \<Rightarrow>
               (case map tolower key of
                  [] \<Rightarrow> Inl Null_Deref
                | nstr \<Rightarrow> rename_keys clean (snd (JsonObjectPut jobj1 nstr item1)) keys)))"

fun clean_items :: "(json \<Rightarrow> fault + json) \<Rightarrow> json list \<Rightarrow> fault + json list" where
  "clean_items clean [] = Inr []"
| "clean_items clean (x # xs) =
     (case clean x of Inl e \<Rightarrow> Inl e | Inr y \<Rightarrow> map_sum id ((#) y) (clean_items clean xs))"

text \<open>
  An item is cleaned again when its new key is still to come, so the recursion is not structural; it goes down
  one level each time, and the depth of the value is levels enough (\<open>LogConfigClean_simps\<close>).
\<close>

fun json_depth :: "json \<Rightarrow> nat" where
  "json_depth (JValue t d) = 0"
| "json_depth (JObject es ks) = Suc (foldr max (map (\<lambda>(k, v). json_depth v) es) 0)"
| "json_depth (JArray xs) = Suc (foldr max (map json_depth xs) 0)"

fun clean_at :: "nat \<Rightarrow> json \<Rightarrow> fault + json" where
  "clean_at (Suc n) (JObject es ks) = rename_keys (clean_at n) (JObject es ks) (map fst es)"
| "clean_at (Suc n) (JArray xs) = map_sum id JArray (clean_items (clean_at n) xs)"
| "clean_at _ j = Inr j"

definition LogConfigClean :: "json \<Rightarrow> fault + json" where
  "LogConfigClean json = clean_at (json_depth json) json"

definition log_term_format :: "log_term \<Rightarrow> string" where
  "log_term_format t =
     (case t of
        CMLogTerm_Year \<Rightarrow> ''.%Y''
      | CMLogTerm_Month \<Rightarrow> ''.%Y-%m''
      | CMLogTerm_Date \<Rightarrow> ''.%Y-%m-%d''
      | CMLogTerm_Hour \<Rightarrow> ''.%Y-%m-%d_%H''
      | CMLogTerm_Minute \<Rightarrow> ''.%Y-%m-%d_%H%M'')"

text \<open>
  An appender's constructor: \<open>listens\<close> says whether a port can be listened on. The name and the pattern are copied first, then the pattern is parsed, then the paths are copied.
\<close>

definition appender_base :: "log_env \<Rightarrow> string ptr \<Rightarrow> string ptr \<Rightarrow> fault + bool" where
  "appender_base env name pattern =
     (case (name, pattern) of
        (Some _, Some p) \<Rightarrow> (case LogPatternParse env p of Inl e \<Rightarrow> Inl e | Inr (ok, _) \<Rightarrow> Inr ok)
      | _ \<Rightarrow> Inl Null_Deref)"

definition make_appender ::
    "log_env \<Rightarrow> string ptr \<Rightarrow> string ptr \<Rightarrow> (unit \<Rightarrow> fault + appender_kind option) \<Rightarrow>
     fault + log_appender option" where
  "make_appender env name pattern kind =
     (case appender_base env name pattern of
        Inl e \<Rightarrow> Inl e
      | Inr False \<Rightarrow> Inr None
      | Inr True \<Rightarrow>
          (case kind () of
             Inl e \<Rightarrow> Inl e
           | Inr None \<Rightarrow> Inr None
           | Inr (Some k) \<Rightarrow>
               Inr (Some \<lparr>ap_name = the name, ap_kind = k, ap_pattern = the pattern, ap_async = None\<rparr>)))"

definition roll_term :: "string \<Rightarrow> log_term" where
  "roll_term sterm =
     (if strcaseeq ''year'' sterm then CMLogTerm_Year
      else if strcaseeq ''month'' sterm then CMLogTerm_Month
      else if strcaseeq ''hour'' sterm then CMLogTerm_Hour
      else if strcaseeq ''minute'' sterm then CMLogTerm_Minute
      else CMLogTerm_Date)"

text \<open>The directory of a path, which is created: copied to 1024 bytes. \<open>None\<close> for a path without one.\<close>

definition LogPathCreate :: "string \<Rightarrow> fault + string option" where
  "LogPathCreate fpath =
     (let n = length (dropWhile (\<lambda>c. c \<noteq> CHR ''/'' \<and> c \<noteq> CHR 0x5C) (rev fpath))
      in if n = 0 then Inr None
         else if 1024 \<le> n - 1 then Inl Out_Of_Bounds
         else Inr (Some (take (n - 1) fpath)))"

text \<open>The last step of the constructors of files: the directory.\<close>

definition with_path :: "string \<Rightarrow> appender_kind \<Rightarrow> fault + appender_kind option" where
  "with_path fpath k = (case LogPathCreate fpath of Inl e \<Rightarrow> Inl e | Inr _ \<Rightarrow> Inr (Some k))"

text \<open>The kind of a rolling appender: a term that is no text is read through NULL; the default path has 1024 bytes.\<close>

definition rolling_kind :: "json \<Rightarrow> fault + (unit \<Rightarrow> fault + appender_kind option)" where
  "rolling_kind jobj =
     (case (if JsonObjectGet jobj ''rollterm'' \<noteq> NULL
            then (case JsonObjectGetCString jobj ''rollterm'' of
                    NULL \<Rightarrow> Inl Null_Deref | Some t \<Rightarrow> Inr (roll_term t))
            else Inr CMLogTerm_Date) of
        Inl e \<Rightarrow> Inl e
      | Inr term \<Rightarrow>
          (if JsonObjectGet jobj ''filepattern'' \<noteq> NULL
           then Inr (\<lambda>_. case (JsonObjectGetCString jobj ''filename'', JsonObjectGetCString jobj ''filepattern'') of
                   (Some f, Some p) \<Rightarrow> with_path f (Rolling_Appender f term p)
                 | _ \<Rightarrow> Inl Null_Deref)
           else
             (case JsonObjectGetCString jobj ''filename'' of
                NULL \<Rightarrow> Inl Null_Deref
              | Some f \<Rightarrow>
                  if length f + length (log_term_format term) \<ge> 1024 then Inl Out_Of_Bounds
                  else Inr (\<lambda>_. with_path f (Rolling_Appender f term (f @ log_term_format term))))))"

text \<open>No kind, because a key is missing; no appender, because its type is unknown or its constructor failed.\<close>

definition create_by_type ::
    "log_env \<Rightarrow> (string ptr \<Rightarrow> int \<Rightarrow> bool) \<Rightarrow> string \<Rightarrow> string ptr \<Rightarrow> string ptr \<Rightarrow> json \<Rightarrow>
     fault + log_appender option" where
  "create_by_type env listens stype sname spattern jobj =
     (if stype = ''console'' then
        make_appender env sname spattern
          (\<lambda>_. Inr (Some (Console_Appender
             (if JsonObjectGet jobj ''useStderr'' \<noteq> NULL then JsonObjectGetBoolean jobj ''useStderr'' else False))))
      else if stype = ''file'' then
        (if JsonObjectGet jobj ''filename'' = NULL then Inr None
         else make_appender env sname spattern
           (\<lambda>_. case JsonObjectGetCString jobj ''filename'' of
                  NULL \<Rightarrow> Inl Null_Deref | Some f \<Rightarrow> with_path f (File_Appender f)))
      else if stype = ''rollingfile'' then
        (if JsonObjectGet jobj ''filename'' = NULL then Inr None
         else
           (case rolling_kind jobj of
              Inl e \<Rightarrow> Inl e
            | Inr k \<Rightarrow> make_appender env sname spattern k))
      else if stype = ''socket'' then
        (if JsonObjectGet jobj ''listenport'' = NULL then Inr None
         else
           (let port = to_int (JsonObjectGetLong jobj ''listenport'');
                shost = (if JsonObjectGet jobj ''accepthost'' \<noteq> NULL then JsonObjectGetCString jobj ''accepthost''
                         else Some ''INADDR_ANY'')
            in make_appender env sname spattern
                 (\<lambda>_. if \<not> listens shost port then Inr None
                       else if 256 < length (the sname) + 29 then Inl Out_Of_Bounds
                       else Inr (Some (Socket_Appender shost port)))))
      else Inr None)"

text \<open>The thread of an asynchronous appender gets its name in a buffer of 256 bytes.\<close>

definition LogSystemProcessOneAppender ::
    "log_env \<Rightarrow> (string ptr \<Rightarrow> int \<Rightarrow> bool) \<Rightarrow> log_system \<Rightarrow> string \<Rightarrow> json \<Rightarrow>
     fault + (bool \<times> log_system)" where
  "LogSystemProcessOneAppender env listens ls stype json =
     (if JsonGetType json \<noteq> TObject \<or> JsonObjectGet json ''name'' = NULL then Inr (False, ls)
      else
        (let sname = JsonObjectGetCString json ''name'';
             spattern = (if JsonObjectGet json ''pattern'' \<noteq> NULL then JsonObjectGetCString json ''pattern''
                         else Some LOG_PATTERN_DEFAULT);
             async = (JsonObjectGet json ''async'' \<noteq> NULL \<and> JsonObjectGetBoolean json ''async'');
             bufsz = (if JsonObjectGet json ''asyncbuffersize'' \<noteq> NULL
                      then JsonObjectGetLong json ''asyncbuffersize'' else 256)
         in if bufsz < 10 then Inr (False, ls)
            else
              (case create_by_type env listens stype sname spattern json of
                 Inl e \<Rightarrow> Inl e
               | Inr None \<Rightarrow> Inr (False, ls)
               | Inr (Some ap) \<Rightarrow>
                   if async \<and> 256 < length (the sname) + 13 then Inl Out_Of_Bounds
                   else Inr (True, LogSystemAddAppender (ap\<lparr>ap_async := (if async then Some (nat bufsz) else None)\<rparr>) ls))))"

definition LogStringToLevel :: "string \<Rightarrow> log_level option" where
  "LogStringToLevel s =
     (if strcaseeq s ''trace'' then Some CMLogLevel_Trace
      else if strcaseeq s ''debug'' then Some CMLogLevel_Debug
      else if strcaseeq s ''info'' then Some CMLogLevel_Info
      else if strcaseeq s ''warn'' then Some CMLogLevel_Warn
      else if strcaseeq s ''error'' then Some CMLogLevel_Error
      else if strcaseeq s ''fatal'' then Some CMLogLevel_Fatal
      else None)"

definition LogSystemAddAppenderToLogger ::
    "log_system \<Rightarrow> nat \<Rightarrow> string ptr \<Rightarrow> log_level \<Rightarrow> fault + (bool \<times> log_system)" where
  "LogSystemAddAppenderToLogger ls clogger apndr level =
     (case apndr of
        NULL \<Rightarrow> Inl Null_Deref
      | Some nm \<Rightarrow>
          (case map_of (ls_appenders ls) nm of
             None \<Rightarrow> Inr (False, ls)
           | Some ap \<Rightarrow> Inr (True, ConfLoggerAddAppender clogger ap level ls)))"

definition LogSystemProcessAppenderRef ::
    "log_system \<Rightarrow> nat \<Rightarrow> json \<Rightarrow> log_level \<Rightarrow> fault + (bool \<times> log_system)" where
  "LogSystemProcessAppenderRef ls clogger json level =
     (case JsonGetType json of
        TValue \<Rightarrow> LogSystemAddAppenderToLogger ls clogger (Some (JsonValueGetCString json)) level
      | TObject \<Rightarrow>
          (if JsonObjectGet json ''ref'' = NULL then Inr (False, ls)
           else if JsonObjectGet json ''level'' = NULL
           then LogSystemAddAppenderToLogger ls clogger (JsonObjectGetCString json ''ref'') level
           else
             (case JsonObjectGetCString json ''level'' of
                NULL \<Rightarrow> Inl Null_Deref
              | Some s \<Rightarrow>
                  (case LogStringToLevel s of
                     None \<Rightarrow> Inr (False, ls)
                   | Some alevel \<Rightarrow>
                       LogSystemAddAppenderToLogger ls clogger (JsonObjectGetCString json ''ref'') alevel)))
      | TArray \<Rightarrow> Inr (False, ls))"

fun appender_refs :: "log_system \<Rightarrow> nat \<Rightarrow> json list \<Rightarrow> log_level \<Rightarrow> fault + (bool \<times> log_system)" where
  "appender_refs ls clogger [] level = Inr (True, ls)"
| "appender_refs ls clogger (it # its) level =
     (if JsonGetType it = TArray then Inr (False, ls)
      else
        (case LogSystemProcessAppenderRef ls clogger it level of
           Inl e \<Rightarrow> Inl e
         | Inr (False, ls1) \<Rightarrow> Inr (False, ls1)
         | Inr (True, ls1) \<Rightarrow> appender_refs ls1 clogger its level))"

text \<open>The name of a logger; \<open>None\<close> inside is a refusal.\<close>

definition logger_name :: "string \<Rightarrow> json \<Rightarrow> string option" where
  "logger_name stype json =
     (if JsonObjectGet json ''name'' \<noteq> NULL then
        (case JsonObjectGetString json ''name'' of
           NULL \<Rightarrow> None
         | Some nm \<Rightarrow>
             (let sname = trim (cstr nm)
              in if sname = [] \<and> stype \<noteq> ''root'' then None
                 else Some (if stype = ''root'' then [] else sname)))
      else if stype \<noteq> ''root'' then None else Some [])"

definition LogSystemProcessOneLogger :: "log_system \<Rightarrow> string \<Rightarrow> json \<Rightarrow> fault + (bool \<times> log_system)" where
  "LogSystemProcessOneLogger ls stype json =
     (if JsonGetType json \<noteq> TObject then Inr (False, ls)
      else
        (case logger_name stype json of
           None \<Rightarrow> Inr (False, ls)
         | Some sname \<Rightarrow>
             if JsonObjectGet json ''level'' = NULL then Inr (False, ls)
             else
               (case JsonObjectGetCString json ''level'' of
                  NULL \<Rightarrow> Inl Null_Deref
                | Some s \<Rightarrow>
                    (case LogStringToLevel s of
                       None \<Rightarrow> Inr (False, ls)
                     | Some level \<Rightarrow>
                         (let additivity = (if JsonObjectGet json ''additivity'' \<noteq> NULL
                                            then JsonObjectGetBoolean json ''additivity'' else True)
                          in case LogSystemCreateLogger (Some sname) level additivity ls of
                               (clogger, ls1) \<Rightarrow>
                                 (case JsonObjectGet json ''appenderref'' of
                                    NULL \<Rightarrow> Inr (True, ls1)
                                  | Some (JArray its) \<Rightarrow> appender_refs ls1 clogger its level
                                  | Some (JValue t d) \<Rightarrow> LogSystemProcessAppenderRef ls1 clogger (JValue t d) level
                                  | Some (JObject _ _) \<Rightarrow> Inr (True, ls1)))))))"

text \<open>The type of an item, in lower case, or the default; \<open>None\<close> is a refusal.\<close>

definition item_type :: "string ptr \<Rightarrow> json \<Rightarrow> string option" where
  "item_type deftype it =
     (if JsonObjectGet it ''type'' \<noteq> NULL
      then map_option (\<lambda>t. cstr (map tolower t)) (JsonObjectGetString it ''type'') else deftype)"

fun process_items ::
    "(log_system \<Rightarrow> string \<Rightarrow> json \<Rightarrow> fault + (bool \<times> log_system)) \<Rightarrow> string ptr \<Rightarrow> json list \<Rightarrow> log_system \<Rightarrow>
     fault + (bool \<times> log_system)" where
  "process_items oneprocf deftype [] ls = Inr (True, ls)"
| "process_items oneprocf deftype (it # its) ls =
     (if JsonGetType it \<noteq> TObject then Inr (False, ls)
      else
        (case item_type deftype it of
           None \<Rightarrow> Inr (False, ls)
         | Some stype \<Rightarrow>
             (case oneprocf ls stype it of
                Inl e \<Rightarrow> Inl e
              | Inr (False, ls1) \<Rightarrow> Inr (False, ls1)
              | Inr (True, ls1) \<Rightarrow> process_items oneprocf deftype its ls1)))"

definition LogSystemProcessItems ::
    "log_system \<Rightarrow> json \<Rightarrow> string ptr \<Rightarrow> (log_system \<Rightarrow> string \<Rightarrow> json \<Rightarrow> fault + (bool \<times> log_system)) \<Rightarrow>
     fault + (bool \<times> log_system)" where
  "LogSystemProcessItems ls json deftype oneprocf =
     (case json of JArray its \<Rightarrow> process_items oneprocf deftype its ls | _ \<Rightarrow> Inr (False, ls))"

text \<open>The default pattern is one that can be read.\<close>

definition LogSystemConfigureDefault :: log_system where
  "LogSystemConfigureDefault =
     (let conapndr = \<lparr>ap_name = ''__CONSOL'', ap_kind = Console_Appender False, ap_pattern = LOG_PATTERN_DEFAULT,
                      ap_async = None\<rparr>
      in case LogSystemCreateLogger NULL CMLogLevel_Debug True LogSystemCreateInternal of
           (root_logger, res) \<Rightarrow>
             ConfLoggerAddAppender root_logger conapndr CMLogLevel_Debug (LogSystemAddAppender conapndr res))"

definition log_config :: "json \<Rightarrow> json" where
  "log_config json1 = (case JsonObjectGet json1 ''configuration'' of NULL \<Rightarrow> json1 | Some c \<Rightarrow> c)"

text \<open>
  The system that is installed. The code joins the two passes with \<open>&\<close>, which leaves their order to the compiler;
  here the appenders come first, as they have to. A document, or a \<open>configuration\<close> in it, that is no object is called through the
  table of another type.
\<close>

definition LogSystemConfigureInternal ::
    "log_env \<Rightarrow> (string ptr \<Rightarrow> int \<Rightarrow> bool) \<Rightarrow> json \<Rightarrow> fault + log_system" where
  "LogSystemConfigureInternal env listens json =
     (case LogConfigClean json of
        Inl e \<Rightarrow> Inl e
      | Inr json1 \<Rightarrow>
          if JsonGetType json1 \<noteq> TObject then Inl Out_Of_Bounds
          else
            (let config = log_config json1
             in if JsonGetType config \<noteq> TObject then Inl Out_Of_Bounds
                else
                  (case (JsonObjectGet config ''appenders'', JsonObjectGet config ''loggers'') of
                     (Some appenders, Some loggers) \<Rightarrow>
                       (case LogSystemProcessItems LogSystemCreateInternal appenders NULL
                               (LogSystemProcessOneAppender env listens) of
                          Inl e \<Rightarrow> Inl e
                        | Inr (ok1, ls1) \<Rightarrow>
                            (case LogSystemProcessItems ls1 loggers (Some ''logger'') LogSystemProcessOneLogger of
                               Inl e \<Rightarrow> Inl e
                             | Inr (ok2, ls2) \<Rightarrow> Inr (if ok1 \<and> ok2 then ls2 else LogSystemConfigureDefault)))
                   | _ \<Rightarrow> Inr LogSystemConfigureDefault)))"

text \<open>A file's contents; \<open>NULL\<close> when it cannot be read.\<close>

definition LogSystemConfigureFomJson ::
    "'d dlib \<Rightarrow> log_env \<Rightarrow> (string ptr \<Rightarrow> int \<Rightarrow> bool) \<Rightarrow> string ptr \<Rightarrow> fault + log_system" where
  "LogSystemConfigureFomJson lib env listens contents =
     (case contents of
        NULL \<Rightarrow> Inr LogSystemConfigureDefault
      | Some text \<Rightarrow>
          (case JsonParse lib text of
             None \<Rightarrow> Inr LogSystemConfigureDefault
           | Some json \<Rightarrow> LogSystemConfigureInternal env listens json))"


section \<open>The invariant\<close>

text \<open>
  Every configured logger the arrays or a logger point to is in use, their names are different and sorted, and a
  configured logger has a list of appenders for each level.
\<close>

definition ls_ok :: "log_system \<Rightarrow> bool" where
  "ls_ok ls \<longleftrightarrow>
     (\<forall>a. ls_heap ls a \<noteq> None \<longleftrightarrow> a \<in> set (ls_cloggers ls)) \<and>
     (\<forall>a \<in> set (ls_cloggers ls). a < ls_next ls \<and> NUL \<notin> set (conf_name ls a) \<and>
        length (cl_lvlapndrs (the (ls_heap ls a))) = 6) \<and>
     sorted_wrt (\<lambda>a b. ConfLoggerComparator ls a b < 0) (ls_cloggers ls) \<and>
     length (ls_levelloggers ls) = 6 \<and>
     (\<forall>xs \<in> set (ls_levelloggers ls). set xs \<subseteq> set (ls_cloggers ls)) \<and>
     (\<forall>l \<in> set (ls_loggers ls). set (lg_logrefs l) \<subseteq> set (ls_cloggers ls))"

lemma ls_okD:
  assumes "ls_ok ls"
  shows "ls_heap ls a \<noteq> None \<longleftrightarrow> a \<in> set (ls_cloggers ls)"
    "a \<in> set (ls_cloggers ls) \<Longrightarrow> a < ls_next ls"
    "a \<in> set (ls_cloggers ls) \<Longrightarrow> NUL \<notin> set (conf_name ls a)"
    "a \<in> set (ls_cloggers ls) \<Longrightarrow> length (cl_lvlapndrs (the (ls_heap ls a))) = 6"
    "sorted_wrt (\<lambda>a b. ConfLoggerComparator ls a b < 0) (ls_cloggers ls)"
    "length (ls_levelloggers ls) = 6"
    "xs \<in> set (ls_levelloggers ls) \<Longrightarrow> set xs \<subseteq> set (ls_cloggers ls)"
    "l \<in> set (ls_loggers ls) \<Longrightarrow> set (lg_logrefs l) \<subseteq> set (ls_cloggers ls)"
  using assms by (auto simp: ls_ok_def)

interpretation clc: comparator "ref_cmp (ConfLoggerComparator ls)" "ref_ok (\<lambda>a. NUL \<notin> set (conf_name ls a))" for ls
proof
  fix x y z
  show "ref_ok (\<lambda>a. NUL \<notin> set (conf_name ls a)) x \<Longrightarrow> ref_ok (\<lambda>a. NUL \<notin> set (conf_name ls a)) y \<Longrightarrow>
      ref_cmp (ConfLoggerComparator ls) x y < 0 \<longleftrightarrow> 0 < ref_cmp (ConfLoggerComparator ls) y x"
    using strcmp_antisym [of "conf_name ls (the x)" "conf_name ls (the y)"]
    by (auto simp: ref_ok_def ref_cmp_def ConfLoggerComparator_def split: option.splits)
  show "ref_ok (\<lambda>a. NUL \<notin> set (conf_name ls a)) x \<Longrightarrow> ref_ok (\<lambda>a. NUL \<notin> set (conf_name ls a)) y \<Longrightarrow>
      ref_ok (\<lambda>a. NUL \<notin> set (conf_name ls a)) z \<Longrightarrow> ref_cmp (ConfLoggerComparator ls) x y \<le> 0 \<Longrightarrow>
      ref_cmp (ConfLoggerComparator ls) y z \<le> 0 \<Longrightarrow> ref_cmp (ConfLoggerComparator ls) x z \<le> 0"
    by (auto simp: ref_ok_def ref_cmp_def ConfLoggerComparator_def dest: strcmp_trans split: option.splits)
qed (auto simp: ref_ok_def ref_cmp_def ConfLoggerComparator_def split: option.splits)

lemma conf_names_distinct:
  assumes "ls_ok ls" "a \<in> set (ls_cloggers ls)" "b \<in> set (ls_cloggers ls)" "conf_name ls a = conf_name ls b"
  shows "a = b"
proof (rule ccontr)
  assume "a \<noteq> b"
  then have "ConfLoggerComparator ls a b < 0 \<or> ConfLoggerComparator ls b a < 0"
    using ls_okD(5) [OF assms(1)] assms(2,3) unfolding sorted_wrt_iff_nth_less in_set_conv_nth
    by (metis linorder_neq_iff)
  then show False using assms(4) by (simp add: ConfLoggerComparator_def)
qed

lemma sorted_put_conf:
  assumes "sorted_wrt (\<lambda>a b. ConfLoggerComparator ls a b < 0) xs" "\<forall>b \<in> set xs. NUL \<notin> set (conf_name ls b)"
    "NUL \<notin> set (conf_name ls a)"
  shows "sorted_wrt (\<lambda>a b. ConfLoggerComparator ls a b < 0) (put_by (ConfLoggerComparator ls) a xs)"
  unfolding ascending_refs [symmetric] put_by_sorted_put
  using assms by (intro clc.ascending_sorted_put) (auto simp: ascending_refs ref_ok_def)

lemma set_level_map: "x \<in> set (level_map level f xs) \<Longrightarrow> x \<in> set xs \<or> x \<in> f ` set xs"
  by (auto simp: level_map_def in_set_enumerate_eq split: if_splits)

lemma length_level_map [simp]: "length (level_map level f xs) = length xs"
  by (simp add: level_map_def)

lemma nth_level_map: "i < length xs \<Longrightarrow> level_map level f xs ! i = (if level_no level \<le> i then f (xs ! i) else xs ! i)"
  by (simp add: level_map_def nth_enumerate_eq)

lemma LogCreate_ok: "ls_ok LogSystemCreateInternal"
  by (simp add: ls_ok_def LogSystemCreateInternal_def)

lemma AddAppender_same:
  "ls_heap (LogSystemAddAppender ap ls) = ls_heap ls" "ls_cloggers (LogSystemAddAppender ap ls) = ls_cloggers ls"
  "ls_next (LogSystemAddAppender ap ls) = ls_next ls" "ls_levelloggers (LogSystemAddAppender ap ls) = ls_levelloggers ls"
  "ls_loggers (LogSystemAddAppender ap ls) = ls_loggers ls"
  by (simp_all add: LogSystemAddAppender_def)

lemma AddAppender_ok: "ls_ok ls \<Longrightarrow> ls_ok (LogSystemAddAppender ap ls)"
  by (simp add: ls_ok_def AddAppender_same conf_name_def ConfLoggerComparator_def)

lemma ConfAddAppender_ok:
  assumes "ls_ok ls"
  shows "ls_ok (ConfLoggerAddAppender a ap level ls)"
proof (cases "ls_heap ls a")
  case None
  with assms show ?thesis using AddAppender_ok by (simp add: ConfLoggerAddAppender_def AddAppender_same)
next
  case (Some c)
  let ?ls = "ConfLoggerAddAppender a ap level ls"
  have same: "conf_name ?ls b = conf_name ls b" for b
    using Some by (simp add: conf_name_def ConfLoggerAddAppender_def AddAppender_same)
  have heap: "ls_heap ?ls b \<noteq> None \<longleftrightarrow> ls_heap ls b \<noteq> None" for b
    using Some by (simp add: ConfLoggerAddAppender_def AddAppender_same)
  have len: "length (cl_lvlapndrs (the (ls_heap ?ls b))) = length (cl_lvlapndrs (the (ls_heap ls b)))" for b
    using Some by (simp add: ConfLoggerAddAppender_def AddAppender_same)
  have rest: "ls_cloggers ?ls = ls_cloggers ls" "ls_next ?ls = ls_next ls" "ls_levelloggers ?ls = ls_levelloggers ls"
    "ls_loggers ?ls = ls_loggers ls"
    using Some by (simp_all add: ConfLoggerAddAppender_def AddAppender_same)
  from assms show ?thesis unfolding ls_ok_def same heap len rest ConfLoggerComparator_def .
qed

lemma CreateLogger_ok:
  assumes "ls_ok ls" "NUL \<notin> set nm" "\<And>a. a \<in> set (ls_cloggers ls) \<Longrightarrow> conf_name ls a \<noteq> nm"
    and r_def: "r = LogSystemCreateLogger (Some nm) level additivity ls"
  shows "ls_ok (snd r)" "fst r = ls_next ls" "set (ls_cloggers (snd r)) = insert (ls_next ls) (set (ls_cloggers ls))"
    "ls_heap (snd r) = (ls_heap ls)(ls_next ls \<mapsto> \<lparr>cl_name = nm, cl_level = level, cl_additivity = additivity,
       cl_lvlapndrs = replicate 6 []\<rparr>)"
    "ls_loggers (snd r) = ls_loggers ls"
proof -
  note d = ls_okD [OF assms(1)]
  let ?a = "ls_next ls"
  let ?c = "\<lparr>cl_name = nm, cl_level = level, cl_additivity = additivity, cl_lvlapndrs = replicate 6 []\<rparr>"
  let ?ls1 = "ls\<lparr>ls_heap := (ls_heap ls)(?a \<mapsto> ?c), ls_next := ?a + 1\<rparr>"
  have new: "?a \<notin> set (ls_cloggers ls)" using d(2) by blast
  have nm: "conf_name ?ls1 ?a = nm" "\<And>b. b \<in> set (ls_cloggers ls) \<Longrightarrow> conf_name ?ls1 b = conf_name ls b"
    using new by (auto simp: conf_name_def)
  have no: "ConfLoggerComparator ?ls1 ?a b \<noteq> 0" if "b \<in> set (ls_cloggers ls)" for b
    using strcmp_eq_0 [OF assms(2) d(3) [OF that]] assms(3) [OF that] nm that by (simp add: ConfLoggerComparator_def)
  have old: "List.find (\<lambda>b. ConfLoggerComparator ?ls1 ?a b = 0) (ls_cloggers ls) = None"
    using no by (simp add: find_None_iff)
  let ?cs = "put_by (ConfLoggerComparator ?ls1) ?a (ls_cloggers ls)"
  let ?ls2 = "?ls1\<lparr>ls_cloggers := ?cs, ls_heap := ls_heap ?ls1\<rparr>"
  have r: "r = (?a, ?ls2\<lparr>ls_levelloggers := level_map level (put_by (ConfLoggerComparator ?ls2) ?a) (ls_levelloggers ls)\<rparr>)"
    unfolding r_def LogSystemCreateLogger_def Let_def option.case old by simp
  have cs: "set ?cs = insert ?a (set (ls_cloggers ls))" using no by (intro set_put_by) auto
  have sorted1: "sorted_wrt (\<lambda>a b. ConfLoggerComparator ?ls1 a b < 0) (ls_cloggers ls)"
    using d(5) nm(2) by (auto simp: ConfLoggerComparator_def intro: sorted_wrt_mono_rel [rotated])
  have sorted: "sorted_wrt (\<lambda>a b. ConfLoggerComparator ?ls1 a b < 0) ?cs"
    using sorted1 nm d(3) assms(2) by (intro sorted_put_conf) auto
  have lv: "set xs \<subseteq> insert ?a (set (ls_cloggers ls))"
    if "xs \<in> set (level_map level (put_by (ConfLoggerComparator ?ls2) ?a) (ls_levelloggers ls))" for xs
    using set_level_map [OF that] d(7) set_put_by_sub by fast
  have same: "conf_name (snd r) b = conf_name ?ls1 b" for b by (simp add: r conf_name_def)
  have rc: "ls_cloggers (snd r) = ?cs" and rl: "ls_levelloggers (snd r) = level_map level (put_by (ConfLoggerComparator ?ls2) ?a) (ls_levelloggers ls)"
    unfolding r by simp_all
  have rs: "set (ls_cloggers (snd r)) = insert ?a (set (ls_cloggers ls))" unfolding rc by (rule cs)
  have rh: "ls_heap (snd r) = (ls_heap ls)(?a \<mapsto> ?c)" "ls_loggers (snd r) = ls_loggers ls" "ls_next (snd r) = ?a + 1"
    by (simp_all add: r)
  show "fst r = ls_next ls" "set (ls_cloggers (snd r)) = insert (ls_next ls) (set (ls_cloggers ls))"
    "ls_heap (snd r) = (ls_heap ls)(ls_next ls \<mapsto> ?c)" "ls_loggers (snd r) = ls_loggers ls"
    using rs rh by (simp_all add: r)
  have "sorted_wrt (\<lambda>a b. ConfLoggerComparator (snd r) a b < 0) (ls_cloggers (snd r))"
    using sorted unfolding rc ConfLoggerComparator_def same .
  moreover have "ls_heap (snd r) a \<noteq> None \<longleftrightarrow> a \<in> set (ls_cloggers (snd r))" for a
    using d(1) [of a] by (simp add: rs rh)
  moreover have "\<forall>a \<in> set (ls_cloggers (snd r)). a < ls_next (snd r) \<and> NUL \<notin> set (conf_name (snd r) a) \<and>
        length (cl_lvlapndrs (the (ls_heap (snd r) a))) = 6"
  proof
    fix a
    assume "a \<in> set (ls_cloggers (snd r))"
    then consider "a = ?a" | "a \<in> set (ls_cloggers ls)" "a \<noteq> ?a" using rs new by auto
    then show "a < ls_next (snd r) \<and> NUL \<notin> set (conf_name (snd r) a) \<and> length (cl_lvlapndrs (the (ls_heap (snd r) a))) = 6"
    proof cases
      case 1
      then show ?thesis using nm(1) assms(2) unfolding same by (simp add: rh)
    next
      case 2
      then show ?thesis using d(2-4) [of a] nm(2) [of a] unfolding same by (simp add: rh)
    qed
  qed
  moreover have "length (ls_levelloggers (snd r)) = 6" using d(6) by (simp add: rl)
  moreover have "\<forall>xs \<in> set (ls_levelloggers (snd r)). set xs \<subseteq> set (ls_cloggers (snd r))"
    unfolding rl rs using lv by blast
  moreover have "\<forall>l \<in> set (ls_loggers (snd r)). set (lg_logrefs l) \<subseteq> set (ls_cloggers (snd r))"
    using d(8) by (auto simp: rs rh)
  ultimately show "ls_ok (snd r)" unfolding ls_ok_def by blast
qed


section \<open>How a message finds its appenders\<close>

text \<open>The path prefixes of a name, the longest first.\<close>

definition ancestors :: "string \<Rightarrow> string list" where
  "ancestors name =
     map (\<lambda>i. take i name) (filter (\<lambda>i. i = 0 \<or> i = length name \<or> name ! i = CHR ''.'') (rev [0..<Suc (length name)]))"

definition conf_for :: "log_system \<Rightarrow> string \<Rightarrow> nat option" where
  "conf_for ls p = List.find (\<lambda>a. conf_name ls a = p) (ls_cloggers ls)"

text \<open>The configured loggers above a name, and the appenders a message reaches.\<close>

definition chain :: "log_system \<Rightarrow> string \<Rightarrow> conf_logger list" where
  "chain ls name = map (\<lambda>a. the (ls_heap ls a)) (List.map_filter (conf_for ls) (ancestors name))"

fun emit :: "log_level \<Rightarrow> conf_logger list \<Rightarrow> log_appender list" where
  "emit level [] = []"
| "emit level (c # cs) =
     (if cl_level c \<le> level then cl_lvlapndrs c ! level_no level else []) @
     (if cl_additivity c then emit level cs else [])"

definition effective_level :: "log_system \<Rightarrow> string \<Rightarrow> log_level" where
  "effective_level ls name = (case chain ls name of [] \<Rightarrow> CMLogLevel_Fatal | c # _ \<Rightarrow> cl_level c)"

lemma in_ancestors:
  "p \<in> set (ancestors name) \<longleftrightarrow> (\<exists>i. i \<le> length name \<and> (i = 0 \<or> i = length name \<or> name ! i = CHR ''.'') \<and> p = take i name)"
  unfolding ancestors_def set_map set_filter set_rev set_upt atLeastLessThan_iff less_Suc_eq_le by blast

lemma path_prefix_ancestors: "path_prefix p name \<longleftrightarrow> p \<in> set (ancestors name)"
proof
  assume a: "path_prefix p name"
  then have "length p \<le> length name" "take (length p) name = p"
    by (auto simp: path_prefix_def)
  moreover have "length p = 0 \<or> length p = length name \<or> name ! length p = CHR ''.''"
    using a by (auto simp: path_prefix_def)
  moreover have "length p = length name \<longrightarrow> p = name" using a by (auto simp: path_prefix_def)
  ultimately show "p \<in> set (ancestors name)"
    by (auto simp: ancestors_def less_Suc_eq_le intro!: image_eqI [of _ _ "length p"])
next
  assume "p \<in> set (ancestors name)"
  then obtain i where i: "p = take i name" "i \<le> length name" "i = 0 \<or> i = length name \<or> name ! i = CHR ''.''"
    unfolding in_ancestors by blast
  show "path_prefix p name"
  proof (cases "i = length name")
    case False
    with i have "length p = i" "i < length name" by simp_all
    with i show ?thesis by (auto simp: path_prefix_def)
  qed (simp add: i(1) path_prefix_def)
qed

lemma path_prefix_same_length: "path_prefix p name \<Longrightarrow> path_prefix q name \<Longrightarrow> length p = length q \<Longrightarrow> p = q"
  unfolding path_prefix_def by (metis length_0_conv)

lemma ancestors_sorted: "sorted_wrt (\<lambda>p q. length q < length p) (ancestors name)"
proof -
  have "sorted_wrt (\<lambda>i j. j < i) (filter P (rev [0..<Suc (length name)]))" for P
    by (rule sorted_wrt_filter) (simp only: sorted_wrt_rev sorted_wrt_upt)
  then show ?thesis unfolding ancestors_def sorted_wrt_map
    by (rule sorted_wrt_mono_rel [rotated]) (auto simp: less_Suc_eq_le)
qed

lemma strictly_sorted_eq:
  assumes "sorted_wrt (\<lambda>a b. f b < (f a :: nat)) xs" "sorted_wrt (\<lambda>a b. f b < f a) ys" "set xs = set ys"
  shows "xs = ys"
  using assms
proof (induction xs arbitrary: ys)
  case (Cons x xs)
  then obtain y zs where ys: "ys = y # zs" by (cases ys) auto
  have "x = y"
  proof (rule ccontr)
    assume n: "x \<noteq> y"
    have "y \<in> set xs" "x \<in> set zs" using Cons.prems(3) n by (auto simp: ys)
    then have "f y < f x" "f x < f y" using Cons.prems(1,2) by (auto simp: ys)
    then show False by simp
  qed
  moreover have "x \<notin> set xs" "y \<notin> set zs" using Cons.prems(1,2) by (auto simp: ys)
  ultimately have "set xs = set zs" using Cons.prems(3) by (auto simp: ys)
  with Cons.IH [of zs] Cons.prems(1,2) \<open>x = y\<close> show ?case by (simp add: ys)
qed simp

lemma in_map_filter: "a \<in> set (List.map_filter f xs) \<longleftrightarrow> (\<exists>x \<in> set xs. f x = Some a)"
  by (induction xs) (auto simp: List.map_filter_simps split: option.splits)

lemma conf_for_Some:
  assumes "ls_ok ls"
  shows "conf_for ls p = Some a \<longleftrightarrow> a \<in> set (ls_cloggers ls) \<and> conf_name ls a = p"
proof
  assume "conf_for ls p = Some a"
  then show "a \<in> set (ls_cloggers ls) \<and> conf_name ls a = p" by (auto simp: conf_for_def find_Some_iff)
next
  assume a: "a \<in> set (ls_cloggers ls) \<and> conf_name ls a = p"
  then obtain b where "conf_for ls p = Some b"
    using find_None_iff [of "\<lambda>a. conf_name ls a = p" "ls_cloggers ls"] by (cases "conf_for ls p") (auto simp: conf_for_def)
  moreover from this have "b \<in> set (ls_cloggers ls)" "conf_name ls b = p" by (auto simp: conf_for_def find_Some_iff)
  ultimately show "conf_for ls p = Some a" using conf_names_distinct [OF assms] a by auto
qed

lemma refs_put:
  assumes "sorted_wrt (\<lambda>a b. length (conf_name ls b) < length (conf_name ls a)) refs"
    "\<forall>b \<in> set refs. length (conf_name ls b) \<noteq> length (conf_name ls a)"
  shows "sorted_wrt (\<lambda>a b. length (conf_name ls b) < length (conf_name ls a)) (put_by (LoggerRefComparator ls) a refs)"
    "set (put_by (LoggerRefComparator ls) a refs) = insert a (set refs)"
    "hd (put_by (LoggerRefComparator ls) a refs) =
      (if refs \<noteq> [] \<and> length (conf_name ls a) < length (conf_name ls (hd refs)) then hd refs else a)"
proof -
  let ?l = "\<lambda>a. length (conf_name ls a)"
  have c: "0 < LoggerRefComparator ls a b \<longleftrightarrow> ?l a < ?l b" "LoggerRefComparator ls a b < 0 \<longleftrightarrow> ?l b < ?l a" for b
    by (auto simp: LoggerRefComparator_def Let_def)
  have p: "put_by (LoggerRefComparator ls) a refs = filter (\<lambda>b. ?l a < ?l b) refs @ [a] @ filter (\<lambda>b. ?l b < ?l a) refs"
    by (simp add: put_by_def c)
  show "sorted_wrt (\<lambda>a b. ?l b < ?l a) (put_by (LoggerRefComparator ls) a refs)"
    unfolding p using assms(1) by (auto simp: sorted_wrt_append sorted_wrt_filter)
  show "set (put_by (LoggerRefComparator ls) a refs) = insert a (set refs)"
    using assms(2) by (auto simp: p)
  show "hd (put_by (LoggerRefComparator ls) a refs) = (if refs \<noteq> [] \<and> ?l a < ?l (hd refs) then hd refs else a)"
  proof (cases refs)
    case (Cons r rs)
    show ?thesis
    proof (cases "?l a < ?l r")
      case False
      then have "filter (\<lambda>b. ?l a < ?l b) refs = []"
        using assms(1) by (auto simp: Cons filter_empty_conv)
      with Cons False show ?thesis unfolding p by simp
    qed (simp only: p, simp add: Cons)
  next
    case Nil
    show ?thesis unfolding p by (simp add: Nil)
  qed
qed

lemma collect_refs:
  assumes "distinct cs" "\<And>a b. a \<in> set cs \<Longrightarrow> b \<in> set cs \<Longrightarrow> conf_name ls a = conf_name ls b \<Longrightarrow> a = b"
    "\<And>a. a \<in> set cs \<Longrightarrow> ls_heap ls a \<noteq> None" "foldl (collect_ref ls name) ([], None, CMLogLevel_Fatal) cs = (refs, eff, minl)"
  shows "set refs = {a \<in> set cs. path_prefix (conf_name ls a) name} \<and>
    sorted_wrt (\<lambda>a b. length (conf_name ls b) < length (conf_name ls a)) refs \<and>
    (refs = [] \<longrightarrow> eff = None \<and> minl = CMLogLevel_Fatal) \<and>
    (refs \<noteq> [] \<longrightarrow> eff = Some (length (conf_name ls (hd refs))) \<and> minl = cl_level (the (ls_heap ls (hd refs))))"
  using assms
proof (induction cs arbitrary: refs eff minl rule: rev_induct)
  case (snoc a cs)
  obtain refs0 eff0 min0 where f: "foldl (collect_ref ls name) ([], None, CMLogLevel_Fatal) cs = (refs0, eff0, min0)"
    by (cases "foldl (collect_ref ls name) ([], None, CMLogLevel_Fatal) cs") auto
  have IH: "set refs0 = {a \<in> set cs. path_prefix (conf_name ls a) name}"
    "sorted_wrt (\<lambda>a b. length (conf_name ls b) < length (conf_name ls a)) refs0"
    "refs0 = [] \<longrightarrow> eff0 = None \<and> min0 = CMLogLevel_Fatal"
    "refs0 \<noteq> [] \<longrightarrow> eff0 = Some (length (conf_name ls (hd refs0))) \<and> min0 = cl_level (the (ls_heap ls (hd refs0)))"
    using snoc.IH [OF _ _ _ f] snoc.prems(1-3) by (simp_all add: Ball_def)
  have st: "collect_ref ls name (refs0, eff0, min0) a = (refs, eff, minl)" using snoc.prems(4) f by simp
  show ?case
  proof (cases "path_prefix (conf_name ls a) name")
    case False
    with st IH show ?thesis by (auto simp: collect_ref_def)
  next
    case True
    have ne: "\<forall>b \<in> set refs0. length (conf_name ls b) \<noteq> length (conf_name ls a)"
    proof
      fix b
      assume "b \<in> set refs0"
      then have b: "b \<in> set cs" "path_prefix (conf_name ls b) name" using IH(1) by auto
      show "length (conf_name ls b) \<noteq> length (conf_name ls a)"
      proof
        assume "length (conf_name ls b) = length (conf_name ls a)"
        then have "conf_name ls b = conf_name ls a" using path_prefix_same_length b(2) True by blast
        then have "b = a" using snoc.prems(2) [of b a] b(1) by simp
        then show False using b(1) snoc.prems(1) by simp
      qed
    qed
    note p = refs_put [OF IH(2) ne]
    have refs: "refs = put_by (LoggerRefComparator ls) a refs0" and
      em: "(eff, minl) = (if eff0 = None \<or> the eff0 < length (conf_name ls a)
        then (Some (length (conf_name ls a)), cl_level (the (ls_heap ls a))) else (eff0, min0))"
      using st True snoc.prems(3) [of a] by (auto simp: collect_ref_def)
    have "set refs = {b \<in> set (cs @ [a]). path_prefix (conf_name ls b) name}"
      using p(2) IH(1) True by (auto simp: refs)
    moreover have "eff = Some (length (conf_name ls (hd refs))) \<and> minl = cl_level (the (ls_heap ls (hd refs)))"
    proof (cases "refs0 = []")
      case True
      then show ?thesis using em IH(3) p(3) by (simp add: refs)
    next
      case False
      then have "length (conf_name ls (hd refs0)) \<noteq> length (conf_name ls a)" using ne by simp
      then show ?thesis using em IH(4) p(3) False by (auto simp: refs split: if_splits)
    qed
    moreover have "refs \<noteq> []" using p(2) by (auto simp: refs)
    ultimately show ?thesis using p(1) by (simp add: refs)
  qed
qed simp

lemma sorted_conf_distinct:
  assumes "ls_ok ls"
  shows "distinct (ls_cloggers ls)"
proof -
  have "sorted_wrt (\<lambda>a b. a \<noteq> b) (ls_cloggers ls)"
    using ls_okD(5) [OF assms] by (rule sorted_wrt_mono_rel [rotated]) (auto simp: ConfLoggerComparator_def)
  then show ?thesis by (simp add: distinct_conv_nth sorted_wrt_iff_nth_less) (metis linorder_neqE_nat)
qed

text \<open>A new logger refers to the chain above its name.\<close>

lemma GetLogger_new:
  assumes "ls_ok ls" "List.find (\<lambda>l. strcmp name (lg_fullname l) = 0) (ls_loggers ls) = None"
  obtains lg where "fst (LogSystemGetLogger name ls) = lg"
    "lg_logrefs lg = List.map_filter (conf_for ls) (ancestors name)" "lg_minlevel lg = effective_level ls name"
    "lg_fullname lg = name"
    "snd (LogSystemGetLogger name ls) = ls\<lparr>ls_loggers := put_by LoggerComparator lg (ls_loggers ls)\<rparr>"
proof -
  obtain refs eff minl where f: "foldl (collect_ref ls name) ([], None, CMLogLevel_Fatal) (ls_cloggers ls) = (refs, eff, minl)"
    by (cases "foldl (collect_ref ls name) ([], None, CMLogLevel_Fatal) (ls_cloggers ls)") auto
  have c: "set refs = {a \<in> set (ls_cloggers ls). path_prefix (conf_name ls a) name} \<and>
    sorted_wrt (\<lambda>a b. length (conf_name ls b) < length (conf_name ls a)) refs \<and>
    (refs = [] \<longrightarrow> eff = None \<and> minl = CMLogLevel_Fatal) \<and>
    (refs \<noteq> [] \<longrightarrow> eff = Some (length (conf_name ls (hd refs))) \<and> minl = cl_level (the (ls_heap ls (hd refs))))"
    by (rule collect_refs [OF sorted_conf_distinct [OF assms(1)] conf_names_distinct [OF assms(1)] _ f])
      (use ls_okD(1) [OF assms(1)] in simp_all)
  let ?refs = "List.map_filter (conf_for ls) (ancestors name)"
  have m: "a \<in> set ?refs \<longleftrightarrow> a \<in> set (ls_cloggers ls) \<and> path_prefix (conf_name ls a) name" for a
    by (simp add: in_map_filter conf_for_Some [OF assms(1)] path_prefix_ancestors)
  have conf_for_name: "conf_for ls p = Some a \<Longrightarrow> conf_name ls a = p" for p a
    by (simp add: conf_for_Some [OF assms(1)])
  have "sorted_wrt (\<lambda>a b. length (conf_name ls b) < length (conf_name ls a)) (map (the \<circ> conf_for ls) (filter (\<lambda>p. conf_for ls p \<noteq> None) ps))"
    if "sorted_wrt (\<lambda>p q. length q < length p) ps" for ps
    unfolding sorted_wrt_map using conf_for_name
    by - (rule sorted_wrt_mono_rel [OF _ sorted_wrt_filter [OF that]], auto simp: comp_def)
  then have "sorted_wrt (\<lambda>a b. length (conf_name ls b) < length (conf_name ls a)) ?refs"
    using ancestors_sorted [of name] by (simp add: map_filter_def)
  then have r: "refs = ?refs" using c m by (intro strictly_sorted_eq [where f = "\<lambda>a. length (conf_name ls a)"]) auto
  have "minl = effective_level ls name"
    using c unfolding effective_level_def chain_def r [symmetric] by (cases refs) auto
  then show ?thesis using assms(2) f r
    by (intro that [of "\<lparr>lg_fullname = name, lg_namepath = map trim (pieces ''.'' name), lg_logrefs = refs, lg_minlevel = minl\<rparr>"])
      (simp_all add: LogSystemGetLogger_def Let_def)
qed

lemma log_refs_emit:
  "\<forall>a \<in> set as. ls_heap ls a \<noteq> None \<Longrightarrow> log_refs ls level as = emit level (map (\<lambda>a. the (ls_heap ls a)) as)"
  by (induction as) (auto simp: ConfLoggerLog_def)

lemma GetLogger_ok:
  assumes "ls_ok ls"
  shows "ls_ok (snd (LogSystemGetLogger name ls))"
proof (cases "List.find (\<lambda>l. strcmp name (lg_fullname l) = 0) (ls_loggers ls)")
  case None
  obtain lg where lg: "lg_logrefs lg = List.map_filter (conf_for ls) (ancestors name)"
    "snd (LogSystemGetLogger name ls) = ls\<lparr>ls_loggers := put_by LoggerComparator lg (ls_loggers ls)\<rparr>"
    by (rule GetLogger_new [OF assms None])
  have "set (lg_logrefs lg) \<subseteq> set (ls_cloggers ls)"
    by (auto simp: lg(1) in_map_filter conf_for_Some [OF assms])
  then have "\<forall>l \<in> set (put_by LoggerComparator lg (ls_loggers ls)). set (lg_logrefs l) \<subseteq> set (ls_cloggers ls)"
    using ls_okD(8) [OF assms] set_put_by_sub [of LoggerComparator lg "ls_loggers ls"] by blast
  then show ?thesis using assms unfolding lg(2) by (simp add: ls_ok_def conf_name_def ConfLoggerComparator_def)
next
  case (Some l)
  with assms show ?thesis by (simp add: LogSystemGetLogger_def)
qed

text \<open>What a logger was given when it was asked for first.\<close>

definition logger_current :: "log_system \<Rightarrow> logger \<Rightarrow> bool" where
  "logger_current ls lg \<longleftrightarrow>
     NUL \<notin> set (lg_fullname lg) \<and> lg_logrefs lg = List.map_filter (conf_for ls) (ancestors (lg_fullname lg)) \<and>
     lg_minlevel lg = effective_level ls (lg_fullname lg)"

lemma with_loggers [simp]:
  "conf_for (ls\<lparr>ls_loggers := xs\<rparr>) = conf_for ls" "chain (ls\<lparr>ls_loggers := xs\<rparr>) = chain ls"
  "effective_level (ls\<lparr>ls_loggers := xs\<rparr>) = effective_level ls"
  "logger_current (ls\<lparr>ls_loggers := xs\<rparr>) = logger_current ls"
proof -
  show c: "conf_for (ls\<lparr>ls_loggers := xs\<rparr>) = conf_for ls"
    by (rule ext) (simp add: conf_for_def conf_name_def)
  show h: "chain (ls\<lparr>ls_loggers := xs\<rparr>) = chain ls"
    by (rule ext) (simp add: chain_def c)
  show e: "effective_level (ls\<lparr>ls_loggers := xs\<rparr>) = effective_level ls"
    by (rule ext) (simp add: effective_level_def h)
  show "logger_current (ls\<lparr>ls_loggers := xs\<rparr>) = logger_current ls"
    by (rule ext) (simp add: logger_current_def c e)
qed

text \<open>A logger, new or asked for before, is the current one of its name, and the system keeps that.\<close>

lemma GetLogger_current:
  assumes "ls_ok ls" "\<forall>l \<in> set (ls_loggers ls). logger_current ls l" "NUL \<notin> set name"
    "LogSystemGetLogger name ls = (lg, ls')"
  shows "lg_fullname lg = name" "logger_current ls lg" "\<forall>l \<in> set (ls_loggers ls'). logger_current ls' l"
    "\<exists>xs. ls' = ls\<lparr>ls_loggers := xs\<rparr>"
proof -
  have "lg_fullname lg = name \<and> logger_current ls lg \<and> (\<forall>l \<in> set (ls_loggers ls'). logger_current ls' l) \<and>
    (\<exists>xs. ls' = ls\<lparr>ls_loggers := xs\<rparr>)"
  proof (cases "List.find (\<lambda>l. strcmp name (lg_fullname l) = 0) (ls_loggers ls)")
    case None
    obtain lg1 where n: "fst (LogSystemGetLogger name ls) = lg1"
      "lg_logrefs lg1 = List.map_filter (conf_for ls) (ancestors name)" "lg_minlevel lg1 = effective_level ls name"
      "lg_fullname lg1 = name"
      "snd (LogSystemGetLogger name ls) = ls\<lparr>ls_loggers := put_by LoggerComparator lg1 (ls_loggers ls)\<rparr>"
      by (rule GetLogger_new [OF assms(1) None])
    then have lg: "lg1 = lg" "ls' = ls\<lparr>ls_loggers := put_by LoggerComparator lg (ls_loggers ls)\<rparr>"
      using assms(4) by simp_all
    have cur: "logger_current ls lg" using n assms(3) by (simp add: logger_current_def lg(1))
    moreover have "\<forall>l \<in> set (put_by LoggerComparator lg (ls_loggers ls)). logger_current ls l"
      using cur assms(2) set_put_by_sub [of LoggerComparator lg "ls_loggers ls"] by blast
    ultimately show ?thesis using n(4) by (auto simp: lg)
  next
    case (Some l)
    then have l: "l \<in> set (ls_loggers ls)" "strcmp name (lg_fullname l) = 0" by (auto simp: find_Some_iff)
    have "lg = l" "ls' = ls" using Some assms(4) by (simp_all add: LogSystemGetLogger_def)
    moreover have "ls = ls\<lparr>ls_loggers := ls_loggers ls\<rparr>" by simp
    moreover have "lg_fullname l = name"
      using l assms(2,3) strcmp_eq_0 [of name "lg_fullname l"] by (simp add: logger_current_def)
    ultimately show ?thesis using l(1) assms(2) by metis
  qed
  then show "lg_fullname lg = name" "logger_current ls lg" "\<forall>l \<in> set (ls_loggers ls'). logger_current ls' l"
    "\<exists>xs. ls' = ls\<lparr>ls_loggers := xs\<rparr>" by simp_all
qed

lemma chain_refs: "map (\<lambda>a. the (ls_heap ls a)) (List.map_filter (conf_for ls) (ancestors name)) = chain ls name"
  by (simp add: chain_def)

lemma LogEx_current:
  assumes "ls_ok ls" "logger_current ls lg"
  shows "LoggerLogEx ls lg level =
    (if level < effective_level ls (lg_fullname lg) then [] else emit level (chain ls (lg_fullname lg)))"
proof -
  have "a \<in> set (ls_cloggers ls)" if "a \<in> set (lg_logrefs lg)" for a
    using assms that by (auto simp: logger_current_def in_map_filter conf_for_Some)
  then have "\<forall>a \<in> set (lg_logrefs lg). ls_heap ls a \<noteq> None" using ls_okD(1) [OF assms(1)] by simp
  then show ?thesis
    using assms(2) log_refs_emit by (simp add: LoggerLogEx_def logger_current_def chain_refs)
qed

section \<open>Configured systems\<close>

abbreviation conf_names :: "log_system \<Rightarrow> string set" where
  "conf_names ls \<equiv> conf_name ls ` set (ls_cloggers ls)"

text \<open>Steps that leave the names of the configured loggers and the loggers as they are.\<close>

definition log_kept :: "log_system \<Rightarrow> log_system \<Rightarrow> bool" where
  "log_kept ls ls1 \<longleftrightarrow> (ls_ok ls \<longrightarrow> ls_ok ls1) \<and> conf_names ls1 = conf_names ls \<and> ls_loggers ls1 = ls_loggers ls"

lemma log_kept_refl [intro!, simp]: "log_kept ls ls"
  by (simp add: log_kept_def)

lemma log_kept_trans: "log_kept a b \<Longrightarrow> log_kept b c \<Longrightarrow> log_kept a c"
  by (simp add: log_kept_def)

lemma log_kept_AddAppender [simp]: "log_kept ls (LogSystemAddAppender ap ls)"
  using AddAppender_ok by (simp add: log_kept_def AddAppender_same conf_name_def)

lemma log_kept_ConfAddAppender [simp]: "log_kept ls (ConfLoggerAddAppender a ap level ls)"
proof -
  have "conf_name (ConfLoggerAddAppender a ap level ls) b = conf_name ls b" for b
    by (auto simp: conf_name_def ConfLoggerAddAppender_def AddAppender_same Let_def split: option.splits)
  moreover have "ls_cloggers (ConfLoggerAddAppender a ap level ls) = ls_cloggers ls"
    "ls_loggers (ConfLoggerAddAppender a ap level ls) = ls_loggers ls"
    by (auto simp: ConfLoggerAddAppender_def AddAppender_same Let_def split: option.splits)
  ultimately show ?thesis using ConfAddAppender_ok by (simp add: log_kept_def)
qed

lemma log_kept_AddAppenderToLogger: "LogSystemAddAppenderToLogger ls a n level = Inr (b, ls1) \<Longrightarrow> log_kept ls ls1"
  by (auto simp: LogSystemAddAppenderToLogger_def split: option.splits)

lemma log_kept_AppenderRef: "LogSystemProcessAppenderRef ls a it level = Inr (b, ls1) \<Longrightarrow> log_kept ls ls1"
  by (auto simp: LogSystemProcessAppenderRef_def log_kept_AddAppenderToLogger split: option.splits ctype.splits if_splits)

lemma log_kept_appender_refs: "appender_refs ls a its level = Inr (b, ls1) \<Longrightarrow> log_kept ls ls1"
proof (induction its arbitrary: ls)
  case (Cons it its)
  then show ?case
    by (auto split: if_splits sum.splits prod.splits bool.splits intro: log_kept_trans dest: log_kept_AppenderRef)
qed auto

lemma log_kept_OneAppender: "LogSystemProcessOneAppender env listens ls stype it = Inr (b, ls1) \<Longrightarrow> log_kept ls ls1"
  by (auto simp: LogSystemProcessOneAppender_def Let_def split: if_splits sum.splits option.splits)

lemma log_kept_items:
  assumes "\<And>ls stype it b ls1. f ls stype it = Inr (b, ls1) \<Longrightarrow> log_kept ls ls1"
  shows "process_items f deftype its ls = Inr (b, ls1) \<Longrightarrow> log_kept ls ls1"
proof (induction its arbitrary: ls)
  case (Cons it its)
  then show ?case
    by (auto split: if_splits sum.splits prod.splits bool.splits option.splits intro: log_kept_trans dest: assms)
qed auto

lemma set_trim: "set (trim s) \<subseteq> set s"
  by (auto simp: trim_def rtrim_def dest!: set_dropWhileD)

lemma NUL_trim: "NUL \<notin> set (trim (cstr s))"
  using set_trim [of "cstr s"] NUL_not_in_cstr [of s] by blast

lemma logger_name_NUL: "logger_name stype json = Some nm \<Longrightarrow> NUL \<notin> set nm"
  by (auto simp: NUL_trim logger_name_def Let_def split: if_splits option.splits)

lemma OneLogger_ok:
  assumes "ls_ok ls" "LogSystemProcessOneLogger ls stype json = Inr (b, ls1)"
    "\<And>nm. logger_name stype json = Some nm \<Longrightarrow> nm \<notin> conf_names ls"
  shows "ls_ok ls1 \<and> ls_loggers ls1 = ls_loggers ls \<and> conf_names ls1 \<subseteq> set_option (logger_name stype json) \<union> conf_names ls"
proof (cases "logger_name stype json")
  case None
  then show ?thesis using assms(1,2) by (simp add: LogSystemProcessOneLogger_def split: if_splits)
next
  case (Some nm)
  have created: "ls_ok ls2 \<and> ls_loggers ls2 = ls_loggers ls \<and> conf_names ls2 \<subseteq> {nm} \<union> conf_names ls"
    if "LogSystemCreateLogger (Some nm) level additivity ls = (cl, ls2)" for level additivity cl ls2
  proof -
    have n: "conf_name ls a \<noteq> nm" if "a \<in> set (ls_cloggers ls)" for a using assms(3) [OF Some] that by blast
    have "ls2 = snd (LogSystemCreateLogger (Some nm) level additivity ls)" using that by simp
    note c = CreateLogger_ok [OF assms(1) logger_name_NUL [OF Some] n refl, of level additivity]
    have "conf_name ls2 a = (if a = ls_next ls then nm else conf_name ls a)" for a
      using c(4) that by (simp add: conf_name_def)
    then have "conf_names ls2 \<subseteq> {nm} \<union> conf_names ls" using c(3) that by auto
    then show ?thesis using c(1,5) that by simp
  qed
  consider level additivity cl ls2 where "LogSystemCreateLogger (Some nm) level additivity ls = (cl, ls2)" "ls1 = ls2 \<or> log_kept ls2 ls1"
    | "ls1 = ls"
    using assms(2) Some unfolding LogSystemProcessOneLogger_def
    by (auto simp: Let_def split: if_splits option.splits prod.splits json.splits
        dest: log_kept_AppenderRef log_kept_appender_refs)
  then show ?thesis
  proof cases
    case 1
    then have "log_kept ls2 ls1" by auto
    then show ?thesis using created [OF 1(1)] Some by (auto simp: log_kept_def)
  qed (use assms(1) in auto)
qed

definition item_name :: "json \<Rightarrow> string option" where
  "item_name it = (case item_type (Some ''logger'') it of None \<Rightarrow> None | Some stype \<Rightarrow> logger_name stype it)"

lemma loggers_ok:
  assumes "ls_ok ls" "process_items LogSystemProcessOneLogger (Some ''logger'') its ls = Inr (b, ls1)"
    "distinct (map item_name its)" "\<And>it. it \<in> set its \<Longrightarrow> set_option (item_name it) \<inter> conf_names ls = {}"
  shows "ls_ok ls1 \<and> ls_loggers ls1 = ls_loggers ls"
  using assms
proof (induction its arbitrary: ls)
  case (Cons it its)
  show ?case
  proof (cases "JsonGetType it \<noteq> TObject \<or> item_type (Some ''logger'') it = None")
    case True
    then show ?thesis using Cons.prems(1,2) by (auto split: if_splits option.splits)
  next
    case False
    then obtain stype where st: "item_type (Some ''logger'') it = Some stype" "JsonGetType it = TObject" by auto
    then obtain b2 ls2 where o: "LogSystemProcessOneLogger ls stype it = Inr (b2, ls2)"
      using Cons.prems(2) by (auto split: sum.splits)
    have nm: "item_name it = logger_name stype it" using st by (simp add: item_name_def)
    have n: "nm \<notin> conf_names ls" if "logger_name stype it = Some nm" for nm
      using Cons.prems(4) [of it] that by (auto simp: nm)
    have k: "ls_ok ls2 \<and> ls_loggers ls2 = ls_loggers ls \<and> conf_names ls2 \<subseteq> set_option (item_name it) \<union> conf_names ls"
      unfolding nm using n by (rule OneLogger_ok [OF Cons.prems(1) o])
    show ?thesis
    proof (cases b2)
      case False
      then show ?thesis using Cons.prems(2) st o k by auto
    next
      case True
      have "set_option (item_name j) \<inter> conf_names ls2 = {}" if "j \<in> set its" for j
      proof -
        have "item_name it \<notin> item_name ` set its" using Cons.prems(3) by simp
        then have "item_name j \<noteq> item_name it" using imageI [OF that, of item_name] by metis
        moreover have "set_option (item_name j) \<inter> conf_names ls = {}" using Cons.prems(4) [of j] that by simp
        ultimately show ?thesis using k by (cases "item_name j"; cases "item_name it") auto
      qed
      then show ?thesis using Cons.IH [of ls2] Cons.prems(2,3) k st o True by simp
    qed
  qed
qed auto

lemma Default_ok: "ls_ok LogSystemConfigureDefault \<and> ls_loggers LogSystemConfigureDefault = []"
proof -
  have "log_kept (snd (LogSystemCreateLogger (Some []) CMLogLevel_Debug True LogSystemCreateInternal)) LogSystemConfigureDefault"
    unfolding LogSystemConfigureDefault_def Let_def split_beta LogSystemCreateLogger_def option.case
    by (intro log_kept_trans [OF log_kept_AddAppender log_kept_ConfAddAppender] log_kept_refl) 
  moreover have "ls_ok (snd (LogSystemCreateLogger (Some []) CMLogLevel_Debug True LogSystemCreateInternal))"
    "ls_loggers (snd (LogSystemCreateLogger (Some []) CMLogLevel_Debug True LogSystemCreateInternal)) = []"
    using CreateLogger_ok [OF LogCreate_ok _ _ refl, of "[]"] by (simp_all add: LogSystemCreateInternal_def)
  ultimately show ?thesis by (simp add: log_kept_def)
qed

lemma Default_GetLogger:
  "lg_logrefs (fst (LogSystemGetLogger name LogSystemConfigureDefault)) = [0]"
  "lg_minlevel (fst (LogSystemGetLogger name LogSystemConfigureDefault)) = CMLogLevel_Debug"
  "ls_heap (snd (LogSystemGetLogger name LogSystemConfigureDefault)) = ls_heap LogSystemConfigureDefault"
proof -
  have "ls_cloggers LogSystemConfigureDefault = [0]" "ls_loggers LogSystemConfigureDefault = []"
    "conf_name LogSystemConfigureDefault 0 = []"
    "map_option cl_level (ls_heap LogSystemConfigureDefault 0) = Some CMLogLevel_Debug"
    by (simp_all add: LogSystemConfigureDefault_def LogSystemCreateInternal_def LogSystemCreateLogger_def
        ConfLoggerAddAppender_def LogSystemAddAppender_def put_by_def conf_name_def Let_def)
  then show "lg_logrefs (fst (LogSystemGetLogger name LogSystemConfigureDefault)) = [0]"
    "lg_minlevel (fst (LogSystemGetLogger name LogSystemConfigureDefault)) = CMLogLevel_Debug"
    "ls_heap (snd (LogSystemGetLogger name LogSystemConfigureDefault)) = ls_heap LogSystemConfigureDefault"
    by (auto simp: LogSystemGetLogger_def collect_ref_def path_prefix_def put_by_def Let_def)
qed

lemma Default_LogEx:
  "LoggerLogEx (snd (LogSystemGetLogger name LogSystemConfigureDefault)) (fst (LogSystemGetLogger name LogSystemConfigureDefault))
     level =
   (if level < CMLogLevel_Debug then []
    else [\<lparr>ap_name = ''__CONSOL'', ap_kind = Console_Appender False, ap_pattern = LOG_PATTERN_DEFAULT, ap_async = None\<rparr>])"
proof -
  let ?ap = "\<lparr>ap_name = ''__CONSOL'', ap_kind = Console_Appender False, ap_pattern = LOG_PATTERN_DEFAULT, ap_async = None\<rparr>"
  have "ls_heap LogSystemConfigureDefault 0 = Some \<lparr>cl_name = [], cl_level = CMLogLevel_Debug, cl_additivity = True,
     cl_lvlapndrs = [[], [?ap], [?ap], [?ap], [?ap], [?ap]]\<rparr>"
    by (simp add: LogSystemConfigureDefault_def LogSystemCreateInternal_def LogSystemCreateLogger_def
        ConfLoggerAddAppender_def LogSystemAddAppender_def put_by_def level_map_def Let_def numeral_eq_Suc)
  then show ?thesis
    by (cases level) (simp_all add: LoggerLogEx_def Default_GetLogger ConfLoggerLog_def less_log_level_def less_eq_log_level_def)
qed

text \<open>Keys of a cleaned document are in lower case.\<close>

lemma tolower_idem: "tolower (tolower c) = tolower c"
  by (auto simp: tolower_def)

lemma foldr_max_le: "foldr max ns 0 \<le> (d :: nat) \<longleftrightarrow> (\<forall>n \<in> set ns. n \<le> d)"
  by (induction ns) auto

lemma object_depth: "json_depth (JObject es ks) \<le> Suc d \<longleftrightarrow> (\<forall>(k, v) \<in> set es. json_depth v \<le> d)"
  by (auto simp: foldr_max_le)

lemma array_depth: "json_depth (JArray xs) \<le> Suc d \<longleftrightarrow> (\<forall>x \<in> set xs. json_depth x \<le> d)"
  by (simp add: foldr_max_le)

lemma rename_object:
  assumes "rename_keys f (JObject es ks) keys = Inr j"
  shows "\<exists>es' ks'. j = JObject es' ks' \<and> fst ` set es' \<subseteq> range (map tolower) \<union> (fst ` set es - set keys)"
  using assms
proof (induction keys arbitrary: es ks)
  case (Cons k keys)
  obtain it item c nk where s: "map_of es k = Some it" "f it = Inr item" "map tolower k = c # nk"
    "rename_keys f (snd (JsonObjectPut (JObject (al_remove k es) (remove1 k ks)) (c # nk) item)) keys = Inr j"
    using Cons.prems by (auto simp: JsonObjectRemove_def split: option.splits sum.splits list.splits)
  then obtain ks1 where "rename_keys f (JObject (al_put (c # nk) item (al_remove k es)) ks1) keys = Inr j"
    by (auto simp: JsonObjectPut_def Let_def)
  from Cons.IH [OF this] obtain es' ks' where r: "j = JObject es' ks'"
    "fst ` set es' \<subseteq> range (map tolower) \<union> (fst ` set (al_put (c # nk) item (al_remove k es)) - set keys)" by blast
  have "fst ` set (al_put (c # nk) item (al_remove k es)) \<subseteq> insert (map tolower k) (fst ` set es - {k})"
    unfolding s(3) [symmetric] keys_al_put by (auto simp: al_remove_def)
  with r show ?case unfolding list.set by blast
qed auto

text \<open>What the loop does depends on \<open>clean\<close> only at the items, and keeps them as flat as it does.\<close>

lemma rename_keys_cong:
  assumes "\<And>v. json_depth v \<le> d \<Longrightarrow> f v = g v" "\<And>v w. json_depth v \<le> d \<Longrightarrow> g v = Inr w \<Longrightarrow> json_depth w \<le> d"
    "\<forall>(k, v) \<in> set es. json_depth v \<le> d"
  shows "rename_keys f (JObject es ks) keys = rename_keys g (JObject es ks) keys \<and>
    (\<forall>w. rename_keys g (JObject es ks) keys = Inr w \<longrightarrow> json_depth w \<le> Suc d)"
  using assms(3)
proof (induction keys arbitrary: es ks)
  case Nil
  then show ?case using object_depth [of es ks d] by simp
next
  case (Cons k keys)
  show ?case
  proof (cases "map_of es k")
    case None
    then show ?thesis by (simp add: JsonObjectRemove_def)
  next
    case (Some it)
    then have it: "json_depth it \<le> d" using Cons.prems by (auto dest: map_of_SomeD)
    note fg = assms(1) [OF it]
    show ?thesis
    proof (cases "g it")
      case (Inl e)
      with Some fg show ?thesis by (simp add: JsonObjectRemove_def)
    next
      case (Inr item)
      let ?es = "\<lambda>nk. al_put nk item (al_remove k es)"
      have es: "\<forall>(k, v) \<in> set (?es nk). json_depth v \<le> d" for nk
        using Cons.prems assms(2) [OF it Inr] by (auto simp: al_put_def al_remove_def)
      from Some Inr fg Cons.IH [OF es] show ?thesis
        by (auto simp: JsonObjectRemove_def JsonObjectPut_def Let_def split: list.splits)
    qed
  qed
qed

lemma clean_items_cong:
  assumes "\<And>v. v \<in> set xs \<Longrightarrow> f v = g v" "\<And>v w. v \<in> set xs \<Longrightarrow> g v = Inr w \<Longrightarrow> json_depth w \<le> d"
  shows "clean_items f xs = clean_items g xs \<and> (\<forall>ys. clean_items g xs = Inr ys \<longrightarrow> (\<forall>y \<in> set ys. json_depth y \<le> d))"
  using assms
proof (induction xs)
  case (Cons x xs)
  then show ?case by (cases "g x"; cases "clean_items g xs") fastforce+
qed simp

lemma clean_at_depth:
  "json_depth j \<le> d \<Longrightarrow> d \<le> n \<Longrightarrow> clean_at n j = clean_at d j \<and> (\<forall>w. clean_at d j = Inr w \<longrightarrow> json_depth w \<le> d)"
proof (induction n arbitrary: d j)
  case 0
  then show ?case by (cases j) auto
next
  case (Suc n)
  show ?case
  proof (cases d)
    case 0
    with Suc.prems show ?thesis by (cases j) auto
  next
    case (Suc e)
    with Suc.prems(2) have e: "e \<le> n" by simp
    have IH: "clean_at n v = clean_at e v" "clean_at e v = Inr w \<Longrightarrow> json_depth w \<le> e" if "json_depth v \<le> e" for v w
      using Suc.IH [OF that e] by blast+
    show ?thesis
    proof (cases j)
      case (JObject es ks)
      with Suc.prems(1) Suc have "\<forall>(k, v) \<in> set es. json_depth v \<le> e" using object_depth [of es ks e] by simp
      from rename_keys_cong [of e "clean_at n" "clean_at e", OF IH this] show ?thesis by (simp add: JObject Suc del: json_depth.simps)
    next
      case (JArray xs)
      with Suc.prems(1) Suc have "\<forall>x \<in> set xs. json_depth x \<le> e" using array_depth [of xs e] by simp
      then have "clean_items (clean_at n) xs = clean_items (clean_at e) xs \<and>
          (\<forall>ys. clean_items (clean_at e) xs = Inr ys \<longrightarrow> (\<forall>y \<in> set ys. json_depth y \<le> e))"
        using IH by (intro clean_items_cong) auto
      then show ?thesis using array_depth [of _ e]
        by (cases "clean_items (clean_at e) xs") (auto simp: JArray Suc simp del: json_depth.simps)
    qed (simp add: Suc)
  qed
qed

lemma LogConfigClean_simps:
  "LogConfigClean (JObject es ks) = rename_keys LogConfigClean (JObject es ks) (map fst es)"
  "LogConfigClean (JArray xs) = map_sum id JArray (clean_items LogConfigClean xs)"
  "LogConfigClean (JValue t d) = Inr (JValue t d)"
proof -
  have c: "clean_at n v = LogConfigClean v" "LogConfigClean v = Inr w \<Longrightarrow> json_depth w \<le> n" if "json_depth v \<le> n" for n v w
    using clean_at_depth [of v "json_depth v" n] that by (auto simp: LogConfigClean_def)
  obtain n where n: "json_depth (JObject es ks) = Suc n" by simp
  then have "\<forall>(k, v) \<in> set es. json_depth v \<le> n" using object_depth [of es ks n] by simp
  from rename_keys_cong [of n "clean_at n" LogConfigClean, OF c this]
  show "LogConfigClean (JObject es ks) = rename_keys LogConfigClean (JObject es ks) (map fst es)"
    by (simp add: LogConfigClean_def n del: json_depth.simps)
  obtain m where m: "json_depth (JArray xs) = Suc m" by simp
  then have x: "\<forall>x \<in> set xs. json_depth x \<le> m" using array_depth [of xs m] by simp
  have "clean_items (clean_at m) xs = clean_items LogConfigClean xs"
    using clean_items_cong [of xs "clean_at m" LogConfigClean m] c x by blast
  then show "LogConfigClean (JArray xs) = map_sum id JArray (clean_items LogConfigClean xs)"
    by (simp add: LogConfigClean_def m del: json_depth.simps)
qed (simp add: LogConfigClean_def)

lemma clean_keys:
  assumes "map tolower k \<noteq> k" "LogConfigClean j = Inr j'"
  shows "JsonObjectGet j' k = NULL"
proof (cases j)
  case (JObject es ks)
  obtain es' ks' where f: "j' = JObject es' ks'"
    "fst ` set es' \<subseteq> range (map tolower) \<union> (fst ` set es - set (map fst es))"
    using rename_object [of LogConfigClean es ks "map fst es" j'] assms(2) by (auto simp: JObject LogConfigClean_simps)
  then have s: "fst ` set es' \<subseteq> range (map tolower)" by auto
  have "tolower (tolower c) = tolower c" for c using tolower_idem by simp
  then have "map tolower (map tolower s) = map tolower s" for s by simp
  then have "k \<notin> fst ` set es'" using s assms(1) by (metis imageE subsetD)
  then show ?thesis by (simp add: f(1) JsonObjectGet_def map_of_eq_None_iff)
next
  case (JArray xs)
  with assms(2) show ?thesis by (cases "clean_items LogConfigClean xs") (auto simp: LogConfigClean_simps JsonObjectGet_def)
next
  case (JValue t d)
  with assms(2) show ?thesis by (auto simp: LogConfigClean_simps JsonObjectGet_def)
qed

text \<open>Every fault is that of an empty key; an object that has one never is cleaned.\<close>

lemma rename_fault:
  assumes "\<And>v e. f v = Inl e \<Longrightarrow> e = Null_Deref"
  shows "rename_keys f (JObject es ks) keys = Inl e \<Longrightarrow> e = Null_Deref"
proof (induction keys arbitrary: es ks)
  case (Cons k keys)
  then show ?case using assms
    by (auto simp: JsonObjectRemove_def JsonObjectPut_def Let_def split: option.splits sum.splits list.splits)
qed simp

lemma clean_items_fault: "clean_items f xs = Inl e \<Longrightarrow> \<exists>x \<in> set xs. f x = Inl e"
  by (induction xs) (auto split: sum.splits simp: map_sum_def)

lemma clean_at_fault: "clean_at n j = Inl e \<Longrightarrow> e = Null_Deref"
proof (induction n arbitrary: j e)
  case (Suc n)
  show ?case
  proof (cases j)
    case (JObject es ks)
    with Suc.prems rename_fault [of "clean_at n" es ks "map fst es" e] Suc.IH show ?thesis by simp
  next
    case (JArray xs)
    with Suc.prems have "clean_items (clean_at n) xs = Inl e" by (cases "clean_items (clean_at n) xs") simp_all
    with clean_items_fault Suc.IH show ?thesis by blast
  qed (use Suc.prems in simp)
qed simp

lemma rename_empty: "[] \<in> set keys \<Longrightarrow> \<exists>e. rename_keys f (JObject es ks) keys = Inl e"
proof (induction keys arbitrary: es ks)
  case (Cons k keys)
  show ?case
  proof (cases "k = []")
    case True
    then show ?thesis by (auto simp: JsonObjectRemove_def split: option.splits sum.splits)
  next
    case False
    with Cons show ?thesis
      by (auto simp: JsonObjectRemove_def JsonObjectPut_def Let_def split: option.splits sum.splits list.splits)
  qed
qed simp

lemma clean_empty:
  assumes "JsonObjectGet j [] \<noteq> NULL"
  shows "LogConfigClean j = Inl Null_Deref"
proof -
  obtain es ks where j: "j = JObject es ks" using assms by (cases j) (auto simp: JsonObjectGet_def)
  have "[] \<in> set (map fst es)" using assms by (force simp: j JsonObjectGet_def dest: map_of_SomeD)
  from rename_empty [OF this, of LogConfigClean es ks] obtain e where e: "LogConfigClean j = Inl e"
    by (auto simp: j LogConfigClean_simps)
  with clean_at_fault [of "json_depth j" j e] show ?thesis by (simp add: LogConfigClean_def)
qed

section \<open>Properties\<close>

text \<open>C8: For any name, asked for for the first time or again, the logger that the system hands out passes a message to
  the appenders its configured loggers have for the level: from the configured logger with the longest name above
  it, by whole path elements, towards the root, until one is not additive, skipping those whose own level is higher; and
  to none when the level is below the level of the first of them. \<open>LogIsEnabled\<close> says the same, and the system is
  log_kept such that this holds for the next call.\<close>
theorem log_dispatch:
  assumes "ls_ok ls" "\<forall>l \<in> set (ls_loggers ls). logger_current ls l" "NUL \<notin> set name"
    "LogSystemGetLogger name ls = (lg, ls')"
  shows "LoggerLogEx ls' lg level = (if level < effective_level ls name then [] else emit level (chain ls name)) \<and>
    LogIsEnabled (Some lg) level = (\<not> level < effective_level ls name) \<and>
    ls_ok ls' \<and> (\<forall>l \<in> set (ls_loggers ls'). logger_current ls' l)"
proof -
  note g = GetLogger_current [OF assms]
  obtain xs where xs: "ls' = ls\<lparr>ls_loggers := xs\<rparr>" using g(4) by blast
  have "ls_ok ls'" using GetLogger_ok [OF assms(1), of name] assms(4) by simp
  moreover have "LoggerLogEx ls' lg level = (if level < effective_level ls' name then [] else emit level (chain ls' name))"
    using LogEx_current [OF calculation, of lg] g(1,2) by (simp add: xs)
  moreover have "LogIsEnabled (Some lg) level = (\<not> level < effective_level ls name)"
    using g(1,2) by (simp add: LogIsEnabled_def LoggerIsEnabled_def logger_current_def)
  ultimately show ?thesis using g(3) by (simp add: xs)
qed

definition example_console :: log_appender where
  "example_console = \<lparr>ap_name = ''con'', ap_kind = Console_Appender False, ap_pattern = ''%m'', ap_async = None\<rparr>"

definition example_file :: log_appender where
  "example_file = \<lparr>ap_name = ''f'', ap_kind = File_Appender ''x.log'', ap_pattern = ''%m'', ap_async = None\<rparr>"

definition log_example :: log_system where
  "log_example =
     (case LogSystemCreateLogger (Some []) CMLogLevel_Info True LogSystemCreateInternal of
        (root, s1) \<Rightarrow>
          (case LogSystemCreateLogger (Some ''net'') CMLogLevel_Debug True s1 of
             (net, s2) \<Rightarrow>
               ConfLoggerAddAppender net example_file CMLogLevel_Debug
                 (ConfLoggerAddAppender root example_console CMLogLevel_Info s2)))"

lemma six_levels:
  "replicate 6 x = [x, x, x, x, x, x]"
  "level_map l f [a, b, c, d, e, g] =
    [if level_no l \<le> 0 then f a else a, if level_no l \<le> 1 then f b else b, if level_no l \<le> 2 then f c else c,
     if level_no l \<le> 3 then f d else d, if level_no l \<le> 4 then f e else e, if level_no l \<le> 5 then f g else g]"
  by (simp_all add: level_map_def numeral_eq_Suc)

lemma log_example_step1:
  "LogSystemCreateLogger (Some []) CMLogLevel_Info True LogSystemCreateInternal =
    (0, \<lparr>ls_heap = [0 \<mapsto> \<lparr>cl_name = [], cl_level = CMLogLevel_Info, cl_additivity = True, cl_lvlapndrs = [[], [], [], [], [], []]\<rparr>],
      ls_next = 1, ls_appenders = [], ls_cloggers = [0], ls_levelloggers = [[], [], [0], [0], [0], [0]], ls_loggers = []\<rparr>)"
  by (simp add: LogSystemCreateInternal_def LogSystemCreateLogger_def six_levels put_by_def)

lemma log_example_step2:
  "LogSystemCreateLogger (Some ''net'') CMLogLevel_Debug True (snd (LogSystemCreateLogger (Some []) CMLogLevel_Info True LogSystemCreateInternal)) =
    (1, \<lparr>ls_heap = [0 \<mapsto> \<lparr>cl_name = [], cl_level = CMLogLevel_Info, cl_additivity = True, cl_lvlapndrs = [[], [], [], [], [], []]\<rparr>,
                  1 \<mapsto> \<lparr>cl_name = ''net'', cl_level = CMLogLevel_Debug, cl_additivity = True, cl_lvlapndrs = [[], [], [], [], [], []]\<rparr>],
      ls_next = 2, ls_appenders = [], ls_cloggers = [0, 1], ls_levelloggers = [[], [1], [0, 1], [0, 1], [0, 1], [0, 1]],
      ls_loggers = []\<rparr>)"
  unfolding log_example_step1 snd_conv
  by (simp add: LogSystemCreateLogger_def six_levels put_by_def ConfLoggerComparator_def conf_name_def code_def)

lemma log_example_eval:
  "log_example =
     \<lparr>ls_heap = [0 \<mapsto> \<lparr>cl_name = [], cl_level = CMLogLevel_Info, cl_additivity = True,
                       cl_lvlapndrs = [[], [], [example_console], [example_console], [example_console], [example_console]]\<rparr>,
                1 \<mapsto> \<lparr>cl_name = ''net'', cl_level = CMLogLevel_Debug, cl_additivity = True,
                       cl_lvlapndrs = [[], [example_file], [example_file], [example_file], [example_file], [example_file]]\<rparr>],
      ls_next = 2, ls_appenders = [(''con'', example_console), (''f'', example_file)], ls_cloggers = [0, 1],
      ls_levelloggers = [[], [1], [0, 1], [0, 1], [0, 1], [0, 1]], ls_loggers = []\<rparr>"
  using log_example_step2 unfolding log_example_def log_example_step1 prod.case snd_conv
  by (simp add: ConfLoggerAddAppender_def LogSystemAddAppender_def six_levels put_by_def al_put_def
      example_console_def example_file_def fun_upd_twist)

lemma log_example_ok: "ls_ok log_example" "ls_loggers log_example = []"
  by (auto simp: ls_ok_def log_example_eval conf_name_def ConfLoggerComparator_def code_def split: if_splits)

theorem log_dispatch_witness:
  "LoggerLogEx (snd (LogSystemGetLogger ''net.tcp'' log_example)) (fst (LogSystemGetLogger ''net.tcp'' log_example))
     CMLogLevel_Warn = [example_file, example_console]"
proof -
  have "LoggerLogEx (snd (LogSystemGetLogger ''net.tcp'' log_example)) (fst (LogSystemGetLogger ''net.tcp'' log_example))
      CMLogLevel_Warn = (if CMLogLevel_Warn < effective_level log_example ''net.tcp'' then []
        else emit CMLogLevel_Warn (chain log_example ''net.tcp''))"
    using log_dispatch [OF log_example_ok(1) _ _ prod.collapse [symmetric], of "''net.tcp''" CMLogLevel_Warn]
    by (simp add: log_example_ok(2))
  moreover have "chain log_example ''net.tcp'' =
      [\<lparr>cl_name = ''net'', cl_level = CMLogLevel_Debug, cl_additivity = True,
         cl_lvlapndrs = [[], [example_file], [example_file], [example_file], [example_file], [example_file]]\<rparr>,
       \<lparr>cl_name = [], cl_level = CMLogLevel_Info, cl_additivity = True,
         cl_lvlapndrs = [[], [], [example_console], [example_console], [example_console], [example_console]]\<rparr>]"
    by (simp add: chain_def ancestors_def upt_rec numeral_eq_Suc conf_for_def conf_name_def log_example_eval
        List.map_filter_simps)
  ultimately show ?thesis by (simp add: effective_level_def less_log_level_def less_eq_log_level_def numeral_eq_Suc)
qed

text \<open>C14: A configuration whose loggers have different names gives a system with all its pointers in use, its configured
  loggers sorted by their different names, and no logger handed out yet, whether every item was accepted or the
  default was installed. One that has an empty key gives none: the key in lower case is NULL and is dereferenced.\<close>
theorem log_configured:
  assumes "LogSystemConfigureInternal env listens json = Inr ls" "LogConfigClean json = Inr json1"
    "JsonObjectGet (log_config json1) ''loggers'' = Some (JArray its)" "distinct (map item_name its)"
  shows "ls_ok ls \<and> ls_loggers ls = [] \<and>
    (\<forall>json. JsonObjectGet json [] \<noteq> NULL \<longrightarrow> LogSystemConfigureInternal env listens json = Inl Null_Deref)"
proof -
  have "ls_ok ls \<and> ls_loggers ls = []"
  proof (cases "ls = LogSystemConfigureDefault")
    case False
    then obtain appenders b1 ls1 b2 where
      p: "LogSystemProcessItems LogSystemCreateInternal appenders NULL (LogSystemProcessOneAppender env listens) = Inr (b1, ls1)"
        "LogSystemProcessItems ls1 (JArray its) (Some ''logger'') LogSystemProcessOneLogger = Inr (b2, ls)"
      using assms(1-3) unfolding LogSystemConfigureInternal_def Let_def
      by (auto split: if_splits option.splits sum.splits prod.splits)
    have "log_kept LogSystemCreateInternal ls1"
      using p(1) log_kept_items [OF log_kept_OneAppender] by (auto simp: LogSystemProcessItems_def split: json.splits)
    then have k: "ls_ok ls1" "ls_loggers ls1 = []" "conf_names ls1 = {}"
      using LogCreate_ok by (auto simp: log_kept_def LogSystemCreateInternal_def)
    have "ls_ok ls \<and> ls_loggers ls = ls_loggers ls1"
      using p(2) by (intro loggers_ok [OF k(1) _ assms(4)]) (auto simp: LogSystemProcessItems_def k(3))
    then show ?thesis using k(2) by simp
  qed (simp add: Default_ok)
  moreover have "LogSystemConfigureInternal env listens json = Inl Null_Deref" if "JsonObjectGet json [] \<noteq> NULL" for json
    using clean_empty [OF that] by (simp add: LogSystemConfigureInternal_def)
  ultimately show ?thesis by blast
qed

lemma tolower_letters:
  "tolower CHR ''A'' = CHR ''a''" "tolower CHR ''L'' = CHR ''l''" "tolower CHR ''N'' = CHR ''n''"
  "tolower CHR ''S'' = CHR ''s''" "tolower CHR ''a'' = CHR ''a''" "tolower CHR ''d'' = CHR ''d''"
  "tolower CHR ''e'' = CHR ''e''" "tolower CHR ''g'' = CHR ''g''" "tolower CHR ''l'' = CHR ''l''"
  "tolower CHR ''m'' = CHR ''m''" "tolower CHR ''n'' = CHR ''n''" "tolower CHR ''o'' = CHR ''o''"
  "tolower CHR ''p'' = CHR ''p''" "tolower CHR ''r'' = CHR ''r''" "tolower CHR ''s'' = CHR ''s''"
  "tolower CHR ''t'' = CHR ''t''" "tolower CHR ''u'' = CHR ''u''" "tolower CHR ''v'' = CHR ''v''"
  by code_simp+

lemma clean_useStderr: "LogConfigClean j = Inr j' \<Longrightarrow> JsonObjectGet j' ''useStderr'' = NULL"
  by (erule clean_keys [rotated]) (simp add: tolower_letters)

definition example_config :: json where
  "example_config =
     JObject [(''Appenders'', JArray []),
              (''Loggers'', JArray [JObject [(''Name'', JValue JString ''net''), (''Level'', JValue JString ''debug'')]
                                      [''Name'', ''Level'']])] [''Appenders'', ''Loggers'']"

theorem log_configured_witness:
  "ls_ok (snd (LogSystemCreateLogger (Some ''net'') CMLogLevel_Debug True LogSystemCreateInternal)) \<and>
   ls_loggers (snd (LogSystemCreateLogger (Some ''net'') CMLogLevel_Debug True LogSystemCreateInternal)) = []"
proof -
  let ?it = "JObject [(''name'', JValue JString ''net''), (''level'', JValue JString ''debug'')] [''name'', ''level'']"
  let ?j = "JObject [(''appenders'', JArray []), (''loggers'', JArray [?it])] [''appenders'', ''loggers'']"
  have c: "LogConfigClean example_config = Inr ?j"
    by (simp add: example_config_def LogConfigClean_simps JsonObjectRemove_def JsonObjectPut_def al_remove_def al_put_def
        tolower_letters)
  have l: "JsonObjectGet (log_config ?j) ''loggers'' = Some (JArray [?it])"
    by (simp add: log_config_def JsonObjectGet_def)
  have g: "JsonObjectGet ?it ''name'' = Some (JValue JString ''net'')" "JsonObjectGetString ?it ''name'' = Some ''net''"
    "JsonObjectGetCString ?it ''level'' = Some ''debug''" "JsonObjectGet ?it ''level'' \<noteq> NULL"
    "JsonObjectGet ?it ''additivity'' = NULL" "JsonObjectGet ?it ''appenderref'' = NULL" "JsonObjectGet ?it ''type'' = NULL"
    "JsonGetType ?it = TObject"
    by (simp_all add: JsonObjectGet_def JsonObjectGetString_def JsonObjectGetCString_def JsonObjectGetBody_def JsonGetType_def
        JsonValueGetString_def JsonValueGetCString_def value_text_def)
  have "logger_name ''logger'' ?it = Some ''net''"
    by (simp add: logger_name_def g trim_def rtrim_def SPACES_def)
  moreover have "LogStringToLevel ''debug'' = Some CMLogLevel_Debug" by code_simp
  ultimately have o: "LogSystemProcessOneLogger LogSystemCreateInternal ''logger'' ?it =
      Inr (True, snd (LogSystemCreateLogger (Some ''net'') CMLogLevel_Debug True LogSystemCreateInternal))"
    by (simp add: LogSystemProcessOneLogger_def g split_beta)
  have "LogSystemConfigureInternal test_env (\<lambda>_ _. True) example_config =
      Inr (snd (LogSystemCreateLogger (Some ''net'') CMLogLevel_Debug True LogSystemCreateInternal))"
    using l o unfolding LogSystemConfigureInternal_def Let_def c
    by (simp add: log_config_def JsonObjectGet_def JsonGetType_def LogSystemProcessItems_def item_type_def)
  from log_configured [OF this c l] show ?thesis by simp
qed

text \<open>Creating a configured logger of a new name keeps the system well formed. One of a name that is in use
  destroys the old one while the loggers handed out still point to it.\<close>
theorem log_create_logger:
  assumes "ls_ok ls" "NUL \<notin> set n"
  shows "if n \<in> conf_names ls
    then (\<exists>a. a \<in> set (ls_cloggers ls) \<and> conf_name ls a = n \<and>
      ls_heap (snd (LogSystemCreateLogger (Some n) level additivity ls)) a = None \<and>
      ls_loggers (snd (LogSystemCreateLogger (Some n) level additivity ls)) = ls_loggers ls)
    else ls_ok (snd (LogSystemCreateLogger (Some n) level additivity ls))"
proof (cases "n \<in> conf_names ls")
  case False
  then have "conf_name ls a \<noteq> n" if "a \<in> set (ls_cloggers ls)" for a using that by blast
  from CreateLogger_ok(1) [OF assms this refl] False show ?thesis by simp
next
  case True
  then obtain a where a: "a \<in> set (ls_cloggers ls)" "conf_name ls a = n" by blast
  let ?ls1 = "ls\<lparr>ls_heap := (ls_heap ls)(ls_next ls \<mapsto> \<lparr>cl_name = n, cl_level = level, cl_additivity = additivity,
    cl_lvlapndrs = replicate 6 []\<rparr>), ls_next := ls_next ls + 1\<rparr>"
  have nm: "conf_name ?ls1 (ls_next ls) = n" "\<And>b. b \<in> set (ls_cloggers ls) \<Longrightarrow> conf_name ?ls1 b = conf_name ls b"
    using ls_okD(2) [OF assms(1)] by (auto simp: conf_name_def)
  have eq: "ConfLoggerComparator ?ls1 (ls_next ls) b = 0 \<longleftrightarrow> b = a" if "b \<in> set (ls_cloggers ls)" for b
  proof -
    have "ConfLoggerComparator ?ls1 (ls_next ls) b = strcmp n (conf_name ls b)"
      unfolding ConfLoggerComparator_def nm(1) nm(2) [OF that] ..
    then have "ConfLoggerComparator ?ls1 (ls_next ls) b = 0 \<longleftrightarrow> n = conf_name ls b"
      using strcmp_eq_0 [OF assms(2) ls_okD(3) [OF assms(1) that]] by simp
    moreover have "n = conf_name ls b \<longleftrightarrow> b = a"
    proof
      assume "n = conf_name ls b"
      then have "conf_name ls b = conf_name ls a" using a(2) by simp
      then show "b = a" by (rule conf_names_distinct [OF assms(1) that a(1)])
    qed (use a(2) in simp)
    ultimately show ?thesis by (rule trans)
  qed
  have f: "List.find (\<lambda>b. ConfLoggerComparator ?ls1 (ls_next ls) b = 0) (ls_cloggers ls) = Some a"
  proof (cases "List.find (\<lambda>b. ConfLoggerComparator ?ls1 (ls_next ls) b = 0) (ls_cloggers ls)")
    case None
    with eq [OF a(1)] a(1) show ?thesis by (auto simp: find_None_iff)
  next
    case (Some b)
    then have "b \<in> set (ls_cloggers ls)" "ConfLoggerComparator ?ls1 (ls_next ls) b = 0" by (auto simp: find_Some_iff)
    with Some eq show ?thesis by simp
  qed
  have "ls_heap (snd (LogSystemCreateLogger (Some n) level additivity ls)) a = None"
    "ls_loggers (snd (LogSystemCreateLogger (Some n) level additivity ls)) = ls_loggers ls"
    unfolding LogSystemCreateLogger_def Let_def option.case f by simp_all
  then show ?thesis unfolding if_P [OF True] using a by blast
qed

theorem log_create_logger_witness:
  "ls_heap (snd (LogSystemCreateLogger (Some ''net'') CMLogLevel_Info True log_example)) 1 = None"
proof -
  have "conf_names log_example = {[], ''net''}" "ls_cloggers log_example = [0, 1]"
    "conf_name log_example 0 = []"
    by (simp_all add: log_example_eval conf_name_def)
  moreover from this obtain a where "a \<in> set (ls_cloggers log_example)" "conf_name log_example a = ''net''"
      "ls_heap (snd (LogSystemCreateLogger (Some ''net'') CMLogLevel_Info True log_example)) a = None"
    using log_create_logger [OF log_example_ok(1), of "''net''" CMLogLevel_Info True] by (auto simp del: fun_upd_apply)
  ultimately show ?thesis by (cases "a = 0") simp_all
qed

text \<open>When the file cannot be read or is no JSON, the default is installed: from every logger a message of
  level debug and up reaches the console.\<close>
theorem log_default:
  assumes "contents = NULL \<or> JsonParse lib (the contents) = None"
  shows "\<exists>ls. LogSystemConfigureFomJson lib env listens contents = Inr ls \<and> ls_ok ls \<and>
    LoggerLogEx (snd (LogSystemGetLogger name ls)) (fst (LogSystemGetLogger name ls)) level =
      (if level < CMLogLevel_Debug then []
       else [\<lparr>ap_name = ''__CONSOL'', ap_kind = Console_Appender False, ap_pattern = LOG_PATTERN_DEFAULT, ap_async = None\<rparr>])"
  using assms Default_LogEx Default_ok by (auto simp: LogSystemConfigureFomJson_def split: option.splits)

theorem log_default_witness:
  "\<exists>ls. LogSystemConfigureFomJson toy_lib test_env (\<lambda>_ _. True) NULL = Inr ls \<and> ls_ok ls \<and>
    LoggerLogEx (snd (LogSystemGetLogger ''x'' ls)) (fst (LogSystemGetLogger ''x'' ls)) CMLogLevel_Error =
      [\<lparr>ap_name = ''__CONSOL'', ap_kind = Console_Appender False, ap_pattern = LOG_PATTERN_DEFAULT, ap_async = None\<rparr>]"
  using log_default [of NULL toy_lib test_env "\<lambda>_ _. True" "''x''" CMLogLevel_Error]
  by (simp add: less_log_level_def)

text \<open>A configuration's keys are turned to lower case before it is read, so a key with a capital is never found:
  \<open>useStderr\<close>, which is looked up so, is ignored, and a console appender from a configuration writes to standard
  output.\<close>
theorem log_stderr:
  assumes "LogConfigClean json = Inr json1" "create_by_type env listens ''console'' sname spattern json1 = Inr (Some ap)"
  shows "ap_kind ap = Console_Appender False"
  using assms(2) clean_useStderr [OF assms(1)]
  by (auto simp: create_by_type_def make_appender_def split: sum.splits bool.splits)

theorem log_stderr_witness:
  "\<exists>json1 ap. LogConfigClean (JObject [(''useStderr'', JValue JBoolean ''true'')] [''useStderr'']) = Inr json1 \<and>
    create_by_type test_env (\<lambda>_ _. True) ''console'' (Some ''c'') (Some ''%m'') json1 = Inr (Some ap) \<and>
    ap_kind ap = Console_Appender False"
proof -
  let ?j = "JObject [(map tolower ''useStderr'', JValue JBoolean ''true'')] [map tolower ''useStderr'']"
  have c: "LogConfigClean (JObject [(''useStderr'', JValue JBoolean ''true'')] [''useStderr'']) = Inr ?j"
    by (simp add: LogConfigClean_simps JsonObjectRemove_def JsonObjectPut_def al_remove_def al_put_def)
  have "create_by_type test_env (\<lambda>_ _. True) ''console'' (Some ''c'') (Some ''%m'') ?j =
    Inr (Some \<lparr>ap_name = ''c'', ap_kind = Console_Appender False, ap_pattern = ''%m'', ap_async = None\<rparr>)"
    using parse_message [of test_env]
    by (simp only: create_by_type_def clean_useStderr [OF c]) (auto simp: make_appender_def appender_base_def)
  from log_stderr [OF c this] this c show ?thesis by blast
qed

end
