(* ===== verification/Cmu_LogAppender.thy ===== *)
theory Cmu_LogAppender
  imports Cmu_LogSystem
begin

text \<open>
  \<open>src/src/logger.c\<close>, the appenders: a message is printed by the pattern and written at once, or kept in a buffer that
  is written when it is full and every tenth of a second by a thread. The console is a text, the file system
  (\<open>file_sys\<close>) a map from paths to contents, with the answers of the coming calls of \<open>fopen\<close> (once they are used up
  they are all \<open>True\<close>) and the paths that can be renamed to. A buffer is the sequence of its items; a step holds the appender's
  mutex. What the appender writes to and where is its device, \<open>'s\<close>. Operations give \<open>None\<close> when they do not return.
\<close>

section \<open>Buffers\<close>

record async_item =
  ai_log :: string
  ai_logtm :: tm

text \<open>\<open>buffer\<close> and \<open>flush_buffer\<close>, made together.\<close>

record app_base =
  ab_isasync :: bool
  ab_buffersz :: nat
  ab_buffers :: "(async_item list \<times> async_item list) ptr"

definition new_app_base :: app_base where
  "new_app_base = \<lparr>ab_isasync = False, ab_buffersz = 0, ab_buffers = NULL\<rparr>"

definition LogAppenderBaseSetAsync :: "string \<Rightarrow> nat \<Rightarrow> app_base \<Rightarrow> fault + app_base" where
  "LogAppenderBaseSetAsync name buffersz b =
     (if ab_isasync b then Inr b
      else if ab_buffers b = NULL \<and> 256 < length name + 13 then Inl Out_Of_Bounds
      else Inr (b\<lparr>ab_buffersz := buffersz, ab_isasync := True,
                  ab_buffers := (case ab_buffers b of NULL \<Rightarrow> Some ([], []) | Some bs \<Rightarrow> Some bs)\<rparr>))"

type_synonym 'a run = "(fault + 'a) option"
type_synonym 's write_fn = "async_item \<Rightarrow> 's \<Rightarrow> 's run"
type_synonym 's flush_fn = "app_base \<times> 's \<Rightarrow> (app_base \<times> 's) run"

definition and_then :: "'a run \<Rightarrow> ('a \<Rightarrow> 'b run) \<Rightarrow> 'b run" where
  "and_then r f = (case r of None \<Rightarrow> None | Some (Inl e) \<Rightarrow> Some (Inl e) | Some (Inr x) \<Rightarrow> f x)"

lemma and_then_simps [simp]:
  "and_then None f = None" "and_then (Some (Inl e)) f = Some (Inl e)" "and_then (Some (Inr x)) f = f x"
  by (simp_all add: and_then_def)

definition append_item ::
    "'s write_fn \<Rightarrow> 's flush_fn \<Rightarrow> async_item \<Rightarrow> app_base \<times> 's \<Rightarrow> (app_base \<times> 's) run" where
  "append_item Write Flush it st =
     (case st of
        (b, s) \<Rightarrow>
          if ab_isasync b then
            (case ab_buffers b of
               NULL \<Rightarrow> Some (Inl Null_Deref)
             | Some (buf, fl) \<Rightarrow>
                 (let b1 = b\<lparr>ab_buffers := Some (buf @ [it], fl)\<rparr>
                  in if ab_buffersz b \<le> length (buf @ [it]) then Flush (b1, s) else Some (Inr (b1, s))))
          else and_then (Write it s) (\<lambda>s1. Some (Inr (b, s1))))"

definition LogAppenderBaseAppend ::
    "'s write_fn \<Rightarrow> 's flush_fn \<Rightarrow> log_env \<Rightarrow> format_item list \<Rightarrow> log_param \<Rightarrow> app_base \<times> 's \<Rightarrow>
     (app_base \<times> 's) run" where
  "LogAppenderBaseAppend Write Flush env its p st =
     (case log_text env its p [] of
        Inl e \<Rightarrow> Some (Inl e)
      | Inr dest \<Rightarrow> append_item Write Flush \<lparr>ai_log = dest, ai_logtm = lp_logtm p\<rparr> st)"

section \<open>The console\<close>

text \<open>\<open>%s\<close> of a string's bytes: up to the first \<open>NUL\<close>.\<close>

definition LogConsoleAppenderWriter :: "string write_fn" where
  "LogConsoleAppenderWriter it out = Some (Inr (out @ cstr (ai_log it)))"

definition LogConsoleAppenderFlush :: "string flush_fn" where
  "LogConsoleAppenderFlush st =
     (case st of
        (b, out) \<Rightarrow>
          if ab_isasync b then
            (case ab_buffers b of
               NULL \<Rightarrow> Some (Inl Null_Deref)
             | Some (buf, fl) \<Rightarrow>
                 Some (Inr (b\<lparr>ab_buffers := Some ([], [])\<rparr>, out @ concat (map (cstr \<circ> ai_log) (fl @ buf)))))
          else Some (Inr (b, out)))"

section \<open>Files\<close>

record file_sys =
  fs_files :: "string \<Rightarrow> string option"
  fs_opens :: "bool list"
  fs_reach :: "string \<Rightarrow> bool"

text \<open>\<open>fopen\<close> with \<open>"ab"\<close>: the file is made.\<close>

definition open_append :: "string \<Rightarrow> file_sys \<Rightarrow> bool \<times> file_sys" where
  "open_append path fs =
     (let fs1 = fs\<lparr>fs_opens := tl (fs_opens fs)\<rparr>
      in if fs_opens fs \<noteq> [] \<and> \<not> hd (fs_opens fs) then (False, fs1)
         else (True, fs1\<lparr>fs_files := (fs_files fs)(path \<mapsto> (case fs_files fs path of None \<Rightarrow> [] | Some t \<Rightarrow> t))\<rparr>))"

definition write_to :: "string \<Rightarrow> string \<Rightarrow> file_sys \<Rightarrow> file_sys" where
  "write_to path t fs =
     fs\<lparr>fs_files := (fs_files fs)(path \<mapsto> (case fs_files fs path of None \<Rightarrow> [] | Some u \<Rightarrow> u) @ cstr t)\<rparr>"

definition rename_file :: "string \<Rightarrow> string \<Rightarrow> file_sys \<Rightarrow> file_sys" where
  "rename_file old new fs =
     (if new = [] \<or> \<not> fs_reach fs new then fs
      else
        (case fs_files fs old of
           None \<Rightarrow> fs
         | Some t \<Rightarrow> if new = old then fs else fs\<lparr>fs_files := (fs_files fs)(old := None, new \<mapsto> t)\<rparr>))"

record file_dev =
  fd_path :: string
  fd_fs :: file_sys

definition LogFileAppenderCreateInternal :: "string \<Rightarrow> file_sys \<Rightarrow> fault + file_dev" where
  "LogFileAppenderCreateInternal fpath fs =
     (case LogPathCreate fpath of Inl e \<Rightarrow> Inl e | Inr _ \<Rightarrow> Inr \<lparr>fd_path = fpath, fd_fs = fs\<rparr>)"

text \<open>A file that cannot be opened and does not exist gets a second chance behind its directory.\<close>

definition LogFileAppenderWriter :: "file_dev write_fn" where
  "LogFileAppenderWriter it d =
     (case open_append (fd_path d) (fd_fs d) of
        (True, fs1) \<Rightarrow> Some (Inr (d\<lparr>fd_fs := write_to (fd_path d) (ai_log it) fs1\<rparr>))
      | (False, fs1) \<Rightarrow>
          if fs_files fs1 (fd_path d) \<noteq> None then Some (Inr (d\<lparr>fd_fs := fs1\<rparr>))
          else
            (case LogPathCreate (fd_path d) of
               Inl e \<Rightarrow> Some (Inl e)
             | Inr _ \<Rightarrow>
                 (case open_append (fd_path d) fs1 of
                    (True, fs2) \<Rightarrow> Some (Inr (d\<lparr>fd_fs := write_to (fd_path d) (ai_log it) fs2\<rparr>))
                  | (False, fs2) \<Rightarrow> Some (Inr (d\<lparr>fd_fs := fs2\<rparr>)))))"

definition LogFileAppenderFlush :: "file_dev flush_fn" where
  "LogFileAppenderFlush st =
     (case st of
        (b, d) \<Rightarrow>
          (case open_append (fd_path d) (fd_fs d) of
             (False, fs1) \<Rightarrow> Some (Inr (b, d\<lparr>fd_fs := fs1\<rparr>))
           | (True, fs1) \<Rightarrow>
               (case ab_buffers b of
                  NULL \<Rightarrow> Some (Inl Null_Deref)
                | Some (buf, fl) \<Rightarrow>
                    Some (Inr (b\<lparr>ab_buffers := Some ([], [])\<rparr>,
                         d\<lparr>fd_fs := fold (\<lambda>it. write_to (fd_path d) (ai_log it)) (fl @ buf) fs1\<rparr>)))))"

section \<open>Rolling files\<close>

record roll_dev =
  rd_env :: log_env
  rd_logterm :: log_term
  rd_fpath :: string
  rd_rollpath :: string
  rd_lasttm :: tm
  rd_fs :: file_sys

text \<open>The members of \<open>struct tm\<close> in front of \<open>tm_wday\<close>; the comparison covers those from the term's own one on.\<close>

definition tm_fields :: "tm \<Rightarrow> int list" where
  "tm_fields t = [tm_sec t, tm_min t, tm_hour t, tm_mday t, tm_mon t, tm_year t]"

definition term_offset :: "log_term \<Rightarrow> nat" where
  "term_offset t =
     (case t of
        CMLogTerm_Year \<Rightarrow> 5 | CMLogTerm_Month \<Rightarrow> 4 | CMLogTerm_Date \<Rightarrow> 3 | CMLogTerm_Hour \<Rightarrow> 2 | CMLogTerm_Minute \<Rightarrow> 1)"

definition period :: "log_term \<Rightarrow> tm \<Rightarrow> int list" where
  "period t x = drop (term_offset t) (tm_fields x)"

definition LogRollingFileAppenderIsChanged :: "roll_dev \<Rightarrow> tm \<Rightarrow> bool" where
  "LogRollingFileAppenderIsChanged d now \<longleftrightarrow> period (rd_logterm d) (rd_lasttm d) \<noteq> period (rd_logterm d) now"

text \<open>The first of \<open>name\<close>, \<open>name-0\<close>, \<open>name-1\<close>, ... that is no file.\<close>

partial_function (option) free_name :: "(string \<Rightarrow> string option) \<Rightarrow> string \<Rightarrow> string \<Rightarrow> nat \<Rightarrow> string option" where
  "free_name files tfname f i =
     (if files f = None then Some f else free_name files tfname (tfname @ ''-'' @ dec (int i)) (i + 1))"

declare free_name.simps [code]

text \<open>The name has 1024 bytes; a longer one is empty.\<close>

definition LogRollingFileAppenderRolling :: "tm \<Rightarrow> roll_dev \<Rightarrow> roll_dev run" where
  "LogRollingFileAppenderRolling now d =
     (let t = le_strftime (rd_env d) (rd_rollpath d) (rd_lasttm d);
          tfname = (if length t < 1024 then t else [])
      in case free_name (fs_files (rd_fs d)) tfname tfname 0 of
           None \<Rightarrow> None
         | Some f \<Rightarrow> Some (Inr (d\<lparr>rd_fs := rename_file (rd_fpath d) f (rd_fs d), rd_lasttm := now\<rparr>)))"

definition roll_if_changed :: "tm \<Rightarrow> roll_dev \<Rightarrow> roll_dev run" where
  "roll_if_changed tm d =
     (if LogRollingFileAppenderIsChanged d tm then LogRollingFileAppenderRolling tm d else Some (Inr d))"

definition LogRollingFileAppenderWrite :: "roll_dev write_fn" where
  "LogRollingFileAppenderWrite it d =
     and_then (roll_if_changed (ai_logtm it) d)
       (\<lambda>d1. case open_append (rd_fpath d) (rd_fs d1) of
                (True, fs1) \<Rightarrow> Some (Inr (d1\<lparr>rd_fs := write_to (rd_fpath d) (ai_log it) fs1\<rparr>))
              | (False, fs1) \<Rightarrow> Some (Inr (d1\<lparr>rd_fs := fs1\<rparr>)))"

text \<open>The loop over the buffer; \<open>fp\<close> says whether the file is open.\<close>

fun roll_items :: "bool \<Rightarrow> async_item list \<Rightarrow> roll_dev \<Rightarrow> roll_dev run" where
  "roll_items fp [] d = Some (Inr d)"
| "roll_items fp (it # its) d =
     and_then
       (if fp \<and> LogRollingFileAppenderIsChanged d (ai_logtm it) then
          and_then (LogRollingFileAppenderRolling (ai_logtm it) d)
            (\<lambda>d1. case open_append (rd_fpath d) (rd_fs d1) of (ok, fs1) \<Rightarrow> Some (Inr (ok, d1\<lparr>rd_fs := fs1\<rparr>)))
        else Some (Inr (fp, d)))
       (\<lambda>(fp1, d1). roll_items fp1 its
          (if fp1 then d1\<lparr>rd_fs := write_to (rd_fpath d) (ai_log it) (rd_fs d1)\<rparr> else d1))"

definition LogRollingFileAppenderFlush :: "roll_dev flush_fn" where
  "LogRollingFileAppenderFlush st =
     (case st of
        (b, d) \<Rightarrow>
          (case ab_buffers b of
             NULL \<Rightarrow> Some (Inl Null_Deref)
           | Some (buf, fl) \<Rightarrow>
               (let list = fl @ buf; b1 = b\<lparr>ab_buffers := Some ([], list)\<rparr>
                in case list of
                     [] \<Rightarrow> Some (Inr (b1, d))
                   | it # _ \<Rightarrow>
                       and_then (roll_if_changed (ai_logtm it) d)
                         (\<lambda>d1. case open_append (rd_fpath d) (rd_fs d1) of
                                  (False, fs1) \<Rightarrow> Some (Inr (b1, d1\<lparr>rd_fs := fs1\<rparr>))
                                | (True, fs1) \<Rightarrow>
                                    and_then (roll_items True list (d1\<lparr>rd_fs := fs1\<rparr>))
                                      (\<lambda>d2. Some (Inr (b\<lparr>ab_buffers := Some ([], [])\<rparr>, d2)))))))"

text \<open>Opening: a file that is there already is rolled when it is from another term (\<open>mtime\<close>: when it was written).\<close>

definition LogRollingFileAppenderCreateInternal ::
    "log_env \<Rightarrow> string \<Rightarrow> log_term \<Rightarrow> string \<Rightarrow> tm \<Rightarrow> (string \<Rightarrow> tm) \<Rightarrow> file_sys \<Rightarrow> roll_dev run" where
  "LogRollingFileAppenderCreateInternal env fpath logterm rollpath now mtime fs =
     (let d = \<lparr>rd_env = env, rd_logterm = logterm, rd_fpath = fpath, rd_rollpath = rollpath,
               rd_lasttm = (if fs_files fs fpath \<noteq> None then mtime fpath else now), rd_fs = fs\<rparr>
      in and_then (if fs_files fs fpath \<noteq> None then roll_if_changed now d else Some (Inr d))
           (\<lambda>d1. Some (case LogPathCreate fpath of Inl e \<Rightarrow> Inl e | Inr _ \<Rightarrow> Inr d1)))"

section \<open>Sockets\<close>

text \<open>
  The message goes to every client; one that does not take it is removed and closed. \<open>cli_write\<close> is the client's
  \<open>Write\<close>. The index goes back by one behind a removal.
\<close>

function socket_loop ::
    "('c \<Rightarrow> string \<Rightarrow> bool \<times> 'c) \<Rightarrow> string \<Rightarrow> nat \<Rightarrow> 'c list \<Rightarrow> 'c list \<Rightarrow> 'c list \<times> 'c list" where
  "socket_loop cli_write msg i clients closed =
     (if i < length clients then
        (case cli_write (clients ! i) msg of
           (True, c) \<Rightarrow> socket_loop cli_write msg (i + 1) (clients[i := c]) closed
         | (False, c) \<Rightarrow> socket_loop cli_write msg i (take i clients @ drop (i + 1) clients) (closed @ [c]))
      else (clients, closed))"
  by pat_completeness auto
termination by (relation "measure (\<lambda>(w, m, i, cs, cl). length cs - i)") auto

declare socket_loop.simps [simp del]

definition LogSocketAppenderWrite :: "('c \<Rightarrow> string \<Rightarrow> bool \<times> 'c) \<Rightarrow> string \<Rightarrow> 'c list \<Rightarrow> 'c list \<times> 'c list" where
  "LogSocketAppenderWrite cli_write msg clients = socket_loop cli_write msg 0 clients []"

definition LogSocketAppenderFlush ::
    "('c \<Rightarrow> string \<Rightarrow> bool \<times> 'c) \<Rightarrow> app_base \<times> 'c list \<Rightarrow> fault + (app_base \<times> 'c list \<times> 'c list)" where
  "LogSocketAppenderFlush cli_write st =
     (case st of
        (b, clients) \<Rightarrow>
          (case ab_buffers b of
             NULL \<Rightarrow> Inl Null_Deref
           | Some (buf, fl) \<Rightarrow>
               (let list = fl @ buf; b1 = b\<lparr>ab_buffers := Some ([], [])\<rparr>
                in if list = [] then Inr (b1, clients, [])
                   else Inr (b1, LogSocketAppenderWrite cli_write (concat (map ai_log list)) clients))))"

section \<open>Buffered and direct output\<close>

text \<open>What happens to an appender: messages, and the wake-ups of its thread.\<close>

datatype log_event = Msg async_item | Tick

fun log_run :: "'s write_fn \<Rightarrow> 's flush_fn \<Rightarrow> log_event list \<Rightarrow> app_base \<times> 's \<Rightarrow> (app_base \<times> 's) run" where
  "log_run Write Flush [] st = Some (Inr st)"
| "log_run Write Flush (Msg it # es) st = and_then (append_item Write Flush it st) (log_run Write Flush es)"
| "log_run Write Flush (Tick # es) st = and_then (Flush st) (log_run Write Flush es)"

fun event_items :: "log_event list \<Rightarrow> async_item list" where
  "event_items [] = []"
| "event_items (Msg it # es) = it # event_items es"
| "event_items (Tick # es) = event_items es"

text \<open>
  A device: \<open>Write\<close> puts one item out, \<open>Flush\<close> those of the buffers; \<open>view\<close> is what can be seen of it, \<open>good\<close> says that it
  works.
\<close>

locale log_device =
  fixes Write :: "'s write_fn"
    and Flush :: "'s flush_fn"
    and good :: "'s \<Rightarrow> bool"
    and view :: "'s \<Rightarrow> 'v"
    and out :: "async_item \<Rightarrow> 'v \<Rightarrow> 'v"
  assumes put_out: "good s \<Longrightarrow> \<exists>s'. Write it s = Some (Inr s') \<and> good s' \<and> view s' = out it (view s)"
    and flush_out: "good s \<Longrightarrow> ab_isasync b \<Longrightarrow> ab_buffers b = Some (buf, fl) \<Longrightarrow>
      \<exists>s'. Flush (b, s) = Some (Inr (b\<lparr>ab_buffers := Some ([], [])\<rparr>, s')) \<and> good s' \<and> view s' = fold out (fl @ buf) (view s)"
begin

text \<open>Buffered: what is out and what is in the buffer make all messages, in order, and the buffer is below its size.\<close>

lemma run_async:
  assumes "good s" "ab_isasync b" "ab_buffers b = Some (buf, [])" "length buf < max 1 (ab_buffersz b)"
  shows "\<exists>b' s' buf'. log_run Write Flush es (b, s) = Some (Inr (b', s')) \<and> good s' \<and> ab_isasync b' \<and>
    ab_buffers b' = Some (buf', []) \<and> ab_buffersz b' = ab_buffersz b \<and> length buf' < max 1 (ab_buffersz b) \<and>
    fold out buf' (view s') = fold out (buf @ event_items es) (view s)"
  using assms
proof (induction es arbitrary: b s buf)
  case Nil
  then show ?case by simp
next
  case (Cons e es)
  show ?case
  proof (cases "\<exists>it. e = Msg it \<and> length (buf @ [it]) < ab_buffersz b")
    case True
    then obtain it where e: "e = Msg it" "length (buf @ [it]) < ab_buffersz b" by blast
    then show ?thesis
      using Cons.IH [of s "b\<lparr>ab_buffers := Some (buf @ [it], [])\<rparr>" "buf @ [it]"] Cons.prems
      by (simp add: append_item_def)
  next
    case False
    define its where "its = (case e of Msg it \<Rightarrow> [it] | Tick \<Rightarrow> [])"
    let ?b = "b\<lparr>ab_buffers := Some (buf @ its, [])\<rparr>"
    obtain s' where f: "Flush (?b, s) = Some (Inr (?b\<lparr>ab_buffers := Some ([], [])\<rparr>, s'))" "good s'"
      "view s' = fold out (buf @ its) (view s)"
      using flush_out [of s ?b "buf @ its" "[]"] Cons.prems by auto
    have b: "b\<lparr>ab_buffers := Some (buf, [])\<rparr> = b" using Cons.prems(3) by simp
    have "log_run Write Flush (e # es) (b, s) = log_run Write Flush es (?b\<lparr>ab_buffers := Some ([], [])\<rparr>, s')"
      using False Cons.prems(2,3) f(1) by (cases e) (auto simp: append_item_def its_def b)
    moreover have "event_items (e # es) = its @ event_items es" by (cases e) (simp_all add: its_def)
    ultimately show ?thesis
      using Cons.IH [of s' "?b\<lparr>ab_buffers := Some ([], [])\<rparr>" "[]"] f(2,3) Cons.prems by simp
  qed
qed

text \<open>Direct: every message is out when its call returns.\<close>

lemma run_direct:
  assumes "good s" "\<not> ab_isasync b"
  shows "\<exists>s'. log_run Write Flush (map Msg its) (b, s) = Some (Inr (b, s')) \<and> good s' \<and> view s' = fold out its (view s)"
  using assms
proof (induction its arbitrary: s)
  case (Cons it its)
  obtain s1 where "Write it s = Some (Inr s1)" "good s1" "view s1 = out it (view s)" using put_out Cons.prems by blast
  with Cons.IH [of s1] Cons.prems(2) show ?case by (simp add: append_item_def)
qed simp

text \<open>So a buffered appender that is flushed shows what a direct one shows.\<close>

lemma async_is_direct:
  assumes "good s" "ab_isasync b" "ab_buffers b = Some ([], [])"
  shows "\<exists>b' s' s'' t. log_run Write Flush es (b, s) = Some (Inr (b', s')) \<and> Flush (b', s') = Some (Inr (b'\<lparr>ab_buffers := Some ([], [])\<rparr>, s'')) \<and>
    log_run Write Flush (map Msg (event_items es)) (b\<lparr>ab_isasync := False\<rparr>, s) = Some (Inr (b\<lparr>ab_isasync := False\<rparr>, t)) \<and>
    view s'' = view t \<and> view t = fold out (event_items es) (view s)"
proof -
  have len: "length ([] :: async_item list) < max 1 (ab_buffersz b)" by simp
  obtain b' s' buf' where r: "log_run Write Flush es (b, s) = Some (Inr (b', s'))" "good s'" "ab_isasync b'"
    "ab_buffers b' = Some (buf', [])" "fold out buf' (view s') = fold out (event_items es) (view s)"
    using run_async [OF assms len, of es] by auto
  obtain s'' where "Flush (b', s') = Some (Inr (b'\<lparr>ab_buffers := Some ([], [])\<rparr>, s''))" "view s'' = fold out buf' (view s')"
    using flush_out [OF r(2-4)] by auto
  moreover obtain t where "log_run Write Flush (map Msg (event_items es)) (b\<lparr>ab_isasync := False\<rparr>, s) =
      Some (Inr (b\<lparr>ab_isasync := False\<rparr>, t))" "view t = fold out (event_items es) (view s)"
    using run_direct [of s "b\<lparr>ab_isasync := False\<rparr>"] assms(1) by auto
  ultimately show ?thesis using r(1,5) by auto
qed

end

text \<open>The console.\<close>

interpretation log_console: log_device LogConsoleAppenderWriter LogConsoleAppenderFlush "\<lambda>_. True" "\<lambda>out. out"
  "\<lambda>it out. out @ cstr (ai_log it)"
proof
  fix s :: string and b :: app_base and buf fl
  assume "ab_isasync b" "ab_buffers b = Some (buf, fl)"
  moreover
  have "fold (\<lambda>it out. out @ cstr (ai_log it)) its s = s @ concat (map (cstr \<circ> ai_log) its)" for its s
    by (induction its arbitrary: s) simp_all
  note this [of "fl @ buf" s]
  ultimately show "\<exists>s'. LogConsoleAppenderFlush (b, s) = Some (Inr (b\<lparr>ab_buffers := Some ([], [])\<rparr>, s')) \<and> True \<and>
      s' = fold (\<lambda>it out. out @ cstr (ai_log it)) (fl @ buf) s"
    by (simp add: LogConsoleAppenderFlush_def del: fold_append map_append)
qed (simp add: LogConsoleAppenderWriter_def)

text \<open>A file that can be opened; it shows its text.\<close>

definition file_text :: "file_dev \<Rightarrow> string" where
  "file_text d = (case fs_files (fd_fs d) (fd_path d) of None \<Rightarrow> [] | Some t \<Rightarrow> t)"

interpretation log_file: log_device LogFileAppenderWriter LogFileAppenderFlush "\<lambda>d. fs_opens (fd_fs d) = []" file_text
  "\<lambda>it out. out @ cstr (ai_log it)"
proof
  fix s :: file_dev and it
  assume "fs_opens (fd_fs s) = []"
  then show "\<exists>s'. LogFileAppenderWriter it s = Some (Inr s') \<and> fs_opens (fd_fs s') = [] \<and>
      file_text s' = file_text s @ cstr (ai_log it)"
    by (simp add: LogFileAppenderWriter_def open_append_def write_to_def file_text_def)
next
  fix s :: file_dev and b :: app_base and buf fl
  assume a: "fs_opens (fd_fs s) = []" "ab_isasync b" "ab_buffers b = Some (buf, fl)"
  let ?put = "\<lambda>it. write_to (fd_path s) (ai_log it)"
  have "fs_opens fs = [] \<Longrightarrow> fs_opens (fold ?put its fs) = [] \<and>
      file_text (s\<lparr>fd_fs := fold ?put its fs\<rparr>) = fold (\<lambda>it out. out @ cstr (ai_log it)) its (file_text (s\<lparr>fd_fs := fs\<rparr>))" for its fs
    by (induction its arbitrary: fs) (simp_all add: write_to_def file_text_def)
  note w = this [of _ "fl @ buf"]
  obtain fs1 where "open_append (fd_path s) (fd_fs s) = (True, fs1)" "fs_opens fs1 = []"
    "file_text (s\<lparr>fd_fs := fs1\<rparr>) = file_text s"
    using a(1) by (simp add: open_append_def file_text_def)
  with w [of fs1] show "\<exists>s'. LogFileAppenderFlush (b, s) = Some (Inr (b\<lparr>ab_buffers := Some ([], [])\<rparr>, s')) \<and>
      fs_opens (fd_fs s') = [] \<and> file_text s' = fold (\<lambda>it out. out @ cstr (ai_log it)) (fl @ buf) (file_text s)"
    using a(3) by (simp add: LogFileAppenderFlush_def del: fold_append)
qed

section \<open>Rolling\<close>

lemma open_good:
  "fs_opens fs = [] \<Longrightarrow> open_append path fs =
    (True, fs\<lparr>fs_files := (fs_files fs)(path \<mapsto> (case fs_files fs path of None \<Rightarrow> [] | Some t \<Rightarrow> t))\<rparr>)"
  by (cases fs) (simp add: open_append_def)

text \<open>Files can be opened and renamed, there are finitely many, and the names of rolled files fit.\<close>

definition roll_good :: "roll_dev \<Rightarrow> bool" where
  "roll_good d \<longleftrightarrow>
     fs_opens (rd_fs d) = [] \<and> (\<forall>p. fs_reach (rd_fs d) p) \<and> finite (dom (fs_files (rd_fs d))) \<and>
     (\<forall>t. le_strftime (rd_env d) (rd_rollpath d) t \<noteq> [] \<and> length (le_strftime (rd_env d) (rd_rollpath d) t) < 1024)"

lemma digits_inj: "digits m = digits n \<longleftrightarrow> m = n"
  by (metis num_digits of_nat_eq_iff)

lemma free_name_stops:
  assumes "files (tfname @ ''-'' @ dec (int j)) = None" "i \<le> j" "f0 \<noteq> []"
  shows "\<exists>f. free_name files tfname f0 i = Some f \<and> files f = None \<and> f \<noteq> []"
  using assms(2,3)
proof (induction "j - i" arbitrary: i f0)
  case 0
  then show ?case using assms(1) by (subst free_name.simps, subst free_name.simps) auto
next
  case (Suc n)
  have "n = j - (i + 1)" "i + 1 \<le> j" using Suc.hyps(2) by auto
  then have "\<exists>f. free_name files tfname (tfname @ ''-'' @ dec (int i)) (i + 1) = Some f \<and> files f = None \<and> f \<noteq> []"
    using Suc.hyps(1) [of "i + 1" "tfname @ ''-'' @ dec (int i)"] by simp
  then show ?case using Suc.prems(2) by (subst free_name.simps) auto
qed

lemma free_name_total:
  assumes "finite (dom files)" "tfname \<noteq> []"
  obtains f where "free_name files tfname tfname 0 = Some f" "files f = None" "f \<noteq> []"
proof -
  have "inj (\<lambda>j. tfname @ ''-'' @ dec (int j))" by (rule injI) (simp add: dec_def digits_inj)
  then have "infinite (range (\<lambda>j. tfname @ ''-'' @ dec (int j)))" by (simp add: finite_image_iff)
  then obtain j where "tfname @ ''-'' @ dec (int j) \<notin> dom files" using assms(1) by (meson finite_subset image_subsetI subsetI)
  then have "files (tfname @ ''-'' @ dec (int j)) = None" by (simp add: domIff)
  then show ?thesis using free_name_stops [of files tfname j 0 tfname] assms(2) that
    by auto
qed

lemma rolling_total:
  assumes "roll_good d"
  obtains f where
    "LogRollingFileAppenderRolling now d = Some (Inr (d\<lparr>rd_fs := rename_file (rd_fpath d) f (rd_fs d), rd_lasttm := now\<rparr>))"
    "fs_files (rd_fs d) f = None" "f \<noteq> []"
proof -
  let ?t = "le_strftime (rd_env d) (rd_rollpath d) (rd_lasttm d)"
  have t: "?t \<noteq> []" "length ?t < 1024" "finite (dom (fs_files (rd_fs d)))" using assms by (simp_all add: roll_good_def)
  obtain f where "free_name (fs_files (rd_fs d)) ?t ?t 0 = Some f" "fs_files (rd_fs d) f = None" "f \<noteq> []"
    using free_name_total [OF t(3,1)] by blast
  with t(2) that show ?thesis by (simp add: LogRollingFileAppenderRolling_def)
qed

text \<open>What a message does to the files.\<close>

lemma write_total:
  assumes "roll_good d"
  obtains d1 where "roll_if_changed (ai_logtm it) d = Some (Inr d1)" "rd_fpath d1 = rd_fpath d"
    "rd_logterm d1 = rd_logterm d" "\<not> LogRollingFileAppenderIsChanged d1 (ai_logtm it)" "roll_good d1"
    "LogRollingFileAppenderWrite it d = Some (Inr (d1\<lparr>rd_fs := write_to (rd_fpath d) (ai_log it) (rd_fs d1)\<rparr>))"
    "roll_good (d1\<lparr>rd_fs := write_to (rd_fpath d) (ai_log it) (rd_fs d1)\<rparr>)"
proof -
  obtain f where f: "LogRollingFileAppenderRolling (ai_logtm it) d =
      Some (Inr (d\<lparr>rd_fs := rename_file (rd_fpath d) f (rd_fs d), rd_lasttm := ai_logtm it\<rparr>))"
    using rolling_total [OF assms] by blast
  define d1 where "d1 = (if LogRollingFileAppenderIsChanged d (ai_logtm it)
    then d\<lparr>rd_fs := rename_file (rd_fpath d) f (rd_fs d), rd_lasttm := ai_logtm it\<rparr> else d)"
  have r: "roll_if_changed (ai_logtm it) d = Some (Inr d1)" by (simp add: roll_if_changed_def f d1_def)
  have same: "rd_fpath d1 = rd_fpath d" "rd_logterm d1 = rd_logterm d" by (simp_all add: d1_def)
  have ch: "\<not> LogRollingFileAppenderIsChanged d1 (ai_logtm it)"
    by (auto simp: d1_def LogRollingFileAppenderIsChanged_def)
  have fin: "finite (dom (fs_files (rename_file old new fs)))" if "finite (dom (fs_files fs))" for old new fs
    using that by (auto simp: rename_file_def split: option.splits)
  have keep: "fs_opens (rename_file old new fs) = fs_opens fs" "fs_reach (rename_file old new fs) = fs_reach fs" for old new fs
    by (simp_all add: rename_file_def split: option.splits)
  have g: "roll_good d1" using assms fin by (auto simp: d1_def roll_good_def keep)
  then have w: "LogRollingFileAppenderWrite it d = Some (Inr (d1\<lparr>rd_fs := write_to (rd_fpath d) (ai_log it) (rd_fs d1)\<rparr>))"
    by (simp add: LogRollingFileAppenderWrite_def r open_good write_to_def roll_good_def)
  have "roll_good (d1\<lparr>rd_fs := write_to (rd_fpath d) (ai_log it) (rd_fs d1)\<rparr>)"
    using g by (simp add: roll_good_def write_to_def)
  with that r same ch g w show ?thesis by blast
qed

definition roll_write :: "async_item \<Rightarrow> roll_dev \<Rightarrow> roll_dev" where
  "roll_write it d = projr (the (LogRollingFileAppenderWrite it d))"

lemma roll_write:
  assumes "roll_good d"
  shows "LogRollingFileAppenderWrite it d = Some (Inr (roll_write it d))" "roll_good (roll_write it d)"
    "rd_fpath (roll_write it d) = rd_fpath d"
    "fs_files (rd_fs (roll_write it d)) (rd_fpath d) \<noteq> None" "rd_logterm (roll_write it d) = rd_logterm d"
  by (rule write_total [OF assms, of it], simp_all add: roll_write_def write_to_def)+

text \<open>The loop of \<open>Flush\<close> over an open file is one \<open>Write\<close> per item.\<close>

lemma roll_items_fold:
  "roll_good d \<Longrightarrow> fs_files (rd_fs d) (rd_fpath d) \<noteq> None \<Longrightarrow> roll_items True its d = Some (Inr (fold roll_write its d))"
proof (induction its arbitrary: d)
  case (Cons it its)
  let ?w = "roll_write it d"
  have IH: "roll_items True its ?w = Some (Inr (fold roll_write its ?w))"
    using Cons.IH [of ?w] roll_write [OF Cons.prems(1), of it] by simp
  have "roll_items True (it # its) d = roll_items True its ?w"
  proof (rule write_total [OF Cons.prems(1), of it])
    fix d1
    assume a: "roll_if_changed (ai_logtm it) d = Some (Inr d1)" "rd_fpath d1 = rd_fpath d" "roll_good d1"
      "LogRollingFileAppenderWrite it d = Some (Inr (d1\<lparr>rd_fs := write_to (rd_fpath d) (ai_log it) (rd_fs d1)\<rparr>))"
    have w: "?w = d1\<lparr>rd_fs := write_to (rd_fpath d) (ai_log it) (rd_fs d1)\<rparr>" by (simp add: roll_write_def a(4))
    show ?thesis
    proof (cases "LogRollingFileAppenderIsChanged d (ai_logtm it)")
      case True
      then have "LogRollingFileAppenderRolling (ai_logtm it) d = Some (Inr d1)" using a(1) by (simp add: roll_if_changed_def)
      then show ?thesis using True a(3) by (simp add: w open_good write_to_def roll_good_def)
    next
      case False
      then have "d1 = d" using a(1) by (simp add: roll_if_changed_def)
      with False show ?thesis by (simp add: w)
    qed
  qed
  with IH show ?case by simp
qed simp

lemma roll_flush_fold:
  assumes "roll_good d" "ab_buffers b = Some (buf, fl)"
  shows "LogRollingFileAppenderFlush (b, d) = Some (Inr (b\<lparr>ab_buffers := Some ([], [])\<rparr>, fold roll_write (fl @ buf) d))"
proof (cases "fl @ buf")
  case Nil
  then show ?thesis using assms(2) by (simp add: LogRollingFileAppenderFlush_def)
next
  case (Cons it its)
  show ?thesis
  proof (rule write_total [OF assms(1), of it])
    fix d1
    assume a: "roll_if_changed (ai_logtm it) d = Some (Inr d1)" "rd_fpath d1 = rd_fpath d" "roll_good d1"
      "\<not> LogRollingFileAppenderIsChanged d1 (ai_logtm it)"
      "LogRollingFileAppenderWrite it d = Some (Inr (d1\<lparr>rd_fs := write_to (rd_fpath d) (ai_log it) (rd_fs d1)\<rparr>))"
    let ?fs = "(rd_fs d1)\<lparr>fs_files := (fs_files (rd_fs d1))
      (rd_fpath d \<mapsto> (case fs_files (rd_fs d1) (rd_fpath d) of None \<Rightarrow> [] | Some t \<Rightarrow> t))\<rparr>"
    have o: "open_append (rd_fpath d) (rd_fs d1) = (True, ?fs)" using a(3) by (simp add: open_good roll_good_def)
    have "LogRollingFileAppenderWrite it (d1\<lparr>rd_fs := ?fs\<rparr>) = LogRollingFileAppenderWrite it d"
      using a(2-5) by (simp add: LogRollingFileAppenderWrite_def roll_if_changed_def LogRollingFileAppenderIsChanged_def
          open_good write_to_def roll_good_def)
    then have w: "roll_write it (d1\<lparr>rd_fs := ?fs\<rparr>) = roll_write it d" by (simp add: roll_write_def)
    have "roll_good (d1\<lparr>rd_fs := ?fs\<rparr>)" "fs_files ?fs (rd_fpath d) \<noteq> None"
      using a(3) by (simp_all add: roll_good_def open_good)
    then have "roll_items True (it # its) (d1\<lparr>rd_fs := ?fs\<rparr>) = Some (Inr (fold roll_write (it # its) d))"
      using roll_items_fold [of "d1\<lparr>rd_fs := ?fs\<rparr>" "it # its"] a(2) w by simp
    then show ?thesis using assms(2) Cons a(1) o by (simp add: LogRollingFileAppenderFlush_def Let_def del: roll_items.simps)
  qed
qed

interpretation log_roll: log_device LogRollingFileAppenderWrite LogRollingFileAppenderFlush roll_good "\<lambda>d. d" roll_write
proof
  fix d it
  assume "roll_good d"
  then show "\<exists>d'. LogRollingFileAppenderWrite it d = Some (Inr d') \<and> roll_good d' \<and> d' = roll_write it d"
    using roll_write by blast
next
  fix d :: roll_dev and b :: app_base and buf fl
  assume a: "roll_good d" "ab_isasync b" "ab_buffers b = Some (buf, fl)"
  have "roll_good (fold roll_write its d)" if "roll_good d" for its d
    using that by (induction its arbitrary: d) (simp_all add: roll_write)
  with a roll_flush_fold [OF a(1,3)]
  show "\<exists>d'. LogRollingFileAppenderFlush (b, d) = Some (Inr (b\<lparr>ab_buffers := Some ([], [])\<rparr>, d')) \<and> roll_good d' \<and>
      d' = fold roll_write (fl @ buf) d" by simp
qed

section \<open>Properties\<close>

lemma fold_cstr: "fold (\<lambda>it out. out @ cstr (ai_log it)) its s = s @ concat (map (cstr \<circ> ai_log) its)"
  by (induction its arbitrary: s) simp_all

text \<open>C11: What a buffered console, or a file that can be opened, shows at any time are the messages in order, up to
  those in the buffer, and there are never as many of these as the buffer's size; so a flush shows all. A direct one
  shows all at once.\<close>
theorem log_buffered:
  assumes "ab_isasync b" "ab_buffers b = Some ([], [])" "fs_opens (fd_fs d) = []"
  shows "(\<exists>b' out' buf'. log_run LogConsoleAppenderWriter LogConsoleAppenderFlush es (b, out) = Some (Inr (b', out')) \<and>
      ab_buffers b' = Some (buf', []) \<and> length buf' < max 1 (ab_buffersz b) \<and>
      out' @ concat (map (cstr \<circ> ai_log) buf') = out @ concat (map (cstr \<circ> ai_log) (event_items es))) \<and>
    (\<exists>b' d' buf'. log_run LogFileAppenderWriter LogFileAppenderFlush es (b, d) = Some (Inr (b', d')) \<and>
      ab_buffers b' = Some (buf', []) \<and> length buf' < max 1 (ab_buffersz b) \<and>
      file_text d' @ concat (map (cstr \<circ> ai_log) buf') = file_text d @ concat (map (cstr \<circ> ai_log) (event_items es))) \<and>
    (\<exists>d'. log_run LogFileAppenderWriter LogFileAppenderFlush (map Msg its) (b\<lparr>ab_isasync := False\<rparr>, d) =
        Some (Inr (b\<lparr>ab_isasync := False\<rparr>, d')) \<and>
      file_text d' = file_text d @ concat (map (cstr \<circ> ai_log) its))"
proof -
  have len: "length ([] :: async_item list) < max 1 (ab_buffersz b)" by simp
  show ?thesis
    using log_console.run_async [OF TrueI assms(1,2) len, of es out] log_file.run_async [OF assms(3,1,2) len, of es]
      log_file.run_direct [OF assms(3), of "b\<lparr>ab_isasync := False\<rparr>" its]
    by (auto simp: fold_cstr)
qed

text \<open>C10: A buffered rolling file, flushed, leaves exactly the files a direct one leaves, whenever its thread woke up.\<close>
theorem log_rolling_buffered:
  assumes "roll_good d" "ab_isasync b" "ab_buffers b = Some ([], [])"
  shows "\<exists>b' d' t. log_run LogRollingFileAppenderWrite LogRollingFileAppenderFlush es (b, d) = Some (Inr (b', d')) \<and>
    LogRollingFileAppenderFlush (b', d') = Some (Inr (b'\<lparr>ab_buffers := Some ([], [])\<rparr>, t)) \<and>
    log_run LogRollingFileAppenderWrite LogRollingFileAppenderFlush (map Msg (event_items es)) (b\<lparr>ab_isasync := False\<rparr>, d) =
      Some (Inr (b\<lparr>ab_isasync := False\<rparr>, t))"
  using log_roll.async_is_direct [OF assms, of es] by blast

text \<open>The messages by period: those that go on with the one of \<open>t\<close>, then those of each next one.\<close>

fun periods :: "log_term \<Rightarrow> tm \<Rightarrow> async_item list \<Rightarrow> async_item list list" where
  "periods k t [] = [[]]"
| "periods k t (it # its) =
     (let gs = periods k (ai_logtm it) its; g = it # hd gs
      in if period k t = period k (ai_logtm it) then g # tl gs else [] # g # tl gs)"

lemma periods_same: "period k s = period k t \<Longrightarrow> periods k s its = periods k t its"
  by (cases its) simp_all

definition item_texts :: "async_item list \<Rightarrow> string" where
  "item_texts its = concat (map (cstr \<circ> ai_log) its)"

lemma item_texts_Cons: "item_texts [] = []" "item_texts (it # its) = cstr (ai_log it) @ item_texts its"
  by (simp_all add: item_texts_def)

lemma item_texts_concat: "concat (map item_texts gs) = item_texts (concat gs)"
  by (induction gs) (simp_all add: item_texts_def)

lemma item_texts_append: "item_texts (xs @ ys) = item_texts xs @ item_texts ys"
  by (simp add: item_texts_def)

lemma periods_spec: "periods k t its \<noteq> [] \<and> concat (periods k t its) = its"
proof (induction its arbitrary: t)
  case (Cons it its)
  then have "periods k (ai_logtm it) its \<noteq> []" "concat (periods k (ai_logtm it) its) = its" by blast+
  then show ?case by (cases "periods k (ai_logtm it) its") (auto simp: Let_def)
qed simp

text \<open>One direct message.\<close>

lemma roll_write_files:
  assumes "roll_good d" "fs_files (rd_fs d) (rd_fpath d) = Some old"
  shows "if period (rd_logterm d) (rd_lasttm d) = period (rd_logterm d) (ai_logtm it)
    then fs_files (rd_fs (roll_write it d)) = (fs_files (rd_fs d))(rd_fpath d \<mapsto> old @ cstr (ai_log it)) \<and>
      rd_lasttm (roll_write it d) = rd_lasttm d
    else (\<exists>f. fs_files (rd_fs d) f = None \<and>
      fs_files (rd_fs (roll_write it d)) = (fs_files (rd_fs d))(f \<mapsto> old, rd_fpath d \<mapsto> cstr (ai_log it)) \<and>
      rd_lasttm (roll_write it d) = ai_logtm it)"
proof (cases "LogRollingFileAppenderIsChanged d (ai_logtm it)")
  case False
  then have "LogRollingFileAppenderWrite it d = Some (Inr (d\<lparr>rd_fs := write_to (rd_fpath d) (ai_log it) (rd_fs d)\<rparr>))"
    using assms(1) by (simp add: LogRollingFileAppenderWrite_def roll_if_changed_def open_good write_to_def roll_good_def)
  then have "roll_write it d = d\<lparr>rd_fs := write_to (rd_fpath d) (ai_log it) (rd_fs d)\<rparr>" by (simp add: roll_write_def)
  with False assms(2) show ?thesis by (simp add: LogRollingFileAppenderIsChanged_def write_to_def)
next
  case True
  obtain f where f: "LogRollingFileAppenderRolling (ai_logtm it) d =
      Some (Inr (d\<lparr>rd_fs := rename_file (rd_fpath d) f (rd_fs d), rd_lasttm := ai_logtm it\<rparr>))"
    "fs_files (rd_fs d) f = None" "f \<noteq> []"
    using rolling_total [OF assms(1)] by blast
  then have ne: "f \<noteq> rd_fpath d" using assms(2) by auto
  let ?fs = "(rd_fs d)\<lparr>fs_files := (fs_files (rd_fs d))(rd_fpath d := None, f \<mapsto> old)\<rparr>"
  have ren: "rename_file (rd_fpath d) f (rd_fs d) = ?fs"
    using assms f(3) ne by (simp add: rename_file_def roll_good_def)
  have "LogRollingFileAppenderWrite it d =
      Some (Inr (d\<lparr>rd_fs := write_to (rd_fpath d) (ai_log it) ?fs, rd_lasttm := ai_logtm it\<rparr>))"
    using True f(1) assms(1) ne
    by (simp add: LogRollingFileAppenderWrite_def roll_if_changed_def ren open_good write_to_def roll_good_def)
  then have w: "roll_write it d = d\<lparr>rd_fs := write_to (rd_fpath d) (ai_log it) ?fs, rd_lasttm := ai_logtm it\<rparr>"
    by (simp add: roll_write_def)
  have "fs_files (rd_fs (roll_write it d)) = (fs_files (rd_fs d))(f \<mapsto> old, rd_fpath d \<mapsto> cstr (ai_log it))"
    using ne by (auto simp: w write_to_def)
  with True f(2) show ?thesis by (auto simp: LogRollingFileAppenderIsChanged_def w)
qed

text \<open>The contents of the files that come of it: the old text starts the first.\<close>

definition period_texts :: "string \<Rightarrow> async_item list list \<Rightarrow> string list" where
  "period_texts old gs = (old @ item_texts (hd gs)) # map item_texts (tl gs)"

lemma roll_fold_files:
  assumes "roll_good d" "fs_files (rd_fs d) (rd_fpath d) = Some old"
    and ts_def: "ts = period_texts old (periods (rd_logterm d) (rd_lasttm d) its)"
  shows "\<exists>names. length names + 1 = length ts \<and> distinct names \<and> (\<forall>n \<in> set names. fs_files (rd_fs d) n = None) \<and>
    fs_files (rd_fs (fold roll_write its d)) = (fs_files (rd_fs d))(names [\<mapsto>] butlast ts, rd_fpath d \<mapsto> List.last ts)"
  using assms
proof (induction its arbitrary: d old ts)
  case Nil
  then show ?case by (intro exI [of _ "[]"]) (auto simp: period_texts_def item_texts_def)
next
  case (Cons it its)
  let ?w = "roll_write it d" and ?k = "rd_logterm d"
  let ?gs = "periods ?k (ai_logtm it) its"
  have gs: "?gs \<noteq> []" using periods_spec by blast
  have w: "roll_good ?w" "rd_fpath ?w = rd_fpath d" "rd_logterm ?w = ?k"
    using roll_write [OF Cons.prems(1), of it] by simp_all
  show ?case
  proof (cases "period ?k (rd_lasttm d) = period ?k (ai_logtm it)")
    case True
    then have f: "fs_files (rd_fs ?w) = (fs_files (rd_fs d))(rd_fpath d \<mapsto> old @ cstr (ai_log it))" "rd_lasttm ?w = rd_lasttm d"
      using roll_write_files [OF Cons.prems(1,2), of it] by auto
    have ts: "ts = period_texts (old @ cstr (ai_log it)) ?gs"
      unfolding Cons.prems(3) periods.simps Let_def if_P [OF True] period_texts_def by (simp add: item_texts_Cons)
    have "periods (rd_logterm ?w) (rd_lasttm ?w) its = ?gs"
      unfolding w(3) f(2) using True by (rule periods_same)
    with ts have tsw: "ts = period_texts (old @ cstr (ai_log it)) (periods (rd_logterm ?w) (rd_lasttm ?w) its)" by (simp only:)
    have "fs_files (rd_fs ?w) (rd_fpath ?w) = Some (old @ cstr (ai_log it))" unfolding f w by simp
    from Cons.IH [OF w(1) this tsw] obtain names where n: "length names + 1 = length ts" "distinct names"
      "\<forall>n \<in> set names. fs_files (rd_fs ?w) n = None"
      "fs_files (rd_fs (fold roll_write its ?w)) = (fs_files (rd_fs ?w))(names [\<mapsto>] butlast ts, rd_fpath ?w \<mapsto> List.last ts)"
      by blast
    have "\<forall>n \<in> set names. n \<noteq> rd_fpath d"
      using n(3) by (auto simp: f split: if_splits)
    then have "rd_fpath d \<notin> set names" by blast
    then have "(fs_files (rd_fs ?w))(names [\<mapsto>] butlast ts, rd_fpath ?w \<mapsto> List.last ts) =
        (fs_files (rd_fs d))(names [\<mapsto>] butlast ts, rd_fpath d \<mapsto> List.last ts)"
      by (simp add: f w)
    moreover have "\<forall>n \<in> set names. fs_files (rd_fs d) n = None" using n(3) by (auto simp: f split: if_splits)
    ultimately show ?thesis using n by (intro exI [of _ names]) simp
  next
    case False
    then obtain f where f: "fs_files (rd_fs d) f = None"
      "fs_files (rd_fs ?w) = (fs_files (rd_fs d))(f \<mapsto> old, rd_fpath d \<mapsto> cstr (ai_log it))" "rd_lasttm ?w = ai_logtm it"
      using roll_write_files [OF Cons.prems(1,2), of it] by auto
    let ?ts = "period_texts (cstr (ai_log it)) ?gs"
    have ts: "ts = old # ?ts"
      unfolding Cons.prems(3) periods.simps Let_def if_not_P [OF False] period_texts_def by (simp add: item_texts_Cons)
    have tsw: "?ts = period_texts (cstr (ai_log it)) (periods (rd_logterm ?w) (rd_lasttm ?w) its)" unfolding w(3) f(3) ..
    have "fs_files (rd_fs ?w) (rd_fpath ?w) = Some (cstr (ai_log it))" unfolding f w by simp
    from Cons.IH [OF w(1) this tsw] obtain names where n: "length names + 1 = length ?ts" "distinct names"
      "\<forall>n \<in> set names. fs_files (rd_fs ?w) n = None"
      "fs_files (rd_fs (fold roll_write its ?w)) = (fs_files (rd_fs ?w))(names [\<mapsto>] butlast ?ts, rd_fpath ?w \<mapsto> List.last ?ts)"
      by blast
    have fresh: "\<forall>n \<in> set names. fs_files (rd_fs d) n = None \<and> n \<noteq> rd_fpath d \<and> n \<noteq> f"
      using n(3) by (auto simp: f split: if_splits)
    have ne: "?ts \<noteq> []" by (simp add: period_texts_def)
    have "f \<noteq> rd_fpath d" using f(1) Cons.prems(2) by auto
    moreover have "rd_fpath d \<notin> set names" using fresh by blast
    ultimately have "(fs_files (rd_fs ?w))(names [\<mapsto>] butlast ?ts, rd_fpath ?w \<mapsto> List.last ?ts) =
        (fs_files (rd_fs d))((f # names) [\<mapsto>] butlast ts, rd_fpath d \<mapsto> List.last ts)"
      by (simp add: f w ts ne)
    with n fresh f(1) show ?thesis by (intro exI [of _ "f # names"]) (auto simp: ts)
  qed
qed

text \<open>C9: A rolling file that is there loses nothing and overwrites nothing: the messages of each period, in order, are the
  contents of one file, the last period's of the file itself, those before of new files; the text from before goes
  with the first.\<close>
theorem log_rolling:
  assumes "roll_good d" "fs_files (rd_fs d) (rd_fpath d) = Some old" "\<not> ab_isasync b"
    and ts_def: "ts = period_texts old (periods (rd_logterm d) (rd_lasttm d) its)"
  shows "\<exists>names d'. log_run LogRollingFileAppenderWrite LogRollingFileAppenderFlush (map Msg its) (b, d) = Some (Inr (b, d')) \<and>
    length names + 1 = length ts \<and> distinct names \<and> set names \<inter> dom (fs_files (rd_fs d)) = {} \<and>
    fs_files (rd_fs d') = (fs_files (rd_fs d))(names [\<mapsto>] butlast ts, rd_fpath d \<mapsto> List.last ts) \<and>
    concat ts = old @ concat (map (cstr \<circ> ai_log) its)"
proof -
  obtain names where n: "length names + 1 = length ts" "distinct names" "\<forall>n \<in> set names. fs_files (rd_fs d) n = None"
    "fs_files (rd_fs (fold roll_write its d)) = (fs_files (rd_fs d))(names [\<mapsto>] butlast ts, rd_fpath d \<mapsto> List.last ts)"
    using roll_fold_files [OF assms(1,2) ts_def] by blast
  have "concat (period_texts old gs) = old @ concat (map (cstr \<circ> ai_log) (concat gs))" if "gs \<noteq> []" for gs
    using that by (cases gs) (simp_all add: period_texts_def item_texts_concat item_texts_append flip: item_texts_def)
  then have c: "concat ts = old @ concat (map (cstr \<circ> ai_log) its)"
    using periods_spec [of "rd_logterm d" "rd_lasttm d" its] by (simp add: ts_def)
  have "set names \<inter> dom (fs_files (rd_fs d)) = {}" using n(3) by auto
  then show ?thesis using log_roll.run_direct [OF assms(1,3), of its] n(1,2,4) c by blast
qed

text \<open>A client gets the message; those that did not take it are removed, in order.\<close>

lemma socket_loop_spec:
  "socket_loop w msg i clients closed =
    (take i clients @ map (\<lambda>c. snd (w c msg)) (filter (\<lambda>c. fst (w c msg)) (drop i clients)),
     closed @ map (\<lambda>c. snd (w c msg)) (filter (\<lambda>c. \<not> fst (w c msg)) (drop i clients)))"
proof (induction w msg i clients closed rule: socket_loop.induct)
  case (1 w msg i clients closed)
  show ?case
  proof (cases "i < length clients")
    case True
    have d: "drop i clients = clients ! i # drop (i + 1) clients" using True by (simp add: Cons_nth_drop_Suc)
    obtain ok c where w: "w (clients ! i) msg = (ok, c)" by (cases "w (clients ! i) msg")
    show ?thesis
    proof (cases ok)
      case ok: True
      have "take (i + 1) (clients[i := c]) = take i clients @ [c]" using True by (simp add: take_Suc_conv_app_nth)
      then show ?thesis using 1(1) [OF True w [symmetric]] True ok w by (subst socket_loop.simps) (simp add: d)
    next
      case False
      have "drop i (take i clients @ drop (i + 1) clients) = drop (i + 1) clients" using True by simp
      then show ?thesis using 1(2) [OF True w [symmetric]] True False w by (subst socket_loop.simps) (simp add: d)
    qed
  qed (subst socket_loop.simps, simp)
qed

definition example_time :: "int \<Rightarrow> tm" where
  "example_time day = \<lparr>tm_sec = 0, tm_min = 0, tm_hour = 0, tm_mday = day, tm_mon = 0, tm_year = 126, tm_wday = 0, tm_yday = 0, tm_isdst = 0\<rparr>"

definition example_roll :: roll_dev where
  "example_roll =
     \<lparr>rd_env = test_env\<lparr>le_strftime := (\<lambda>fmt t. ''x.log.1'')\<rparr>, rd_logterm = CMLogTerm_Date, rd_fpath = ''x.log'', rd_rollpath = ''x.log.%d'',
      rd_lasttm = example_time 1, rd_fs = \<lparr>fs_files = [''x.log'' \<mapsto> ''a''], fs_opens = [], fs_reach = (\<lambda>_. True)\<rparr>\<rparr>"

lemma example_roll_good: "roll_good example_roll"
  by (simp add: roll_good_def example_roll_def test_env_def)

theorem log_rolling_witness:
  "\<exists>name d'. log_run LogRollingFileAppenderWrite LogRollingFileAppenderFlush
      (map Msg [\<lparr>ai_log = ''b'', ai_logtm = example_time 1\<rparr>, \<lparr>ai_log = ''c'', ai_logtm = example_time 2\<rparr>])
      (new_app_base, example_roll) = Some (Inr (new_app_base, d')) \<and>
    name \<noteq> ''x.log'' \<and> fs_files (rd_fs d') = [name \<mapsto> ''ab'', ''x.log'' \<mapsto> ''c'']"
proof -
  let ?its = "[\<lparr>ai_log = ''b'', ai_logtm = example_time 1\<rparr>, \<lparr>ai_log = ''c'', ai_logtm = example_time 2\<rparr>]"
  have f: "fs_files (rd_fs example_roll) (rd_fpath example_roll) = Some ''a''" by (simp add: example_roll_def)
  have s: "\<not> ab_isasync new_app_base" by (simp add: new_app_base_def)
  have ts: "[''ab'', ''c''] = period_texts ''a'' (periods (rd_logterm example_roll) (rd_lasttm example_roll) ?its)"
    by (simp add: example_roll_def example_time_def period_def term_offset_def tm_fields_def period_texts_def item_texts_def cstr_def)
  obtain names d' where n: "log_run LogRollingFileAppenderWrite LogRollingFileAppenderFlush (map Msg ?its)
      (new_app_base, example_roll) = Some (Inr (new_app_base, d'))"
    "length names + 1 = length [''ab'', ''c'']" "set names \<inter> dom (fs_files (rd_fs example_roll)) = {}"
    "fs_files (rd_fs d') = (fs_files (rd_fs example_roll))(names [\<mapsto>] butlast [''ab'', ''c''], rd_fpath example_roll \<mapsto> List.last [''ab'', ''c''])"
    using log_rolling [OF example_roll_good f s ts] by blast
  then obtain name where "names = [name]" by (cases names) auto
  with n show ?thesis by (intro exI [of _ name] exI [of _ d']) (auto simp: example_roll_def)
qed

theorem log_rolling_buffered_witness:
  "\<exists>b' d' t. log_run LogRollingFileAppenderWrite LogRollingFileAppenderFlush
      [Msg \<lparr>ai_log = ''b'', ai_logtm = example_time 1\<rparr>, Tick] (\<lparr>ab_isasync = True, ab_buffersz = 10, ab_buffers = Some ([], [])\<rparr>, example_roll) =
      Some (Inr (b', d')) \<and>
    LogRollingFileAppenderFlush (b', d') = Some (Inr (b'\<lparr>ab_buffers := Some ([], [])\<rparr>, t))"
  using log_rolling_buffered [OF example_roll_good, of "\<lparr>ab_isasync = True, ab_buffersz = 10, ab_buffers = Some ([], [])\<rparr>"
      "[Msg \<lparr>ai_log = ''b'', ai_logtm = example_time 1\<rparr>, Tick]"] by auto

theorem log_buffered_witness:
  "\<exists>b' out' buf'. log_run LogConsoleAppenderWriter LogConsoleAppenderFlush [Msg \<lparr>ai_log = ''b'', ai_logtm = example_time 1\<rparr>]
      (\<lparr>ab_isasync = True, ab_buffersz = 10, ab_buffers = Some ([], [])\<rparr>, ''a'') = Some (Inr (b', out')) \<and>
    ab_buffers b' = Some (buf', []) \<and> out' @ concat (map (cstr \<circ> ai_log) buf') = ''ab''"
  using log_buffered [of "\<lparr>ab_isasync = True, ab_buffersz = 10, ab_buffers = Some ([], [])\<rparr>"
      "\<lparr>fd_path = ''x'', fd_fs = \<lparr>fs_files = (\<lambda>_. None), fs_opens = [], fs_reach = (\<lambda>_. True)\<rparr>\<rparr>"
      "[Msg \<lparr>ai_log = ''b'', ai_logtm = example_time 1\<rparr>]" "''a''" "[]"]
  by (simp add: cstr_def) blast

end
